(* ===== verification/Prelude.thy ===== *)
theory Prelude
  imports Main "HOL-Library.Word" "HOL-Library.Monad_Syntax"
begin

text \<open>
  Shared vocabulary of the development: the machine integers of the Rust sources, the way
  panics and errors are represented, saturating arithmetic on words, and the generic facts on
  lists that the component theories use.

  \<^item> A Rust value of type \<open>u8\<close>, \<open>u64\<close>, \<open>u128\<close> is a word of that width. \<open>usize\<close> counters
    of in-memory objects (queue lengths, byte sizes) are \<open>nat\<close>: they only grow by the size of
    data that is held in memory, so the upward overflow cannot occur, while every
    subtraction is written with \<open>sub_usize\<close>, which fails on underflow.
  \<^item> A computation that can panic returns an \<open>option\<close>, whose \<open>None\<close> is the panic
    (failed \<open>unwrap\<close>, \<open>unreachable!\<close>, failed assertion, arithmetic underflow).
  \<^item> A Rust \<open>Result\<close> is a sum: \<open>Inl\<close> for \<open>Err\<close> and \<open>Inr\<close> for \<open>Ok\<close>.
\<close>

type_synonym u8 = "8 word"
type_synonym u64 = "64 word"
type_synonym u128 = "128 word"

named_theorems rust_simps \<open>unfolding rules of the operations of the model\<close>
named_theorems inv_intros \<open>preservation of component invariants\<close>

section \<open>Checked and saturating arithmetic\<close>

definition sub_usize :: "nat \<Rightarrow> nat \<Rightarrow> nat option" where
  "sub_usize a b = (if b \<le> a then Some (a - b) else None)"

lemma sub_usize_add [simp]: "sub_usize (a + b) b = Some a" "sub_usize (b + a) b = Some a"
  by (simp_all add: sub_usize_def)

lemma sub_usize_Some_iff: "sub_usize a b = Some c \<longleftrightarrow> a = c + b"
  by (auto simp: sub_usize_def)

lemma sub_usize_Suc [simp]: "sub_usize (Suc a) (Suc 0) = Some a"
  by (simp add: sub_usize_def)

lemma sub_usize_zero [simp]: "sub_usize a 0 = Some a"
  by (simp add: sub_usize_def)

text \<open>Addition on a machine integer with overflow checks, as in the default build.\<close>

definition add_checked :: "'a::len word \<Rightarrow> 'a word \<Rightarrow> 'a word option" where
  "add_checked a b = (if unat a + unat b < 2 ^ LENGTH('a) then Some (a + b) else None)"

definition saturating_add :: "'a::len word \<Rightarrow> 'a word \<Rightarrow> 'a word" where
  "saturating_add a b = (if unat a + unat b < 2 ^ LENGTH('a) then a + b else - 1)"

definition saturating_sub :: "'a::len word \<Rightarrow> 'a word \<Rightarrow> 'a word" where
  "saturating_sub a b = (if b \<le> a then a - b else 0)"

definition saturating_mul :: "'a::len word \<Rightarrow> 'a word \<Rightarrow> 'a word" where
  "saturating_mul a b = (if unat a * unat b < 2 ^ LENGTH('a) then a * b else - 1)"

lemma word_eq_unatI: "unat a = unat b \<Longrightarrow> a = b" for a b :: "'a::len word"
  by (rule unsigned_word_eqI)

lemma unat_minus_1_word: "unat (- 1 :: 'a::len word) = 2 ^ LENGTH('a) - 1"
  by (simp add: unsigned_minus_1_eq_mask mask_eq_exp_minus_1)

lemma unat_of_nat_small: "n < 2 ^ LENGTH('a) \<Longrightarrow> unat (of_nat n :: 'a::len word) = n"
  by (simp add: unsigned_of_nat take_bit_nat_eq_self)

lemma add_checked_Some: "add_checked a b = Some c \<Longrightarrow> unat c = unat a + unat b" for a b c :: "'a::len word"
  by (auto simp: add_checked_def unat_word_ariths split: if_splits)

lemma unat_saturating_add:
  "unat (saturating_add a b) = min (unat a + unat b) (2 ^ LENGTH('a) - 1)"
  for a b :: "'a::len word"
  by (auto simp: saturating_add_def unat_word_ariths unat_minus_1_word)

lemma unat_saturating_sub: "unat (saturating_sub a b) = unat a - unat b"
  for a b :: "'a::len word"
  by (auto simp: saturating_sub_def unat_sub word_le_nat_alt)

lemma unat_saturating_mul:
  "unat (saturating_mul a b) = min (unat a * unat b) (2 ^ LENGTH('a) - 1)"
  for a b :: "'a::len word"
  by (auto simp: saturating_mul_def unat_word_ariths unat_minus_1_word)

lemma unat_le_max: "unat a \<le> 2 ^ LENGTH('a) - 1" for a :: "'a::len word"
proof -
  have "unat a < 2 ^ LENGTH('a)" by (rule unsigned_less)
  then show ?thesis by linarith
qed

section \<open>Results and panics\<close>

text \<open>
  The \<open>?\<close> operator: in a function returning a \<open>Result\<close> (\<open>ok_bind\<close>), and in one that may also
  panic (\<open>try_bind\<close>). \<open>try_map\<close> is \<open>iter().map(f).collect::<Result<_, _>>()\<close>: the first error
  ends it.
\<close>

fun ok_bind :: "'e + 'a \<Rightarrow> ('a \<Rightarrow> 'e + 'b) \<Rightarrow> 'e + 'b" where
  "ok_bind (Inl e) f = Inl e"
| "ok_bind (Inr a) f = f a"

fun try_bind :: "('e + 'a) option \<Rightarrow> ('a \<Rightarrow> ('e + 'b) option) \<Rightarrow> ('e + 'b) option" where
  "try_bind None f = None"
| "try_bind (Some (Inl e)) f = Some (Inl e)"
| "try_bind (Some (Inr a)) f = f a"

fun try_map :: "('a \<Rightarrow> ('e + 'b) option) \<Rightarrow> 'a list \<Rightarrow> ('e + 'b list) option" where
  "try_map f [] = Some (Inr [])"
| "try_map f (x # xs) = try_bind (f x) (\<lambda>y. try_bind (try_map f xs) (\<lambda>ys. Some (Inr (y # ys))))"

fun is_ok :: "'e + 'a \<Rightarrow> bool" where
  "is_ok (Inl e) = False"
| "is_ok (Inr a) = True"

lemma is_ok_iff: "is_ok r \<longleftrightarrow> (\<exists>a. r = Inr a)"
  by (cases r) auto

lemma if_err_eq_ok: "(if c then Inl e else r) = Inr a \<longleftrightarrow> \<not> c \<and> r = Inr a"
  by simp

lemma try_map_roundtrip:
  "(\<And>x. x \<in> set xs \<Longrightarrow> f (g x) = Some (Inr x)) \<Longrightarrow> try_map f (map g xs) = Some (Inr xs)"
  by (induction xs) auto

lemma try_bind_eq_ok_iff:
  "try_bind x f = Some (Inr b) \<longleftrightarrow> (\<exists>a. x = Some (Inr a) \<and> f a = Some (Inr b))"
  by (induction x f rule: try_bind.induct) auto

lemma try_map_length: "try_map f xs = Some (Inr ys) \<Longrightarrow> length ys = length xs"
  by (induction xs arbitrary: ys) (auto simp: try_bind_eq_ok_iff)

section \<open>Lists\<close>

lemma sum_list_map_filter_nat:
  "sum_list (map f xs) = sum_list (map f (filter P xs)) + sum_list (map f (filter (\<lambda>x. \<not> P x) xs))"
  for f :: "'a \<Rightarrow> nat"
  by (induction xs) auto

lemma zip_tl_all_iff_successively:
  "(\<forall>(a, b) \<in> set (zip xs (tl xs)). P a b) \<longleftrightarrow> successively P xs"
proof (induction xs)
  case (Cons x xs)
  then show ?case by (cases xs) auto
qed simp

lemma sorted_wrt_tl: "sorted_wrt P xs \<Longrightarrow> sorted_wrt P (tl xs)"
  by (cases xs) auto

lemma takeWhile_filter_sorted:
  assumes "sorted_wrt R xs" and "\<And>x y. R x y \<Longrightarrow> P y \<Longrightarrow> P x"
  shows "takeWhile P xs = filter P xs"
  using assms(1)
proof (induction xs)
  case (Cons x xs)
  show ?case
  proof (cases "P x")
    case False
    with Cons.prems assms(2) have "\<forall>y\<in>set xs. \<not> P y" by auto
    with False show ?thesis by (simp add: filter_False)
  qed (use Cons in simp)
qed simp

text \<open>\<open>iter().flatten()\<close> over optional items.\<close>

fun somes :: "'a option list \<Rightarrow> 'a list" where
  "somes [] = []"
| "somes (None # xs) = somes xs"
| "somes (Some x # xs) = x # somes xs"

lemma somes_append [simp]: "somes (xs @ ys) = somes xs @ somes ys"
  by (induction xs rule: somes.induct) auto

lemma somes_map_Some [simp]: "somes (map Some xs) = xs"
  by (induction xs) auto

lemma length_somes: "length (somes xs) = length (filter (\<lambda>x. x \<noteq> None) xs)"
  by (induction xs rule: somes.induct) auto

lemma somes_update_None:
  "i < length xs \<Longrightarrow> xs ! i = Some x \<Longrightarrow>
    somes (xs[i := None]) = somes (take i xs) @ somes (drop (Suc i) xs) \<and>
    somes xs = somes (take i xs) @ x # somes (drop (Suc i) xs)"
  by (simp add: upd_conv_take_nth_drop)
    (metis id_take_nth_drop somes.simps(3) somes_append)

lemma option_bind_eq_Some_conv [simp]:
  "(x \<bind> f) = Some y \<longleftrightarrow> (\<exists>a. x = Some a \<and> f a = Some y)"
  by (cases x) auto

lemma in_set_dropWhile: "x \<in> set xs \<Longrightarrow> \<not> P x \<Longrightarrow> x \<in> set (dropWhile P xs)"
  by (induction xs) auto

lemma map_filter_none: "(\<And>x. x \<in> set xs \<Longrightarrow> f x = None) \<Longrightarrow> List.map_filter f xs = []"
  by (induction xs) (auto simp: List.map_filter_simps)

lemma map_filter_upd:
  "j \<notin> set xs \<Longrightarrow> List.map_filter (f(j := v)) xs = List.map_filter f xs"
  by (induction xs) (auto simp: List.map_filter_simps split: option.split)

lemma map_filter_append:
  "List.map_filter f (xs @ ys) = List.map_filter f xs @ List.map_filter f ys"
  by (simp add: List.map_filter_def)

lemma map_filter_first:
  assumes "f j = Some r" and "\<And>i. i < j \<Longrightarrow> f i = None" and "j < n"
  shows "List.map_filter f [0..<n] = r # List.map_filter (f(j := None)) [0..<n]"
proof -
  have split: "[0..<n] = [0..<j] @ j # [Suc j..<n]"
    using assms(3) upt_add_eq_append [of 0 j "n - j"] upt_conv_Cons [of j n] by simp
  have "List.map_filter f [0..<j] = []" using assms(2) by (intro map_filter_none) simp
  moreover have "List.map_filter (f(j := None)) [0..<j] = []"
    using assms(2) by (intro map_filter_none) simp
  ultimately show ?thesis
    using assms(1) by (simp add: split map_filter_append List.map_filter_simps map_filter_upd)
qed

lemma map_filter_upt:
  assumes "\<And>i. i < length xs \<Longrightarrow> f (k + i) = xs ! i"
  shows "List.map_filter f [k..<k + length xs] = somes xs"
  using assms
proof (induction xs arbitrary: k)
  case (Cons x xs)
  have "f (Suc k + i) = xs ! i" if "i < length xs" for i
    using Cons.prems [of "Suc i"] that by simp
  then have "List.map_filter f [Suc k..<Suc k + length xs] = somes xs" by (rule Cons.IH)
  moreover have "[k..<k + length (x # xs)] = k # [Suc k..<Suc k + length xs]"
    using upt_conv_Cons [of k "k + length (x # xs)"] by simp
  moreover have "f k = x" using Cons.prems [of 0] by simp
  ultimately show ?case by (cases x) (simp_all add: List.map_filter_simps del: upt_Suc)
qed (simp add: List.map_filter_simps)

section \<open>Runs\<close>

text \<open>A sequence of operations, each of which may fail; the first failure ends the run.\<close>

fun run_ops :: "('o \<Rightarrow> 's \<Rightarrow> 's option) \<Rightarrow> 'o list \<Rightarrow> 's \<Rightarrow> 's option" where
  "run_ops step [] s = Some s"
| "run_ops step (o1 # os) s = (case step o1 s of None \<Rightarrow> None | Some s' \<Rightarrow> run_ops step os s')"

lemma run_ops_append:
  "run_ops step (xs @ ys) s = (case run_ops step xs s of None \<Rightarrow> None | Some s' \<Rightarrow> run_ops step ys s')"
  by (induction xs arbitrary: s) (auto split: option.split)

end
