(* ===== verification/Cycles.thy ===== *)
theory Cycles
  imports Prelude
begin

text \<open>
  Cycles, the unit of resource accounting (\<open>rs/types/types/src/funds/cycles.rs\<close>): a \<open>u128\<close>
  whose arithmetic saturates, its split into two 64-bit halves, and its little-endian byte
  encoding used in the protobuf messages.
\<close>

unbundle bit_operations_syntax

type_synonym cycles = u128

section \<open>Model\<close>

definition cycles_zero :: cycles where
  "cycles_zero = 0"

definition cycles_from_parts :: "u64 \<Rightarrow> u64 \<Rightarrow> cycles" where
  "cycles_from_parts high low = push_bit 64 (ucast high) OR ucast low"

definition cycles_high64 :: "cycles \<Rightarrow> u64" where
  "cycles_high64 c = ucast (drop_bit 64 c)"

definition cycles_low64 :: "cycles \<Rightarrow> u64" where
  "cycles_low64 c = ucast (c AND 0xffffffffffffffff)"

definition cycles_into_parts :: "cycles \<Rightarrow> u64 \<times> u64" where
  "cycles_into_parts c = (cycles_high64 c, cycles_low64 c)"

definition cycles_take :: "cycles \<Rightarrow> cycles \<times> cycles" where
  "cycles_take c = (c, 0)"

definition cycles_is_zero :: "cycles \<Rightarrow> bool" where
  "cycles_is_zero c \<longleftrightarrow> c = 0"

definition cycles_add :: "cycles \<Rightarrow> cycles \<Rightarrow> cycles" where
  "cycles_add a b = saturating_add a b"

definition cycles_sub :: "cycles \<Rightarrow> cycles \<Rightarrow> cycles" where
  "cycles_sub a b = saturating_sub a b"

definition cycles_mul :: "cycles \<Rightarrow> u128 \<Rightarrow> cycles" where
  "cycles_mul a b = saturating_mul a b"

text \<open>Division panics on a zero divisor.\<close>

definition cycles_div :: "cycles \<Rightarrow> u128 \<Rightarrow> cycles option" where
  "cycles_div a b = (if b = 0 then None else Some (a div b))"

text \<open>
  \<open>u128::to_le_bytes\<close> and \<open>u128::from_le_bytes\<close> of the standard library, and the two
  conversions of the source that use them. Converting a slice of the wrong length panics.
\<close>

definition u128_to_le_bytes :: "u128 \<Rightarrow> u8 list" where
  "u128_to_le_bytes c = map (\<lambda>i. ucast (drop_bit (8 * i) c)) [0..<16]"

definition u128_from_le_bytes :: "u8 list \<Rightarrow> u128" where
  "u128_from_le_bytes bs = foldr (\<lambda>b acc. ucast b OR push_bit 8 acc) bs 0"

definition cycles_to_bytes :: "cycles \<Rightarrow> u8 list" where
  "cycles_to_bytes c = u128_to_le_bytes c"

definition cycles_from_bytes :: "u8 list \<Rightarrow> cycles option" where
  "cycles_from_bytes bs = (if length bs = 16 then Some (u128_from_le_bytes bs) else None)"

section \<open>Arithmetic\<close>

abbreviation cycles_max :: nat where
  "cycles_max \<equiv> 2 ^ 128 - 1"

lemma unat_cycles_add: "unat (cycles_add a b) = min (unat a + unat b) cycles_max"
  by (simp add: cycles_add_def unat_saturating_add)

lemma unat_cycles_sub: "unat (cycles_sub a b) = unat a - unat b"
  by (simp add: cycles_sub_def unat_saturating_sub)

lemma unat_cycles_mul: "unat (cycles_mul a b) = min (unat a * unat b) cycles_max"
  by (simp add: cycles_mul_def unat_saturating_mul)

lemma unat_cycles_le_max: "unat (c :: cycles) \<le> cycles_max"
  using unat_le_max [of c] by simp

lemma cycles_add_commute: "cycles_add a b = cycles_add b a"
  by (rule word_eq_unatI) (simp add: unat_cycles_add add.commute)

lemma cycles_add_assoc: "cycles_add (cycles_add a b) c = cycles_add a (cycles_add b c)"
  by (rule word_eq_unatI) (simp add: unat_cycles_add min_def)

lemma cycles_add_0 [simp]: "cycles_add 0 c = c" "cycles_add c 0 = c"
proof -
  show "cycles_add 0 c = c"
    using unat_cycles_le_max [of c] by (intro word_eq_unatI) (simp add: unat_cycles_add)
  then show "cycles_add c 0 = c" by (simp add: cycles_add_commute)
qed

lemma cycles_sub_0 [simp]: "cycles_sub c 0 = c"
  by (rule word_eq_unatI) (simp add: unat_cycles_sub)

lemma cycles_add_sub:
  assumes "unat a + unat b \<le> cycles_max"
  shows "cycles_sub (cycles_add a b) b = a"
  using assms by (intro word_eq_unatI) (simp add: unat_cycles_sub unat_cycles_add)

section \<open>Halves and bytes\<close>

lemma cycles_parts_roundtrip: "cycles_into_parts (cycles_from_parts h l) = (h, l)"
proof -
  have "cycles_high64 (cycles_from_parts h l) = h"
    by (rule bit_word_eqI)
      (auto simp: cycles_high64_def cycles_from_parts_def bit_simps dest: bit_imp_le_length)
  moreover have "cycles_low64 (cycles_from_parts h l) = l"
  proof -
    have m: "0xffffffffffffffff = (mask 64 :: u128)" by (simp add: mask_eq_exp_minus_1)
    show ?thesis unfolding cycles_low64_def m
      by (rule bit_word_eqI) (auto simp: cycles_from_parts_def bit_simps dest: bit_imp_le_length)
  qed
  ultimately show ?thesis by (simp add: cycles_into_parts_def)
qed

lemma cycles_from_into_parts: "case_prod cycles_from_parts (cycles_into_parts c) = c"
proof -
  have m: "0xffffffffffffffff = (mask 64 :: u128)" by (simp add: mask_eq_exp_minus_1)
  show ?thesis
    unfolding cycles_into_parts_def cycles_from_parts_def cycles_high64_def cycles_low64_def m prod.case
    by (rule bit_word_eqI) (auto simp: bit_simps dest: bit_imp_le_length)
qed

lemma bit_from_le_bytes:
  "n < 128 \<Longrightarrow> bit (u128_from_le_bytes bs) n \<longleftrightarrow>
    n div 8 < length bs \<and> bit (bs ! (n div 8)) (n mod 8)"
proof (induction bs arbitrary: n)
  case Nil
  then show ?case by (simp add: u128_from_le_bytes_def)
next
  case (Cons b bs)
  have step: "u128_from_le_bytes (b # bs) = ucast b OR push_bit 8 (u128_from_le_bytes bs)"
    by (simp add: u128_from_le_bytes_def)
  show ?case
  proof (cases "n < 8")
    case True
    then show ?thesis using Cons.prems by (simp add: step bit_simps)
  next
    case False
    then have d: "n div 8 = Suc ((n - 8) div 8)" and m: "n mod 8 = (n - 8) mod 8"
      by (simp_all add: div_if mod_if)
    have "\<not> bit b n" using False bit_imp_le_length [of b n] by auto
    with False Cons.prems show ?thesis
      by (simp add: step bit_simps Cons.IH d m)
  qed
qed

lemma cycles_bytes_roundtrip: "cycles_from_bytes (cycles_to_bytes c) = Some c"
proof -
  have "u128_from_le_bytes (u128_to_le_bytes c) = c"
  proof (rule bit_word_eqI)
    fix n assume "n < LENGTH(128)"
    then have "n < 128" and "n div 8 < 16" by simp_all
    then show "bit (u128_from_le_bytes (u128_to_le_bytes c)) n = bit c n"
      by (simp add: bit_from_le_bytes u128_to_le_bytes_def bit_simps)
  qed
  then show ?thesis by (simp add: cycles_from_bytes_def cycles_to_bytes_def u128_to_le_bytes_def)
qed

section \<open>Sums\<close>

text \<open>The running total of a list of amounts, folded with the saturating addition.\<close>

definition cycles_sum :: "cycles list \<Rightarrow> cycles" where
  "cycles_sum cs = foldl cycles_add cycles_zero cs"

lemma unat_foldl_cycles_add:
  "unat (foldl cycles_add a cs) = min (unat a + sum_list (map unat cs)) cycles_max"
proof (induction cs arbitrary: a)
  case Nil
  then show ?case using unat_cycles_le_max [of a] by (simp add: min_absorb1)
next
  case (Cons c cs)
  then show ?case by (simp add: unat_cycles_add min_def)
qed

lemma unat_cycles_sum: "unat (cycles_sum cs) = min (sum_list (map unat cs)) cycles_max"
  by (simp add: cycles_sum_def cycles_zero_def unat_foldl_cycles_add)

end
