(* ===== verification/Messages.thy ===== *)
theory Messages
  imports Cycles
begin

text \<open>
  Canister messages (\<open>rs/types/types/src/messages/inter_canister.rs\<close>, the ingress message of
  \<open>ingress_messages.rs\<close>, \<open>funds.rs\<close>, \<open>time.rs\<close>, the reject codes of \<open>error_types\<close> and the string
  truncation of \<open>rs/utils/src/str.rs\<close>), with their size accounting and their protobuf encoding.

  The type variable \<open>'p\<close> stands for \<open>PrincipalId\<close>, the type underlying \<open>CanisterId\<close>, \<open>UserId\<close>
  and \<open>SubnetId\<close>, which wraps a type of a third-party package; only its total order is used. The
  conversion between principals and byte strings, which belongs to that package, is given to
  the codecs as arguments. \<open>size_of\<close> of the structs is a parameter too (\<open>layout\<close>): it is chosen by
  the compiler.
\<close>

section \<open>Text\<close>

text \<open>
  A Rust \<open>String\<close> is a UTF-8 byte string. A byte position is a character boundary unless it lies
  past the end or in front of a continuation byte.
\<close>

definition is_char_boundary :: "string \<Rightarrow> nat \<Rightarrow> bool" where
  "is_char_boundary s i \<longleftrightarrow>
     (if i = 0 then True
      else if i \<ge> length s then i = length s
      else \<not> (128 \<le> (of_char (s ! i) :: nat) \<and> (of_char (s ! i) :: nat) < 192))"

fun boundary_down :: "string \<Rightarrow> nat \<Rightarrow> nat" where
  "boundary_down s 0 = 0"
| "boundary_down s (Suc n) = (if \<not> is_char_boundary s (Suc n) then boundary_down s n else Suc n)"

definition safe_truncate :: "string \<Rightarrow> nat \<Rightarrow> string" where
  "safe_truncate s max_len =
     (if length s > max_len then take (boundary_down s max_len) s else s)"

function boundary_up :: "string \<Rightarrow> nat \<Rightarrow> nat" where
  "boundary_up s n = (if n < length s \<and> \<not> is_char_boundary s n then boundary_up s (n + 1) else n)"
  by pat_completeness auto
termination
  by (relation "measure (\<lambda>(s, n). length s - n)") auto

declare boundary_up.simps [simp del]

definition safe_truncate_right :: "string \<Rightarrow> nat \<Rightarrow> string" where
  "safe_truncate_right s max_len =
     (if length s > max_len then drop (boundary_up s (length s - max_len)) s else s)"

section \<open>Time\<close>

text \<open>
  \<open>Time\<close> is a number of nanoseconds; adding a \<open>Duration\<close> computes in a wider type and truncates
  to 64 bits, which is the wrapping addition. A duration is given in nanoseconds.
\<close>

type_synonym time = u64

definition time_add :: "time \<Rightarrow> nat \<Rightarrow> time" where
  "time_add t nanos = of_nat (unat t + nanos)"

section \<open>Funds\<close>

record funds =
  f_cycles :: cycles

definition funds_new :: "cycles \<Rightarrow> funds" where
  "funds_new c = \<lparr>f_cycles = c\<rparr>"

definition funds_take_cycles :: "funds \<Rightarrow> cycles \<times> funds" where
  "funds_take_cycles f = (f_cycles f, f\<lparr>f_cycles := cycles_zero\<rparr>)"

definition funds_add_cycles :: "funds \<Rightarrow> cycles \<Rightarrow> funds" where
  "funds_add_cycles f c = f\<lparr>f_cycles := cycles_add (f_cycles f) c\<rparr>"

definition funds_take :: "funds \<Rightarrow> funds \<times> funds" where
  "funds_take f = (funds_new (f_cycles f), f)"

section \<open>Messages\<close>

datatype reject_code = SysFatal | SysTransient | DestinationInvalid | CanisterReject | CanisterError

definition reject_code_to_u64 :: "reject_code \<Rightarrow> u64" where
  "reject_code_to_u64 c =
     (case c of SysFatal \<Rightarrow> 1 | SysTransient \<Rightarrow> 2 | DestinationInvalid \<Rightarrow> 3
      | CanisterReject \<Rightarrow> 4 | CanisterError \<Rightarrow> 5)"

datatype try_from_error = TryValueOutOfRange u64

definition reject_code_try_from :: "u64 \<Rightarrow> try_from_error + reject_code" where
  "reject_code_try_from code =
     (if code = 1 then Inr SysFatal
      else if code = 2 then Inr SysTransient
      else if code = 3 then Inr DestinationInvalid
      else if code = 4 then Inr CanisterReject
      else if code = 5 then Inr CanisterError
      else Inl (TryValueOutOfRange code))"

record reject_context =
  rc_code :: reject_code
  rc_message :: string

definition reject_context_new :: "reject_code \<Rightarrow> string \<Rightarrow> reject_context" where
  "reject_context_new c m = \<lparr>rc_code = c, rc_message = m\<rparr>"

definition new_with_message_length_limit :: "reject_code \<Rightarrow> string \<Rightarrow> nat \<Rightarrow> reject_context" where
  "new_with_message_length_limit c m max_msg_len = reject_context_new c (safe_truncate m max_msg_len)"

datatype payload = Data "u8 list" | Reject reject_context

record 'p request =
  receiver :: 'p
  sender :: 'p
  sender_reply_callback :: u64
  payment :: cycles
  method_name :: string
  method_payload :: "u8 list"

record 'p response =
  originator :: 'p
  respondent :: 'p
  originator_reply_callback :: u64
  refund :: cycles
  response_payload :: payload

datatype 'p request_or_response = Request "'p request" | Response "'p response"

record 'p ingress =
  i_source :: 'p
  i_receiver :: 'p
  i_effective_canister_id :: "'p option"
  i_method_name :: string
  i_method_payload :: "u8 list"
  i_message_id :: "u8 list"
  i_expiry_time :: time

fun rr_receiver :: "'p request_or_response \<Rightarrow> 'p" where
  "rr_receiver (Request req) = receiver req"
| "rr_receiver (Response resp) = originator resp"

fun rr_sender :: "'p request_or_response \<Rightarrow> 'p" where
  "rr_sender (Request req) = sender req"
| "rr_sender (Response resp) = respondent resp"

fun rr_cycles :: "'p request_or_response \<Rightarrow> cycles" where
  "rr_cycles (Request req) = payment req"
| "rr_cycles (Response resp) = refund resp"

definition request_take_cycles :: "'p request \<Rightarrow> cycles \<times> 'p request" where
  "request_take_cycles req =
     (case cycles_take (payment req) of (amount, rest) \<Rightarrow> (amount, req\<lparr>payment := rest\<rparr>))"

section \<open>Sizes\<close>

record layout =
  size_of_RequestOrResponse :: nat
  size_of_Request :: nat
  size_of_Response :: nat
  size_of_RejectCode :: nat
  size_of_Ingress :: nat
  size_of_Arc_Ingress :: nat
  size_of_InputQueue :: nat
  size_of_IngressQueue :: nat

definition MAX_INTER_CANISTER_PAYLOAD_IN_BYTES :: nat where
  "MAX_INTER_CANISTER_PAYLOAD_IN_BYTES = 2 * 1024 * 1024"

definition MAX_RESPONSE_COUNT_BYTES :: "layout \<Rightarrow> nat" where
  "MAX_RESPONSE_COUNT_BYTES z = size_of_RequestOrResponse z + MAX_INTER_CANISTER_PAYLOAD_IN_BYTES"

definition reject_context_size_bytes :: "layout \<Rightarrow> reject_context \<Rightarrow> nat" where
  "reject_context_size_bytes z rc = size_of_RejectCode z + length (rc_message rc)"

fun payload_size_bytes :: "layout \<Rightarrow> payload \<Rightarrow> nat" where
  "payload_size_bytes z (Data data) = length data"
| "payload_size_bytes z (Reject context) = reject_context_size_bytes z context"

definition request_payload_size_bytes :: "'p request \<Rightarrow> nat" where
  "request_payload_size_bytes req = length (method_name req) + length (method_payload req)"

fun rr_payload_size_bytes :: "layout \<Rightarrow> 'p request_or_response \<Rightarrow> nat" where
  "rr_payload_size_bytes z (Request req) = request_payload_size_bytes req"
| "rr_payload_size_bytes z (Response resp) = payload_size_bytes z (response_payload resp)"

definition request_count_bytes :: "layout \<Rightarrow> 'p request \<Rightarrow> nat" where
  "request_count_bytes z req =
     size_of_RequestOrResponse z + size_of_Request z
     + length (method_name req) + length (method_payload req)"

definition response_count_bytes :: "layout \<Rightarrow> 'p response \<Rightarrow> nat" where
  "response_count_bytes z resp =
     (let var_fields_size =
        (case response_payload resp of
           Data data \<Rightarrow> length data
         | Reject context \<Rightarrow> length (rc_message context))
      in size_of_RequestOrResponse z + size_of_Response z + var_fields_size)"

fun rr_count_bytes :: "layout \<Rightarrow> 'p request_or_response \<Rightarrow> nat" where
  "rr_count_bytes z (Request req) = request_count_bytes z req"
| "rr_count_bytes z (Response resp) = response_count_bytes z resp"

definition ingress_count_bytes :: "layout \<Rightarrow> 'p ingress \<Rightarrow> nat" where
  "ingress_count_bytes z i =
     size_of_Ingress z + length (i_method_name i) + length (i_method_payload i)"

section \<open>Protobuf encoding\<close>

datatype proxy_decode_error =
    MissingField string
  | ValueOutOfRange string u64
  | InvalidPrincipalId
  | InvalidMessageId nat nat
  | DuplicateEntry
  | Other string

text \<open>
  \<open>try_from_option_field\<close> with the conversion of the field as an argument; the conversion may
  fail or panic.
\<close>

definition try_from_option_field ::
  "('a \<Rightarrow> (proxy_decode_error + 'b) option) \<Rightarrow> 'a option \<Rightarrow> string \<Rightarrow> (proxy_decode_error + 'b) option"
where
  "try_from_option_field conv field name =
     (case field of None \<Rightarrow> Some (Inl (MissingField name)) | Some x \<Rightarrow> conv x)"

text \<open>
  \<open>pb::CanisterId\<close> and \<open>pb::UserId\<close> hold an optional \<open>pb::PrincipalId\<close>, a byte string. \<open>to_vec\<close> and
  \<open>try_from\<close> of the principal type are the arguments \<open>enc\<close> and \<open>dec\<close>.
\<close>

type_synonym pb_canister_id = "u8 list option"
type_synonym pb_cycles = "u8 list"

definition canister_id_to_pb :: "('p \<Rightarrow> u8 list) \<Rightarrow> 'p \<Rightarrow> pb_canister_id" where
  "canister_id_to_pb enc c = Some (enc c)"

definition canister_id_try_from ::
  "(u8 list \<Rightarrow> 'p option) \<Rightarrow> pb_canister_id \<Rightarrow> (proxy_decode_error + 'p) option" where
  "canister_id_try_from dec c =
     (case c of
        None \<Rightarrow> Some (Inl (MissingField ''CanisterId::principal_id''))
      | Some raw \<Rightarrow>
          (case dec raw of None \<Rightarrow> Some (Inl InvalidPrincipalId) | Some p \<Rightarrow> Some (Inr p)))"

text \<open>\<open>user_id_try_from_protobuf\<close> unwraps the field: a missing principal panics.\<close>

definition user_id_try_from_protobuf ::
  "(u8 list \<Rightarrow> 'p option) \<Rightarrow> pb_canister_id \<Rightarrow> (proxy_decode_error + 'p) option" where
  "user_id_try_from_protobuf dec u =
     (case u of
        None \<Rightarrow> None
      | Some raw \<Rightarrow>
          (case dec raw of None \<Rightarrow> Some (Inl InvalidPrincipalId) | Some p \<Rightarrow> Some (Inr p)))"

text \<open>Decoding an amount of cycles panics unless it has 16 bytes.\<close>

definition pb_cycles_into :: "pb_cycles \<Rightarrow> (proxy_decode_error + cycles) option" where
  "pb_cycles_into raw = map_option Inr (cycles_from_bytes raw)"

record pb_funds =
  cycles_struct :: "pb_cycles option"
  icp :: u64

definition funds_to_pb :: "funds \<Rightarrow> pb_funds" where
  "funds_to_pb f = \<lparr>cycles_struct = Some (cycles_to_bytes (f_cycles f)), icp = 0\<rparr>"

definition funds_try_from :: "pb_funds \<Rightarrow> (proxy_decode_error + funds) option" where
  "funds_try_from item =
     try_bind (try_from_option_field pb_cycles_into (cycles_struct item) ''Funds::cycles_struct'')
       (\<lambda>c. Some (Inr \<lparr>f_cycles = c\<rparr>))"

record pb_request =
  pb_receiver :: "pb_canister_id option"
  pb_sender :: "pb_canister_id option"
  pb_sender_reply_callback :: u64
  pb_payment :: "pb_funds option"
  pb_method_name :: string
  pb_method_payload :: "u8 list"
  pb_cycles_payment :: "pb_cycles option"

record pb_reject_context =
  pb_reject_code :: u64
  pb_reject_message :: string

datatype pb_response_payload = PbData "u8 list" | PbReject pb_reject_context

record pb_response =
  pb_originator :: "pb_canister_id option"
  pb_respondent :: "pb_canister_id option"
  pb_originator_reply_callback :: u64
  pb_refund :: "pb_funds option"
  pb_response_payload :: "pb_response_payload option"
  pb_cycles_refund :: "pb_cycles option"

datatype pb_r = PbRequest pb_request | PbResponse pb_response

type_synonym pb_request_or_response = "pb_r option"

definition request_to_pb :: "('p \<Rightarrow> u8 list) \<Rightarrow> 'p request \<Rightarrow> pb_request" where
  "request_to_pb enc req =
     \<lparr>pb_receiver = Some (canister_id_to_pb enc (receiver req)),
      pb_sender = Some (canister_id_to_pb enc (sender req)),
      pb_sender_reply_callback = sender_reply_callback req,
      pb_payment = Some (funds_to_pb (funds_new (payment req))),
      pb_method_name = method_name req,
      pb_method_payload = method_payload req,
      pb_cycles_payment = Some (cycles_to_bytes (payment req))\<rparr>"

text \<open>
  The amount is read from the cycles field and, where that gives an error, from the older funds
  field.
\<close>

definition cycles_or_funds ::
  "pb_cycles option \<Rightarrow> string \<Rightarrow> pb_funds option \<Rightarrow> string \<Rightarrow> (proxy_decode_error + cycles) option" where
  "cycles_or_funds c cname f fname =
     (case try_from_option_field pb_cycles_into c cname of
        None \<Rightarrow> None
      | Some (Inr res) \<Rightarrow> Some (Inr res)
      | Some (Inl _) \<Rightarrow>
          try_bind (try_from_option_field funds_try_from f fname)
            (\<lambda>res. Some (Inr (fst (funds_take_cycles res)))))"

definition request_try_from ::
  "(u8 list \<Rightarrow> 'p option) \<Rightarrow> pb_request \<Rightarrow> (proxy_decode_error + 'p request) option" where
  "request_try_from dec req =
     try_bind (cycles_or_funds (pb_cycles_payment req) ''Request::cycles_payment''
                 (pb_payment req) ''Request::payment'') (\<lambda>pay.
     try_bind (try_from_option_field (canister_id_try_from dec) (pb_receiver req) ''Request::receiver'') (\<lambda>rcv.
     try_bind (try_from_option_field (canister_id_try_from dec) (pb_sender req) ''Request::sender'') (\<lambda>snd.
     Some (Inr
       \<lparr>receiver = rcv, sender = snd, sender_reply_callback = pb_sender_reply_callback req,
        payment = pay, method_name = pb_method_name req, method_payload = pb_method_payload req\<rparr>))))"

definition reject_context_to_pb :: "reject_context \<Rightarrow> pb_reject_context" where
  "reject_context_to_pb rc =
     \<lparr>pb_reject_code = reject_code_to_u64 (rc_code rc), pb_reject_message = rc_message rc\<rparr>"

definition reject_context_try_from :: "pb_reject_context \<Rightarrow> (proxy_decode_error + reject_context) option" where
  "reject_context_try_from rc =
     (case reject_code_try_from (pb_reject_code rc) of
        Inl (TryValueOutOfRange code) \<Rightarrow> Some (Inl (ValueOutOfRange ''RejectContext'' code))
      | Inr code \<Rightarrow> Some (Inr \<lparr>rc_code = code, rc_message = pb_reject_message rc\<rparr>))"

definition response_to_pb :: "('p \<Rightarrow> u8 list) \<Rightarrow> 'p response \<Rightarrow> pb_response" where
  "response_to_pb enc rep =
     (let p = (case response_payload rep of
                 Data d \<Rightarrow> PbData d
               | Reject r \<Rightarrow> PbReject (reject_context_to_pb r))
      in \<lparr>pb_originator = Some (canister_id_to_pb enc (originator rep)),
          pb_respondent = Some (canister_id_to_pb enc (respondent rep)),
          pb_originator_reply_callback = originator_reply_callback rep,
          pb_refund = Some (funds_to_pb (funds_new (refund rep))),
          pb_response_payload = Some p,
          pb_cycles_refund = Some (cycles_to_bytes (refund rep))\<rparr>)"

definition response_try_from ::
  "(u8 list \<Rightarrow> 'p option) \<Rightarrow> pb_response \<Rightarrow> (proxy_decode_error + 'p response) option" where
  "response_try_from dec rep =
     try_bind (case pb_response_payload rep of
                 None \<Rightarrow> Some (Inl (MissingField ''Response::response_payload''))
               | Some (PbData d) \<Rightarrow> Some (Inr (Data d))
               | Some (PbReject r) \<Rightarrow>
                   try_bind (reject_context_try_from r) (\<lambda>c. Some (Inr (Reject c)))) (\<lambda>pl.
     try_bind (cycles_or_funds (pb_cycles_refund rep) ''Response::cycles_refund''
                 (pb_refund rep) ''Response::refund'') (\<lambda>rf.
     try_bind (try_from_option_field (canister_id_try_from dec) (pb_originator rep) ''Response::originator'') (\<lambda>orig.
     try_bind (try_from_option_field (canister_id_try_from dec) (pb_respondent rep) ''Response::respondent'') (\<lambda>resp.
     Some (Inr
       \<lparr>originator = orig, respondent = resp,
        originator_reply_callback = pb_originator_reply_callback rep,
        refund = rf, response_payload = pl\<rparr>)))))"

fun rr_to_pb :: "('p \<Rightarrow> u8 list) \<Rightarrow> 'p request_or_response \<Rightarrow> pb_request_or_response" where
  "rr_to_pb enc (Request req) = Some (PbRequest (request_to_pb enc req))"
| "rr_to_pb enc (Response rep) = Some (PbResponse (response_to_pb enc rep))"

fun rr_try_from ::
  "(u8 list \<Rightarrow> 'p option) \<Rightarrow> pb_request_or_response \<Rightarrow> (proxy_decode_error + 'p request_or_response) option"
where
  "rr_try_from dec None = Some (Inl (MissingField ''RequestOrResponse::r''))"
| "rr_try_from dec (Some (PbRequest r)) = try_bind (request_try_from dec r) (\<lambda>x. Some (Inr (Request x)))"
| "rr_try_from dec (Some (PbResponse r)) = try_bind (response_try_from dec r) (\<lambda>x. Some (Inr (Response x)))"

record pb_ingress =
  pbi_source :: "pb_canister_id option"
  pbi_receiver :: "pb_canister_id option"
  pbi_method_name :: string
  pbi_method_payload :: "u8 list"
  pbi_message_id :: "u8 list"
  pbi_expiry_time_nanos :: u64
  pbi_effective_canister_id :: "pb_canister_id option"

definition EXPECTED_MESSAGE_ID_LENGTH :: nat where
  "EXPECTED_MESSAGE_ID_LENGTH = 32"

definition message_id_try_from :: "u8 list \<Rightarrow> (proxy_decode_error + u8 list) option" where
  "message_id_try_from bytes =
     (if length bytes = EXPECTED_MESSAGE_ID_LENGTH then Some (Inr bytes)
      else Some (Inl (InvalidMessageId EXPECTED_MESSAGE_ID_LENGTH (length bytes))))"

definition ingress_to_pb :: "('p \<Rightarrow> u8 list) \<Rightarrow> 'p ingress \<Rightarrow> pb_ingress" where
  "ingress_to_pb enc item =
     \<lparr>pbi_source = Some (canister_id_to_pb enc (i_source item)),
      pbi_receiver = Some (canister_id_to_pb enc (i_receiver item)),
      pbi_method_name = i_method_name item,
      pbi_method_payload = i_method_payload item,
      pbi_message_id = i_message_id item,
      pbi_expiry_time_nanos = i_expiry_time item,
      pbi_effective_canister_id = map_option (canister_id_to_pb enc) (i_effective_canister_id item)\<rparr>"

definition ingress_try_from ::
  "(u8 list \<Rightarrow> 'p option) \<Rightarrow> pb_ingress \<Rightarrow> (proxy_decode_error + 'p ingress) option" where
  "ingress_try_from dec item =
     (let eff = (case try_from_option_field (canister_id_try_from dec) (pbi_effective_canister_id item)
                        ''Ingress::effective_canister_id'' of
                   Some (Inr c) \<Rightarrow> Some c
                 | _ \<Rightarrow> None) in
      try_bind (case pbi_source item of
                  None \<Rightarrow> Some (Inl (MissingField ''Ingress::source''))
                | Some u \<Rightarrow> user_id_try_from_protobuf dec u) (\<lambda>src.
      try_bind (try_from_option_field (canister_id_try_from dec) (pbi_receiver item) ''Ingress::receiver'') (\<lambda>rcv.
      try_bind (message_id_try_from (pbi_message_id item)) (\<lambda>mid.
      Some (Inr
        \<lparr>i_source = src, i_receiver = rcv, i_effective_canister_id = eff,
         i_method_name = pbi_method_name item, i_method_payload = pbi_method_payload item,
         i_message_id = mid, i_expiry_time = pbi_expiry_time_nanos item\<rparr>)))))"

section \<open>Truncation\<close>

lemma boundary_down_le: "boundary_down s n \<le> n"
  by (induction n) auto

lemma boundary_down_boundary: "is_char_boundary s (boundary_down s n)"
  by (induction n) (auto simp: is_char_boundary_def)

lemma boundary_down_greatest:
  "is_char_boundary s k \<Longrightarrow> k \<le> n \<Longrightarrow> k \<le> boundary_down s n"
  by (induction n) (auto simp: le_Suc_eq)

lemma boundary_up_bounds: "n \<le> length s \<Longrightarrow> n \<le> boundary_up s n \<and> boundary_up s n \<le> length s"
proof (induction s n rule: boundary_up.induct)
  case (1 s n)
  show ?case
  proof (cases "n < length s \<and> \<not> is_char_boundary s n")
    case True
    with "1.IH" have "n + 1 \<le> boundary_up s (n + 1) \<and> boundary_up s (n + 1) \<le> length s" by simp
    with True show ?thesis by (simp add: boundary_up.simps [of s n])
  next
    case False
    then have "boundary_up s n = n" by (metis boundary_up.simps)
    with "1.prems" show ?thesis by simp
  qed
qed

lemma boundary_up_boundary: "n \<le> length s \<Longrightarrow> is_char_boundary s (boundary_up s n)"
proof (induction s n rule: boundary_up.induct)
  case (1 s n)
  show ?case
  proof (cases "n < length s \<and> \<not> is_char_boundary s n")
    case True
    with "1.IH" show ?thesis by (simp add: boundary_up.simps [of s n])
  next
    case False
    then have "boundary_up s n = n" by (metis boundary_up.simps)
    with "1.prems" False show ?thesis by (auto simp: is_char_boundary_def)
  qed
qed

section \<open>Encoding round trips\<close>

lemma reject_code_roundtrip [simp]: "reject_code_try_from (reject_code_to_u64 c) = Inr c"
  by (cases c) (simp_all add: reject_code_try_from_def reject_code_to_u64_def)

lemma canister_id_roundtrip:
  "dec (enc c) = Some c \<Longrightarrow>
   try_from_option_field (canister_id_try_from dec) (Some (canister_id_to_pb enc c)) name = Some (Inr c)"
  by (simp add: try_from_option_field_def canister_id_try_from_def canister_id_to_pb_def)

lemma cycles_field_roundtrip:
  "cycles_or_funds (Some (cycles_to_bytes c)) n1 f n2 = Some (Inr c)"
  by (simp add: cycles_or_funds_def try_from_option_field_def pb_cycles_into_def cycles_bytes_roundtrip)

lemma request_roundtrip:
  assumes "\<And>c. dec (enc c) = Some c"
  shows "request_try_from dec (request_to_pb enc req) = Some (Inr req)"
  by (simp add: request_try_from_def request_to_pb_def canister_id_roundtrip cycles_field_roundtrip assms)

lemma response_roundtrip:
  assumes "\<And>c. dec (enc c) = Some c"
  shows "response_try_from dec (response_to_pb enc rep) = Some (Inr rep)"
  by (cases "response_payload rep")
    (simp_all add: response_try_from_def response_to_pb_def canister_id_roundtrip cycles_field_roundtrip
      reject_context_try_from_def reject_context_to_pb_def assms)

lemma rr_roundtrip:
  assumes "\<And>c. dec (enc c) = Some c"
  shows "rr_try_from dec (rr_to_pb enc m) = Some (Inr m)"
  by (cases m) (simp_all add: request_roundtrip response_roundtrip assms)

lemma ingress_roundtrip:
  assumes "\<And>c. dec (enc c) = Some c" and "length (i_message_id i) = EXPECTED_MESSAGE_ID_LENGTH"
  shows "ingress_try_from dec (ingress_to_pb enc i) = Some (Inr i)"
  using assms
  by (cases "i_effective_canister_id i")
    (simp_all add: ingress_try_from_def ingress_to_pb_def try_from_option_field_def
      canister_id_try_from_def canister_id_to_pb_def user_id_try_from_protobuf_def message_id_try_from_def)

section \<open>Sample messages\<close>

text \<open>
  Concrete inputs on which later theorems are applied. Principals are single bytes here, encoded
  as a list of one byte.
\<close>

definition example_request :: "u8 request" where
  "example_request =
     \<lparr>receiver = 2, sender = 1, sender_reply_callback = 7, payment = 5, method_name = ''m'',
      method_payload = [1, 2]\<rparr>"

definition example_response :: "u8 response" where
  "example_response =
     \<lparr>originator = 1, respondent = 2, originator_reply_callback = 7, refund = 3, response_payload = Data [9]\<rparr>"

definition example_enc :: "u8 \<Rightarrow> u8 list" where
  "example_enc c = [c]"

definition example_dec :: "u8 list \<Rightarrow> u8 option" where
  "example_dec bs = (case bs of [c] \<Rightarrow> Some c | _ \<Rightarrow> None)"

lemma example_codec [simp]: "example_dec (example_enc c) = Some c"
  by (simp add: example_dec_def example_enc_def)

definition example_layout :: layout where
  "example_layout =
     \<lparr>size_of_RequestOrResponse = 16, size_of_Request = 136, size_of_Response = 120, size_of_RejectCode = 4,
      size_of_Ingress = 184, size_of_Arc_Ingress = 8, size_of_InputQueue = 56, size_of_IngressQueue = 40\<rparr>"

definition example_ingress :: "u8 ingress" where
  "example_ingress =
     \<lparr>i_source = 3, i_receiver = 1, i_effective_canister_id = Some 1, i_method_name = ''go'',
      i_method_payload = [4], i_message_id = replicate 32 0, i_expiry_time = 100\<rparr>"

end
