(* ===== verification/BTreeMap.thy ===== *)
theory BTreeMap
  imports Prelude
begin

text \<open>
  The ordered maps and double-ended queues of the Rust standard library, as far as the sources
  use them. A \<open>BTreeMap\<close> is an association list with strictly ascending keys, so that
  iteration order is the list order; a \<open>VecDeque\<close> is a list whose front is the head.

  The locale \<open>ordered_map\<close> is the contract its users rely on (what a lookup returns after an
  insertion or a removal, that iteration is in ascending key order), with the facts on totals
  over all values proved once from it. The association lists below are its instance.
\<close>

type_synonym ('k, 'v) btree = "('k \<times> 'v) list"

section \<open>Operations\<close>

definition bt_get :: "('k, 'v) btree \<Rightarrow> 'k \<Rightarrow> 'v option" where
  "bt_get m k = map_of m k"

fun bt_insert :: "'k::linorder \<Rightarrow> 'v \<Rightarrow> ('k, 'v) btree \<Rightarrow> ('k, 'v) btree" where
  "bt_insert k v [] = [(k, v)]"
| "bt_insert k v ((k', v') # m) =
     (if k < k' then (k, v) # (k', v') # m
      else if k = k' then (k, v) # m
      else (k', v') # bt_insert k v m)"

definition bt_remove :: "'k \<Rightarrow> ('k, 'v) btree \<Rightarrow> ('k, 'v) btree" where
  "bt_remove k m = filter (\<lambda>e. fst e \<noteq> k) m"

definition bt_retain :: "('k \<Rightarrow> 'v \<Rightarrow> bool) \<Rightarrow> ('k, 'v) btree \<Rightarrow> ('k, 'v) btree" where
  "bt_retain f m = filter (\<lambda>(k, v). f k v) m"

definition bt_contains_key :: "('k, 'v) btree \<Rightarrow> 'k \<Rightarrow> bool" where
  "bt_contains_key m k \<longleftrightarrow> bt_get m k \<noteq> None"

text \<open>\<open>range(..=b).next_back()\<close>: the last entry whose key is at most the bound.\<close>

definition bt_last_le :: "('k::linorder, 'v) btree \<Rightarrow> 'k \<Rightarrow> ('k \<times> 'v) option" where
  "bt_last_le m b =
     (case filter (\<lambda>e. fst e \<le> b) m of [] \<Rightarrow> None | e # es \<Rightarrow> Some (last (e # es)))"

text \<open>\<open>range(a..=b)\<close>: the entries between two bounds; an inverted range panics.\<close>

definition bt_range :: "('k::linorder, 'v) btree \<Rightarrow> 'k \<Rightarrow> 'k \<Rightarrow> ('k, 'v) btree option" where
  "bt_range m a b = (if b < a then None else Some (filter (\<lambda>e. a \<le> fst e \<and> fst e \<le> b) m))"

text \<open>Collecting an iterator of entries into a map: later entries replace earlier ones.\<close>

definition bt_collect :: "('k::linorder \<times> 'v) list \<Rightarrow> ('k, 'v) btree" where
  "bt_collect es = foldl (\<lambda>m (k, v). bt_insert k v m) [] es"

definition bt_wf :: "('k::linorder, 'v) btree \<Rightarrow> bool" where
  "bt_wf m \<longleftrightarrow> sorted_wrt (<) (map fst m)"

section \<open>The contract\<close>

locale ordered_map =
  fixes get :: "'m \<Rightarrow> 'k::linorder \<Rightarrow> 'v option"
    and ins :: "'k \<Rightarrow> 'v \<Rightarrow> 'm \<Rightarrow> 'm"
    and del :: "'k \<Rightarrow> 'm \<Rightarrow> 'm"
    and entries :: "'m \<Rightarrow> ('k \<times> 'v) list"
    and wf :: "'m \<Rightarrow> bool"
  assumes entries_sorted: "wf m \<Longrightarrow> sorted_wrt (<) (map fst (entries m))"
    and get_entries: "wf m \<Longrightarrow> get m k = map_of (entries m) k"
    and get_ins: "wf m \<Longrightarrow> get (ins k v m) k' = (if k' = k then Some v else get m k')"
    and get_del: "wf m \<Longrightarrow> get (del k m) k' = (if k' = k then None else get m k')"
    and wf_ins: "wf m \<Longrightarrow> wf (ins k v m)"
    and wf_del: "wf m \<Longrightarrow> wf (del k m)"
begin

definition keys :: "'m \<Rightarrow> 'k set" where
  "keys m = fst ` set (entries m)"

definition total :: "('v \<Rightarrow> nat) \<Rightarrow> 'm \<Rightarrow> nat" where
  "total f m = (\<Sum>e\<leftarrow>entries m. f (snd e))"

lemma distinct_entries: "wf m \<Longrightarrow> distinct (map fst (entries m))"
  using entries_sorted strict_sorted_iff by blast

lemma get_iff_entry: "wf m \<Longrightarrow> get m k = Some v \<longleftrightarrow> (k, v) \<in> set (entries m)"
  by (simp add: get_entries distinct_entries)

lemma keys_iff_get: "wf m \<Longrightarrow> k \<in> keys m \<longleftrightarrow> get m k \<noteq> None"
  by (simp add: keys_def get_entries map_of_eq_None_iff)

lemma finite_keys: "finite (keys m)"
  by (simp add: keys_def)

lemma keys_ins: "wf m \<Longrightarrow> keys (ins k v m) = insert k (keys m)"
  by (auto simp: keys_iff_get wf_ins get_ins split: if_splits)

lemma keys_del: "wf m \<Longrightarrow> keys (del k m) = keys m - {k}"
  by (auto simp: keys_iff_get wf_del get_del split: if_splits)

lemma total_keys:
  assumes "wf m"
  shows "total f m = (\<Sum>k\<in>keys m. f (the (get m k)))"
proof -
  have "(\<Sum>e\<leftarrow>entries m. f (snd e)) = (\<Sum>e\<leftarrow>entries m. f (the (get m (fst e))))"
  proof (intro arg_cong [where f = sum_list] map_cong refl)
    fix e assume "e \<in> set (entries m)"
    then have "get m (fst e) = Some (snd e)" by (simp add: get_iff_entry [OF assms])
    then show "f (snd e) = f (the (get m (fst e)))" by simp
  qed
  also have "\<dots> = sum_list (map (\<lambda>k. f (the (get m k))) (map fst (entries m)))"
    by (simp add: comp_def)
  also have "\<dots> = (\<Sum>k\<in>keys m. f (the (get m k)))"
    using distinct_entries [OF assms] by (subst sum_list_distinct_conv_sum_set) (simp_all add: keys_def)
  finally show ?thesis by (simp add: total_def)
qed

lemma total_ins_new:
  assumes "wf m" and "get m k = None"
  shows "total f (ins k v m) = total f m + f v"
proof -
  have k: "k \<notin> keys m" using assms by (simp add: keys_iff_get)
  have "(\<Sum>k'\<in>keys m. f (the (get (ins k v m) k'))) = (\<Sum>k'\<in>keys m. f (the (get m k')))"
    using k by (intro sum.cong) (auto simp: get_ins assms(1))
  then show ?thesis
    using k assms by (simp add: total_keys wf_ins keys_ins finite_keys get_ins)
qed

lemma total_remove:
  assumes "wf m" and "get m k = Some v"
  shows "total f m = (\<Sum>k'\<in>keys m - {k}. f (the (get m k'))) + f v"
proof -
  have "k \<in> keys m" using assms by (simp add: keys_iff_get)
  then show ?thesis
    using assms by (simp add: total_keys sum.remove [OF finite_keys, of k])
qed

lemma total_ins_old:
  assumes "wf m" and "get m k = Some v"
  shows "total f (ins k v' m) + f v = total f m + f v'"
proof -
  have "keys (ins k v' m) - {k} = keys m - {k}" by (auto simp: keys_ins assms(1))
  then have "(\<Sum>k'\<in>keys (ins k v' m) - {k}. f (the (get (ins k v' m) k')))
      = (\<Sum>k'\<in>keys m - {k}. f (the (get m k')))"
    by (intro sum.cong) (auto simp: get_ins assms(1))
  moreover have "get (ins k v' m) k = Some v'" by (simp add: get_ins assms(1))
  ultimately show ?thesis
    using total_remove [OF assms, of f] total_remove [OF wf_ins [OF assms(1)], of k v' k v' f]
    by simp
qed

lemma total_pos_iff:
  assumes "wf m"
  shows "0 < total f m \<longleftrightarrow> (\<exists>k v. get m k = Some v \<and> 0 < f v)"
proof -
  have "total f m = 0 \<longleftrightarrow> (\<forall>e \<in> set (entries m). f (snd e) = 0)" by (simp add: total_def)
  also have "\<dots> \<longleftrightarrow> (\<forall>k v. get m k = Some v \<longrightarrow> f v = 0)" unfolding get_iff_entry [OF assms] by force
  finally show ?thesis by auto
qed

lemma total_ge:
  assumes "wf m" and "get m k = Some v"
  shows "f v \<le> total f m"
  using total_remove [OF assms, of f] by simp

end

section \<open>Association lists are an instance\<close>

lemma set_bt_insert: "fst ` set (bt_insert k v m) = insert k (fst ` set m)"
  by (induction k v m rule: bt_insert.induct) auto

lemma map_of_bt_insert:
  "sorted_wrt (<) (map fst m) \<Longrightarrow> map_of (bt_insert k v m) k' = (if k' = k then Some v else map_of m k')"
  by (induction k v m rule: bt_insert.induct) auto

lemma bt_wf_insert: "bt_wf m \<Longrightarrow> bt_wf (bt_insert k v m)"
proof (induction k v m rule: bt_insert.induct)
  case (2 k v k' v' m)
  have "fst ` set (bt_insert k v m) = insert k (fst ` set m)" by (rule set_bt_insert)
  then show ?case using 2 unfolding bt_wf_def by (auto simp: image_iff)
qed (simp add: bt_wf_def)

lemma bt_wf_filter: "bt_wf m \<Longrightarrow> bt_wf (filter P m)"
  by (auto simp: bt_wf_def sorted_wrt_map intro: sorted_wrt_filter)

lemma map_of_filter_key: "map_of (filter (\<lambda>e. fst e \<noteq> k) m) k' = (if k' = k then None else map_of m k')"
  by (induction m) auto

interpretation bt: ordered_map bt_get bt_insert bt_remove "\<lambda>m. m" bt_wf
proof
  show "bt_wf m \<Longrightarrow> sorted_wrt (<) (map fst m)" for m :: "('k::linorder, 'v) btree"
    by (simp add: bt_wf_def)
qed (auto simp: bt_get_def bt_wf_def [symmetric] map_of_bt_insert [folded bt_wf_def] bt_remove_def
      map_of_filter_key intro: bt_wf_insert bt_wf_filter)

lemma bt_wf_Nil [simp]: "bt_wf []"
  by (simp add: bt_wf_def)

lemma bt_wf_retain: "bt_wf m \<Longrightarrow> bt_wf (bt_retain f m)"
  by (simp add: bt_retain_def bt_wf_filter)

lemma bt_get_Nil [simp]: "bt_get [] k = None"
  by (simp add: bt_get_def)

lemma bt_insert_same:
  assumes "bt_wf m" and "bt_get m k = Some v"
  shows "bt_insert k v m = m"
  using assms
proof (induction k v m rule: bt_insert.induct)
  case (2 k v k' v' m)
  have "k \<notin> fst ` set m" if "k = k'" using 2(2) that by (auto simp: bt_wf_def)
  moreover have "k' < k" if "k \<noteq> k'"
  proof -
    have "(k, v) \<in> set m" using 2(3) that by (auto simp: bt_get_def dest: map_of_SomeD)
    then show ?thesis using 2(2) by (force simp: bt_wf_def)
  qed
  ultimately show ?case using 2 by (auto simp: bt_wf_def bt_get_def)
qed simp

lemma bt_get_retain:
  assumes "bt_wf m"
  shows "bt_get (bt_retain f m) k =
    (case bt_get m k of None \<Rightarrow> None | Some v \<Rightarrow> if f k v then Some v else None)"
proof (cases "bt_get m k")
  case None
  then have "k \<notin> fst ` set m" by (simp add: bt_get_def map_of_eq_None_iff)
  then have "k \<notin> fst ` set (bt_retain f m)" by (auto simp: bt_retain_def)
  then have "bt_get (bt_retain f m) k = None" by (simp add: bt_get_def map_of_eq_None_iff)
  then show ?thesis by (simp add: None)
next
  case (Some v)
  have wf: "bt_wf (bt_retain f m)" by (rule bt_wf_retain [OF assms])
  have v: "(k, v) \<in> set m" using Some by (simp only: bt.get_iff_entry [OF assms])
  show ?thesis
  proof (cases "f k v")
    case True
    with v have "(k, v) \<in> set (bt_retain f m)" by (simp add: bt_retain_def)
    then have "bt_get (bt_retain f m) k = Some v" by (simp only: bt.get_iff_entry [OF wf])
    with True Some show ?thesis by simp
  next
    case False
    have "bt_get (bt_retain f m) k \<noteq> Some w" for w
    proof
      assume "bt_get (bt_retain f m) k = Some w"
      then have "(k, w) \<in> set (bt_retain f m)" by (simp only: bt.get_iff_entry [OF wf])
      then have "(k, w) \<in> set m" and "f k w" by (auto simp: bt_retain_def)
      with v False show False
        using eq_key_imp_eq_value [OF bt.distinct_entries [OF assms]] by blast
    qed
    with False Some show ?thesis by (cases "bt_get (bt_retain f m) k") auto
  qed
qed

lemma bt_collect_sorted: "bt_wf es \<Longrightarrow> bt_collect es = es"
proof -
  have snoc: "(\<forall>e\<in>set m. fst e < k) \<Longrightarrow> bt_insert k v m = m @ [(k, v)]" for k v and m :: "('a::linorder, 'b) btree"
    by (induction k v m rule: bt_insert.induct) auto
  have "bt_wf (m @ es) \<Longrightarrow> foldl (\<lambda>m (k, v). bt_insert k v m) m es = m @ es"
    for m :: "('a::linorder, 'b) btree" and es
  proof (induction es arbitrary: m)
    case (Cons e es)
    obtain k v where e: "e = (k, v)" by (cases e)
    from Cons.prems have "bt_insert k v m = m @ [(k, v)]"
      by (intro snoc) (auto simp: bt_wf_def sorted_wrt_append e)
    with Cons.IH [of "m @ [e]"] Cons.prems show ?case by (simp add: e)
  qed simp
  from this [of "[]"] show "bt_wf es \<Longrightarrow> bt_collect es = es" by (simp add: bt_collect_def)
qed

end
