(* ===== verification/Queue.thy ===== *)
theory Queue
  imports Messages BTreeMap
begin

text \<open>
  The message queues of a canister (\<open>rs/replicated_state/src/canister_state/queues/queue.rs\<close>):
  the bounded FIFO queue with slot reservations, the input queue and output queue built on it,
  the iterator that times out requests of an output queue, and the unbounded ingress queue.
\<close>

section \<open>Errors\<close>

datatype bitcoin_state_error =
    FeatureNotEnabled
  | BitcoinNonMatchingResponse u64
  | BitcoinQueueFull "32 word"

datatype 'p state_error =
    CanisterNotFound 'p
  | QueueFull nat
  | CanisterStopped 'p
  | CanisterStopping 'p
  | CanisterOutOfCycles 'p cycles cycles cycles
  | InvariantBroken string
  | UnknownSubnetMethod string
  | NonMatchingResponse string 'p u64 'p
  | InvalidSubnetPayload
  | OutOfMemory nat int
  | BitcoinStateError bitcoin_state_error

section \<open>Queue with reservations\<close>

definition DEFAULT_QUEUE_CAPACITY :: nat where
  "DEFAULT_QUEUE_CAPACITY = 500"

record 'a queue_with_reservation =
  queue :: "'a list"
  capacity :: nat
  num_slots_reserved :: nat

definition qwr_new :: "nat \<Rightarrow> 'a queue_with_reservation" where
  "qwr_new cap = \<lparr>queue = [], capacity = cap, num_slots_reserved = 0\<rparr>"

definition qwr_check_has_slot :: "'a queue_with_reservation \<Rightarrow> 'p state_error + unit" where
  "qwr_check_has_slot q =
     (if length (queue q) + num_slots_reserved q \<ge> capacity q then Inl (QueueFull (capacity q))
      else Inr ())"

definition qwr_available_slots :: "'a queue_with_reservation \<Rightarrow> nat option" where
  "qwr_available_slots q = sub_usize (capacity q) (length (queue q) + num_slots_reserved q)"

definition qwr_reserve_slot ::
  "'a queue_with_reservation \<Rightarrow> 'p state_error + 'a queue_with_reservation" where
  "qwr_reserve_slot q =
     ok_bind (qwr_check_has_slot q)
       (\<lambda>_. Inr (q\<lparr>num_slots_reserved := num_slots_reserved q + 1\<rparr>))"

text \<open>A push that fails leaves the queue as it was, and hands the item back with the error.\<close>

definition qwr_push ::
  "'a queue_with_reservation \<Rightarrow> 'a \<Rightarrow> ('p state_error \<times> 'a) + 'a queue_with_reservation" where
  "qwr_push q msg =
     (case qwr_check_has_slot q of
        Inl e \<Rightarrow> Inl (e, msg)
      | Inr _ \<Rightarrow> Inr (q\<lparr>queue := queue q @ [msg]\<rparr>))"

definition qwr_push_into_reserved_slot ::
  "'a queue_with_reservation \<Rightarrow> 'a \<Rightarrow> ('p state_error \<times> 'a) + 'a queue_with_reservation" where
  "qwr_push_into_reserved_slot q msg =
     (if num_slots_reserved q > 0
      then Inr (q\<lparr>num_slots_reserved := num_slots_reserved q - 1, queue := queue q @ [msg]\<rparr>)
      else Inl (QueueFull 0, msg))"

definition qwr_pop :: "'a queue_with_reservation \<Rightarrow> 'a option \<times> 'a queue_with_reservation" where
  "qwr_pop q =
     (case queue q of [] \<Rightarrow> (None, q) | x # xs \<Rightarrow> (Some x, q\<lparr>queue := xs\<rparr>))"

definition qwr_peek :: "'a queue_with_reservation \<Rightarrow> 'a option" where
  "qwr_peek q = (case queue q of [] \<Rightarrow> None | x # _ \<Rightarrow> Some x)"

definition qwr_reserved_slots :: "'a queue_with_reservation \<Rightarrow> nat" where
  "qwr_reserved_slots q = num_slots_reserved q"

definition qwr_has_used_slots :: "'a queue_with_reservation \<Rightarrow> bool" where
  "qwr_has_used_slots q \<longleftrightarrow> queue q \<noteq> [] \<or> qwr_reserved_slots q > 0"

definition qwr_calculate_stat_sum :: "('a \<Rightarrow> nat) \<Rightarrow> 'a queue_with_reservation \<Rightarrow> nat" where
  "qwr_calculate_stat_sum stat q = sum_list (map stat (queue q))"

section \<open>Input queue\<close>

record 'p input_queue =
  iq_queue :: "'p request_or_response queue_with_reservation"

definition iq_new :: "nat \<Rightarrow> 'p input_queue" where
  "iq_new cap = \<lparr>iq_queue = qwr_new cap\<rparr>"

definition iq_check_has_slot :: "'p input_queue \<Rightarrow> 'p state_error + unit" where
  "iq_check_has_slot q = qwr_check_has_slot (iq_queue q)"

definition iq_available_slots :: "'p input_queue \<Rightarrow> nat option" where
  "iq_available_slots q = qwr_available_slots (iq_queue q)"

definition iq_push ::
  "'p input_queue \<Rightarrow> 'p request_or_response
   \<Rightarrow> ('p state_error \<times> 'p request_or_response) + 'p input_queue" where
  "iq_push q msg =
     ok_bind (case msg of
                Request _ \<Rightarrow> qwr_push (iq_queue q) msg
              | Response _ \<Rightarrow> qwr_push_into_reserved_slot (iq_queue q) msg)
       (\<lambda>q'. Inr (q\<lparr>iq_queue := q'\<rparr>))"

definition iq_peek :: "'p input_queue \<Rightarrow> 'p request_or_response option" where
  "iq_peek q = qwr_peek (iq_queue q)"

definition iq_reserve_slot :: "'p input_queue \<Rightarrow> 'p state_error + 'p input_queue" where
  "iq_reserve_slot q = ok_bind (qwr_reserve_slot (iq_queue q)) (\<lambda>q'. Inr (q\<lparr>iq_queue := q'\<rparr>))"

definition iq_pop :: "'p input_queue \<Rightarrow> 'p request_or_response option \<times> 'p input_queue" where
  "iq_pop q = (case qwr_pop (iq_queue q) of (m, q') \<Rightarrow> (m, q\<lparr>iq_queue := q'\<rparr>))"

definition iq_num_messages :: "'p input_queue \<Rightarrow> nat" where
  "iq_num_messages q = length (queue (iq_queue q))"

definition iq_reserved_slots :: "'p input_queue \<Rightarrow> nat" where
  "iq_reserved_slots q = qwr_reserved_slots (iq_queue q)"

definition iq_has_used_slots :: "'p input_queue \<Rightarrow> bool" where
  "iq_has_used_slots q \<longleftrightarrow> qwr_has_used_slots (iq_queue q)"

definition iq_cycles_in_queue :: "'p input_queue \<Rightarrow> cycles" where
  "iq_cycles_in_queue q =
     foldl (\<lambda>total_cycles msg. cycles_add total_cycles (rr_cycles msg)) cycles_zero (queue (iq_queue q))"

definition iq_calculate_size_bytes :: "layout \<Rightarrow> 'p input_queue \<Rightarrow> nat" where
  "iq_calculate_size_bytes z q =
     size_of_InputQueue z + qwr_calculate_stat_sum (rr_count_bytes z) (iq_queue q)"

definition iq_calculate_stat_sum :: "('p request_or_response \<Rightarrow> nat) \<Rightarrow> 'p input_queue \<Rightarrow> nat" where
  "iq_calculate_stat_sum stat q = qwr_calculate_stat_sum stat (iq_queue q)"

section \<open>Output queue\<close>

record 'p output_queue =
  oq_queue :: "'p request_or_response option queue_with_reservation"
  oq_begin :: nat
  oq_deadline_range_ends :: "(time \<times> nat) list"
  oq_timeout_index :: nat
  oq_num_messages :: nat

definition oq_new :: "nat \<Rightarrow> 'p output_queue" where
  "oq_new cap =
     \<lparr>oq_queue = qwr_new cap, oq_begin = 0, oq_deadline_range_ends = [], oq_timeout_index = 0,
      oq_num_messages = 0\<rparr>"

definition oq_check_has_slot :: "'p output_queue \<Rightarrow> 'p state_error + unit" where
  "oq_check_has_slot q = qwr_check_has_slot (oq_queue q)"

definition oq_available_slots :: "'p output_queue \<Rightarrow> nat option" where
  "oq_available_slots q = qwr_available_slots (oq_queue q)"

text \<open>
  The update of the deadline ranges by a pushed request: the last range is extended when its
  deadline is not before the new one, and a new range is added otherwise.
\<close>

definition push_deadline :: "(time \<times> nat) list \<Rightarrow> time \<Rightarrow> nat \<Rightarrow> (time \<times> nat) list" where
  "push_deadline ranges deadline end_index =
     (if ranges \<noteq> [] \<and> fst (last ranges) \<ge> deadline
      then butlast ranges @ [(fst (last ranges), end_index)]
      else ranges @ [(deadline, end_index)])"

definition oq_push_request ::
  "'p output_queue \<Rightarrow> 'p request \<Rightarrow> time \<Rightarrow> ('p state_error \<times> 'p request) + 'p output_queue" where
  "oq_push_request q msg deadline =
     (case qwr_push (oq_queue q) (Some (Request msg)) of
        Inl (err, _) \<Rightarrow> Inl (err, msg)
      | Inr qq \<Rightarrow>
          (let end_index = oq_begin q + length (queue qq) in
           Inr (q\<lparr>oq_queue := qq,
                  oq_deadline_range_ends := push_deadline (oq_deadline_range_ends q) deadline end_index,
                  oq_num_messages := oq_num_messages q + 1\<rparr>)))"

text \<open>Pushing a response without a reservation panics.\<close>

definition oq_push_response :: "'p output_queue \<Rightarrow> 'p response \<Rightarrow> 'p output_queue option" where
  "oq_push_response q msg =
     (case (qwr_push_into_reserved_slot (oq_queue q) (Some (Response msg))
              :: ('p state_error \<times> _) + _) of
        Inl _ \<Rightarrow> None
      | Inr qq \<Rightarrow> Some (q\<lparr>oq_queue := qq, oq_num_messages := oq_num_messages q + 1\<rparr>))"

definition oq_reserve_slot :: "'p output_queue \<Rightarrow> 'p state_error + 'p output_queue" where
  "oq_reserve_slot q = ok_bind (qwr_reserve_slot (oq_queue q)) (\<lambda>q'. Inr (q\<lparr>oq_queue := q'\<rparr>))"

text \<open>The two loops of \<open>advance_to_next_message\<close>.\<close>

fun skip_empty_slots :: "'a option list \<Rightarrow> nat \<Rightarrow> 'a option list \<times> nat" where
  "skip_empty_slots (None # xs) begin_index = skip_empty_slots xs (begin_index + 1)"
| "skip_empty_slots xs begin_index = (xs, begin_index)"

fun drop_consumed_ranges :: "nat \<Rightarrow> nat \<Rightarrow> (time \<times> nat) list \<Rightarrow> (time \<times> nat) list" where
  "drop_consumed_ranges begin_index timeout_index [] = []"
| "drop_consumed_ranges begin_index timeout_index ((d, e) # rs) =
     (if e \<le> begin_index \<or> e \<le> timeout_index
      then drop_consumed_ranges begin_index timeout_index rs
      else (d, e) # rs)"

definition oq_advance_to_next_message :: "'p output_queue \<Rightarrow> 'p output_queue" where
  "oq_advance_to_next_message q =
     (case skip_empty_slots (queue (oq_queue q)) (oq_begin q) of (xs, b) \<Rightarrow>
        q\<lparr>oq_queue := (oq_queue q)\<lparr>queue := xs\<rparr>, oq_begin := b,
          oq_deadline_range_ends :=
            drop_consumed_ranges b (oq_timeout_index q) (oq_deadline_range_ends q)\<rparr>)"

text \<open>Popping panics when the front slot is empty, or when the message counter would underflow.\<close>

definition oq_pop :: "'p output_queue \<Rightarrow> ('p request_or_response option \<times> 'p output_queue) option" where
  "oq_pop q =
     (case qwr_pop (oq_queue q) of
        (None, _) \<Rightarrow> Some (None, q)
      | (Some None, _) \<Rightarrow> None
      | (Some (Some msg), qq) \<Rightarrow>
          do {
            let q1 = oq_advance_to_next_message (q\<lparr>oq_queue := qq, oq_begin := oq_begin q + 1\<rparr>);
            n \<leftarrow> sub_usize (oq_num_messages q1) 1;
            Some (Some msg, q1\<lparr>oq_num_messages := n\<rparr>)
          })"

fun is_request_item :: "'p request_or_response option \<Rightarrow> bool" where
  "is_request_item (Some (Request _)) = True"
| "is_request_item _ = False"

definition oq_test_invariants :: "'p output_queue \<Rightarrow> string + unit" where
  "oq_test_invariants q =
     (let items = queue (oq_queue q); ranges = oq_deadline_range_ends q in
      if items \<noteq> [] \<and> hd items = None then Inl ''`None` at the beginning of the queue.''
      else if \<not> list_all (\<lambda>(a, b). fst a < fst b \<and> snd a < snd b) (zip ranges (drop 1 ranges))
      then Inl ''Deadline ranges not sorted.''
      else if ranges \<noteq> [] \<and> snd (hd ranges) \<le> oq_begin q
      then Inl ''Deadline range end before queue begin.''
      else if ranges \<noteq> [] \<and> snd (hd ranges) \<le> oq_timeout_index q
      then Inl ''Deadline range end before `timeout_index`.''
      else if ranges \<noteq> [] \<and> snd (last ranges) > oq_begin q + length items
      then Inl ''Deadline range end after queue end.''
      else if list_ex is_request_item (take (oq_timeout_index q - oq_begin q) items)
      then Inl ''Request(s) before `timeout_index`.''
      else if oq_num_messages q \<noteq> length (filter (\<lambda>rr. rr \<noteq> None) items)
      then Inl ''`num_messages` does is not equal to the number of messages.''
      else Inr ())"

text \<open>Peeking unwraps the front item.\<close>

definition oq_peek :: "'p output_queue \<Rightarrow> 'p request_or_response option option" where
  "oq_peek q =
     (case qwr_peek (oq_queue q) of
        None \<Rightarrow> Some None
      | Some None \<Rightarrow> None
      | Some (Some msg) \<Rightarrow> Some (Some msg))"

definition oq_reserved_slots :: "'p output_queue \<Rightarrow> nat" where
  "oq_reserved_slots q = qwr_reserved_slots (oq_queue q)"

definition oq_has_used_slots :: "'p output_queue \<Rightarrow> bool" where
  "oq_has_used_slots q \<longleftrightarrow> qwr_has_used_slots (oq_queue q)"

definition oq_cycles_in_queue :: "'p output_queue \<Rightarrow> cycles" where
  "oq_cycles_in_queue q =
     foldl (\<lambda>total_cycles msg. cycles_add total_cycles (rr_cycles msg)) cycles_zero
       (somes (queue (oq_queue q)))"

definition oq_calculate_stat_sum :: "('p request_or_response \<Rightarrow> nat) \<Rightarrow> 'p output_queue \<Rightarrow> nat" where
  "oq_calculate_stat_sum stat q =
     qwr_calculate_stat_sum (\<lambda>item. case item of Some m \<Rightarrow> stat m | None \<Rightarrow> 0) (oq_queue q)"

definition oq_has_expired_deadlines :: "'p output_queue \<Rightarrow> time \<Rightarrow> bool" where
  "oq_has_expired_deadlines q current_time =
     (case oq_deadline_range_ends q of (deadline, _) # _ \<Rightarrow> deadline \<le> current_time | [] \<Rightarrow> False)"

section \<open>Timing out requests\<close>

text \<open>
  The inner loop of \<open>TimedOutRequestsIter::next\<close>: from \<open>timeout_index\<close> up to the end of the first
  range, look for a request; the first one found is replaced by an empty slot and returned.
\<close>

function scan_range ::
  "'p output_queue \<Rightarrow> nat \<Rightarrow> ('p request option \<times> 'p output_queue) option" where
  "scan_range q range_end =
     (if oq_timeout_index q < range_end then
        do {
          i \<leftarrow> sub_usize (oq_timeout_index q) (oq_begin q);
          let q1 = q\<lparr>oq_timeout_index := oq_timeout_index q + 1\<rparr>;
          let items = queue (oq_queue q1);
          (case (if i < length items then Some (items ! i) else None) of
             Some (Some (Request request)) \<Rightarrow>
               do {
                 let q2 = q1\<lparr>oq_queue := (oq_queue q1)\<lparr>queue := items[i := None]\<rparr>\<rparr>;
                 n \<leftarrow> sub_usize (oq_num_messages q2) 1;
                 Some (Some request, oq_advance_to_next_message (q2\<lparr>oq_num_messages := n\<rparr>))
               }
           | _ \<Rightarrow> scan_range q1 range_end)
        }
      else Some (None, q))"
  by pat_completeness auto
termination
  by (relation "measure (\<lambda>(q, range_end). range_end - oq_timeout_index q)") auto

declare scan_range.simps [simp del]

lemma scan_range_done: "range_end \<le> oq_timeout_index q \<Longrightarrow> scan_range q range_end = Some (None, q)"
  by (subst scan_range.simps) simp

lemma scan_range_panic:
  "oq_timeout_index q < range_end \<Longrightarrow> oq_timeout_index q < oq_begin q \<Longrightarrow> scan_range q range_end = None"
  by (subst scan_range.simps) (simp add: sub_usize_def)

lemma scan_range_skip:
  assumes "oq_timeout_index q < range_end" and "oq_begin q \<le> oq_timeout_index q"
    and "\<not> (oq_timeout_index q - oq_begin q < length (queue (oq_queue q)) \<and>
         is_request_item (queue (oq_queue q) ! (oq_timeout_index q - oq_begin q)))"
  shows "scan_range q range_end = scan_range (q\<lparr>oq_timeout_index := oq_timeout_index q + 1\<rparr>) range_end"
  using assms
  by (subst scan_range.simps)
    (auto simp: sub_usize_def Let_def split: option.split request_or_response.split)

lemma scan_range_hit:
  assumes "oq_timeout_index q < range_end" and "oq_begin q \<le> oq_timeout_index q"
    and "oq_timeout_index q - oq_begin q < length (queue (oq_queue q))"
    and "queue (oq_queue q) ! (oq_timeout_index q - oq_begin q) = Some (Request r)"
  shows "scan_range q range_end =
    do {
      n \<leftarrow> sub_usize (oq_num_messages q) 1;
      Some (Some r, oq_advance_to_next_message
        (q\<lparr>oq_timeout_index := oq_timeout_index q + 1,
           oq_queue := (oq_queue q)\<lparr>queue := (queue (oq_queue q))[oq_timeout_index q - oq_begin q := None]\<rparr>,
           oq_num_messages := n\<rparr>))
    }"
  using assms by (subst scan_range.simps) (simp add: sub_usize_def Let_def)

lemma scan_range_cases [case_names stop panic skip hit]:
  obtains "range_end \<le> oq_timeout_index q"
    | "oq_timeout_index q < range_end" "oq_timeout_index q < oq_begin q"
    | "oq_timeout_index q < range_end" "oq_begin q \<le> oq_timeout_index q"
        "\<not> (oq_timeout_index q - oq_begin q < length (queue (oq_queue q)) \<and>
          is_request_item (queue (oq_queue q) ! (oq_timeout_index q - oq_begin q)))"
    | r where "oq_timeout_index q < range_end" "oq_begin q \<le> oq_timeout_index q"
        "oq_timeout_index q - oq_begin q < length (queue (oq_queue q))"
        "queue (oq_queue q) ! (oq_timeout_index q - oq_begin q) = Some (Request r)"
  by (metis is_request_item.elims(2) not_less)

lemma scan_range_None:
  "scan_range q range_end = Some (None, q') \<Longrightarrow>
    q' = q\<lparr>oq_timeout_index := max (oq_timeout_index q) range_end\<rparr>"
proof (induction "range_end - oq_timeout_index q" arbitrary: q rule: less_induct)
  case less
  show ?case
  proof (cases range_end q rule: scan_range_cases)
    case stop
    with less.prems show ?thesis by (simp add: scan_range_done)
  next
    case panic
    with less.prems show ?thesis by (simp add: scan_range_panic)
  next
    case skip
    let ?q1 = "q\<lparr>oq_timeout_index := oq_timeout_index q + 1\<rparr>"
    have "scan_range ?q1 range_end = Some (None, q')"
      using less.prems scan_range_skip [OF skip] by simp
    moreover have "range_end - oq_timeout_index ?q1 < range_end - oq_timeout_index q"
      using skip(1) by simp
    ultimately have "q' = ?q1\<lparr>oq_timeout_index := max (oq_timeout_index ?q1) range_end\<rparr>"
      using less.hyps by blast
    with skip(1) show ?thesis by simp
  next
    case hit
    with less.prems scan_range_hit [OF hit] show ?thesis by (auto simp: sub_usize_def split: if_splits)
  qed
qed

text \<open>The outer loop: ranges whose deadline has passed are scanned in order, then dropped.\<close>

function oq_timeout_next ::
  "'p output_queue \<Rightarrow> time \<Rightarrow> ('p request option \<times> 'p output_queue) option" where
  "oq_timeout_next q current_time =
     (case oq_deadline_range_ends q of
        [] \<Rightarrow> Some (None, q)
      | (deadline, range_end) # _ \<Rightarrow>
          if deadline > current_time then Some (None, q)
          else
            (let q1 = q\<lparr>oq_timeout_index := max (oq_timeout_index q) (oq_begin q)\<rparr> in
             case scan_range q1 range_end of
               None \<Rightarrow> None
             | Some (Some request, q2) \<Rightarrow> Some (Some request, q2)
             | Some (None, q2) \<Rightarrow>
                 oq_timeout_next
                   (q2\<lparr>oq_deadline_range_ends := tl (oq_deadline_range_ends q2)\<rparr>) current_time))"
  by pat_completeness auto
termination
  by (relation "measure (\<lambda>(q, t). length (oq_deadline_range_ends q))")
    (auto dest!: scan_range_None)

declare oq_timeout_next.simps [simp del]

text \<open>
  Every request that \<open>next\<close> returns leaves an empty slot, so that a loop over the iterator ends.
\<close>

lemma skip_empty_slots_eq:
  "skip_empty_slots xs b = (dropWhile (\<lambda>x. x = None) xs, b + length (takeWhile (\<lambda>x. x = None) xs))"
  by (induction xs b rule: skip_empty_slots.induct) auto

lemma somes_dropWhile_None [simp]: "somes (dropWhile (\<lambda>x. x = None) xs) = somes xs"
  by (induction xs rule: somes.induct) auto

lemma somes_advance [simp]:
  "somes (queue (oq_queue (oq_advance_to_next_message q))) = somes (queue (oq_queue q))"
  by (simp add: oq_advance_to_next_message_def skip_empty_slots_eq)

lemma scan_range_somes:
  "scan_range q range_end = Some (Some r, q') \<Longrightarrow>
    length (somes (queue (oq_queue q))) = Suc (length (somes (queue (oq_queue q'))))"
proof (induction "range_end - oq_timeout_index q" arbitrary: q rule: less_induct)
  case less
  show ?case
  proof (cases range_end q rule: scan_range_cases)
    case stop
    with less.prems show ?thesis by (simp add: scan_range_done)
  next
    case panic
    with less.prems show ?thesis by (simp add: scan_range_panic)
  next
    case skip
    let ?q1 = "q\<lparr>oq_timeout_index := oq_timeout_index q + 1\<rparr>"
    have "scan_range ?q1 range_end = Some (Some r, q')"
      using less.prems scan_range_skip [OF skip] by simp
    moreover have "range_end - oq_timeout_index ?q1 < range_end - oq_timeout_index q"
      using skip(1) by simp
    ultimately show ?thesis using less.hyps [of ?q1] by simp
  next
    case (hit r')
    let ?items = "queue (oq_queue q)" and ?i = "oq_timeout_index q - oq_begin q"
    have "somes (queue (oq_queue q')) = somes (?items[?i := None])"
      using less.prems unfolding scan_range_hit [OF hit] by auto
    moreover have "length (somes ?items) = Suc (length (somes (?items[?i := None])))"
      using somes_update_None [OF hit(3,4)] by (metis add_Suc_right length_Cons length_append)
    ultimately show ?thesis by simp
  qed
qed

lemma oq_timeout_next_unexpired:
  "\<not> oq_has_expired_deadlines q t \<Longrightarrow> oq_timeout_next q t = Some (None, q)"
  by (subst oq_timeout_next.simps) (auto simp: oq_has_expired_deadlines_def split: list.split)

lemma oq_timeout_next_expired:
  assumes "oq_deadline_range_ends q = (d, e) # rest" and "d \<le> t"
  shows "oq_timeout_next q t =
    (case scan_range (q\<lparr>oq_timeout_index := max (oq_timeout_index q) (oq_begin q)\<rparr>) e of
       None \<Rightarrow> None
     | Some (Some request, q2) \<Rightarrow> Some (Some request, q2)
     | Some (None, q2) \<Rightarrow> oq_timeout_next (q2\<lparr>oq_deadline_range_ends := tl (oq_deadline_range_ends q2)\<rparr>) t)"
proof -
  have "\<not> t < d" using assms(2) by simp
  then show ?thesis
    by (subst oq_timeout_next.simps) (simp only: assms(1) list.case prod.case if_False Let_def)
qed

lemma oq_timeout_next_cases [case_names unexpired panic found next_range]:
  obtains "\<not> oq_has_expired_deadlines q t" "oq_timeout_next q t = Some (None, q)"
    | d e rest where "oq_deadline_range_ends q = (d, e) # rest" "d \<le> t"
        "scan_range (q\<lparr>oq_timeout_index := max (oq_timeout_index q) (oq_begin q)\<rparr>) e = None"
        "oq_timeout_next q t = None"
    | d e rest r q2 where "oq_deadline_range_ends q = (d, e) # rest" "d \<le> t"
        "scan_range (q\<lparr>oq_timeout_index := max (oq_timeout_index q) (oq_begin q)\<rparr>) e = Some (Some r, q2)"
        "oq_timeout_next q t = Some (Some r, q2)"
    | d e rest where "oq_deadline_range_ends q = (d, e) # rest" "d \<le> t"
        "scan_range (q\<lparr>oq_timeout_index := max (oq_timeout_index q) (oq_begin q)\<rparr>) e =
          Some (None, q\<lparr>oq_timeout_index := max (max (oq_timeout_index q) (oq_begin q)) e\<rparr>)"
        "oq_timeout_next q t = oq_timeout_next
          (q\<lparr>oq_timeout_index := max (max (oq_timeout_index q) (oq_begin q)) e,
             oq_deadline_range_ends := rest\<rparr>) t"
proof (cases "oq_has_expired_deadlines q t")
  case False
  then show ?thesis using that(1) oq_timeout_next_unexpired by blast
next
  case True
  then obtain d e rest where ranges: "oq_deadline_range_ends q = (d, e) # rest" "d \<le> t"
    by (auto simp: oq_has_expired_deadlines_def split: list.splits)
  let ?q1 = "q\<lparr>oq_timeout_index := max (oq_timeout_index q) (oq_begin q)\<rparr>"
  note eq = oq_timeout_next_expired [OF ranges]
  consider (n) "scan_range ?q1 e = None" | (r) r q2 where "scan_range ?q1 e = Some (Some r, q2)"
    | (s) q2 where "scan_range ?q1 e = Some (None, q2)"
    by (metis option.exhaust surj_pair)
  then show ?thesis
  proof cases
    case n
    then show ?thesis using that(2) ranges eq by simp
  next
    case r
    then show ?thesis using that(3) ranges eq by simp
  next
    case s
    have q2: "q2 = q\<lparr>oq_timeout_index := max (max (oq_timeout_index q) (oq_begin q)) e\<rparr>"
      using scan_range_None [OF s] by simp
    show ?thesis
      by (rule that(4) [OF ranges]) (use s q2 eq ranges in simp_all)
  qed
qed

lemma oq_timeout_next_somes:
  "oq_timeout_next q t = Some (Some r, q') \<Longrightarrow>
    length (somes (queue (oq_queue q))) = Suc (length (somes (queue (oq_queue q'))))"
proof (induction "length (oq_deadline_range_ends q)" arbitrary: q rule: less_induct)
  case less
  show ?case
  proof (cases t q rule: oq_timeout_next_cases)
    case (found d e rest r2 q2)
    with less.prems show ?thesis using scan_range_somes [OF found(3)] by simp
  next
    case (next_range d e rest)
    let ?q2 = "q\<lparr>oq_timeout_index := max (max (oq_timeout_index q) (oq_begin q)) e,
      oq_deadline_range_ends := rest\<rparr>"
    have "oq_timeout_next ?q2 t = Some (Some r, q')" using next_range(4) less.prems by simp
    then show ?thesis using less.hyps [of ?q2] next_range(1) by simp
  qed (use less.prems in simp_all)
qed

text \<open>
  \<open>for request in output_queue.time_out_requests(current_time)\<close>: the requests that the iterator
  yields until it is exhausted, and the queue it leaves behind.
\<close>

function oq_time_out_requests ::
  "'p output_queue \<Rightarrow> time \<Rightarrow> ('p request list \<times> 'p output_queue) option" where
  "oq_time_out_requests q current_time =
     (case oq_timeout_next q current_time of
        None \<Rightarrow> None
      | Some (None, q') \<Rightarrow> Some ([], q')
      | Some (Some request, q') \<Rightarrow>
          (case oq_time_out_requests q' current_time of
             None \<Rightarrow> None
           | Some (rs, q'') \<Rightarrow> Some (request # rs, q'')))"
  by pat_completeness auto
termination
  by (relation "measure (\<lambda>(q, t). length (somes (queue (oq_queue q))))")
    (auto dest!: oq_timeout_next_somes)

declare oq_time_out_requests.simps [simp del]

section \<open>Protobuf encoding of the queues\<close>

record pb_message_deadline =
  md_deadline :: u64
  md_index :: u64

record pb_input_output_queue =
  pbq_queue :: "pb_request_or_response list"
  pbq_begin :: u64
  pbq_capacity :: u64
  pbq_num_slots_reserved :: u64
  pbq_deadline_range_ends :: "pb_message_deadline list"
  pbq_timeout_index :: u64

text \<open>
  The size check adds two \<open>u64\<close>; an overflow of that addition panics. The numbers that the error
  messages print are left out of the model's messages.
\<close>

definition check_size :: "pb_input_output_queue \<Rightarrow> (proxy_decode_error + unit) option" where
  "check_size q =
     (if unat (pbq_capacity q) \<noteq> DEFAULT_QUEUE_CAPACITY
      then Some (Inl (Other ''QueueWithReservation: capacity''))
      else if length (pbq_queue q) + unat (pbq_num_slots_reserved q) \<ge> 2 ^ 64 then None
      else if unat (pbq_capacity q) < length (pbq_queue q) + unat (pbq_num_slots_reserved q)
      then Some (Inl (Other ''QueueWithReservation: message count + reserved slots > capacity''))
      else Some (Inr ()))"

definition qwr_rr_to_pb ::
  "('p \<Rightarrow> u8 list) \<Rightarrow> 'p request_or_response queue_with_reservation \<Rightarrow> pb_request_or_response list" where
  "qwr_rr_to_pb enc q = map (rr_to_pb enc) (queue q)"

definition qwr_opt_to_pb ::
  "('p \<Rightarrow> u8 list) \<Rightarrow> 'p request_or_response option queue_with_reservation \<Rightarrow> pb_request_or_response list" where
  "qwr_opt_to_pb enc q = map (\<lambda>opt. case opt of Some rr \<Rightarrow> rr_to_pb enc rr | None \<Rightarrow> None) (queue q)"

definition qwr_rr_try_from ::
  "(u8 list \<Rightarrow> 'p option) \<Rightarrow> pb_input_output_queue
   \<Rightarrow> (proxy_decode_error + 'p request_or_response queue_with_reservation) option" where
  "qwr_rr_try_from dec q =
     try_bind (check_size q) (\<lambda>_.
     try_bind (try_map (rr_try_from dec) (pbq_queue q)) (\<lambda>items.
     Some (Inr \<lparr>queue = items, capacity = DEFAULT_QUEUE_CAPACITY,
                num_slots_reserved = unat (pbq_num_slots_reserved q)\<rparr>)))"

definition qwr_opt_try_from ::
  "(u8 list \<Rightarrow> 'p option) \<Rightarrow> pb_input_output_queue
   \<Rightarrow> (proxy_decode_error + 'p request_or_response option queue_with_reservation) option" where
  "qwr_opt_try_from dec q =
     try_bind (check_size q) (\<lambda>_.
     try_bind (try_map (\<lambda>rr. case rr of
                               None \<Rightarrow> Some (Inr None)
                             | Some _ \<Rightarrow> try_bind (rr_try_from dec rr) (\<lambda>m. Some (Inr (Some m))))
                 (pbq_queue q)) (\<lambda>items.
     Some (Inr \<lparr>queue = items, capacity = DEFAULT_QUEUE_CAPACITY,
                num_slots_reserved = unat (pbq_num_slots_reserved q)\<rparr>)))"

definition iq_to_pb :: "('p \<Rightarrow> u8 list) \<Rightarrow> 'p input_queue \<Rightarrow> pb_input_output_queue" where
  "iq_to_pb enc q =
     \<lparr>pbq_queue = qwr_rr_to_pb enc (iq_queue q), pbq_begin = 0,
      pbq_capacity = of_nat (capacity (iq_queue q)),
      pbq_num_slots_reserved = of_nat (num_slots_reserved (iq_queue q)),
      pbq_deadline_range_ends = [], pbq_timeout_index = 0\<rparr>"

definition iq_try_from ::
  "(u8 list \<Rightarrow> 'p option) \<Rightarrow> pb_input_output_queue \<Rightarrow> (proxy_decode_error + 'p input_queue) option" where
  "iq_try_from dec q =
     (if pbq_deadline_range_ends q \<noteq> [] \<or> pbq_timeout_index q \<noteq> 0
      then Some (Inl (Other ''Found deadlines on decoding InputQueue''))
      else try_bind (qwr_rr_try_from dec q) (\<lambda>qq. Some (Inr \<lparr>iq_queue = qq\<rparr>)))"

definition oq_to_pb :: "('p \<Rightarrow> u8 list) \<Rightarrow> 'p output_queue \<Rightarrow> pb_input_output_queue" where
  "oq_to_pb enc q =
     \<lparr>pbq_queue = qwr_opt_to_pb enc (oq_queue q), pbq_begin = of_nat (oq_begin q),
      pbq_capacity = of_nat (capacity (oq_queue q)),
      pbq_num_slots_reserved = of_nat (num_slots_reserved (oq_queue q)),
      pbq_deadline_range_ends =
        map (\<lambda>(deadline, range_end). \<lparr>md_deadline = deadline, md_index = of_nat range_end\<rparr>)
          (oq_deadline_range_ends q),
      pbq_timeout_index = of_nat (oq_timeout_index q)\<rparr>"

definition oq_try_from ::
  "(u8 list \<Rightarrow> 'p option) \<Rightarrow> pb_input_output_queue \<Rightarrow> (proxy_decode_error + 'p output_queue) option" where
  "oq_try_from dec q =
     try_bind (qwr_opt_try_from dec q) (\<lambda>qq.
       let res = \<lparr>oq_queue = qq, oq_begin = unat (pbq_begin q),
                  oq_deadline_range_ends =
                    map (\<lambda>di. (md_deadline di, unat (md_index di))) (pbq_deadline_range_ends q),
                  oq_timeout_index = unat (pbq_timeout_index q),
                  oq_num_messages = length (filter (\<lambda>rr. rr \<noteq> None) (queue qq))\<rparr>
       in case oq_test_invariants res of
            Inl err \<Rightarrow> Some (Inl (Other (''Invalid OutputQueue: '' @ err)))
          | Inr _ \<Rightarrow> Some (Inr res))"

section \<open>Ingress queue\<close>

record 'p ingress_queue =
  ing_queue :: "'p ingress list"
  ing_size_bytes :: nat

definition ingress_size_bytes :: "layout \<Rightarrow> 'p ingress \<Rightarrow> nat" where
  "ingress_size_bytes z msg = size_of_Arc_Ingress z + ingress_count_bytes z msg"

definition ing_calculate_size_bytes :: "layout \<Rightarrow> 'p ingress list \<Rightarrow> nat" where
  "ing_calculate_size_bytes z q = size_of_IngressQueue z + sum_list (map (ingress_size_bytes z) q)"

definition ing_default :: "layout \<Rightarrow> 'p ingress_queue" where
  "ing_default z = \<lparr>ing_queue = [], ing_size_bytes = ing_calculate_size_bytes z ([] :: 'p ingress list)\<rparr>"

definition ing_push :: "layout \<Rightarrow> 'p ingress_queue \<Rightarrow> 'p ingress \<Rightarrow> 'p ingress_queue" where
  "ing_push z q msg =
     q\<lparr>ing_size_bytes := ing_size_bytes q + ingress_size_bytes z msg, ing_queue := ing_queue q @ [msg]\<rparr>"

definition ing_pop :: "layout \<Rightarrow> 'p ingress_queue \<Rightarrow> ('p ingress option \<times> 'p ingress_queue) option" where
  "ing_pop z q =
     (case ing_queue q of
        [] \<Rightarrow> Some (None, q)
      | msg # rest \<Rightarrow>
          do {
            n \<leftarrow> sub_usize (ing_size_bytes q) (ingress_size_bytes z msg);
            Some (Some msg, q\<lparr>ing_queue := rest, ing_size_bytes := n\<rparr>)
          })"

definition ing_peek :: "'p ingress_queue \<Rightarrow> 'p ingress option" where
  "ing_peek q = (case ing_queue q of [] \<Rightarrow> None | msg # _ \<Rightarrow> Some msg)"

definition ing_size :: "'p ingress_queue \<Rightarrow> nat" where
  "ing_size q = length (ing_queue q)"

definition ing_is_empty :: "'p ingress_queue \<Rightarrow> bool" where
  "ing_is_empty q \<longleftrightarrow> ing_size q = 0"

definition ing_filter_messages ::
  "layout \<Rightarrow> ('p ingress \<Rightarrow> bool) \<Rightarrow> 'p ingress_queue \<Rightarrow> 'p ingress_queue" where
  "ing_filter_messages z f q =
     (let kept = filter f (ing_queue q) in
      q\<lparr>ing_queue := kept, ing_size_bytes := ing_calculate_size_bytes z kept\<rparr>)"

definition ing_to_pb :: "('p \<Rightarrow> u8 list) \<Rightarrow> 'p ingress_queue \<Rightarrow> pb_ingress list" where
  "ing_to_pb enc q = map (ingress_to_pb enc) (ing_queue q)"

definition ing_try_from ::
  "layout \<Rightarrow> (u8 list \<Rightarrow> 'p option) \<Rightarrow> pb_ingress list \<Rightarrow> (proxy_decode_error + 'p ingress_queue) option" where
  "ing_try_from z dec item =
     try_bind (try_map (ingress_try_from dec) item) (\<lambda>q.
       Some (Inr \<lparr>ing_queue = q, ing_size_bytes = ing_calculate_size_bytes z q\<rparr>))"

end
