(* ===== verification/Queue_Correct.thy ===== *)
theory Queue_Correct
  imports Queue
begin

text \<open>
  Correctness of the canister message queues of \<open>Queue\<close>: the invariant of an output queue and its
  preservation by every operation, absence of panics, first-in first-out order, the exact set of
  requests that time out, reservations as a guarantee for responses, and the protobuf round trips.
\<close>

section \<open>Invariants\<close>

abbreviation oq_items :: "'p output_queue \<Rightarrow> 'p request_or_response option list" where
  "oq_items q \<equiv> queue (oq_queue q)"

abbreviation oq_end :: "'p output_queue \<Rightarrow> nat" where
  "oq_end q \<equiv> oq_begin q + length (oq_items q)"

text \<open>
  The slot view of an output queue: the item at an absolute queue index. Indices before the
  beginning and past the end read as empty, so that advancing over empty slots changes nothing.
\<close>

definition oq_slot :: "'p output_queue \<Rightarrow> nat \<Rightarrow> 'p request_or_response option" where
  "oq_slot q j = (if oq_begin q \<le> j \<and> j < oq_end q then oq_items q ! (j - oq_begin q) else None)"

definition range_less :: "time \<times> nat \<Rightarrow> time \<times> nat \<Rightarrow> bool" where
  "range_less a b \<longleftrightarrow> fst a < fst b \<and> snd a < snd b"

lemma transp_range_less: "transp range_less"
  by (auto simp: transp_def range_less_def)

definition qwr_inv :: "'a queue_with_reservation \<Rightarrow> bool" where
  "qwr_inv q \<longleftrightarrow> length (queue q) + num_slots_reserved q \<le> capacity q"

text \<open>
  The invariant of an output queue: the conditions that \<open>test_invariants\<close> checks, over all ranges
  and indices, and three more that make them inductive: the capacity is respected,
  \<open>timeout_index\<close> is not past the end, and every request lies in some deadline range.
\<close>

definition oq_checked :: "'p output_queue \<Rightarrow> bool" where
  "oq_checked q \<longleftrightarrow>
     (oq_items q \<noteq> [] \<longrightarrow> hd (oq_items q) \<noteq> None) \<and>
     sorted_wrt range_less (oq_deadline_range_ends q) \<and>
     (\<forall>(d, e) \<in> set (oq_deadline_range_ends q).
        oq_begin q < e \<and> oq_timeout_index q < e \<and> e \<le> oq_end q) \<and>
     (\<forall>j < oq_timeout_index q. \<not> is_request_item (oq_slot q j)) \<and>
     oq_num_messages q = length (somes (oq_items q))"

definition oq_inv :: "'p output_queue \<Rightarrow> bool" where
  "oq_inv q \<longleftrightarrow>
     oq_checked q \<and> qwr_inv (oq_queue q) \<and> oq_timeout_index q \<le> oq_end q \<and>
     (\<forall>j. is_request_item (oq_slot q j) \<longrightarrow> (\<exists>(d, e) \<in> set (oq_deadline_range_ends q). j < e))"

lemma sorted_range_bounds:
  assumes "sorted_wrt range_less rs" and "rs \<noteq> []" and "r \<in> set rs"
  shows "snd (hd rs) \<le> snd r" and "snd r \<le> snd (last rs)"
    and "fst (hd rs) \<le> fst r" and "fst r \<le> fst (last rs)"
proof -
  obtain x xs where rs: "rs = x # xs" using assms(2) by (cases rs) auto
  show "snd (hd rs) \<le> snd r" "fst (hd rs) \<le> fst r"
    using assms(1,3) by (auto simp: rs range_less_def)
  obtain ys y where rs': "rs = ys @ [y]" using assms(2) by (cases rs rule: rev_cases) auto
  show "snd r \<le> snd (last rs)" "fst r \<le> fst (last rs)"
    using assms(1,3) by (auto simp: rs' sorted_wrt_append range_less_def)
qed

lemma oq_slot_below: "j < oq_begin q \<Longrightarrow> oq_slot q j = None"
  by (simp add: oq_slot_def)

lemma take_requests_slots:
  "list_ex is_request_item (take (t - oq_begin q) (oq_items q)) \<longleftrightarrow> (\<exists>j < t. is_request_item (oq_slot q j))"
proof
  assume "list_ex is_request_item (take (t - oq_begin q) (oq_items q))"
  then obtain i where "i < t - oq_begin q" "i < length (oq_items q)" "is_request_item (oq_items q ! i)"
    by (auto simp: list_ex_iff in_set_conv_nth)
  then show "\<exists>j < t. is_request_item (oq_slot q j)"
    by (intro exI [of _ "oq_begin q + i"]) (auto simp: oq_slot_def)
next
  assume "\<exists>j < t. is_request_item (oq_slot q j)"
  then obtain j where "j < t" and j: "is_request_item (oq_slot q j)" by blast
  from j have "oq_begin q \<le> j" "j < oq_end q" by (auto simp: oq_slot_def split: if_splits)
  with j \<open>j < t\<close> show "list_ex is_request_item (take (t - oq_begin q) (oq_items q))"
    unfolding list_ex_iff in_set_conv_nth
    by (intro bexI [of _ "oq_slot q j"]) (auto simp: oq_slot_def in_set_conv_nth intro!: exI [of _ "j - oq_begin q"])
qed

lemma zip_ranges_sorted:
  "list_all (\<lambda>(a, b). fst a < fst b \<and> snd a < snd b) (zip rs (drop 1 rs)) \<longleftrightarrow> sorted_wrt range_less rs"
proof -
  have "list_all (\<lambda>(a, b). fst a < fst b \<and> snd a < snd b) (zip rs (drop 1 rs))
      \<longleftrightarrow> (\<forall>(a, b) \<in> set (zip rs (tl rs)). range_less a b)"
    by (simp add: list_all_iff range_less_def drop_Suc)
  also have "\<dots> \<longleftrightarrow> successively range_less rs" by (rule zip_tl_all_iff_successively)
  also have "\<dots> \<longleftrightarrow> sorted_wrt range_less rs"
    by (rule successively_conv_sorted_wrt [OF transp_range_less])
  finally show ?thesis .
qed

lemma range_ends_iff:
  assumes "sorted_wrt range_less rs"
  shows "(\<forall>(d, e) \<in> set rs. b < e \<and> t < e \<and> e \<le> n) \<longleftrightarrow>
    \<not> (rs \<noteq> [] \<and> snd (hd rs) \<le> b) \<and> \<not> (rs \<noteq> [] \<and> snd (hd rs) \<le> t) \<and> \<not> (rs \<noteq> [] \<and> snd (last rs) > n)"
proof (cases "rs = []")
  case False
  then have mem: "hd rs \<in> set rs" "last rs \<in> set rs" by simp_all
  show ?thesis
  proof (intro iffI conjI)
    assume all: "\<forall>(d, e) \<in> set rs. b < e \<and> t < e \<and> e \<le> n"
    from bspec [OF all mem(1)] bspec [OF all mem(2)]
    show "\<not> (rs \<noteq> [] \<and> snd (hd rs) \<le> b)" "\<not> (rs \<noteq> [] \<and> snd (hd rs) \<le> t)"
      "\<not> (rs \<noteq> [] \<and> n < snd (last rs))"
      by (simp_all add: split_beta)
  next
    assume ends: "\<not> (rs \<noteq> [] \<and> snd (hd rs) \<le> b) \<and> \<not> (rs \<noteq> [] \<and> snd (hd rs) \<le> t) \<and>
      \<not> (rs \<noteq> [] \<and> n < snd (last rs))"
    show "\<forall>(d, e) \<in> set rs. b < e \<and> t < e \<and> e \<le> n"
    proof clarify
      fix d e assume "(d, e) \<in> set rs"
      from sorted_range_bounds [OF assms False this] ends False
      show "b < e \<and> t < e \<and> e \<le> n" by simp
    qed
  qed
qed simp

lemma oq_test_invariants_iff: "oq_test_invariants q = Inr () \<longleftrightarrow> oq_checked q"
proof (cases "sorted_wrt range_less (oq_deadline_range_ends q)")
  case False
  then show ?thesis
    unfolding oq_test_invariants_def oq_checked_def Let_def if_err_eq_ok zip_ranges_sorted by blast
next
  case True
  have nex: "(\<forall>j < t. \<not> is_request_item (oq_slot q j)) \<longleftrightarrow>
      \<not> list_ex is_request_item (take (t - oq_begin q) (oq_items q))" for t
    unfolding take_requests_slots by blast
  show ?thesis
    unfolding oq_test_invariants_def oq_checked_def Let_def if_err_eq_ok zip_ranges_sorted
      range_ends_iff [OF True] nex length_somes
    using refl [of "Inr () :: string + unit"] by satx
qed

section \<open>Effect of the operations on the slots\<close>

lemma drop_consumed_ranges_eq:
  "drop_consumed_ranges b t rs = dropWhile (\<lambda>r. snd r \<le> b \<or> snd r \<le> t) rs"
  by (induction b t rs rule: drop_consumed_ranges.induct) auto

lemma advance_begin:
  "oq_begin (oq_advance_to_next_message q) = oq_begin q + length (takeWhile (\<lambda>x. x = None) (oq_items q))"
  by (simp add: oq_advance_to_next_message_def skip_empty_slots_eq)

lemma advance_items:
  "oq_items (oq_advance_to_next_message q) = drop (length (takeWhile (\<lambda>x. x = None) (oq_items q))) (oq_items q)"
  by (simp add: oq_advance_to_next_message_def skip_empty_slots_eq dropWhile_eq_drop)

lemma advance_frame [simp]:
  "oq_timeout_index (oq_advance_to_next_message q) = oq_timeout_index q"
  "oq_num_messages (oq_advance_to_next_message q) = oq_num_messages q"
  "capacity (oq_queue (oq_advance_to_next_message q)) = capacity (oq_queue q)"
  "num_slots_reserved (oq_queue (oq_advance_to_next_message q)) = num_slots_reserved (oq_queue q)"
  by (simp_all add: oq_advance_to_next_message_def split_beta)

lemma advance_ranges:
  "oq_deadline_range_ends (oq_advance_to_next_message q) =
    dropWhile (\<lambda>r. snd r \<le> oq_begin (oq_advance_to_next_message q) \<or> snd r \<le> oq_timeout_index q)
      (oq_deadline_range_ends q)"
  by (simp add: oq_advance_to_next_message_def split_beta drop_consumed_ranges_eq)

lemma advance_end [simp]: "oq_end (oq_advance_to_next_message q) = oq_end q"
  using length_takeWhile_le [of "\<lambda>x. x = None" "oq_items q"] by (simp add: advance_begin advance_items)

lemma advance_slot [simp]: "oq_slot (oq_advance_to_next_message q) = oq_slot q"
proof
  fix j
  let ?q = "oq_advance_to_next_message q" and ?k = "length (takeWhile (\<lambda>x. x = None) (oq_items q))"
  have k: "?k \<le> length (oq_items q)" by (rule length_takeWhile_le)
  show "oq_slot ?q j = oq_slot q j"
  proof (cases "oq_begin q \<le> j \<and> j < oq_begin q + ?k")
    case True
    then have "oq_items q ! (j - oq_begin q) = None"
      using set_takeWhileD [OF nth_mem, of "j - oq_begin q" "\<lambda>x. x = None" "oq_items q"]
      by (simp add: takeWhile_nth less_diff_conv2)
    with True show ?thesis by (simp add: oq_slot_def advance_begin)
  next
    case False
    have e: "oq_begin ?q + length (oq_items ?q) = oq_end q" by (rule advance_end)
    have "oq_items ?q ! (j - oq_begin ?q) = oq_items q ! (j - oq_begin q)"
      if "oq_begin q + ?k \<le> j" "j < oq_end q"
      using that by (simp add: advance_items advance_begin k)
    with False show ?thesis unfolding oq_slot_def e by (auto simp: advance_begin)
  qed
qed

lemma advance_front: "oq_items (oq_advance_to_next_message q) \<noteq> [] \<Longrightarrow>
    hd (oq_items (oq_advance_to_next_message q)) \<noteq> None"
  using hd_dropWhile [of "\<lambda>x. x = None" "oq_items q"]
  by (metis advance_items dropWhile_eq_drop dropWhile_eq_Nil_conv)

lemma sorted_dropWhile_ranges:
  assumes "sorted_wrt range_less rs" and "r \<in> set (dropWhile (\<lambda>r. snd r \<le> b \<or> snd r \<le> t) rs)"
  shows "b < snd r" and "t < snd r" and "r \<in> set rs"
proof -
  have "r \<in> set rs \<and> b < snd r \<and> t < snd r"
    using assms
  proof (induction rs)
    case (Cons r' rs)
    then show ?case
      by (cases "snd r' \<le> b \<or> snd r' \<le> t") (auto simp: range_less_def)
  qed simp
  then show "b < snd r" "t < snd r" "r \<in> set rs" by simp_all
qed

text \<open>What an operation has to establish before it advances to the next message.\<close>

definition oq_pre :: "'p output_queue \<Rightarrow> bool" where
  "oq_pre q \<longleftrightarrow>
     sorted_wrt range_less (oq_deadline_range_ends q) \<and>
     (\<forall>(d, e) \<in> set (oq_deadline_range_ends q). e \<le> oq_end q) \<and>
     (\<forall>j < oq_timeout_index q. \<not> is_request_item (oq_slot q j)) \<and>
     qwr_inv (oq_queue q) \<and> oq_timeout_index q \<le> oq_end q \<and>
     (\<forall>j. is_request_item (oq_slot q j) \<longrightarrow> (\<exists>(d, e) \<in> set (oq_deadline_range_ends q). j < e))"

lemma oq_inv_imp_pre: "oq_inv q \<Longrightarrow> oq_pre q"
  by (auto simp: oq_inv_def oq_pre_def oq_checked_def)

lemma oq_inv_num: "oq_inv q \<Longrightarrow> oq_num_messages q = length (somes (oq_items q))"
  by (simp add: oq_inv_def oq_checked_def)

lemma advance_covers:
  assumes "oq_pre q" and "is_request_item (oq_slot q j)"
  shows "\<exists>(d, e) \<in> set (oq_deadline_range_ends (oq_advance_to_next_message q)). j < e"
proof -
  let ?q = "oq_advance_to_next_message q"
  obtain r where r: "r \<in> set (oq_deadline_range_ends q)" "j < snd r"
    using assms by (auto simp: oq_pre_def)
  have "oq_begin ?q \<le> j"
    using assms(2) oq_slot_below [of j ?q] by (cases "oq_begin ?q \<le> j") auto
  moreover have "oq_timeout_index q \<le> j"
    using assms by (auto simp: oq_pre_def not_less [symmetric])
  ultimately have "\<not> (snd r \<le> oq_begin ?q \<or> snd r \<le> oq_timeout_index q)" using r(2) by simp
  with r(1) have "r \<in> set (oq_deadline_range_ends ?q)"
    unfolding advance_ranges by (rule in_set_dropWhile)
  with r(2) show ?thesis by (auto simp: split_beta)
qed

lemma oq_inv_advance:
  assumes "oq_pre q" and "oq_num_messages q = length (somes (oq_items q))"
  shows "oq_inv (oq_advance_to_next_message q)"
proof -
  let ?q = "oq_advance_to_next_message q"
  have sorted: "sorted_wrt range_less (oq_deadline_range_ends q)" using assms(1) by (simp add: oq_pre_def)
  have "sorted_wrt range_less (oq_deadline_range_ends ?q)"
    unfolding advance_ranges dropWhile_eq_drop using sorted by (rule sorted_wrt_drop)
  moreover have "\<forall>(d, e) \<in> set (oq_deadline_range_ends ?q).
      oq_begin ?q < e \<and> oq_timeout_index ?q < e \<and> e \<le> oq_end q"
  proof (rule ballI, clarify)
    fix d e assume "(d, e) \<in> set (oq_deadline_range_ends ?q)"
    note r = sorted_dropWhile_ranges [OF sorted this [unfolded advance_ranges], simplified]
    then show "oq_begin ?q < e \<and> oq_timeout_index ?q < e \<and> e \<le> oq_end q"
      using assms(1) by (auto simp: oq_pre_def)
  qed
  moreover have "qwr_inv (oq_queue ?q)"
  proof -
    have "length (oq_items ?q) \<le> length (oq_items q)" by (simp add: advance_items)
    then show ?thesis using assms(1) by (simp add: qwr_inv_def oq_pre_def)
  qed
  ultimately show ?thesis
    using assms advance_covers [OF assms(1)] advance_front [of q]
    unfolding oq_inv_def oq_checked_def advance_end advance_slot oq_pre_def by simp
qed

text \<open>The slot at index \<open>j\<close> lies in a deadline range that has expired at time \<open>t\<close>.\<close>

definition oq_expired :: "'p output_queue \<Rightarrow> time \<Rightarrow> nat \<Rightarrow> bool" where
  "oq_expired q t j \<longleftrightarrow> (\<exists>(d, e) \<in> set (oq_deadline_range_ends q). d \<le> t \<and> j < e)"

lemma advance_expired:
  assumes "is_request_item (oq_slot q i)" and "\<forall>j < oq_timeout_index q. \<not> is_request_item (oq_slot q j)"
    and "sorted_wrt range_less (oq_deadline_range_ends q)"
  shows "oq_expired (oq_advance_to_next_message q) t i = oq_expired q t i"
proof -
  let ?q = "oq_advance_to_next_message q"
  have "oq_begin ?q \<le> i"
    using assms(1) oq_slot_below [of i ?q] by (cases "oq_begin ?q \<le> i") auto
  moreover have "oq_timeout_index q \<le> i"
    using assms(1,2) by (auto simp: not_less [symmetric])
  ultimately have "i < e \<Longrightarrow> r \<in> set (oq_deadline_range_ends q) \<Longrightarrow> snd r = e \<Longrightarrow>
      r \<in> set (oq_deadline_range_ends ?q)" for r e
    unfolding advance_ranges by (intro in_set_dropWhile) auto
  then show ?thesis
    unfolding oq_expired_def by (force simp: advance_ranges dest: set_dropWhileD)
qed

section \<open>The invariant is preserved\<close>

lemma oq_slot_end: "oq_end q \<le> j \<Longrightarrow> oq_slot q j = None"
  by (simp add: oq_slot_def)

lemma oq_slot_Some_bounds: "oq_slot q j = Some m \<Longrightarrow> oq_begin q \<le> j \<and> j < oq_end q"
  by (simp add: oq_slot_def split: if_splits)

lemma is_request_item_iff: "is_request_item x \<longleftrightarrow> (\<exists>r. x = Some (Request r))"
  by (cases x rule: is_request_item.cases) auto

lemma oq_slot_append:
  "oq_items q' = oq_items q @ [x] \<Longrightarrow> oq_begin q' = oq_begin q \<Longrightarrow>
    oq_slot q' = (oq_slot q)(oq_end q := x)"
  by (auto simp: oq_slot_def fun_eq_iff nth_append)

lemma oq_slot_tl:
  "oq_items q = x # xs \<Longrightarrow> oq_items q' = xs \<Longrightarrow> oq_begin q' = oq_begin q + 1 \<Longrightarrow>
    oq_slot q' = (oq_slot q)(oq_begin q := None)"
  by (auto simp: oq_slot_def fun_eq_iff nth_Cons' Suc_diff_le)

lemma oq_slot_update:
  "oq_begin q \<le> j \<Longrightarrow> oq_items q' = (oq_items q)[j - oq_begin q := None] \<Longrightarrow> oq_begin q' = oq_begin q \<Longrightarrow>
    oq_slot q' = (oq_slot q)(j := None)"
  by (auto simp: oq_slot_def fun_eq_iff nth_list_update)

lemma oq_slot_cong:
  "oq_items q' = oq_items q \<Longrightarrow> oq_begin q' = oq_begin q \<Longrightarrow> oq_slot q' = oq_slot q"
  by (simp add: oq_slot_def fun_eq_iff)

lemma push_deadline_sorted:
  assumes "sorted_wrt range_less rs" and "\<forall>(d, e) \<in> set rs. e < n"
  shows "sorted_wrt range_less (push_deadline rs d n)"
proof (cases rs rule: rev_cases)
  case (snoc ys y)
  show ?thesis
  proof (cases "fst y \<ge> d")
    case True
    then show ?thesis
      using assms by (auto simp: snoc push_deadline_def sorted_wrt_append range_less_def)
  next
    case False
    then show ?thesis
      using assms
      by (auto simp: snoc push_deadline_def sorted_wrt_append range_less_def)
  qed
qed (simp add: push_deadline_def)

lemma push_deadline_ends:
  "(d', e) \<in> set (push_deadline rs d n) \<Longrightarrow> e = n \<and> d \<le> d' \<or> (d', e) \<in> set rs"
  by (cases rs rule: rev_cases) (auto simp: push_deadline_def split: if_splits)

lemma push_deadline_covers:
  assumes "j < n" and "(\<exists>(d', e) \<in> set rs. j < e) \<or> j = n - 1"
  shows "\<exists>(d', e) \<in> set (push_deadline rs d n). j < e"
  using assms
  by (cases rs rule: rev_cases) (auto simp: push_deadline_def)

lemma oq_inv_new: "oq_inv (oq_new cap)"
  by (simp add: oq_inv_def oq_checked_def oq_new_def qwr_new_def qwr_inv_def oq_slot_def)

lemma oq_push_request_ok:
  assumes "oq_push_request q m d = Inr q'"
  shows "oq_items q' = oq_items q @ [Some (Request m)]" and "oq_begin q' = oq_begin q"
    and "oq_timeout_index q' = oq_timeout_index q"
    and "oq_num_messages q' = Suc (oq_num_messages q)"
    and "oq_deadline_range_ends q' = push_deadline (oq_deadline_range_ends q) d (Suc (oq_end q))"
    and "num_slots_reserved (oq_queue q') = num_slots_reserved (oq_queue q)"
    and "capacity (oq_queue q') = capacity (oq_queue q)"
    and "length (oq_items q) + num_slots_reserved (oq_queue q) < capacity (oq_queue q)"
  using assms
  by (auto simp: oq_push_request_def qwr_push_def qwr_check_has_slot_def Let_def split: if_splits sum.splits)

lemma oq_push_response_ok:
  assumes "oq_push_response q m = Some q'"
  shows "oq_items q' = oq_items q @ [Some (Response m)]" and "oq_begin q' = oq_begin q"
    and "oq_timeout_index q' = oq_timeout_index q"
    and "oq_num_messages q' = Suc (oq_num_messages q)"
    and "oq_deadline_range_ends q' = oq_deadline_range_ends q"
    and "Suc (num_slots_reserved (oq_queue q')) = num_slots_reserved (oq_queue q)"
    and "capacity (oq_queue q') = capacity (oq_queue q)"
  using assms
  by (auto simp: oq_push_response_def qwr_push_into_reserved_slot_def split: if_splits sum.splits)

lemma oq_reserve_slot_ok:
  assumes "oq_reserve_slot q = Inr q'"
  shows "q' = q\<lparr>oq_queue := (oq_queue q)\<lparr>num_slots_reserved := Suc (num_slots_reserved (oq_queue q))\<rparr>\<rparr>"
    and "length (oq_items q) + num_slots_reserved (oq_queue q) < capacity (oq_queue q)"
  using assms
  by (auto simp: oq_reserve_slot_def qwr_reserve_slot_def qwr_check_has_slot_def
      split: if_splits sum.splits)

lemma oq_inv_push_request:
  assumes "oq_inv q" and "oq_push_request q m d = Inr q'"
  shows "oq_inv q'"
proof -
  note ok = oq_push_request_ok [OF assms(2)] and inv = assms(1) [unfolded oq_inv_def oq_checked_def]
  have slot: "oq_slot q' = (oq_slot q)(oq_end q := Some (Request m))"
    using ok(1,2) by (rule oq_slot_append)
  have lt: "\<forall>(d, e) \<in> set (oq_deadline_range_ends q). e < Suc (oq_end q)" using inv by auto
  have "sorted_wrt range_less (oq_deadline_range_ends q')"
    unfolding ok(5) using inv lt by (intro push_deadline_sorted) auto
  moreover have "\<forall>(d', e) \<in> set (oq_deadline_range_ends q').
      oq_begin q' < e \<and> oq_timeout_index q' < e \<and> e \<le> oq_end q'"
    using inv by (auto simp: ok dest!: push_deadline_ends)
  moreover have "\<forall>j. is_request_item (oq_slot q' j) \<longrightarrow>
      (\<exists>(d, e) \<in> set (oq_deadline_range_ends q'). j < e)"
  proof (intro allI impI)
    fix j assume r: "is_request_item (oq_slot q' j)"
    have "(\<exists>(d', e) \<in> set (oq_deadline_range_ends q). j < e) \<or> j = Suc (oq_end q) - 1"
      using r inv by (auto simp: slot split: if_splits)
    moreover have "j < Suc (oq_end q)"
      using r oq_slot_end [of q j] by (cases "j < Suc (oq_end q)") (auto simp: slot split: if_splits)
    ultimately show "\<exists>(d, e) \<in> set (oq_deadline_range_ends q'). j < e"
      unfolding ok(5) by (intro push_deadline_covers)
  qed
  moreover have "oq_items q' \<noteq> [] \<longrightarrow> hd (oq_items q') \<noteq> None"
    using inv by (cases "oq_items q") (simp_all add: ok(1))
  moreover have "\<forall>j < oq_timeout_index q'. \<not> is_request_item (oq_slot q' j)"
    using inv by (auto simp: slot ok(3))
  ultimately show ?thesis
    unfolding oq_inv_def oq_checked_def
    using inv ok by (auto simp: qwr_inv_def)
qed

lemma oq_inv_push_response:
  assumes "oq_inv q" and "oq_push_response q m = Some q'"
  shows "oq_inv q'"
proof -
  note ok = oq_push_response_ok [OF assms(2)] and inv = assms(1) [unfolded oq_inv_def oq_checked_def]
  have slot: "oq_slot q' = (oq_slot q)(oq_end q := Some (Response m))"
    using ok(1,2) by (rule oq_slot_append)
  have "oq_items q' \<noteq> [] \<longrightarrow> hd (oq_items q') \<noteq> None"
    using inv by (cases "oq_items q") (simp_all add: ok(1))
  moreover have "\<forall>(d', e) \<in> set (oq_deadline_range_ends q').
      oq_begin q' < e \<and> oq_timeout_index q' < e \<and> e \<le> oq_end q'"
    using inv by (auto simp: ok)
  moreover have "is_request_item (oq_slot q' j) \<longleftrightarrow> is_request_item (oq_slot q j)" for j
    by (simp add: slot oq_slot_end)
  ultimately show ?thesis
    unfolding oq_inv_def oq_checked_def
    using inv ok by (auto simp: qwr_inv_def)
qed

lemma oq_inv_reserve_slot:
  assumes "oq_inv q" and "oq_reserve_slot q = Inr q'"
  shows "oq_inv q'"
proof -
  note ok = oq_reserve_slot_ok [OF assms(2)]
  have "oq_slot q' = oq_slot q" by (rule oq_slot_cong) (simp_all add: ok(1))
  then show ?thesis
    using assms(1) ok(2) unfolding oq_inv_def oq_checked_def by (simp add: ok(1) qwr_inv_def)
qed

text \<open>The queue that \<open>pop\<close> hands to \<open>advance_to_next_message\<close>, with the counter already updated.\<close>

lemma advance_num:
  "(oq_advance_to_next_message q)\<lparr>oq_num_messages := n\<rparr> =
    oq_advance_to_next_message (q\<lparr>oq_num_messages := n\<rparr>)"
  by (simp add: oq_advance_to_next_message_def split_beta)

lemma oq_pre_clear_slot:
  assumes "oq_pre q" and "oq_slot q' = (oq_slot q)(j := None)" and "oq_end q' = oq_end q"
    and "oq_deadline_range_ends q' = oq_deadline_range_ends q" and "qwr_inv (oq_queue q')"
    and "oq_timeout_index q' = oq_timeout_index q \<or> oq_timeout_index q' = Suc j \<and> j < oq_end q \<and>
      (\<forall>i < j. \<not> is_request_item (oq_slot q i))"
  shows "oq_pre q'"
  using assms unfolding oq_pre_def by (auto simp: less_Suc_eq)

lemma oq_pop_empty: "oq_items q = [] \<Longrightarrow> oq_pop q = Some (None, q)"
  by (simp add: oq_pop_def qwr_pop_def)

lemma oq_pop_message:
  assumes "oq_inv q" and "oq_items q \<noteq> []"
  obtains m q' where "oq_pop q = Some (Some m, q')" and "oq_inv q'"
    and "somes (oq_items q) = m # somes (oq_items q')"
    and "oq_slot q (oq_begin q) = Some m" and "oq_slot q' = (oq_slot q)(oq_begin q := None)"
    and "oq_end q' = oq_end q"
    and "num_slots_reserved (oq_queue q') = num_slots_reserved (oq_queue q)"
    and "capacity (oq_queue q') = capacity (oq_queue q)"
    and "set (oq_deadline_range_ends q') \<subseteq> set (oq_deadline_range_ends q)"
    and "\<And>i t. is_request_item (oq_slot q' i) \<Longrightarrow> oq_expired q' t i = oq_expired q t i"
proof -
  obtain m xs where items: "oq_items q = Some m # xs"
    using assms by (cases "oq_items q") (auto simp: oq_inv_def oq_checked_def)
  let ?q1 = "q\<lparr>oq_queue := (oq_queue q)\<lparr>queue := xs\<rparr>, oq_begin := oq_begin q + 1,
      oq_num_messages := oq_num_messages q - 1\<rparr>"
  have num: "oq_num_messages q = Suc (length (somes xs))"
    using oq_inv_num [OF assms(1)] by (simp add: items)
  have slot: "oq_slot ?q1 = (oq_slot q)(oq_begin q := None)"
    by (rule oq_slot_tl [OF items]) simp_all
  have "oq_pre ?q1"
    by (rule oq_pre_clear_slot [OF oq_inv_imp_pre [OF assms(1)] slot])
      (use assms(1) items in \<open>auto simp: oq_inv_def qwr_inv_def\<close>)
  then have inv: "oq_inv (oq_advance_to_next_message ?q1)"
    by (rule oq_inv_advance) (simp add: num)
  have exp: "oq_expired (oq_advance_to_next_message ?q1) t i = oq_expired q t i"
    if "is_request_item (oq_slot (oq_advance_to_next_message ?q1) i)" for i t
    using advance_expired [of ?q1 i t] that \<open>oq_pre ?q1\<close> by (simp add: oq_pre_def oq_expired_def)
  have pop: "oq_pop q = Some (Some m, oq_advance_to_next_message ?q1)"
    by (simp add: oq_pop_def qwr_pop_def items num Let_def sub_usize_def advance_num)
  show thesis
    by (rule that [OF pop inv])
      (use slot exp in \<open>auto simp: items oq_slot_def [of q] advance_ranges dest: set_dropWhileD\<close>)
qed

lemma oq_pop_no_panic:
  assumes "oq_inv q"
  obtains m q' where "oq_pop q = Some (m, q')"
proof (cases "oq_items q = []")
  case True
  then show ?thesis using that oq_pop_empty by blast
next
  case False
  show ?thesis by (rule oq_pop_message [OF assms False]) (rule that)
qed

lemma oq_inv_pop:
  assumes "oq_inv q" and "oq_pop q = Some (m, q')"
  shows "oq_inv q'"
proof (cases "oq_items q = []")
  case True
  then show ?thesis using assms by (simp add: oq_pop_empty)
next
  case False
  show ?thesis by (rule oq_pop_message [OF assms(1) False]) (use assms(2) in simp)
qed

section \<open>Which requests time out\<close>

text \<open>The effect of timing out the request at index \<open>j\<close>.\<close>

definition timed_out_at :: "'p output_queue \<Rightarrow> nat \<Rightarrow> 'p request \<Rightarrow> 'p output_queue \<Rightarrow> bool" where
  "timed_out_at q j r q' \<longleftrightarrow>
     oq_slot q j = Some (Request r) \<and> (\<forall>i < j. \<not> is_request_item (oq_slot q i)) \<and>
     oq_inv q' \<and> oq_slot q' = (oq_slot q)(j := None) \<and> oq_end q' = oq_end q \<and>
     num_slots_reserved (oq_queue q') = num_slots_reserved (oq_queue q) \<and>
     capacity (oq_queue q') = capacity (oq_queue q) \<and>
     (\<forall>i t. is_request_item (oq_slot q' i) \<longrightarrow> oq_expired q' t i = oq_expired q t i) \<and>
     set (oq_deadline_range_ends q') \<subseteq> set (oq_deadline_range_ends q)"

lemma scan_range_hit_timed_out:
  assumes "oq_pre q" and "oq_num_messages q = length (somes (oq_items q))"
    and hit: "oq_timeout_index q < e" "oq_begin q \<le> oq_timeout_index q"
      "oq_timeout_index q - oq_begin q < length (oq_items q)"
      "oq_items q ! (oq_timeout_index q - oq_begin q) = Some (Request r)"
  shows "\<exists>q'. scan_range q e = Some (Some r, q') \<and> timed_out_at q (oq_timeout_index q) r q'"
proof -
  let ?j = "oq_timeout_index q"
  let ?q1 = "q\<lparr>oq_timeout_index := ?j + 1,
           oq_queue := (oq_queue q)\<lparr>queue := (oq_items q)[?j - oq_begin q := None]\<rparr>,
           oq_num_messages := oq_num_messages q - 1\<rparr>"
  have num: "oq_num_messages q = Suc (length (somes (oq_items ?q1)))"
    using somes_update_None [OF hit(3,4)] assms(2) by (auto simp: length_append)
  have slot: "oq_slot ?q1 = (oq_slot q)(?j := None)"
    by (rule oq_slot_update [OF hit(2)]) simp_all
  have jslot: "oq_slot q ?j = Some (Request r)" using hit by (simp add: oq_slot_def)
  have before: "\<forall>i < ?j. \<not> is_request_item (oq_slot q i)" using assms(1) by (simp add: oq_pre_def)
  have pre: "oq_pre ?q1"
    by (rule oq_pre_clear_slot [OF assms(1) slot])
      (use assms(1) before hit in \<open>auto simp: oq_pre_def qwr_inv_def\<close>)
  then have inv: "oq_inv (oq_advance_to_next_message ?q1)"
    by (rule oq_inv_advance) (use num in simp)
  have scan: "scan_range q e = Some (Some r, oq_advance_to_next_message ?q1)"
    unfolding scan_range_hit [OF hit] using num by (simp add: sub_usize_def)
  have "\<forall>i t. is_request_item (oq_slot (oq_advance_to_next_message ?q1) i) \<longrightarrow>
      oq_expired (oq_advance_to_next_message ?q1) t i = oq_expired q t i"
  proof (intro allI impI)
    fix i t assume "is_request_item (oq_slot (oq_advance_to_next_message ?q1) i)"
    then have "oq_expired (oq_advance_to_next_message ?q1) t i = oq_expired ?q1 t i"
      using pre by (intro advance_expired) (simp_all add: oq_pre_def)
    then show "oq_expired (oq_advance_to_next_message ?q1) t i = oq_expired q t i"
      by (simp add: oq_expired_def)
  qed
  then have "timed_out_at q ?j r (oq_advance_to_next_message ?q1)"
    unfolding timed_out_at_def advance_slot advance_end slot
    using inv jslot before by (auto simp: advance_ranges dest: set_dropWhileD)
  with scan show ?thesis by blast
qed

lemma timed_out_at_frame:
  assumes "timed_out_at q1 j r q'" and "oq_slot q1 = oq_slot q" and "oq_end q1 = oq_end q"
    and "num_slots_reserved (oq_queue q1) = num_slots_reserved (oq_queue q)"
    and "capacity (oq_queue q1) = capacity (oq_queue q)"
    and "\<And>i t. is_request_item (oq_slot q i) \<Longrightarrow> oq_expired q1 t i = oq_expired q t i"
    and "set (oq_deadline_range_ends q1) \<subseteq> set (oq_deadline_range_ends q)"
  shows "timed_out_at q j r q'"
  using assms unfolding timed_out_at_def by auto

text \<open>The inner loop finds the first request before \<open>range_end\<close>, or there is none.\<close>

lemma scan_range_spec:
  assumes "oq_pre q" and "oq_num_messages q = length (somes (oq_items q))"
    and "oq_begin q \<le> oq_timeout_index q" and "e \<le> oq_end q"
  shows "(\<exists>j r q'. scan_range q e = Some (Some r, q') \<and> timed_out_at q j r q' \<and> j < e) \<or>
    scan_range q e = Some (None, q\<lparr>oq_timeout_index := max (oq_timeout_index q) e\<rparr>) \<and>
    (\<forall>j < e. \<not> is_request_item (oq_slot q j))"
  using assms
proof (induction "e - oq_timeout_index q" arbitrary: q rule: less_induct)
  case less
  show ?case
  proof (cases e q rule: scan_range_cases)
    case stop
    with less.prems show ?thesis by (auto simp: scan_range_done oq_pre_def)
  next
    case panic
    with less.prems show ?thesis by simp
  next
    case skip
    let ?q1 = "q\<lparr>oq_timeout_index := oq_timeout_index q + 1\<rparr>"
    have slot: "oq_slot ?q1 = oq_slot q" by (rule oq_slot_cong) simp_all
    have "\<not> is_request_item (oq_slot q (oq_timeout_index q))"
      using skip by (simp add: oq_slot_def less_diff_conv2 add.commute)
    then have pre: "oq_pre ?q1"
      using less.prems(1,4) skip(1) unfolding oq_pre_def slot by (auto simp: less_Suc_eq)
    have frame: "timed_out_at ?q1 j r q' \<Longrightarrow> timed_out_at q j r q'" for j r q'
      by (rule timed_out_at_frame [OF _ slot]) (simp_all add: oq_expired_def)
    have "e - oq_timeout_index ?q1 < e - oq_timeout_index q" using skip(1) by simp
    from less.hyps [OF this pre] less.prems(2-4) skip(1)
    have "(\<exists>j r q'. scan_range ?q1 e = Some (Some r, q') \<and> timed_out_at ?q1 j r q' \<and> j < e) \<or>
      scan_range ?q1 e = Some (None, ?q1\<lparr>oq_timeout_index := max (oq_timeout_index ?q1) e\<rparr>) \<and>
      (\<forall>j < e. \<not> is_request_item (oq_slot ?q1 j))" by simp
    then show ?thesis
      unfolding scan_range_skip [OF skip] slot
      using frame skip(1) by auto
  next
    case (hit r)
    then show ?thesis
      using scan_range_hit_timed_out [OF less.prems(1,2) hit] by auto
  qed
qed

lemma oq_pre_max_begin:
  assumes "oq_inv q"
  shows "oq_pre (q\<lparr>oq_timeout_index := max (oq_timeout_index q) (oq_begin q)\<rparr>)" (is "oq_pre ?q1")
proof -
  have slot: "oq_slot ?q1 = oq_slot q" by (rule oq_slot_cong) simp_all
  show ?thesis
    using oq_inv_imp_pre [OF assms] unfolding oq_pre_def slot by (auto simp: less_max_iff_disj oq_slot_below)
qed

lemma oq_inv_next_range:
  assumes "oq_inv q" and "oq_deadline_range_ends q = (d, e) # rest"
    and "\<forall>j < e. \<not> is_request_item (oq_slot q j)"
  shows "oq_inv (q\<lparr>oq_timeout_index := max (max (oq_timeout_index q) (oq_begin q)) e,
    oq_deadline_range_ends := rest\<rparr>)" (is "oq_inv ?q2")
proof -
  have slot: "oq_slot ?q2 = oq_slot q" by (rule oq_slot_cong) simp_all
  note inv = assms(1) [unfolded oq_inv_def oq_checked_def assms(2)]
  have "max (max (oq_timeout_index q) (oq_begin q)) e = e" using inv by auto
  moreover have "\<forall>(d', e') \<in> set rest. e < e'"
    using inv by (auto simp: range_less_def)
  moreover have "e \<le> oq_end q" using inv by simp
  moreover have "\<forall>j. is_request_item (oq_slot q j) \<longrightarrow> (\<exists>(d, e) \<in> set rest. j < e)"
    using inv assms(3) by auto
  ultimately show ?thesis
    using inv assms(3) unfolding oq_inv_def oq_checked_def slot by auto
qed

lemma oq_timeout_next_spec:
  assumes "oq_inv q"
  shows "(\<exists>j r q'. oq_timeout_next q t = Some (Some r, q') \<and> timed_out_at q j r q' \<and> oq_expired q t j) \<or>
    (\<exists>q'. oq_timeout_next q t = Some (None, q') \<and> oq_inv q' \<and> oq_queue q' = oq_queue q \<and>
      oq_begin q' = oq_begin q \<and> \<not> oq_has_expired_deadlines q' t \<and>
      set (oq_deadline_range_ends q') \<subseteq> set (oq_deadline_range_ends q) \<and>
      (\<forall>j. is_request_item (oq_slot q j) \<longrightarrow> \<not> oq_expired q t j) \<and>
      (\<forall>j t'. is_request_item (oq_slot q j) \<longrightarrow> oq_expired q' t' j = oq_expired q t' j))"
  using assms
proof (induction "length (oq_deadline_range_ends q)" arbitrary: q rule: less_induct)
  case less
  let ?q1 = "q\<lparr>oq_timeout_index := max (oq_timeout_index q) (oq_begin q)\<rparr>"
  have slot1: "oq_slot ?q1 = oq_slot q" by (rule oq_slot_cong) simp_all
  note pre1 = oq_pre_max_begin [OF less.prems]
  have num1: "oq_num_messages ?q1 = length (somes (oq_items ?q1))"
    using oq_inv_num [OF less.prems] by simp
  have e_le: "e \<le> oq_end ?q1" if "oq_deadline_range_ends q = (d, e) # rest" for d e rest
    using less.prems that by (auto simp: oq_inv_def oq_checked_def)
  note scan = scan_range_spec [OF pre1 num1 _ e_le]
  show ?case
  proof (cases t q rule: oq_timeout_next_cases)
    case unexpired
    then show ?thesis
      using less.prems
      by (auto simp: oq_has_expired_deadlines_def oq_expired_def oq_inv_def oq_checked_def range_less_def
          split: list.splits)
  next
    case (panic d e rest)
    with scan [OF _ panic(1)] show ?thesis by auto
  next
    case (found d e rest r q2)
    then obtain j where j: "timed_out_at ?q1 j r q2" "j < e"
      using scan [OF _ found(1)] by auto
    have "timed_out_at q j r q2"
      by (rule timed_out_at_frame [OF j(1) slot1]) (simp_all add: oq_expired_def)
    moreover have "oq_expired q t j" using j(2) found(1,2) by (auto simp: oq_expired_def)
    ultimately show ?thesis using found(4) by blast
  next
    case (next_range d e rest)
    let ?q2 = "q\<lparr>oq_timeout_index := max (max (oq_timeout_index q) (oq_begin q)) e,
      oq_deadline_range_ends := rest\<rparr>"
    have none: "\<forall>j < e. \<not> is_request_item (oq_slot q j)"
      using scan [OF _ next_range(1)] next_range(3) slot1 by auto
    have slot2: "oq_slot ?q2 = oq_slot q" by (rule oq_slot_cong) simp_all
    have exp: "oq_expired ?q2 t' i = oq_expired q t' i" if "is_request_item (oq_slot q i)" for i t'
      using none that by (auto simp: oq_expired_def next_range(1))
    have "length (oq_deadline_range_ends ?q2) < length (oq_deadline_range_ends q)"
      by (simp add: next_range(1))
    note IH = less.hyps [OF this oq_inv_next_range [OF less.prems next_range(1) none]]
    have frame: "timed_out_at ?q2 j r q' \<Longrightarrow> timed_out_at q j r q'" for j r q'
      by (rule timed_out_at_frame [OF _ slot2]) (use exp next_range(1) in auto)
    have "is_request_item (oq_slot q j)" if "timed_out_at ?q2 j r q'" for j r q'
      using that slot2 by (simp add: timed_out_at_def)
    then have exp2: "oq_expired ?q2 t j = oq_expired q t j" if "timed_out_at ?q2 j r q'" for j r q'
      using exp that by blast
    have sub: "set (oq_deadline_range_ends ?q2) \<subseteq> set (oq_deadline_range_ends q)"
      using next_range(1) by auto
    from IH show ?thesis
    proof (elim disjE exE conjE)
      fix j r q'
      assume "oq_timeout_next ?q2 t = Some (Some r, q')" "timed_out_at ?q2 j r q'" "oq_expired ?q2 t j"
      then show ?thesis unfolding next_range(4) using frame exp2 by blast
    next
      fix q'
      assume "oq_timeout_next ?q2 t = Some (None, q')" "oq_inv q'" "oq_queue q' = oq_queue ?q2"
        "oq_begin q' = oq_begin ?q2" "\<not> oq_has_expired_deadlines q' t"
        "set (oq_deadline_range_ends q') \<subseteq> set (oq_deadline_range_ends ?q2)"
        "\<forall>j. is_request_item (oq_slot ?q2 j) \<longrightarrow> \<not> oq_expired ?q2 t j"
        "\<forall>j t'. is_request_item (oq_slot ?q2 j) \<longrightarrow> oq_expired q' t' j = oq_expired ?q2 t' j"
      then show ?thesis
        unfolding next_range(4) slot2 using exp sub by (intro disjI2 exI [of _ q']) auto
    qed
  qed
qed

fun request_of :: "'p request_or_response option \<Rightarrow> 'p request option" where
  "request_of (Some (Request r)) = Some r"
| "request_of _ = None"

lemma request_of_None: "request_of x = None \<longleftrightarrow> \<not> is_request_item x"
  by (cases x rule: request_of.cases) auto

text \<open>The request in slot \<open>j\<close>, when it has expired at time \<open>t\<close>; and all of them, in queue order.\<close>

definition expired_request :: "'p output_queue \<Rightarrow> time \<Rightarrow> nat \<Rightarrow> 'p request option" where
  "expired_request q t j = (if oq_expired q t j then request_of (oq_slot q j) else None)"

definition expired_requests :: "'p output_queue \<Rightarrow> time \<Rightarrow> 'p request list" where
  "expired_requests q t = List.map_filter (expired_request q t) [0..<oq_end q]"

lemma expired_requests_step:
  assumes "timed_out_at q j r q'" and "oq_expired q t j"
  shows "expired_requests q t = r # expired_requests q' t"
proof -
  have "expired_request q' t = (expired_request q t)(j := None)"
  proof
    fix i
    show "expired_request q' t i = ((expired_request q t)(j := None)) i"
    proof (cases "is_request_item (oq_slot q' i)")
      case True
      then show ?thesis
        using assms by (auto simp: expired_request_def timed_out_at_def)
    next
      case False
      then show ?thesis
        using assms(1) by (auto simp: expired_request_def timed_out_at_def request_of_None [symmetric])
    qed
  qed
  moreover have "expired_request q t j = Some r"
    using assms by (simp add: expired_request_def timed_out_at_def)
  moreover have "i < j \<Longrightarrow> expired_request q t i = None" for i
    using assms(1) by (simp add: expired_request_def timed_out_at_def request_of_None)
  moreover have "j < oq_end q" "oq_end q' = oq_end q"
    using assms(1) by (auto simp: timed_out_at_def dest: oq_slot_Some_bounds)
  ultimately show ?thesis
    unfolding expired_requests_def using map_filter_first [of "expired_request q t" j r "oq_end q"] by simp
qed

text \<open>What is left after every expired request has been timed out.\<close>

definition timed_out_all :: "'p output_queue \<Rightarrow> time \<Rightarrow> 'p output_queue \<Rightarrow> bool" where
  "timed_out_all q t q' \<longleftrightarrow>
     oq_inv q' \<and> \<not> oq_has_expired_deadlines q' t \<and> oq_end q' = oq_end q \<and>
     (\<forall>j. oq_slot q' j = (if expired_request q t j = None then oq_slot q j else None)) \<and>
     num_slots_reserved (oq_queue q') = num_slots_reserved (oq_queue q) \<and>
     capacity (oq_queue q') = capacity (oq_queue q) \<and>
     (\<forall>i t'. is_request_item (oq_slot q' i) \<longrightarrow> oq_expired q' t' i = oq_expired q t' i) \<and>
     set (oq_deadline_range_ends q') \<subseteq> set (oq_deadline_range_ends q)"

lemma timed_out_all_step:
  assumes "timed_out_at q j r q1" and "oq_expired q t j" and "timed_out_all q1 t q'"
  shows "timed_out_all q t q'"
proof -
  have "(if expired_request q1 t i = None then oq_slot q1 i else None) =
    (if expired_request q t i = None then oq_slot q i else None)" for i
  proof (cases "i = j")
    case True
    with assms show ?thesis by (simp add: timed_out_at_def expired_request_def)
  next
    case False
    then have slot: "oq_slot q1 i = oq_slot q i" using assms(1) by (simp add: timed_out_at_def)
    have "is_request_item (oq_slot q i) \<Longrightarrow> oq_expired q1 t i = oq_expired q t i"
      using assms(1) slot unfolding timed_out_at_def by metis
    then have "expired_request q1 t i = expired_request q t i"
      using request_of_None [of "oq_slot q i"]
      by (cases "is_request_item (oq_slot q i)") (simp_all add: expired_request_def slot)
    with slot show ?thesis by simp
  qed
  moreover have "oq_expired q' t' i = oq_expired q t' i" if "is_request_item (oq_slot q' i)" for i t'
  proof -
    have "oq_slot q' i = (if expired_request q1 t i = None then oq_slot q1 i else None)"
      using assms(3) by (simp add: timed_out_all_def)
    with that have "is_request_item (oq_slot q1 i)" by (auto split: if_splits)
    then show ?thesis using assms(1,3) that unfolding timed_out_at_def timed_out_all_def by blast
  qed
  ultimately show ?thesis using assms unfolding timed_out_all_def timed_out_at_def by auto
qed

lemma oq_time_out_requests_spec:
  assumes "oq_inv q"
  shows "\<exists>q'. oq_time_out_requests q t = Some (expired_requests q t, q') \<and> timed_out_all q t q'"
  using assms
proof (induction "length (somes (oq_items q))" arbitrary: q rule: less_induct)
  case less
  from oq_timeout_next_spec [OF less.prems, of t] show ?case
  proof (elim disjE exE conjE)
    fix j r q1
    assume next1: "oq_timeout_next q t = Some (Some r, q1)" and at: "timed_out_at q j r q1" "oq_expired q t j"
    have inv1: "oq_inv q1" using at(1) by (simp add: timed_out_at_def)
    obtain q' where q': "oq_time_out_requests q1 t = Some (expired_requests q1 t, q')" "timed_out_all q1 t q'"
      using less.hyps [OF _ inv1] oq_timeout_next_somes [OF next1] by auto
    then show ?thesis
      using timed_out_all_step [OF at q'(2)]
      by (subst oq_time_out_requests.simps) (simp add: next1 expired_requests_step [OF at])
  next
    fix q1
    assume next1: "oq_timeout_next q t = Some (None, q1)" and "oq_inv q1" "oq_queue q1 = oq_queue q"
      "oq_begin q1 = oq_begin q" "\<not> oq_has_expired_deadlines q1 t"
      "set (oq_deadline_range_ends q1) \<subseteq> set (oq_deadline_range_ends q)"
      "\<forall>j t'. is_request_item (oq_slot q j) \<longrightarrow> oq_expired q1 t' j = oq_expired q t' j"
      and none: "\<forall>j. is_request_item (oq_slot q j) \<longrightarrow> \<not> oq_expired q t j"
    have e: "expired_request q t j = None" for j
      using none by (auto simp: expired_request_def request_of_None)
    have "timed_out_all q t q1"
      unfolding timed_out_all_def using \<open>oq_inv q1\<close> \<open>oq_queue q1 = oq_queue q\<close>
        \<open>oq_begin q1 = oq_begin q\<close> \<open>\<not> oq_has_expired_deadlines q1 t\<close>
        \<open>set (oq_deadline_range_ends q1) \<subseteq> set (oq_deadline_range_ends q)\<close>
        \<open>\<forall>j t'. is_request_item (oq_slot q j) \<longrightarrow> oq_expired q1 t' j = oq_expired q t' j\<close>
        oq_slot_cong [of q1 q] by (simp add: e)
    then show ?thesis
      by (subst oq_time_out_requests.simps) (simp add: next1 expired_requests_def map_filter_none e)
  qed
qed

lemma somes_slots: "somes (oq_items q) = List.map_filter (oq_slot q) [0..<oq_end q]"
proof -
  have "[0..<oq_end q] = [0..<oq_begin q] @ [oq_begin q..<oq_end q]"
    using upt_add_eq_append [of 0 "oq_begin q" "length (oq_items q)"] by simp
  moreover have "List.map_filter (oq_slot q) [0..<oq_begin q] = []"
    by (rule map_filter_none) (simp add: oq_slot_below)
  moreover have "List.map_filter (oq_slot q) [oq_begin q..<oq_end q] = somes (oq_items q)"
    by (rule map_filter_upt) (simp add: oq_slot_def)
  ultimately show ?thesis by (simp add: map_filter_append)
qed

section \<open>Histories of an output queue\<close>

text \<open>
  All queues that a sequence of the public operations produces from a new one. The two ghost
  components record the deadlines in the order of the pushes, and the deadline that the request at
  each queue index was pushed with.
\<close>

inductive oq_history :: "time list \<Rightarrow> (nat \<Rightarrow> time) \<Rightarrow> 'p output_queue \<Rightarrow> bool" where
  new: "oq_history [] dl (oq_new cap)"
| push_request: "oq_history ds dl q \<Longrightarrow> oq_push_request q m d = Inr q' \<Longrightarrow>
    oq_history (ds @ [d]) (dl(oq_end q := d)) q'"
| push_response: "oq_history ds dl q \<Longrightarrow> oq_push_response q rsp = Some q' \<Longrightarrow> oq_history ds dl q'"
| reserve: "oq_history ds dl q \<Longrightarrow> oq_reserve_slot q = Inr q' \<Longrightarrow> oq_history ds dl q'"
| pop: "oq_history ds dl q \<Longrightarrow> oq_pop q = Some (mo, q') \<Longrightarrow> oq_history ds dl q'"
| time_out: "oq_history ds dl q \<Longrightarrow> oq_time_out_requests q t = Some (rs, q') \<Longrightarrow> oq_history ds dl q'"

lemma oq_time_out_requests_all:
  "oq_inv q \<Longrightarrow> oq_time_out_requests q t = Some (rs, q') \<Longrightarrow>
    rs = expired_requests q t \<and> timed_out_all q t q'"
  using oq_time_out_requests_spec [of q t] by auto

lemma oq_inv_time_out:
  "oq_inv q \<Longrightarrow> oq_time_out_requests q t = Some (rs, q') \<Longrightarrow> oq_inv q'"
  using oq_time_out_requests_all [of q t rs q'] by (simp add: timed_out_all_def)

lemmas oq_inv_preserved [inv_intros] =
  oq_inv_new oq_inv_push_request oq_inv_push_response oq_inv_reserve_slot oq_inv_pop oq_inv_time_out

lemma oq_history_inv: "oq_history ds dl q \<Longrightarrow> oq_inv q"
  by (induction rule: oq_history.induct) (auto intro: inv_intros)

text \<open>
  No request lies in a range that expires before its deadline. The second predicate is
  exact: a request expires when its deadline has passed, and not before.
\<close>

definition deadlines_safe :: "(nat \<Rightarrow> time) \<Rightarrow> 'p output_queue \<Rightarrow> bool" where
  "deadlines_safe dl q \<longleftrightarrow>
     (\<forall>j t. is_request_item (oq_slot q j) \<longrightarrow> oq_expired q t j \<longrightarrow> dl j \<le> t)"

definition deadlines_exact :: "time list \<Rightarrow> (nat \<Rightarrow> time) \<Rightarrow> 'p output_queue \<Rightarrow> bool" where
  "deadlines_exact ds dl q \<longleftrightarrow>
     (\<forall>j t. is_request_item (oq_slot q j) \<longrightarrow> oq_expired q t j = (dl j \<le> t)) \<and>
     fst ` set (oq_deadline_range_ends q) \<subseteq> set ds"

lemma push_deadline_safe:
  assumes "(d', e') \<in> set (push_deadline rs d n)" and "(d1, e1) \<in> set rs" and "sorted_wrt range_less rs"
    and "j < e1" and "j < e'" and "\<And>d2 e2. (d2, e2) \<in> set rs \<Longrightarrow> j < e2 \<Longrightarrow> dl \<le> d2"
  shows "dl \<le> d'"
proof -
  have ne: "rs \<noteq> []" using assms(2) by auto
  have "dl \<le> d1" using assms(2,4,6) by blast
  moreover have "d1 \<le> fst (last rs)" using sorted_range_bounds(4) [OF assms(3) ne assms(2)] by simp
  ultimately have last: "dl \<le> fst (last rs)" by (rule order_trans)
  show ?thesis
  proof (cases "fst (last rs) \<ge> d")
    case True
    with assms(1) ne have "(d', e') \<in> set (butlast rs) \<or> d' = fst (last rs)"
      by (auto simp: push_deadline_def)
    then show ?thesis using last assms(5,6) by (auto dest: in_set_butlastD)
  next
    case False
    with assms(1) have "(d', e') \<in> set rs \<or> d' = d" by (auto simp: push_deadline_def)
    then show ?thesis using last False assms(5,6) by auto
  qed
qed

lemma deadlines_safe_push_request:
  assumes "oq_inv q" and "deadlines_safe dl q" and "oq_push_request q m d = Inr q'"
  shows "deadlines_safe (dl(oq_end q := d)) q'"
  unfolding deadlines_safe_def oq_expired_def
proof (intro allI impI, clarify)
  note ok = oq_push_request_ok [OF assms(3)]
  have slot: "oq_slot q' = (oq_slot q)(oq_end q := Some (Request m))"
    using ok(1,2) by (rule oq_slot_append)
  fix j t d' e'
  assume req: "is_request_item (oq_slot q' j)" and r: "(d', e') \<in> set (oq_deadline_range_ends q')" "j < e'"
    and "d' \<le> t"
  have "(dl(oq_end q := d)) j \<le> d'"
  proof (cases "j = oq_end q")
    case True
    have "\<forall>(d, e) \<in> set (oq_deadline_range_ends q). e \<le> oq_end q"
      using assms(1) by (auto simp: oq_inv_def oq_checked_def)
    then have "e' = Suc (oq_end q) \<and> d \<le> d'"
      using push_deadline_ends [OF r(1) [unfolded ok(5)]] r(2) True by auto
    with True show ?thesis by simp
  next
    case False
    with req slot have j: "is_request_item (oq_slot q j)" by simp
    then obtain d1 e1 where "(d1, e1) \<in> set (oq_deadline_range_ends q)" "j < e1"
      using assms(1) by (auto simp: oq_inv_def)
    moreover have "sorted_wrt range_less (oq_deadline_range_ends q)"
      using assms(1) by (simp add: oq_inv_def oq_checked_def)
    ultimately have "dl j \<le> d'"
      using push_deadline_safe [OF r(1) [unfolded ok(5)]] r(2) assms(2) j
      unfolding deadlines_safe_def oq_expired_def by blast
    with False show ?thesis by simp
  qed
  with \<open>d' \<le> t\<close> show "(dl(oq_end q := d)) j \<le> t" by (rule order_trans [rotated])
qed

text \<open>
  The other operations keep or remove requests, and do not change when a request that stays expires.
\<close>

definition keeps_expiry :: "'p output_queue \<Rightarrow> 'p output_queue \<Rightarrow> bool" where
  "keeps_expiry q q' \<longleftrightarrow>
     (\<forall>j. is_request_item (oq_slot q' j) \<longrightarrow>
        is_request_item (oq_slot q j) \<and> (\<forall>t. oq_expired q' t j = oq_expired q t j)) \<and>
     set (oq_deadline_range_ends q') \<subseteq> set (oq_deadline_range_ends q)"

lemma keeps_expiry_time_out: "timed_out_all q t q' \<Longrightarrow> keeps_expiry q q'"
  by (auto simp: timed_out_all_def keeps_expiry_def split: if_splits)

lemma keeps_expiry_pop:
  assumes "oq_inv q" and "oq_pop q = Some (mo, q')"
  shows "keeps_expiry q q'"
proof (cases "oq_items q = []")
  case True
  with assms show ?thesis by (simp add: oq_pop_empty keeps_expiry_def)
next
  case False
  show ?thesis
    by (rule oq_pop_message [OF assms(1) False])
      (use assms(2) in \<open>auto simp: keeps_expiry_def split: if_splits\<close>)
qed

lemma keeps_expiry_push_response:
  assumes "oq_push_response q rsp = Some q'"
  shows "keeps_expiry q q'"
proof -
  note ok = oq_push_response_ok [OF assms]
  have "oq_slot q' = (oq_slot q)(oq_end q := Some (Response rsp))"
    using ok(1,2) by (rule oq_slot_append)
  then show ?thesis by (auto simp: keeps_expiry_def ok(5) oq_expired_def split: if_splits)
qed

lemma keeps_expiry_reserve:
  assumes "oq_reserve_slot q = Inr q'"
  shows "keeps_expiry q q'"
proof -
  note ok = oq_reserve_slot_ok [OF assms]
  have "oq_slot q' = oq_slot q" by (rule oq_slot_cong) (simp_all add: ok(1))
  then show ?thesis by (simp add: keeps_expiry_def oq_expired_def ok(1))
qed

lemmas keeps_expiry_ops = keeps_expiry_time_out keeps_expiry_pop keeps_expiry_push_response
  keeps_expiry_reserve

lemma keeps_expiry_deadlines:
  assumes "keeps_expiry q q'"
  shows "deadlines_safe dl q \<Longrightarrow> deadlines_safe dl q'"
    and "deadlines_exact ds dl q \<Longrightarrow> deadlines_exact ds dl q'"
  using assms unfolding deadlines_safe_def deadlines_exact_def keeps_expiry_def by blast+

lemma oq_history_safe: "oq_history ds dl q \<Longrightarrow> deadlines_safe dl q"
proof (induction rule: oq_history.induct)
  case (new dl cap)
  then show ?case by (simp add: deadlines_safe_def oq_expired_def oq_new_def)
next
  case (push_request ds dl q m d q')
  then show ?case using deadlines_safe_push_request oq_history_inv by blast
next
  case (time_out ds dl q t rs q')
  then show ?case
    using oq_time_out_requests_all oq_history_inv keeps_expiry_time_out keeps_expiry_deadlines(1) by metis
qed (use oq_history_inv keeps_expiry_ops keeps_expiry_deadlines(1) in blast)+

lemma push_deadline_mono_expired:
  assumes "\<forall>d' \<in> fst ` set rs. d' \<le> d" and "\<forall>(d', e) \<in> set rs. e \<le> n"
  shows "(\<exists>(d', e) \<in> set (push_deadline rs d (Suc n)). d' \<le> t \<and> j < e) \<longleftrightarrow>
    (\<exists>(d', e) \<in> set rs. d' \<le> t \<and> j < e) \<or> d \<le> t \<and> j < Suc n"
proof (cases rs rule: rev_cases)
  case (snoc ys y)
  then have "snd y \<le> n" "fst y \<le> d" using assms by auto
  then show ?thesis
    by (cases "fst y = d"; cases y) (auto simp: snoc push_deadline_def)
qed (simp add: push_deadline_def)

lemma deadlines_exact_push_request:
  assumes "oq_inv q" and "deadlines_exact ds dl q" and "\<forall>d' \<in> set ds. d' \<le> d"
    and "oq_push_request q m d = Inr q'"
  shows "deadlines_exact (ds @ [d]) (dl(oq_end q := d)) q'"
proof -
  note ok = oq_push_request_ok [OF assms(4)]
  have slot: "oq_slot q' = (oq_slot q)(oq_end q := Some (Request m))"
    using ok(1,2) by (rule oq_slot_append)
  let ?rs = "oq_deadline_range_ends q"
  have le: "\<forall>d' \<in> fst ` set ?rs. d' \<le> d"
    using assms(2,3) unfolding deadlines_exact_def by blast
  have ends: "\<forall>(d', e) \<in> set ?rs. e \<le> oq_end q" using assms(1) by (auto simp: oq_inv_def oq_checked_def)
  have exp: "oq_expired q' t j \<longleftrightarrow> oq_expired q t j \<or> d \<le> t \<and> j < Suc (oq_end q)" for t j
    unfolding oq_expired_def ok(5) by (rule push_deadline_mono_expired [OF le ends])
  have "oq_expired q' t j = ((dl(oq_end q := d)) j \<le> t)" if req: "is_request_item (oq_slot q' j)" for j t
  proof (cases "j = oq_end q")
    case True
    then have "\<not> oq_expired q t j" using ends by (auto simp: oq_expired_def)
    with True show ?thesis by (simp add: exp)
  next
    case False
    with req slot have j: "is_request_item (oq_slot q j)" by simp
    then have lt: "j < oq_end q" by (metis is_request_item_iff oq_slot_Some_bounds)
    obtain d1 e1 where r: "(d1, e1) \<in> set ?rs" "j < e1" using assms(1) j by (auto simp: oq_inv_def)
    have "oq_expired q d1 j" using r by (auto simp: oq_expired_def)
    then have "dl j \<le> d1" using assms(2) j by (auto simp: deadlines_exact_def)
    moreover have "d1 \<le> d" using le r(1) by force
    moreover have "oq_expired q t j = (dl j \<le> t)" using assms(2) j by (auto simp: deadlines_exact_def)
    ultimately show ?thesis using False lt by (auto simp: exp)
  qed
  moreover have "fst ` set (oq_deadline_range_ends q') \<subseteq> set (ds @ [d])"
    using assms(2) unfolding deadlines_exact_def ok(5) push_deadline_def
    by (cases ?rs rule: rev_cases) auto
  ultimately show ?thesis by (simp add: deadlines_exact_def)
qed

lemma oq_history_exact: "oq_history ds dl q \<Longrightarrow> sorted ds \<Longrightarrow> deadlines_exact ds dl q"
proof (induction rule: oq_history.induct)
  case (new dl cap)
  then show ?case by (simp add: deadlines_exact_def oq_expired_def oq_new_def oq_slot_def qwr_new_def)
next
  case (push_request ds dl q m d q')
  then show ?case
    using oq_history_inv [of ds dl q]
    by (intro deadlines_exact_push_request [of q ds dl d m q']) (simp_all add: sorted_append)
next
  case (time_out ds dl q t rs q')
  then show ?case
    using oq_time_out_requests_all oq_history_inv keeps_expiry_time_out keeps_expiry_deadlines(2) by metis
qed (use oq_history_inv keeps_expiry_ops keeps_expiry_deadlines(2) in blast)+

section \<open>Reservations guarantee the responses\<close>

text \<open>
  The contract between a queue and the code that makes calls through it: a reserved slot is only
  consumed by a response, so that whatever happens to the queue in the meantime, every
  response for which a slot has been reserved can be pushed. A rejected reservation or request
  leaves the queue as it was; a response without a slot is a failure of the run.
\<close>

datatype ('a, 'b, 'c) queue_op = Reserve | Push_request 'a | Push_response 'b | Take 'c

fun is_push_response :: "('a, 'b, 'c) queue_op \<Rightarrow> bool" where
  "is_push_response (Push_response _) = True"
| "is_push_response _ = False"

fun queue_step ::
  "('q \<Rightarrow> 'q option) \<Rightarrow> ('a \<Rightarrow> 'q \<Rightarrow> 'q option) \<Rightarrow> ('b \<Rightarrow> 'q \<Rightarrow> 'q option) \<Rightarrow> ('c \<Rightarrow> 'q \<Rightarrow> 'q option)
   \<Rightarrow> ('a, 'b, 'c) queue_op \<Rightarrow> 'q \<Rightarrow> 'q option" where
  "queue_step reserve push fill take_msg Reserve q = Some (case reserve q of None \<Rightarrow> q | Some q' \<Rightarrow> q')"
| "queue_step reserve push fill take_msg (Push_request a) q = Some (case push a q of None \<Rightarrow> q | Some q' \<Rightarrow> q')"
| "queue_step reserve push fill take_msg (Push_response b) q = fill b q"
| "queue_step reserve push fill take_msg (Take c) q = take_msg c q"

locale reservation_queue =
  fixes inv :: "'q \<Rightarrow> bool" and used reserved cap :: "'q \<Rightarrow> nat"
    and reserve :: "'q \<Rightarrow> 'q option" and push :: "'a \<Rightarrow> 'q \<Rightarrow> 'q option"
    and fill :: "'b \<Rightarrow> 'q \<Rightarrow> 'q option" and take_msg :: "'c \<Rightarrow> 'q \<Rightarrow> 'q option"
  assumes bounded: "inv q \<Longrightarrow> used q + reserved q \<le> cap q"
    and reserve_iff: "inv q \<Longrightarrow> reserve q \<noteq> None \<longleftrightarrow> used q + reserved q < cap q"
    and reserve_ok: "inv q \<Longrightarrow> reserve q = Some q' \<Longrightarrow>
      inv q' \<and> used q' = used q \<and> reserved q' = Suc (reserved q) \<and> cap q' = cap q"
    and push_iff: "inv q \<Longrightarrow> push a q \<noteq> None \<longleftrightarrow> used q + reserved q < cap q"
    and push_ok: "inv q \<Longrightarrow> push a q = Some q' \<Longrightarrow>
      inv q' \<and> used q' = Suc (used q) \<and> reserved q' = reserved q \<and> cap q' = cap q"
    and fill_iff: "inv q \<Longrightarrow> fill b q \<noteq> None \<longleftrightarrow> 0 < reserved q"
    and fill_ok: "inv q \<Longrightarrow> fill b q = Some q' \<Longrightarrow>
      inv q' \<and> used q' = Suc (used q) \<and> Suc (reserved q') = reserved q \<and> cap q' = cap q"
    and take_ok: "inv q \<Longrightarrow> \<exists>q'. take_msg c q = Some q' \<and> inv q' \<and> reserved q' = reserved q \<and> cap q' = cap q"
begin

lemma step_ok:
  assumes "inv q" and "is_push_response x \<Longrightarrow> 0 < reserved q"
  shows "\<exists>q'. queue_step reserve push fill take_msg x q = Some q' \<and> inv q' \<and> cap q' = cap q \<and>
    reserved q \<le> reserved q' + (if is_push_response x then 1 else 0)"
proof (cases x)
  case Reserve
  then show ?thesis using assms(1) reserve_ok by (cases "reserve q") auto
next
  case (Push_request a)
  then show ?thesis using assms(1) push_ok by (cases "push a q") auto
next
  case (Push_response b)
  then obtain q' where "fill b q = Some q'" using assms fill_iff by auto
  then show ?thesis using Push_response assms(1) fill_ok by fastforce
next
  case (Take c)
  then show ?thesis using assms(1) take_ok by force
qed

lemma responses_fit:
  assumes "inv q" and "length (filter is_push_response ops) \<le> reserved q"
  shows "\<exists>q'. run_ops (queue_step reserve push fill take_msg) ops q = Some q' \<and> inv q' \<and> cap q' = cap q \<and>
    used q' + reserved q' \<le> cap q"
  using assms
proof (induction ops arbitrary: q)
  case Nil
  then show ?case using bounded by auto
next
  case (Cons x ops)
  obtain q1 where q1: "queue_step reserve push fill take_msg x q = Some q1" "inv q1" "cap q1 = cap q"
      "reserved q \<le> reserved q1 + (if is_push_response x then 1 else 0)"
    using step_ok [OF Cons.prems(1), of x] Cons.prems(2) by (cases "is_push_response x") auto
  moreover have "length (filter is_push_response ops) \<le> reserved q1"
    using Cons.prems(2) q1(4) by (auto split: if_splits)
  ultimately show ?case using Cons.IH [of q1] by auto
qed

text \<open>A full queue accepts neither a request nor a reservation.\<close>

lemma full_rejects:
  "inv q \<Longrightarrow> used q + reserved q = cap q \<Longrightarrow> reserve q = None \<and> push a q = None"
  using reserve_iff [of q] push_iff [of q a] by auto

end

text \<open>The error of a result is dropped: what is left is whether the operation took effect.\<close>

fun ok_of :: "'e + 'a \<Rightarrow> 'a option" where
  "ok_of (Inl _) = None"
| "ok_of (Inr a) = Some a"

lemma ok_of_Some [simp]: "ok_of r = Some a \<longleftrightarrow> r = Inr a"
  by (cases r) auto

definition iq_inv :: "'p input_queue \<Rightarrow> bool" where
  "iq_inv q \<longleftrightarrow> qwr_inv (iq_queue q)"

interpretation iq: reservation_queue iq_inv iq_num_messages iq_reserved_slots
  "\<lambda>q. capacity (iq_queue q)" "\<lambda>q. ok_of (iq_reserve_slot q)" "\<lambda>m q. ok_of (iq_push q (Request m))"
  "\<lambda>m q. ok_of (iq_push q (Response m))" "\<lambda>(_ :: unit) q. Some (snd (iq_pop q))"
  by unfold_locales
    (auto simp: iq_inv_def qwr_inv_def iq_num_messages_def iq_reserved_slots_def qwr_reserved_slots_def
      iq_reserve_slot_def qwr_reserve_slot_def qwr_check_has_slot_def iq_push_def qwr_push_def
      qwr_push_into_reserved_slot_def iq_pop_def qwr_pop_def
      split: sum.splits list.splits if_splits prod.splits)

text \<open>Messages leave an output queue by being popped or by timing out.\<close>

datatype oq_take = Pop | Time_out time

fun oq_take_msg :: "oq_take \<Rightarrow> 'p output_queue \<Rightarrow> 'p output_queue option" where
  "oq_take_msg Pop q = map_option snd (oq_pop q)"
| "oq_take_msg (Time_out t) q = map_option snd (oq_time_out_requests q t)"

lemma oq_push_request_iff:
  "(\<exists>q'. oq_push_request q m d = Inr q') \<longleftrightarrow>
    length (oq_items q) + num_slots_reserved (oq_queue q) < capacity (oq_queue q)"
  by (auto simp: oq_push_request_def qwr_push_def qwr_check_has_slot_def Let_def)

lemma oq_reserve_slot_iff:
  "(\<exists>q'. oq_reserve_slot q = Inr q') \<longleftrightarrow>
    length (oq_items q) + num_slots_reserved (oq_queue q) < capacity (oq_queue q)"
  by (auto simp: oq_reserve_slot_def qwr_reserve_slot_def qwr_check_has_slot_def)

lemma oq_push_response_iff: "(\<exists>q'. oq_push_response q m = Some q') \<longleftrightarrow> 0 < num_slots_reserved (oq_queue q)"
  by (auto simp: oq_push_response_def qwr_push_into_reserved_slot_def)

lemma oq_take_msg_ok:
  assumes "oq_inv q"
  shows "\<exists>q'. oq_take_msg c q = Some q' \<and> oq_inv q' \<and> oq_reserved_slots q' = oq_reserved_slots q \<and>
    capacity (oq_queue q') = capacity (oq_queue q)"
proof (cases c)
  case Pop
  show ?thesis
  proof (cases "oq_items q = []")
    case True
    with assms Pop show ?thesis by (simp add: oq_pop_empty)
  next
    case False
    show ?thesis
      by (rule oq_pop_message [OF assms False]) (simp add: Pop oq_reserved_slots_def qwr_reserved_slots_def)
  qed
next
  case (Time_out t)
  then show ?thesis
    using oq_time_out_requests_spec [OF assms, of t]
    by (auto simp: timed_out_all_def oq_reserved_slots_def qwr_reserved_slots_def)
qed

interpretation oq: reservation_queue oq_inv "\<lambda>q. length (oq_items q)" oq_reserved_slots
  "\<lambda>q. capacity (oq_queue q)" "\<lambda>q. ok_of (oq_reserve_slot q)" "\<lambda>(m, d) q. ok_of (oq_push_request q m d)"
  "\<lambda>m q. oq_push_response q m" oq_take_msg
proof (unfold_locales, goal_cases)
  case (2 q)
  then show ?case using oq_reserve_slot_iff [of q]
    by (auto simp: oq_reserved_slots_def qwr_reserved_slots_def)
next
  case (3 q q')
  then show ?case using oq_inv_reserve_slot [of q q'] oq_reserve_slot_ok [of q q']
    by (simp add: oq_reserved_slots_def qwr_reserved_slots_def)
next
  case (4 q a)
  then show ?case using oq_push_request_iff [of q "fst a" "snd a"]
    by (auto simp: oq_reserved_slots_def qwr_reserved_slots_def split_beta)
next
  case (5 q a q')
  then show ?case
    using oq_inv_push_request [of q "fst a" "snd a" q'] oq_push_request_ok [of q "fst a" "snd a" q']
    by (auto simp: oq_reserved_slots_def qwr_reserved_slots_def split_beta)
next
  case (6 q b)
  then show ?case using oq_push_response_iff [of q b]
    by (auto simp: oq_reserved_slots_def qwr_reserved_slots_def)
next
  case (7 q b q')
  then show ?case using oq_inv_push_response [of q b q'] oq_push_response_ok [of q b q']
    by (auto simp: oq_reserved_slots_def qwr_reserved_slots_def)
next
  case (8 q c)
  then show ?case by (rule oq_take_msg_ok)
qed (simp add: oq_inv_def qwr_inv_def oq_reserved_slots_def qwr_reserved_slots_def)

section \<open>Encoding and decoding queues\<close>

lemma check_size_ok:
  assumes "unat (pbq_capacity q) = DEFAULT_QUEUE_CAPACITY"
    and "length (pbq_queue q) + unat (pbq_num_slots_reserved q) \<le> DEFAULT_QUEUE_CAPACITY"
  shows "check_size q = Some (Inr ())"
  using assms by (simp add: check_size_def DEFAULT_QUEUE_CAPACITY_def)

lemma unat_of_nat_le:
  "n \<le> DEFAULT_QUEUE_CAPACITY \<Longrightarrow> unat (of_nat n :: u64) = n"
  by (rule unat_of_nat_small) (simp add: DEFAULT_QUEUE_CAPACITY_def)

lemma iq_roundtrip:
  assumes "\<And>c. dec (enc c) = Some c" and "iq_inv q" and "capacity (iq_queue q) = DEFAULT_QUEUE_CAPACITY"
  shows "iq_try_from dec (iq_to_pb enc q) = Some (Inr q)"
proof -
  have le: "num_slots_reserved (iq_queue q) \<le> DEFAULT_QUEUE_CAPACITY"
    using assms(2,3) by (simp add: iq_inv_def qwr_inv_def)
  have "check_size (iq_to_pb enc q) = Some (Inr ())"
    by (rule check_size_ok)
      (use assms(2,3) le in \<open>simp_all add: iq_to_pb_def qwr_rr_to_pb_def unat_of_nat_le iq_inv_def qwr_inv_def\<close>)
  moreover have "try_map (rr_try_from dec) (pbq_queue (iq_to_pb enc q)) = Some (Inr (queue (iq_queue q)))"
    unfolding iq_to_pb_def qwr_rr_to_pb_def
    by (simp add: try_map_roundtrip rr_roundtrip assms(1))
  ultimately show ?thesis
    using assms(3) le
    by (simp add: iq_try_from_def qwr_rr_try_from_def)
      (simp add: iq_to_pb_def unat_of_nat_le)
qed

lemma rr_to_pb_Some: "\<exists>r. rr_to_pb enc m = Some r"
  by (cases m) simp_all

lemma oq_item_roundtrip:
  assumes "\<And>c. dec (enc c) = Some c"
  shows "(case (case opt of Some rr \<Rightarrow> rr_to_pb enc rr | None \<Rightarrow> None) of
       None \<Rightarrow> Some (Inr None)
     | Some r \<Rightarrow> try_bind (rr_try_from dec (case opt of Some rr \<Rightarrow> rr_to_pb enc rr | None \<Rightarrow> None))
         (\<lambda>m. Some (Inr (Some m)))) = Some (Inr opt)"
proof (cases opt)
  case (Some m)
  obtain r where "rr_to_pb enc m = Some r" using rr_to_pb_Some by blast
  with rr_roundtrip [OF assms, of m] Some show ?thesis by simp
qed simp

lemma oq_roundtrip:
  assumes "\<And>c. dec (enc c) = Some c" and "oq_inv q" and "capacity (oq_queue q) = DEFAULT_QUEUE_CAPACITY"
    and "oq_end q < 2 ^ 64"
  shows "oq_try_from dec (oq_to_pb enc q) = Some (Inr q)"
proof -
  have le: "num_slots_reserved (oq_queue q) \<le> DEFAULT_QUEUE_CAPACITY"
    using assms(2,3) by (simp add: oq_inv_def qwr_inv_def)
  have "check_size (oq_to_pb enc q) = Some (Inr ())"
    by (rule check_size_ok)
      (use assms(2,3) le in \<open>simp_all add: oq_to_pb_def qwr_opt_to_pb_def unat_of_nat_le oq_inv_def qwr_inv_def\<close>)
  moreover have "try_map (\<lambda>rr. case rr of None \<Rightarrow> Some (Inr None)
        | Some _ \<Rightarrow> try_bind (rr_try_from dec rr) (\<lambda>m. Some (Inr (Some m))))
      (pbq_queue (oq_to_pb enc q)) = Some (Inr (oq_items q))"
    unfolding oq_to_pb_def qwr_opt_to_pb_def
    by (simp, rule try_map_roundtrip) (rule oq_item_roundtrip [OF assms(1)])
  ultimately have qwr: "qwr_opt_try_from dec (oq_to_pb enc q) = Some (Inr (oq_queue q))"
    using assms(3) le
    by (simp add: qwr_opt_try_from_def) (simp add: oq_to_pb_def unat_of_nat_le)
  have ends: "map ((\<lambda>di. (md_deadline di, unat (md_index di))) \<circ>
      (\<lambda>(d, e). \<lparr>md_deadline = d, md_index = of_nat e\<rparr>)) (oq_deadline_range_ends q) = oq_deadline_range_ends q"
  proof (rule map_idI, clarify)
    fix d e assume "(d, e) \<in> set (oq_deadline_range_ends q)"
    then have "e < 2 ^ 64" using assms(2,4) by (auto simp: oq_inv_def oq_checked_def)
    then show "((\<lambda>di. (md_deadline di, unat (md_index di))) \<circ>
      (\<lambda>(d, e). \<lparr>md_deadline = d, md_index = of_nat e\<rparr>)) (d, e) = (d, e)"
      by (simp add: unat_of_nat_small)
  qed
  have "oq_timeout_index q < 2 ^ 64" "oq_begin q < 2 ^ 64" using assms(2,4) by (simp_all add: oq_inv_def)
  then have res: "\<lparr>oq_queue = oq_queue q, oq_begin = unat (pbq_begin (oq_to_pb enc q)),
      oq_deadline_range_ends =
        map (\<lambda>di. (md_deadline di, unat (md_index di))) (pbq_deadline_range_ends (oq_to_pb enc q)),
      oq_timeout_index = unat (pbq_timeout_index (oq_to_pb enc q)),
      oq_num_messages = length (filter (\<lambda>rr. rr \<noteq> None) (oq_items q))\<rparr> = q"
    using ends oq_inv_num [OF assms(2)]
    by (simp add: oq_to_pb_def unat_of_nat_small length_somes)
  have "oq_test_invariants q = Inr ()"
    using assms(2) unfolding oq_test_invariants_iff oq_inv_def by blast
  then show ?thesis by (simp only: oq_try_from_def qwr Let_def res try_bind.simps sum.case)
qed

section \<open>Ingress queue\<close>

definition ing_inv :: "layout \<Rightarrow> 'p ingress_queue \<Rightarrow> bool" where
  "ing_inv z q \<longleftrightarrow> ing_size_bytes q = ing_calculate_size_bytes z (ing_queue q)"

lemma ing_inv_default: "ing_inv z (ing_default z)"
  by (simp add: ing_inv_def ing_default_def)

lemma ing_inv_push: "ing_inv z q \<Longrightarrow> ing_inv z (ing_push z q m)"
  by (simp add: ing_inv_def ing_push_def ing_calculate_size_bytes_def)

lemma ing_inv_filter: "ing_inv z (ing_filter_messages z f q)"
  by (simp add: ing_inv_def ing_filter_messages_def Let_def)

lemma ing_pop_ok:
  assumes "ing_inv z q"
  shows "\<exists>q'. ing_pop z q = Some (ing_peek q, q') \<and> ing_queue q' = tl (ing_queue q) \<and> ing_inv z q'"
  using assms
  by (cases "ing_queue q")
    (auto simp: ing_pop_def ing_peek_def ing_inv_def ing_calculate_size_bytes_def sub_usize_def)

lemma ing_roundtrip:
  assumes "\<And>c. dec (enc c) = Some c" and "ing_inv z q"
    and "\<forall>i \<in> set (ing_queue q). length (i_message_id i) = EXPECTED_MESSAGE_ID_LENGTH"
  shows "ing_try_from z dec (ing_to_pb enc q) = Some (Inr q)"
proof -
  have "try_map (ingress_try_from dec) (map (ingress_to_pb enc) (ing_queue q)) = Some (Inr (ing_queue q))"
    using assms(3) by (intro try_map_roundtrip ingress_roundtrip [OF assms(1)]) simp
  then show ?thesis using assms(2) by (simp add: ing_try_from_def ing_to_pb_def ing_inv_def)
qed

section \<open>Properties\<close>

text \<open>
  Any sequence of pushes, reservations, pops and time-outs from a new output queue leaves a
  queue for which \<open>test_invariants\<close> succeeds, and on which none of the operations that unwrap or
  subtract (\<open>pop\<close>, \<open>peek\<close>, \<open>available_slots\<close>, draining the time-out iterator) panics.
\<close>

theorem oq_never_panics:
  assumes "oq_history ds dl q"
  shows "oq_test_invariants q = Inr () \<and> oq_pop q \<noteq> None \<and> oq_peek q \<noteq> None \<and>
    oq_available_slots q \<noteq> None \<and> oq_time_out_requests q t \<noteq> None"
proof -
  have inv: "oq_inv q" using assms by (rule oq_history_inv)
  have "oq_test_invariants q = Inr ()" using inv unfolding oq_test_invariants_iff oq_inv_def by blast
  moreover have "oq_pop q \<noteq> None" by (rule oq_pop_no_panic [OF inv]) simp
  moreover have "oq_peek q \<noteq> None"
    using inv by (cases "oq_items q") (auto simp: oq_peek_def qwr_peek_def oq_inv_def oq_checked_def)
  moreover have "oq_available_slots q \<noteq> None"
    using inv by (simp add: oq_available_slots_def qwr_available_slots_def oq_inv_def qwr_inv_def sub_usize_def)
  moreover have "oq_time_out_requests q t \<noteq> None" using oq_time_out_requests_spec [OF inv, of t] by auto
  ultimately show ?thesis by blast
qed

definition example_oq :: "u8 output_queue" where
  "example_oq =
     \<lparr>oq_queue = \<lparr>queue = [Some (Request example_request)], capacity = 500, num_slots_reserved = 1\<rparr>,
      oq_begin = 0, oq_deadline_range_ends = [(10, 1)], oq_timeout_index = 0, oq_num_messages = 1\<rparr>"

lemma example_oq_history: "oq_history [10] ((\<lambda>_. 0)(0 := 10)) example_oq"
proof -
  define q1 where "q1 = (oq_new 500 :: u8 output_queue)
    \<lparr>oq_queue := \<lparr>queue = [], capacity = 500, num_slots_reserved = 1\<rparr>\<rparr>"
  have "oq_reserve_slot (oq_new 500) = Inr q1"
    by (simp add: q1_def oq_new_def oq_reserve_slot_def qwr_reserve_slot_def qwr_check_has_slot_def qwr_new_def)
  then have "oq_history [] (\<lambda>_. 0) q1" by (rule oq_history.reserve [OF oq_history.new])
  moreover have "oq_push_request q1 example_request 10 = Inr example_oq"
    by (simp add: q1_def oq_new_def example_oq_def oq_push_request_def qwr_push_def qwr_check_has_slot_def
        push_deadline_def)
  ultimately have "oq_history ([] @ [10]) ((\<lambda>_. 0)(oq_end q1 := 10)) example_oq" by (rule oq_history.push_request)
  then show ?thesis by (simp add: q1_def oq_new_def)
qed

lemma example_oq_inv: "oq_inv example_oq"
  using example_oq_history by (rule oq_history_inv)

theorem oq_never_panics_witness: "oq_pop example_oq \<noteq> None \<and> oq_time_out_requests example_oq 10 \<noteq> None"
  using oq_never_panics [OF example_oq_history, of 10] by simp

definition oq_messages :: "'p output_queue \<Rightarrow> 'p request_or_response list" where
  "oq_messages q = somes (oq_items q)"

definition head_opt :: "'a list \<Rightarrow> 'a option" where
  "head_opt xs = (case xs of [] \<Rightarrow> None | x # _ \<Rightarrow> Some x)"

lemma oq_items_messages: "oq_inv q \<Longrightarrow> oq_items q = [] \<longleftrightarrow> oq_messages q = []"
  by (cases "oq_items q") (auto simp: oq_inv_def oq_checked_def oq_messages_def)

text \<open>
  C21. An output queue implements a first-in first-out list of messages, its empty slots being
  invisible: \<open>pop\<close> returns and removes the head, \<open>peek\<close> shows it, the pushes append,
  and \<open>num_messages\<close> is the length of the list.
\<close>

theorem oq_refines_fifo:
  assumes "oq_inv q"
  shows "(\<exists>q'. oq_pop q = Some (head_opt (oq_messages q), q') \<and> oq_messages q' = tl (oq_messages q) \<and> oq_inv q') \<and>
    oq_peek q = Some (head_opt (oq_messages q)) \<and> oq_num_messages q = length (oq_messages q) \<and>
    (\<forall>m d q'. oq_push_request q m d = Inr q' \<longrightarrow> oq_messages q' = oq_messages q @ [Request m] \<and> oq_inv q') \<and>
    (\<forall>m q'. oq_push_response q m = Some q' \<longrightarrow> oq_messages q' = oq_messages q @ [Response m] \<and> oq_inv q')"
proof -
  have "\<exists>q'. oq_pop q = Some (head_opt (oq_messages q), q') \<and> oq_messages q' = tl (oq_messages q) \<and> oq_inv q'"
  proof (cases "oq_items q = []")
    case True
    with assms show ?thesis by (simp add: oq_pop_empty oq_messages_def head_opt_def)
  next
    case False
    show ?thesis by (rule oq_pop_message [OF assms False]) (auto simp: oq_messages_def head_opt_def)
  qed
  moreover have "oq_peek q = Some (head_opt (oq_messages q))"
    using assms by (cases "oq_items q")
      (auto simp: oq_peek_def qwr_peek_def oq_inv_def oq_checked_def oq_messages_def head_opt_def)
  moreover have "oq_num_messages q = length (oq_messages q)"
    using oq_inv_num [OF assms] by (simp add: oq_messages_def)
  moreover have "oq_messages q' = oq_messages q @ [Request m] \<and> oq_inv q'" if "oq_push_request q m d = Inr q'" for m d q'
    using oq_push_request_ok(1) [OF that] oq_inv_push_request [OF assms that] by (simp add: oq_messages_def)
  moreover have "oq_messages q' = oq_messages q @ [Response m] \<and> oq_inv q'" if "oq_push_response q m = Some q'" for m q'
    using oq_push_response_ok(1) [OF that] oq_inv_push_response [OF assms that] by (simp add: oq_messages_def)
  ultimately show ?thesis by blast
qed

theorem oq_refines_fifo_witness:
  "oq_inv example_oq \<and> oq_peek example_oq = Some (Some (Request example_request)) \<and>
    (\<exists>q'. oq_pop example_oq = Some (Some (Request example_request), q') \<and> oq_messages q' = [])"
proof -
  have "oq_messages example_oq = [Request example_request]" by (simp add: example_oq_def oq_messages_def)
  then show ?thesis using example_oq_inv oq_refines_fifo [OF example_oq_inv] by (auto simp: head_opt_def)
qed

text \<open>
  Draining the time-out iterator of an output queue at time \<open>t\<close> returns exactly the requests
  that lie in an expired deadline range, in queue order, empties their slots and touches no
  other slot: responses and unexpired requests stay where they are. No expired range is left.
\<close>

theorem oq_time_out_exact:
  assumes "oq_inv q"
  shows "\<exists>q'. oq_time_out_requests q t = Some (expired_requests q t, q') \<and>
    (\<forall>j. oq_slot q' j = (if expired_request q t j = None then oq_slot q j else None)) \<and>
    \<not> oq_has_expired_deadlines q' t \<and> oq_reserved_slots q' = oq_reserved_slots q \<and> oq_inv q'"
  using oq_time_out_requests_spec [OF assms, of t]
  by (auto simp: timed_out_all_def oq_reserved_slots_def qwr_reserved_slots_def)

theorem oq_time_out_exact_witness:
  "\<exists>q'. oq_time_out_requests example_oq 10 = Some ([example_request], q') \<and> oq_inv q'"
proof -
  have "expired_requests example_oq 10 = [example_request]"
    by (simp add: expired_requests_def expired_request_def oq_expired_def oq_slot_def example_oq_def
        List.map_filter_simps)
  then show ?thesis using oq_time_out_exact [OF example_oq_inv, of 10] by auto
qed

text \<open>
  When requests were pushed with non-decreasing deadlines, as the callers do, the requests that
  time out at \<open>t\<close> are exactly those whose own deadline is at or before \<open>t\<close>, although the queue only
  keeps one deadline per range of requests.
\<close>

theorem oq_time_out_own_deadline:
  assumes "oq_history ds dl q" and "sorted ds" and "oq_time_out_requests q t = Some (rs, q')"
  shows "rs = List.map_filter (\<lambda>j. if dl j \<le> t then request_of (oq_slot q j) else None) [0..<oq_end q]"
proof -
  have exact: "oq_expired q t j = (dl j \<le> t)" if "is_request_item (oq_slot q j)" for j
    using oq_history_exact [OF assms(1,2)] that by (simp add: deadlines_exact_def)
  have "rs = expired_requests q t"
    using oq_time_out_requests_all [OF oq_history_inv [OF assms(1)] assms(3)] by simp
  moreover have "expired_request q t = (\<lambda>j. if dl j \<le> t then request_of (oq_slot q j) else None)"
  proof
    fix j
    show "expired_request q t j = (if dl j \<le> t then request_of (oq_slot q j) else None)"
      using exact [of j] request_of_None [of "oq_slot q j"]
      by (cases "is_request_item (oq_slot q j)") (auto simp: expired_request_def)
  qed
  ultimately show ?thesis by (simp add: expired_requests_def)
qed

theorem oq_time_out_own_deadline_witness:
  "fst (the (oq_time_out_requests example_oq 9)) = []"
proof -
  obtain rs q' where run: "oq_time_out_requests example_oq 9 = Some (rs, q')"
    using oq_time_out_requests_spec [OF example_oq_inv, of 9] by auto
  have "rs = List.map_filter (\<lambda>j. if ((\<lambda>_. 0)(0 := 10 :: u64)) j \<le> 9 then request_of (oq_slot example_oq j) else None) [0..<oq_end example_oq]"
    by (rule oq_time_out_own_deadline [OF example_oq_history _ run]) simp
  then show ?thesis using run by (simp add: example_oq_def List.map_filter_simps)
qed

text \<open>
  In any order of deadlines, no request times out before the deadline it was pushed with.
\<close>

theorem oq_never_times_out_early:
  assumes "oq_history ds dl q" and "oq_time_out_requests q t = Some (rs, q')" and "r \<in> set rs"
  shows "\<exists>j. oq_slot q j = Some (Request r) \<and> dl j \<le> t"
proof -
  have "rs = expired_requests q t"
    using oq_time_out_requests_all [OF oq_history_inv [OF assms(1)] assms(2)] by simp
  then obtain j where j: "expired_request q t j = Some r"
    using assms(3) by (auto simp: expired_requests_def List.map_filter_def)
  then have "oq_expired q t j" and slot: "oq_slot q j = Some (Request r)"
    by (auto simp: expired_request_def split: if_splits elim!: request_of.elims)
  then have "dl j \<le> t" using oq_history_safe [OF assms(1)] by (auto simp: deadlines_safe_def)
  with slot show ?thesis by blast
qed

theorem oq_never_times_out_early_witness:
  "\<exists>rs q'. oq_time_out_requests example_oq 10 = Some (rs, q') \<and> example_request \<in> set rs \<and>
    (\<exists>j. oq_slot example_oq j = Some (Request example_request) \<and> ((\<lambda>_. 0)(0 := 10 :: u64)) j \<le> 10)"
proof -
  have "expired_requests example_oq 10 = [example_request]"
    by (simp add: expired_requests_def expired_request_def oq_expired_def oq_slot_def example_oq_def
        List.map_filter_simps)
  then obtain q' where run: "oq_time_out_requests example_oq 10 = Some ([example_request], q')"
    using oq_time_out_requests_spec [OF example_oq_inv, of 10] by auto
  show ?thesis
    using run oq_never_times_out_early [OF example_oq_history run, of example_request] by auto
qed

text \<open>
  C32. Backpressure of output queues: from any queue in which \<open>n\<close> slots are reserved, a run of
  operations that pushes at most \<open>n\<close> responses succeeds, whatever requests, reservations, pops and
  time-outs are interleaved with them, and the queue never exceeds its capacity.
\<close>

theorem oq_responses_fit:
  assumes "oq_inv q" and "length (filter is_push_response ops) \<le> oq_reserved_slots q"
  shows "\<exists>q'. run_ops (queue_step (\<lambda>q. ok_of (oq_reserve_slot q)) (\<lambda>(m, d) q. ok_of (oq_push_request q m d))
      (\<lambda>m q. oq_push_response q m) oq_take_msg) ops q = Some q' \<and> oq_inv q' \<and>
    capacity (oq_queue q') = capacity (oq_queue q) \<and>
    length (oq_items q') + oq_reserved_slots q' \<le> capacity (oq_queue q)"
  using assms by (rule oq.responses_fit)

theorem oq_responses_fit_witness:
  "\<exists>q'. run_ops (queue_step (\<lambda>q. ok_of (oq_reserve_slot q)) (\<lambda>(m, d) q. ok_of (oq_push_request q m d))
      (\<lambda>m q. oq_push_response q m) oq_take_msg)
     [Take Pop, Push_request (example_request, 20), Push_response example_response] example_oq = Some q'"
  using oq_responses_fit [OF example_oq_inv,
      of "[Take Pop, Push_request (example_request, 20), Push_response example_response]"]
  by (auto simp: example_oq_def oq_reserved_slots_def qwr_reserved_slots_def)

text \<open>
  Backpressure of input queues: the same guarantee for the responses that a canister expects.
\<close>

theorem iq_responses_fit:
  assumes "iq_inv q" and "length (filter is_push_response ops) \<le> iq_reserved_slots q"
  shows "\<exists>q'. run_ops (queue_step (\<lambda>q. ok_of (iq_reserve_slot q)) (\<lambda>m q. ok_of (iq_push q (Request m)))
      (\<lambda>m q. ok_of (iq_push q (Response m))) (\<lambda>(_ :: unit) q. Some (snd (iq_pop q)))) ops q = Some q' \<and>
    iq_inv q' \<and> capacity (iq_queue q') = capacity (iq_queue q) \<and>
    iq_num_messages q' + iq_reserved_slots q' \<le> capacity (iq_queue q)"
  using assms by (rule iq.responses_fit)

definition example_iq :: "u8 input_queue" where
  "example_iq =
     \<lparr>iq_queue = \<lparr>queue = [Request example_request], capacity = 500, num_slots_reserved = 1\<rparr>\<rparr>"

theorem iq_responses_fit_witness:
  "\<exists>q'. run_ops (queue_step (\<lambda>q. ok_of (iq_reserve_slot q)) (\<lambda>m q. ok_of (iq_push q (Request m)))
      (\<lambda>m q. ok_of (iq_push q (Response m))) (\<lambda>(_ :: unit) q. Some (snd (iq_pop q))))
     [Take (), Push_request example_request, Push_response example_response] example_iq = Some q'"
  using iq_responses_fit [of example_iq "[Take (), Push_request example_request, Push_response example_response]"]
  by (auto simp: example_iq_def iq_inv_def qwr_inv_def iq_reserved_slots_def qwr_reserved_slots_def)

text \<open>
  Encoding an output queue and decoding it gives the queue back, empty slots, deadline
  ranges and counters included; in particular the invariant check of the decoder accepts it. The
  principal codec is assumed to be a round trip, and queue indices to fit their 64-bit fields.
\<close>

theorem oq_pb_roundtrip:
  assumes "\<And>c. dec (enc c) = Some c" and "oq_inv q" and "capacity (oq_queue q) = DEFAULT_QUEUE_CAPACITY"
    and "oq_end q < 2 ^ 64"
  shows "oq_try_from dec (oq_to_pb enc q) = Some (Inr q)"
  using assms by (rule oq_roundtrip)

theorem oq_pb_roundtrip_witness:
  "oq_try_from example_dec (oq_to_pb example_enc example_oq) = Some (Inr example_oq)"
  using oq_pb_roundtrip [OF example_codec example_oq_inv]
  by (simp add: example_oq_def DEFAULT_QUEUE_CAPACITY_def)

lemma case_unit_result:
  "(case r of Inl e \<Rightarrow> Some (Inl (f e)) | Inr _ \<Rightarrow> Some (Inr x)) = Some (Inr y) \<longleftrightarrow> r = Inr () \<and> y = x"
  by (cases r) auto

text \<open>
  Decoding never accepts an output queue that \<open>test_invariants\<close> rejects or that is over capacity:
  whatever the bytes, a decoded queue satisfies all checked conditions, and the queue contents and
  reservations fit in the default capacity.
\<close>

theorem oq_decode_checked:
  assumes "oq_try_from dec pb = Some (Inr q)"
  shows "oq_checked q \<and> qwr_inv (oq_queue q) \<and> capacity (oq_queue q) = DEFAULT_QUEUE_CAPACITY"
proof -
  obtain qq where qq: "qwr_opt_try_from dec pb = Some (Inr qq)" "oq_test_invariants q = Inr ()" "oq_queue q = qq"
    using assms unfolding oq_try_from_def try_bind_eq_ok_iff Let_def case_unit_result by auto
  then obtain items where "check_size pb = Some (Inr ())" "try_map (\<lambda>rr. case rr of None \<Rightarrow> Some (Inr None)
        | Some _ \<Rightarrow> try_bind (rr_try_from dec rr) (\<lambda>m. Some (Inr (Some m)))) (pbq_queue pb) = Some (Inr items)"
      "qq = \<lparr>queue = items, capacity = DEFAULT_QUEUE_CAPACITY, num_slots_reserved = unat (pbq_num_slots_reserved pb)\<rparr>"
    by (auto simp: qwr_opt_try_from_def try_bind_eq_ok_iff)
  then show ?thesis
    using qq try_map_length unfolding oq_test_invariants_iff
    by (fastforce simp: qwr_inv_def check_size_def split: if_splits)
qed

theorem oq_decode_checked_witness:
  "\<exists>q. oq_try_from example_dec (oq_to_pb example_enc example_oq) = Some (Inr q) \<and> oq_checked q"
proof -
  have "oq_try_from example_dec (oq_to_pb example_enc example_oq) = Some (Inr example_oq)"
    by (rule oq_roundtrip [OF example_codec example_oq_inv]) (simp_all add: example_oq_def DEFAULT_QUEUE_CAPACITY_def)
  then show ?thesis using oq_decode_checked by blast
qed

definition lax_oq :: "u8 output_queue" where
  "lax_oq =
     \<lparr>oq_queue = \<lparr>queue = [], capacity = 500, num_slots_reserved = 0\<rparr>,
      oq_begin = 0, oq_deadline_range_ends = [], oq_timeout_index = 5, oq_num_messages = 0\<rparr>"


end
