(* ===== verification/CanisterQueues.thy ===== *)
theory CanisterQueues
  imports Queue_Correct
begin

text \<open>
  The queues of one canister (\<open>rs/replicated_state/src/canister_state/queues.rs\<close>): the ingress
  queue, a pair of input and output queue per remote canister, the schedules for round-robin
  consumption of the inputs, and the running statistics over all queues.

  \<open>CanisterId\<close> is a linearly ordered type \<open>'p\<close>; the set of canisters hosted by the subnet, of which
  the code only asks whether it contains a key, is a predicate \<open>local_canister\<close>. The management
  canister's ID is the argument \<open>ic00\<close>. \<open>isize\<close> and \<open>i64\<close> counts of reservations are \<open>int\<close>: they are
  sums of counters bounded by the number of queues times their capacity.
\<close>

section \<open>Statistics\<close>

datatype queue_op_kind = OpPush | OpPop

record input_queues_stats =
  iqs_message_count :: nat
  iqs_response_count :: nat
  iqs_reserved_slots :: int
  iqs_size_bytes :: nat
  iqs_cycles :: cycles

definition iqs_default :: input_queues_stats where
  "iqs_default =
     \<lparr>iqs_message_count = 0, iqs_response_count = 0, iqs_reserved_slots = 0, iqs_size_bytes = 0,
      iqs_cycles = cycles_zero\<rparr>"

fun response_count :: "'p request_or_response \<Rightarrow> nat" where
  "response_count (Request _) = 0"
| "response_count (Response _) = 1"

definition iqs_stats_delta :: "layout \<Rightarrow> queue_op_kind \<Rightarrow> 'p request_or_response \<Rightarrow> input_queues_stats" where
  "iqs_stats_delta z op msg =
     \<lparr>iqs_message_count = 1,
      iqs_response_count = (case msg of Response _ \<Rightarrow> 1 | Request _ \<Rightarrow> 0),
      iqs_reserved_slots = (case (op, msg) of (OpPush, Response _) \<Rightarrow> - 1 | _ \<Rightarrow> 0),
      iqs_size_bytes = rr_count_bytes z msg,
      iqs_cycles = rr_cycles msg\<rparr>"

definition iqs_add_assign :: "input_queues_stats \<Rightarrow> input_queues_stats \<Rightarrow> input_queues_stats" where
  "iqs_add_assign s rhs =
     \<lparr>iqs_message_count = iqs_message_count s + iqs_message_count rhs,
      iqs_response_count = iqs_response_count s + iqs_response_count rhs,
      iqs_reserved_slots = iqs_reserved_slots s + iqs_reserved_slots rhs,
      iqs_size_bytes = iqs_size_bytes s + iqs_size_bytes rhs,
      iqs_cycles = cycles_add (iqs_cycles s) (iqs_cycles rhs)\<rparr>"

definition iqs_sub_assign :: "input_queues_stats \<Rightarrow> input_queues_stats \<Rightarrow> input_queues_stats option" where
  "iqs_sub_assign s rhs =
     do {
       mc \<leftarrow> sub_usize (iqs_message_count s) (iqs_message_count rhs);
       rc \<leftarrow> sub_usize (iqs_response_count s) (iqs_response_count rhs);
       sb \<leftarrow> sub_usize (iqs_size_bytes s) (iqs_size_bytes rhs);
       Some \<lparr>iqs_message_count = mc, iqs_response_count = rc,
             iqs_reserved_slots = iqs_reserved_slots s - iqs_reserved_slots rhs, iqs_size_bytes = sb,
             iqs_cycles = cycles_sub (iqs_cycles s) (iqs_cycles rhs)\<rparr>
     }"

record output_queues_stats =
  oqs_message_count :: nat
  oqs_cycles :: cycles

definition oqs_default :: output_queues_stats where
  "oqs_default = \<lparr>oqs_message_count = 0, oqs_cycles = cycles_zero\<rparr>"

definition oqs_stats_delta :: "'p request_or_response \<Rightarrow> output_queues_stats" where
  "oqs_stats_delta msg =
     \<lparr>oqs_message_count = 1,
      oqs_cycles = (case msg of Response response \<Rightarrow> refund response | Request request \<Rightarrow> payment request)\<rparr>"

definition oqs_add_assign :: "output_queues_stats \<Rightarrow> output_queues_stats \<Rightarrow> output_queues_stats" where
  "oqs_add_assign s rhs =
     \<lparr>oqs_message_count = oqs_message_count s + oqs_message_count rhs,
      oqs_cycles = cycles_add (oqs_cycles s) (oqs_cycles rhs)\<rparr>"

definition oqs_sub_assign :: "output_queues_stats \<Rightarrow> output_queues_stats \<Rightarrow> output_queues_stats option" where
  "oqs_sub_assign s rhs =
     do {
       mc \<leftarrow> sub_usize (oqs_message_count s) (oqs_message_count rhs);
       Some \<lparr>oqs_message_count = mc, oqs_cycles = cycles_sub (oqs_cycles s) (oqs_cycles rhs)\<rparr>
     }"

record memory_usage_stats =
  mus_responses_size_bytes :: nat
  mus_reserved_slots :: int
  mus_oversized_requests_extra_bytes :: nat
  mus_transient_stream_responses_size_bytes :: nat

definition mus_default :: memory_usage_stats where
  "mus_default =
     \<lparr>mus_responses_size_bytes = 0, mus_reserved_slots = 0, mus_oversized_requests_extra_bytes = 0,
      mus_transient_stream_responses_size_bytes = 0\<rparr>"

text \<open>The cast \<open>reserved_slots as usize\<close> of a negative number wraps around.\<close>

definition mus_memory_usage :: "layout \<Rightarrow> memory_usage_stats \<Rightarrow> nat" where
  "mus_memory_usage z s =
     mus_responses_size_bytes s + nat (mus_reserved_slots s mod 2 ^ 64) * MAX_RESPONSE_COUNT_BYTES z
     + mus_oversized_requests_extra_bytes s + mus_transient_stream_responses_size_bytes s"

definition mus_request_stats_delta :: "layout \<Rightarrow> queue_op_kind \<Rightarrow> 'p request \<Rightarrow> memory_usage_stats" where
  "mus_request_stats_delta z op req =
     \<lparr>mus_responses_size_bytes = 0,
      mus_reserved_slots = (case op of OpPush \<Rightarrow> 1 | OpPop \<Rightarrow> 0),
      mus_oversized_requests_extra_bytes = request_count_bytes z req - MAX_RESPONSE_COUNT_BYTES z,
      mus_transient_stream_responses_size_bytes = 0\<rparr>"

definition mus_response_stats_delta :: "layout \<Rightarrow> queue_op_kind \<Rightarrow> 'p response \<Rightarrow> memory_usage_stats" where
  "mus_response_stats_delta z op rep =
     \<lparr>mus_responses_size_bytes = response_count_bytes z rep,
      mus_reserved_slots = (case op of OpPush \<Rightarrow> - 1 | OpPop \<Rightarrow> 0),
      mus_oversized_requests_extra_bytes = 0,
      mus_transient_stream_responses_size_bytes = 0\<rparr>"

definition mus_stats_delta :: "layout \<Rightarrow> queue_op_kind \<Rightarrow> 'p request_or_response \<Rightarrow> memory_usage_stats" where
  "mus_stats_delta z op msg =
     (case msg of Request req \<Rightarrow> mus_request_stats_delta z op req
      | Response rep \<Rightarrow> mus_response_stats_delta z op rep)"

definition mus_response_slot_delta :: memory_usage_stats where
  "mus_response_slot_delta =
     \<lparr>mus_responses_size_bytes = 0, mus_reserved_slots = 1, mus_oversized_requests_extra_bytes = 0,
      mus_transient_stream_responses_size_bytes = 0\<rparr>"

definition mus_add_assign :: "memory_usage_stats \<Rightarrow> memory_usage_stats \<Rightarrow> memory_usage_stats" where
  "mus_add_assign s rhs =
     s\<lparr>mus_responses_size_bytes := mus_responses_size_bytes s + mus_responses_size_bytes rhs,
       mus_reserved_slots := mus_reserved_slots s + mus_reserved_slots rhs,
       mus_oversized_requests_extra_bytes :=
         mus_oversized_requests_extra_bytes s + mus_oversized_requests_extra_bytes rhs\<rparr>"

definition mus_sub_assign :: "memory_usage_stats \<Rightarrow> memory_usage_stats \<Rightarrow> memory_usage_stats option" where
  "mus_sub_assign s rhs =
     do {
       rs \<leftarrow> sub_usize (mus_responses_size_bytes s) (mus_responses_size_bytes rhs);
       ov \<leftarrow> sub_usize (mus_oversized_requests_extra_bytes s) (mus_oversized_requests_extra_bytes rhs);
       Some (s\<lparr>mus_responses_size_bytes := rs,
               mus_reserved_slots := mus_reserved_slots s - mus_reserved_slots rhs,
               mus_oversized_requests_extra_bytes := ov\<rparr>)
     }"

text \<open>\<open>PartialEq\<close> of the memory statistics ignores the transient field.\<close>

definition mus_eq :: "memory_usage_stats \<Rightarrow> memory_usage_stats \<Rightarrow> bool" where
  "mus_eq s rhs \<longleftrightarrow>
     mus_responses_size_bytes s = mus_responses_size_bytes rhs \<and>
     mus_reserved_slots s = mus_reserved_slots rhs \<and>
     mus_oversized_requests_extra_bytes s = mus_oversized_requests_extra_bytes rhs"

definition memory_required_to_push_request :: "layout \<Rightarrow> 'p request \<Rightarrow> nat" where
  "memory_required_to_push_request z req = max (request_count_bytes z req) (MAX_RESPONSE_COUNT_BYTES z)"

definition can_push :: "layout \<Rightarrow> 'p request_or_response \<Rightarrow> int \<Rightarrow> nat + unit" where
  "can_push z msg available_memory =
     (case msg of
        Request req \<Rightarrow>
          (let required = memory_required_to_push_request z req in
           if int required \<le> available_memory then Inr () else Inl required)
      | Response _ \<Rightarrow> Inr ())"

section \<open>State\<close>

datatype input_queue_type = LocalSubnet | RemoteSubnet

datatype next_input_queue = NextLocalSubnet | NextIngress | NextRemoteSubnet

datatype 'p canister_input_message =
    InputResponse "'p response" | InputRequest "'p request" | InputIngress "'p ingress"

record 'p canister_queues =
  cq_ingress_queue :: "'p ingress_queue"
  cq_queues :: "('p, 'p input_queue \<times> 'p output_queue) btree"
  cq_local_subnet_input_schedule :: "'p list"
  cq_remote_subnet_input_schedule :: "'p list"
  cq_input_queues_stats :: input_queues_stats
  cq_output_queues_stats :: output_queues_stats
  cq_memory_usage_stats :: memory_usage_stats
  cq_next_input_queue :: next_input_queue

definition cq_default :: "layout \<Rightarrow> 'p canister_queues" where
  "cq_default z =
     \<lparr>cq_ingress_queue = ing_default z, cq_queues = [], cq_local_subnet_input_schedule = [],
      cq_remote_subnet_input_schedule = [], cq_input_queues_stats = iqs_default,
      cq_output_queues_stats = oqs_default, cq_memory_usage_stats = mus_default,
      cq_next_input_queue = NextLocalSubnet\<rparr>"

definition REQUEST_LIFETIME :: nat where
  "REQUEST_LIFETIME = 300 * 10 ^ 9"

section \<open>Statistics from scratch\<close>

definition calculate_input_queues_stats ::
  "layout \<Rightarrow> ('p, 'p input_queue \<times> 'p output_queue) btree \<Rightarrow> input_queues_stats" where
  "calculate_input_queues_stats z queues =
     foldl (\<lambda>stats (c, q, _).
       \<lparr>iqs_message_count = iqs_message_count stats + iq_num_messages q,
        iqs_response_count = iqs_response_count stats + iq_calculate_stat_sum response_count q,
        iqs_reserved_slots = iqs_reserved_slots stats + int (iq_reserved_slots q),
        iqs_size_bytes = iqs_size_bytes stats + iq_calculate_size_bytes z q,
        iqs_cycles = cycles_add (iqs_cycles stats) (iq_cycles_in_queue q)\<rparr>) iqs_default queues"

definition calculate_output_queues_stats ::
  "('p, 'p input_queue \<times> 'p output_queue) btree \<Rightarrow> output_queues_stats" where
  "calculate_output_queues_stats queues =
     foldl (\<lambda>stats (c, _, q).
       \<lparr>oqs_message_count = oqs_message_count stats + oq_num_messages q,
        oqs_cycles = cycles_add (oqs_cycles stats) (oq_cycles_in_queue q)\<rparr>) oqs_default queues"

fun response_size_bytes :: "layout \<Rightarrow> 'p request_or_response \<Rightarrow> nat" where
  "response_size_bytes z (Request req) = 0"
| "response_size_bytes z (Response rep) = rr_count_bytes z (Response rep)"

fun request_overhead_bytes :: "layout \<Rightarrow> 'p request_or_response \<Rightarrow> nat" where
  "request_overhead_bytes z (Request req) = rr_count_bytes z (Request req) - MAX_RESPONSE_COUNT_BYTES z"
| "request_overhead_bytes z (Response rep) = 0"

definition calculate_memory_usage_stats ::
  "layout \<Rightarrow> ('p, 'p input_queue \<times> 'p output_queue) btree \<Rightarrow> memory_usage_stats" where
  "calculate_memory_usage_stats z queues =
     foldl (\<lambda>stats (c, iq, oq).
       stats\<lparr>mus_responses_size_bytes :=
               mus_responses_size_bytes stats + iq_calculate_stat_sum (response_size_bytes z) iq
               + oq_calculate_stat_sum (response_size_bytes z) oq,
             mus_reserved_slots :=
               mus_reserved_slots stats + int (iq_reserved_slots iq) + int (oq_reserved_slots oq),
             mus_oversized_requests_extra_bytes :=
               mus_oversized_requests_extra_bytes stats + iq_calculate_stat_sum (request_overhead_bytes z) iq
               + oq_calculate_stat_sum (request_overhead_bytes z) oq\<rparr>) mus_default queues"

definition stats_ok :: "layout \<Rightarrow> 'p canister_queues \<Rightarrow> bool" where
  "stats_ok z q \<longleftrightarrow>
     calculate_input_queues_stats z (cq_queues q) = cq_input_queues_stats q \<and>
     calculate_output_queues_stats (cq_queues q) = cq_output_queues_stats q \<and>
     mus_eq (calculate_memory_usage_stats z (cq_queues q)) (cq_memory_usage_stats q)"

text \<open>
  The schedule check. It panics on a mismatch; the model returns whether it passes.
\<close>

definition schedules_ok :: "'p \<Rightarrow> ('p \<Rightarrow> bool) \<Rightarrow> 'p canister_queues \<Rightarrow> bool" where
  "schedules_ok own_canister_id local_canister q =
     (let ids = map fst (filter (\<lambda>(c, iq, _). iq_num_messages iq \<noteq> 0) (cq_queues q));
          local_ids = filter (\<lambda>c. c = own_canister_id \<or> local_canister c) ids;
          remote_ids = filter (\<lambda>c. \<not> (c = own_canister_id \<or> local_canister c)) ids
      in length local_ids = length (cq_local_subnet_input_schedule q) \<and>
         set local_ids = set (cq_local_subnet_input_schedule q) \<and>
         length remote_ids = length (cq_remote_subnet_input_schedule q) \<and>
         set remote_ids = set (cq_remote_subnet_input_schedule q))"

section \<open>Ingress messages\<close>

definition cq_push_ingress :: "layout \<Rightarrow> 'p canister_queues \<Rightarrow> 'p ingress \<Rightarrow> 'p canister_queues" where
  "cq_push_ingress z q msg = q\<lparr>cq_ingress_queue := ing_push z (cq_ingress_queue q) msg\<rparr>"

definition cq_pop_ingress ::
  "layout \<Rightarrow> 'p canister_queues \<Rightarrow> ('p ingress option \<times> 'p canister_queues) option" where
  "cq_pop_ingress z q =
     do {
       (m, iq) \<leftarrow> ing_pop z (cq_ingress_queue q);
       Some (m, q\<lparr>cq_ingress_queue := iq\<rparr>)
     }"

definition cq_peek_ingress :: "'p canister_queues \<Rightarrow> 'p ingress option" where
  "cq_peek_ingress q = ing_peek (cq_ingress_queue q)"

definition cq_filter_ingress_messages ::
  "layout \<Rightarrow> ('p ingress \<Rightarrow> bool) \<Rightarrow> 'p canister_queues \<Rightarrow> 'p canister_queues" where
  "cq_filter_ingress_messages z f q =
     q\<lparr>cq_ingress_queue := ing_filter_messages z f (cq_ingress_queue q)\<rparr>"

section \<open>Queue pairs\<close>

definition cq_get_or_insert_queues ::
  "layout \<Rightarrow> 'p::linorder canister_queues \<Rightarrow> 'p
   \<Rightarrow> 'p canister_queues \<times> 'p input_queue \<times> 'p output_queue" where
  "cq_get_or_insert_queues z q c =
     (case bt_get (cq_queues q) c of
        Some (iq, oq) \<Rightarrow> (q, iq, oq)
      | None \<Rightarrow>
          (let iq = iq_new DEFAULT_QUEUE_CAPACITY; oq = oq_new DEFAULT_QUEUE_CAPACITY;
               s = cq_input_queues_stats q in
           (q\<lparr>cq_queues := bt_insert c (iq, oq) (cq_queues q),
              cq_input_queues_stats := s\<lparr>iqs_size_bytes := iqs_size_bytes s + iq_calculate_size_bytes z iq\<rparr>\<rparr>,
            iq, oq)))"

text \<open>Writing back a pair that was borrowed mutably.\<close>

definition cq_put ::
  "'p::linorder \<Rightarrow> 'p input_queue \<times> 'p output_queue \<Rightarrow> 'p canister_queues \<Rightarrow> 'p canister_queues" where
  "cq_put c v q = q\<lparr>cq_queues := bt_insert c v (cq_queues q)\<rparr>"

definition cq_schedule_push :: "input_queue_type \<Rightarrow> 'p \<Rightarrow> 'p canister_queues \<Rightarrow> 'p canister_queues" where
  "cq_schedule_push t c q =
     (case t of
        LocalSubnet \<Rightarrow> q\<lparr>cq_local_subnet_input_schedule := cq_local_subnet_input_schedule q @ [c]\<rparr>
      | RemoteSubnet \<Rightarrow> q\<lparr>cq_remote_subnet_input_schedule := cq_remote_subnet_input_schedule q @ [c]\<rparr>)"

section \<open>Input\<close>

text \<open>
  The tail of \<open>push_input\<close>, after the input queue has been selected: push, schedule the
  sender, update the statistics.
\<close>

definition cq_push_selected ::
  "layout \<Rightarrow> 'p::linorder canister_queues \<Rightarrow> 'p input_queue \<times> 'p output_queue \<Rightarrow> 'p request_or_response
   \<Rightarrow> input_queue_type \<Rightarrow> 'p canister_queues \<times> (('p state_error \<times> 'p request_or_response) + unit)" where
  "cq_push_selected z q v msg t =
     (case iq_push (fst v) msg of
        Inl err \<Rightarrow> (cq_put (rr_sender msg) v q, Inl err)
      | Inr iq \<Rightarrow>
          (let q1 = cq_put (rr_sender msg) (iq, snd v) q;
               q2 = (if iq_num_messages iq = 1 then cq_schedule_push t (rr_sender msg) q1 else q1)
           in (q2\<lparr>cq_input_queues_stats :=
                    iqs_add_assign (cq_input_queues_stats q2) (iqs_stats_delta z OpPush msg),
                  cq_memory_usage_stats :=
                    mus_add_assign (cq_memory_usage_stats q2) (mus_stats_delta z OpPush msg)\<rparr>,
               Inr ())))"

definition cq_push_input ::
  "layout \<Rightarrow> 'p::linorder canister_queues \<Rightarrow> 'p request_or_response \<Rightarrow> input_queue_type
   \<Rightarrow> 'p canister_queues \<times> (('p state_error \<times> 'p request_or_response) + unit)" where
  "cq_push_input z q msg t =
     (case msg of
        Request _ \<Rightarrow>
          (case cq_get_or_insert_queues z q (rr_sender msg) of
             (q1, iq, oq) \<Rightarrow>
               (case iq_check_has_slot iq of
                  Inl e \<Rightarrow> (q1, Inl (e, msg))
                | Inr _ \<Rightarrow>
                    (case oq_reserve_slot oq of
                       Inl e \<Rightarrow> (q1, Inl (e, msg))
                     | Inr oq1 \<Rightarrow> cq_push_selected z q1 (iq, oq1) msg t)))
      | Response _ \<Rightarrow>
          (case bt_get (cq_queues q) (rr_sender msg) of
             Some v \<Rightarrow> cq_push_selected z q v msg t
           | None \<Rightarrow> (q, Inl (QueueFull 0, msg))))"

definition cq_input_schedule :: "input_queue_type \<Rightarrow> 'p canister_queues \<Rightarrow> 'p list" where
  "cq_input_schedule t q =
     (case t of LocalSubnet \<Rightarrow> cq_local_subnet_input_schedule q
      | RemoteSubnet \<Rightarrow> cq_remote_subnet_input_schedule q)"

definition cq_set_input_schedule ::
  "input_queue_type \<Rightarrow> 'p list \<Rightarrow> 'p canister_queues \<Rightarrow> 'p canister_queues" where
  "cq_set_input_schedule t s q =
     (case t of LocalSubnet \<Rightarrow> q\<lparr>cq_local_subnet_input_schedule := s\<rparr>
      | RemoteSubnet \<Rightarrow> q\<lparr>cq_remote_subnet_input_schedule := s\<rparr>)"

fun to_input_message :: "'p request_or_response \<Rightarrow> 'p canister_input_message" where
  "to_input_message (Request msg) = InputRequest msg"
| "to_input_message (Response msg) = InputResponse msg"

text \<open>Scheduled senders must have a queue with a message: otherwise the unwraps panic.\<close>

definition cq_pop_canister_input ::
  "layout \<Rightarrow> 'p::linorder canister_queues \<Rightarrow> input_queue_type
   \<Rightarrow> ('p canister_input_message option \<times> 'p canister_queues) option" where
  "cq_pop_canister_input z q t =
     (case cq_input_schedule t q of
        [] \<Rightarrow> Some (None, q)
      | c # rest \<Rightarrow>
          do {
            (iq, oq) \<leftarrow> bt_get (cq_queues q) c;
            let (m, iq1) = iq_pop iq;
            msg \<leftarrow> m;
            let q1 = cq_put c (iq1, oq) q;
            let q2 = cq_set_input_schedule t (if iq_num_messages iq1 \<noteq> 0 then rest @ [c] else rest) q1;
            is \<leftarrow> iqs_sub_assign (cq_input_queues_stats q2) (iqs_stats_delta z OpPop msg);
            ms \<leftarrow> mus_sub_assign (cq_memory_usage_stats q2) (mus_stats_delta z OpPop msg);
            Some (Some (to_input_message msg), q2\<lparr>cq_input_queues_stats := is, cq_memory_usage_stats := ms\<rparr>)
          })"

definition cq_peek_canister_input ::
  "'p canister_queues \<Rightarrow> input_queue_type \<Rightarrow> 'p canister_input_message option option" where
  "cq_peek_canister_input q t =
     (case cq_input_schedule t q of
        [] \<Rightarrow> Some None
      | c # _ \<Rightarrow>
          do {
            (iq, oq) \<leftarrow> bt_get (cq_queues q) c;
            msg \<leftarrow> iq_peek iq;
            Some (Some (to_input_message msg))
          })"

definition cq_skip_canister_input :: "'p canister_queues \<Rightarrow> input_queue_type \<Rightarrow> 'p canister_queues option" where
  "cq_skip_canister_input q t =
     (case cq_input_schedule t q of
        [] \<Rightarrow> Some q
      | c # rest \<Rightarrow>
          do {
            (iq, oq) \<leftarrow> bt_get (cq_queues q) c;
            Some (cq_set_input_schedule t (if iq_num_messages iq \<noteq> 0 then rest @ [c] else rest) q)
          })"

definition cq_has_input :: "'p canister_queues \<Rightarrow> bool" where
  "cq_has_input q \<longleftrightarrow>
     \<not> ing_is_empty (cq_ingress_queue q) \<or> iqs_message_count (cq_input_queues_stats q) > 0"

definition cq_has_output :: "'p canister_queues \<Rightarrow> bool" where
  "cq_has_output q \<longleftrightarrow> oqs_message_count (cq_output_queues_stats q) > 0"

fun next_queue :: "next_input_queue \<Rightarrow> next_input_queue" where
  "next_queue NextLocalSubnet = NextIngress"
| "next_queue NextIngress = NextRemoteSubnet"
| "next_queue NextRemoteSubnet = NextLocalSubnet"

definition cq_peek_source ::
  "'p canister_queues \<Rightarrow> next_input_queue \<Rightarrow> 'p canister_input_message option option" where
  "cq_peek_source q n =
     (case n of
        NextIngress \<Rightarrow> Some (map_option InputIngress (cq_peek_ingress q))
      | NextRemoteSubnet \<Rightarrow> cq_peek_canister_input q RemoteSubnet
      | NextLocalSubnet \<Rightarrow> cq_peek_canister_input q LocalSubnet)"

text \<open>The bounded loops of \<open>peek_input\<close> and \<open>pop_input\<close>, with the number of rounds left.\<close>

fun peek_input_loop ::
  "nat \<Rightarrow> 'p canister_queues \<Rightarrow> ('p canister_input_message option \<times> 'p canister_queues) option" where
  "peek_input_loop 0 q = Some (None, q)"
| "peek_input_loop (Suc n) q =
     (case cq_peek_source q (cq_next_input_queue q) of
        None \<Rightarrow> None
      | Some (Some msg) \<Rightarrow> Some (Some msg, q)
      | Some None \<Rightarrow> peek_input_loop n (q\<lparr>cq_next_input_queue := next_queue (cq_next_input_queue q)\<rparr>))"

definition cq_peek_input ::
  "'p canister_queues \<Rightarrow> ('p canister_input_message option \<times> 'p canister_queues) option" where
  "cq_peek_input q = peek_input_loop 3 q"

definition cq_pop_source ::
  "layout \<Rightarrow> 'p::linorder canister_queues \<Rightarrow> next_input_queue
   \<Rightarrow> ('p canister_input_message option \<times> 'p canister_queues) option" where
  "cq_pop_source z q n =
     (case n of
        NextIngress \<Rightarrow> do { (m, q1) \<leftarrow> cq_pop_ingress z q; Some (map_option InputIngress m, q1) }
      | NextRemoteSubnet \<Rightarrow> cq_pop_canister_input z q RemoteSubnet
      | NextLocalSubnet \<Rightarrow> cq_pop_canister_input z q LocalSubnet)"

fun pop_input_loop ::
  "layout \<Rightarrow> nat \<Rightarrow> 'p::linorder canister_queues
   \<Rightarrow> ('p canister_input_message option \<times> 'p canister_queues) option" where
  "pop_input_loop z 0 q = Some (None, q)"
| "pop_input_loop z (Suc n) q =
     (let cur = cq_next_input_queue q; q1 = q\<lparr>cq_next_input_queue := next_queue cur\<rparr> in
      case cq_pop_source z q1 cur of
        None \<Rightarrow> None
      | Some (Some msg, q2) \<Rightarrow> Some (Some msg, q2)
      | Some (None, q2) \<Rightarrow> pop_input_loop z n q2)"

definition cq_pop_input ::
  "layout \<Rightarrow> 'p::linorder canister_queues \<Rightarrow> ('p canister_input_message option \<times> 'p canister_queues) option" where
  "cq_pop_input z q = pop_input_loop z 3 q"

record loop_detector =
  local_queue_skip_count :: nat
  remote_queue_skip_count :: nat
  skipped_ingress_queue :: bool

definition loop_detector_default :: loop_detector where
  "loop_detector_default =
     \<lparr>local_queue_skip_count = 0, remote_queue_skip_count = 0, skipped_ingress_queue = False\<rparr>"

definition detected_loop :: "loop_detector \<Rightarrow> 'p canister_queues \<Rightarrow> bool" where
  "detected_loop d q =
     (let skipped_all_remote = remote_queue_skip_count d \<ge> length (cq_remote_subnet_input_schedule q);
          skipped_all_local = local_queue_skip_count d \<ge> length (cq_local_subnet_input_schedule q);
          ingress_is_empty = (cq_peek_ingress q = None)
      in skipped_all_remote \<and> skipped_all_local \<and> (ingress_is_empty \<or> skipped_ingress_queue d))"

definition cq_skip_input ::
  "'p canister_queues \<Rightarrow> loop_detector \<Rightarrow> ('p canister_queues \<times> loop_detector) option" where
  "cq_skip_input q d =
     (case cq_next_input_queue q of
        NextIngress \<Rightarrow>
          Some (q\<lparr>cq_next_input_queue := NextRemoteSubnet\<rparr>, d\<lparr>skipped_ingress_queue := True\<rparr>)
      | NextRemoteSubnet \<Rightarrow>
          do {
            q1 \<leftarrow> cq_skip_canister_input q RemoteSubnet;
            Some (q1\<lparr>cq_next_input_queue := NextLocalSubnet\<rparr>,
                  d\<lparr>remote_queue_skip_count := remote_queue_skip_count d + 1\<rparr>)
          }
      | NextLocalSubnet \<Rightarrow>
          do {
            q1 \<leftarrow> cq_skip_canister_input q LocalSubnet;
            Some (q1\<lparr>cq_next_input_queue := NextIngress\<rparr>,
                  d\<lparr>local_queue_skip_count := local_queue_skip_count d + 1\<rparr>)
          })"

section \<open>Output\<close>

text \<open>
  Pushing a request: an error leaves the (possibly new) queue pair behind; a failure of the inner
  push after the checks is a panic.
\<close>

definition cq_push_output_request ::
  "layout \<Rightarrow> 'p::linorder canister_queues \<Rightarrow> 'p request \<Rightarrow> time
   \<Rightarrow> ('p canister_queues \<times> (('p state_error \<times> 'p request) + unit)) option" where
  "cq_push_output_request z q msg t =
     (case cq_get_or_insert_queues z q (receiver msg) of
        (q1, iq, oq) \<Rightarrow>
          (case oq_check_has_slot oq of
             Inl e \<Rightarrow> Some (q1, Inl (e, msg))
           | Inr _ \<Rightarrow>
               (case iq_reserve_slot iq of
                  Inl e \<Rightarrow> Some (q1, Inl (e, msg))
                | Inr iq1 \<Rightarrow>
                    (case oq_push_request oq msg (time_add t REQUEST_LIFETIME) of
                       Inl _ \<Rightarrow> None
                     | Inr oq1 \<Rightarrow>
                         (let q2 = cq_put (receiver msg) (iq1, oq1) q1; s = cq_input_queues_stats q2 in
                          Some (q2\<lparr>cq_input_queues_stats := s\<lparr>iqs_reserved_slots := iqs_reserved_slots s + 1\<rparr>,
                                   cq_output_queues_stats :=
                                     oqs_add_assign (cq_output_queues_stats q2) (oqs_stats_delta (Request msg)),
                                   cq_memory_usage_stats :=
                                     mus_add_assign (cq_memory_usage_stats q2) (mus_request_stats_delta z OpPush msg)\<rparr>,
                                Inr ()))))))"

text \<open>Rejecting a request to the management canister; any other receiver panics.\<close>

definition cq_reject_ic00_output_request ::
  "layout \<Rightarrow> 'p::linorder \<Rightarrow> 'p canister_queues \<Rightarrow> 'p request \<Rightarrow> reject_context
   \<Rightarrow> ('p canister_queues \<times> ('p state_error + unit)) option" where
  "cq_reject_ic00_output_request z ic00 q request reject_context =
     (if receiver request \<noteq> ic00 then None
      else
        (case cq_get_or_insert_queues z q (receiver request) of
           (q1, iq, oq) \<Rightarrow>
             (case iq_reserve_slot iq of
                Inl e \<Rightarrow> Some (q1, Inl e)
              | Inr iq1 \<Rightarrow>
                  (let q2 = cq_put (receiver request) (iq1, oq) q1; s = cq_input_queues_stats q2;
                       q3 = q2\<lparr>cq_input_queues_stats := s\<lparr>iqs_reserved_slots := iqs_reserved_slots s + 1\<rparr>,
                               cq_memory_usage_stats :=
                                 mus_add_assign (cq_memory_usage_stats q2) mus_response_slot_delta\<rparr>;
                       response = \<lparr>originator = sender request, respondent = ic00,
                                   originator_reply_callback = sender_reply_callback request,
                                   refund = payment request, response_payload = Reject reject_context\<rparr>
                   in case cq_push_input z q3 (Response response) LocalSubnet of
                        (q4, Inl (e, _)) \<Rightarrow> Some (q4, Inl e)
                      | (q4, Inr _) \<Rightarrow> Some (q4, Inr ())))))"

fun collect_slots ::
  "('p, 'p input_queue \<times> 'p output_queue) btree \<Rightarrow> ('p, nat) btree option" where
  "collect_slots [] = Some []"
| "collect_slots ((c, iq, oq) # es) =
     do {
       i \<leftarrow> iq_available_slots iq;
       j \<leftarrow> oq_available_slots oq;
       rest \<leftarrow> collect_slots es;
       Some ((c, min i j) # rest)
     }"

definition cq_available_output_request_slots :: "'p canister_queues \<Rightarrow> ('p, nat) btree option" where
  "cq_available_output_request_slots q = collect_slots (cq_queues q)"

definition cq_push_output_response ::
  "layout \<Rightarrow> 'p::linorder canister_queues \<Rightarrow> 'p response \<Rightarrow> 'p canister_queues option" where
  "cq_push_output_response z q msg =
     do {
       (iq, oq) \<leftarrow> bt_get (cq_queues q) (originator msg);
       oq1 \<leftarrow> oq_push_response oq msg;
       let q1 = cq_put (originator msg) (iq, oq1) q;
       Some (q1\<lparr>cq_memory_usage_stats :=
                  mus_add_assign (cq_memory_usage_stats q1) (mus_response_stats_delta z OpPush msg),
                cq_output_queues_stats :=
                  oqs_add_assign (cq_output_queues_stats q1) (oqs_stats_delta (Response msg))\<rparr>)
     }"

definition cq_peek_output :: "'p canister_queues \<Rightarrow> 'p \<Rightarrow> 'p request_or_response option option" where
  "cq_peek_output q c =
     (case bt_get (cq_queues q) c of None \<Rightarrow> Some None | Some (_, oq) \<Rightarrow> oq_peek oq)"

text \<open>The statistics of a message that has left an output queue.\<close>

definition cq_output_popped ::
  "layout \<Rightarrow> 'p request_or_response \<Rightarrow> 'p canister_queues \<Rightarrow> 'p canister_queues option" where
  "cq_output_popped z msg q =
     do {
       os \<leftarrow> oqs_sub_assign (cq_output_queues_stats q) (oqs_stats_delta msg);
       ms \<leftarrow> mus_sub_assign (cq_memory_usage_stats q) (mus_stats_delta z OpPop msg);
       Some (q\<lparr>cq_output_queues_stats := os, cq_memory_usage_stats := ms\<rparr>)
     }"

definition cq_induct_message_to_self ::
  "layout \<Rightarrow> 'p::linorder canister_queues \<Rightarrow> 'p \<Rightarrow> ('p canister_queues \<times> (unit + unit)) option" where
  "cq_induct_message_to_self z q own =
     (case cq_peek_output q own of
        None \<Rightarrow> None
      | Some None \<Rightarrow> Some (q, Inl ())
      | Some (Some msg) \<Rightarrow>
          (case cq_push_input z q msg LocalSubnet of
             (q1, Inl _) \<Rightarrow> Some (q1, Inl ())
           | (q1, Inr _) \<Rightarrow>
               do {
                 (iq, oq) \<leftarrow> bt_get (cq_queues q1) own;
                 (m, oq1) \<leftarrow> oq_pop oq;
                 msg1 \<leftarrow> m;
                 q2 \<leftarrow> cq_output_popped z msg1 (cq_put own (iq, oq1) q1);
                 Some (q2, Inr ())
               }))"

text \<open>
  \<open>output_queues_for_each\<close>: the closure \<open>f\<close> has a state of its own, and returns whether the message
  was accepted (\<open>Ok\<close>). The inner loop pops messages while they are accepted.
\<close>

lemma oq_pop_somes:
  "oq_pop q = Some (Some m, q') \<Longrightarrow> length (somes (oq_items q)) = Suc (length (somes (oq_items q')))"
  by (auto simp: oq_pop_def qwr_pop_def Let_def split: list.splits option.splits)

function for_each_message ::
  "layout \<Rightarrow> ('s \<Rightarrow> 'p \<Rightarrow> 'p request_or_response \<Rightarrow> 's \<times> bool) \<Rightarrow> 'p \<Rightarrow> 's \<Rightarrow> 'p output_queue \<Rightarrow> 'p canister_queues
   \<Rightarrow> ('s \<times> 'p output_queue \<times> 'p canister_queues) option" where
  "for_each_message z f c s oq q =
     (case oq_peek oq of
        None \<Rightarrow> None
      | Some None \<Rightarrow> Some (s, oq, q)
      | Some (Some msg) \<Rightarrow>
          (case f s c msg of
             (s1, False) \<Rightarrow> Some (s1, oq, q)
           | (s1, True) \<Rightarrow>
               (case oq_pop oq of
                  Some (Some msg1, oq1) \<Rightarrow>
                    (case cq_output_popped z msg1 q of
                       None \<Rightarrow> None
                     | Some q1 \<Rightarrow> for_each_message z f c s1 oq1 q1)
                | _ \<Rightarrow> None)))"
  by pat_completeness auto
termination
  by (relation "measure (\<lambda>(z, f, c, s, oq, q). length (somes (oq_items oq)))")
    (auto dest!: oq_pop_somes)

declare for_each_message.simps [simp del]

fun for_each_queue ::
  "layout \<Rightarrow> ('s \<Rightarrow> 'p \<Rightarrow> 'p request_or_response \<Rightarrow> 's \<times> bool) \<Rightarrow> 's
   \<Rightarrow> ('p, 'p input_queue \<times> 'p output_queue) btree \<Rightarrow> 'p canister_queues
   \<Rightarrow> ('s \<times> ('p, 'p input_queue \<times> 'p output_queue) btree \<times> 'p canister_queues) option" where
  "for_each_queue z f s [] q = Some (s, [], q)"
| "for_each_queue z f s ((c, iq, oq) # es) q =
     do {
       (s1, oq1, q1) \<leftarrow> for_each_message z f c s oq q;
       (s2, es1, q2) \<leftarrow> for_each_queue z f s1 es q1;
       Some (s2, (c, iq, oq1) # es1, q2)
     }"

definition cq_output_queues_for_each ::
  "layout \<Rightarrow> ('s \<Rightarrow> 'p \<Rightarrow> 'p request_or_response \<Rightarrow> 's \<times> bool) \<Rightarrow> 's \<Rightarrow> 'p canister_queues
   \<Rightarrow> ('s \<times> 'p canister_queues) option" where
  "cq_output_queues_for_each z f s q =
     do {
       (s1, es, q1) \<leftarrow> for_each_queue z f s (cq_queues q) q;
       Some (s1, q1\<lparr>cq_queues := es\<rparr>)
     }"

section \<open>Output iterator\<close>

text \<open>
  The iterator holds mutable references into the queue map; in the model it holds the IDs of the
  receivers, in iteration order, and reads the queues from the state.
\<close>

record 'p queue_id =
  src_canister :: 'p
  dst_canister :: 'p
  session_id :: u64

record 'p output_iterator =
  it_owner :: 'p
  it_queues :: "'p list"
  it_size :: nat

definition it_compute_size :: "'p canister_queues \<Rightarrow> 'p list \<Rightarrow> nat" where
  "it_compute_size q cs =
     sum_list (map (\<lambda>c. case bt_get (cq_queues q) c of Some (_, oq) \<Rightarrow> oq_num_messages oq | None \<Rightarrow> 0) cs)"

definition it_new :: "'p \<Rightarrow> 'p canister_queues \<Rightarrow> 'p output_iterator" where
  "it_new owner q =
     (let cs = map fst (filter (\<lambda>(c, _, oq). oq_num_messages oq > 0) (cq_queues q)) in
      \<lparr>it_owner = owner, it_queues = cs, it_size = it_compute_size q cs\<rparr>)"

definition it_peek ::
  "'p output_iterator \<Rightarrow> 'p canister_queues \<Rightarrow> ('p queue_id \<times> 'p request_or_response) option option" where
  "it_peek it q =
     (case it_queues it of
        [] \<Rightarrow> Some None
      | c # _ \<Rightarrow>
          do {
            (iq, oq) \<leftarrow> bt_get (cq_queues q) c;
            m \<leftarrow> oq_peek oq;
            msg \<leftarrow> m;
            Some (Some (\<lparr>src_canister = it_owner it, dst_canister = c, session_id = 0\<rparr>, msg))
          })"

definition it_pop ::
  "layout \<Rightarrow> 'p::linorder output_iterator \<Rightarrow> 'p canister_queues
   \<Rightarrow> (('p queue_id \<times> 'p request_or_response) option \<times> 'p output_iterator \<times> 'p canister_queues) option" where
  "it_pop z it q =
     (case it_queues it of
        [] \<Rightarrow> Some (None, it, q)
      | c # cs \<Rightarrow>
          do {
            (iq, oq) \<leftarrow> bt_get (cq_queues q) c;
            (m, oq1) \<leftarrow> oq_pop oq;
            msg \<leftarrow> m;
            q1 \<leftarrow> cq_output_popped z msg (cq_put c (iq, oq1) q);
            n \<leftarrow> sub_usize (it_size it) 1;
            Some (Some (\<lparr>src_canister = it_owner it, dst_canister = c, session_id = 0\<rparr>, msg),
                  it\<lparr>it_queues := (if oq_num_messages oq1 > 0 then cs @ [c] else cs), it_size := n\<rparr>, q1)
          })"

definition it_exclude_queue ::
  "'p output_iterator \<Rightarrow> 'p canister_queues \<Rightarrow> (nat \<times> 'p output_iterator) option" where
  "it_exclude_queue it q =
     (case it_queues it of
        [] \<Rightarrow> Some (0, it)
      | c # cs \<Rightarrow>
          do {
            (iq, oq) \<leftarrow> bt_get (cq_queues q) c;
            n \<leftarrow> sub_usize (it_size it) (oq_num_messages oq);
            Some (oq_num_messages oq, it\<lparr>it_queues := cs, it_size := n\<rparr>)
          })"

definition it_is_empty :: "'p output_iterator \<Rightarrow> bool" where
  "it_is_empty it \<longleftrightarrow> it_queues it = []"

section \<open>Queries and memory usage\<close>

definition cq_has_expired_deadlines :: "'p canister_queues \<Rightarrow> time \<Rightarrow> bool" where
  "cq_has_expired_deadlines q current_time \<longleftrightarrow>
     list_ex (\<lambda>(_, _, oq). oq_has_expired_deadlines oq current_time) (cq_queues q)"

definition cq_memory_usage :: "layout \<Rightarrow> 'p canister_queues \<Rightarrow> nat" where
  "cq_memory_usage z q = mus_memory_usage z (cq_memory_usage_stats q)"

definition cq_set_stream_responses_size_bytes :: "nat \<Rightarrow> 'p canister_queues \<Rightarrow> 'p canister_queues" where
  "cq_set_stream_responses_size_bytes size_bytes q =
     q\<lparr>cq_memory_usage_stats :=
         (cq_memory_usage_stats q)\<lparr>mus_transient_stream_responses_size_bytes := size_bytes\<rparr>\<rparr>"

section \<open>Garbage collection\<close>

fun gc_adjust_size ::
  "layout \<Rightarrow> ('p, 'p input_queue \<times> 'p output_queue) btree \<Rightarrow> nat \<Rightarrow> bool \<Rightarrow> (nat \<times> bool) option" where
  "gc_adjust_size z [] size_bytes have_empty_pair = Some (size_bytes, have_empty_pair)"
| "gc_adjust_size z ((c, iq, oq) # es) size_bytes have_empty_pair =
     (if \<not> iq_has_used_slots iq \<and> \<not> oq_has_used_slots oq then
        do {
          n \<leftarrow> sub_usize size_bytes (iq_calculate_size_bytes z iq);
          gc_adjust_size z es n True
        }
      else gc_adjust_size z es size_bytes have_empty_pair)"

definition cq_garbage_collect_impl :: "layout \<Rightarrow> 'p canister_queues \<Rightarrow> 'p canister_queues option" where
  "cq_garbage_collect_impl z q =
     (if cq_queues q = [] then Some q
      else
        do {
          let s = cq_input_queues_stats q;
          (n, have_empty_pair) \<leftarrow> gc_adjust_size z (cq_queues q) (iqs_size_bytes s) False;
          let q1 = q\<lparr>cq_input_queues_stats := s\<lparr>iqs_size_bytes := n\<rparr>\<rparr>;
          Some (if \<not> have_empty_pair then q1
                else q1\<lparr>cq_queues :=
                       bt_retain (\<lambda>_ (iq, oq). iq_has_used_slots iq \<or> oq_has_used_slots oq) (cq_queues q1)\<rparr>)
        })"

definition cq_garbage_collect :: "layout \<Rightarrow> 'p canister_queues \<Rightarrow> 'p canister_queues option" where
  "cq_garbage_collect z q =
     do {
       q1 \<leftarrow> cq_garbage_collect_impl z q;
       Some (if cq_queues q1 = [] \<and> ing_is_empty (cq_ingress_queue q1)
             then q1\<lparr>cq_next_input_queue := NextLocalSubnet\<rparr> else q1)
     }"

section \<open>Timing out requests\<close>

definition MR_SYNTHETIC_REJECT_MESSAGE_MAX_LEN :: nat where
  "MR_SYNTHETIC_REJECT_MESSAGE_MAX_LEN = 255"

definition generate_timeout_response :: "'p request \<Rightarrow> 'p request_or_response" where
  "generate_timeout_response request =
     Response \<lparr>originator = sender request, respondent = receiver request,
               originator_reply_callback = sender_reply_callback request, refund = payment request,
               response_payload =
                 Reject (new_with_message_length_limit SysTransient ''Request timed out.''
                   MR_SYNTHETIC_REJECT_MESSAGE_MAX_LEN)\<rparr>"

text \<open>
  The body of the inner loop, over the requests that the iterator of one output queue yields: the
  input queue of the pair, the rest of the state, and the counter are threaded through. The
  push of the response is unwrapped.
\<close>

fun time_out_replies ::
  "layout \<Rightarrow> 'p \<Rightarrow> ('p \<Rightarrow> bool) \<Rightarrow> 'p \<Rightarrow> 'p request list \<Rightarrow> 'p input_queue \<Rightarrow> 'p canister_queues \<Rightarrow> nat
   \<Rightarrow> ('p input_queue \<times> 'p canister_queues \<times> nat) option" where
  "time_out_replies z own local_canister c [] iq q n = Some (iq, q, n)"
| "time_out_replies z own local_canister c (request # rs) iq q n =
     do {
       let response = generate_timeout_response request;
       ms \<leftarrow> mus_sub_assign (cq_memory_usage_stats q) (mus_stats_delta z OpPop (Request request));
       os \<leftarrow> oqs_sub_assign (cq_output_queues_stats q) (oqs_stats_delta (Request request));
       iq1 \<leftarrow> ok_of (iq_push iq response);
       let q1 = q\<lparr>cq_output_queues_stats := os,
                  cq_input_queues_stats :=
                    iqs_add_assign (cq_input_queues_stats q) (iqs_stats_delta z OpPush response),
                  cq_memory_usage_stats := mus_add_assign ms (mus_stats_delta z OpPush response)\<rparr>;
       let q2 = (if iq_num_messages iq1 = 1
                 then cq_schedule_push (if c = own \<or> local_canister c then LocalSubnet else RemoteSubnet) c q1
                 else q1);
       time_out_replies z own local_canister c rs iq1 q2 (n + 1)
     }"

fun time_out_queues ::
  "layout \<Rightarrow> time \<Rightarrow> 'p \<Rightarrow> ('p \<Rightarrow> bool) \<Rightarrow> ('p, 'p input_queue \<times> 'p output_queue) btree
   \<Rightarrow> 'p canister_queues \<Rightarrow> nat \<Rightarrow> (('p, 'p input_queue \<times> 'p output_queue) btree \<times> 'p canister_queues \<times> nat) option"
where
  "time_out_queues z t own local_canister [] q n = Some ([], q, n)"
| "time_out_queues z t own local_canister ((c, iq, oq) # es) q n =
     do {
       (rs, oq1) \<leftarrow> oq_time_out_requests oq t;
       (iq1, q1, n1) \<leftarrow> time_out_replies z own local_canister c rs iq q n;
       (es1, q2, n2) \<leftarrow> time_out_queues z t own local_canister es q1 n1;
       Some ((c, iq1, oq1) # es1, q2, n2)
     }"

definition cq_time_out_requests ::
  "layout \<Rightarrow> 'p canister_queues \<Rightarrow> time \<Rightarrow> 'p \<Rightarrow> ('p \<Rightarrow> bool) \<Rightarrow> ('p canister_queues \<times> nat) option" where
  "cq_time_out_requests z q current_time own local_canister =
     do {
       (es, q1, n) \<leftarrow> time_out_queues z current_time own local_canister (cq_queues q) q 0;
       Some (q1\<lparr>cq_queues := es\<rparr>, n)
     }"

section \<open>Protobuf encoding\<close>

record pb_queue_entry =
  pbqe_canister_id :: "pb_canister_id option"
  pbqe_queue :: "pb_input_output_queue option"

record pb_canister_queues =
  pbcq_ingress_queue :: "pb_ingress list"
  pbcq_input_queues :: "pb_queue_entry list"
  pbcq_input_schedule :: "pb_canister_id list"
  pbcq_output_queues :: "pb_queue_entry list"
  pbcq_next_input_queue :: int
  pbcq_local_subnet_input_schedule :: "pb_canister_id list"
  pbcq_remote_subnet_input_schedule :: "pb_canister_id list"

definition cq_to_pb :: "('p \<Rightarrow> u8 list) \<Rightarrow> 'p canister_queues \<Rightarrow> pb_canister_queues" where
  "cq_to_pb enc item =
     \<lparr>pbcq_ingress_queue = ing_to_pb enc (cq_ingress_queue item),
      pbcq_input_queues =
        map (\<lambda>(c, iq, _). \<lparr>pbqe_canister_id = Some (canister_id_to_pb enc c), pbqe_queue = Some (iq_to_pb enc iq)\<rparr>)
          (cq_queues item),
      pbcq_input_schedule = [],
      pbcq_output_queues =
        map (\<lambda>(c, _, oq). \<lparr>pbqe_canister_id = Some (canister_id_to_pb enc c), pbqe_queue = Some (oq_to_pb enc oq)\<rparr>)
          (cq_queues item),
      pbcq_next_input_queue =
        (case cq_next_input_queue item of NextLocalSubnet \<Rightarrow> 0 | NextIngress \<Rightarrow> 2 | NextRemoteSubnet \<Rightarrow> 3),
      pbcq_local_subnet_input_schedule = map (canister_id_to_pb enc) (cq_local_subnet_input_schedule item),
      pbcq_remote_subnet_input_schedule = map (canister_id_to_pb enc) (cq_remote_subnet_input_schedule item)\<rparr>"

fun decode_queue_pairs ::
  "(u8 list \<Rightarrow> 'p::linorder option) \<Rightarrow> (pb_queue_entry \<times> pb_queue_entry) list
   \<Rightarrow> ('p, 'p input_queue \<times> 'p output_queue) btree
   \<Rightarrow> (proxy_decode_error + ('p, 'p input_queue \<times> 'p output_queue) btree) option" where
  "decode_queue_pairs dec [] m = Some (Inr m)"
| "decode_queue_pairs dec ((ie, oe) # es) m =
     (if pbqe_canister_id ie \<noteq> pbqe_canister_id oe
      then Some (Inl (Other ''Mismatched input and output queue entries''))
      else
        try_bind (try_from_option_field (canister_id_try_from dec) (pbqe_canister_id ie)
                    ''CanisterQueues::input_queues::K'') (\<lambda>c.
        try_bind (try_from_option_field (iq_try_from dec) (pbqe_queue ie)
                    ''CanisterQueues::input_queues::V'') (\<lambda>iq.
        try_bind (try_from_option_field (oq_try_from dec) (pbqe_queue oe)
                    ''CanisterQueues::output_queues::V'') (\<lambda>oq.
        decode_queue_pairs dec es (bt_insert c (iq, oq) m)))))"

text \<open>An enum value that is out of range decodes as the default, \<open>Unspecified\<close>.\<close>

definition next_input_queue_from :: "int \<Rightarrow> next_input_queue" where
  "next_input_queue_from n =
     (if n = 2 then NextIngress else if n = 3 then NextRemoteSubnet else NextLocalSubnet)"

definition cq_try_from ::
  "layout \<Rightarrow> (u8 list \<Rightarrow> 'p::linorder option) \<Rightarrow> pb_canister_queues
   \<Rightarrow> (proxy_decode_error + 'p canister_queues) option" where
  "cq_try_from z dec item =
     (if length (pbcq_input_queues item) \<noteq> length (pbcq_output_queues item)
      then Some (Inl (Other ''CanisterQueues: Mismatched input and output queue lengths''))
      else
        try_bind (decode_queue_pairs dec (zip (pbcq_input_queues item) (pbcq_output_queues item)) [])
          (\<lambda>queues.
        try_bind (try_map (canister_id_try_from dec)
                    (pbcq_input_schedule item @ pbcq_local_subnet_input_schedule item)) (\<lambda>locals.
        try_bind (try_map (canister_id_try_from dec) (pbcq_remote_subnet_input_schedule item)) (\<lambda>remotes.
        try_bind (ing_try_from z dec (pbcq_ingress_queue item)) (\<lambda>ingress.
        Some (Inr
          \<lparr>cq_ingress_queue = ingress, cq_queues = queues,
           cq_local_subnet_input_schedule = locals, cq_remote_subnet_input_schedule = remotes,
           cq_input_queues_stats = calculate_input_queues_stats z queues,
           cq_output_queues_stats = calculate_output_queues_stats queues,
           cq_memory_usage_stats = calculate_memory_usage_stats z queues,
           cq_next_input_queue = next_input_queue_from (pbcq_next_input_queue item)\<rparr>))))))"

end
