(* ===== verification/CanisterQueues_Correct.thy ===== *)
theory CanisterQueues_Correct
  imports CanisterQueues
begin

text \<open>
  Correctness of the queues of a canister: the running statistics agree with the queue contents,
  every sender with pending input is scheduled exactly once, no operation panics, requests reserve
  the memory and the slots for their responses, and encoding loses nothing.
\<close>

declare of_nat_unat [simp del]

section \<open>Statistics as sums over messages and reservations\<close>

text \<open>
  Each running statistic is a sum over the queue pairs. A pair contributes a constant, an amount per
  message of its input queue, an amount per message of its output queue, and an amount per
  reserved slot of either.
\<close>

datatype stat =
    IqMessages | IqResponses | IqReserved | IqSize | IqCycles
  | OqMessages | OqCycles | ResponseBytes | Reserved | OversizedBytes

definition iq_messages :: "'p input_queue \<Rightarrow> 'p request_or_response list" where
  "iq_messages q = queue (iq_queue q)"

fun pair_base :: "layout \<Rightarrow> stat \<Rightarrow> nat" where
  "pair_base z IqSize = size_of_InputQueue z"
| "pair_base z _ = 0"

fun per_input :: "layout \<Rightarrow> stat \<Rightarrow> 'p request_or_response \<Rightarrow> nat" where
  "per_input z IqMessages m = 1"
| "per_input z IqResponses m = response_count m"
| "per_input z IqSize m = rr_count_bytes z m"
| "per_input z IqCycles m = unat (rr_cycles m)"
| "per_input z ResponseBytes m = response_size_bytes z m"
| "per_input z OversizedBytes m = request_overhead_bytes z m"
| "per_input z _ m = 0"

fun per_output :: "layout \<Rightarrow> stat \<Rightarrow> 'p request_or_response \<Rightarrow> nat" where
  "per_output z OqMessages m = 1"
| "per_output z OqCycles m = unat (rr_cycles m)"
| "per_output z ResponseBytes m = response_size_bytes z m"
| "per_output z OversizedBytes m = request_overhead_bytes z m"
| "per_output z _ m = 0"

fun per_input_slot :: "stat \<Rightarrow> nat" where
  "per_input_slot IqReserved = 1"
| "per_input_slot Reserved = 1"
| "per_input_slot _ = 0"

fun per_output_slot :: "stat \<Rightarrow> nat" where
  "per_output_slot Reserved = 1"
| "per_output_slot _ = 0"

definition pair_stat :: "layout \<Rightarrow> stat \<Rightarrow> 'p input_queue \<times> 'p output_queue \<Rightarrow> nat" where
  "pair_stat z s v =
     pair_base z s + sum_list (map (per_input z s) (iq_messages (fst v)))
     + sum_list (map (per_output z s) (oq_messages (snd v)))
     + per_input_slot s * iq_reserved_slots (fst v) + per_output_slot s * oq_reserved_slots (snd v)"

fun running_stat :: "stat \<Rightarrow> input_queues_stats \<Rightarrow> output_queues_stats \<Rightarrow> memory_usage_stats \<Rightarrow> int" where
  "running_stat IqMessages is os ms = int (iqs_message_count is)"
| "running_stat IqResponses is os ms = int (iqs_response_count is)"
| "running_stat IqReserved is os ms = iqs_reserved_slots is"
| "running_stat IqSize is os ms = int (iqs_size_bytes is)"
| "running_stat IqCycles is os ms = int (unat (iqs_cycles is))"
| "running_stat OqMessages is os ms = int (oqs_message_count os)"
| "running_stat OqCycles is os ms = int (unat (oqs_cycles os))"
| "running_stat ResponseBytes is os ms = int (mus_responses_size_bytes ms)"
| "running_stat Reserved is os ms = mus_reserved_slots ms"
| "running_stat OversizedBytes is os ms = int (mus_oversized_requests_extra_bytes ms)"

abbreviation cq_stat :: "stat \<Rightarrow> 'p canister_queues \<Rightarrow> int" where
  "cq_stat s q \<equiv> running_stat s (cq_input_queues_stats q) (cq_output_queues_stats q) (cq_memory_usage_stats q)"

definition stats_exact :: "layout \<Rightarrow> 'p::linorder canister_queues \<Rightarrow> bool" where
  "stats_exact z q \<longleftrightarrow> (\<forall>s. cq_stat s q = int (bt.total (pair_stat z s) (cq_queues q)))"

subsection \<open>Statistics from scratch are these sums\<close>

lemma oq_calculate_stat_sum_messages: "oq_calculate_stat_sum f q = sum_list (map f (oq_messages q))"
proof -
  have "sum_list (map (\<lambda>item. case item of Some m \<Rightarrow> f m | None \<Rightarrow> 0) xs) = sum_list (map f (somes xs))" for xs
    by (induction xs rule: somes.induct) auto
  then show ?thesis by (simp add: oq_calculate_stat_sum_def qwr_calculate_stat_sum_def oq_messages_def)
qed

lemma per_message_fun:
  "per_input z IqMessages = (\<lambda>m. 1)" "per_input z IqResponses = response_count"
  "per_input z IqReserved = (\<lambda>m. 0)" "per_input z IqSize = rr_count_bytes z"
  "per_input z IqCycles = (\<lambda>m. unat (rr_cycles m))" "per_input z OqMessages = (\<lambda>m. 0)"
  "per_input z OqCycles = (\<lambda>m. 0)" "per_input z ResponseBytes = response_size_bytes z"
  "per_input z Reserved = (\<lambda>m. 0)" "per_input z OversizedBytes = request_overhead_bytes z"
  "per_output z IqMessages = (\<lambda>m. 0)" "per_output z IqResponses = (\<lambda>m. 0)"
  "per_output z IqReserved = (\<lambda>m. 0)" "per_output z IqSize = (\<lambda>m. 0)"
  "per_output z IqCycles = (\<lambda>m. 0)" "per_output z OqMessages = (\<lambda>m. 1)"
  "per_output z OqCycles = (\<lambda>m. unat (rr_cycles m))" "per_output z ResponseBytes = response_size_bytes z"
  "per_output z Reserved = (\<lambda>m. 0)" "per_output z OversizedBytes = request_overhead_bytes z"
  by (simp_all add: fun_eq_iff)

lemma pair_stat_simps:
  "pair_stat z IqMessages v = length (iq_messages (fst v))"
  "pair_stat z IqResponses v = sum_list (map response_count (iq_messages (fst v)))"
  "pair_stat z IqReserved v = iq_reserved_slots (fst v)"
  "pair_stat z IqSize v = size_of_InputQueue z + sum_list (map (rr_count_bytes z) (iq_messages (fst v)))"
  "pair_stat z IqCycles v = sum_list (map (\<lambda>m. unat (rr_cycles m)) (iq_messages (fst v)))"
  "pair_stat z OqMessages v = length (oq_messages (snd v))"
  "pair_stat z OqCycles v = sum_list (map (\<lambda>m. unat (rr_cycles m)) (oq_messages (snd v)))"
  "pair_stat z ResponseBytes v =
    sum_list (map (response_size_bytes z) (iq_messages (fst v))) + sum_list (map (response_size_bytes z) (oq_messages (snd v)))"
  "pair_stat z Reserved v = iq_reserved_slots (fst v) + oq_reserved_slots (snd v)"
  "pair_stat z OversizedBytes v =
    sum_list (map (request_overhead_bytes z) (iq_messages (fst v))) +
    sum_list (map (request_overhead_bytes z) (oq_messages (snd v)))"
  by (simp_all add: pair_stat_def per_message_fun sum_list_triv)

definition pair_ok :: "'p input_queue \<times> 'p output_queue \<Rightarrow> bool" where
  "pair_ok v \<longleftrightarrow>
     iq_inv (fst v) \<and> oq_inv (snd v) \<and>
     capacity (iq_queue (fst v)) = DEFAULT_QUEUE_CAPACITY \<and> capacity (oq_queue (snd v)) = DEFAULT_QUEUE_CAPACITY"

lemma calculate_iqs:
  "iqs_message_count (calculate_input_queues_stats z m) = sum_list (map (\<lambda>(c, v). pair_stat z IqMessages v) m)"
  "iqs_response_count (calculate_input_queues_stats z m) = sum_list (map (\<lambda>(c, v). pair_stat z IqResponses v) m)"
  "iqs_reserved_slots (calculate_input_queues_stats z m) = int (sum_list (map (\<lambda>(c, v). pair_stat z IqReserved v) m))"
  "iqs_size_bytes (calculate_input_queues_stats z m) = sum_list (map (\<lambda>(c, v). pair_stat z IqSize v) m)"
  "iqs_cycles (calculate_input_queues_stats z m) = foldl (\<lambda>a (c, v). cycles_add a (iq_cycles_in_queue (fst v))) cycles_zero m"
  unfolding calculate_input_queues_stats_def
  by (induction m rule: rev_induct)
    (auto simp: iqs_default_def pair_stat_simps iq_num_messages_def iq_messages_def iq_calculate_stat_sum_def
      qwr_calculate_stat_sum_def iq_calculate_size_bytes_def)

lemma calculate_oqs:
  assumes "\<forall>(c, v) \<in> set m. oq_inv (snd v)"
  shows "oqs_message_count (calculate_output_queues_stats m) = sum_list (map (\<lambda>(c, v). pair_stat z OqMessages v) m)"
    "oqs_cycles (calculate_output_queues_stats m) = foldl (\<lambda>a (c, v). cycles_add a (oq_cycles_in_queue (snd v))) cycles_zero m"
  using assms unfolding calculate_output_queues_stats_def
  by (induction m rule: rev_induct)
    (auto simp: oqs_default_def pair_stat_simps oq_messages_def oq_inv_num)

lemma calculate_mus:
  "mus_responses_size_bytes (calculate_memory_usage_stats z m) = sum_list (map (\<lambda>(c, v). pair_stat z ResponseBytes v) m)"
  "mus_reserved_slots (calculate_memory_usage_stats z m) = int (sum_list (map (\<lambda>(c, v). pair_stat z Reserved v) m))"
  "mus_oversized_requests_extra_bytes (calculate_memory_usage_stats z m) =
    sum_list (map (\<lambda>(c, v). pair_stat z OversizedBytes v) m)"
  unfolding calculate_memory_usage_stats_def
  by (induction m rule: rev_induct)
    (auto simp: mus_default_def pair_stat_simps iq_messages_def iq_calculate_stat_sum_def
      qwr_calculate_stat_sum_def oq_calculate_stat_sum_messages)

lemma cycles_add_foldl:
  "cycles_add acc (foldl (\<lambda>t m. cycles_add t (rr_cycles m)) cycles_zero xs) = foldl cycles_add acc (map rr_cycles xs)"
  by (rule word_eq_unatI)
    (simp add: unat_cycles_add unat_foldl_cycles_add foldl_map [symmetric] cycles_zero_def min_def)

lemma foldl_nested_cycles:
  "foldl (\<lambda>a (c, v). cycles_add a (foldl (\<lambda>t m. cycles_add t (rr_cycles m)) cycles_zero (ms v))) acc m =
    foldl cycles_add acc (concat (map (\<lambda>(c, v). map rr_cycles (ms v)) m))"
  by (induction m arbitrary: acc) (auto simp: cycles_add_foldl)

lemma unat_calculate_cycles:
  "unat (iqs_cycles (calculate_input_queues_stats z m)) = min (bt.total (pair_stat z IqCycles) m) cycles_max"
  "\<forall>(c, v) \<in> set m. oq_inv (snd v) \<Longrightarrow>
    unat (oqs_cycles (calculate_output_queues_stats m)) = min (bt.total (pair_stat z OqCycles) m) cycles_max"
proof -
  have flat: "sum_list (map unat (concat (map (\<lambda>(c, v). map rr_cycles (ms v)) m))) =
      sum_list (map (\<lambda>e. sum_list (map (\<lambda>x. unat (rr_cycles x)) (ms (snd e)))) m)" for ms
    by (induction m) (auto simp: comp_def)
  show "unat (iqs_cycles (calculate_input_queues_stats z m)) = min (bt.total (pair_stat z IqCycles) m) cycles_max"
    unfolding calculate_iqs iq_cycles_in_queue_def foldl_nested_cycles [of "\<lambda>v. queue (iq_queue (fst v))"]
    by (simp add: unat_foldl_cycles_add cycles_zero_def bt.total_def pair_stat_simps iq_messages_def flat)
  assume "\<forall>(c, v) \<in> set m. oq_inv (snd v)"
  show "unat (oqs_cycles (calculate_output_queues_stats m)) = min (bt.total (pair_stat z OqCycles) m) cycles_max"
    unfolding calculate_oqs(2) [OF \<open>\<forall>(c, v) \<in> set m. oq_inv (snd v)\<close>] oq_cycles_in_queue_def
      foldl_nested_cycles [of "\<lambda>v. somes (oq_items (snd v))"]
    by (simp add: unat_foldl_cycles_add cycles_zero_def bt.total_def pair_stat_simps oq_messages_def flat)
qed

text \<open>Exact running statistics pass the check of the debug assertions.\<close>

lemma stats_exact_imp_ok:
  assumes "stats_exact z q" and "\<forall>(c, v) \<in> set (cq_queues q). oq_inv (snd v)"
  shows "stats_ok z q"
proof -
  let ?m = "cq_queues q"
  have total: "bt.total (pair_stat z s) ?m = sum_list (map (\<lambda>(c, v). pair_stat z s v) ?m)" for s
    by (simp add: bt.total_def case_prod_unfold)
  have eq: "cq_stat s q = int (sum_list (map (\<lambda>(c, v). pair_stat z s v) ?m))" for s
    using assms(1) by (simp add: stats_exact_def total)
  have "iqs_cycles (cq_input_queues_stats q) = iqs_cycles (calculate_input_queues_stats z ?m)"
    using eq [of IqCycles] unat_cycles_le_max [of "iqs_cycles (cq_input_queues_stats q)"]
    by (intro word_eq_unatI) (simp add: unat_calculate_cycles(1) total)
  moreover have "oqs_cycles (cq_output_queues_stats q) = oqs_cycles (calculate_output_queues_stats ?m)"
    using eq [of OqCycles] unat_cycles_le_max [of "oqs_cycles (cq_output_queues_stats q)"]
    by (intro word_eq_unatI) (simp add: unat_calculate_cycles(2) [OF assms(2), where z = z] total)
  ultimately show ?thesis
    unfolding stats_ok_def mus_eq_def
    using eq [of IqMessages] eq [of IqResponses] eq [of IqReserved] eq [of IqSize] eq [of OqMessages]
      eq [of ResponseBytes] eq [of Reserved] eq [of OversizedBytes]
    by (simp add: calculate_iqs(1-4) calculate_oqs(1) [OF assms(2), where z = z] calculate_mus
        input_queues_stats.equality output_queues_stats.equality)
qed

section \<open>The invariant\<close>

text \<open>
  Every sender with a non-empty input queue is in exactly one of the two schedules, once, and no
  other canister is scheduled.
\<close>

definition has_pending_input :: "'p::linorder canister_queues \<Rightarrow> 'p \<Rightarrow> bool" where
  "has_pending_input q c \<longleftrightarrow>
     (case bt_get (cq_queues q) c of None \<Rightarrow> False | Some v \<Rightarrow> iq_messages (fst v) \<noteq> [])"

lemma has_pending_input_iff:
  "has_pending_input q c \<longleftrightarrow> (\<exists>v. bt_get (cq_queues q) c = Some v \<and> iq_messages (fst v) \<noteq> [])"
  by (cases "bt_get (cq_queues q) c") (simp_all add: has_pending_input_def)

abbreviation cq_schedule :: "'p canister_queues \<Rightarrow> 'p list" where
  "cq_schedule q \<equiv> cq_local_subnet_input_schedule q @ cq_remote_subnet_input_schedule q"

definition schedule_inv :: "'p::linorder canister_queues \<Rightarrow> bool" where
  "schedule_inv q \<longleftrightarrow> distinct (cq_schedule q) \<and> set (cq_schedule q) = {c. has_pending_input q c}"

definition cq_inv :: "layout \<Rightarrow> 'p::linorder canister_queues \<Rightarrow> bool" where
  "cq_inv z q \<longleftrightarrow>
     bt_wf (cq_queues q) \<and> (\<forall>c v. bt_get (cq_queues q) c = Some v \<longrightarrow> pair_ok v) \<and>
     ing_inv z (cq_ingress_queue q) \<and> schedule_inv q \<and> stats_exact z q"

lemma cq_inv_stats_ok:
  assumes "cq_inv z q"
  shows "stats_ok z q"
proof (rule stats_exact_imp_ok)
  show "stats_exact z q" using assms by (simp add: cq_inv_def)
  show "\<forall>(c, v) \<in> set (cq_queues q). oq_inv (snd v)"
    using assms bt.get_iff_entry [of "cq_queues q"] by (auto simp: cq_inv_def pair_ok_def)
qed

lemma stats_exact_update:
  assumes "stats_exact z q" and "bt_wf (cq_queues q)" and "bt_get (cq_queues q) c = Some v"
    and "cq_queues q' = bt_insert c v' (cq_queues q)"
    and "\<And>s. cq_stat s q' + int (pair_stat z s v) = cq_stat s q + int (pair_stat z s v')"
  shows "stats_exact z q'"
  unfolding stats_exact_def
proof
  fix s
  have "bt.total (pair_stat z s) (cq_queues q') + pair_stat z s v =
      bt.total (pair_stat z s) (cq_queues q) + pair_stat z s v'"
    unfolding assms(4) by (rule bt.total_ins_old [OF assms(2,3)])
  moreover have "cq_stat s q = int (bt.total (pair_stat z s) (cq_queues q))"
    using assms(1) by (simp add: stats_exact_def)
  ultimately show "cq_stat s q' = int (bt.total (pair_stat z s) (cq_queues q'))"
    using assms(5) [of s] by linarith
qed

lemma cq_inv_update:
  assumes "cq_inv z q" and "bt_get (cq_queues q) c = Some v"
    and "cq_queues q' = bt_insert c v' (cq_queues q)" and "pair_ok v'"
    and "cq_ingress_queue q' = cq_ingress_queue q" and "schedule_inv q'"
    and "\<And>s. cq_stat s q' + int (pair_stat z s v) = cq_stat s q + int (pair_stat z s v')"
  shows "cq_inv z q'"
proof -
  have wf: "bt_wf (cq_queues q)" using assms(1) by (simp add: cq_inv_def)
  have "stats_exact z q'"
    using assms(1) by (intro stats_exact_update [OF _ wf assms(2,3,7)]) (simp add: cq_inv_def)
  moreover have "\<forall>c' w. bt_get (cq_queues q') c' = Some w \<longrightarrow> pair_ok w"
    using assms(1,4) by (auto simp: assms(3) bt.get_ins [OF wf] cq_inv_def)
  ultimately show ?thesis
    using assms(1,5,6) bt.wf_ins [OF wf] by (simp add: cq_inv_def assms(3))
qed

text \<open>How a change of one pair changes the set of senders with pending input.\<close>

lemma has_pending_input_put:
  assumes "bt_wf (cq_queues q)" and "cq_queues q' = bt_insert c v (cq_queues q)"
  shows "has_pending_input q' c' = (if c' = c then iq_messages (fst v) \<noteq> [] else has_pending_input q c')"
  by (simp add: has_pending_input_def assms(2) bt.get_ins [OF assms(1)])

lemma schedule_inv_same:
  assumes "schedule_inv q" and "bt_wf (cq_queues q)" and "bt_get (cq_queues q) c = Some v"
    and "cq_queues q' = bt_insert c v' (cq_queues q)"
    and "(iq_messages (fst v') = []) = (iq_messages (fst v) = [])"
    and "cq_local_subnet_input_schedule q' = cq_local_subnet_input_schedule q"
    and "cq_remote_subnet_input_schedule q' = cq_remote_subnet_input_schedule q"
  shows "schedule_inv q'"
proof -
  have "has_pending_input q' c' = has_pending_input q c'" for c'
    using assms(3,5) has_pending_input_put [OF assms(2,4)] by (simp add: has_pending_input_def)
  then show ?thesis using assms(1,6,7) by (simp add: schedule_inv_def)
qed

subsection \<open>Pairs\<close>

lemma iq_messages_new [simp]: "iq_messages (iq_new n) = []"
  by (simp add: iq_messages_def iq_new_def qwr_new_def)

lemma oq_messages_new [simp]: "oq_messages (oq_new n) = []"
  by (simp add: oq_messages_def oq_new_def qwr_new_def)

lemma reserved_slots_new [simp]: "iq_reserved_slots (iq_new n) = 0" "oq_reserved_slots (oq_new n) = 0"
  by (simp_all add: iq_reserved_slots_def iq_new_def oq_reserved_slots_def oq_new_def qwr_reserved_slots_def qwr_new_def)

lemma pair_ok_new: "pair_ok (iq_new DEFAULT_QUEUE_CAPACITY, oq_new DEFAULT_QUEUE_CAPACITY)"
  by (simp add: pair_ok_def oq_inv_new) (simp add: iq_inv_def iq_new_def oq_new_def qwr_new_def qwr_inv_def)

lemma pair_stat_new:
  "pair_stat z s (iq_new n, oq_new n) = pair_base z s"
  by (simp add: pair_stat_def)

lemma iq_size_new: "iq_calculate_size_bytes z (iq_new n) = size_of_InputQueue z"
  by (simp add: iq_calculate_size_bytes_def iq_new_def qwr_new_def qwr_calculate_stat_sum_def)

lemma cq_get_or_insert:
  assumes "cq_inv z q" and "cq_get_or_insert_queues z q c = (q1, iq, oq)"
  shows "cq_inv z q1" and "bt_get (cq_queues q1) c = Some (iq, oq)"
    and "c' \<noteq> c \<Longrightarrow> bt_get (cq_queues q1) c' = bt_get (cq_queues q) c'"
    and "cq_output_queues_stats q1 = cq_output_queues_stats q"
    and "cq_memory_usage_stats q1 = cq_memory_usage_stats q"
    and "cq_schedule q1 = cq_schedule q" and "iqs_cycles (cq_input_queues_stats q1) = iqs_cycles (cq_input_queues_stats q)"
    and "bt_get (cq_queues q) c = Some (iq, oq) \<or> bt_get (cq_queues q) c = None \<and> iq = iq_new DEFAULT_QUEUE_CAPACITY \<and>
      oq = oq_new DEFAULT_QUEUE_CAPACITY"
proof -
  have wf: "bt_wf (cq_queues q)" using assms(1) by (simp add: cq_inv_def)
  have "cq_inv z q1 \<and> bt_get (cq_queues q1) c = Some (iq, oq) \<and>
    (c' \<noteq> c \<longrightarrow> bt_get (cq_queues q1) c' = bt_get (cq_queues q) c') \<and>
    cq_output_queues_stats q1 = cq_output_queues_stats q \<and> cq_memory_usage_stats q1 = cq_memory_usage_stats q \<and>
    cq_schedule q1 = cq_schedule q \<and> iqs_cycles (cq_input_queues_stats q1) = iqs_cycles (cq_input_queues_stats q) \<and>
    (bt_get (cq_queues q) c = Some (iq, oq) \<or> bt_get (cq_queues q) c = None \<and> iq = iq_new DEFAULT_QUEUE_CAPACITY \<and>
      oq = oq_new DEFAULT_QUEUE_CAPACITY)"
  proof (cases "bt_get (cq_queues q) c")
    case (Some v)
    with assms show ?thesis by (auto simp: cq_get_or_insert_queues_def)
  next
    case None
    let ?v = "(iq_new DEFAULT_QUEUE_CAPACITY, oq_new DEFAULT_QUEUE_CAPACITY)"
    have q1: "q1 = q\<lparr>cq_queues := bt_insert c ?v (cq_queues q),
        cq_input_queues_stats := (cq_input_queues_stats q)
          \<lparr>iqs_size_bytes := iqs_size_bytes (cq_input_queues_stats q) + size_of_InputQueue z\<rparr>\<rparr>"
      and v: "(iq, oq) = ?v"
      using assms(2) None by (auto simp: cq_get_or_insert_queues_def Let_def iq_size_new)
    have "cq_stat s q1 = cq_stat s q + int (pair_base z s)" for s
      by (cases s) (simp_all add: q1)
    then have "stats_exact z q1"
      using assms(1) bt.total_ins_new [OF wf None, where v = ?v]
      by (simp add: stats_exact_def cq_inv_def q1 pair_stat_new)
    moreover have "has_pending_input q1 c' = has_pending_input q c'" for c'
      using None has_pending_input_put [OF wf, of q1 c ?v c'] by (simp add: q1) (simp add: has_pending_input_def)
    ultimately have "cq_inv z q1"
      using assms(1) bt.wf_ins [OF wf] pair_ok_new
      by (auto simp: cq_inv_def schedule_inv_def q1 bt.get_ins [OF wf])
    with v None show ?thesis by (auto simp: q1 bt.get_ins [OF wf])
  qed
  then show "cq_inv z q1" "bt_get (cq_queues q1) c = Some (iq, oq)"
    "c' \<noteq> c \<Longrightarrow> bt_get (cq_queues q1) c' = bt_get (cq_queues q) c'"
    "cq_output_queues_stats q1 = cq_output_queues_stats q" "cq_memory_usage_stats q1 = cq_memory_usage_stats q"
    "cq_schedule q1 = cq_schedule q" "iqs_cycles (cq_input_queues_stats q1) = iqs_cycles (cq_input_queues_stats q)"
    "bt_get (cq_queues q) c = Some (iq, oq) \<or> bt_get (cq_queues q) c = None \<and> iq = iq_new DEFAULT_QUEUE_CAPACITY \<and>
      oq = oq_new DEFAULT_QUEUE_CAPACITY" by blast+
qed

section \<open>Pushing and popping on one pair\<close>

lemma iq_push_ok:
  assumes "iq_push iq msg = Inr iq'"
  shows "iq_messages iq' = iq_messages iq @ [msg]"
    and "capacity (iq_queue iq') = capacity (iq_queue iq)"
    and "iq_reserved_slots iq' + (case msg of Request _ \<Rightarrow> 0 | Response _ \<Rightarrow> 1) = iq_reserved_slots iq"
  using assms
  by (auto simp: iq_push_def qwr_push_def qwr_push_into_reserved_slot_def qwr_check_has_slot_def iq_messages_def
      iq_reserved_slots_def qwr_reserved_slots_def split: request_or_response.splits if_splits sum.splits)

lemma iq_push_inv:
  assumes "iq_inv iq" and "iq_push iq msg = Inr iq'"
  shows "iq_inv iq'"
proof (cases msg)
  case (Request m)
  then show ?thesis using assms iq.push_ok [of iq m iq'] by simp
next
  case (Response m)
  then show ?thesis using assms iq.fill_ok [of iq m iq'] by simp
qed

lemma iq_push_iff:
  "(\<exists>iq'. iq_push iq msg = Inr iq') \<longleftrightarrow>
    (case msg of Request _ \<Rightarrow> length (iq_messages iq) + iq_reserved_slots iq < capacity (iq_queue iq)
     | Response _ \<Rightarrow> 0 < iq_reserved_slots iq)"
  by (auto simp: iq_push_def qwr_push_def qwr_push_into_reserved_slot_def qwr_check_has_slot_def iq_messages_def
      iq_reserved_slots_def qwr_reserved_slots_def split: request_or_response.splits)

lemma iq_num_messages_messages: "iq_num_messages iq = length (iq_messages iq)"
  by (simp add: iq_num_messages_def iq_messages_def)

lemma iq_pop_nonempty:
  assumes "iq_messages iq = m # ms"
  shows "iq_pop iq = (Some m, iq\<lparr>iq_queue := (iq_queue iq)\<lparr>queue := ms\<rparr>\<rparr>)"
  using assms by (simp add: iq_pop_def qwr_pop_def iq_messages_def)

lemma oq_reserved_slots_upd [simp]:
  "oq_reserved_slots (q\<lparr>oq_queue := (oq_queue q)\<lparr>num_slots_reserved := n\<rparr>\<rparr>) = n"
  by (simp add: oq_reserved_slots_def qwr_reserved_slots_def)

lemma oq_reserve_pair:
  assumes "oq_reserve_slot oq = Inr oq1"
  shows "oq_messages oq1 = oq_messages oq" and "oq_reserved_slots oq1 = Suc (oq_reserved_slots oq)"
    and "capacity (oq_queue oq1) = capacity (oq_queue oq)"
  using oq_reserve_slot_ok(1) [OF assms]
  by (simp_all add: oq_messages_def oq_reserved_slots_def qwr_reserved_slots_def)

lemma iq_reserve_pair:
  assumes "iq_reserve_slot iq = Inr iq1"
  shows "iq_messages iq1 = iq_messages iq" and "iq_reserved_slots iq1 = Suc (iq_reserved_slots iq)"
    and "capacity (iq_queue iq1) = capacity (iq_queue iq)" and "iq_inv iq \<Longrightarrow> iq_inv iq1"
proof -
  have "iq1 = iq\<lparr>iq_queue := (iq_queue iq)\<lparr>num_slots_reserved := num_slots_reserved (iq_queue iq) + 1\<rparr>\<rparr> \<and>
    length (queue (iq_queue iq)) + num_slots_reserved (iq_queue iq) < capacity (iq_queue iq)"
    using assms
    by (auto simp: iq_reserve_slot_def qwr_reserve_slot_def qwr_check_has_slot_def split: if_splits)
  then show "iq_messages iq1 = iq_messages iq" "iq_reserved_slots iq1 = Suc (iq_reserved_slots iq)"
    "capacity (iq_queue iq1) = capacity (iq_queue iq)" "iq_inv iq \<Longrightarrow> iq_inv iq1"
    by (auto simp: iq_messages_def iq_reserved_slots_def qwr_reserved_slots_def iq_inv_def qwr_inv_def)
qed

subsection \<open>Effect on the running statistics\<close>

lemma unat_cycles_add_fits:
  "unat a + unat b \<le> cycles_max \<Longrightarrow> unat (cycles_add a b) = unat a + unat b"
  by (simp add: unat_cycles_add)

lemma stat_input_pushed:
  assumes "unat (iqs_cycles is) + unat (rr_cycles msg) \<le> cycles_max"
  shows "running_stat s (iqs_add_assign is (iqs_stats_delta z OpPush msg)) os
      (mus_add_assign ms (mus_stats_delta z OpPush msg)) =
    running_stat s is os ms + int (per_input z s msg) +
    (case msg of Request _ \<Rightarrow> int (per_output_slot s) | Response _ \<Rightarrow> - int (per_input_slot s))"
  using assms
  by (cases s; cases msg)
    (simp_all add: iqs_add_assign_def iqs_stats_delta_def mus_add_assign_def mus_stats_delta_def
      mus_request_stats_delta_def mus_response_stats_delta_def unat_cycles_add_fits)

lemma stat_input_popped:
  assumes "\<And>s. int (per_input z s msg) \<le> running_stat s is os ms"
  obtains is' ms' where "iqs_sub_assign is (iqs_stats_delta z OpPop msg) = Some is'"
    and "mus_sub_assign ms (mus_stats_delta z OpPop msg) = Some ms'"
    and "\<And>s. running_stat s is' os ms' = running_stat s is os ms - int (per_input z s msg)"
    and "mus_transient_stream_responses_size_bytes ms' = mus_transient_stream_responses_size_bytes ms"
proof -
  note le = assms [of IqMessages] assms [of IqResponses] assms [of IqSize] assms [of IqCycles]
    assms [of ResponseBytes] assms [of OversizedBytes]
  let ?is = "\<lparr>iqs_message_count = iqs_message_count is - 1,
      iqs_response_count = iqs_response_count is - response_count msg,
      iqs_reserved_slots = iqs_reserved_slots is, iqs_size_bytes = iqs_size_bytes is - rr_count_bytes z msg,
      iqs_cycles = cycles_sub (iqs_cycles is) (rr_cycles msg)\<rparr>"
  let ?ms = "ms\<lparr>mus_responses_size_bytes := mus_responses_size_bytes ms - response_size_bytes z msg,
      mus_oversized_requests_extra_bytes := mus_oversized_requests_extra_bytes ms - request_overhead_bytes z msg\<rparr>"
  have 1: "iqs_sub_assign is (iqs_stats_delta z OpPop msg) = Some ?is"
    using le by (cases msg) (simp_all add: iqs_sub_assign_def iqs_stats_delta_def sub_usize_def)
  have 2: "mus_sub_assign ms (mus_stats_delta z OpPop msg) = Some ?ms"
    using le by (cases msg) (simp_all add: mus_sub_assign_def mus_stats_delta_def mus_request_stats_delta_def
        mus_response_stats_delta_def sub_usize_def)
  have 3: "running_stat s ?is os ?ms = running_stat s is os ms - int (per_input z s msg)" for s
    using le by (cases s) (simp_all add: unat_cycles_sub of_nat_diff)
  show thesis using that [OF 1 2 3] by simp
qed

lemma stat_output_popped:
  assumes "\<And>s. s \<noteq> IqReserved \<Longrightarrow> s \<noteq> Reserved \<Longrightarrow> int (per_output z s msg) \<le> cq_stat s q"
  obtains q' where "cq_output_popped z msg q = Some q'"
    and "\<And>s. cq_stat s q' = cq_stat s q - int (per_output z s msg)"
    and "q' = q\<lparr>cq_output_queues_stats := cq_output_queues_stats q', cq_memory_usage_stats := cq_memory_usage_stats q'\<rparr>"
proof -
  note le = assms [of OqMessages, simplified] assms [of OqCycles, simplified] assms [of ResponseBytes, simplified]
    assms [of OversizedBytes, simplified]
  let ?os = "\<lparr>oqs_message_count = oqs_message_count (cq_output_queues_stats q) - 1,
      oqs_cycles = cycles_sub (oqs_cycles (cq_output_queues_stats q)) (rr_cycles msg)\<rparr>"
  let ?ms = "(cq_memory_usage_stats q)
     \<lparr>mus_responses_size_bytes := mus_responses_size_bytes (cq_memory_usage_stats q) - response_size_bytes z msg,
      mus_oversized_requests_extra_bytes :=
        mus_oversized_requests_extra_bytes (cq_memory_usage_stats q) - request_overhead_bytes z msg\<rparr>"
  let ?q = "q\<lparr>cq_output_queues_stats := ?os, cq_memory_usage_stats := ?ms\<rparr>"
  have 1: "cq_output_popped z msg q = Some ?q"
    using le by (cases msg) (simp_all add: cq_output_popped_def oqs_sub_assign_def oqs_stats_delta_def mus_sub_assign_def
        mus_stats_delta_def mus_request_stats_delta_def mus_response_stats_delta_def sub_usize_def)
  have 2: "cq_stat s ?q = cq_stat s q - int (per_output z s msg)" for s
    using le by (cases s) (simp_all add: unat_cycles_sub of_nat_diff)
  show thesis using that [OF 1 2] by simp
qed

lemma stat_output_pushed:
  assumes "unat (oqs_cycles os) + unat (rr_cycles msg) \<le> cycles_max"
  shows "running_stat s is (oqs_add_assign os (oqs_stats_delta msg)) (mus_add_assign ms (mus_stats_delta z OpPush msg)) =
    running_stat s is os ms + int (per_output z s msg) +
    (if s = Reserved then (case msg of Request _ \<Rightarrow> 1 | Response _ \<Rightarrow> - 1) else 0)"
  using assms
  by (cases s; cases msg)
    (simp_all add: oqs_add_assign_def oqs_stats_delta_def mus_add_assign_def mus_stats_delta_def
      mus_request_stats_delta_def mus_response_stats_delta_def unat_cycles_add_fits)

text \<open>The contribution of a message is covered by the running statistics.\<close>

lemma cq_stat_ge:
  assumes "cq_inv z q" and "bt_get (cq_queues q) c = Some v"
  shows "int (pair_stat z s v) \<le> cq_stat s q"
  using assms bt.total_ge [of "cq_queues q" c v "pair_stat z s"] by (simp add: cq_inv_def stats_exact_def)

lemma cq_stat_ge_message:
  assumes "cq_inv z q" and "bt_get (cq_queues q) c = Some v"
  shows "m \<in> set (iq_messages (fst v)) \<Longrightarrow> int (per_input z s m) \<le> cq_stat s q"
    and "m \<in> set (oq_messages (snd v)) \<Longrightarrow> int (per_output z s m) \<le> cq_stat s q"
proof -
  have "per_input z s m \<le> pair_stat z s v" if "m \<in> set (iq_messages (fst v))"
    using that member_le_sum_list [of "per_input z s m" "map (per_input z s) (iq_messages (fst v))"]
    by (simp add: pair_stat_def)
  moreover have "per_output z s m \<le> pair_stat z s v" if "m \<in> set (oq_messages (snd v))"
    using that member_le_sum_list [of "per_output z s m" "map (per_output z s) (oq_messages (snd v))"]
    by (simp add: pair_stat_def)
  ultimately show "m \<in> set (iq_messages (fst v)) \<Longrightarrow> int (per_input z s m) \<le> cq_stat s q"
    "m \<in> set (oq_messages (snd v)) \<Longrightarrow> int (per_output z s m) \<le> cq_stat s q"
    using cq_stat_ge [OF assms, of s] by (meson of_nat_mono order_trans)+
qed

section \<open>Pushing input\<close>

text \<open>The pair of a canister, where a missing pair counts as an empty one.\<close>

definition cq_pair :: "'p canister_queues \<Rightarrow> 'p \<Rightarrow> 'p input_queue \<times> 'p output_queue" where
  "cq_pair q c =
     (case bt_get (cq_queues q) c of
        Some v \<Rightarrow> v
      | None \<Rightarrow> (iq_new DEFAULT_QUEUE_CAPACITY, oq_new DEFAULT_QUEUE_CAPACITY))"

lemma cq_pair_get: "bt_get (cq_queues q) c = Some v \<Longrightarrow> cq_pair q c = v"
  by (simp add: cq_pair_def)

lemma cq_inv_pair: "cq_inv z q \<Longrightarrow> bt_get (cq_queues q) c = Some v \<Longrightarrow> pair_ok v"
  unfolding cq_inv_def by blast

lemma cq_inv_wf: "cq_inv z q \<Longrightarrow> bt_wf (cq_queues q)"
  unfolding cq_inv_def by blast

lemma cq_pair_ok: "cq_inv z q \<Longrightarrow> pair_ok (cq_pair q c)"
  using cq_inv_pair [of z q c] by (cases "bt_get (cq_queues q) c") (simp_all add: cq_pair_def pair_ok_new)

lemma cq_get_or_insert_pair:
  assumes "cq_inv z q" and "cq_get_or_insert_queues z q c = (q1, iq, oq)"
  shows "cq_pair q c = (iq, oq)" and "cq_pair q1 = cq_pair q"
proof -
  note g = cq_get_or_insert [OF assms]
  show "cq_pair q c = (iq, oq)" using g(8) by (auto simp: cq_pair_def)
  moreover have "cq_pair q1 c = (iq, oq)" using g(2) by (rule cq_pair_get)
  moreover have "cq_pair q1 c' = cq_pair q c'" if "c' \<noteq> c" for c' using g(3) [OF that] by (simp add: cq_pair_def)
  ultimately show "cq_pair q1 = cq_pair q" by (metis ext)
qed

lemma cq_pair_put:
  "bt_wf (cq_queues q) \<Longrightarrow> cq_queues q' = bt_insert c v (cq_queues q) \<Longrightarrow>
    cq_pair q' c' = (if c' = c then v else cq_pair q c')"
  by (simp add: cq_pair_def bt.get_ins)

text \<open>The running cycles counter of the input queues does not saturate on this message.\<close>

definition input_cycles_fit :: "'p canister_queues \<Rightarrow> 'p request_or_response \<Rightarrow> bool" where
  "input_cycles_fit q msg \<longleftrightarrow>
     unat (iqs_cycles (cq_input_queues_stats q)) + unat (rr_cycles msg) \<le> cycles_max"

lemma schedule_inv_pushed:
  assumes "schedule_inv q" and "bt_wf (cq_queues q)" and "bt_get (cq_queues q) c = Some v"
    and "cq_queues q' = bt_insert c v' (cq_queues q)" and "iq_messages (fst v') = iq_messages (fst v) @ [msg]"
    and "if iq_messages (fst v) = []
         then cq_local_subnet_input_schedule q' = cq_local_subnet_input_schedule q @ [c] \<and>
              cq_remote_subnet_input_schedule q' = cq_remote_subnet_input_schedule q \<or>
              cq_local_subnet_input_schedule q' = cq_local_subnet_input_schedule q \<and>
              cq_remote_subnet_input_schedule q' = cq_remote_subnet_input_schedule q @ [c]
         else cq_local_subnet_input_schedule q' = cq_local_subnet_input_schedule q \<and>
              cq_remote_subnet_input_schedule q' = cq_remote_subnet_input_schedule q"
  shows "schedule_inv q'"
proof -
  have pend: "has_pending_input q' c' = (c' = c \<or> has_pending_input q c')" for c'
    using has_pending_input_put [OF assms(2,4)] assms(5) by simp
  have c: "has_pending_input q c = (iq_messages (fst v) \<noteq> [])" by (simp add: has_pending_input_def assms(3))
  show ?thesis
  proof (cases "iq_messages (fst v) = []")
    case True
    then have "c \<notin> set (cq_schedule q)" using assms(1) c by (simp add: schedule_inv_def)
    then show ?thesis
      using assms(1,6) True unfolding schedule_inv_def pend by (elim disjE conjE) auto
  next
    case False
    then show ?thesis using assms(1,6) c unfolding schedule_inv_def pend by auto
  qed
qed

lemma cq_push_selected_ok:
  assumes "cq_inv z q" and "bt_get (cq_queues q) (rr_sender msg) = Some (iq, oq)"
    and "iq_push iq msg = Inr iq'" and "input_cycles_fit q msg"
    and "case msg of Request _ \<Rightarrow> oq_reserve_slot oq = Inr oq1 | Response _ \<Rightarrow> oq1 = oq"
    and "cq_push_selected z q (iq, oq1) msg t = (q', r)"
  shows "cq_inv z q' \<and> r = Inr () \<and> cq_pair q' = (cq_pair q)(rr_sender msg := (iq', oq1)) \<and>
    cq_input_schedule t q' = cq_input_schedule t q @ (if iq_messages iq = [] then [rr_sender msg] else []) \<and>
    cq_next_input_queue q' = cq_next_input_queue q \<and>
    (\<forall>s. cq_stat s q' = cq_stat s q + int (per_input z s msg) +
      (case msg of Request _ \<Rightarrow> int (per_output_slot s) | Response _ \<Rightarrow> - int (per_input_slot s)))"
proof -
  let ?c = "rr_sender msg"
  have wf: "bt_wf (cq_queues q)" using assms(1) by (simp add: cq_inv_def)
  have ok: "pair_ok (iq, oq)" using assms(1,2) by (simp add: cq_inv_def)
  note push = iq_push_ok [OF assms(3)]
  have one: "iq_num_messages iq' = 1 \<longleftrightarrow> iq_messages iq = []"
    by (simp add: iq_num_messages_messages push(1))
  let ?q1 = "cq_put ?c (iq', oq1) q"
  let ?q2 = "if iq_messages iq = [] then cq_schedule_push t ?c ?q1 else ?q1"
  have q': "q' = ?q2\<lparr>cq_input_queues_stats := iqs_add_assign (cq_input_queues_stats q) (iqs_stats_delta z OpPush msg),
      cq_memory_usage_stats := mus_add_assign (cq_memory_usage_stats q) (mus_stats_delta z OpPush msg)\<rparr>"
    and r: "r = Inr ()"
    using assms(6) one
    by (auto simp: cq_push_selected_def assms(3) Let_def cq_schedule_push_def cq_put_def split: input_queue_type.splits if_splits)
  have queues: "cq_queues q' = bt_insert ?c (iq', oq1) (cq_queues q)"
    and others: "cq_ingress_queue q' = cq_ingress_queue q" "cq_next_input_queue q' = cq_next_input_queue q"
      "cq_output_queues_stats q' = cq_output_queues_stats q"
    by (auto simp: q' cq_schedule_push_def cq_put_def split: input_queue_type.splits)
  have stat: "cq_stat s q' = cq_stat s q + int (per_input z s msg) +
      (case msg of Request _ \<Rightarrow> int (per_output_slot s) | Response _ \<Rightarrow> - int (per_input_slot s))" for s
    using stat_input_pushed [of "cq_input_queues_stats q" msg s z "cq_output_queues_stats q" "cq_memory_usage_stats q"]
      assms(4) others(3) by (simp add: q' input_cycles_fit_def)
  have "pair_ok (iq', oq1)"
    using ok push(2) iq_push_inv [OF _ assms(3)] assms(5) oq_inv_reserve_slot [of oq oq1] oq_reserve_pair(3) [of oq oq1]
    by (cases msg) (simp_all add: pair_ok_def)
  moreover have "schedule_inv q'"
    by (rule schedule_inv_pushed [OF _ wf assms(2) queues])
      (use assms(1) push(1) in \<open>auto simp: cq_inv_def q' cq_schedule_push_def cq_put_def split: input_queue_type.splits\<close>)
  moreover have "cq_stat s q' + int (pair_stat z s (iq, oq)) = cq_stat s q + int (pair_stat z s (iq', oq1))" for s
  proof (cases msg)
    case (Request m)
    then show ?thesis
      using push(3) assms(5) oq_reserve_pair(1,2) [of oq oq1] by (simp add: stat pair_stat_def push(1) algebra_simps)
  next
    case (Response m)
    then have "iq_reserved_slots iq = Suc (iq_reserved_slots iq')" using push(3) by simp
    with Response show ?thesis using assms(5) by (simp add: stat pair_stat_def push(1) algebra_simps)
  qed
  ultimately have "cq_inv z q'"
    by (intro cq_inv_update [OF assms(1,2) queues]) (simp_all add: others)
  moreover have "cq_pair q' = (cq_pair q)(?c := (iq', oq1))"
    by (simp add: fun_eq_iff cq_pair_put [OF wf queues])
  moreover have "cq_input_schedule t q' = cq_input_schedule t q @ (if iq_messages iq = [] then [?c] else [])"
    by (auto simp: q' cq_input_schedule_def cq_schedule_push_def cq_put_def split: input_queue_type.splits)
  ultimately show ?thesis using r stat others by blast
qed

text \<open>When a push of input succeeds: both queues of the pair have room, or a slot is reserved.\<close>

definition can_push_input :: "'p canister_queues \<Rightarrow> 'p request_or_response \<Rightarrow> bool" where
  "can_push_input q msg \<longleftrightarrow>
     (case cq_pair q (rr_sender msg) of (iq, oq) \<Rightarrow>
        (case msg of
           Request _ \<Rightarrow>
             length (iq_messages iq) + iq_reserved_slots iq < DEFAULT_QUEUE_CAPACITY \<and>
             length (oq_items oq) + oq_reserved_slots oq < DEFAULT_QUEUE_CAPACITY
         | Response _ \<Rightarrow> 0 < iq_reserved_slots iq))"

definition same_view :: "'p canister_queues \<Rightarrow> 'p canister_queues \<Rightarrow> bool" where
  "same_view q q' \<longleftrightarrow>
     cq_pair q' = cq_pair q \<and> cq_schedule q' = cq_schedule q \<and> cq_ingress_queue q' = cq_ingress_queue q \<and>
     cq_output_queues_stats q' = cq_output_queues_stats q \<and> cq_memory_usage_stats q' = cq_memory_usage_stats q"

lemma cq_get_or_insert_ingress:
  "cq_get_or_insert_queues z q c = (q1, iq, oq) \<Longrightarrow>
    cq_ingress_queue q1 = cq_ingress_queue q \<and> cq_next_input_queue q1 = cq_next_input_queue q \<and>
    cq_local_subnet_input_schedule q1 = cq_local_subnet_input_schedule q \<and>
    cq_remote_subnet_input_schedule q1 = cq_remote_subnet_input_schedule q"
  by (auto simp: cq_get_or_insert_queues_def Let_def split: option.splits)

lemma iq_check_has_slot_iff:
  "iq_check_has_slot iq = Inr () \<longleftrightarrow> length (iq_messages iq) + iq_reserved_slots iq < capacity (iq_queue iq)"
  by (auto simp: iq_check_has_slot_def qwr_check_has_slot_def iq_messages_def iq_reserved_slots_def
      qwr_reserved_slots_def)

lemma oq_check_has_slot_iff:
  "oq_check_has_slot oq = Inr () \<longleftrightarrow> length (oq_items oq) + oq_reserved_slots oq < capacity (oq_queue oq)"
  by (auto simp: oq_check_has_slot_def qwr_check_has_slot_def oq_reserved_slots_def qwr_reserved_slots_def)

lemma Inr_unit_cases: obtains (err) e where "r = Inl e" | (ok) "r = Inr ()"
  by (cases r) auto

lemma cq_get_or_insert_same_view:
  assumes "cq_inv z q" and "cq_get_or_insert_queues z q c = (q1, iq, oq)"
  shows "same_view q q1"
  using cq_get_or_insert_pair(2) [OF assms] cq_get_or_insert(4-6) [OF assms] cq_get_or_insert_ingress [OF assms(2)]
  by (simp add: same_view_def)

text \<open>The effect of a successful and of a failed push.\<close>

definition input_pushed ::
  "layout \<Rightarrow> 'p::linorder canister_queues \<Rightarrow> 'p request_or_response \<Rightarrow> input_queue_type \<Rightarrow> 'p canister_queues \<Rightarrow> bool" where
  "input_pushed z q msg t q' \<longleftrightarrow>
     cq_inv z q' \<and>
     (\<exists>iq' oq'. cq_pair q' = (cq_pair q)(rr_sender msg := (iq', oq')) \<and>
        iq_messages iq' = iq_messages (fst (cq_pair q (rr_sender msg))) @ [msg] \<and>
        oq_messages oq' = oq_messages (snd (cq_pair q (rr_sender msg))) \<and>
        (case msg of
           Request _ \<Rightarrow>
             iq_reserved_slots iq' = iq_reserved_slots (fst (cq_pair q (rr_sender msg))) \<and>
             oq_reserved_slots oq' = Suc (oq_reserved_slots (snd (cq_pair q (rr_sender msg))))
         | Response _ \<Rightarrow>
             Suc (iq_reserved_slots iq') = iq_reserved_slots (fst (cq_pair q (rr_sender msg))) \<and>
             oq' = snd (cq_pair q (rr_sender msg)))) \<and>
     cq_input_schedule t q' = cq_input_schedule t q @
       (if iq_messages (fst (cq_pair q (rr_sender msg))) = [] then [rr_sender msg] else []) \<and>
     (\<forall>s \<in> {ResponseBytes, Reserved, OversizedBytes}. cq_stat s q' = cq_stat s q + int (per_input z s msg) +
       (case msg of Request _ \<Rightarrow> int (per_output_slot s) | Response _ \<Rightarrow> - int (per_input_slot s)))"

definition input_rejected ::
  "layout \<Rightarrow> 'p::linorder canister_queues \<Rightarrow> 'p request_or_response \<Rightarrow> 'p canister_queues
   \<Rightarrow> ('p state_error \<times> 'p request_or_response) + unit \<Rightarrow> bool" where
  "input_rejected z q msg q' r \<longleftrightarrow>
     cq_inv z q' \<and> same_view q q' \<and> (\<exists>cap. r = Inl (QueueFull cap, msg))"

lemma cq_push_input_selected:
  assumes "cq_inv z q1" and "same_view q q1" and "input_cycles_fit q1 msg"
    and "cq_local_subnet_input_schedule q1 = cq_local_subnet_input_schedule q"
    and "cq_remote_subnet_input_schedule q1 = cq_remote_subnet_input_schedule q"
    and "bt_get (cq_queues q1) (rr_sender msg) = Some (iq, oq)" and "iq_push iq msg = Inr iq'"
    and "case msg of Request _ \<Rightarrow> oq_reserve_slot oq = Inr oq1 | Response _ \<Rightarrow> oq1 = oq"
  shows "\<exists>q'. cq_push_selected z q1 (iq, oq1) msg t = (q', Inr ()) \<and> input_pushed z q msg t q'"
proof -
  obtain q' r where run: "cq_push_selected z q1 (iq, oq1) msg t = (q', r)" by fastforce
  note sel = cq_push_selected_ok [OF assms(1,6,7,3,8) run]
  have pair: "cq_pair q (rr_sender msg) = (iq, oq)" "cq_pair q1 = cq_pair q"
    using assms(2) cq_pair_get [OF assms(6)] by (simp_all add: same_view_def)
  have sched: "cq_input_schedule t q1 = cq_input_schedule t q"
    using assms(4,5) by (simp add: cq_input_schedule_def split: input_queue_type.split)
  have stats: "cq_stat s q1 = cq_stat s q" if "s \<in> {ResponseBytes, Reserved, OversizedBytes}" for s
    using assms(2) that by (auto simp: same_view_def)
  have "oq_messages oq1 = oq_messages oq" using assms(8) oq_reserve_pair(1) [of oq oq1] by (cases msg) simp_all
  moreover have "case msg of Request _ \<Rightarrow> iq_reserved_slots iq' = iq_reserved_slots iq \<and>
      oq_reserved_slots oq1 = Suc (oq_reserved_slots oq)
    | Response _ \<Rightarrow> Suc (iq_reserved_slots iq') = iq_reserved_slots iq \<and> oq1 = oq"
    using iq_push_ok(3) [OF assms(7)] assms(8) oq_reserve_pair(2) [of oq oq1] by (cases msg) simp_all
  ultimately have "input_pushed z q msg t q'"
    unfolding input_pushed_def pair(1) fst_conv snd_conv
    using sel iq_push_ok(1) [OF assms(7)] stats by (auto simp: pair(2) sched)
  with run sel show ?thesis by simp
qed

lemma cq_push_input_request:
  assumes "cq_inv z q" and "input_cycles_fit q (Request m)" and "cq_push_input z q (Request m) t = (q', r)"
  shows "if can_push_input q (Request m) then r = Inr () \<and> input_pushed z q (Request m) t q'
    else input_rejected z q (Request m) q' r"
proof -
  obtain q1 iq oq where g: "cq_get_or_insert_queues z q (sender m) = (q1, iq, oq)" by (metis prod_cases3)
  note gi = cq_get_or_insert [OF assms(1) g] and gp = cq_get_or_insert_pair(1) [OF assms(1) g]
  have view: "same_view q q1" using assms(1) g by (rule cq_get_or_insert_same_view)
  have ok: "pair_ok (iq, oq)" using gi(1,2) by (rule cq_inv_pair)
  have can: "can_push_input q (Request m) \<longleftrightarrow> iq_check_has_slot iq = Inr () \<and> (\<exists>oq1. oq_reserve_slot oq = Inr oq1)"
    using ok by (simp add: can_push_input_def gp iq_check_has_slot_iff oq_reserve_slot_iff pair_ok_def
        oq_reserved_slots_def qwr_reserved_slots_def)
  show ?thesis
  proof (cases "can_push_input q (Request m)")
    case True
    then obtain oq1 where oq1: "iq_check_has_slot iq = Inr ()" "oq_reserve_slot oq = Inr oq1" using can by blast
    then obtain iq' where push: "iq_push iq (Request m) = Inr iq'"
      using iq_push_iff [of iq "Request m"] by (auto simp: iq_check_has_slot_iff)
    have "input_cycles_fit q1 (Request m)" using assms(2) gi(7) by (simp add: input_cycles_fit_def)
    then obtain q'' where "cq_push_selected z q1 (iq, oq1) (Request m) t = (q'', Inr ())"
        "input_pushed z q (Request m) t q''"
      using cq_push_input_selected [OF gi(1) view, of "Request m" iq oq iq' oq1 t] gi(2) push oq1(2)
        cq_get_or_insert_ingress [OF g] by auto
    then show ?thesis using assms(3) True oq1 by (simp add: cq_push_input_def g)
  next
    case False
    have full: "iq_check_has_slot iq = Inl e \<Longrightarrow> \<exists>cap. e = QueueFull cap"
      "oq_reserve_slot oq = Inl e' \<Longrightarrow> \<exists>cap. e' = QueueFull cap" for e e'
      by (auto simp: iq_check_has_slot_def oq_reserve_slot_def qwr_reserve_slot_def qwr_check_has_slot_def split: if_splits)
    have "q' = q1 \<and> (\<exists>cap. r = Inl (QueueFull cap, Request m))"
      using False assms(3) full can
      by (cases "iq_check_has_slot iq"; cases "oq_reserve_slot oq") (auto simp: cq_push_input_def g)
    then show ?thesis using False gi(1) view by (simp add: input_rejected_def)
  qed
qed

lemma cq_push_input_response:
  assumes "cq_inv z q" and "input_cycles_fit q (Response m)" and "cq_push_input z q (Response m) t = (q', r)"
  shows "if can_push_input q (Response m) then r = Inr () \<and> input_pushed z q (Response m) t q'
    else input_rejected z q (Response m) q' r"
proof (cases "bt_get (cq_queues q) (respondent m)")
  case None
  then have "\<not> can_push_input q (Response m)"
    by (simp add: can_push_input_def cq_pair_def iq_reserved_slots_def qwr_reserved_slots_def iq_new_def qwr_new_def)
  then show ?thesis
    using assms(1,3) None by (auto simp: cq_push_input_def input_rejected_def same_view_def)
next
  case (Some v)
  obtain iq oq where v: "v = (iq, oq)" by (cases v)
  have pair: "cq_pair q (respondent m) = (iq, oq)" using Some v by (simp add: cq_pair_get)
  have can: "can_push_input q (Response m) \<longleftrightarrow> (\<exists>iq'. iq_push iq (Response m) = Inr iq')"
    using iq_push_iff [of iq "Response m"] by (simp add: can_push_input_def pair)
  show ?thesis
  proof (cases "can_push_input q (Response m)")
    case True
    then obtain iq' where push: "iq_push iq (Response m) = Inr iq'" using can by blast
    have "same_view q q" by (simp add: same_view_def)
    then obtain q'' where "cq_push_selected z q (iq, oq) (Response m) t = (q'', Inr ())"
        "input_pushed z q (Response m) t q''"
      using cq_push_input_selected [OF assms(1), of q "Response m" iq oq iq' oq t] assms(2) Some push by (auto simp: v)
    then show ?thesis using assms(3) True Some by (simp add: cq_push_input_def v)
  next
    case False
    then obtain e where "iq_push iq (Response m) = Inl e" using can by (cases "iq_push iq (Response m)") auto
    moreover from this have "e = (QueueFull 0, Response m)"
      by (auto simp: iq_push_def qwr_push_into_reserved_slot_def split: if_splits)
    ultimately have run: "q' = cq_put (respondent m) (iq, oq) q" "r = Inl (QueueFull 0, Response m)"
      using assms(3) Some by (auto simp: cq_push_input_def cq_push_selected_def v)
    have "cq_put (respondent m) (iq, oq) q = q"
      using bt_insert_same [OF cq_inv_wf [OF assms(1)] Some [unfolded v]] by (simp add: cq_put_def)
    then show ?thesis using False run assms(1) by (auto simp: input_rejected_def same_view_def)
  qed
qed

lemma cq_push_input_cases:
  assumes "cq_inv z q" and "input_cycles_fit q msg" and "cq_push_input z q msg t = (q', r)"
  obtains (pushed) "can_push_input q msg" "r = Inr ()" "input_pushed z q msg t q'"
    | (rejected) "\<not> can_push_input q msg" "input_rejected z q msg q' r"
  using cq_push_input_request [of z q _ t q' r] cq_push_input_response [of z q _ t q' r] assms
  by (cases msg) (auto split: if_splits)

section \<open>Popping input\<close>

definition other_type :: "input_queue_type \<Rightarrow> input_queue_type" where
  "other_type t = (case t of LocalSubnet \<Rightarrow> RemoteSubnet | RemoteSubnet \<Rightarrow> LocalSubnet)"

lemma set_input_schedule_simps [simp]:
  "cq_input_schedule t (cq_set_input_schedule t xs q) = xs"
  "cq_input_schedule (other_type t) (cq_set_input_schedule t xs q) = cq_input_schedule (other_type t) q"
  "cq_queues (cq_set_input_schedule t xs q) = cq_queues q"
  "cq_ingress_queue (cq_set_input_schedule t xs q) = cq_ingress_queue q"
  "cq_input_queues_stats (cq_set_input_schedule t xs q) = cq_input_queues_stats q"
  "cq_output_queues_stats (cq_set_input_schedule t xs q) = cq_output_queues_stats q"
  "cq_memory_usage_stats (cq_set_input_schedule t xs q) = cq_memory_usage_stats q"
  "cq_next_input_queue (cq_set_input_schedule t xs q) = cq_next_input_queue q"
  by (simp_all add: cq_set_input_schedule_def cq_input_schedule_def other_type_def split: input_queue_type.split)

lemma schedule_inv_alt:
  "schedule_inv q \<longleftrightarrow>
    distinct (cq_input_schedule t q) \<and> distinct (cq_input_schedule (other_type t) q) \<and>
    set (cq_input_schedule t q) \<inter> set (cq_input_schedule (other_type t) q) = {} \<and>
    set (cq_input_schedule t q) \<union> set (cq_input_schedule (other_type t) q) = {c. has_pending_input q c}"
  by (auto simp: schedule_inv_def cq_input_schedule_def other_type_def split: input_queue_type.split)

lemma scheduled_pending:
  assumes "cq_inv z q" and "c \<in> set (cq_input_schedule t q)"
  obtains iq oq m ms where "bt_get (cq_queues q) c = Some (iq, oq)" and "iq_messages iq = m # ms"
proof -
  have "has_pending_input q c"
    using assms schedule_inv_alt [of q t] by (auto simp: cq_inv_def)
  then obtain v where v: "bt_get (cq_queues q) c = Some v" "iq_messages (fst v) \<noteq> []"
    by (auto simp: has_pending_input_def split: option.splits)
  then show thesis using that [of "fst v" "snd v"] by (cases "iq_messages (fst v)") auto
qed

definition input_popped ::
  "layout \<Rightarrow> input_queue_type \<Rightarrow> 'p::linorder canister_queues \<Rightarrow> 'p request_or_response \<Rightarrow> 'p canister_queues \<Rightarrow> bool" where
  "input_popped z t q m q' \<longleftrightarrow>
     cq_inv z q' \<and>
     (\<exists>c rest iq' ms. cq_input_schedule t q = c # rest \<and> iq_messages (fst (cq_pair q c)) = m # ms \<and>
        cq_pair q' = (cq_pair q)(c := (iq', snd (cq_pair q c))) \<and> iq_messages iq' = ms \<and>
        iq_reserved_slots iq' = iq_reserved_slots (fst (cq_pair q c)) \<and>
        cq_input_schedule t q' = rest @ (if ms = [] then [] else [c])) \<and>
     cq_input_schedule (other_type t) q' = cq_input_schedule (other_type t) q \<and>
     cq_ingress_queue q' = cq_ingress_queue q \<and> cq_next_input_queue q' = cq_next_input_queue q"

lemma schedule_inv_popped:
  assumes "schedule_inv q" and "bt_wf (cq_queues q)" and "cq_input_schedule t q = c # rest"
    and "cq_queues q' = bt_insert c v' (cq_queues q)"
    and "cq_input_schedule t q' = rest @ (if iq_messages (fst v') = [] then [] else [c])"
    and "cq_input_schedule (other_type t) q' = cq_input_schedule (other_type t) q"
  shows "schedule_inv q'"
proof -
  have pend: "has_pending_input q' c' = (if c' = c then iq_messages (fst v') \<noteq> [] else has_pending_input q c')" for c'
    by (rule has_pending_input_put [OF assms(2,4)])
  have "{c'. has_pending_input q' c'} = ({c'. has_pending_input q c'} - {c}) \<union> (if iq_messages (fst v') = [] then {} else {c})"
    by (auto simp: pend)
  then show ?thesis
    using assms(1) unfolding schedule_inv_alt [of _ t] assms(3,5,6) by auto
qed

lemma cq_pop_canister_input_ok:
  assumes "cq_inv z q" and "cq_input_schedule t q = c # rest"
  shows "\<exists>m q'. cq_pop_canister_input z q t = Some (Some (to_input_message m), q') \<and> input_popped z t q m q'"
proof -
  obtain iq oq m ms where get: "bt_get (cq_queues q) c = Some (iq, oq)" and msgs: "iq_messages iq = m # ms"
    by (rule scheduled_pending [OF assms(1), of c t]) (simp add: assms(2))
  let ?iq = "iq\<lparr>iq_queue := (iq_queue iq)\<lparr>queue := ms\<rparr>\<rparr>"
  have iq': "iq_messages ?iq = ms" "iq_reserved_slots ?iq = iq_reserved_slots iq"
    by (simp_all add: iq_messages_def iq_reserved_slots_def qwr_reserved_slots_def)
  have "int (per_input z s m) \<le> cq_stat s q" for s
    by (rule cq_stat_ge_message(1) [OF assms(1) get]) (simp add: msgs)
  from stat_input_popped [OF this] obtain is' ms' where
    st: "iqs_sub_assign (cq_input_queues_stats q) (iqs_stats_delta z OpPop m) = Some is'"
      "mus_sub_assign (cq_memory_usage_stats q) (mus_stats_delta z OpPop m) = Some ms'"
      "\<And>s. running_stat s is' (cq_output_queues_stats q) ms' = cq_stat s q - int (per_input z s m)" by blast
  let ?q = "(cq_set_input_schedule t (if ms = [] then rest else rest @ [c]) (cq_put c (?iq, oq) q))
    \<lparr>cq_input_queues_stats := is', cq_memory_usage_stats := ms'\<rparr>"
  have run: "cq_pop_canister_input z q t = Some (Some (to_input_message m), ?q)"
    using get msgs st iq_num_messages_messages [of ?iq]
    by (simp add: cq_pop_canister_input_def assms(2) iq_pop_nonempty iq' cq_put_def)
  have wf: "bt_wf (cq_queues q)" using assms(1) by (rule cq_inv_wf)
  have queues: "cq_queues ?q = bt_insert c (?iq, oq) (cq_queues q)" by (simp add: cq_put_def)
  have sched: "cq_input_schedule t ?q = rest @ (if iq_messages (fst (?iq, oq)) = [] then [] else [c])"
    "cq_input_schedule (other_type t) ?q = cq_input_schedule (other_type t) q"
    by (simp_all add: iq' cq_input_schedule_def cq_set_input_schedule_def other_type_def cq_put_def
        split: input_queue_type.split)
  have "pair_ok (?iq, oq)"
    using cq_inv_pair [OF assms(1) get] msgs by (auto simp: pair_ok_def iq_inv_def qwr_inv_def iq_messages_def)
  moreover have "schedule_inv ?q"
    by (rule schedule_inv_popped [OF _ wf assms(2) queues sched]) (use assms(1) in \<open>simp add: cq_inv_def\<close>)
  moreover have "cq_stat s ?q + int (pair_stat z s (iq, oq)) = cq_stat s q + int (pair_stat z s (?iq, oq))" for s
    using st(3) by (simp add: pair_stat_def msgs iq' cq_put_def)
  ultimately have "cq_inv z ?q"
    by (intro cq_inv_update [OF assms(1) get queues]) (simp_all add: cq_put_def)
  moreover have "cq_pair ?q = (cq_pair q)(c := (?iq, oq))"
    by (simp add: fun_eq_iff cq_pair_put [OF wf queues])
  ultimately have "input_popped z t q m ?q"
    unfolding input_popped_def using sched msgs cq_pair_get [OF get] assms(2)
    by (intro conjI exI [of _ c] exI [of _ rest] exI [of _ ?iq] exI [of _ ms]) (simp_all add: iq' cq_put_def)
  with run show ?thesis by blast
qed

lemma cq_pop_canister_input_empty:
  "cq_input_schedule t q = [] \<Longrightarrow> cq_pop_canister_input z q t = Some (None, q)"
  by (simp add: cq_pop_canister_input_def)

lemma cq_peek_canister_input_ok:
  assumes "cq_inv z q" and "cq_input_schedule t q = c # rest"
  shows "cq_peek_canister_input q t = Some (Some (to_input_message (hd (iq_messages (fst (cq_pair q c))))))"
proof -
  obtain iq oq m ms where get: "bt_get (cq_queues q) c = Some (iq, oq)" and msgs: "iq_messages iq = m # ms"
    by (rule scheduled_pending [OF assms(1), of c t]) (simp add: assms(2))
  then show ?thesis
    using cq_pair_get [OF get]
    by (simp add: cq_peek_canister_input_def assms(2) iq_peek_def qwr_peek_def iq_messages_def)
qed

lemma cq_skip_canister_input_ok:
  assumes "cq_inv z q"
  shows "\<exists>q'. cq_skip_canister_input q t = Some q' \<and> cq_inv z q' \<and> cq_pair q' = cq_pair q \<and>
    cq_input_schedule t q' = rotate1 (cq_input_schedule t q) \<and>
    cq_input_schedule (other_type t) q' = cq_input_schedule (other_type t) q \<and>
    cq_ingress_queue q' = cq_ingress_queue q \<and> cq_next_input_queue q' = cq_next_input_queue q"
proof (cases "cq_input_schedule t q")
  case Nil
  then show ?thesis using assms by (simp add: cq_skip_canister_input_def)
next
  case (Cons c rest)
  obtain iq oq m ms where get: "bt_get (cq_queues q) c = Some (iq, oq)" and msgs: "iq_messages iq = m # ms"
    by (rule scheduled_pending [OF assms, of c t]) (simp add: Cons)
  let ?q = "cq_set_input_schedule t (rest @ [c]) q"
  have "cq_skip_canister_input q t = Some ?q"
    using get msgs by (simp add: cq_skip_canister_input_def Cons iq_num_messages_messages)
  moreover have "has_pending_input ?q c' = has_pending_input q c'" for c' by (simp add: has_pending_input_def)
  then have "schedule_inv ?q"
    using assms unfolding cq_inv_def schedule_inv_alt [of _ t] by (auto simp: Cons)
  then have "cq_inv z ?q"
    using assms by (simp add: cq_inv_def stats_exact_def)
  moreover have "cq_pair ?q = cq_pair q" by (simp add: cq_pair_def fun_eq_iff)
  ultimately show ?thesis by (simp add: Cons)
qed

subsection \<open>Round robin over the three sources\<close>

lemma cq_inv_next [simp]: "cq_inv z (q\<lparr>cq_next_input_queue := n\<rparr>) = cq_inv z q"
proof -
  have "schedule_inv (q\<lparr>cq_next_input_queue := n\<rparr>) = schedule_inv q"
    by (simp add: schedule_inv_def has_pending_input_def)
  then show ?thesis by (simp add: cq_inv_def stats_exact_def)
qed

lemma cq_peek_source_next [simp]: "cq_peek_source (q\<lparr>cq_next_input_queue := x\<rparr>) n = cq_peek_source q n"
  by (simp add: cq_peek_source_def cq_peek_ingress_def cq_peek_canister_input_def cq_input_schedule_def
      split: next_input_queue.split list.split)

lemma cq_pop_canister_peek:
  assumes "cq_inv z q"
  shows "\<exists>m q'. cq_pop_canister_input z q t = Some (m, q') \<and> cq_peek_canister_input q t = Some m \<and> cq_inv z q' \<and>
    (m = None \<longrightarrow> q' = q) \<and> cq_next_input_queue q' = cq_next_input_queue q"
proof (cases "cq_input_schedule t q")
  case Nil
  then show ?thesis
    using assms by (simp add: cq_pop_canister_input_empty cq_peek_canister_input_def)
next
  case (Cons c rest)
  obtain m q' where "cq_pop_canister_input z q t = Some (Some (to_input_message m), q')" and pop: "input_popped z t q m q'"
    using cq_pop_canister_input_ok [OF assms Cons] by blast
  moreover have "m = hd (iq_messages (fst (cq_pair q c)))" using pop Cons by (auto simp: input_popped_def)
  ultimately show ?thesis
    using cq_peek_canister_input_ok [OF assms Cons] by (simp add: input_popped_def)
qed

lemma cq_pop_source_peek:
  assumes "cq_inv z q"
  shows "\<exists>m q'. cq_pop_source z q n = Some (m, q') \<and> cq_peek_source q n = Some m \<and> cq_inv z q' \<and>
    (m = None \<longrightarrow> q' = q) \<and> cq_next_input_queue q' = cq_next_input_queue q"
proof (cases n)
  case NextIngress
  obtain iq where pop: "ing_pop z (cq_ingress_queue q) = Some (ing_peek (cq_ingress_queue q), iq)" "ing_inv z iq"
      "ing_queue iq = tl (ing_queue (cq_ingress_queue q))"
    using assms ing_pop_ok [of z "cq_ingress_queue q"] by (auto simp: cq_inv_def)
  have "iq = cq_ingress_queue q" if "ing_peek (cq_ingress_queue q) = None"
    using pop(1) that by (auto simp: ing_peek_def ing_pop_def split: list.splits)
  moreover have "schedule_inv (q\<lparr>cq_ingress_queue := iq\<rparr>) = schedule_inv q"
    by (simp add: schedule_inv_def has_pending_input_def)
  ultimately show ?thesis
    using NextIngress pop assms
    by (auto simp: cq_pop_source_def cq_peek_source_def cq_pop_ingress_def cq_peek_ingress_def cq_inv_def stats_exact_def)
qed (use cq_pop_canister_peek [OF assms] in \<open>auto simp: cq_pop_source_def cq_peek_source_def\<close>)

lemma next_queue_cycle [simp]: "next_queue (next_queue (next_queue n)) = n"
  by (cases n) simp_all

lemma all_sources: "P n \<Longrightarrow> P (next_queue n) \<Longrightarrow> P (next_queue (next_queue n)) \<Longrightarrow> P m"
  by (cases n; cases m) simp_all

lemma input_loops_skip:
  assumes "cq_inv z q" and "cq_peek_source q (cq_next_input_queue q) = Some None"
  shows "peek_input_loop (Suc k) q = peek_input_loop k (q\<lparr>cq_next_input_queue := next_queue (cq_next_input_queue q)\<rparr>)"
    and "pop_input_loop z (Suc k) q = pop_input_loop z k (q\<lparr>cq_next_input_queue := next_queue (cq_next_input_queue q)\<rparr>)"
proof -
  let ?q = "q\<lparr>cq_next_input_queue := next_queue (cq_next_input_queue q)\<rparr>"
  have "cq_pop_source z ?q (cq_next_input_queue q) = Some (None, ?q)"
    using cq_pop_source_peek [of z ?q "cq_next_input_queue q"] assms by auto
  then show "pop_input_loop z (Suc k) q = pop_input_loop z k ?q" by (simp add: Let_def)
  show "peek_input_loop (Suc k) q = peek_input_loop k ?q" using assms(2) by simp
qed

lemma input_loops_hit:
  assumes "cq_inv z q" and "cq_peek_source q (cq_next_input_queue q) = Some (Some x)"
  shows "peek_input_loop (Suc k) q = Some (Some x, q)"
    and "\<exists>q2. (\<forall>k. pop_input_loop z (Suc k) q = Some (Some x, q2)) \<and> cq_inv z q2"
proof -
  let ?q = "q\<lparr>cq_next_input_queue := next_queue (cq_next_input_queue q)\<rparr>"
  obtain q2 where "cq_pop_source z ?q (cq_next_input_queue q) = Some (Some x, q2)" "cq_inv z q2"
    using cq_pop_source_peek [of z ?q "cq_next_input_queue q"] assms by auto
  then show "\<exists>q2. (\<forall>k. pop_input_loop z (Suc k) q = Some (Some x, q2)) \<and> cq_inv z q2" by (auto simp: Let_def)
  show "peek_input_loop (Suc k) q = Some (Some x, q)" using assms(2) by simp
qed

definition source_after :: "nat \<Rightarrow> 'p canister_queues \<Rightarrow> next_input_queue" where
  "source_after k q = (next_queue ^^ k) (cq_next_input_queue q)"

lemma input_loops_agree:
  assumes "cq_inv z q"
  shows "(\<exists>x q1 q2. peek_input_loop k q = Some (Some x, q1) \<and> pop_input_loop z k q = Some (Some x, q2) \<and>
      (\<forall>j. pop_input_loop z (Suc j) q1 = Some (Some x, q2)) \<and> cq_inv z q2 \<and> (\<exists>n. cq_peek_source q n = Some (Some x))) \<or>
    peek_input_loop k q = Some (None, q\<lparr>cq_next_input_queue := source_after k q\<rparr>) \<and>
    pop_input_loop z k q = Some (None, q\<lparr>cq_next_input_queue := source_after k q\<rparr>) \<and>
    (\<forall>i < k. cq_peek_source q (source_after i q) = Some None)"
  using assms
proof (induction k arbitrary: q)
  case 0
  then show ?case by (simp add: source_after_def)
next
  case (Suc k)
  let ?n = "cq_next_input_queue q"
  let ?q = "q\<lparr>cq_next_input_queue := next_queue ?n\<rparr>"
  obtain m where m: "cq_peek_source q ?n = Some m" using cq_pop_source_peek [OF Suc.prems, of ?n] by blast
  show ?case
  proof (cases m)
    case None
    then have skip: "cq_peek_source q ?n = Some None" using m by simp
    have after: "source_after i ?q = source_after (Suc i) q" for i
      by (simp add: source_after_def funpow_Suc_right del: funpow.simps)
    have "(\<forall>i < Suc k. cq_peek_source q (source_after i q) = Some None) \<longleftrightarrow>
        (\<forall>i < k. cq_peek_source ?q (source_after i ?q) = Some None)"
      unfolding after All_less_Suc2 using skip by (simp add: source_after_def)
    with Suc.IH [of ?q] Suc.prems after show ?thesis unfolding input_loops_skip [OF Suc.prems skip] by simp
  next
    case (Some x)
    then show ?thesis using input_loops_hit [OF Suc.prems, of x] m by blast
  qed
qed

text \<open>The first source, in the cyclic order from \<open>next_input_queue\<close>, that has a message is served.\<close>

lemma cq_peek_pop_input:
  assumes "cq_inv z q"
  shows "\<exists>m q1 q2. cq_peek_input q = Some (m, q1) \<and> cq_pop_input z q = Some (m, q2) \<and> cq_pop_input z q1 = Some (m, q2) \<and>
    cq_inv z q2 \<and> (m = None \<longleftrightarrow> (\<forall>n. cq_peek_source q n = Some None)) \<and> (m = None \<longrightarrow> q2 = q)"
  using input_loops_agree [OF assms, of 3]
proof (elim disjE exE conjE)
  fix x q1 q2 n
  assume "peek_input_loop 3 q = Some (Some x, q1)" "pop_input_loop z 3 q = Some (Some x, q2)"
    "\<forall>j. pop_input_loop z (Suc j) q1 = Some (Some x, q2)" "cq_inv z q2" "cq_peek_source q n = Some (Some x)"
  moreover from this(3) have "pop_input_loop z 3 q1 = Some (Some x, q2)" by (metis numeral_3_eq_3)
  moreover have "\<not> (\<forall>n. cq_peek_source q n = Some None)" using calculation(5) by (metis option.distinct(1) option.inject)
  ultimately show ?thesis unfolding cq_peek_input_def cq_pop_input_def by blast
next
  assume loops: "peek_input_loop 3 q = Some (None, q\<lparr>cq_next_input_queue := source_after 3 q\<rparr>)"
    "pop_input_loop z 3 q = Some (None, q\<lparr>cq_next_input_queue := source_after 3 q\<rparr>)"
    and none: "\<forall>i < 3. cq_peek_source q (source_after i q) = Some None"
  have same: "q\<lparr>cq_next_input_queue := source_after 3 q\<rparr> = q"
    by (simp add: source_after_def numeral_3_eq_3)
  have "cq_peek_source q n = Some None" for n
    by (rule all_sources [of _ "cq_next_input_queue q"])
      (use none [rule_format, of 0] none [rule_format, of 1] none [rule_format, of 2] in
        \<open>simp_all add: source_after_def numeral_2_eq_2\<close>)
  then show ?thesis
    using loops assms unfolding same cq_peek_input_def cq_pop_input_def by blast
qed

lemma cq_has_input_iff:
  assumes "cq_inv z q"
  shows "cq_has_input q \<longleftrightarrow> (\<exists>n. cq_peek_source q n \<noteq> Some None)"
proof -
  have peek: "cq_peek_canister_input q t \<noteq> Some None \<longleftrightarrow> cq_input_schedule t q \<noteq> []" for t
    using cq_peek_canister_input_ok [OF assms, of t]
    by (cases "cq_input_schedule t q") (auto simp: cq_peek_canister_input_def)
  have "iqs_message_count (cq_input_queues_stats q) = bt.total (pair_stat z IqMessages) (cq_queues q)"
    using assms by (auto simp: cq_inv_def stats_exact_def dest: spec [of _ IqMessages])
  also have "0 < \<dots> \<longleftrightarrow> (\<exists>c. has_pending_input q c)"
    unfolding bt.total_pos_iff [OF cq_inv_wf [OF assms]]
    by (simp add: pair_stat_simps has_pending_input_iff)
  also have "\<dots> \<longleftrightarrow> set (cq_schedule q) \<noteq> {}"
    using assms unfolding cq_inv_def schedule_inv_def by (metis Collect_empty_eq)
  also have "\<dots> \<longleftrightarrow> cq_input_schedule LocalSubnet q \<noteq> [] \<or> cq_input_schedule RemoteSubnet q \<noteq> []"
    by (simp add: cq_input_schedule_def)
  finally have "iqs_message_count (cq_input_queues_stats q) > 0 \<longleftrightarrow>
      cq_input_schedule LocalSubnet q \<noteq> [] \<or> cq_input_schedule RemoteSubnet q \<noteq> []" .
  moreover have "(\<exists>n. cq_peek_source q n \<noteq> Some None) \<longleftrightarrow> cq_peek_source q NextIngress \<noteq> Some None \<or>
      cq_peek_source q NextLocalSubnet \<noteq> Some None \<or> cq_peek_source q NextRemoteSubnet \<noteq> Some None"
    by (metis next_input_queue.exhaust)
  then have "(\<exists>n. cq_peek_source q n \<noteq> Some None) \<longleftrightarrow> cq_peek_ingress q \<noteq> None \<or>
      cq_input_schedule LocalSubnet q \<noteq> [] \<or> cq_input_schedule RemoteSubnet q \<noteq> []"
    using peek by (simp add: cq_peek_source_def)
  ultimately show ?thesis
    by (auto simp: cq_has_input_def ing_is_empty_def ing_size_def cq_peek_ingress_def ing_peek_def split: list.splits)
qed

subsection \<open>Round robin over the senders\<close>

fun pop_many ::
  "layout \<Rightarrow> input_queue_type \<Rightarrow> nat \<Rightarrow> 'p::linorder canister_queues
   \<Rightarrow> ('p canister_input_message option list \<times> 'p canister_queues) option" where
  "pop_many z t 0 q = Some ([], q)"
| "pop_many z t (Suc k) q =
     do {
       (m, q1) \<leftarrow> cq_pop_canister_input z q t;
       (ms, q2) \<leftarrow> pop_many z t k q1;
       Some (m # ms, q2)
     }"

lemma pop_many_round:
  assumes "cq_inv z q" and "cq_input_schedule t q = xs @ ys"
  shows "\<exists>q'. pop_many z t (length xs) q =
      Some (map (\<lambda>c. Some (to_input_message (hd (iq_messages (fst (cq_pair q c)))))) xs, q') \<and> cq_inv z q'"
  using assms
proof (induction xs arbitrary: q ys)
  case (Cons c xs)
  then have sched: "cq_input_schedule t q = c # (xs @ ys)" by simp
  obtain m q1 where pop: "cq_pop_canister_input z q t = Some (Some (to_input_message m), q1)" "input_popped z t q m q1"
    using cq_pop_canister_input_ok [OF Cons.prems(1) sched] by blast
  then have inv: "cq_inv z q1" and m: "m = hd (iq_messages (fst (cq_pair q c)))"
    and pair: "c' \<noteq> c \<Longrightarrow> cq_pair q1 c' = cq_pair q c'"
    and sched1: "\<exists>ys1. cq_input_schedule t q1 = xs @ ys1" for c'
    using sched by (auto simp: input_popped_def)
  have "c \<notin> set xs"
    using Cons.prems sched schedule_inv_alt [of q t] by (simp add: cq_inv_def)
  then have "map (\<lambda>c. Some (to_input_message (hd (iq_messages (fst (cq_pair q1 c)))))) xs =
      map (\<lambda>c. Some (to_input_message (hd (iq_messages (fst (cq_pair q c)))))) xs"
    using pair by (metis (no_types, lifting) map_cong)
  then show ?case using Cons.IH [OF inv] sched1 pop(1) m by auto
qed simp

section \<open>Output\<close>

definition output_cycles_fit :: "'p canister_queues \<Rightarrow> 'p request_or_response \<Rightarrow> bool" where
  "output_cycles_fit q msg \<longleftrightarrow>
     unat (oqs_cycles (cq_output_queues_stats q)) + unat (rr_cycles msg) \<le> cycles_max"

definition can_push_output_request :: "'p canister_queues \<Rightarrow> 'p request \<Rightarrow> bool" where
  "can_push_output_request q msg \<longleftrightarrow>
     (case cq_pair q (receiver msg) of (iq, oq) \<Rightarrow>
        length (oq_items oq) + oq_reserved_slots oq < DEFAULT_QUEUE_CAPACITY \<and>
        length (iq_messages iq) + iq_reserved_slots iq < DEFAULT_QUEUE_CAPACITY)"

definition output_request_pushed ::
  "layout \<Rightarrow> 'p::linorder canister_queues \<Rightarrow> 'p request \<Rightarrow> 'p canister_queues \<Rightarrow> bool" where
  "output_request_pushed z q msg q' \<longleftrightarrow>
     cq_inv z q' \<and>
     (\<exists>iq' oq'. cq_pair q' = (cq_pair q)(receiver msg := (iq', oq')) \<and>
        oq_messages oq' = oq_messages (snd (cq_pair q (receiver msg))) @ [Request msg] \<and>
        iq_messages iq' = iq_messages (fst (cq_pair q (receiver msg))) \<and>
        iq_reserved_slots iq' = Suc (iq_reserved_slots (fst (cq_pair q (receiver msg)))) \<and>
        oq_reserved_slots oq' = oq_reserved_slots (snd (cq_pair q (receiver msg)))) \<and>
     cq_schedule q' = cq_schedule q \<and> cq_ingress_queue q' = cq_ingress_queue q \<and>
     (\<forall>s \<in> {ResponseBytes, Reserved, OversizedBytes}.
        cq_stat s q' = cq_stat s q + int (per_output z s (Request msg)) + int (per_input_slot s))"

lemma oq_messages_push:
  "oq_push_request oq m d = Inr oq' \<Longrightarrow> oq_messages oq' = oq_messages oq @ [Request m]"
  "oq_push_response oq rsp = Some oq' \<Longrightarrow> oq_messages oq' = oq_messages oq @ [Response rsp]"
  by (simp_all add: oq_messages_def oq_push_request_ok(1) oq_push_response_ok(1))

lemma cq_push_output_request_get:
  assumes "cq_inv z q1" and "same_view q q1" and "output_cycles_fit q1 (Request msg)"
    and "bt_get (cq_queues q1) (receiver msg) = Some (iq, oq)" and "iq_reserve_slot iq = Inr iq1"
    and "oq_push_request oq msg d = Inr oq1"
    and "q' = (cq_put (receiver msg) (iq1, oq1) q1)
      \<lparr>cq_input_queues_stats := (cq_input_queues_stats q1)\<lparr>iqs_reserved_slots := iqs_reserved_slots (cq_input_queues_stats q1) + 1\<rparr>,
       cq_output_queues_stats := oqs_add_assign (cq_output_queues_stats q1) (oqs_stats_delta (Request msg)),
       cq_memory_usage_stats := mus_add_assign (cq_memory_usage_stats q1) (mus_request_stats_delta z OpPush msg)\<rparr>"
  shows "output_request_pushed z q msg q'"
proof -
  have wf: "bt_wf (cq_queues q1)" using assms(1) by (rule cq_inv_wf)
  have queues: "cq_queues q' = bt_insert (receiver msg) (iq1, oq1) (cq_queues q1)" by (simp add: assms(7) cq_put_def)
  have pair: "cq_pair q (receiver msg) = (iq, oq)" "cq_pair q1 = cq_pair q"
    using assms(2) cq_pair_get [OF assms(4)] by (simp_all add: same_view_def)
  note iq1 = iq_reserve_pair [OF assms(5)] and oq1 = oq_push_request_ok [OF assms(6)]
  have res: "oq_reserved_slots oq1 = oq_reserved_slots oq"
    using oq1(6) by (simp add: oq_reserved_slots_def qwr_reserved_slots_def)
  have stat: "cq_stat s q' = cq_stat s q1 + int (per_output z s (Request msg)) + int (per_input_slot s)" for s
    using stat_output_pushed [of "cq_output_queues_stats q1" "Request msg" s "cq_input_queues_stats q1"
        "cq_memory_usage_stats q1" z] assms(3)
    by (cases s) (simp_all add: assms(7) output_cycles_fit_def mus_stats_delta_def cq_put_def)
  have ok: "pair_ok (iq, oq)" using assms(1,4) by (rule cq_inv_pair)
  then have "pair_ok (iq1, oq1)"
    using iq1(3,4) oq1(7) oq_inv_push_request [OF _ assms(6)] by (simp add: pair_ok_def)
  moreover have "schedule_inv q'"
    by (rule schedule_inv_same [OF _ wf assms(4) queues])
      (use assms(1) iq1(1) in \<open>simp_all add: cq_inv_def assms(7) cq_put_def\<close>)
  moreover have "cq_stat s q' + int (pair_stat z s (iq, oq)) = cq_stat s q1 + int (pair_stat z s (iq1, oq1))" for s
    by (simp add: stat pair_stat_def iq1 oq_messages_push(1) [OF assms(6)] res algebra_simps)
  ultimately have "cq_inv z q'"
    by (intro cq_inv_update [OF assms(1,4) queues]) (simp_all add: assms(7) cq_put_def)
  moreover have "cq_pair q' = (cq_pair q)(receiver msg := (iq1, oq1))"
    by (simp add: fun_eq_iff cq_pair_put [OF wf queues] pair(2))
  moreover have "cq_stat s q1 = cq_stat s q" if "s \<in> {ResponseBytes, Reserved, OversizedBytes}" for s
    using assms(2) that by (auto simp: same_view_def)
  moreover have "cq_schedule q' = cq_schedule q" "cq_ingress_queue q' = cq_ingress_queue q"
    using assms(2) by (simp_all add: same_view_def assms(7) cq_put_def)
  moreover have "\<exists>iq' oq'. (cq_pair q)(receiver msg := (iq1, oq1)) = (cq_pair q)(receiver msg := (iq', oq')) \<and>
      oq_messages oq' = oq_messages oq @ [Request msg] \<and> iq_messages iq' = iq_messages iq \<and>
      iq_reserved_slots iq' = Suc (iq_reserved_slots iq) \<and> oq_reserved_slots oq' = oq_reserved_slots oq"
    using iq1 oq_messages_push(1) [OF assms(6)] res by blast
  ultimately show ?thesis
    unfolding output_request_pushed_def pair(1) using stat by simp
qed

lemma cq_push_output_request_spec:
  assumes "cq_inv z q" and "output_cycles_fit q (Request msg)"
  shows "\<exists>q' r. cq_push_output_request z q msg t = Some (q', r) \<and>
    (if can_push_output_request q msg then r = Inr () \<and> output_request_pushed z q msg q'
     else (\<exists>cap. r = Inl (QueueFull cap, msg)) \<and> cq_inv z q' \<and> same_view q q')"
proof -
  obtain q1 iq oq where g: "cq_get_or_insert_queues z q (receiver msg) = (q1, iq, oq)" by (metis prod_cases3)
  note gi = cq_get_or_insert [OF assms(1) g] and gp = cq_get_or_insert_pair(1) [OF assms(1) g]
  have view: "same_view q q1" using assms(1) g by (rule cq_get_or_insert_same_view)
  have ok: "pair_ok (iq, oq)" using gi(1,2) by (rule cq_inv_pair)
  have res_iff: "(\<exists>iq1. iq_reserve_slot iq = Inr iq1) \<longleftrightarrow>
      length (iq_messages iq) + iq_reserved_slots iq < DEFAULT_QUEUE_CAPACITY"
    using iq.reserve_iff [of iq] ok by (auto simp: pair_ok_def iq_num_messages_messages)
  show ?thesis
  proof (cases "can_push_output_request q msg")
    case True
    then have slot: "oq_check_has_slot oq = Inr ()" and "\<exists>iq1. iq_reserve_slot iq = Inr iq1"
      using ok res_iff by (simp_all add: can_push_output_request_def gp oq_check_has_slot_iff pair_ok_def)
    then obtain iq1 oq1 where r: "iq_reserve_slot iq = Inr iq1" "oq_push_request oq msg (time_add t REQUEST_LIFETIME) = Inr oq1"
      using oq_push_request_iff [of oq msg "time_add t REQUEST_LIFETIME"]
      by (auto simp: oq_check_has_slot_iff oq_reserved_slots_def qwr_reserved_slots_def)
    have "output_cycles_fit q1 (Request msg)" using assms(2) gi(4) by (simp add: output_cycles_fit_def)
    from cq_push_output_request_get [OF gi(1) view this gi(2) r refl] True show ?thesis
      by (simp add: cq_push_output_request_def g slot r Let_def cq_put_def)
  next
    case False
    have full: "oq_check_has_slot oq = Inl e \<Longrightarrow> \<exists>cap. e = QueueFull cap"
      "iq_reserve_slot iq = Inl e' \<Longrightarrow> \<exists>cap. e' = QueueFull cap" for e e'
      by (auto simp: oq_check_has_slot_def iq_reserve_slot_def qwr_reserve_slot_def qwr_check_has_slot_def split: if_splits)
    have "\<not> (oq_check_has_slot oq = Inr () \<and> (\<exists>iq1. iq_reserve_slot iq = Inr iq1))"
      using False ok res_iff by (auto simp: can_push_output_request_def gp oq_check_has_slot_iff pair_ok_def)
    then have "\<exists>cap. cq_push_output_request z q msg t = Some (q1, Inl (QueueFull cap, msg))"
      using full by (cases "oq_check_has_slot oq"; cases "iq_reserve_slot iq") (auto simp: cq_push_output_request_def g)
    then show ?thesis using False gi(1) view by auto
  qed
qed

text \<open>A response can be pushed when a slot is reserved for it.\<close>

lemma cq_push_output_response_spec:
  assumes "cq_inv z q" and "output_cycles_fit q (Response msg)"
  shows "if 0 < oq_reserved_slots (snd (cq_pair q (originator msg)))
    then \<exists>q' oq'. cq_push_output_response z q msg = Some q' \<and> cq_inv z q' \<and>
      cq_pair q' = (cq_pair q)(originator msg := (fst (cq_pair q (originator msg)), oq')) \<and>
      oq_messages oq' = oq_messages (snd (cq_pair q (originator msg))) @ [Response msg] \<and>
      Suc (oq_reserved_slots oq') = oq_reserved_slots (snd (cq_pair q (originator msg))) \<and>
      (\<forall>s \<in> {ResponseBytes, Reserved, OversizedBytes}.
        cq_stat s q' = cq_stat s q + int (per_output z s (Response msg)) - int (per_output_slot s))
    else cq_push_output_response z q msg = None"
proof (cases "bt_get (cq_queues q) (originator msg)")
  case None
  then show ?thesis
    by (simp add: cq_push_output_response_def cq_pair_def oq_new_def oq_reserved_slots_def qwr_reserved_slots_def qwr_new_def)
next
  case (Some v)
  obtain iq oq where v: "v = (iq, oq)" by (cases v)
  have pair: "cq_pair q (originator msg) = (iq, oq)" using Some v by (simp add: cq_pair_get)
  have wf: "bt_wf (cq_queues q)" using assms(1) by (rule cq_inv_wf)
  show ?thesis
  proof (cases "0 < oq_reserved_slots oq")
    case False
    then have "oq_push_response oq msg = None"
      using oq_push_response_iff [of oq msg] by (auto simp: oq_reserved_slots_def qwr_reserved_slots_def)
    then show ?thesis using False Some by (simp add: cq_push_output_response_def pair v)
  next
    case True
    then obtain oq1 where push: "oq_push_response oq msg = Some oq1"
      using oq_push_response_iff [of oq msg] by (auto simp: oq_reserved_slots_def qwr_reserved_slots_def)
    note ok1 = oq_push_response_ok [OF push]
    have res: "Suc (oq_reserved_slots oq1) = oq_reserved_slots oq"
      using ok1(6) by (simp add: oq_reserved_slots_def qwr_reserved_slots_def)
    let ?q = "(cq_put (originator msg) (iq, oq1) q)
      \<lparr>cq_memory_usage_stats := mus_add_assign (cq_memory_usage_stats q) (mus_response_stats_delta z OpPush msg),
       cq_output_queues_stats := oqs_add_assign (cq_output_queues_stats q) (oqs_stats_delta (Response msg))\<rparr>"
    have run: "cq_push_output_response z q msg = Some ?q"
      by (simp add: cq_push_output_response_def Some v push Let_def cq_put_def)
    have queues: "cq_queues ?q = bt_insert (originator msg) (iq, oq1) (cq_queues q)" by (simp add: cq_put_def)
    have stat: "cq_stat s ?q = cq_stat s q + int (per_output z s (Response msg)) - int (per_output_slot s)" for s
      using stat_output_pushed [of "cq_output_queues_stats q" "Response msg" s "cq_input_queues_stats q"
          "cq_memory_usage_stats q" z] assms(2)
      by (cases s) (simp_all add: output_cycles_fit_def mus_stats_delta_def cq_put_def)
    have "pair_ok (iq, oq)" using cq_inv_pair [OF assms(1) Some] v by simp
    then have "pair_ok (iq, oq1)" using ok1(7) oq_inv_push_response [OF _ push] by (simp add: pair_ok_def)
    moreover have "schedule_inv ?q"
      by (rule schedule_inv_same [OF _ wf Some [unfolded v] queues])
        (use assms(1) in \<open>simp_all add: cq_inv_def cq_put_def\<close>)
    moreover have "cq_stat s ?q + int (pair_stat z s (iq, oq)) = cq_stat s q + int (pair_stat z s (iq, oq1))" for s
      unfolding stat pair_stat_def fst_conv snd_conv res [symmetric] oq_messages_push(2) [OF push]
      by (simp add: algebra_simps)
    ultimately have "cq_inv z ?q"
      by (intro cq_inv_update [OF assms(1) Some [unfolded v] queues]) (simp_all add: cq_put_def)
    moreover have "cq_pair ?q = (cq_pair q)(originator msg := (iq, oq1))"
      by (simp add: fun_eq_iff cq_pair_put [OF wf queues])
    ultimately have "\<exists>q' oq'. cq_push_output_response z q msg = Some q' \<and> cq_inv z q' \<and>
        cq_pair q' = (cq_pair q)(originator msg := (iq, oq')) \<and>
        oq_messages oq' = oq_messages oq @ [Response msg] \<and> Suc (oq_reserved_slots oq') = oq_reserved_slots oq \<and>
        (\<forall>s \<in> {ResponseBytes, Reserved, OversizedBytes}.
          cq_stat s q' = cq_stat s q + int (per_output z s (Response msg)) - int (per_output_slot s))"
      using run res stat oq_messages_push(2) [OF push] by blast
    then show ?thesis using True unfolding pair fst_conv snd_conv by simp
  qed
qed

text \<open>
  Messages leave an output queue in several ways; each of them puts the queue back
  without some messages, and takes those messages off the statistics.
\<close>

lemma cq_output_pop_pair:
  assumes "cq_inv z q" and "bt_get (cq_queues q) c = Some (iq, oq)" and "oq_messages oq = m # ms"
  shows "\<exists>oq1 q1. oq_pop oq = Some (Some m, oq1) \<and> oq_messages oq1 = ms \<and> oq_inv oq1 \<and>
    cq_output_popped z m (cq_put c (iq, oq1) q) = Some q1 \<and> cq_inv z q1 \<and>
    cq_pair q1 = (cq_pair q)(c := (iq, oq1)) \<and> oq_reserved_slots oq1 = oq_reserved_slots oq \<and>
    oq_num_messages oq1 = length ms \<and> cq_schedule q1 = cq_schedule q \<and> cq_ingress_queue q1 = cq_ingress_queue q \<and>
    bt_get (cq_queues q1) = (bt_get (cq_queues q))(c \<mapsto> (iq, oq1))"
proof -
  have wf: "bt_wf (cq_queues q)" using assms(1) by (rule cq_inv_wf)
  have ok: "pair_ok (iq, oq)" using assms(1,2) by (rule cq_inv_pair)
  then have inv: "oq_inv oq" by (simp add: pair_ok_def)
  have ne: "oq_items oq \<noteq> []" using assms(3) by (auto simp: oq_messages_def)
  obtain oq1 where pop: "oq_pop oq = Some (Some m, oq1)" "oq_inv oq1" "oq_messages oq1 = ms"
      "oq_reserved_slots oq1 = oq_reserved_slots oq" "capacity (oq_queue oq1) = capacity (oq_queue oq)"
  proof (rule oq_pop_message [OF inv ne], goal_cases)
    case (1 m' q')
    then show thesis
      using that [of q'] assms(3) by (simp add: oq_messages_def oq_reserved_slots_def qwr_reserved_slots_def)
  qed
  let ?q0 = "cq_put c (iq, oq1) q"
  have stat0: "cq_stat s ?q0 = cq_stat s q" for s by (simp add: cq_put_def)
  have "int (per_output z s m) \<le> cq_stat s ?q0" for s
    unfolding stat0 by (rule cq_stat_ge_message(2) [OF assms(1,2)]) (simp add: assms(3))
  then obtain q1 where q1: "cq_output_popped z m ?q0 = Some q1"
      "\<And>s. cq_stat s q1 = cq_stat s ?q0 - int (per_output z s m)"
      "q1 = ?q0\<lparr>cq_output_queues_stats := cq_output_queues_stats q1, cq_memory_usage_stats := cq_memory_usage_stats q1\<rparr>"
    using stat_output_popped [of z m ?q0] by blast
  have fields: "cq_queues q1 = bt_insert c (iq, oq1) (cq_queues q)" "cq_ingress_queue q1 = cq_ingress_queue q"
    "cq_local_subnet_input_schedule q1 = cq_local_subnet_input_schedule q"
    "cq_remote_subnet_input_schedule q1 = cq_remote_subnet_input_schedule q"
    by (subst q1(3), simp add: cq_put_def)+
  have "pair_ok (iq, oq1)" using ok pop(2,5) by (simp add: pair_ok_def)
  moreover have "schedule_inv q1"
    by (rule schedule_inv_same [OF _ wf assms(2) fields(1)]) (use assms(1) fields in \<open>simp_all add: cq_inv_def\<close>)
  moreover have "cq_stat s q1 + int (pair_stat z s (iq, oq)) = cq_stat s q + int (pair_stat z s (iq, oq1))" for s
    using q1(2) by (simp add: stat0 pair_stat_def assms(3) pop(3,4))
  ultimately have "cq_inv z q1" by (intro cq_inv_update [OF assms(1,2) fields(1)]) (simp_all add: fields)
  moreover have "cq_pair q1 = (cq_pair q)(c := (iq, oq1))"
    by (simp add: fun_eq_iff cq_pair_put [OF wf fields(1)])
  moreover have "bt_get (cq_queues q1) = (bt_get (cq_queues q))(c \<mapsto> (iq, oq1))"
    by (simp add: fun_eq_iff fields(1) bt.get_ins [OF wf])
  moreover have "oq_num_messages oq1 = length ms" using oq_inv_num [OF pop(2)] pop(3) by (simp add: oq_messages_def)
  ultimately show ?thesis using pop q1(1) fields by auto
qed

lemma oq_peek_messages: "oq_inv q \<Longrightarrow> oq_peek q = Some (head_opt (oq_messages q))"
  by (cases "oq_items q")
    (auto simp: oq_peek_def qwr_peek_def oq_inv_def oq_checked_def oq_messages_def head_opt_def)

section \<open>Garbage collection\<close>

text \<open>What is observable of a pair: its messages and its reservations.\<close>

definition cq_view ::
  "'p canister_queues \<Rightarrow> 'p \<Rightarrow> 'p request_or_response list \<times> nat \<times> 'p request_or_response list \<times> nat" where
  "cq_view q c =
     (case cq_pair q c of (iq, oq) \<Rightarrow>
        (iq_messages iq, iq_reserved_slots iq, oq_messages oq, oq_reserved_slots oq))"

definition pair_used :: "'p input_queue \<times> 'p output_queue \<Rightarrow> bool" where
  "pair_used v \<longleftrightarrow> iq_has_used_slots (fst v) \<or> oq_has_used_slots (snd v)"

lemma unused_pair:
  assumes "\<not> pair_used v"
  shows "iq_messages (fst v) = []" "iq_reserved_slots (fst v) = 0"
    "oq_messages (snd v) = []" "oq_reserved_slots (snd v) = 0"
    "pair_stat z s v = pair_base z s" "iq_calculate_size_bytes z (fst v) = size_of_InputQueue z"
  using assms
  by (auto simp: pair_used_def iq_has_used_slots_def oq_has_used_slots_def qwr_has_used_slots_def iq_messages_def
      oq_messages_def iq_reserved_slots_def oq_reserved_slots_def pair_stat_def iq_calculate_size_bytes_def
      qwr_calculate_stat_sum_def)

lemma gc_adjust_size_ok:
  assumes "length (filter (\<lambda>e. \<not> pair_used (snd e)) es) * size_of_InputQueue z \<le> n"
  shows "gc_adjust_size z es n b =
    Some (n - length (filter (\<lambda>e. \<not> pair_used (snd e)) es) * size_of_InputQueue z,
          b \<or> (\<exists>e \<in> set es. \<not> pair_used (snd e)))"
  using assms
proof (induction es arbitrary: n b)
  case (Cons e es)
  obtain c iq oq where e: "e = (c, iq, oq)" by (cases e)
  show ?case
  proof (cases "pair_used (iq, oq)")
    case True
    then show ?thesis using Cons.IH [of n b] Cons.prems by (auto simp: e pair_used_def)
  next
    case False
    have size: "iq_calculate_size_bytes z iq = size_of_InputQueue z" using unused_pair(6) [OF False] by simp
    have "size_of_InputQueue z \<le> n" using Cons.prems False by (simp add: e)
    then have "gc_adjust_size z (e # es) n b = gc_adjust_size z es (n - size_of_InputQueue z) True"
      using False by (simp add: e pair_used_def size sub_usize_def)
    moreover have "length (filter (\<lambda>e. \<not> pair_used (snd e)) es) * size_of_InputQueue z \<le> n - size_of_InputQueue z"
      using Cons.prems False by (simp add: e)
    ultimately show ?thesis using Cons.IH [of "n - size_of_InputQueue z" True] False by (simp add: e)
  qed
qed simp

lemma total_retain:
  "bt.total f m = bt.total f (bt_retain (\<lambda>_ v. P v) m) + sum_list (map (\<lambda>e. f (snd e)) (filter (\<lambda>e. \<not> P (snd e)) m))"
  by (simp add: bt.total_def bt_retain_def case_prod_unfold)
    (rule sum_list_map_filter_nat)

lemma cq_garbage_collect_impl_ok:
  assumes "cq_inv z q"
  defines "k \<equiv> length (filter (\<lambda>e. \<not> pair_used (snd e)) (cq_queues q))"
  shows "cq_garbage_collect_impl z q = Some (q\<lparr>cq_queues := bt_retain (\<lambda>_ v. pair_used v) (cq_queues q),
      cq_input_queues_stats := (cq_input_queues_stats q)
        \<lparr>iqs_size_bytes := iqs_size_bytes (cq_input_queues_stats q) - k * size_of_InputQueue z\<rparr>\<rparr>)"
    and "k * size_of_InputQueue z \<le> iqs_size_bytes (cq_input_queues_stats q)"
proof -
  have unused: "sum_list (map (\<lambda>e. pair_stat z s (snd e)) (filter (\<lambda>e. \<not> pair_used (snd e)) es)) =
      length (filter (\<lambda>e. \<not> pair_used (snd e)) es) * pair_base z s" for s and es :: "('a \<times> 'a input_queue \<times> 'a output_queue) list"
    by (induction es) (auto simp: unused_pair(5))
  have "iqs_size_bytes (cq_input_queues_stats q) = bt.total (pair_stat z IqSize) (cq_queues q)"
    using assms(1) by (auto simp: cq_inv_def stats_exact_def dest: spec [of _ IqSize])
  then show le: "k * size_of_InputQueue z \<le> iqs_size_bytes (cq_input_queues_stats q)"
    using total_retain [of "pair_stat z IqSize" "cq_queues q" pair_used] unused [of IqSize "cq_queues q"]
    by (simp add: k_def)
  have retain: "bt_retain (\<lambda>_ (iq, oq). iq_has_used_slots iq \<or> oq_has_used_slots oq) = bt_retain (\<lambda>_ v. pair_used v)"
    by (simp add: pair_used_def case_prod_unfold)
  have none: "\<not> (\<exists>e \<in> set m. \<not> pair_used (snd e)) \<Longrightarrow> bt_retain (\<lambda>_ v. pair_used v) m = m" for m
    by (auto simp: bt_retain_def filter_id_conv)
  note adj = gc_adjust_size_ok [OF le [unfolded k_def]]
  show "cq_garbage_collect_impl z q = Some (q\<lparr>cq_queues := bt_retain (\<lambda>_ v. pair_used v) (cq_queues q),
      cq_input_queues_stats := (cq_input_queues_stats q)
        \<lparr>iqs_size_bytes := iqs_size_bytes (cq_input_queues_stats q) - k * size_of_InputQueue z\<rparr>\<rparr>)"
  proof (cases "cq_queues q = []")
    case True
    then show ?thesis by (simp add: cq_garbage_collect_impl_def k_def bt_retain_def)
  next
    case False
    then show ?thesis
      using none [of "cq_queues q"]
      by (cases "\<exists>e \<in> set (cq_queues q). \<not> pair_used (snd e)")
        (simp_all add: cq_garbage_collect_impl_def adj retain k_def Let_def)
  qed
qed

lemma cq_gc_inv:
  assumes "cq_inv z q" and "cq_garbage_collect_impl z q = Some q1"
  shows "cq_inv z q1" and "cq_queues q1 = bt_retain (\<lambda>_ v. pair_used v) (cq_queues q)"
    and "cq_ingress_queue q1 = cq_ingress_queue q" and "cq_memory_usage_stats q1 = cq_memory_usage_stats q"
proof -
  note gc = cq_garbage_collect_impl_ok [OF assms(1)]
  let ?k = "length (filter (\<lambda>e. \<not> pair_used (snd e)) (cq_queues q))"
  have q1: "q1 = q\<lparr>cq_queues := bt_retain (\<lambda>_ v. pair_used v) (cq_queues q),
      cq_input_queues_stats := (cq_input_queues_stats q)
        \<lparr>iqs_size_bytes := iqs_size_bytes (cq_input_queues_stats q) - ?k * size_of_InputQueue z\<rparr>\<rparr>"
    using gc(1) assms(2) by simp
  then show queues: "cq_queues q1 = bt_retain (\<lambda>_ v. pair_used v) (cq_queues q)"
    and "cq_ingress_queue q1 = cq_ingress_queue q" "cq_memory_usage_stats q1 = cq_memory_usage_stats q" by simp_all
  have wf: "bt_wf (cq_queues q)" using assms(1) by (rule cq_inv_wf)
  note get = bt_get_retain [OF wf, of "\<lambda>_ v. pair_used v"]
  have unused: "sum_list (map (\<lambda>e. pair_stat z s (snd e)) (filter (\<lambda>e. \<not> pair_used (snd e)) es)) =
      length (filter (\<lambda>e. \<not> pair_used (snd e)) es) * pair_base z s" for s and es :: "('a \<times> 'a input_queue \<times> 'a output_queue) list"
    by (induction es) (auto simp: unused_pair(5))
  have "cq_stat s q1 = cq_stat s q - int (?k * pair_base z s)" for s
    using gc(2) by (cases s) (simp_all add: q1 of_nat_diff)
  then have "stats_exact z q1"
    using assms(1) total_retain [of "pair_stat z _" "cq_queues q" pair_used] unused
    by (simp add: stats_exact_def cq_inv_def queues)
  moreover have "has_pending_input q1 c = has_pending_input q c" for c
    by (cases "bt_get (cq_queues q) c") (auto simp: has_pending_input_def queues get unused_pair(1))
  then have "schedule_inv q1" using assms(1) by (simp add: schedule_inv_def cq_inv_def q1)
  ultimately show "cq_inv z q1"
    using assms(1) bt_wf_retain [OF wf] unfolding cq_inv_def queues get
    by (auto simp: q1 split: option.splits if_splits)
qed

text \<open>A state with no queues and no ingress is the default one, up to the transient counter.\<close>

lemma cq_empty_default:
  assumes "cq_inv z q" and "cq_queues q = []" and "ing_is_empty (cq_ingress_queue q)"
  shows "q\<lparr>cq_next_input_queue := NextLocalSubnet\<rparr> =
    (cq_default z)\<lparr>cq_memory_usage_stats := mus_default\<lparr>mus_transient_stream_responses_size_bytes :=
      mus_transient_stream_responses_size_bytes (cq_memory_usage_stats q)\<rparr>\<rparr>"
proof -
  have "has_pending_input q c = False" for c by (simp add: has_pending_input_def assms(2))
  then have sched: "cq_local_subnet_input_schedule q = []" "cq_remote_subnet_input_schedule q = []"
    using assms(1) by (auto simp: cq_inv_def schedule_inv_def)
  have zero: "cq_stat s q = 0" for s
    using assms(1,2) by (simp add: cq_inv_def stats_exact_def bt.total_def)
  have iqs: "cq_input_queues_stats q = iqs_default"
    using zero [of IqMessages] zero [of IqResponses] zero [of IqReserved] zero [of IqSize] zero [of IqCycles]
    by (intro input_queues_stats.equality) (simp_all add: iqs_default_def cycles_zero_def unat_eq_0)
  have oqs: "cq_output_queues_stats q = oqs_default"
    using zero [of OqMessages] zero [of OqCycles]
    by (intro output_queues_stats.equality) (simp_all add: oqs_default_def cycles_zero_def unat_eq_0)
  have mus: "cq_memory_usage_stats q = mus_default\<lparr>mus_transient_stream_responses_size_bytes :=
      mus_transient_stream_responses_size_bytes (cq_memory_usage_stats q)\<rparr>"
    using zero [of ResponseBytes] zero [of Reserved] zero [of OversizedBytes]
    by (intro memory_usage_stats.equality) (simp_all add: mus_default_def)
  have "cq_ingress_queue q = ing_default z"
    using assms(1,3) by (intro ingress_queue.equality)
      (simp_all add: cq_inv_def ing_inv_def ing_default_def ing_is_empty_def ing_size_def)
  with sched iqs oqs mus assms(2) show ?thesis
    by (intro canister_queues.equality) (simp_all add: cq_default_def)
qed

lemma cq_garbage_collect_ok:
  assumes "cq_inv z q"
  obtains q' where "cq_garbage_collect z q = Some q'" and "cq_inv z q'"
    and "cq_queues q' = bt_retain (\<lambda>_ v. pair_used v) (cq_queues q)"
    and "\<And>c. cq_view q' c = cq_view q c"
    and "cq_queues q' = [] \<and> ing_is_empty (cq_ingress_queue q') \<Longrightarrow>
      q' = (cq_default z)\<lparr>cq_memory_usage_stats := mus_default\<lparr>mus_transient_stream_responses_size_bytes :=
        mus_transient_stream_responses_size_bytes (cq_memory_usage_stats q)\<rparr>\<rparr>"
proof -
  obtain q1 where q1: "cq_garbage_collect_impl z q = Some q1" using cq_garbage_collect_impl_ok(1) [OF assms] by blast
  note gc = cq_gc_inv [OF assms q1]
  let ?q = "if cq_queues q1 = [] \<and> ing_is_empty (cq_ingress_queue q1)
    then q1\<lparr>cq_next_input_queue := NextLocalSubnet\<rparr> else q1"
  have "cq_garbage_collect z q = Some ?q" by (simp add: cq_garbage_collect_def q1)
  moreover have "cq_inv z ?q" using gc(1) by simp
  moreover have "cq_queues ?q = bt_retain (\<lambda>_ v. pair_used v) (cq_queues q)" using gc(2) by simp
  moreover have "cq_view ?q c = cq_view q c" for c
    using bt_get_retain [OF cq_inv_wf [OF assms], of "\<lambda>_ v. pair_used v" c]
    by (cases "bt_get (cq_queues q) c")
      (auto simp: cq_view_def cq_pair_def gc(2) unused_pair pair_stat_new split: prod.splits dest: unused_pair(1-4))
  moreover have "?q = (cq_default z)\<lparr>cq_memory_usage_stats := mus_default\<lparr>mus_transient_stream_responses_size_bytes :=
        mus_transient_stream_responses_size_bytes (cq_memory_usage_stats q)\<rparr>\<rparr>"
    if "cq_queues ?q = [] \<and> ing_is_empty (cq_ingress_queue ?q)"
    using cq_empty_default [OF gc(1)] gc(4) that
    by (cases "cq_queues q1 = [] \<and> ing_is_empty (cq_ingress_queue q1)") simp_all
  ultimately show thesis by (rule that)
qed

section \<open>Timing out requests\<close>

lemma sum_map_filter_split:
  fixes f :: "'p request_or_response \<Rightarrow> nat"
  assumes "\<And>j r. e j = Some r \<Longrightarrow> s j = Some (Request r)"
    and "\<And>j. s' j = (if e j = None then s j else None)"
  shows "sum_list (map f (List.map_filter s ns)) =
    sum_list (map (\<lambda>r. f (Request r)) (List.map_filter e ns)) + sum_list (map f (List.map_filter s' ns))"
proof (induction ns)
  case (Cons j ns)
  then show ?case
    using assms(1) [of j] by (cases "e j"; cases "s j") (auto simp: List.map_filter_simps assms(2))
qed (simp add: List.map_filter_simps)

lemma oq_time_out_sums:
  fixes f :: "'p request_or_response \<Rightarrow> nat"
  assumes "oq_inv q" and "oq_time_out_requests q t = Some (rs, q')"
  shows "sum_list (map f (oq_messages q)) = sum_list (map (\<lambda>r. f (Request r)) rs) + sum_list (map f (oq_messages q'))"
proof -
  have rs: "rs = List.map_filter (expired_request q t) [0..<oq_end q]" and all: "timed_out_all q t q'"
    using oq_time_out_requests_all [OF assms] by (simp_all add: expired_requests_def)
  have "expired_request q t j = Some r \<Longrightarrow> oq_slot q j = Some (Request r)" for j r
    by (auto simp: expired_request_def split: if_splits elim!: request_of.elims)
  moreover have "oq_slot q' j = (if expired_request q t j = None then oq_slot q j else None)" for j
    using all by (simp add: timed_out_all_def)
  ultimately show ?thesis
    using sum_map_filter_split [of "expired_request q t" "oq_slot q" "oq_slot q'" f "[0..<oq_end q]"] all
    by (simp add: rs oq_messages_def somes_slots timed_out_all_def)
qed

lemma generate_timeout_response_eq:
  "\<exists>rsp. generate_timeout_response r = Response rsp \<and> originator rsp = sender r \<and> respondent rsp = receiver r \<and>
    originator_reply_callback rsp = sender_reply_callback r \<and> refund rsp = payment r"
  by (simp add: generate_timeout_response_def)

text \<open>How the inner loop changes the statistics and the schedule.\<close>

definition replies_stat :: "layout \<Rightarrow> stat \<Rightarrow> 'p request list \<Rightarrow> int" where
  "replies_stat z s rs =
     int (sum_list (map (\<lambda>r. per_input z s (generate_timeout_response r)) rs))
     - int (sum_list (map (\<lambda>r. per_output z s (Request r)) rs)) - int (per_input_slot s * length rs)"

lemma time_out_reply_step:
  fixes q :: "'p canister_queues" and r :: "'p request"
  assumes "\<And>s. s \<noteq> IqReserved \<Longrightarrow> s \<noteq> Reserved \<Longrightarrow> int (per_output z s (Request r)) \<le> cq_stat s q"
    and "unat (iqs_cycles (cq_input_queues_stats q)) + unat (payment r) \<le> cycles_max"
  shows "\<exists>ms os. mus_sub_assign (cq_memory_usage_stats q) (mus_stats_delta z OpPop (Request r)) = Some ms \<and>
    oqs_sub_assign (cq_output_queues_stats q) (oqs_stats_delta (Request r)) = Some os \<and>
    (\<forall>s. running_stat s (iqs_add_assign (cq_input_queues_stats q) (iqs_stats_delta z OpPush (generate_timeout_response r))) os
        (mus_add_assign ms (mus_stats_delta z OpPush (generate_timeout_response r))) =
      cq_stat s q + replies_stat z s [r])"
proof -
  obtain rsp where rsp: "generate_timeout_response r = Response rsp" "refund rsp = payment r"
    using generate_timeout_response_eq [of r] by blast
  obtain q' :: "'p canister_queues" where pop: "cq_output_popped z (Request r) q = Some q'"
      "\<And>s. cq_stat s q' = cq_stat s q - int (per_output z s (Request r))"
      "q' = q\<lparr>cq_output_queues_stats := cq_output_queues_stats q', cq_memory_usage_stats := cq_memory_usage_stats q'\<rparr>"
    using stat_output_popped [of z "Request r" q] assms(1) by blast
  have iqs: "cq_input_queues_stats q' = cq_input_queues_stats q" by (subst pop(3)) simp
  have "running_stat s (iqs_add_assign (cq_input_queues_stats q) (iqs_stats_delta z OpPush (Response rsp)))
      (cq_output_queues_stats q') (mus_add_assign (cq_memory_usage_stats q') (mus_stats_delta z OpPush (Response rsp))) =
    cq_stat s q + replies_stat z s [r]" for s
    using stat_input_pushed [of "cq_input_queues_stats q" "Response rsp" s z "cq_output_queues_stats q'"
        "cq_memory_usage_stats q'"] assms(2) pop(2) [of s] rsp iqs
    by (simp add: replies_stat_def)
  moreover have "mus_sub_assign (cq_memory_usage_stats q) (mus_stats_delta z OpPop (Request r)) = Some (cq_memory_usage_stats q')"
    "oqs_sub_assign (cq_output_queues_stats q) (oqs_stats_delta (Request r)) = Some (cq_output_queues_stats q')"
    using pop(1) by (auto simp: cq_output_popped_def)
  ultimately show ?thesis using rsp(1) by metis
qed

definition reply_type :: "'p \<Rightarrow> ('p \<Rightarrow> bool) \<Rightarrow> 'p \<Rightarrow> input_queue_type" where
  "reply_type own local_canister c = (if c = own \<or> local_canister c then LocalSubnet else RemoteSubnet)"

text \<open>The part of the state that the loop changes, besides the statistics: the schedules.\<close>

definition replied ::
  "'p \<Rightarrow> ('p \<Rightarrow> bool) \<Rightarrow> 'p \<Rightarrow> 'p input_queue \<Rightarrow> 'p request list \<Rightarrow> 'p canister_queues \<Rightarrow> 'p canister_queues \<Rightarrow> bool" where
  "replied own local_canister c iq rs q q' \<longleftrightarrow>
     (let new = (if rs \<noteq> [] \<and> iq_messages iq = [] then [c] else []);
          t = reply_type own local_canister c in
      cq_input_schedule t q' = cq_input_schedule t q @ new \<and>
      cq_input_schedule (other_type t) q' = cq_input_schedule (other_type t) q \<and>
      cq_queues q' = cq_queues q \<and> cq_ingress_queue q' = cq_ingress_queue q \<and>
      cq_next_input_queue q' = cq_next_input_queue q)"

lemma other_type_simps [simp]: "other_type LocalSubnet = RemoteSubnet" "other_type RemoteSubnet = LocalSubnet"
  by (simp_all add: other_type_def)

lemma schedule_push_replied:
  assumes "q' = (if iq_messages iq = [] then cq_schedule_push (reply_type own lc c) c q0 else q0)"
    and "cq_queues q0 = cq_queues q" "cq_ingress_queue q0 = cq_ingress_queue q"
    and "cq_next_input_queue q0 = cq_next_input_queue q"
    and "cq_local_subnet_input_schedule q0 = cq_local_subnet_input_schedule q"
    and "cq_remote_subnet_input_schedule q0 = cq_remote_subnet_input_schedule q"
  shows "replied own lc c iq [r] q q'"
  using assms
  by (auto simp: replied_def Let_def reply_type_def cq_schedule_push_def cq_input_schedule_def)

lemma replied_trans:
  assumes "replied own lc c iq [r] q q1" and "iq_messages iq1 \<noteq> []" and "replied own lc c iq1 rs q1 q'"
  shows "replied own lc c iq (r # rs) q q'"
  using assms by (auto simp: replied_def Let_def)

lemma time_out_replies_ok:
  assumes "length rs \<le> iq_reserved_slots iq" and "iq_inv iq"
    and "\<And>s. s \<noteq> IqReserved \<Longrightarrow> s \<noteq> Reserved \<Longrightarrow>
      int (sum_list (map (\<lambda>r. per_output z s (Request r)) rs)) \<le> cq_stat s q"
    and "unat (iqs_cycles (cq_input_queues_stats q)) + unat (oqs_cycles (cq_output_queues_stats q)) \<le> cycles_max"
  shows "\<exists>iq' q'. time_out_replies z own lc c rs iq q n = Some (iq', q', n + length rs) \<and>
    iq_messages iq' = iq_messages iq @ map generate_timeout_response rs \<and>
    iq_reserved_slots iq' + length rs = iq_reserved_slots iq \<and> iq_inv iq' \<and>
    capacity (iq_queue iq') = capacity (iq_queue iq) \<and>
    (\<forall>s. cq_stat s q' = cq_stat s q + replies_stat z s rs) \<and> replied own lc c iq rs q q'"
  using assms
proof (induction rs arbitrary: iq q n)
  case Nil
  then show ?case by (simp add: replies_stat_def replied_def)
next
  case (Cons r rs)
  have le: "int (per_output z s (Request r)) \<le> cq_stat s q" if "s \<noteq> IqReserved" "s \<noteq> Reserved" for s
    using Cons.prems(3) [OF that] by simp
  have cyc: "unat (iqs_cycles (cq_input_queues_stats q)) + unat (payment r) \<le> cycles_max"
    using le [of OqCycles] Cons.prems(4) by simp
  obtain ms os where st: "mus_sub_assign (cq_memory_usage_stats q) (mus_stats_delta z OpPop (Request r)) = Some ms"
      "oqs_sub_assign (cq_output_queues_stats q) (oqs_stats_delta (Request r)) = Some os"
      "\<And>s. running_stat s (iqs_add_assign (cq_input_queues_stats q) (iqs_stats_delta z OpPush (generate_timeout_response r))) os
        (mus_add_assign ms (mus_stats_delta z OpPush (generate_timeout_response r))) = cq_stat s q + replies_stat z s [r]"
    using time_out_reply_step [OF le cyc] by blast
  obtain rsp where rsp: "generate_timeout_response r = Response rsp" "refund rsp = payment r"
    using generate_timeout_response_eq [of r] by blast
  obtain iq1 where push: "iq_push iq (Response rsp) = Inr iq1"
    using iq_push_iff [of iq "Response rsp"] Cons.prems(1) by auto
  note ok = iq_push_ok [OF push]
  let ?q0 = "q\<lparr>cq_output_queues_stats := os,
    cq_input_queues_stats := iqs_add_assign (cq_input_queues_stats q) (iqs_stats_delta z OpPush (Response rsp)),
    cq_memory_usage_stats := mus_add_assign ms (mus_stats_delta z OpPush (Response rsp))\<rparr>"
  define q1 where "q1 = (if iq_messages iq = [] then cq_schedule_push (reply_type own lc c) c ?q0 else ?q0)"
  have stat1: "cq_stat s q1 = cq_stat s q + replies_stat z s [r]" for s
    using st(3) [of s] by (simp add: q1_def rsp(1) cq_schedule_push_def split: input_queue_type.split)
  have rep1: "replied own lc c iq [r] q q1" by (rule schedule_push_replied [OF q1_def]) simp_all
  have step: "time_out_replies z own lc c (r # rs) iq q n = time_out_replies z own lc c rs iq1 q1 (n + 1)"
    using st(1,2) push rsp(1)
    by (simp add: Let_def q1_def iq_num_messages_messages ok(1) reply_type_def)
  have le1: "int (sum_list (map (\<lambda>r. per_output z s (Request r)) rs)) \<le> cq_stat s q1"
    if "s \<noteq> IqReserved" "s \<noteq> Reserved" for s
    using Cons.prems(3) [OF that] stat1 [of s] that by (cases s) (simp_all add: replies_stat_def)
  have cyc1: "unat (iqs_cycles (cq_input_queues_stats q1)) + unat (oqs_cycles (cq_output_queues_stats q1)) \<le> cycles_max"
    using stat1 [of IqCycles] stat1 [of OqCycles] Cons.prems(4) rsp by (simp add: replies_stat_def)
  obtain iq' q' where rest: "time_out_replies z own lc c rs iq1 q1 (n + 1) = Some (iq', q', n + 1 + length rs)"
      "iq_messages iq' = iq_messages iq1 @ map generate_timeout_response rs"
      "iq_reserved_slots iq' + length rs = iq_reserved_slots iq1" "iq_inv iq'"
      "capacity (iq_queue iq') = capacity (iq_queue iq1)"
      "\<forall>s. cq_stat s q' = cq_stat s q1 + replies_stat z s rs" "replied own lc c iq1 rs q1 q'"
    using Cons.IH [OF _ iq_push_inv [OF Cons.prems(2) push] le1 cyc1, of "n + 1"] Cons.prems(1) ok(3) by auto
  have "replied own lc c iq (r # rs) q q'" by (rule replied_trans [OF rep1 _ rest(7)]) (simp add: ok(1))
  moreover have "cq_stat s q' = cq_stat s q + replies_stat z s (r # rs)" for s
    using rest(6) stat1 [of s] by (simp add: replies_stat_def algebra_simps)
  ultimately show ?case
    using rest(1-5) ok step rsp(1) by auto
qed

text \<open>
  Each request in an output queue is backed by a slot reserved in the input queue of the same pair,
  for its response.
\<close>

fun request_count :: "'p request_or_response \<Rightarrow> nat" where
  "request_count (Request _) = 1"
| "request_count (Response _) = 0"

definition backed :: "'p input_queue \<times> 'p output_queue \<Rightarrow> bool" where
  "backed v \<longleftrightarrow> sum_list (map request_count (oq_messages (snd v))) \<le> iq_reserved_slots (fst v)"

definition requests_backed :: "'p canister_queues \<Rightarrow> bool" where
  "requests_backed q \<longleftrightarrow> (\<forall>c. backed (cq_pair q c))"

definition pair_timed_out ::
  "time \<Rightarrow> 'p input_queue \<times> 'p output_queue \<Rightarrow> 'p input_queue \<times> 'p output_queue \<Rightarrow> bool" where
  "pair_timed_out t v v' \<longleftrightarrow>
     oq_time_out_requests (snd v) t = Some (expired_requests (snd v) t, snd v') \<and>
     iq_messages (fst v') = iq_messages (fst v) @ map generate_timeout_response (expired_requests (snd v) t) \<and>
     iq_reserved_slots (fst v') + length (expired_requests (snd v) t) = iq_reserved_slots (fst v)"

definition pending_of :: "('p, 'p input_queue \<times> 'p output_queue) btree \<Rightarrow> 'p set" where
  "pending_of es = set (map fst (filter (\<lambda>e. iq_messages (fst (snd e)) \<noteq> []) es))"

lemma pending_of_Cons:
  "pending_of ((c, v) # es) = (if iq_messages (fst v) = [] then {} else {c}) \<union> pending_of es"
  by (simp add: pending_of_def)

lemma pending_of_sub: "pending_of es \<subseteq> fst ` set es"
  by (auto simp: pending_of_def)

text \<open>
  The invariant of the outer loop: \<open>A\<close> and \<open>P\<close> are the contribution to the statistics and the
  pending senders of the pairs already processed; \<open>es\<close> are the pairs to come.
\<close>

definition tolp ::
  "layout \<Rightarrow> (stat \<Rightarrow> nat) \<Rightarrow> 'p set \<Rightarrow> ('p, 'p input_queue \<times> 'p output_queue) btree \<Rightarrow> 'p canister_queues \<Rightarrow> bool" where
  "tolp z A P es q \<longleftrightarrow>
     (\<forall>(c, v) \<in> set es. pair_ok v \<and> backed v) \<and> distinct (map fst es) \<and> P \<inter> fst ` set es = {} \<and>
     (\<forall>s. cq_stat s q = int (A s) + int (sum_list (map (\<lambda>e. pair_stat z s (snd e)) es))) \<and>
     distinct (cq_schedule q) \<and> set (cq_schedule q) = P \<union> pending_of es \<and>
     unat (iqs_cycles (cq_input_queues_stats q)) + unat (oqs_cycles (cq_output_queues_stats q)) \<le> cycles_max"

lemma pair_stat_timed_out:
  assumes "oq_inv oq" and "oq_time_out_requests oq t = Some (rs, oq')"
    and "iq_messages iq' = iq_messages iq @ map generate_timeout_response rs"
    and "iq_reserved_slots iq' + length rs = iq_reserved_slots iq"
    and "oq_reserved_slots oq' = oq_reserved_slots oq"
  shows "int (pair_stat z s (iq', oq')) = int (pair_stat z s (iq, oq)) + replies_stat z s rs"
proof -
  have "per_input_slot s * iq_reserved_slots iq = per_input_slot s * iq_reserved_slots iq' + per_input_slot s * length rs"
    using assms(4) by (metis add_mult_distrib2)
  then show ?thesis
    using oq_time_out_sums [OF assms(1,2), of "per_output z s"]
    by (simp add: pair_stat_def replies_stat_def assms(3,5) comp_def)
qed

lemma replied_schedule:
  assumes "replied own lc c iq rs q q1" and "distinct (cq_schedule q)" and "c \<in> set (cq_schedule q) \<longleftrightarrow> iq_messages iq \<noteq> []"
  shows "distinct (cq_schedule q1)"
    and "set (cq_schedule q1) = set (cq_schedule q) \<union> (if rs = [] then {} else {c})"
  using assms
  by (cases "reply_type own lc c"; auto simp: replied_def Let_def cq_input_schedule_def split: if_splits)+

lemma tolp_step:
  assumes "tolp z A P ((c, iq, oq) # es) q" and "oq_time_out_requests oq t = Some (rs, oq1)"
  shows "\<exists>iq1 q1. time_out_replies z own lc c rs iq q n = Some (iq1, q1, n + length rs) \<and>
    pair_ok (iq1, oq1) \<and> backed (iq1, oq1) \<and> pair_timed_out t (iq, oq) (iq1, oq1) \<and>
    tolp z (\<lambda>s. A s + pair_stat z s (iq1, oq1)) (P \<union> (if iq_messages iq1 = [] then {} else {c})) es q1 \<and>
    cq_queues q1 = cq_queues q \<and> cq_ingress_queue q1 = cq_ingress_queue q"
proof -
  note inv = assms(1) [unfolded tolp_def]
  have ok: "pair_ok (iq, oq)" "backed (iq, oq)" using inv by auto
  then have oinv: "oq_inv oq" by (simp add: pair_ok_def)
  have rs: "rs = expired_requests oq t" and all: "timed_out_all oq t oq1"
    using oq_time_out_requests_all [OF oinv assms(2)] by simp_all
  have res: "oq_reserved_slots oq1 = oq_reserved_slots oq" and cap: "capacity (oq_queue oq1) = capacity (oq_queue oq)"
    and oinv1: "oq_inv oq1"
    using all by (simp_all add: timed_out_all_def oq_reserved_slots_def qwr_reserved_slots_def)
  have count: "sum_list (map request_count (oq_messages oq)) = length rs + sum_list (map request_count (oq_messages oq1))"
    using oq_time_out_sums [OF oinv assms(2), of request_count] by (simp add: sum_list_triv)
  then have len: "length rs \<le> iq_reserved_slots iq" using ok(2) by (simp add: backed_def)
  have sums: "int (sum_list (map (\<lambda>r. per_output z s (Request r)) rs)) \<le> cq_stat s q" for s
  proof -
    have "sum_list (map (\<lambda>r. per_output z s (Request r)) rs) \<le> pair_stat z s (iq, oq)"
      using oq_time_out_sums [OF oinv assms(2), of "per_output z s"] by (simp add: pair_stat_def)
    moreover have "cq_stat s q = int (A s) + int (sum_list (map (\<lambda>e. pair_stat z s (snd e)) ((c, iq, oq) # es)))"
      using inv by blast
    ultimately show ?thesis by simp
  qed
  obtain iq1 q1 where run: "time_out_replies z own lc c rs iq q n = Some (iq1, q1, n + length rs)"
      "iq_messages iq1 = iq_messages iq @ map generate_timeout_response rs"
      "iq_reserved_slots iq1 + length rs = iq_reserved_slots iq" "iq_inv iq1"
      "capacity (iq_queue iq1) = capacity (iq_queue iq)"
      "\<forall>s. cq_stat s q1 = cq_stat s q + replies_stat z s rs" "replied own lc c iq rs q q1"
    using time_out_replies_ok [OF len _ sums, of own lc c n] ok(1) inv by (auto simp: pair_ok_def)
  have "pair_ok (iq1, oq1)" "backed (iq1, oq1)"
    using ok run(3-5) oinv1 cap count by (simp_all add: pair_ok_def backed_def)
  moreover have "pair_timed_out t (iq, oq) (iq1, oq1)"
    using assms(2) run(2,3) by (simp add: pair_timed_out_def rs)
  moreover have "tolp z (\<lambda>s. A s + pair_stat z s (iq1, oq1)) (P \<union> (if iq_messages iq1 = [] then {} else {c})) es q1"
  proof -
    have c: "c \<notin> P" "c \<notin> fst ` set es" "c \<notin> pending_of es" using inv pending_of_sub [of es] by auto
    have sched: "c \<in> set (cq_schedule q) \<longleftrightarrow> iq_messages iq \<noteq> []"
      "set (cq_schedule q) = P \<union> pending_of ((c, iq, oq) # es)" "distinct (cq_schedule q)"
      using inv c by (auto simp: pending_of_Cons)
    have sets: "set (cq_schedule q1) = P \<union> (if iq_messages iq1 = [] then {} else {c}) \<union> pending_of es"
      using replied_schedule(2) [OF run(7) sched(3,1)] sched(2) run(2) by (auto simp: pending_of_Cons)
    have stats: "cq_stat s q1 = int (A s + pair_stat z s (iq1, oq1)) + int (sum_list (map (\<lambda>e. pair_stat z s (snd e)) es))" for s
      using pair_stat_timed_out [OF oinv assms(2) run(2,3) res, of z s] run(6) inv by simp
    have cyc: "unat (iqs_cycles (cq_input_queues_stats q1)) + unat (oqs_cycles (cq_output_queues_stats q1)) \<le> cycles_max"
    proof -
      have "unat (iqs_cycles (cq_input_queues_stats q)) + unat (oqs_cycles (cq_output_queues_stats q)) \<le> cycles_max"
        using inv by blast
      then show ?thesis
        using run(6) [rule_format, of IqCycles] run(6) [rule_format, of OqCycles]
        by (simp add: replies_stat_def generate_timeout_response_def)
    qed
    show ?thesis
      unfolding tolp_def using inv c sets stats cyc replied_schedule(1) [OF run(7) sched(3,1)] by auto
  qed
  moreover have "cq_queues q1 = cq_queues q" "cq_ingress_queue q1 = cq_ingress_queue q"
    using run(7) by (simp_all add: replied_def Let_def)
  ultimately show ?thesis using run(1) by blast
qed

definition entry_timed_out ::
  "time \<Rightarrow> 'p \<times> 'p input_queue \<times> 'p output_queue \<Rightarrow> 'p \<times> 'p input_queue \<times> 'p output_queue \<Rightarrow> bool" where
  "entry_timed_out t e e' \<longleftrightarrow>
     fst e' = fst e \<and> pair_ok (snd e') \<and> backed (snd e') \<and> pair_timed_out t (snd e) (snd e')"

lemma time_out_queues_ok:
  assumes "tolp z A P es q"
  shows "\<exists>es' q'. time_out_queues z t own lc es q n =
      Some (es', q', n + sum_list (map (\<lambda>e. length (expired_requests (snd (snd e)) t)) es)) \<and>
    list_all2 (entry_timed_out t) es es' \<and>
    (\<forall>s. cq_stat s q' = int (A s) + int (sum_list (map (\<lambda>e. pair_stat z s (snd e)) es'))) \<and>
    distinct (cq_schedule q') \<and> set (cq_schedule q') = P \<union> pending_of es' \<and>
    cq_ingress_queue q' = cq_ingress_queue q"
  using assms
proof (induction es arbitrary: A P q n)
  case Nil
  then show ?case by (auto simp: tolp_def)
next
  case (Cons e es)
  obtain c iq oq where e: "e = (c, iq, oq)" by (cases e)
  have "oq_inv oq" using Cons.prems by (auto simp: tolp_def e pair_ok_def)
  then obtain oq1 where oq1: "oq_time_out_requests oq t = Some (expired_requests oq t, oq1)"
    using oq_time_out_requests_spec [of oq t] by blast
  obtain iq1 q1 where step: "time_out_replies z own lc c (expired_requests oq t) iq q n =
        Some (iq1, q1, n + length (expired_requests oq t))"
      "pair_ok (iq1, oq1)" "backed (iq1, oq1)" "pair_timed_out t (iq, oq) (iq1, oq1)"
      "tolp z (\<lambda>s. A s + pair_stat z s (iq1, oq1)) (P \<union> (if iq_messages iq1 = [] then {} else {c})) es q1"
      "cq_ingress_queue q1 = cq_ingress_queue q"
    using tolp_step [OF Cons.prems [unfolded e] oq1, of own lc n] by blast
  obtain es' q' where rest: "time_out_queues z t own lc es q1 (n + length (expired_requests oq t)) =
        Some (es', q', n + length (expired_requests oq t) + sum_list (map (\<lambda>e. length (expired_requests (snd (snd e)) t)) es))"
      "list_all2 (entry_timed_out t) es es'"
      "\<forall>s. cq_stat s q' = int (A s + pair_stat z s (iq1, oq1)) + int (sum_list (map (\<lambda>e. pair_stat z s (snd e)) es'))"
      "distinct (cq_schedule q')"
      "set (cq_schedule q') = (P \<union> (if iq_messages iq1 = [] then {} else {c})) \<union> pending_of es'"
      "cq_ingress_queue q' = cq_ingress_queue q1"
    using Cons.IH [OF step(5), of "n + length (expired_requests oq t)"] by blast
  have "time_out_queues z t own lc (e # es) q n = Some ((c, iq1, oq1) # es', q',
      n + sum_list (map (\<lambda>e. length (expired_requests (snd (snd e)) t)) (e # es)))"
    using oq1 step(1) rest(1) by (simp add: e add.assoc)
  moreover have "list_all2 (entry_timed_out t) (e # es) ((c, iq1, oq1) # es')"
    using rest(2) step(2-4) by (simp add: entry_timed_out_def e)
  moreover have "set (cq_schedule q') = P \<union> pending_of ((c, iq1, oq1) # es')"
    using rest(5) by (simp add: pending_of_Cons Un_assoc)
  moreover have "cq_stat s q' = int (A s) + int (sum_list (map (\<lambda>e. pair_stat z s (snd e)) ((c, iq1, oq1) # es')))" for s
    using rest(3) by simp
  ultimately show ?case using rest(4,6) step(6) by metis
qed

lemma tolp_init:
  assumes "cq_inv z q" and "requests_backed q"
    and "unat (iqs_cycles (cq_input_queues_stats q)) + unat (oqs_cycles (cq_output_queues_stats q)) \<le> cycles_max"
  shows "tolp z (\<lambda>s. 0) {} (cq_queues q) q"
proof -
  note get = bt.get_iff_entry [OF cq_inv_wf [OF assms(1)]]
  have "{c. has_pending_input q c} = pending_of (cq_queues q)"
    by (auto simp: has_pending_input_iff pending_of_def get image_iff) force+
  moreover have "\<forall>(c, v) \<in> set (cq_queues q). pair_ok v \<and> backed v"
    using assms(2) cq_inv_pair [OF assms(1)] cq_pair_get
    unfolding requests_backed_def by (metis (mono_tags, lifting) case_prodI2 get)
  ultimately show ?thesis
    using assms(1,3) bt.distinct_entries [OF cq_inv_wf [OF assms(1)]]
    unfolding tolp_def cq_inv_def schedule_inv_def stats_exact_def bt.total_def by auto
qed

lemma list_all2_get:
  assumes "list_all2 R es es'" and "\<And>e e'. R e e' \<Longrightarrow> fst e' = fst e"
  shows "map fst es' = map fst es"
    and "bt_get es c = None \<longleftrightarrow> bt_get es' c = None"
    and "bt_get es c = Some v \<Longrightarrow> \<exists>v'. bt_get es' c = Some v' \<and> R (c, v) (c, v')"
proof -
  show "map fst es' = map fst es" "bt_get es c = None \<longleftrightarrow> bt_get es' c = None"
    using assms by (induction rule: list_all2_induct) (auto simp: bt_get_def split: if_splits)
  show "\<exists>v'. bt_get es' c = Some v' \<and> R (c, v) (c, v')" if "bt_get es c = Some v"
    using assms(1) that
  proof (induction rule: list_all2_induct)
    case (Cons e es e' es')
    then show ?case using assms(2) [of e e'] by (cases e; cases e') (auto simp: bt_get_def split: if_splits)
  qed (simp add: bt_get_def)
qed

lemma cq_time_out_requests_ok:
  assumes "cq_inv z q" and "requests_backed q"
    and "unat (iqs_cycles (cq_input_queues_stats q)) + unat (oqs_cycles (cq_output_queues_stats q)) \<le> cycles_max"
  shows "\<exists>q'. cq_time_out_requests z q t own lc =
      Some (q', sum_list (map (\<lambda>(c, v). length (expired_requests (snd v) t)) (cq_queues q))) \<and>
    cq_inv z q' \<and> requests_backed q' \<and> (\<forall>c. pair_timed_out t (cq_pair q c) (cq_pair q' c))"
proof -
  obtain es' q1 where run: "time_out_queues z t own lc (cq_queues q) q 0 =
        Some (es', q1, 0 + sum_list (map (\<lambda>e. length (expired_requests (snd (snd e)) t)) (cq_queues q)))"
      "list_all2 (entry_timed_out t) (cq_queues q) es'"
      "\<forall>s. cq_stat s q1 = int 0 + int (sum_list (map (\<lambda>e. pair_stat z s (snd e)) es'))"
      "distinct (cq_schedule q1)" "set (cq_schedule q1) = {} \<union> pending_of es'"
      "cq_ingress_queue q1 = cq_ingress_queue q"
    using time_out_queues_ok [OF tolp_init [OF assms], of t own lc 0] by blast
  let ?q = "q1\<lparr>cq_queues := es'\<rparr>"
  note all = list_all2_get [OF run(2)]
  have keys: "map fst es' = map fst (cq_queues q)" by (rule all(1)) (simp add: entry_timed_out_def)
  have wf: "bt_wf es'" using cq_inv_wf [OF assms(1)] by (simp add: bt_wf_def keys)
  have none: "bt_get (cq_queues q) c = None \<longleftrightarrow> bt_get es' c = None" for c
    by (rule all(2)) (simp add: entry_timed_out_def)
  have some: "bt_get (cq_queues q) c = Some v \<Longrightarrow> \<exists>v'. bt_get es' c = Some v' \<and> entry_timed_out t (c, v) (c, v')" for c v
    by (rule all(3)) (simp_all add: entry_timed_out_def)
  have ok: "pair_ok v'" if "bt_get es' c = Some v'" for c v'
    using none [of c] some [of c] that by (cases "bt_get (cq_queues q) c") (auto simp: entry_timed_out_def)
  have "{c. has_pending_input ?q c} = pending_of es'"
    by (auto simp: has_pending_input_iff pending_of_def bt.get_iff_entry [OF wf] image_iff) force+
  then have "cq_inv z ?q"
    using run(3-6) wf ok assms(1)
    by (simp add: cq_inv_def schedule_inv_def stats_exact_def bt.total_def)
  moreover have "pair_timed_out t (cq_pair q c) (cq_pair ?q c) \<and> backed (cq_pair ?q c)" for c
  proof (cases "bt_get (cq_queues q) c")
    case None
    then have "bt_get es' c = None" using none by simp
    then show ?thesis
      using None by (simp add: cq_pair_def pair_timed_out_def backed_def expired_requests_def oq_new_def qwr_new_def
          oq_messages_def List.map_filter_simps
          oq_time_out_requests.simps oq_timeout_next.simps)
  next
    case (Some v)
    then show ?thesis using some [OF Some] by (auto simp: cq_pair_def entry_timed_out_def)
  qed
  moreover have "cq_time_out_requests z q t own lc =
      Some (?q, sum_list (map (\<lambda>(c, v). length (expired_requests (snd v) t)) (cq_queues q)))"
    using run(1) by (simp add: cq_time_out_requests_def case_prod_unfold)
  ultimately show ?thesis by (auto simp: requests_backed_def)
qed

end
