(* ===== verification/CanisterQueues_System.thy ===== *)
theory CanisterQueues_System
  imports CanisterQueues_Correct
begin

text \<open>
  The remaining operations of \<open>CanisterQueues\<close> (rejection of requests to the management canister,
  induction of messages to self, the output iterator, \<open>output_queues_for_each\<close>, the protobuf round
  trip), histories of operations, and the properties of the component.
\<close>

section \<open>Rejecting requests to the management canister\<close>

lemma cq_inv_reserve_input:
  assumes "cq_inv z q1" and "bt_get (cq_queues q1) c = Some (iq, oq)" and "iq_reserve_slot iq = Inr iq1"
    and "q2 = (cq_put c (iq1, oq) q1)
      \<lparr>cq_input_queues_stats := (cq_input_queues_stats q1)\<lparr>iqs_reserved_slots := iqs_reserved_slots (cq_input_queues_stats q1) + 1\<rparr>,
       cq_memory_usage_stats := mus_add_assign (cq_memory_usage_stats q1) mus_response_slot_delta\<rparr>"
  shows "cq_inv z q2" and "cq_pair q2 = (cq_pair q1)(c := (iq1, oq))"
proof -
  have wf: "bt_wf (cq_queues q1)" using assms(1) by (rule cq_inv_wf)
  have queues: "cq_queues q2 = bt_insert c (iq1, oq) (cq_queues q1)" by (simp add: assms(4) cq_put_def)
  note iq1 = iq_reserve_pair [OF assms(3)]
  have stat: "cq_stat s q2 = cq_stat s q1 + int (per_input_slot s)" for s
    by (cases s) (simp_all add: assms(4) cq_put_def mus_add_assign_def mus_response_slot_delta_def)
  have "pair_ok (iq1, oq)" using cq_inv_pair [OF assms(1,2)] iq1(3,4) by (simp add: pair_ok_def)
  moreover have "schedule_inv q2"
    by (rule schedule_inv_same [OF _ wf assms(2) queues])
      (use assms(1) iq1(1) in \<open>simp_all add: cq_inv_def assms(4) cq_put_def\<close>)
  moreover have "cq_stat s q2 + int (pair_stat z s (iq, oq)) = cq_stat s q1 + int (pair_stat z s (iq1, oq))" for s
    by (simp add: stat pair_stat_def iq1 algebra_simps)
  ultimately show "cq_inv z q2"
    by (intro cq_inv_update [OF assms(1,2) queues]) (simp_all add: assms(4) cq_put_def)
  show "cq_pair q2 = (cq_pair q1)(c := (iq1, oq))" by (simp add: fun_eq_iff cq_pair_put [OF wf queues])
qed

definition ic00_reject :: "'p \<Rightarrow> 'p request \<Rightarrow> reject_context \<Rightarrow> 'p request_or_response" where
  "ic00_reject ic00 req rc =
     Response \<lparr>originator = sender req, respondent = ic00, originator_reply_callback = sender_reply_callback req,
       refund = payment req, response_payload = Reject rc\<rparr>"

lemma cq_reject_ic00_spec:
  assumes "cq_inv z q" and "receiver req = ic00" and "input_cycles_fit q (ic00_reject ic00 req rc)"
  shows "\<exists>q' r. cq_reject_ic00_output_request z ic00 q req rc = Some (q', r) \<and> cq_inv z q' \<and>
    (if length (iq_messages (fst (cq_pair q ic00))) + iq_reserved_slots (fst (cq_pair q ic00)) < DEFAULT_QUEUE_CAPACITY
     then r = Inr () \<and>
       (\<exists>iq'. cq_pair q' = (cq_pair q)(ic00 := (iq', snd (cq_pair q ic00))) \<and>
          iq_messages iq' = iq_messages (fst (cq_pair q ic00)) @ [ic00_reject ic00 req rc] \<and>
          iq_reserved_slots iq' = iq_reserved_slots (fst (cq_pair q ic00))) \<and>
       cq_local_subnet_input_schedule q' = cq_local_subnet_input_schedule q @
         (if iq_messages (fst (cq_pair q ic00)) = [] then [ic00] else [])
     else (\<exists>cap. r = Inl (QueueFull cap)) \<and> cq_pair q' = cq_pair q)"
proof -
  obtain q1 iq oq where g: "cq_get_or_insert_queues z q ic00 = (q1, iq, oq)" by (metis prod_cases3)
  note gi = cq_get_or_insert [OF assms(1) g] and gp = cq_get_or_insert_pair [OF assms(1) g]
  have ok: "pair_ok (iq, oq)" using gi(1,2) by (rule cq_inv_pair)
  have res_iff: "(\<exists>iq1. iq_reserve_slot iq = Inr iq1) \<longleftrightarrow>
      length (iq_messages iq) + iq_reserved_slots iq < DEFAULT_QUEUE_CAPACITY"
    using iq.reserve_iff [of iq] ok by (auto simp: pair_ok_def iq_num_messages_messages)
  show ?thesis
  proof (cases "iq_reserve_slot iq")
    case (Inl e)
    then have "\<exists>cap. e = QueueFull cap"
      by (auto simp: iq_reserve_slot_def qwr_reserve_slot_def qwr_check_has_slot_def split: if_splits)
    then show ?thesis
      using Inl res_iff gi(1) gp by (auto simp: cq_reject_ic00_output_request_def assms(2) g)
  next
    case (Inr iq1)
    let ?m = "ic00_reject ic00 req rc"
    let ?q2 = "(cq_put ic00 (iq1, oq) q1)
      \<lparr>cq_input_queues_stats := (cq_input_queues_stats q1)\<lparr>iqs_reserved_slots := iqs_reserved_slots (cq_input_queues_stats q1) + 1\<rparr>,
       cq_memory_usage_stats := mus_add_assign (cq_memory_usage_stats q1) mus_response_slot_delta\<rparr>"
    note inv2 = cq_inv_reserve_input [OF gi(1,2) Inr refl]
    note iq1 = iq_reserve_pair [OF Inr]
    obtain q' r where push: "cq_push_input z ?q2 ?m LocalSubnet = (q', r)" by fastforce
    have "input_cycles_fit ?q2 ?m" using assms(3) gi(7) by (simp add: input_cycles_fit_def)
    moreover have "can_push_input ?q2 ?m"
      using inv2(2) iq1(2) by (simp add: can_push_input_def ic00_reject_def)
    ultimately have pushed: "r = Inr ()" "input_pushed z ?q2 ?m LocalSubnet q'"
      using cq_push_input_cases [OF inv2(1) _ push] by blast+
    have "rr_sender ?m = ic00" by (simp add: ic00_reject_def)
    with pushed(2) obtain iq' oq' where iq': "cq_pair q' = (cq_pair ?q2)(ic00 := (iq', oq'))" "cq_inv z q'"
        "iq_messages iq' = iq_messages iq1 @ [?m]" "Suc (iq_reserved_slots iq') = iq_reserved_slots iq1" "oq' = oq"
      using inv2(2) by (auto simp: input_pushed_def ic00_reject_def)
    have "cq_local_subnet_input_schedule ?q2 = cq_local_subnet_input_schedule q"
      using cq_get_or_insert_ingress [OF g] by (simp add: cq_put_def)
    moreover have "iq_messages (fst (cq_pair ?q2 ic00)) = iq_messages (fst (cq_pair q ic00))"
      using inv2(2) iq1(1) gp(1) by simp
    ultimately have sched: "cq_local_subnet_input_schedule q' = cq_local_subnet_input_schedule q @
        (if iq_messages (fst (cq_pair q ic00)) = [] then [ic00] else [])"
      using pushed(2) by (simp add: input_pushed_def cq_input_schedule_def ic00_reject_def)
    have "cq_reject_ic00_output_request z ic00 q req rc = Some (q', Inr ())"
      using push pushed(1) by (simp add: cq_reject_ic00_output_request_def assms(2) g Inr ic00_reject_def Let_def cq_put_def)
    moreover have "cq_pair q' = (cq_pair q)(ic00 := (iq', snd (cq_pair q ic00)))"
      using iq'(1,5) inv2(2) gp by simp
    ultimately show ?thesis
      using iq'(2-4) iq1(1,2) Inr res_iff gp(1) sched by auto
  qed
qed

section \<open>Messages to self\<close>

lemma cq_pair_nonempty:
  assumes "oq_messages (snd (cq_pair q c)) \<noteq> []"
  shows "bt_get (cq_queues q) c = Some (fst (cq_pair q c), snd (cq_pair q c))"
  using assms by (cases "bt_get (cq_queues q) c") (simp_all add: cq_pair_def)

lemma cq_peek_output_eq:
  assumes "cq_inv z q"
  shows "cq_peek_output q c = Some (head_opt (oq_messages (snd (cq_pair q c))))"
proof (cases "bt_get (cq_queues q) c")
  case None
  then show ?thesis by (simp add: cq_peek_output_def cq_pair_def head_opt_def)
next
  case (Some v)
  then have "oq_inv (snd v)" using cq_inv_pair [OF assms] by (simp add: pair_ok_def)
  then show ?thesis
    using Some cq_pair_get [OF Some] by (cases v) (simp add: cq_peek_output_def oq_peek_messages)
qed

lemma cq_induct_message_to_self_spec:
  assumes "cq_inv z q"
    and "\<forall>m ms. oq_messages (snd (cq_pair q own)) = m # ms \<longrightarrow> input_cycles_fit q m"
  shows "\<exists>q' r. cq_induct_message_to_self z q own = Some (q', r) \<and> cq_inv z q' \<and>
    (case oq_messages (snd (cq_pair q own)) of
       [] \<Rightarrow> r = Inl () \<and> q' = q
     | m # ms \<Rightarrow>
         if can_push_input q m
         then r = Inr () \<and> oq_messages (snd (cq_pair q' own)) = ms \<and>
           iq_messages (fst (cq_pair q' (rr_sender m))) = iq_messages (fst (cq_pair q (rr_sender m))) @ [m] \<and>
           (\<forall>c. c \<noteq> own \<longrightarrow> c \<noteq> rr_sender m \<longrightarrow> cq_pair q' c = cq_pair q c) \<and>
           (\<exists>q1 oq1. cq_push_input z q m LocalSubnet = (q1, Inr ()) \<and>
              cq_pair q' = (cq_pair q1)(own := (fst (cq_pair q1 own), oq1)) \<and>
              oq_messages (snd (cq_pair q1 own)) = m # ms \<and> oq_messages oq1 = ms)
         else r = Inl () \<and> same_view q q')"
proof (cases "oq_messages (snd (cq_pair q own))")
  case Nil
  then show ?thesis using assms(1) cq_peek_output_eq [OF assms(1), of own]
    by (simp add: cq_induct_message_to_self_def head_opt_def)
next
  case (Cons m ms)
  then have peek: "cq_peek_output q own = Some (Some m)"
    using cq_peek_output_eq [OF assms(1), of own] by (simp add: head_opt_def)
  obtain q1 r where push: "cq_push_input z q m LocalSubnet = (q1, r)" by fastforce
  from assms(1) assms(2) [rule_format, OF Cons] push show ?thesis
  proof (cases rule: cq_push_input_cases)
    case pushed
    then obtain iq' oq' where q1: "cq_inv z q1" "cq_pair q1 = (cq_pair q)(rr_sender m := (iq', oq'))"
        "iq_messages iq' = iq_messages (fst (cq_pair q (rr_sender m))) @ [m]"
        "oq_messages oq' = oq_messages (snd (cq_pair q (rr_sender m)))"
      by (auto simp: input_pushed_def)
    have msgs: "oq_messages (snd (cq_pair q1 own)) = m # ms" using Cons q1(2,4) by auto
    let ?iq = "fst (cq_pair q1 own)" and ?oq = "snd (cq_pair q1 own)"
    have get: "bt_get (cq_queues q1) own = Some (?iq, ?oq)" using cq_pair_nonempty [of q1 own] msgs by simp
    obtain oq1 q2 where pop: "oq_pop ?oq = Some (Some m, oq1)" "oq_messages oq1 = ms"
        "cq_output_popped z m (cq_put own (?iq, oq1) q1) = Some q2" "cq_inv z q2"
        "cq_pair q2 = (cq_pair q1)(own := (?iq, oq1))"
      using cq_output_pop_pair [OF q1(1) get msgs] by blast
    have "cq_induct_message_to_self z q own = Some (q2, Inr ())"
      using peek push pushed(2) get pop(1,3) by (simp add: cq_induct_message_to_self_def case_prod_unfold)
    moreover have "\<exists>q3 oq3. cq_push_input z q m LocalSubnet = (q3, Inr ()) \<and>
        cq_pair q2 = (cq_pair q3)(own := (fst (cq_pair q3 own), oq3)) \<and>
        oq_messages (snd (cq_pair q3 own)) = m # ms \<and> oq_messages oq3 = ms"
      using push pushed(2) msgs pop(2,5) by blast
    ultimately show ?thesis using pop(2,4,5) q1(2,3) pushed(1) Cons by auto
  next
    case rejected
    then show ?thesis using peek push Cons
      by (auto simp: cq_induct_message_to_self_def input_rejected_def)
  qed
qed

section \<open>The output iterator\<close>

definition out_messages :: "'p canister_queues \<Rightarrow> 'p \<Rightarrow> 'p request_or_response list" where
  "out_messages q c = oq_messages (snd (cq_pair q c))"

definition it_inv :: "'p output_iterator \<Rightarrow> 'p canister_queues \<Rightarrow> bool" where
  "it_inv it q \<longleftrightarrow>
     distinct (it_queues it) \<and> (\<forall>c \<in> set (it_queues it). out_messages q c \<noteq> []) \<and>
     it_size it = sum_list (map (\<lambda>c. length (out_messages q c)) (it_queues it))"

lemma num_out_messages:
  assumes "cq_inv z q" and "bt_get (cq_queues q) c = Some (iq, oq)"
  shows "oq_num_messages oq = length (out_messages q c)"
  using cq_inv_pair [OF assms] cq_pair_get [OF assms(2)] oq_inv_num [of oq]
  by (simp add: pair_ok_def out_messages_def oq_messages_def)

lemma it_new_inv:
  assumes "cq_inv z q"
  shows "it_inv (it_new own q) q" and "set (it_queues (it_new own q)) = {c. out_messages q c \<noteq> []}"
    and "it_owner (it_new own q) = own"
proof -
  note wf = cq_inv_wf [OF assms]
  let ?cs = "map fst (filter (\<lambda>(c, _, oq). oq_num_messages oq > 0) (cq_queues q))"
  have it: "it_new own q = \<lparr>it_owner = own, it_queues = ?cs, it_size = it_compute_size q ?cs\<rparr>"
    by (simp add: it_new_def Let_def)
  have some: "c \<in> set ?cs \<longleftrightarrow> (\<exists>iq oq. bt_get (cq_queues q) c = Some (iq, oq) \<and> oq_num_messages oq > 0)" for c
    by (force simp: bt.get_iff_entry [OF wf])
  have mem: "c \<in> set ?cs \<longleftrightarrow> out_messages q c \<noteq> []" for c
  proof (cases "bt_get (cq_queues q) c")
    case None
    then show ?thesis by (simp add: some out_messages_def cq_pair_def del: set_map)
  next
    case (Some v)
    then show ?thesis unfolding some using num_out_messages [OF assms] by (cases v) auto
  qed
  have "distinct ?cs"
    using bt.distinct_entries [OF wf] by (simp add: distinct_map_filter)
  moreover have "it_compute_size q ?cs = sum_list (map (\<lambda>c. length (out_messages q c)) ?cs)"
    unfolding it_compute_size_def
    by (rule arg_cong [of _ _ sum_list], rule map_cong [OF refl])
      (use some num_out_messages [OF assms] in fastforce)
  ultimately show "it_inv (it_new own q) q" using mem by (simp add: it_inv_def it)
  show "set (it_queues (it_new own q)) = {c. out_messages q c \<noteq> []}" using mem by (auto simp: it)
  show "it_owner (it_new own q) = own" by (simp add: it)
qed

lemma it_pop_ok:
  assumes "cq_inv z q" and "it_inv it q" and "it_queues it = c # cs" and "out_messages q c = m # ms"
  shows "\<exists>it' q'. it_pop z it q =
      Some (Some (\<lparr>src_canister = it_owner it, dst_canister = c, session_id = 0\<rparr>, m), it', q') \<and>
    cq_inv z q' \<and> it_inv it' q' \<and> it_owner it' = it_owner it \<and> Suc (it_size it') = it_size it \<and>
    it_queues it' = cs @ (if ms = [] then [] else [c]) \<and> out_messages q' = (out_messages q)(c := ms) \<and>
    (\<forall>c'. fst (cq_pair q' c') = fst (cq_pair q c')) \<and> cq_schedule q' = cq_schedule q \<and>
    cq_ingress_queue q' = cq_ingress_queue q"
proof -
  let ?iq = "fst (cq_pair q c)" and ?oq = "snd (cq_pair q c)"
  have msgs: "oq_messages ?oq = m # ms" using assms(4) by (simp add: out_messages_def)
  have get: "bt_get (cq_queues q) c = Some (?iq, ?oq)" using cq_pair_nonempty [of q c] msgs by simp
  obtain oq1 q1 where pop: "oq_pop ?oq = Some (Some m, oq1)" "oq_messages oq1 = ms"
      "cq_output_popped z m (cq_put c (?iq, oq1) q) = Some q1" "cq_inv z q1"
      "cq_pair q1 = (cq_pair q)(c := (?iq, oq1))" "oq_num_messages oq1 = length ms"
      "cq_schedule q1 = cq_schedule q" "cq_ingress_queue q1 = cq_ingress_queue q"
    using cq_output_pop_pair [OF assms(1) get msgs] by blast
  let ?it = "it\<lparr>it_queues := cs @ (if ms = [] then [] else [c]), it_size := it_size it - 1\<rparr>"
  have c: "c \<notin> set cs" "distinct cs" using assms(2,3) by (simp_all add: it_inv_def)
  have size: "it_size it = Suc (length ms + sum_list (map (\<lambda>c. length (out_messages q c)) cs))"
    using assms(2-4) by (simp add: it_inv_def)
  have out: "out_messages q1 = (out_messages q)(c := ms)"
    by (simp add: fun_eq_iff out_messages_def pop(2,5))
  have "map (\<lambda>c'. length (((out_messages q)(c := ms)) c')) cs = map (\<lambda>c. length (out_messages q c)) cs"
    using c(1) by (intro map_cong) auto
  then have "sum_list (map (\<lambda>c'. length (((out_messages q)(c := ms)) c')) cs) =
      sum_list (map (\<lambda>c. length (out_messages q c)) cs)" by (rule arg_cong)
  moreover have "\<forall>c' \<in> set cs. out_messages q c' \<noteq> []" using assms(2,3) by (simp add: it_inv_def)
  ultimately have "it_inv ?it q1" using c size unfolding it_inv_def out by (auto simp del: map_eq_conv)
  moreover have "it_pop z it q =
      Some (Some (\<lparr>src_canister = it_owner it, dst_canister = c, session_id = 0\<rparr>, m), ?it, q1)"
    using get pop(1,3,6) size by (simp add: it_pop_def assms(3) sub_usize_def case_prod_unfold)
  ultimately show ?thesis using pop(4,5,7,8) out size by auto
qed

lemma it_peek_ok:
  assumes "cq_inv z q" and "it_inv it q"
  shows "it_peek it q = Some (case it_queues it of [] \<Rightarrow> None
    | c # _ \<Rightarrow> Some (\<lparr>src_canister = it_owner it, dst_canister = c, session_id = 0\<rparr>, hd (out_messages q c)))"
proof (cases "it_queues it")
  case (Cons c cs)
  then have msgs: "out_messages q c \<noteq> []" using assms(2) by (simp add: it_inv_def)
  then have get: "bt_get (cq_queues q) c = Some (fst (cq_pair q c), snd (cq_pair q c))"
    using cq_pair_nonempty [of q c] by (simp add: out_messages_def)
  then have "oq_inv (snd (cq_pair q c))" using cq_inv_pair [OF assms(1)] by (simp add: pair_ok_def)
  then show ?thesis
    using Cons get msgs oq_peek_messages [of "snd (cq_pair q c)"]
    by (simp add: it_peek_def case_prod_unfold out_messages_def head_opt_def split: list.splits)
qed (simp add: it_peek_def)

lemma it_exclude_ok:
  assumes "cq_inv z q" and "it_inv it q"
  shows "\<exists>it'. it_exclude_queue it q =
      Some (case it_queues it of [] \<Rightarrow> 0 | c # _ \<Rightarrow> length (out_messages q c), it') \<and>
    it_inv it' q \<and> it_queues it' = tl (it_queues it) \<and> it_owner it' = it_owner it"
proof (cases "it_queues it")
  case (Cons c cs)
  then have msgs: "out_messages q c \<noteq> []" using assms(2) by (simp add: it_inv_def)
  then have get: "bt_get (cq_queues q) c = Some (fst (cq_pair q c), snd (cq_pair q c))"
    using cq_pair_nonempty [of q c] by (simp add: out_messages_def)
  then have "oq_num_messages (snd (cq_pair q c)) = length (out_messages q c)" by (rule num_out_messages [OF assms(1)])
  then show ?thesis
    using Cons get assms(2) by (auto simp: it_exclude_queue_def case_prod_unfold sub_usize_def it_inv_def)
qed (use assms in \<open>simp add: it_exclude_queue_def\<close>)

text \<open>Collecting what the iterator yields, as a \<open>for\<close> loop over it does.\<close>

fun it_take ::
  "layout \<Rightarrow> nat \<Rightarrow> 'p::linorder output_iterator \<Rightarrow> 'p canister_queues
   \<Rightarrow> (('p queue_id \<times> 'p request_or_response) list \<times> 'p output_iterator \<times> 'p canister_queues) option" where
  "it_take z 0 it q = Some ([], it, q)"
| "it_take z (Suc n) it q =
     (case it_pop z it q of
        None \<Rightarrow> None
      | Some (None, it1, q1) \<Rightarrow> Some ([], it1, q1)
      | Some (Some x, it1, q1) \<Rightarrow>
          (case it_take z n it1 q1 of
             None \<Rightarrow> None
           | Some (xs, it2, q2) \<Rightarrow> Some (x # xs, it2, q2)))"

text \<open>\<open>sent_to c xs\<close>: the messages among the yielded ones that go to \<open>c\<close>, in order.\<close>

definition sent_to :: "'p \<Rightarrow> ('p queue_id \<times> 'p request_or_response) list \<Rightarrow> 'p request_or_response list" where
  "sent_to c xs = map snd (filter (\<lambda>x. dst_canister (fst x) = c) xs)"

definition drained ::
  "'p output_iterator \<Rightarrow> 'p canister_queues \<Rightarrow> ('p queue_id \<times> 'p request_or_response) list \<Rightarrow> 'p canister_queues \<Rightarrow> bool" where
  "drained it q xs q' \<longleftrightarrow>
     (\<forall>c. out_messages q c = sent_to c xs @ out_messages q' c) \<and>
     (\<forall>c \<in> set (it_queues it). out_messages q' c = []) \<and>
     (\<forall>c. c \<notin> set (it_queues it) \<longrightarrow> sent_to c xs = []) \<and>
     (\<forall>x \<in> set xs. src_canister (fst x) = it_owner it) \<and> (\<forall>c. fst (cq_pair q' c) = fst (cq_pair q c))"

lemma drained_Cons:
  assumes "drained it1 q1 xs q'" and "it_owner it1 = it_owner it"
    and "it_queues it = c # cs" and "it_queues it1 = cs @ (if ms = [] then [] else [c])"
    and "out_messages q c = m # ms" and "out_messages q1 = (out_messages q)(c := ms)"
    and "\<forall>c'. fst (cq_pair q1 c') = fst (cq_pair q c')"
  shows "drained it q ((\<lparr>src_canister = it_owner it, dst_canister = c, session_id = 0\<rparr>, m) # xs) q'"
proof -
  let ?x = "(\<lparr>src_canister = it_owner it, dst_canister = c, session_id = 0\<rparr>, m)"
  have rec: "out_messages q1 c' = sent_to c' xs @ out_messages q' c'"
    "c' \<in> set (it_queues it1) \<Longrightarrow> out_messages q' c' = []" "c' \<notin> set (it_queues it1) \<Longrightarrow> sent_to c' xs = []" for c'
    using assms(1) by (simp_all add: drained_def)
  have "out_messages q c' = sent_to c' (?x # xs) @ out_messages q' c'" for c'
    using rec(1) [of c'] assms(5) by (cases "c' = c") (simp_all add: assms(6) sent_to_def)
  moreover have "out_messages q' c' = []" if "c' \<in> set (it_queues it)" for c'
  proof (cases "c' \<in> set (it_queues it1)")
    case False
    then have "c' = c" "ms = []" using that assms(3,4) by (auto split: if_splits)
    then show ?thesis using rec(1) [of c] unfolding assms(6) by simp
  qed (rule rec(2))
  moreover have "sent_to c' (?x # xs) = []" if "c' \<notin> set (it_queues it)" for c'
    using rec(3) [of c'] that by (auto simp: assms(3,4) sent_to_def split: if_splits)
  moreover have "\<forall>x \<in> set (?x # xs). src_canister (fst x) = it_owner it" "\<forall>c. fst (cq_pair q' c) = fst (cq_pair q c)"
    using assms(1,2,7) unfolding drained_def by simp_all
  ultimately show ?thesis unfolding drained_def by blast
qed

lemma it_take_all:
  assumes "cq_inv z q" and "it_inv it q" and "it_size it = n"
  shows "\<exists>xs it' q'. it_take z n it q = Some (xs, it', q') \<and> cq_inv z q' \<and> it_is_empty it' \<and> length xs = n \<and>
    drained it q xs q'"
  using assms
proof (induction n arbitrary: it q)
  case 0
  then have "it_queues it = []" by (cases "it_queues it") (auto simp: it_inv_def)
  then show ?case using 0 by (simp add: it_is_empty_def sent_to_def drained_def)
next
  case (Suc n)
  then obtain c cs where cs: "it_queues it = c # cs" by (cases "it_queues it") (auto simp: it_inv_def)
  then obtain m ms where m: "out_messages q c = m # ms"
    using Suc.prems(2) by (cases "out_messages q c") (auto simp: it_inv_def)
  let ?x = "(\<lparr>src_canister = it_owner it, dst_canister = c, session_id = 0\<rparr>, m)"
  obtain it1 q1 where pop: "it_pop z it q = Some (Some ?x, it1, q1)"
      "cq_inv z q1" "it_inv it1 q1" "it_owner it1 = it_owner it" "Suc (it_size it1) = it_size it"
      "it_queues it1 = cs @ (if ms = [] then [] else [c])" "out_messages q1 = (out_messages q)(c := ms)"
      "\<forall>c'. fst (cq_pair q1 c') = fst (cq_pair q c')"
    using it_pop_ok [OF Suc.prems(1,2) cs m] by blast
  have size: "it_size it1 = n" using Suc.prems(3) pop(5) by simp
  obtain xs it' q' where rec: "it_take z n it1 q1 = Some (xs, it', q')" "cq_inv z q'" "it_is_empty it'"
      "length xs = n" "drained it1 q1 xs q'"
    using Suc.IH [OF pop(2,3) size] by blast
  have "it_take z (Suc n) it q = Some (?x # xs, it', q')" using pop(1) rec(1) by simp
  moreover have "drained it q (?x # xs) q'" by (rule drained_Cons [OF rec(5) pop(4) cs pop(6) m pop(7,8)])
  moreover have "length (?x # xs) = Suc n" using rec(4) by simp
  ultimately show ?case using rec(2,3) by blast
qed

section \<open>Consuming output with a closure\<close>

text \<open>
  What \<open>output_queues_for_each\<close> does to the messages of one receiver, and of all of them: the
  closure is offered one message after another, until it refuses one.
\<close>

fun offer :: "('s \<Rightarrow> 'p \<Rightarrow> 'm \<Rightarrow> 's \<times> bool) \<Rightarrow> 'p \<Rightarrow> 's \<Rightarrow> 'm list \<Rightarrow> 's \<times> 'm list" where
  "offer f c s [] = (s, [])"
| "offer f c s (m # ms) =
     (case f s c m of (s1, ok) \<Rightarrow> if ok then offer f c s1 ms else (s1, m # ms))"

fun offer_all :: "('s \<Rightarrow> 'p \<Rightarrow> 'm \<Rightarrow> 's \<times> bool) \<Rightarrow> 's \<Rightarrow> ('p \<times> 'm list) list \<Rightarrow> 's \<times> ('p \<times> 'm list) list" where
  "offer_all f s [] = (s, [])"
| "offer_all f s ((c, ms) # es) =
     (case offer f c s ms of (s1, ms1) \<Rightarrow>
        case offer_all f s1 es of (s2, es2) \<Rightarrow> (s2, (c, ms1) # es2))"

lemma offer_suffix: "offer f c s ms = (s', ms') \<Longrightarrow> \<exists>xs. ms = xs @ ms'"
proof (induction ms arbitrary: s)
  case (Cons m ms)
  obtain s1 ok where f: "f s c m = (s1, ok)" by fastforce
  show ?case
  proof (cases ok)
    case True
    then obtain xs where "ms = xs @ ms'" using Cons f by auto
    then show ?thesis by (metis append_Cons)
  qed (use Cons.prems f in simp)
qed simp

definition only_stats_changed :: "'p canister_queues \<Rightarrow> 'p canister_queues \<Rightarrow> bool" where
  "only_stats_changed q q' \<longleftrightarrow>
     q' = q\<lparr>cq_output_queues_stats := cq_output_queues_stats q', cq_memory_usage_stats := cq_memory_usage_stats q'\<rparr>"

lemma only_stats_changed_fields:
  assumes "only_stats_changed q q'"
  shows "cq_queues q' = cq_queues q" "cq_ingress_queue q' = cq_ingress_queue q" "cq_schedule q' = cq_schedule q"
  using assms by (simp_all add: only_stats_changed_def) (metis canister_queues.select_convs canister_queues.surjective
      canister_queues.update_convs(6,7))+

lemma only_stats_changed_trans:
  "only_stats_changed q q1 \<Longrightarrow> only_stats_changed q1 q2 \<Longrightarrow> only_stats_changed q q2"
  unfolding only_stats_changed_def
  by (cases q; cases q1; cases q2) simp

lemma oq_pop_Cons:
  assumes "oq_inv oq" and "oq_messages oq = m # ms"
  obtains oq1 where "oq_pop oq = Some (Some m, oq1)" and "oq_inv oq1" and "oq_messages oq1 = ms"
    and "oq_reserved_slots oq1 = oq_reserved_slots oq" and "capacity (oq_queue oq1) = capacity (oq_queue oq)"
proof -
  have "oq_items oq \<noteq> []" using assms(2) by (auto simp: oq_messages_def)
  from oq_pop_message [OF assms(1) this] show thesis
    using that assms(2) by (metis list.inject oq_messages_def oq_reserved_slots_def qwr_reserved_slots_def)
qed

lemma for_each_message_ok:
  assumes "oq_inv oq" and "\<And>s. int (sum_list (map (per_output z s) (oq_messages oq))) \<le> cq_stat s q"
  shows "\<exists>s' oq' q'. for_each_message z f c s oq q = Some (s', oq', q') \<and>
    offer f c s (oq_messages oq) = (s', oq_messages oq') \<and> oq_inv oq' \<and>
    oq_reserved_slots oq' = oq_reserved_slots oq \<and> capacity (oq_queue oq') = capacity (oq_queue oq) \<and>
    only_stats_changed q q' \<and>
    (\<forall>st. cq_stat st q' + int (sum_list (map (per_output z st) (oq_messages oq))) =
       cq_stat st q + int (sum_list (map (per_output z st) (oq_messages oq'))))"
  using assms
proof (induction "oq_messages oq" arbitrary: s oq q)
  case Nil
  then show ?case
    by (simp add: for_each_message.simps [of z f c s oq] oq_peek_messages head_opt_def only_stats_changed_def flip: Nil(1))
next
  case (Cons m ms)
  then have msgs: "oq_messages oq = m # ms" by simp
  then have peek: "oq_peek oq = Some (Some m)" using oq_peek_messages [OF Cons.prems(1)] by (simp add: head_opt_def)
  obtain s1 ok where f: "f s c m = (s1, ok)" by fastforce
  show ?case
  proof (cases ok)
    case False
    then show ?thesis using Cons.prems(1) f peek msgs
      by (simp add: for_each_message.simps [of z f c s oq] only_stats_changed_def)
  next
    case True
    obtain oq1 where pop: "oq_pop oq = Some (Some m, oq1)" "oq_inv oq1" "oq_messages oq1 = ms"
        "oq_reserved_slots oq1 = oq_reserved_slots oq" "capacity (oq_queue oq1) = capacity (oq_queue oq)"
      by (rule oq_pop_Cons [OF Cons.prems(1) msgs])
    have le: "int (per_output z st m) + int (sum_list (map (per_output z st) ms)) \<le> cq_stat st q" for st
      using Cons.prems(2) [of st] by (simp add: msgs)
    then have "int (per_output z st m) \<le> cq_stat st q" for st
      by (metis add_increasing2 dual_order.trans le_add_same_cancel1 of_nat_0_le_iff)
    then obtain q1 where q1: "cq_output_popped z m q = Some q1"
        "\<And>st. cq_stat st q1 = cq_stat st q - int (per_output z st m)" "only_stats_changed q q1"
      using stat_output_popped [of z m q] unfolding only_stats_changed_def by blast
    have "int (sum_list (map (per_output z st) (oq_messages oq1))) \<le> cq_stat st q1" for st
      using le [of st] unfolding q1(2) pop(3) by linarith
    from Cons.hyps(1) [OF pop(3) [symmetric] pop(2) this, of s1] obtain s' oq' q' where
      rec: "for_each_message z f c s1 oq1 q1 = Some (s', oq', q')" "offer f c s1 ms = (s', oq_messages oq')" "oq_inv oq'"
        "oq_reserved_slots oq' = oq_reserved_slots oq1" "capacity (oq_queue oq') = capacity (oq_queue oq1)"
        "only_stats_changed q1 q'"
        "\<And>st. cq_stat st q' + int (sum_list (map (per_output z st) ms)) =
          cq_stat st q1 + int (sum_list (map (per_output z st) (oq_messages oq')))"
      unfolding pop(3) by blast
    have "for_each_message z f c s oq q = Some (s', oq', q')"
      using True f peek pop(1) q1(1) rec(1) by (simp add: for_each_message.simps [of z f c s oq])
    moreover have "offer f c s (oq_messages oq) = (s', oq_messages oq')" using True f rec(2) by (simp add: msgs)
    moreover have "cq_stat st q' + int (sum_list (map (per_output z st) (oq_messages oq))) =
       cq_stat st q + int (sum_list (map (per_output z st) (oq_messages oq')))" for st
      using rec(7) [of st] q1(2) [of st] by (simp add: msgs)
    ultimately show ?thesis
      using rec(3-6) pop(4,5) only_stats_changed_trans [OF q1(3)] by metis
  qed
qed

definition entry_consumed ::
  "'p \<times> 'p input_queue \<times> 'p output_queue \<Rightarrow> 'p \<times> 'p input_queue \<times> 'p output_queue \<Rightarrow> bool" where
  "entry_consumed e e' \<longleftrightarrow>
     fst e' = fst e \<and> fst (snd e') = fst (snd e) \<and> pair_ok (snd e') \<and>
     (\<exists>ms. oq_messages (snd (snd e)) = ms @ oq_messages (snd (snd e'))) \<and>
     oq_reserved_slots (snd (snd e')) = oq_reserved_slots (snd (snd e))"

definition outputs :: "('p, 'p input_queue \<times> 'p output_queue) btree \<Rightarrow> ('p \<times> 'p request_or_response list) list" where
  "outputs es = map (\<lambda>e. (fst e, oq_messages (snd (snd e)))) es"

lemma for_each_queue_ok:
  assumes "\<forall>e \<in> set es. pair_ok (snd e)"
    and "\<And>st. cq_stat st q = int (A st) + int (sum_list (map (\<lambda>e. pair_stat z st (snd e)) es))"
  shows "\<exists>s' es' q'. for_each_queue z f s es q = Some (s', es', q') \<and> list_all2 entry_consumed es es' \<and>
    offer_all f s (outputs es) = (s', outputs es') \<and> only_stats_changed q q' \<and>
    (\<forall>st. cq_stat st q' = int (A st) + int (sum_list (map (\<lambda>e. pair_stat z st (snd e)) es')))"
  using assms
proof (induction es arbitrary: s q A)
  case Nil
  then show ?case by (simp add: outputs_def only_stats_changed_def)
next
  case (Cons e es)
  obtain c iq oq where e: "e = (c, iq, oq)" by (cases e)
  have ok: "pair_ok (iq, oq)" using Cons.prems(1) by (simp add: e)
  then have inv: "oq_inv oq" by (simp add: pair_ok_def)
  have stat: "cq_stat st q = int (A st) + (int (pair_stat z st (iq, oq)) + int (sum_list (map (\<lambda>e. pair_stat z st (snd e)) es)))" for st
    using Cons.prems(2) [of st] by (simp add: e)
  have "int (sum_list (map (per_output z st) (oq_messages oq))) \<le> cq_stat st q" for st
    unfolding stat pair_stat_def by simp
  from for_each_message_ok [OF inv this, of f c s] obtain s1 oq1 q1 where
    msg: "for_each_message z f c s oq q = Some (s1, oq1, q1)" "offer f c s (oq_messages oq) = (s1, oq_messages oq1)"
      "oq_inv oq1" "oq_reserved_slots oq1 = oq_reserved_slots oq" "capacity (oq_queue oq1) = capacity (oq_queue oq)"
      "only_stats_changed q q1"
      "\<And>st. cq_stat st q1 + int (sum_list (map (per_output z st) (oq_messages oq))) =
        cq_stat st q + int (sum_list (map (per_output z st) (oq_messages oq1)))" by blast
  let ?A = "\<lambda>st. A st + pair_stat z st (iq, oq1)"
  have "cq_stat st q1 = int (?A st) + int (sum_list (map (\<lambda>e. pair_stat z st (snd e)) es))" for st
    using msg(7) [of st] unfolding stat by (simp add: pair_stat_def msg(4))
  from Cons.IH [OF _ this, of s1] Cons.prems(1) obtain s2 es2 q2 where
    rec: "for_each_queue z f s1 es q1 = Some (s2, es2, q2)" "list_all2 entry_consumed es es2"
      "offer_all f s1 (outputs es) = (s2, outputs es2)" "only_stats_changed q1 q2"
      "\<And>st. cq_stat st q2 = int (?A st) + int (sum_list (map (\<lambda>e. pair_stat z st (snd e)) es2))" by auto
  have "for_each_queue z f s (e # es) q = Some (s2, (c, iq, oq1) # es2, q2)" using msg(1) rec(1) by (simp add: e)
  moreover have "list_all2 entry_consumed (e # es) ((c, iq, oq1) # es2)"
    using rec(2) ok msg(3-5) offer_suffix [OF msg(2)] by (simp add: entry_consumed_def e pair_ok_def)
  moreover have "offer_all f s (outputs (e # es)) = (s2, outputs ((c, iq, oq1) # es2))"
    using msg(2) rec(3) by (simp add: outputs_def e)
  moreover have "cq_stat st q2 = int (A st) + int (sum_list (map (\<lambda>e. pair_stat z st (snd e)) ((c, iq, oq1) # es2)))" for st
    using rec(5) [of st] by simp
  ultimately show ?case using only_stats_changed_trans [OF msg(6) rec(4)] by blast
qed

lemma pair_ok_entry: "cq_inv z q \<Longrightarrow> e \<in> set (cq_queues q) \<Longrightarrow> pair_ok (snd e)"
  using cq_inv_pair [of z q "fst e" "snd e"] bt.get_iff_entry [OF cq_inv_wf, of z q "fst e" "snd e"] by simp

lemma cq_output_queues_for_each_ok:
  assumes "cq_inv z q"
  shows "\<exists>s' q'. cq_output_queues_for_each z f s q = Some (s', q') \<and> cq_inv z q' \<and>
    offer_all f s (outputs (cq_queues q)) = (s', outputs (cq_queues q')) \<and>
    list_all2 entry_consumed (cq_queues q) (cq_queues q') \<and>
    cq_schedule q' = cq_schedule q \<and> cq_ingress_queue q' = cq_ingress_queue q"
proof -
  have ex: "cq_stat st q = int 0 + int (sum_list (map (\<lambda>e. pair_stat z st (snd e)) (cq_queues q)))" for st
    using assms by (simp add: cq_inv_def stats_exact_def bt.total_def)
  have "\<forall>e \<in> set (cq_queues q). pair_ok (snd e)" using assms pair_ok_entry by blast
  from for_each_queue_ok [OF this ex, of f s] obtain s' es' q1 where
    run: "for_each_queue z f s (cq_queues q) q = Some (s', es', q1)" "list_all2 entry_consumed (cq_queues q) es'"
      "offer_all f s (outputs (cq_queues q)) = (s', outputs es')" "only_stats_changed q q1"
      "\<forall>st. cq_stat st q1 = int 0 + int (sum_list (map (\<lambda>e. pair_stat z st (snd e)) es'))" by blast
  let ?q = "q1\<lparr>cq_queues := es'\<rparr>"
  note same = only_stats_changed_fields [OF run(4)]
  note all = list_all2_get [OF run(2)]
  have keys: "map fst es' = map fst (cq_queues q)" by (rule all(1)) (simp add: entry_consumed_def)
  have wf: "bt_wf es'" using cq_inv_wf [OF assms] by (simp add: bt_wf_def keys)
  have none: "bt_get (cq_queues q) c = None \<longleftrightarrow> bt_get es' c = None" for c
    by (rule all(2)) (simp add: entry_consumed_def)
  have some: "bt_get (cq_queues q) c = Some v \<Longrightarrow> \<exists>v'. bt_get es' c = Some v' \<and> entry_consumed (c, v) (c, v')" for c v
    by (rule all(3)) (simp_all add: entry_consumed_def)
  have ok: "pair_ok v'" if "bt_get es' c = Some v'" for c v'
    using none [of c] some [of c] that by (cases "bt_get (cq_queues q) c") (auto simp: entry_consumed_def)
  have "has_pending_input ?q c = has_pending_input q c" for c
    using none [of c] some [of c] by (cases "bt_get (cq_queues q) c") (auto simp: has_pending_input_def entry_consumed_def)
  then have "schedule_inv ?q" using assms same(3) by (simp add: cq_inv_def schedule_inv_def)
  moreover have "stats_exact z ?q" using run(5) by (simp add: stats_exact_def bt.total_def)
  ultimately have "cq_inv z ?q" using wf ok assms same(2) by (simp add: cq_inv_def)
  moreover have "cq_output_queues_for_each z f s q = Some (s', ?q)"
    using run(1) by (simp add: cq_output_queues_for_each_def)
  ultimately show ?thesis using run(2,3) same(2,3) by (intro exI [of _ s'] exI [of _ ?q] conjI) simp_all
qed

section \<open>Protobuf round trip\<close>

text \<open>What the encoding of one state relies on: indices and message IDs fit their fields.\<close>

definition cq_encodable :: "'p canister_queues \<Rightarrow> bool" where
  "cq_encodable q \<longleftrightarrow>
     (\<forall>(c, v) \<in> set (cq_queues q). oq_end (snd v) < 2 ^ 64) \<and>
     (\<forall>i \<in> set (ing_queue (cq_ingress_queue q)). length (i_message_id i) = EXPECTED_MESSAGE_ID_LENGTH)"

lemma decode_queue_pairs_encoded:
  assumes "\<And>c. dec (enc c) = Some c" and "\<forall>(c, v) \<in> set es. pair_ok v \<and> oq_end (snd v) < 2 ^ 64"
  shows "decode_queue_pairs dec
      (zip (map (\<lambda>(c, iq, _). \<lparr>pbqe_canister_id = Some (canister_id_to_pb enc c), pbqe_queue = Some (iq_to_pb enc iq)\<rparr>) es)
           (map (\<lambda>(c, _, oq). \<lparr>pbqe_canister_id = Some (canister_id_to_pb enc c), pbqe_queue = Some (oq_to_pb enc oq)\<rparr>) es)) m =
    Some (Inr (foldl (\<lambda>m (c, v). bt_insert c v m) m es))"
  using assms(2)
proof (induction es arbitrary: m)
  case (Cons e es)
  obtain c iq oq where e: "e = (c, iq, oq)" by (cases e)
  have "iq_try_from dec (iq_to_pb enc iq) = Some (Inr iq)" "oq_try_from dec (oq_to_pb enc oq) = Some (Inr oq)"
    using Cons.prems by (auto simp: e pair_ok_def intro!: iq_roundtrip oq_roundtrip assms(1))
  then show ?case
    using Cons by (simp add: e canister_id_roundtrip assms(1)) (simp add: try_from_option_field_def)
qed simp

lemma foldl_unchanged: "(\<And>s x. g (f s x) = g s) \<Longrightarrow> g (foldl f s xs) = g s"
  by (induction xs arbitrary: s) simp_all

lemma calculate_memory_transient: "mus_transient_stream_responses_size_bytes (calculate_memory_usage_stats z es) = 0"
  unfolding calculate_memory_usage_stats_def
  by (subst foldl_unchanged [where g = mus_transient_stream_responses_size_bytes]) (auto simp: mus_default_def)

lemma cq_roundtrip:
  assumes "\<And>c. dec (enc c) = Some c" and "cq_inv z q" and "cq_encodable q"
  shows "cq_try_from z dec (cq_to_pb enc q) = Some (Inr (cq_set_stream_responses_size_bytes 0 q))"
proof -
  have "\<forall>(c, v) \<in> set (cq_queues q). pair_ok v \<and> oq_end (snd v) < 2 ^ 64"
    using assms(3) pair_ok_entry [OF assms(2)] by (auto simp: cq_encodable_def)
  note pairs = decode_queue_pairs_encoded [OF assms(1) this, where m = "[]"]
  have es: "foldl (\<lambda>m (c, v). bt_insert c v m) [] (cq_queues q) = cq_queues q"
    using bt_collect_sorted [OF cq_inv_wf [OF assms(2)]] by (simp add: bt_collect_def)
  have ids: "try_map (canister_id_try_from dec) (map (canister_id_to_pb enc) cs) = Some (Inr cs)" for cs
    by (rule try_map_roundtrip) (simp add: canister_id_try_from_def canister_id_to_pb_def assms(1))
  have ing: "ing_try_from z dec (ing_to_pb enc (cq_ingress_queue q)) = Some (Inr (cq_ingress_queue q))"
    using assms(2,3) by (intro ing_roundtrip [OF assms(1)]) (simp_all add: cq_inv_def cq_encodable_def)
  have stats: "stats_ok z q" using assms(2) by (rule cq_inv_stats_ok)
  have mus: "calculate_memory_usage_stats z (cq_queues q) =
      (cq_memory_usage_stats q)\<lparr>mus_transient_stream_responses_size_bytes := 0\<rparr>"
    using stats calculate_memory_transient [of z "cq_queues q"]
    by (intro memory_usage_stats.equality) (simp_all add: stats_ok_def mus_eq_def)
  have nxt: "next_input_queue_from (case cq_next_input_queue q of NextLocalSubnet \<Rightarrow> 0 | NextIngress \<Rightarrow> 2 | NextRemoteSubnet \<Rightarrow> 3)
      = cq_next_input_queue q"
    by (simp add: next_input_queue_from_def split: next_input_queue.split)
  show ?thesis
    using stats
    by (simp add: cq_try_from_def cq_to_pb_def pairs es ids ing mus nxt stats_ok_def cq_set_stream_responses_size_bytes_def)
qed

section \<open>Histories of operations\<close>

text \<open>
  The state machine of one canister's queues. Each rule is one call with its result; the other
  premises are what callers guarantee: no sum of cycles in the system reaches \<open>2\<^sup>128\<close>, and a
  response is delivered only for a request that has left its output queue (of \<open>n\<close> slots reserved
  for responses, one is not backing a queued request). A closure passed to \<open>output_queues_for_each\<close>
  may remember all messages it has been offered.
\<close>

definition expected_input :: "'p canister_queues \<Rightarrow> 'p request_or_response \<Rightarrow> bool" where
  "expected_input q msg \<longleftrightarrow>
     (case msg of
        Request _ \<Rightarrow> True
      | Response _ \<Rightarrow>
          sum_list (map request_count (out_messages q (rr_sender msg))) <
          iq_reserved_slots (fst (cq_pair q (rr_sender msg))))"

inductive cq_step :: "layout \<Rightarrow> 'p::linorder \<Rightarrow> 'p canister_queues \<Rightarrow> 'p canister_queues \<Rightarrow> bool"
  for z :: layout and ic00 :: 'p where
  push_ingress: "cq_step z ic00 q (cq_push_ingress z q i)"
| filter_ingress: "cq_step z ic00 q (cq_filter_ingress_messages z g q)"
| push_input: "cq_push_input z q m t = (q', r) \<Longrightarrow> input_cycles_fit q m \<Longrightarrow> expected_input q m \<Longrightarrow> cq_step z ic00 q q'"
| pop_input: "cq_pop_input z q = Some (x, q') \<Longrightarrow> cq_step z ic00 q q'"
| peek_input: "cq_peek_input q = Some (x, q') \<Longrightarrow> cq_step z ic00 q q'"
| skip_input: "cq_skip_input q d = Some (q', d') \<Longrightarrow> cq_step z ic00 q q'"
| push_output_request:
    "cq_push_output_request z q req t = Some (q', r) \<Longrightarrow> output_cycles_fit q (Request req) \<Longrightarrow> cq_step z ic00 q q'"
| reject_ic00:
    "cq_reject_ic00_output_request z ic00 q req rc = Some (q', r) \<Longrightarrow>
     input_cycles_fit q (ic00_reject ic00 req rc) \<Longrightarrow> cq_step z ic00 q q'"
| push_output_response:
    "cq_push_output_response z q rsp = Some q' \<Longrightarrow> output_cycles_fit q (Response rsp) \<Longrightarrow> cq_step z ic00 q q'"
| induct_to_self:
    "cq_induct_message_to_self z q own = Some (q', r) \<Longrightarrow>
     (\<And>m ms. out_messages q own = m # ms \<Longrightarrow> input_cycles_fit q m \<and> expected_input q m \<and> rr_sender m = own) \<Longrightarrow>
     cq_step z ic00 q q'"
| iterate: "it_pop z it q = Some (x, it', q') \<Longrightarrow> it_inv it q \<Longrightarrow> cq_step z ic00 q q'"
| consume: "cq_output_queues_for_each z f (s :: ('p \<times> 'p request_or_response) list) q = Some (s', q') \<Longrightarrow> cq_step z ic00 q q'"
| garbage_collect: "cq_garbage_collect z q = Some q' \<Longrightarrow> cq_step z ic00 q q'"
| time_out:
    "cq_time_out_requests z q now own lc = Some (q', n) \<Longrightarrow>
     unat (iqs_cycles (cq_input_queues_stats q)) + unat (oqs_cycles (cq_output_queues_stats q)) \<le> cycles_max \<Longrightarrow>
     cq_step z ic00 q q'"
| set_stream_responses: "cq_step z ic00 q (cq_set_stream_responses_size_bytes k q)"

lemma requests_backed_put:
  "requests_backed q \<Longrightarrow> cq_pair q' = (cq_pair q)(c := v) \<Longrightarrow> backed v \<Longrightarrow> requests_backed q'"
  by (simp add: requests_backed_def)

lemma requests_backed_same: "requests_backed q \<Longrightarrow> cq_pair q' = cq_pair q \<Longrightarrow> requests_backed q'"
  by (simp add: requests_backed_def)

lemma requests_backed_pair: "requests_backed q \<Longrightarrow>
    sum_list (map request_count (oq_messages (snd (cq_pair q c)))) \<le> iq_reserved_slots (fst (cq_pair q c))"
  by (simp add: requests_backed_def backed_def)

lemma step_push_input:
  assumes "cq_inv z q" and "requests_backed q"
    and "cq_push_input z q m t = (q', r)" and "input_cycles_fit q m" and "expected_input q m"
  shows "cq_inv z q' \<and> requests_backed q'"
  using assms(1,4,3)
proof (cases rule: cq_push_input_cases)
  case pushed
  then obtain iq' oq' where p: "cq_inv z q'" "cq_pair q' = (cq_pair q)(rr_sender m := (iq', oq'))"
      "oq_messages oq' = oq_messages (snd (cq_pair q (rr_sender m)))"
      "case m of Request _ \<Rightarrow> iq_reserved_slots iq' = iq_reserved_slots (fst (cq_pair q (rr_sender m)))
       | Response _ \<Rightarrow> Suc (iq_reserved_slots iq') = iq_reserved_slots (fst (cq_pair q (rr_sender m)))"
    by (auto simp: input_pushed_def split: request_or_response.splits)
  have "backed (iq', oq')"
    using p(3,4) assms(5) requests_backed_pair [OF assms(2), of "rr_sender m"]
    by (cases m) (simp_all add: backed_def expected_input_def out_messages_def)
  with p(1,2) requests_backed_put [OF assms(2)] show ?thesis by blast
next
  case rejected
  then show ?thesis
    using requests_backed_same [OF assms(2)] by (auto simp: input_rejected_def same_view_def)
qed

text \<open>Consuming input changes neither output queues nor reservations.\<close>

definition outputs_kept :: "'p canister_queues \<Rightarrow> 'p canister_queues \<Rightarrow> bool" where
  "outputs_kept q q' \<longleftrightarrow>
     (\<forall>c. snd (cq_pair q' c) = snd (cq_pair q c) \<and>
        iq_reserved_slots (fst (cq_pair q' c)) = iq_reserved_slots (fst (cq_pair q c)))"

lemma outputs_kept_refl: "cq_pair q' = cq_pair q \<Longrightarrow> outputs_kept q q'"
  by (simp add: outputs_kept_def)

lemma outputs_kept_trans: "outputs_kept q q1 \<Longrightarrow> outputs_kept q1 q2 \<Longrightarrow> outputs_kept q q2"
  by (simp add: outputs_kept_def)

lemma outputs_kept_backed: "outputs_kept q q' \<Longrightarrow> requests_backed q \<Longrightarrow> requests_backed q'"
  by (simp add: outputs_kept_def requests_backed_def backed_def)

lemma cq_pair_other_fields [simp]:
  "cq_pair (q\<lparr>cq_next_input_queue := n\<rparr>) = cq_pair q" "cq_pair (q\<lparr>cq_ingress_queue := i\<rparr>) = cq_pair q"
  "cq_pair (q\<lparr>cq_memory_usage_stats := m\<rparr>) = cq_pair q"
  by (simp_all add: cq_pair_def fun_eq_iff)

lemma pop_canister_outputs_kept:
  assumes "cq_inv z q" and "cq_pop_canister_input z q t = Some (x, q')"
  shows "outputs_kept q q'"
proof (cases "cq_input_schedule t q")
  case Nil
  then show ?thesis using assms(2) by (simp add: cq_pop_canister_input_empty outputs_kept_def)
next
  case (Cons c rest)
  then obtain m where "input_popped z t q m q'" using cq_pop_canister_input_ok [OF assms(1) Cons] assms(2) by auto
  then show ?thesis by (auto simp: input_popped_def outputs_kept_def)
qed

lemma pop_source_outputs_kept:
  assumes "cq_inv z q" and "cq_pop_source z q n = Some (x, q')"
  shows "outputs_kept q q'" and "cq_inv z q'"
proof -
  show "outputs_kept q q'"
    using assms pop_canister_outputs_kept [OF assms(1)]
    by (cases n) (auto simp: cq_pop_source_def cq_pop_ingress_def bind_eq_Some_conv outputs_kept_def)
  show "cq_inv z q'" using cq_pop_source_peek [OF assms(1), of n] assms(2) by auto
qed

lemma pop_loop_outputs_kept:
  assumes "cq_inv z q" and "pop_input_loop z k q = Some (x, q')"
  shows "outputs_kept q q' \<and> cq_inv z q'"
  using assms
proof (induction k arbitrary: q)
  case 0
  then show ?case by (simp add: outputs_kept_def)
next
  case (Suc k)
  let ?q = "q\<lparr>cq_next_input_queue := next_queue (cq_next_input_queue q)\<rparr>"
  obtain y q2 where s: "cq_pop_source z ?q (cq_next_input_queue q) = Some (y, q2)"
    using Suc.prems(2) by (auto simp: Let_def split: option.splits)
  have inv: "cq_inv z ?q" using Suc.prems(1) by simp
  note kept = pop_source_outputs_kept [OF inv s]
  have q2: "outputs_kept q q2" using kept(1) by (simp add: outputs_kept_def)
  show ?case
  proof (cases y)
    case None
    then have "pop_input_loop z k q2 = Some (x, q')" using Suc.prems(2) s by (simp add: Let_def)
    then show ?thesis using Suc.IH [OF kept(2)] outputs_kept_trans [OF q2] by blast
  next
    case (Some m)
    then show ?thesis using Suc.prems(2) s kept(2) q2 by (simp add: Let_def)
  qed
qed

lemma peek_loop_next: "peek_input_loop k q = Some (x, q') \<Longrightarrow> \<exists>n. q' = q\<lparr>cq_next_input_queue := n\<rparr>"
proof (induction k arbitrary: q)
  case 0
  then show ?case by (intro exI [of _ "cq_next_input_queue q"]) simp
next
  case (Suc k)
  show ?case
  proof (cases "cq_peek_source q (cq_next_input_queue q)")
    case (Some y)
    show ?thesis
    proof (cases y)
      case None
      then have "\<exists>n. q' = q\<lparr>cq_next_input_queue := next_queue (cq_next_input_queue q)\<rparr>\<lparr>cq_next_input_queue := n\<rparr>"
        using Suc.prems Some by (intro Suc.IH) simp
      then show ?thesis by simp
    next
      case (Some m)
      then have "q' = q\<lparr>cq_next_input_queue := cq_next_input_queue q\<rparr>"
        using Suc.prems \<open>cq_peek_source q (cq_next_input_queue q) = Some y\<close> by simp
      then show ?thesis by blast
    qed
  qed (use Suc.prems in simp)
qed

lemma all_input_queue_type: "(\<forall>t. P t) \<longleftrightarrow> P LocalSubnet \<and> P RemoteSubnet"
  by (metis input_queue_type.exhaust)

lemma cq_skip_input_ok:
  assumes "cq_inv z q"
  shows "\<exists>q' d'. cq_skip_input q d = Some (q', d') \<and> cq_inv z q' \<and> cq_pair q' = cq_pair q \<and>
    cq_ingress_queue q' = cq_ingress_queue q \<and>
    (\<forall>t. cq_input_schedule t q' =
       (if (t, cq_next_input_queue q) \<in> {(LocalSubnet, NextLocalSubnet), (RemoteSubnet, NextRemoteSubnet)}
        then rotate1 (cq_input_schedule t q) else cq_input_schedule t q)) \<and>
    cq_next_input_queue q' = next_queue (cq_next_input_queue q)"
proof -
  have sched [simp]: "cq_input_schedule t (q1\<lparr>cq_next_input_queue := n\<rparr>) = cq_input_schedule t q1" for t n and q1 :: "'a canister_queues"
    by (cases t) (simp_all add: cq_input_schedule_def)
  show ?thesis
  proof (cases "cq_next_input_queue q")
    case NextLocalSubnet
    obtain q1 where "cq_skip_canister_input q LocalSubnet = Some q1" "cq_inv z q1" "cq_pair q1 = cq_pair q"
      "cq_input_schedule LocalSubnet q1 = rotate1 (cq_input_schedule LocalSubnet q)"
      "cq_input_schedule (other_type LocalSubnet) q1 = cq_input_schedule (other_type LocalSubnet) q"
      "cq_ingress_queue q1 = cq_ingress_queue q"
      using cq_skip_canister_input_ok [OF assms, of LocalSubnet] by blast
    then show ?thesis using NextLocalSubnet by (simp add: cq_skip_input_def all_input_queue_type)
  next
    case NextIngress
    then show ?thesis using assms by (simp add: cq_skip_input_def)
  next
    case NextRemoteSubnet
    obtain q1 where "cq_skip_canister_input q RemoteSubnet = Some q1" "cq_inv z q1" "cq_pair q1 = cq_pair q"
      "cq_input_schedule RemoteSubnet q1 = rotate1 (cq_input_schedule RemoteSubnet q)"
      "cq_input_schedule (other_type RemoteSubnet) q1 = cq_input_schedule (other_type RemoteSubnet) q"
      "cq_ingress_queue q1 = cq_ingress_queue q"
      using cq_skip_canister_input_ok [OF assms, of RemoteSubnet] by blast
    then show ?thesis using NextRemoteSubnet by (simp add: cq_skip_input_def all_input_queue_type)
  qed
qed

lemma cq_inv_ingress:
  "cq_inv z q \<Longrightarrow> ing_inv z i \<Longrightarrow> cq_inv z (q\<lparr>cq_ingress_queue := i\<rparr>)"
  by (simp add: cq_inv_def stats_exact_def schedule_inv_def has_pending_input_def)

lemma cq_inv_ing: "cq_inv z q \<Longrightarrow> ing_inv z (cq_ingress_queue q)"
  by (simp add: cq_inv_def)

lemma cq_inv_set_stream: "cq_inv z q \<Longrightarrow> cq_inv z (cq_set_stream_responses_size_bytes k q)"
proof -
  have "cq_stat s (cq_set_stream_responses_size_bytes k q) = cq_stat s q" for s
    by (cases s) (simp_all add: cq_set_stream_responses_size_bytes_def)
  then show "cq_inv z q \<Longrightarrow> cq_inv z (cq_set_stream_responses_size_bytes k q)"
    unfolding cq_inv_def stats_exact_def
    by (simp add: schedule_inv_def has_pending_input_def cq_set_stream_responses_size_bytes_def)
qed

lemma step_push_output_request:
  assumes "cq_inv z q" and "requests_backed q"
    and "cq_push_output_request z q req t = Some (q', r)" and "output_cycles_fit q (Request req)"
  shows "cq_inv z q' \<and> requests_backed q'"
proof -
  note spec = cq_push_output_request_spec [OF assms(1,4), of t]
  show ?thesis
  proof (cases "can_push_output_request q req")
    case True
    then have "output_request_pushed z q req q'" using spec assms(3) by auto
    then obtain iq' oq' where p: "cq_inv z q'" "cq_pair q' = (cq_pair q)(receiver req := (iq', oq'))"
        "oq_messages oq' = oq_messages (snd (cq_pair q (receiver req))) @ [Request req]"
        "iq_reserved_slots iq' = Suc (iq_reserved_slots (fst (cq_pair q (receiver req))))"
      by (auto simp: output_request_pushed_def)
    have "backed (iq', oq')"
      using p(3,4) requests_backed_pair [OF assms(2), of "receiver req"] by (simp add: backed_def)
    with p(1,2) requests_backed_put [OF assms(2)] show ?thesis by blast
  next
    case False
    then show ?thesis using spec assms(3) requests_backed_same [OF assms(2)] by (auto simp: same_view_def)
  qed
qed

lemma step_push_output_response:
  assumes "cq_inv z q" and "requests_backed q"
    and "cq_push_output_response z q rsp = Some q'" and "output_cycles_fit q (Response rsp)"
  shows "cq_inv z q' \<and> requests_backed q'"
proof -
  let ?v = "cq_pair q (originator rsp)"
  obtain oq' where p: "cq_inv z q'" "cq_pair q' = (cq_pair q)(originator rsp := (fst ?v, oq'))"
      "oq_messages oq' = oq_messages (snd ?v) @ [Response rsp]"
    using cq_push_output_response_spec [OF assms(1,4)] assms(3) by (auto split: if_splits)
  have "backed (fst ?v, oq')"
    using p(3) requests_backed_pair [OF assms(2), of "originator rsp"] by (simp add: backed_def)
  with p(1,2) requests_backed_put [OF assms(2)] show ?thesis by blast
qed

lemma step_reject_ic00:
  assumes "cq_inv z q" and "requests_backed q" and "cq_reject_ic00_output_request z ic00 q req rc = Some (q', r)"
    and "input_cycles_fit q (ic00_reject ic00 req rc)"
  shows "cq_inv z q' \<and> requests_backed q'"
proof -
  have rcv: "receiver req = ic00" using assms(3) by (simp add: cq_reject_ic00_output_request_def split: if_splits)
  have "cq_inv z q' \<and> (\<exists>iq'. cq_pair q' = (cq_pair q)(ic00 := (iq', snd (cq_pair q ic00))) \<and>
          iq_reserved_slots iq' = iq_reserved_slots (fst (cq_pair q ic00))) \<or> cq_inv z q' \<and> cq_pair q' = cq_pair q"
    using cq_reject_ic00_spec [OF assms(1) rcv assms(4)] assms(3) by (auto split: if_splits)
  then show ?thesis
  proof (elim disjE conjE exE)
    fix iq' assume p: "cq_pair q' = (cq_pair q)(ic00 := (iq', snd (cq_pair q ic00)))"
      "iq_reserved_slots iq' = iq_reserved_slots (fst (cq_pair q ic00))" "cq_inv z q'"
    have "backed (iq', snd (cq_pair q ic00))"
      using p(2) requests_backed_pair [OF assms(2), of ic00] by (simp add: backed_def)
    with p(1,3) requests_backed_put [OF assms(2)] show ?thesis by blast
  qed (use requests_backed_same [OF assms(2)] in blast)
qed

lemma step_iterate:
  assumes "cq_inv z q" and "requests_backed q" and "it_pop z it q = Some (x, it', q')" and "it_inv it q"
  shows "cq_inv z q' \<and> requests_backed q'"
proof (cases "it_queues it")
  case Nil
  then show ?thesis using assms by (simp add: it_pop_def)
next
  case (Cons c cs)
  then obtain m ms where m: "out_messages q c = m # ms"
    using assms(4) by (cases "out_messages q c") (auto simp: it_inv_def)
  have p: "cq_inv z q'" "out_messages q' = (out_messages q)(c := ms)" "\<And>c'. fst (cq_pair q' c') = fst (cq_pair q c')"
    using it_pop_ok [OF assms(1,4) Cons m] assms(3) by auto
  have "backed (cq_pair q' c')" for c'
    using requests_backed_pair [OF assms(2), of c'] m fun_cong [OF p(2), of c']
    by (auto simp: backed_def p(3) out_messages_def split: if_splits)
  then show ?thesis using p(1) by (simp add: requests_backed_def)
qed

lemma step_induct:
  assumes "cq_inv z q" and "requests_backed q" and "cq_induct_message_to_self z q own = Some (q', r)"
    and "\<And>m ms. out_messages q own = m # ms \<Longrightarrow> input_cycles_fit q m \<and> expected_input q m \<and> rr_sender m = own"
  shows "cq_inv z q' \<and> requests_backed q'"
proof -
  have "\<forall>m ms. oq_messages (snd (cq_pair q own)) = m # ms \<longrightarrow> input_cycles_fit q m"
    using assms(4) by (simp add: out_messages_def)
  note spec = cq_induct_message_to_self_spec [where own = own, OF assms(1) this]
  have inv: "cq_inv z q'" using spec assms(3) by auto
  show ?thesis
  proof (cases "out_messages q own")
    case Nil
    then show ?thesis using spec assms(2,3) inv by (auto simp: out_messages_def)
  next
    case (Cons m ms)
    show ?thesis
    proof (cases "can_push_input q m")
      case True
      then obtain q1 oq1 where p: "cq_push_input z q m LocalSubnet = (q1, Inr ())"
          "cq_pair q' = (cq_pair q1)(own := (fst (cq_pair q1 own), oq1))"
          "oq_messages (snd (cq_pair q1 own)) = m # ms" "oq_messages oq1 = ms"
        using spec assms(3) Cons by (auto simp: out_messages_def)
      have q1: "requests_backed q1" using step_push_input [OF assms(1,2) p(1)] assms(4) [OF Cons] by simp
      have "backed (fst (cq_pair q1 own), oq1)"
        using requests_backed_pair [OF q1, of own] p(3,4) by (simp add: backed_def)
      with inv p(2) requests_backed_put [OF q1] show ?thesis by blast
    next
      case False
      then show ?thesis
        using spec assms(3) Cons inv requests_backed_same [OF assms(2)] by (auto simp: out_messages_def same_view_def)
    qed
  qed
qed

lemma step_consume:
  assumes "cq_inv z q" and "requests_backed q" and "cq_output_queues_for_each z f s q = Some (s', q')"
  shows "cq_inv z q' \<and> requests_backed q'"
proof -
  have run: "cq_inv z q'" "list_all2 entry_consumed (cq_queues q) (cq_queues q')"
    using cq_output_queues_for_each_ok [OF assms(1), of f s] assms(3) by auto
  have fst_eq: "entry_consumed e e' \<Longrightarrow> fst e' = fst e" for e e' :: "'a \<times> 'a input_queue \<times> 'a output_queue"
    by (simp add: entry_consumed_def)
  note all = list_all2_get [OF run(2) fst_eq]
  have "backed (cq_pair q' c)" for c
  proof (cases "bt_get (cq_queues q) c")
    case None
    then have "cq_pair q' c = cq_pair q c" using all(2) [of c] by (simp add: cq_pair_def)
    then show ?thesis using assms(2) by (simp add: requests_backed_def)
  next
    case (Some v)
    from all(3) [OF _ Some] obtain v' where v': "bt_get (cq_queues q') c = Some v'" "entry_consumed (c, v) (c, v')" by blast
    then show ?thesis
      using requests_backed_pair [OF assms(2), of c] cq_pair_get [OF Some] cq_pair_get [OF v'(1)]
      by (auto simp: backed_def entry_consumed_def)
  qed
  then show ?thesis using run(1) by (simp add: requests_backed_def)
qed

lemma step_gc:
  assumes "cq_inv z q" and "requests_backed q" and "cq_garbage_collect z q = Some q'"
  shows "cq_inv z q' \<and> requests_backed q'"
proof -
  have p: "cq_inv z q'" "\<And>c. cq_view q' c = cq_view q c"
    using cq_garbage_collect_ok [OF assms(1)] assms(3) by (metis option.inject)+
  have "backed (cq_pair q' c)" for c
    using p(2) [of c] requests_backed_pair [OF assms(2), of c]
    by (cases "cq_pair q c"; cases "cq_pair q' c") (simp add: cq_view_def backed_def)
  then show ?thesis using p(1) by (simp add: requests_backed_def)
qed

lemma cq_step_preserves:
  assumes "cq_step z ic00 q q'" and "cq_inv z q" and "requests_backed q"
  shows "cq_inv z q' \<and> requests_backed q'"
  using assms
proof (induction rule: cq_step.induct)
  case (push_ingress q i)
  then show ?case
    by (simp add: cq_push_ingress_def requests_backed_def cq_inv_ingress ing_inv_push cq_inv_ing)
next
  case (filter_ingress q g)
  then show ?case
    by (simp add: cq_filter_ingress_messages_def requests_backed_def cq_inv_ingress ing_inv_filter cq_inv_ing)
next
  case (pop_input q x q')
  then show ?case
    using pop_loop_outputs_kept [of z q 3 x q'] outputs_kept_backed by (auto simp: cq_pop_input_def)
next
  case (peek_input q x q')
  then show ?case
    using peek_loop_next [of 3 q x q'] by (auto simp: cq_peek_input_def requests_backed_def)
next
  case (skip_input q d q' d')
  then show ?case using cq_skip_input_ok [of z q d] by (auto simp: requests_backed_def)
next
  case (time_out q now own lc q' n)
  then show ?case using cq_time_out_requests_ok [of z q now own lc] by auto
next
  case (set_stream_responses q k)
  then show ?case
    using cq_inv_set_stream [of z q k] by (simp add: requests_backed_def cq_set_stream_responses_size_bytes_def)
qed (use step_push_input step_push_output_request step_push_output_response step_reject_ic00 step_iterate
      step_induct step_consume step_gc in metis)+

lemma cq_inv_default: "cq_inv z (cq_default z)"
proof -
  have "stats_exact z (cq_default z)"
    unfolding stats_exact_def
    by (intro allI, case_tac s) (simp_all add: cq_default_def iqs_default_def oqs_default_def mus_default_def bt.total_def cycles_zero_def)
  then show ?thesis
    by (simp add: cq_inv_def cq_default_def schedule_inv_def has_pending_input_def ing_inv_default)
qed

lemma requests_backed_default: "requests_backed (cq_default z)"
  by (simp add: requests_backed_def cq_pair_def cq_default_def backed_def)

text \<open>The states a canister's queues can reach from new ones.\<close>

abbreviation cq_reachable :: "layout \<Rightarrow> 'p::linorder \<Rightarrow> 'p canister_queues \<Rightarrow> bool" where
  "cq_reachable z ic00 q \<equiv> (cq_step z ic00)\<^sup>*\<^sup>* (cq_default z) q"

lemma cq_reachable_inv:
  assumes "cq_reachable z ic00 q"
  shows "cq_inv z q \<and> requests_backed q"
  using assms
  by (induction rule: rtranclp_induct) (simp_all add: cq_inv_default requests_backed_default cq_step_preserves)

end
