(* ===== verification/CanisterQueues_Spec.thy ===== *)
theory CanisterQueues_Spec
  imports CanisterQueues_System
begin

text \<open>
  The properties of \<open>CanisterQueues\<close>, with a concrete state they are applied to.
\<close>

section \<open>A sample state\<close>

definition example_input :: "u8 request" where
  "example_input =
     \<lparr>receiver = 1, sender = 2, sender_reply_callback = 9, payment = 4, method_name = ''n'', method_payload = [3]\<rparr>"

text \<open>Canister 1 has sent a request to canister 2, and has one from it and an ingress message to process.\<close>

definition example_cq1 :: "u8 canister_queues" where
  "example_cq1 =
     \<lparr>cq_ingress_queue = ing_default example_layout,
      cq_queues =
        [(2, \<lparr>iq_queue = \<lparr>queue = [], capacity = 500, num_slots_reserved = 1\<rparr>\<rparr>,
             \<lparr>oq_queue = \<lparr>queue = [Some (Request example_request)], capacity = 500, num_slots_reserved = 0\<rparr>,
              oq_begin = 0, oq_deadline_range_ends = [(300000000000, 1)], oq_timeout_index = 0, oq_num_messages = 1\<rparr>)],
      cq_local_subnet_input_schedule = [], cq_remote_subnet_input_schedule = [],
      cq_input_queues_stats =
        \<lparr>iqs_message_count = 0, iqs_response_count = 0, iqs_reserved_slots = 1, iqs_size_bytes = 56, iqs_cycles = 0\<rparr>,
      cq_output_queues_stats = \<lparr>oqs_message_count = 1, oqs_cycles = 5\<rparr>,
      cq_memory_usage_stats =
        \<lparr>mus_responses_size_bytes = 0, mus_reserved_slots = 1, mus_oversized_requests_extra_bytes = 0,
         mus_transient_stream_responses_size_bytes = 0\<rparr>,
      cq_next_input_queue = NextLocalSubnet\<rparr>"

definition example_cq :: "u8 canister_queues" where
  "example_cq =
     example_cq1
       \<lparr>cq_ingress_queue := ing_push example_layout (ing_default example_layout) example_ingress,
        cq_queues :=
          [(2, \<lparr>iq_queue = \<lparr>queue = [Request example_input], capacity = 500, num_slots_reserved = 1\<rparr>\<rparr>,
             \<lparr>oq_queue = \<lparr>queue = [Some (Request example_request)], capacity = 500, num_slots_reserved = 1\<rparr>,
              oq_begin = 0, oq_deadline_range_ends = [(300000000000, 1)], oq_timeout_index = 0, oq_num_messages = 1\<rparr>)],
        cq_remote_subnet_input_schedule := [2],
        cq_input_queues_stats :=
          \<lparr>iqs_message_count = 1, iqs_response_count = 0, iqs_reserved_slots = 1,
           iqs_size_bytes = 56 + rr_count_bytes example_layout (Request example_input), iqs_cycles = 4\<rparr>,
        cq_memory_usage_stats :=
          \<lparr>mus_responses_size_bytes = 0, mus_reserved_slots = 2, mus_oversized_requests_extra_bytes = 0,
           mus_transient_stream_responses_size_bytes = 0\<rparr>\<rparr>"

lemma example_small: "request_count_bytes example_layout example_request - MAX_RESPONSE_COUNT_BYTES example_layout = 0"
  "request_count_bytes example_layout example_input - MAX_RESPONSE_COUNT_BYTES example_layout = 0"
  by (simp_all add: request_count_bytes_def MAX_RESPONSE_COUNT_BYTES_def MAX_INTER_CANISTER_PAYLOAD_IN_BYTES_def example_layout_def example_request_def
   example_input_def)

lemma example_push_output:
  "cq_push_output_request example_layout (cq_default example_layout) example_request 0 = Some (example_cq1, Inr ())"
  by (simp add: cq_push_output_request_def cq_get_or_insert_queues_def cq_default_def example_cq1_def
   oq_check_has_slot_def qwr_check_has_slot_def oq_new_def qwr_new_def iq_new_def iq_reserve_slot_def qwr_reserve_slot_def
   oq_push_request_def qwr_push_def push_deadline_def time_add_def REQUEST_LIFETIME_def DEFAULT_QUEUE_CAPACITY_def cq_put_def
   Let_def iq_calculate_size_bytes_def iqs_default_def oqs_default_def mus_default_def oqs_add_assign_def mus_add_assign_def
   oqs_stats_delta_def mus_request_stats_delta_def example_small cycles_zero_def cycles_add_def saturating_add_def
   qwr_calculate_stat_sum_def) (simp add: example_request_def example_layout_def)

lemma example_push_input:
  "cq_push_input example_layout (cq_push_ingress example_layout example_cq1 example_ingress) (Request example_input) RemoteSubnet
    = (example_cq, Inr ())"
  by (simp add: cq_push_input_def cq_push_ingress_def cq_get_or_insert_queues_def example_cq1_def example_cq_def bt_get_def
   example_input_def [THEN arg_cong [of _ _ sender]]
   iq_check_has_slot_def qwr_check_has_slot_def oq_reserve_slot_def qwr_reserve_slot_def cq_push_selected_def iq_push_def qwr_push_def cq_put_def iq_num_messages_def
   cq_schedule_push_def Let_def
   iqs_add_assign_def iqs_stats_delta_def mus_add_assign_def mus_stats_delta_def mus_request_stats_delta_def example_small cycles_add_def
   saturating_add_def) (simp add: example_input_def)

lemma example_cq1_reachable: "cq_reachable example_layout 0 example_cq1"
proof -
  have "output_cycles_fit (cq_default example_layout) (Request example_request)"
    by (simp add: output_cycles_fit_def cq_default_def oqs_default_def cycles_zero_def example_request_def)
  then show ?thesis using cq_step.push_output_request [OF example_push_output] by blast
qed

lemma example_cq_reachable: "cq_reachable example_layout 0 example_cq"
proof -
  let ?q = "cq_push_ingress example_layout example_cq1 example_ingress"
  have "cq_step example_layout 0 example_cq1 ?q" by (rule cq_step.push_ingress)
  moreover have "cq_step example_layout 0 ?q example_cq"
    by (rule cq_step.push_input [OF example_push_input])
      (simp_all add: input_cycles_fit_def expected_input_def cq_push_ingress_def example_cq1_def example_input_def)
  ultimately show ?thesis using example_cq1_reachable by (meson rtranclp.rtrancl_into_rtrancl)
qed

lemma example_cq_inv: "cq_inv example_layout example_cq" "requests_backed example_cq"
  using cq_reachable_inv [OF example_cq_reachable] by simp_all

section \<open>Invariant and absence of panics\<close>



lemma collect_slots_some:
  "(\<forall>e \<in> set es. pair_ok (snd e)) \<Longrightarrow> collect_slots es \<noteq> None"
proof (induction es)
  case (Cons e es)
  obtain c iq oq where e: "e = (c, iq, oq)" by (cases e)
  have "iq_available_slots iq \<noteq> None" "oq_available_slots oq \<noteq> None"
    using Cons.prems
    by (simp_all add: e pair_ok_def iq_available_slots_def oq_available_slots_def qwr_available_slots_def
        iq_inv_def oq_inv_def qwr_inv_def sub_usize_def)
  then show ?case using Cons by (auto simp: e)
qed simp



section \<open>Input\<close>

text \<open>
  C27. Pushing an input message succeeds exactly if both queues of the sender's pair have room (for a
  request, which also reserves an output slot for the response) or a slot is reserved for it (for a
  response). On success the message is appended, the sender scheduled if it had no input pending,
  and the statistics stay exact; on failure the caller gets the message back with \<open>QueueFull\<close> and
  nothing observable has changed.
\<close>

theorem cq_push_input_exact:
  assumes "cq_reachable z ic00 q" and "input_cycles_fit q msg" and "cq_push_input z q msg t = (q', r)"
  shows "if can_push_input q msg then r = Inr () \<and> input_pushed z q msg t q' else input_rejected z q msg q' r"
proof -
  have "cq_inv z q" using cq_reachable_inv [OF assms(1)] by simp
  then show ?thesis using assms(2,3) by (cases rule: cq_push_input_cases) simp_all
qed

theorem cq_push_input_exact_witness:
  "input_pushed example_layout (cq_push_ingress example_layout example_cq1 example_ingress) (Request example_input) RemoteSubnet example_cq"
proof -
  let ?q = "cq_push_ingress example_layout example_cq1 example_ingress"
  have "cq_reachable example_layout 0 ?q"
    using example_cq1_reachable cq_step.push_ingress by (meson rtranclp.rtrancl_into_rtrancl)
  moreover have "input_cycles_fit ?q (Request example_input)"
    by (simp add: input_cycles_fit_def cq_push_ingress_def example_cq1_def example_input_def)
  moreover have "can_push_input ?q (Request example_input)"
    by (simp add: can_push_input_def cq_push_ingress_def cq_pair_def bt_get_def example_cq1_def example_input_def
        iq_messages_def iq_reserved_slots_def oq_reserved_slots_def qwr_reserved_slots_def DEFAULT_QUEUE_CAPACITY_def)
  ultimately show ?thesis using cq_push_input_exact [OF _ _ example_push_input] by simp
qed

text \<open>
  \<open>peek_input\<close> returns the message that the next \<open>pop_input\<close> returns, also when it is called in
  between; and \<open>has_input\<close>, computed from the statistics, tells whether there is one.
\<close>

theorem cq_peek_is_pop:
  assumes "cq_reachable z ic00 q"
  shows "\<exists>m q1 q2. cq_peek_input q = Some (m, q1) \<and> cq_pop_input z q = Some (m, q2) \<and> cq_pop_input z q1 = Some (m, q2) \<and>
    (cq_has_input q \<longleftrightarrow> m \<noteq> None)"
proof -
  have inv: "cq_inv z q" using cq_reachable_inv [OF assms] by simp
  show ?thesis using cq_peek_pop_input [OF inv] cq_has_input_iff [OF inv] by metis
qed

theorem cq_peek_is_pop_witness:
  "\<exists>m q1 q2. cq_peek_input example_cq = Some (m, q1) \<and> cq_pop_input example_layout example_cq = Some (m, q2) \<and> m \<noteq> None"
proof -
  have "cq_has_input example_cq" by (simp add: cq_has_input_def example_cq_def)
  then show ?thesis using cq_peek_is_pop [OF example_cq_reachable] by blast
qed

text \<open>
  C33. Popping from one of the two schedules as often as it is long serves each scheduled sender once,
  in order, with the message at the head of its queue: no sender is starved by another one's
  backlog.
\<close>

theorem cq_round_robin:
  assumes "cq_reachable z ic00 q"
  shows "\<exists>q'. pop_many z t (length (cq_input_schedule t q)) q =
    Some (map (\<lambda>c. Some (to_input_message (hd (iq_messages (fst (cq_pair q c)))))) (cq_input_schedule t q), q')"
proof -
  have "cq_inv z q" using cq_reachable_inv [OF assms] by simp
  from pop_many_round [OF this, of t "cq_input_schedule t q" "[]"] show ?thesis by auto
qed

theorem cq_round_robin_witness:
  "\<exists>q'. pop_many example_layout RemoteSubnet 1 example_cq = Some ([Some (InputRequest example_input)], q')"
  using cq_round_robin [OF example_cq_reachable, of RemoteSubnet]
  by (simp add: example_cq_def example_cq1_def cq_input_schedule_def cq_pair_def bt_get_def iq_messages_def)

section \<open>Time-outs and garbage collection\<close>

text \<open>
  C24. Timing out requests at time \<open>t\<close> removes from each output queue exactly the requests in expired
  deadline ranges, and appends to the input queue of the same pair, in the same order, one reject
  response for each, which refunds the payment of the request; each response uses one reserved slot. It
  returns the number of these requests and keeps the statistics exact.
\<close>

theorem cq_time_out_exact:
  assumes "cq_reachable z ic00 q"
    and "unat (iqs_cycles (cq_input_queues_stats q)) + unat (oqs_cycles (cq_output_queues_stats q)) \<le> cycles_max"
  shows "\<exists>q'. cq_time_out_requests z q t own lc =
      Some (q', sum_list (map (\<lambda>(c, v). length (expired_requests (snd v) t)) (cq_queues q))) \<and>
    stats_ok z q' \<and>
    (\<forall>c. case (cq_pair q c, cq_pair q' c) of ((iq, oq), (iq', oq')) \<Rightarrow>
       oq_time_out_requests oq t = Some (expired_requests oq t, oq') \<and>
       iq_messages iq' = iq_messages iq @ map generate_timeout_response (expired_requests oq t) \<and>
       iq_reserved_slots iq' + length (expired_requests oq t) = iq_reserved_slots iq)"
proof -
  have inv: "cq_inv z q" "requests_backed q" using cq_reachable_inv [OF assms(1)] by simp_all
  obtain q' where q': "cq_time_out_requests z q t own lc =
      Some (q', sum_list (map (\<lambda>(c, v). length (expired_requests (snd v) t)) (cq_queues q)))"
      "cq_inv z q'" "\<forall>c. pair_timed_out t (cq_pair q c) (cq_pair q' c)"
    using cq_time_out_requests_ok [OF inv assms(2), of t own lc] by blast
  then show ?thesis using cq_inv_stats_ok [OF q'(2)]
    by (intro exI [of _ q']) (simp add: pair_timed_out_def case_prod_unfold)
qed

theorem cq_time_out_exact_witness:
  "\<exists>q'. cq_time_out_requests example_layout example_cq 300000000000 1 (\<lambda>c. False) = Some (q', 1) \<and>
    iq_messages (fst (cq_pair q' 2)) = [Request example_input, generate_timeout_response example_request]"
proof -
  have pair: "cq_pair example_cq 2 =
      (\<lparr>iq_queue = \<lparr>queue = [Request example_input], capacity = 500, num_slots_reserved = 1\<rparr>\<rparr>,
       example_oq\<lparr>oq_deadline_range_ends := [(300000000000, 1)]\<rparr>)"
    by (simp add: cq_pair_def bt_get_def example_cq_def example_oq_def)
  have queues: "cq_queues example_cq = [(2, cq_pair example_cq 2)]"
    unfolding pair by (simp add: example_cq_def example_oq_def)
  have exp: "expired_requests (example_oq\<lparr>oq_deadline_range_ends := [(300000000000, 1)]\<rparr>) 300000000000 = [example_request]"
    by (simp add: expired_requests_def expired_request_def oq_expired_def oq_slot_def example_oq_def
        List.map_filter_simps)
  have "unat (iqs_cycles (cq_input_queues_stats example_cq)) + unat (oqs_cycles (cq_output_queues_stats example_cq)) \<le> cycles_max"
    by (simp add: example_cq_def example_cq1_def)
  from cq_time_out_exact [OF example_cq_reachable this, of 300000000000 1 "\<lambda>c. False"] show ?thesis
    by (auto simp: queues pair exp iq_messages_def case_prod_unfold simp del: One_nat_def dest!: spec [of _ 2])
qed

text \<open>
  Garbage collection changes no queue: messages and reservations of every pair are as before, and
  the statistics stay exact. Only pairs without messages and reservations are dropped; and when
  nothing is left, the state is the initial one (up to the transient size of responses in
  streams), as its encoding must be for states to be equal across replicas.
\<close>

theorem cq_garbage_collect_exact:
  assumes "cq_reachable z ic00 q"
  shows "\<exists>q'. cq_garbage_collect z q = Some q' \<and> stats_ok z q' \<and> (\<forall>c. cq_view q' c = cq_view q c) \<and>
    (\<forall>c v. bt_get (cq_queues q') c = Some v \<longrightarrow> pair_used v) \<and>
    (cq_queues q' = [] \<and> ing_is_empty (cq_ingress_queue q') \<longrightarrow>
      q' = cq_set_stream_responses_size_bytes
        (mus_transient_stream_responses_size_bytes (cq_memory_usage_stats q)) (cq_default z))"
proof -
  have inv: "cq_inv z q" using cq_reachable_inv [OF assms] by simp
  obtain q' where q': "cq_garbage_collect z q = Some q'" "cq_inv z q'"
      "cq_queues q' = bt_retain (\<lambda>_ v. pair_used v) (cq_queues q)" "\<And>c. cq_view q' c = cq_view q c"
      "cq_queues q' = [] \<and> ing_is_empty (cq_ingress_queue q') \<Longrightarrow>
        q' = (cq_default z)\<lparr>cq_memory_usage_stats := mus_default\<lparr>mus_transient_stream_responses_size_bytes :=
          mus_transient_stream_responses_size_bytes (cq_memory_usage_stats q)\<rparr>\<rparr>"
    using cq_garbage_collect_ok [OF inv] by blast
  have "pair_used v" if "bt_get (cq_queues q') c = Some v" for c v
    using that unfolding q'(3) bt_get_retain [OF cq_inv_wf [OF inv]] by (auto split: option.splits if_splits)
  moreover have "(cq_default z)\<lparr>cq_memory_usage_stats := mus_default\<lparr>mus_transient_stream_responses_size_bytes := k\<rparr>\<rparr> =
      cq_set_stream_responses_size_bytes k (cq_default z)" for k
    by (simp add: cq_set_stream_responses_size_bytes_def cq_default_def)
  ultimately show ?thesis using q'(1,4,5) cq_inv_stats_ok [OF q'(2)] by auto
qed

theorem cq_garbage_collect_exact_witness:
  "\<exists>q'. cq_garbage_collect example_layout example_cq = Some q' \<and> cq_view q' 2 = cq_view example_cq 2"
  using cq_garbage_collect_exact [OF example_cq_reachable] by blast

section \<open>Memory usage\<close>

abbreviation cq_transient :: "'p canister_queues \<Rightarrow> nat" where
  "cq_transient q \<equiv> mus_transient_stream_responses_size_bytes (cq_memory_usage_stats q)"

lemma get_or_insert_memory:
  "cq_get_or_insert_queues z q c = (q1, iq, oq) \<Longrightarrow> cq_memory_usage_stats q1 = cq_memory_usage_stats q"
  by (auto simp: cq_get_or_insert_queues_def Let_def split: option.splits)

lemma push_selected_transient: "cq_push_selected z q v msg t = (q', r) \<Longrightarrow> cq_transient q' = cq_transient q"
  by (auto simp: cq_push_selected_def cq_put_def cq_schedule_push_def Let_def mus_add_assign_def
      split: sum.splits if_splits input_queue_type.splits)

lemma push_transient:
  "cq_push_input z q msg t = (q', r) \<Longrightarrow> cq_transient q' = cq_transient q"
  "cq_push_output_request z q req now = Some (q', r') \<Longrightarrow> cq_transient q' = cq_transient q"
  "cq_push_output_response z q rsp = Some q' \<Longrightarrow> cq_transient q' = cq_transient q"
proof -
  show "cq_push_input z q msg t = (q', r) \<Longrightarrow> cq_transient q' = cq_transient q"
    by (auto simp: cq_push_input_def push_selected_transient split: request_or_response.splits prod.splits sum.splits option.splits
        dest!: get_or_insert_memory dest: push_selected_transient)
  show "cq_push_output_request z q req now = Some (q', r') \<Longrightarrow> cq_transient q' = cq_transient q"
    by (auto simp: cq_push_output_request_def cq_put_def Let_def mus_add_assign_def split: prod.splits sum.splits
        dest!: get_or_insert_memory)
  show "cq_push_output_response z q rsp = Some q' \<Longrightarrow> cq_transient q' = cq_transient q"
    by (auto simp: cq_push_output_response_def cq_put_def Let_def mus_add_assign_def bind_eq_Some_conv)
qed

lemma cq_memory_usage_stat:
  assumes "0 \<le> cq_stat Reserved q" and "cq_stat Reserved q < 2 ^ 64"
  shows "int (cq_memory_usage z q) =
    cq_stat ResponseBytes q + cq_stat Reserved q * int (MAX_RESPONSE_COUNT_BYTES z) + cq_stat OversizedBytes q + int (cq_transient q)"
  using assms by (simp add: cq_memory_usage_def mus_memory_usage_def)

lemma cq_reserved_nonneg: "cq_inv z q \<Longrightarrow> 0 \<le> cq_stat Reserved q"
  unfolding cq_inv_def stats_exact_def by (metis of_nat_0_le_iff)

lemma memory_usage_request:
  assumes "cq_inv z q" and "cq_stat Reserved q < 2 ^ 64 - 1" and "cq_transient q' = cq_transient q"
    and "cq_stat ResponseBytes q' = cq_stat ResponseBytes q" and "cq_stat Reserved q' = cq_stat Reserved q + 1"
    and "cq_stat OversizedBytes q' = cq_stat OversizedBytes q + int (request_overhead_bytes z (Request req))"
  shows "cq_memory_usage z q' = cq_memory_usage z q + memory_required_to_push_request z req"
proof -
  have nn: "0 \<le> cq_stat Reserved q" using assms(1) by (rule cq_reserved_nonneg)
  then have "int (cq_memory_usage z q') = int (cq_memory_usage z q) + int (MAX_RESPONSE_COUNT_BYTES z + request_overhead_bytes z (Request req))"
    using assms(2-6) cq_memory_usage_stat [of q z] cq_memory_usage_stat [of q' z] by (simp add: algebra_simps)
  moreover have "MAX_RESPONSE_COUNT_BYTES z + request_overhead_bytes z (Request req) = memory_required_to_push_request z req"
    by (simp add: memory_required_to_push_request_def)
  ultimately show ?thesis by (metis of_nat_add of_nat_eq_iff)
qed

text \<open>
  A request that is pushed, as input or as output, raises the memory usage by exactly
  \<open>memory_required_to_push_request\<close>, which is what \<open>can_push\<close> compared with the available memory: the
  reservation for its response, or its own size where that is larger.
\<close>

theorem cq_memory_of_request:
  assumes "cq_reachable z ic00 q" and "mus_reserved_slots (cq_memory_usage_stats q) < 2 ^ 64 - 1"
  shows "(input_cycles_fit q (Request req) \<longrightarrow> cq_push_input z q (Request req) t = (q', Inr ()) \<longrightarrow>
      cq_memory_usage z q' = cq_memory_usage z q + memory_required_to_push_request z req) \<and>
    (output_cycles_fit q (Request req) \<longrightarrow> cq_push_output_request z q req now = Some (q', Inr ()) \<longrightarrow>
      cq_memory_usage z q' = cq_memory_usage z q + memory_required_to_push_request z req)"
proof (intro conjI impI)
  have inv: "cq_inv z q" using cq_reachable_inv [OF assms(1)] by simp
  note mem = memory_usage_request [OF inv]
  show "cq_memory_usage z q' = cq_memory_usage z q + memory_required_to_push_request z req"
    if fit: "input_cycles_fit q (Request req)" and push: "cq_push_input z q (Request req) t = (q', Inr ())"
    using inv fit push
  proof (cases rule: cq_push_input_cases)
    case pushed
    have s: "cq_stat s q' = cq_stat s q + int (per_input z s (Request req)) + int (per_output_slot s)"
      if "s \<in> {ResponseBytes, Reserved, OversizedBytes}" for s
      using pushed(3) that unfolding input_pushed_def by auto
    show ?thesis
      by (rule mem) (use assms(2) push_transient(1) [OF push] s [of ResponseBytes] s [of Reserved] s [of OversizedBytes] in simp_all)
  qed (auto simp: input_rejected_def)
  show "cq_memory_usage z q' = cq_memory_usage z q + memory_required_to_push_request z req"
    if fit: "output_cycles_fit q (Request req)" and push: "cq_push_output_request z q req now = Some (q', Inr ())"
  proof -
    have "output_request_pushed z q req q'"
      using cq_push_output_request_spec [OF inv fit, of now] push by (auto split: if_splits)
    then have s: "cq_stat s q' = cq_stat s q + int (per_output z s (Request req)) + int (per_input_slot s)"
      if "s \<in> {ResponseBytes, Reserved, OversizedBytes}" for s
      using that unfolding output_request_pushed_def by blast
    show ?thesis
      by (rule mem) (use assms(2) push_transient(2) [OF push] s [of ResponseBytes] s [of Reserved] s [of OversizedBytes] in simp_all)
  qed
qed

theorem cq_memory_of_request_witness:
  "cq_memory_usage example_layout example_cq1 =
    cq_memory_usage example_layout (cq_default example_layout :: u8 canister_queues) +
    memory_required_to_push_request example_layout example_request"
proof -
  have "output_cycles_fit (cq_default example_layout) (Request example_request)"
    by (simp add: output_cycles_fit_def cq_default_def oqs_default_def cycles_zero_def example_request_def)
  moreover have "mus_reserved_slots (cq_memory_usage_stats (cq_default example_layout :: u8 canister_queues)) < 2 ^ 64 - 1"
    by (simp add: cq_default_def mus_default_def)
  ultimately show ?thesis
    using cq_memory_of_request [of example_layout "0 :: u8", OF rtranclp.rtrancl_refl] example_push_output
    by blast
qed

text \<open>
  A response that is pushed gives back the reservation made for it and uses its own size: the memory
  usage changes by the difference. Responses hence return memory as long as they are no larger
  than \<open>MAX_RESPONSE_COUNT_BYTES\<close>.
\<close>

theorem cq_memory_of_response:
  assumes "cq_reachable z ic00 q" and "mus_reserved_slots (cq_memory_usage_stats q) < 2 ^ 64"
    and "output_cycles_fit q (Response rsp)" and "cq_push_output_response z q rsp = Some q'"
  shows "cq_memory_usage z q' + MAX_RESPONSE_COUNT_BYTES z = cq_memory_usage z q + response_count_bytes z rsp"
proof -
  have inv: "cq_inv z q" using cq_reachable_inv [OF assms(1)] by simp
  have s: "cq_stat s q' = cq_stat s q + int (per_output z s (Response rsp)) - int (per_output_slot s)"
    if "s \<in> {ResponseBytes, Reserved, OversizedBytes}" for s
    using cq_push_output_response_spec [OF inv assms(3)] assms(4) that by (auto split: if_splits)
  have inv': "cq_inv z q'"
    using cq_push_output_response_spec [OF inv assms(3)] assms(4) by (auto split: if_splits)
  have r: "cq_stat Reserved q = cq_stat Reserved q' + 1" using s [of Reserved] by simp
  have "int (cq_memory_usage z q') + int (MAX_RESPONSE_COUNT_BYTES z) = int (cq_memory_usage z q) + int (response_count_bytes z rsp)"
    using assms(2) r s [of ResponseBytes] s [of OversizedBytes] push_transient(3) [OF assms(4)]
      cq_memory_usage_stat [of q z] cq_memory_usage_stat [of q' z] cq_reserved_nonneg [OF inv] cq_reserved_nonneg [OF inv']
    by (simp add: algebra_simps)
  then show ?thesis by linarith
qed

definition example_reply :: "u8 response" where
  "example_reply =
     \<lparr>originator = 2, respondent = 1, originator_reply_callback = 9, refund = 0, response_payload = Data [8]\<rparr>"

theorem cq_memory_of_response_witness:
  "\<exists>q'. cq_push_output_response example_layout example_cq example_reply = Some q' \<and>
    cq_memory_usage example_layout q' + MAX_RESPONSE_COUNT_BYTES example_layout =
    cq_memory_usage example_layout example_cq + response_count_bytes example_layout example_reply"
proof -
  have fit: "output_cycles_fit example_cq (Response example_reply)"
    by (simp add: output_cycles_fit_def example_cq_def example_cq1_def example_reply_def)
  have "0 < oq_reserved_slots (snd (cq_pair example_cq (originator example_reply)))"
    by (simp add: cq_pair_def bt_get_def example_cq_def example_reply_def oq_reserved_slots_def qwr_reserved_slots_def)
  then obtain q' where q': "cq_push_output_response example_layout example_cq example_reply = Some q'"
    using cq_push_output_response_spec [OF example_cq_inv(1) fit] by auto
  have "mus_reserved_slots (cq_memory_usage_stats example_cq) < 2 ^ 64" by (simp add: example_cq_def)
  from cq_memory_of_response [OF example_cq_reachable this fit q'] q' show ?thesis by blast
qed



section \<open>Output\<close>

text \<open>
  The output iterator is a fair enumeration: started on a reachable state and popped as often as its
  size says, it returns for each receiver all messages of its output queue, in queue order and
  labelled with the sending and receiving canister, and leaves all output queues empty,
  the input queues untouched, and the statistics exact. A peek returns what the next pop does.
\<close>

theorem cq_output_iterator:
  assumes "cq_reachable z ic00 q"
  shows "\<exists>xs it' q'. it_take z (it_size (it_new own q)) (it_new own q) q = Some (xs, it', q') \<and> it_is_empty it' \<and>
    stats_ok z q' \<and> \<not> cq_has_output q' \<and> (\<forall>c. sent_to c xs = oq_messages (snd (cq_pair q c))) \<and>
    (\<forall>x \<in> set xs. src_canister (fst x) = own) \<and> (\<forall>c. fst (cq_pair q' c) = fst (cq_pair q c)) \<and>
    it_peek (it_new own q) q = Some (head_opt xs)"
proof -
  have inv: "cq_inv z q" using cq_reachable_inv [OF assms] by simp
  let ?it = "it_new own q"
  note new = it_new_inv [OF inv, of own]
  obtain xs it' q' where run: "it_take z (it_size ?it) ?it q = Some (xs, it', q')" "cq_inv z q'" "it_is_empty it'" "drained ?it q xs q'"
    using it_take_all [OF inv new(1) refl] by blast
  have eq: "out_messages q c = sent_to c xs @ out_messages q' c" for c using run(4) by (simp add: drained_def)
  have empty: "out_messages q' c = []" for c
  proof (cases "c \<in> set (it_queues ?it)")
    case False
    then show ?thesis using new(2) eq [of c] by simp
  qed (use run(4) in \<open>simp add: drained_def\<close>)
  have "int (oqs_message_count (cq_output_queues_stats q')) = int (bt.total (pair_stat z OqMessages) (cq_queues q'))"
    using run(2) unfolding cq_inv_def stats_exact_def by (metis running_stat.simps(6))
  moreover have "oq_messages (snd v) = []" if "bt_get (cq_queues q') c = Some v" for c v
    using empty [of c] cq_pair_get [OF that] by (simp add: out_messages_def)
  then have "\<not> 0 < bt.total (pair_stat z OqMessages) (cq_queues q')"
    unfolding bt.total_pos_iff [OF cq_inv_wf [OF run(2)]] by (simp add: pair_stat_simps) (metis snd_conv)
  ultimately have "\<not> cq_has_output q'" by (simp add: cq_has_output_def)
  moreover have "it_peek ?it q = Some (head_opt xs)"
  proof (cases "it_queues ?it")
    case Nil
    then have "it_size ?it = 0" using new(1) by (simp add: it_inv_def)
    then show ?thesis using it_peek_ok [OF inv new(1)] Nil run(1) by (simp add: head_opt_def)
  next
    case (Cons c cs)
    then obtain m ms where m: "out_messages q c = m # ms" using new(2) by (cases "out_messages q c") auto
    then obtain n where n: "it_size ?it = Suc n" using new(1) Cons by (cases "it_size ?it") (auto simp: it_inv_def)
    obtain it1 q1 where "it_pop z ?it q =
        Some (Some (\<lparr>src_canister = it_owner ?it, dst_canister = c, session_id = 0\<rparr>, m), it1, q1)"
      using it_pop_ok [OF inv new(1) Cons m] by blast
    then have "\<exists>ys. xs = (\<lparr>src_canister = it_owner ?it, dst_canister = c, session_id = 0\<rparr>, m) # ys"
      using run(1) unfolding n by (auto split: option.splits)
    then show ?thesis using it_peek_ok [OF inv new(1)] Cons m by (auto simp: head_opt_def)
  qed
  moreover have "\<forall>x \<in> set xs. src_canister (fst x) = own" "\<forall>c. fst (cq_pair q' c) = fst (cq_pair q c)"
    using run(4) new(3) by (simp_all add: drained_def)
  moreover have "\<forall>c. sent_to c xs = oq_messages (snd (cq_pair q c))"
    using eq empty by (simp add: out_messages_def)
  ultimately show ?thesis using run(1,3) cq_inv_stats_ok [OF run(2)] by blast
qed

theorem cq_output_iterator_witness:
  "\<exists>xs it' q'. it_take example_layout (it_size (it_new 1 example_cq)) (it_new 1 example_cq) example_cq = Some (xs, it', q') \<and>
    sent_to 2 xs = [Request example_request]"
proof -
  have "oq_messages (snd (cq_pair example_cq 2)) = [Request example_request]"
    by (simp add: cq_pair_def bt_get_def example_cq_def oq_messages_def)
  then show ?thesis using cq_output_iterator [OF example_cq_reachable, of 1] by metis
qed

text \<open>
  \<open>output_queues_for_each\<close> offers the closure the messages of each output queue in order, receiver by
  receiver in the order of their IDs, until it refuses one: the final state of the closure
  and the remaining messages are those of this reference procedure on lists. Input queues,
  schedules and reservations do not change, and the statistics stay exact.
\<close>

theorem cq_for_each_offers:
  assumes "cq_reachable z ic00 q"
  shows "\<exists>s' q'. cq_output_queues_for_each z f s q = Some (s', q') \<and> stats_ok z q' \<and>
    offer_all f s (outputs (cq_queues q)) = (s', outputs (cq_queues q')) \<and>
    list_all2 entry_consumed (cq_queues q) (cq_queues q') \<and> cq_schedule q' = cq_schedule q"
proof -
  have "cq_inv z q" using cq_reachable_inv [OF assms] by simp
  from cq_output_queues_for_each_ok [OF this, of f s] show ?thesis using cq_inv_stats_ok by blast
qed

theorem cq_for_each_offers_witness:
  "\<exists>q'. cq_output_queues_for_each example_layout (\<lambda>n c m. (n + 1, True)) (0 :: nat) example_cq = Some (1, q') \<and>
    outputs (cq_queues q') = [(2, [])]"
  using cq_for_each_offers [OF example_cq_reachable, of "\<lambda>n c m. (n + 1, True)" "0 :: nat"]
  by (auto simp: example_cq_def outputs_def oq_messages_def)

section \<open>Encoding\<close>

text \<open>
  C36. Decoding the protobuf encoding of a reachable state gives the state back, with the statistics
  recomputed from the queues equal to the running ones; only the transient size of responses in
  streams is reset. The principal codec only has to invert itself; indices must fit 64 bits and
  ingress message IDs have their 32 bytes.
\<close>

theorem cq_pb_roundtrip:
  assumes "cq_reachable z ic00 q" and "\<And>c. dec (enc c) = Some c" and "cq_encodable q"
  shows "cq_try_from z dec (cq_to_pb enc q) = Some (Inr (cq_set_stream_responses_size_bytes 0 q))"
proof -
  have "cq_inv z q" using cq_reachable_inv [OF assms(1)] by simp
  from cq_roundtrip [OF assms(2) this assms(3)] show ?thesis .
qed

theorem cq_pb_roundtrip_witness:
  "cq_try_from example_layout example_dec (cq_to_pb example_enc example_cq) = Some (Inr example_cq)"
proof -
  have "cq_encodable example_cq"
    by (simp add: cq_encodable_def example_cq_def ing_push_def ing_default_def EXPECTED_MESSAGE_ID_LENGTH_def
        example_ingress_def Let_def)
  moreover have "cq_set_stream_responses_size_bytes 0 example_cq = example_cq"
    by (simp add: cq_set_stream_responses_size_bytes_def example_cq_def)
  ultimately show ?thesis using cq_pb_roundtrip [OF example_cq_reachable example_codec] by simp
qed

section \<open>The schedule check\<close>

text \<open>
  C37. \<open>reject_ic00_output_request\<close> schedules the management canister as a sender of the local subnet, but
  the check \<open>schedules_ok\<close>, asserted after timing out requests, counts it as remote, because it is
  neither the canister itself nor one of the local canisters: the check fails on any state in
  which such a reject response waits in an otherwise empty queue.
\<close>

theorem reject_ic00_fails_schedules_ok:
  assumes "cq_reachable z ic00 q" and "receiver req = ic00" and "iq_messages (fst (cq_pair q ic00)) = []"
    and "iq_reserved_slots (fst (cq_pair q ic00)) < DEFAULT_QUEUE_CAPACITY"
    and "input_cycles_fit q (ic00_reject ic00 req rc)" and "own \<noteq> ic00" and "\<not> local_canister ic00"
  shows "\<exists>q'. cq_reject_ic00_output_request z ic00 q req rc = Some (q', Inr ()) \<and>
    cq_has_input q' \<and> \<not> schedules_ok own local_canister q'"
proof -
  have inv: "cq_inv z q" using cq_reachable_inv [OF assms(1)] by simp
  obtain q' where q': "cq_reject_ic00_output_request z ic00 q req rc = Some (q', Inr ())" "cq_inv z q'"
      "cq_local_subnet_input_schedule q' = cq_local_subnet_input_schedule q @ [ic00]"
    using cq_reject_ic00_spec [OF inv assms(2,5)] assms(3,4) by auto
  then have sched: "cq_input_schedule LocalSubnet q' \<noteq> []" by (simp add: cq_input_schedule_def)
  then have "cq_peek_source q' NextLocalSubnet \<noteq> Some None"
    using cq_peek_canister_input_ok [OF q'(2), of LocalSubnet]
    by (cases "cq_input_schedule LocalSubnet q'") (auto simp: cq_peek_source_def)
  then have "cq_has_input q'" using cq_has_input_iff [OF q'(2)] by blast
  moreover have "\<not> schedules_ok own local_canister q'"
  proof
    assume "schedules_ok own local_canister q'"
    then have "ic00 \<in> {c. c = own \<or> local_canister c}" using q'(3) by (auto simp: schedules_ok_def Let_def)
    then show False using assms(6,7) by simp
  qed
  ultimately show ?thesis using q'(1) by blast
qed

theorem reject_ic00_fails_schedules_ok_witness:
  "\<exists>q'. cq_reject_ic00_output_request example_layout 0 example_cq (example_request\<lparr>receiver := 0\<rparr>)
      \<lparr>rc_code = SysTransient, rc_message = ''no route''\<rparr> = Some (q', Inr ()) \<and>
    cq_has_input q' \<and> \<not> schedules_ok 1 (\<lambda>c. c = 1) q'"
proof -
  have "cq_pair example_cq 0 = (iq_new DEFAULT_QUEUE_CAPACITY, oq_new DEFAULT_QUEUE_CAPACITY)"
    by (simp add: cq_pair_def bt_get_def example_cq_def)
  then show ?thesis
    by (intro reject_ic00_fails_schedules_ok [OF example_cq_reachable])
      (simp_all add: DEFAULT_QUEUE_CAPACITY_def input_cycles_fit_def ic00_reject_def example_cq_def example_request_def)
qed

end
