(* ===== verification/CallContextManager.thy ===== *)
theory CallContextManager
  imports Queue
begin

text \<open>
  Call contexts (\<open>rs/replicated_state/src/canister_state/system_state/call_context_manager.rs\<close>): the
  contexts of incoming calls of a canister and the callbacks of its outgoing calls, together with
  callbacks (\<open>rs/types/types/src/methods.rs\<close>), the results of Wasm executions
  (\<open>rs/types/types/src/ingress.rs\<close>) and the part of \<open>uninstall_canister\<close>
  (\<open>rs/execution_environment/src/canister_manager.rs\<close>) that closes all contexts.

  \<open>CallContextId\<close> and \<open>CallbackId\<close> wrap a \<open>u64\<close>. \<open>HypervisorError\<close> is the type variable \<open>'e\<close>: the
  manager hands errors on without looking at them. The arguments formatted into error messages are left out.
\<close>

section \<open>Callbacks and results\<close>

record wasm_closure =
  func_idx :: "32 word"
  env :: "32 word"

record 'p callback =
  cb_call_context_id :: u64
  cb_originator :: "'p option"
  cb_respondent :: "'p option"
  cb_cycles_sent :: cycles
  cb_prepayment_for_response_execution :: "cycles option"
  cb_prepayment_for_response_transmission :: "cycles option"
  cb_on_reply :: wasm_closure
  cb_on_reject :: wasm_closure
  cb_on_cleanup :: "wasm_closure option"

datatype wasm_result = WasmReply "u8 list" | WasmReject string

section \<open>Call contexts\<close>

datatype 'p call_origin =
    FromIngress 'p "u8 list"
  | FromCanisterUpdate 'p u64
  | FromQuery 'p
  | FromCanisterQuery 'p u64
  | FromSystemTask

record 'p call_context =
  cc_call_origin :: "'p call_origin"
  cc_responded :: bool
  cc_deleted :: bool
  cc_available_cycles :: cycles
  cc_time :: "time option"

definition call_context_new :: "'p call_origin \<Rightarrow> bool \<Rightarrow> bool \<Rightarrow> cycles \<Rightarrow> time \<Rightarrow> 'p call_context" where
  "call_context_new origin responded deleted available_cycles t =
     \<lparr>cc_call_origin = origin, cc_responded = responded, cc_deleted = deleted,
      cc_available_cycles = available_cycles, cc_time = Some t\<rparr>"

datatype call_context_error = InsufficientCyclesInCall cycles cycles

definition withdraw_cycles :: "'p call_context \<Rightarrow> cycles \<Rightarrow> call_context_error + 'p call_context" where
  "withdraw_cycles cc c =
     (if cc_available_cycles cc < c then Inl (InsufficientCyclesInCall (cc_available_cycles cc) c)
      else Inr (cc\<lparr>cc_available_cycles := cycles_sub (cc_available_cycles cc) c\<rparr>))"

definition mark_deleted :: "'p call_context \<Rightarrow> 'p call_context" where
  "mark_deleted cc = cc\<lparr>cc_deleted := True\<rparr>"

definition mark_responded :: "'p call_context \<Rightarrow> 'p call_context" where
  "mark_responded cc = cc\<lparr>cc_available_cycles := 0, cc_responded := True\<rparr>"

datatype 'p request_or_ingress = RoiRequest "'p request" | RoiIngress "'p ingress"

fun call_origin_from :: "'p request_or_ingress \<Rightarrow> 'p call_origin" where
  "call_origin_from (RoiRequest req) = FromCanisterUpdate (sender req) (sender_reply_callback req)"
| "call_origin_from (RoiIngress i) = FromIngress (i_source i) (i_message_id i)"

section \<open>The manager\<close>

datatype 'e call_context_action =
    ActReply "u8 list" cycles
  | ActReject string cycles
  | ActNoResponse cycles
  | ActFail 'e cycles
  | NotYetResponded
  | AlreadyResponded

record 'p call_context_manager =
  next_call_context_id :: u64
  next_callback_id :: u64
  call_contexts :: "(u64, 'p call_context) btree"
  callbacks :: "(u64, 'p callback) btree"

definition ccm_default :: "'p call_context_manager" where
  "ccm_default = \<lparr>next_call_context_id = 0, next_callback_id = 0, call_contexts = [], callbacks = []\<rparr>"

definition new_call_context ::
  "'p call_context_manager \<Rightarrow> 'p call_origin \<Rightarrow> cycles \<Rightarrow> time \<Rightarrow> (u64 \<times> 'p call_context_manager) option" where
  "new_call_context m origin c t =
     do {
       n \<leftarrow> add_checked (next_call_context_id m) 1;
       Some (n, m\<lparr>next_call_context_id := n,
                  call_contexts := bt_insert n
                    \<lparr>cc_call_origin = origin, cc_responded = False, cc_deleted = False,
                     cc_available_cycles = c, cc_time = Some t\<rparr> (call_contexts m)\<rparr>)
     }"

definition ccm_call_context :: "'p call_context_manager \<Rightarrow> u64 \<Rightarrow> 'p call_context option" where
  "ccm_call_context m cid = bt_get (call_contexts m) cid"

text \<open>\<open>call_context_mut\<close>: an update of one context through the reference it returns.\<close>

definition put_call_context :: "u64 \<Rightarrow> 'p call_context \<Rightarrow> 'p call_context_manager \<Rightarrow> 'p call_context_manager" where
  "put_call_context cid cc m = m\<lparr>call_contexts := bt_insert cid cc (call_contexts m)\<rparr>"

definition ccm_callback :: "'p call_context_manager \<Rightarrow> u64 \<Rightarrow> 'p callback option" where
  "ccm_callback m cid = bt_get (callbacks m) cid"

definition validate_response :: "'p call_context_manager \<Rightarrow> 'p response \<Rightarrow> 'p state_error + unit" where
  "validate_response m rsp =
     (case ccm_callback m (originator_reply_callback rsp) of
        Some cb \<Rightarrow>
          (case (cb_respondent cb, cb_originator cb) of
             (Some resp, Some orig) \<Rightarrow>
               if respondent rsp \<noteq> resp \<or> originator rsp \<noteq> orig
               then Inl (NonMatchingResponse ''invalid details'' (originator rsp)
                          (originator_reply_callback rsp) (respondent rsp))
               else Inr ()
           | _ \<Rightarrow> Inr ())
      | None \<Rightarrow>
          Inl (NonMatchingResponse ''unknown callback id'' (originator rsp)
                (originator_reply_callback rsp) (respondent rsp)))"

definition register_callback :: "'p call_context_manager \<Rightarrow> 'p callback \<Rightarrow> (u64 \<times> 'p call_context_manager) option" where
  "register_callback m cb =
     do {
       n \<leftarrow> add_checked (next_callback_id m) 1;
       Some (n, m\<lparr>next_callback_id := n, callbacks := bt_insert n cb (callbacks m)\<rparr>)
     }"

definition unregister_callback :: "'p call_context_manager \<Rightarrow> u64 \<Rightarrow> 'p callback option \<times> 'p call_context_manager" where
  "unregister_callback m cid = (bt_get (callbacks m) cid, m\<lparr>callbacks := bt_remove cid (callbacks m)\<rparr>)"

definition ccm_call_origin :: "'p call_context_manager \<Rightarrow> u64 \<Rightarrow> 'p call_origin option" where
  "ccm_call_origin m cid = map_option cc_call_origin (bt_get (call_contexts m) cid)"

definition call_responded :: "'p call_context_manager \<Rightarrow> u64 \<Rightarrow> bool option" where
  "call_responded m cid = map_option cc_responded (bt_get (call_contexts m) cid)"

definition outstanding_calls :: "'p call_context_manager \<Rightarrow> u64 \<Rightarrow> nat" where
  "outstanding_calls m cid = length (filter (\<lambda>(_, cb). cb_call_context_id cb = cid) (callbacks m))"

text \<open>The match on the result, the responded flag and whether calls are outstanding.\<close>

definition close_context :: "u64 \<Rightarrow> 'p call_context_manager \<Rightarrow> 'p call_context_manager" where
  "close_context cid m = m\<lparr>call_contexts := bt_remove cid (call_contexts m)\<rparr>"

definition on_canister_result ::
  "'p call_context_manager \<Rightarrow> u64 \<Rightarrow> u64 option \<Rightarrow> 'e + wasm_result option
   \<Rightarrow> ('e call_context_action \<times> 'p call_context_manager) option" where
  "on_canister_result m cid callback_id result =
     do {
       let m1 = (case callback_id of Some cb \<Rightarrow> snd (unregister_callback m cb) | None \<Rightarrow> m);
       let outstanding = (0 < outstanding_calls m1 cid);
       context \<leftarrow> bt_get (call_contexts m1) cid;
       let refund = cc_available_cycles context;
       let responded = put_call_context cid (mark_responded context) m1;
       (case (result, cc_responded context, outstanding) of
          (Inr None, False, True) \<Rightarrow> Some (NotYetResponded, m1)
        | (Inl _, False, True) \<Rightarrow> Some (NotYetResponded, m1)
        | (Inr None, True, True) \<Rightarrow> Some (AlreadyResponded, m1)
        | (Inl _, True, True) \<Rightarrow> Some (AlreadyResponded, m1)
        | (Inr None, True, False) \<Rightarrow> Some (AlreadyResponded, close_context cid m1)
        | (Inl _, True, False) \<Rightarrow> Some (AlreadyResponded, close_context cid m1)
        | (Inr None, False, False) \<Rightarrow> Some (ActNoResponse refund, close_context cid m1)
        | (Inr (Some (WasmReply payload)), False, False) \<Rightarrow> Some (ActReply payload refund, close_context cid m1)
        | (Inr (Some (WasmReply payload)), False, True) \<Rightarrow> Some (ActReply payload refund, responded)
        | (Inr (Some (WasmReject msg)), False, False) \<Rightarrow> Some (ActReject msg refund, close_context cid m1)
        | (Inr (Some (WasmReject msg)), False, True) \<Rightarrow> Some (ActReject msg refund, responded)
        | (Inl error, False, False) \<Rightarrow> Some (ActFail error refund, close_context cid m1)
        | (Inr (Some _), True, _) \<Rightarrow> None)
     }"

definition canister_ready_to_stop :: "'p call_context_manager \<Rightarrow> bool" where
  "canister_ready_to_stop m \<longleftrightarrow>
     list_all (\<lambda>(_, cc). cc_deleted cc) (call_contexts m) \<and>
     list_all (\<lambda>(_, cb). bt_contains_key (call_contexts m) (cb_call_context_id cb)) (callbacks m)"

definition call_contexts_older_than ::
  "'p call_context_manager \<Rightarrow> time \<Rightarrow> nat \<Rightarrow> ('p call_origin \<times> time) list" where
  "call_contexts_older_than m current_time age =
     List.map_filter (\<lambda>(_, cc). case cc_time cc of
         Some t \<Rightarrow> if \<not> cc_deleted cc then Some (cc_call_origin cc, t) else None
       | None \<Rightarrow> None)
       (takeWhile (\<lambda>(_, cc). case cc_time cc of Some t \<Rightarrow> time_add t age \<le> current_time | None \<Rightarrow> True)
         (call_contexts m))"

section \<open>Uninstalling a canister\<close>

text \<open>
  The loop of \<open>uninstall_canister\<close> over the call contexts: all are marked as deleted; the ones not yet
  responded to are answered with a reject, except those of system tasks, and marked as responded.
  A context with a query origin ends in \<open>fatal!\<close>. An ingress response carries the status of
  the ingress message: receiver, user, time and error description; its error code is always
  \<open>CanisterRejectedMessage\<close>.
\<close>

datatype 'p uninstall_response =
    IngressFailed "u8 list" 'p 'p time string
  | CanisterRejected "'p response"

definition uninstall_reject :: "'p \<Rightarrow> time \<Rightarrow> 'p call_context \<Rightarrow> 'p uninstall_response list option" where
  "uninstall_reject canister_id t cc =
     (case cc_call_origin cc of
        FromIngress user_id message_id \<Rightarrow>
          Some [IngressFailed message_id canister_id user_id t ''Canister has been uninstalled.'']
      | FromCanisterUpdate caller callback_id \<Rightarrow>
          Some [CanisterRejected
            \<lparr>originator = caller, respondent = canister_id, originator_reply_callback = callback_id,
             refund = cc_available_cycles cc,
             response_payload = Reject \<lparr>rc_code = CanisterReject, rc_message = ''Canister has been uninstalled.''\<rparr>\<rparr>]
      | FromCanisterQuery _ _ \<Rightarrow> None
      | FromQuery _ \<Rightarrow> None
      | FromSystemTask \<Rightarrow> Some [])"

fun uninstall_contexts ::
  "'p \<Rightarrow> time \<Rightarrow> (u64, 'p call_context) btree \<Rightarrow> ('p uninstall_response list \<times> (u64, 'p call_context) btree) option" where
  "uninstall_contexts canister_id t [] = Some ([], [])"
| "uninstall_contexts canister_id t ((cid, cc) # es) =
     (let cc1 = mark_deleted cc in
      if cc_responded cc1 then
        do {
          (rs, es1) \<leftarrow> uninstall_contexts canister_id t es;
          Some (rs, (cid, cc1) # es1)
        }
      else
        do {
          r \<leftarrow> uninstall_reject canister_id t cc1;
          (rs, es1) \<leftarrow> uninstall_contexts canister_id t es;
          Some (r @ rs, (cid, mark_responded cc1) # es1)
        })"

definition uninstall_call_contexts ::
  "'p \<Rightarrow> time \<Rightarrow> 'p call_context_manager \<Rightarrow> ('p uninstall_response list \<times> 'p call_context_manager) option" where
  "uninstall_call_contexts canister_id t m =
     do {
       (rs, es) \<leftarrow> uninstall_contexts canister_id t (call_contexts m);
       Some (rs, m\<lparr>call_contexts := es\<rparr>)
     }"

section \<open>Protobuf encoding\<close>

record pb_callback =
  pbcb_call_context_id :: u64
  pbcb_on_reply :: "wasm_closure option"
  pbcb_on_reject :: "wasm_closure option"
  pbcb_on_cleanup :: "wasm_closure option"
  pbcb_cycles_sent :: "pb_cycles option"
  pbcb_originator :: "pb_canister_id option"
  pbcb_respondent :: "pb_canister_id option"
  pbcb_prepayment_for_response_execution :: "pb_cycles option"
  pbcb_prepayment_for_response_transmission :: "pb_cycles option"

definition callback_to_pb :: "('p \<Rightarrow> u8 list) \<Rightarrow> 'p callback \<Rightarrow> pb_callback" where
  "callback_to_pb enc item =
     \<lparr>pbcb_call_context_id = cb_call_context_id item,
      pbcb_on_reply = Some (cb_on_reply item), pbcb_on_reject = Some (cb_on_reject item),
      pbcb_on_cleanup = cb_on_cleanup item,
      pbcb_cycles_sent = Some (cycles_to_bytes (cb_cycles_sent item)),
      pbcb_originator = map_option (canister_id_to_pb enc) (cb_originator item),
      pbcb_respondent = map_option (canister_id_to_pb enc) (cb_respondent item),
      pbcb_prepayment_for_response_execution =
        map_option cycles_to_bytes (cb_prepayment_for_response_execution item),
      pbcb_prepayment_for_response_transmission =
        map_option cycles_to_bytes (cb_prepayment_for_response_transmission item)\<rparr>"

text \<open>\<open>Result::ok\<close> on a conversion, and the conversion of an optional field with \<open>transpose\<close>.\<close>

definition try_ok :: "('e + 'a) option \<Rightarrow> ('e + 'a option) option" where
  "try_ok x = (case x of None \<Rightarrow> None | Some (Inl _) \<Rightarrow> Some (Inr None) | Some (Inr a) \<Rightarrow> Some (Inr (Some a)))"

definition try_transpose :: "('a \<Rightarrow> ('e + 'b) option) \<Rightarrow> 'a option \<Rightarrow> ('e + 'b option) option" where
  "try_transpose conv x =
     (case x of None \<Rightarrow> Some (Inr None) | Some a \<Rightarrow> try_bind (conv a) (\<lambda>b. Some (Inr (Some b))))"

definition callback_try_from ::
  "(u8 list \<Rightarrow> 'p option) \<Rightarrow> pb_callback \<Rightarrow> (proxy_decode_error + 'p callback) option" where
  "callback_try_from dec value =
     try_bind (try_from_option_field (\<lambda>c. Some (Inr c)) (pbcb_on_reply value) ''Callback::on_reply'') (\<lambda>on_reply.
     try_bind (try_from_option_field (\<lambda>c. Some (Inr c)) (pbcb_on_reject value) ''Callback::on_reject'') (\<lambda>on_reject.
     try_bind (try_from_option_field (\<lambda>c. Some (Inr c)) (pbcb_cycles_sent value) ''Callback::cycles_sent'') (\<lambda>cycles_sent.
     try_bind (try_transpose pb_cycles_into (pbcb_prepayment_for_response_execution value)) (\<lambda>execution.
     try_bind (try_transpose pb_cycles_into (pbcb_prepayment_for_response_transmission value)) (\<lambda>transmission.
     try_bind (try_ok (try_from_option_field (canister_id_try_from dec) (pbcb_originator value) ''Callback::originator'')) (\<lambda>orig.
     try_bind (try_ok (try_from_option_field (canister_id_try_from dec) (pbcb_respondent value) ''Callback::respondent'')) (\<lambda>resp.
     try_bind (pb_cycles_into cycles_sent) (\<lambda>sent.
     Some (Inr
       \<lparr>cb_call_context_id = pbcb_call_context_id value, cb_originator = orig, cb_respondent = resp,
        cb_cycles_sent = sent, cb_prepayment_for_response_execution = execution,
        cb_prepayment_for_response_transmission = transmission, cb_on_reply = on_reply,
        cb_on_reject = on_reject, cb_on_cleanup = pbcb_on_cleanup value\<rparr>)))))))))"

datatype pb_call_origin =
    PbFromIngress "pb_canister_id option" "u8 list"
  | PbFromCanisterUpdate "pb_canister_id option" u64
  | PbFromQuery pb_canister_id
  | PbFromCanisterQuery "pb_canister_id option" u64
  | PbFromSystemTask

fun call_origin_to_pb :: "('p \<Rightarrow> u8 list) \<Rightarrow> 'p call_origin \<Rightarrow> pb_call_origin" where
  "call_origin_to_pb enc (FromIngress user_id message_id) = PbFromIngress (Some (Some (enc user_id))) message_id"
| "call_origin_to_pb enc (FromCanisterUpdate canister_id callback_id) =
     PbFromCanisterUpdate (Some (canister_id_to_pb enc canister_id)) callback_id"
| "call_origin_to_pb enc (FromQuery user_id) = PbFromQuery (Some (enc user_id))"
| "call_origin_to_pb enc (FromCanisterQuery canister_id callback_id) =
     PbFromCanisterQuery (Some (canister_id_to_pb enc canister_id)) callback_id"
| "call_origin_to_pb enc FromSystemTask = PbFromSystemTask"

fun call_origin_try_from ::
  "(u8 list \<Rightarrow> 'p option) \<Rightarrow> pb_call_origin \<Rightarrow> (proxy_decode_error + 'p call_origin) option" where
  "call_origin_try_from dec (PbFromIngress user_id message_id) =
     try_bind (try_bind (try_from_option_field (\<lambda>u. Some (Inr u)) user_id ''CallOrigin::Ingress::user_id'')
                 (user_id_try_from_protobuf dec)) (\<lambda>u.
     try_bind (message_id_try_from message_id) (\<lambda>mid. Some (Inr (FromIngress u mid))))"
| "call_origin_try_from dec (PbFromCanisterUpdate canister_id callback_id) =
     try_bind (try_from_option_field (canister_id_try_from dec) canister_id ''CallOrigin::CanisterUpdate::canister_id'')
       (\<lambda>c. Some (Inr (FromCanisterUpdate c callback_id)))"
| "call_origin_try_from dec (PbFromQuery user_id) =
     try_bind (user_id_try_from_protobuf dec user_id) (\<lambda>u. Some (Inr (FromQuery u)))"
| "call_origin_try_from dec (PbFromCanisterQuery canister_id callback_id) =
     try_bind (try_from_option_field (canister_id_try_from dec) canister_id ''CallOrigin::CanisterQuery::canister_id'')
       (\<lambda>c. Some (Inr (FromCanisterQuery c callback_id)))"
| "call_origin_try_from dec PbFromSystemTask = Some (Inr FromSystemTask)"

record pb_call_context =
  pbcc_call_origin :: "pb_call_origin option"
  pbcc_responded :: bool
  pbcc_available_funds :: "pb_funds option"
  pbcc_deleted :: bool
  pbcc_time_nanos :: "u64 option"

definition call_context_to_pb :: "('p \<Rightarrow> u8 list) \<Rightarrow> 'p call_context \<Rightarrow> pb_call_context" where
  "call_context_to_pb enc item =
     \<lparr>pbcc_call_origin = Some (call_origin_to_pb enc (cc_call_origin item)),
      pbcc_responded = cc_responded item,
      pbcc_available_funds = Some (funds_to_pb (funds_new (cc_available_cycles item))),
      pbcc_deleted = cc_deleted item, pbcc_time_nanos = cc_time item\<rparr>"

definition call_context_try_from ::
  "(u8 list \<Rightarrow> 'p option) \<Rightarrow> pb_call_context \<Rightarrow> (proxy_decode_error + 'p call_context) option" where
  "call_context_try_from dec value =
     try_bind (try_from_option_field funds_try_from (pbcc_available_funds value) ''CallContext::available_funds'') (\<lambda>f.
     try_bind (try_from_option_field (call_origin_try_from dec) (pbcc_call_origin value) ''CallContext::call_origin'') (\<lambda>origin.
     Some (Inr
       \<lparr>cc_call_origin = origin, cc_responded = pbcc_responded value, cc_deleted = pbcc_deleted value,
        cc_available_cycles = f_cycles f, cc_time = pbcc_time_nanos value\<rparr>)))"

record pb_call_context_manager =
  pbcm_next_call_context_id :: u64
  pbcm_next_callback_id :: u64
  pbcm_call_contexts :: "(u64 \<times> pb_call_context option) list"
  pbcm_callbacks :: "(u64 \<times> pb_callback option) list"

definition ccm_to_pb :: "('p \<Rightarrow> u8 list) \<Rightarrow> 'p call_context_manager \<Rightarrow> pb_call_context_manager" where
  "ccm_to_pb enc item =
     \<lparr>pbcm_next_call_context_id = next_call_context_id item,
      pbcm_next_callback_id = next_callback_id item,
      pbcm_call_contexts = map (\<lambda>(cid, context). (cid, Some (call_context_to_pb enc context))) (call_contexts item),
      pbcm_callbacks = map (\<lambda>(cid, callback). (cid, Some (callback_to_pb enc callback))) (callbacks item)\<rparr>"

text \<open>The loops that decode entries and insert them into a map.\<close>

fun decode_entries ::
  "('a \<Rightarrow> (proxy_decode_error + 'b) option) \<Rightarrow> string \<Rightarrow> ('k::linorder \<times> 'a option) list \<Rightarrow> ('k, 'b) btree
   \<Rightarrow> (proxy_decode_error + ('k, 'b) btree) option" where
  "decode_entries conv name [] acc = Some (Inr acc)"
| "decode_entries conv name ((k, v) # es) acc =
     try_bind (try_from_option_field conv v name) (\<lambda>b. decode_entries conv name es (bt_insert k b acc))"

definition ccm_try_from ::
  "(u8 list \<Rightarrow> 'p option) \<Rightarrow> pb_call_context_manager \<Rightarrow> (proxy_decode_error + 'p call_context_manager) option" where
  "ccm_try_from dec value =
     try_bind (decode_entries (call_context_try_from dec) ''CallContextManager::call_contexts::V''
                 (pbcm_call_contexts value) []) (\<lambda>contexts.
     try_bind (decode_entries (callback_try_from dec) ''CallContextManager::callbacks::V''
                 (pbcm_callbacks value) []) (\<lambda>cbs.
     Some (Inr
       \<lparr>next_call_context_id = pbcm_next_call_context_id value,
        next_callback_id = pbcm_next_callback_id value, call_contexts = contexts, callbacks = cbs\<rparr>)))"

end
