(* ===== verification/CallContextManager_Correct.thy ===== *)
theory CallContextManager_Correct
  imports CallContextManager
begin

text \<open>
  Correctness of the call context manager: an invariant of its state, the exact behaviour of
  \<open>on_canister_result\<close>, and properties of whole histories of a manager, such as that each call
  context is answered exactly once and that no cycles of a call are lost or duplicated.
\<close>

section \<open>Invariant\<close>

definition ids_below :: "u64 \<Rightarrow> (u64, 'a) btree \<Rightarrow> bool" where
  "ids_below n es \<longleftrightarrow> (\<forall>k v. bt_get es k = Some v \<longrightarrow> 0 < unat k \<and> unat k \<le> unat n)"

definition callbacks_open :: "'p call_context_manager \<Rightarrow> bool" where
  "callbacks_open m \<longleftrightarrow>
     (\<forall>k cb. bt_get (callbacks m) k = Some cb \<longrightarrow> bt_get (call_contexts m) (cb_call_context_id cb) \<noteq> None)"

definition ccm_inv :: "'p call_context_manager \<Rightarrow> bool" where
  "ccm_inv m \<longleftrightarrow>
     bt_wf (call_contexts m) \<and> bt_wf (callbacks m) \<and>
     ids_below (next_call_context_id m) (call_contexts m) \<and> ids_below (next_callback_id m) (callbacks m) \<and>
     callbacks_open m \<and>
     (\<forall>k cc. bt_get (call_contexts m) k = Some cc \<longrightarrow> cc_responded cc \<longrightarrow> cc_available_cycles cc = 0)"

lemma ccm_inv_wf:
  assumes "ccm_inv m"
  shows "bt_wf (call_contexts m)" "bt_wf (callbacks m)"
  using assms by (simp_all add: ccm_inv_def)

lemma ccm_inv_default: "ccm_inv ccm_default"
  by (simp add: ccm_inv_def ccm_default_def ids_below_def callbacks_open_def)

lemma outstanding_iff:
  assumes "bt_wf (callbacks m)"
  shows "outstanding_calls m cid = 0 \<longleftrightarrow> (\<forall>k cb. bt_get (callbacks m) k = Some cb \<longrightarrow> cb_call_context_id cb \<noteq> cid)"
  unfolding bt.get_iff_entry [OF assms] by (auto simp: outstanding_calls_def filter_empty_conv)

lemma fresh_id:
  assumes "ids_below n es" and "add_checked n 1 = Some k"
  shows "bt_get es k = None" and "0 < unat k" and "unat k = Suc (unat n)"
proof -
  show k: "unat k = Suc (unat n)" using add_checked_Some [OF assms(2)] by simp
  then show "0 < unat k" by simp
  show "bt_get es k = None"
  proof (cases "bt_get es k")
    case (Some v)
    then have "unat k \<le> unat n" using assms(1) by (auto simp: ids_below_def)
    then show ?thesis using k by simp
  qed
qed

lemma ids_below_insert:
  assumes "bt_wf es" and "ids_below n es" and "add_checked n 1 = Some k"
  shows "ids_below k (bt_insert k v es)"
  using assms(2) fresh_id [OF assms(2,3)] unfolding ids_below_def bt.get_ins [OF assms(1)]
  by (auto split: if_splits)

lemma ids_below_remove: "bt_wf es \<Longrightarrow> ids_below n es \<Longrightarrow> ids_below n (bt_remove k es)"
  unfolding ids_below_def by (simp add: bt.get_del)

lemma ids_below_update: "bt_wf es \<Longrightarrow> ids_below n es \<Longrightarrow> bt_get es k = Some v \<Longrightarrow> ids_below n (bt_insert k v' es)"
  unfolding ids_below_def by (auto simp: bt.get_ins split: if_splits)

section \<open>Operations preserve the invariant\<close>

lemma new_call_context_ok:
  assumes "ccm_inv m" and "new_call_context m origin c t = Some (cid, m')"
  shows "ccm_inv m'" and "bt_get (call_contexts m) cid = None" and "unat cid = Suc (unat (next_call_context_id m))"
    and "next_call_context_id m' = cid" and "callbacks m' = callbacks m"
    and "bt_get (call_contexts m') = (bt_get (call_contexts m))(cid \<mapsto> call_context_new origin False False c t)"
proof -
  have n: "add_checked (next_call_context_id m) 1 = Some cid"
    and m': "m' = m\<lparr>next_call_context_id := cid,
       call_contexts := bt_insert cid (call_context_new origin False False c t) (call_contexts m)\<rparr>"
    using assms(2) by (auto simp: new_call_context_def call_context_new_def bind_eq_Some_conv)
  note wf = ccm_inv_wf [OF assms(1)]
  have ids: "ids_below (next_call_context_id m) (call_contexts m)" using assms(1) by (simp add: ccm_inv_def)
  show fresh: "bt_get (call_contexts m) cid = None" "unat cid = Suc (unat (next_call_context_id m))"
    using fresh_id [OF ids n] by simp_all
  show get: "bt_get (call_contexts m') = (bt_get (call_contexts m))(cid \<mapsto> call_context_new origin False False c t)"
    by (simp add: m' fun_eq_iff bt.get_ins [OF wf(1)])
  show "next_call_context_id m' = cid" "callbacks m' = callbacks m" by (simp_all add: m')
  have "ids_below cid (call_contexts m')" unfolding m' using ids_below_insert [OF wf(1) ids n] by simp
  moreover have "callbacks_open m'" using assms(1) unfolding callbacks_open_def get by (auto simp: ccm_inv_def callbacks_open_def m')
  ultimately show "ccm_inv m'"
    using assms(1) wf bt.wf_ins [OF wf(1)] unfolding ccm_inv_def get by (auto simp: m' call_context_new_def)
qed

lemma register_callback_ok:
  assumes "ccm_inv m" and "register_callback m cb = Some (n, m')"
    and "bt_get (call_contexts m) (cb_call_context_id cb) \<noteq> None"
  shows "ccm_inv m'" and "bt_get (callbacks m) n = None" and "bt_get (callbacks m') = (bt_get (callbacks m))(n \<mapsto> cb)"
    and "call_contexts m' = call_contexts m" and "next_call_context_id m' = next_call_context_id m"
proof -
  have n: "add_checked (next_callback_id m) 1 = Some n"
    and m': "m' = m\<lparr>next_callback_id := n, callbacks := bt_insert n cb (callbacks m)\<rparr>"
    using assms(2) by (auto simp: register_callback_def bind_eq_Some_conv)
  note wf = ccm_inv_wf [OF assms(1)]
  have ids: "ids_below (next_callback_id m) (callbacks m)" using assms(1) by (simp add: ccm_inv_def)
  show "bt_get (callbacks m) n = None" using fresh_id [OF ids n] by simp
  show get: "bt_get (callbacks m') = (bt_get (callbacks m))(n \<mapsto> cb)"
    by (simp add: m' fun_eq_iff bt.get_ins [OF wf(2)])
  show "call_contexts m' = call_contexts m" "next_call_context_id m' = next_call_context_id m" by (simp_all add: m')
  have "callbacks_open m'" using assms(1,3) unfolding callbacks_open_def get by (auto simp: ccm_inv_def callbacks_open_def m')
  then show "ccm_inv m'"
    using assms(1) bt.wf_ins [OF wf(2)] ids_below_insert [OF wf(2) ids n] by (simp add: ccm_inv_def m')
qed

lemma unregister_callback_ok:
  assumes "ccm_inv m" and "unregister_callback m n = (r, m')"
  shows "ccm_inv m'" and "r = bt_get (callbacks m) n" and "bt_get (callbacks m') = (bt_get (callbacks m))(n := None)"
    and "call_contexts m' = call_contexts m" and "next_call_context_id m' = next_call_context_id m"
proof -
  have m': "m' = m\<lparr>callbacks := bt_remove n (callbacks m)\<rparr>" and r: "r = bt_get (callbacks m) n"
    using assms(2) by (auto simp: unregister_callback_def)
  note wf = ccm_inv_wf [OF assms(1)]
  show get: "bt_get (callbacks m') = (bt_get (callbacks m))(n := None)" by (simp add: m' fun_eq_iff bt.get_del [OF wf(2)])
  show "r = bt_get (callbacks m) n" by (rule r)
  show "call_contexts m' = call_contexts m" "next_call_context_id m' = next_call_context_id m" by (simp_all add: m')
  have "callbacks_open m'" using assms(1) unfolding callbacks_open_def get by (auto simp: ccm_inv_def callbacks_open_def m')
  then show "ccm_inv m'"
    using assms(1) bt.wf_del [OF wf(2)] ids_below_remove [OF wf(2)] by (simp add: ccm_inv_def m')
qed

lemma put_call_context_ok:
  assumes "ccm_inv m" and "bt_get (call_contexts m) cid = Some cc" and "cc_responded cc' \<Longrightarrow> cc_available_cycles cc' = 0"
  shows "ccm_inv (put_call_context cid cc' m)"
    and "bt_get (call_contexts (put_call_context cid cc' m)) = (bt_get (call_contexts m))(cid \<mapsto> cc')"
proof -
  note wf = ccm_inv_wf [OF assms(1)]
  show get: "bt_get (call_contexts (put_call_context cid cc' m)) = (bt_get (call_contexts m))(cid \<mapsto> cc')"
    by (simp add: put_call_context_def fun_eq_iff bt.get_ins [OF wf(1)])
  have "callbacks_open (put_call_context cid cc' m)"
    using assms(1) unfolding callbacks_open_def get by (auto simp: ccm_inv_def callbacks_open_def put_call_context_def)
  then show "ccm_inv (put_call_context cid cc' m)"
    using assms bt.wf_ins [OF wf(1)] ids_below_update [OF wf(1) _ assms(2)] get
    unfolding ccm_inv_def by (auto simp: put_call_context_def)
qed

lemma close_context_ok:
  assumes "ccm_inv m" and "outstanding_calls m cid = 0"
  shows "ccm_inv (close_context cid m)" and "bt_get (call_contexts (close_context cid m)) = (bt_get (call_contexts m))(cid := None)"
proof -
  note wf = ccm_inv_wf [OF assms(1)]
  show get: "bt_get (call_contexts (close_context cid m)) = (bt_get (call_contexts m))(cid := None)"
    by (simp add: close_context_def fun_eq_iff bt.get_del [OF wf(1)])
  have "callbacks_open (close_context cid m)"
    using assms(1,2) unfolding callbacks_open_def get outstanding_iff [OF wf(2)]
    by (auto simp: ccm_inv_def callbacks_open_def close_context_def)
  then show "ccm_inv (close_context cid m)"
    using assms bt.wf_del [OF wf(1)] ids_below_remove [OF wf(1)] get
    unfolding ccm_inv_def by (auto simp: close_context_def)
qed

section \<open>The result of a message execution\<close>

fun refund_of :: "'e call_context_action \<Rightarrow> cycles option" where
  "refund_of (ActReply _ r) = Some r"
| "refund_of (ActReject _ r) = Some r"
| "refund_of (ActNoResponse r) = Some r"
| "refund_of (ActFail _ r) = Some r"
| "refund_of NotYetResponded = None"
| "refund_of AlreadyResponded = None"

definition after_callback :: "u64 option \<Rightarrow> 'p call_context_manager \<Rightarrow> 'p call_context_manager" where
  "after_callback callback_id m = (case callback_id of Some cb \<Rightarrow> snd (unregister_callback m cb) | None \<Rightarrow> m)"

lemma after_callback_ok:
  assumes "ccm_inv m"
  shows "ccm_inv (after_callback cb m)" "call_contexts (after_callback cb m) = call_contexts m"
    "next_call_context_id (after_callback cb m) = next_call_context_id m"
proof -
  have "ccm_inv (after_callback cb m) \<and> call_contexts (after_callback cb m) = call_contexts m \<and>
      next_call_context_id (after_callback cb m) = next_call_context_id m"
  proof (cases cb)
    case (Some n)
    obtain r m' where u: "unregister_callback m n = (r, m')" by fastforce
    then show ?thesis using unregister_callback_ok [OF assms u] Some by (simp add: after_callback_def)
  qed (use assms in \<open>simp add: after_callback_def\<close>)
  then show "ccm_inv (after_callback cb m)" "call_contexts (after_callback cb m) = call_contexts m"
    "next_call_context_id (after_callback cb m) = next_call_context_id m" by simp_all
qed

text \<open>
  What the action says: \<open>result_action\<close> for an open context, on the flags \<open>responded\<close> and
  \<open>outstanding\<close>; and what becomes of the context: it is dropped when no calls are outstanding, and
  marked as responded when it is answered before.
\<close>

fun result_action :: "cycles \<Rightarrow> 'e + wasm_result option \<Rightarrow> bool \<Rightarrow> bool \<Rightarrow> 'e call_context_action option" where
  "result_action r (Inr None) responded outstanding =
     Some (if responded then AlreadyResponded else if outstanding then NotYetResponded else ActNoResponse r)"
| "result_action r (Inl e) responded outstanding =
     Some (if responded then AlreadyResponded else if outstanding then NotYetResponded else ActFail e r)"
| "result_action r (Inr (Some (WasmReply p))) responded outstanding = (if responded then None else Some (ActReply p r))"
| "result_action r (Inr (Some (WasmReject p))) responded outstanding = (if responded then None else Some (ActReject p r))"

definition result_state :: "u64 \<Rightarrow> 'p call_context \<Rightarrow> bool \<Rightarrow> 'e call_context_action \<Rightarrow> 'p call_context_manager \<Rightarrow> 'p call_context_manager" where
  "result_state cid cc outstanding act m =
     (if \<not> outstanding then close_context cid m
      else if refund_of act \<noteq> None then put_call_context cid (mark_responded cc) m
      else m)"

lemma on_canister_result_eq:
  "on_canister_result m cid cb res =
    (case bt_get (call_contexts (after_callback cb m)) cid of
       None \<Rightarrow> None
     | Some cc \<Rightarrow>
         (let m1 = after_callback cb m; outstanding = (0 < outstanding_calls m1 cid) in
          map_option (\<lambda>act. (act, result_state cid cc outstanding act m1))
            (result_action (cc_available_cycles cc) res (cc_responded cc) outstanding)))"
proof -
  have "after_callback cb m = (case cb of Some cb \<Rightarrow> snd (unregister_callback m cb) | None \<Rightarrow> m)"
    by (simp add: after_callback_def)
  note eq = on_canister_result_def [of m cid cb, folded this]
  show ?thesis
  proof (cases "bt_get (call_contexts (after_callback cb m)) cid")
    case (Some cc)
    show ?thesis
      using Some
      by (cases "cc_responded cc"; cases "0 < outstanding_calls (after_callback cb m) cid";
          cases "(cc_available_cycles cc, res, True, True)" rule: result_action.cases)
        (simp_all add: eq Let_def result_state_def)
  qed (simp add: eq Let_def)
qed

lemma refund_of_result:
  assumes "result_action r res responded outstanding = Some act"
  shows "refund_of act = (if responded \<or> outstanding \<and> (res = Inr None \<or> (\<exists>e. res = Inl e)) then None else Some r)"
  using assms by (cases "(r, res, responded, outstanding)" rule: result_action.cases) (auto split: if_splits)

lemma on_canister_result_ok:
  assumes "ccm_inv m" and "on_canister_result m cid cb res = Some (act, m')"
  obtains cc where "bt_get (call_contexts m) cid = Some cc" and "ccm_inv m'"
    and "next_call_context_id m' = next_call_context_id m" and "refund_of act \<noteq> None \<longrightarrow> refund_of act = Some (cc_available_cycles cc)"
    and "refund_of act \<noteq> None \<longrightarrow> \<not> cc_responded cc"
    and "bt_get (call_contexts m') = (bt_get (call_contexts m))(cid := bt_get (call_contexts m') cid)"
    and "bt_get (call_contexts m') cid = None \<and> (refund_of act = None \<longrightarrow> cc_responded cc) \<or>
      bt_get (call_contexts m') cid = Some (if refund_of act = None then cc else mark_responded cc)"
proof -
  let ?m = "after_callback cb m"
  let ?o = "0 < outstanding_calls ?m cid"
  note after = after_callback_ok [OF assms(1), of cb]
  obtain cc where cc: "bt_get (call_contexts m) cid = Some cc"
    and act: "result_action (cc_available_cycles cc) res (cc_responded cc) ?o = Some act"
    and m': "m' = result_state cid cc ?o act ?m"
    using assms(2) by (auto simp: on_canister_result_eq after(2) Let_def split: option.splits)
  note refund = refund_of_result [OF act]
  have cc1: "bt_get (call_contexts ?m) cid = Some cc" using cc after(2) by simp
  have put: "ccm_inv (put_call_context cid (mark_responded cc) ?m)"
    "bt_get (call_contexts (put_call_context cid (mark_responded cc) ?m)) = (bt_get (call_contexts m))(cid \<mapsto> mark_responded cc)"
    using put_call_context_ok [OF after(1) cc1, of "mark_responded cc"] after(2) by (simp_all add: mark_responded_def)
  have close: "ccm_inv (close_context cid ?m)"
    "bt_get (call_contexts (close_context cid ?m)) = (bt_get (call_contexts m))(cid := None)" if "\<not> ?o"
    using close_context_ok [OF after(1), of cid] after(2) that by simp_all
  have inv: "ccm_inv m'" using put(1) close(1) after(1) by (simp add: m' result_state_def)
  have next_id: "next_call_context_id m' = next_call_context_id m"
    by (simp add: m' result_state_def put_call_context_def close_context_def after(3))
  have get: "bt_get (call_contexts m') = (bt_get (call_contexts m))(cid := bt_get (call_contexts m') cid)"
    using put(2) close(2) after(2) cc by (auto simp: m' result_state_def)
  have own: "bt_get (call_contexts m') cid = None \<and> (refund_of act = None \<longrightarrow> cc_responded cc) \<or>
      bt_get (call_contexts m') cid = Some (if refund_of act = None then cc else mark_responded cc)"
    using put(2) close(2) cc1 refund by (auto simp: m' result_state_def split: if_splits)
  show thesis
    by (rule that [OF cc inv next_id _ _ get own]) (use refund in \<open>auto split: if_splits\<close>)
qed

section \<open>Uninstalling\<close>

definition uninstalled :: "'p call_context \<Rightarrow> 'p call_context" where
  "uninstalled cc = (if cc_responded cc then mark_deleted cc else mark_responded (mark_deleted cc))"

lemma uninstalled_simps [simp]:
  "cc_responded (uninstalled cc)" "cc_deleted (uninstalled cc)"
  "cc_available_cycles (uninstalled cc) = (if cc_responded cc then cc_available_cycles cc else 0)"
  by (simp_all add: uninstalled_def mark_deleted_def mark_responded_def)

lemma uninstall_contexts_eq:
  "uninstall_contexts own t es = Some (rs, es') \<Longrightarrow>
    es' = map (\<lambda>(k, cc). (k, uninstalled cc)) es \<and>
    rs = concat (map (\<lambda>(k, cc). the (uninstall_reject own t cc)) (filter (\<lambda>(k, cc). \<not> cc_responded cc) es))"
proof (induction es arbitrary: rs es')
  case (Cons e es)
  obtain k cc where e: "e = (k, cc)" by (cases e)
  have "uninstall_reject own t (mark_deleted cc) = uninstall_reject own t cc"
    by (simp add: uninstall_reject_def mark_deleted_def split: call_origin.split)
  then show ?case
    using Cons by (auto simp: e Let_def uninstalled_def mark_deleted_def bind_eq_Some_conv split: if_splits)
qed simp

lemma bt_get_map_values: "bt_get (map (\<lambda>(k, v). (k, f v)) es) k = map_option f (bt_get es k)"
  by (induction es) (auto simp: bt_get_def)

lemma uninstall_ok:
  assumes "ccm_inv m" and "uninstall_call_contexts own t m = Some (rs, m')"
  shows "ccm_inv m'" and "\<And>k. bt_get (call_contexts m') k = map_option uninstalled (bt_get (call_contexts m) k)"
    and "next_call_context_id m' = next_call_context_id m" and "callbacks m' = callbacks m"
proof -
  have m': "m' = m\<lparr>call_contexts := map (\<lambda>(k, cc). (k, uninstalled cc)) (call_contexts m)\<rparr>"
    using assms(2) uninstall_contexts_eq [of own t "call_contexts m"]
    by (auto simp: uninstall_call_contexts_def bind_eq_Some_conv)
  show get: "bt_get (call_contexts m') k = map_option uninstalled (bt_get (call_contexts m) k)" for k
    by (simp add: m' bt_get_map_values)
  show "next_call_context_id m' = next_call_context_id m" "callbacks m' = callbacks m" by (simp_all add: m')
  have "map fst (map (\<lambda>(k, cc). (k, uninstalled cc)) (call_contexts m)) = map fst (call_contexts m)" by auto
  then have "bt_wf (call_contexts m')" using ccm_inv_wf(1) [OF assms(1)] by (simp add: bt_wf_def m' del: map_map)
  then show "ccm_inv m'"
    using assms(1) unfolding ccm_inv_def ids_below_def callbacks_open_def get by (auto simp: m' split: if_splits)
qed

section \<open>Histories\<close>

text \<open>
  What a history of a manager has done, from the point of view of callers: a call with cycles was accepted
  as a context, cycles of it were accepted by the canister, it was answered with a refund. The
  rules are the calls that change a manager. Callbacks are only registered for open contexts.
  The error of a failed execution, which is handed on, is a string here.
\<close>

datatype ccm_event = Created u64 cycles | Withdrawn u64 cycles | Answered u64 cycles

definition answer_events :: "u64 \<Rightarrow> 'e call_context_action \<Rightarrow> ccm_event list" where
  "answer_events cid act = (case refund_of act of None \<Rightarrow> [] | Some r \<Rightarrow> [Answered cid r])"

definition uninstall_events :: "'p call_context_manager \<Rightarrow> ccm_event list" where
  "uninstall_events m =
     map (\<lambda>(k, cc). Answered k (cc_available_cycles cc)) (filter (\<lambda>(k, cc). \<not> cc_responded cc) (call_contexts m))"

inductive ccm_history :: "ccm_event list \<Rightarrow> 'p call_context_manager \<Rightarrow> bool" where
  init: "ccm_history [] ccm_default"
| create:
    "ccm_history h m \<Longrightarrow> new_call_context m origin c t = Some (cid, m') \<Longrightarrow> ccm_history (h @ [Created cid c]) m'"
| register:
    "ccm_history h m \<Longrightarrow> register_callback m cb = Some (n, m') \<Longrightarrow>
     ccm_call_context m (cb_call_context_id cb) = Some cc \<Longrightarrow> ccm_history h m'"
| unregister: "ccm_history h m \<Longrightarrow> unregister_callback m n = (r, m') \<Longrightarrow> ccm_history h m'"
| withdraw:
    "ccm_history h m \<Longrightarrow> ccm_call_context m cid = Some cc \<Longrightarrow> withdraw_cycles cc c = Inr cc' \<Longrightarrow>
     ccm_history (h @ [Withdrawn cid c]) (put_call_context cid cc' m)"
| result:
    "ccm_history h m \<Longrightarrow> on_canister_result m cid cb (res :: string + wasm_result option) = Some (act, m') \<Longrightarrow>
     ccm_history (h @ answer_events cid act) m'"
| uninstall:
    "ccm_history h m \<Longrightarrow> uninstall_call_contexts own t m = Some (rs, m') \<Longrightarrow>
     ccm_history (h @ uninstall_events m) m'"

lemma withdraw_ok:
  assumes "withdraw_cycles cc c = Inr cc'"
  shows "unat (cc_available_cycles cc) = unat (cc_available_cycles cc') + unat c"
    and "cc' = cc\<lparr>cc_available_cycles := cc_available_cycles cc'\<rparr>"
  using assms by (auto simp: withdraw_cycles_def unat_cycles_sub word_le_nat_alt not_less split: if_splits)

lemma withdraw_responded:
  assumes "ccm_inv m" and "ccm_call_context m cid = Some cc" and "withdraw_cycles cc c = Inr cc'" and "cc_responded cc'"
  shows "cc_available_cycles cc' = 0"
proof -
  have "cc_responded cc" using assms(4) withdraw_ok(2) [OF assms(3)] by (metis call_context.select_convs(2)
        call_context.surjective call_context.update_convs(4))
  then have "cc_available_cycles cc = 0" using assms(1,2) by (auto simp: ccm_inv_def ccm_call_context_def)
  then show ?thesis using withdraw_ok(1) [OF assms(3)] by (simp add: unat_eq_0)
qed

lemma ccm_history_inv: "ccm_history h m \<Longrightarrow> ccm_inv m"
proof (induction rule: ccm_history.induct)
  case init
  show ?case by (rule ccm_inv_default)
next
  case (create h m origin c t cid m')
  then show ?case using new_call_context_ok(1) by blast
next
  case (register h m cb n m' cc)
  then show ?case using register_callback_ok(1) [of m cb n m'] by (simp add: ccm_call_context_def)
next
  case (unregister h m n r m')
  then show ?case using unregister_callback_ok(1) by blast
next
  case (withdraw h m cid cc c cc')
  then show ?case
    using put_call_context_ok(1) [of m cid cc cc'] withdraw_responded [of m cid cc c cc'] by (simp add: ccm_call_context_def)
next
  case (result h m cid cb res act m')
  then show ?case using on_canister_result_ok [of m cid cb res act m'] by blast
next
  case (uninstall h m own t rs m')
  then show ?case by (metis uninstall_ok(1))
qed

subsection \<open>Each call is answered once\<close>

fun answers :: "u64 \<Rightarrow> ccm_event \<Rightarrow> nat" where
  "answers cid (Answered k _) = (if k = cid then 1 else 0)"
| "answers cid _ = 0"

fun cycles_in :: "u64 \<Rightarrow> ccm_event \<Rightarrow> nat" where
  "cycles_in cid (Created k c) = (if k = cid then unat c else 0)"
| "cycles_in cid _ = 0"

fun cycles_out :: "u64 \<Rightarrow> ccm_event \<Rightarrow> nat" where
  "cycles_out cid (Withdrawn k c) = (if k = cid then unat c else 0)"
| "cycles_out cid (Answered k c) = (if k = cid then unat c else 0)"
| "cycles_out cid (Created _ _) = 0"

definition unanswered :: "'p call_context_manager \<Rightarrow> u64 \<Rightarrow> bool" where
  "unanswered m cid \<longleftrightarrow> (\<exists>cc. bt_get (call_contexts m) cid = Some cc \<and> \<not> cc_responded cc)"

definition held_cycles :: "'p call_context_manager \<Rightarrow> u64 \<Rightarrow> nat" where
  "held_cycles m cid = (case bt_get (call_contexts m) cid of None \<Rightarrow> 0 | Some cc \<Rightarrow> unat (cc_available_cycles cc))"

definition issued :: "'p call_context_manager \<Rightarrow> u64 \<Rightarrow> bool" where
  "issued m cid \<longleftrightarrow> 0 < unat cid \<and> unat cid \<le> unat (next_call_context_id m)"

lemma unanswered_issued: "ccm_inv m \<Longrightarrow> unanswered m cid \<Longrightarrow> issued m cid"
  by (auto simp: unanswered_def issued_def ccm_inv_def ids_below_def)

lemma sum_over_context:
  assumes "bt_wf es"
  shows "sum_list (map (\<lambda>e. if fst e = k then f (snd e) else 0) es) = (case bt_get es k of None \<Rightarrow> 0 | Some v \<Rightarrow> f v)"
proof -
  have "distinct (map fst es) \<Longrightarrow>
      sum_list (map (\<lambda>e. if fst e = k then f (snd e) else 0) es) = (case map_of es k of None \<Rightarrow> 0 | Some v \<Rightarrow> f v)"
  proof (induction es)
    case (Cons e es)
    have "map_of es k = None" if "fst e = k" using Cons.prems that by (auto simp: map_of_eq_None_iff)
    then show ?case using Cons by (cases e) auto
  qed simp
  then show ?thesis using bt.distinct_entries [OF assms] by (simp add: bt_get_def)
qed

lemma sum_map_filter:
  "sum_list (map g (map h (filter P xs))) = sum_list (map (\<lambda>x. if P x then g (h x) else (0 :: nat)) xs)"
  by (induction xs) simp_all

lemma uninstall_events_sums:
  assumes "ccm_inv m"
  shows "sum_list (map (answers cid) (uninstall_events m)) = (if unanswered m cid then 1 else 0)"
    and "sum_list (map (cycles_out cid) (uninstall_events m)) = (if unanswered m cid then held_cycles m cid else 0)"
    and "sum_list (map (cycles_in cid) (uninstall_events m)) = 0"
proof -
  note sum = sum_over_context [OF ccm_inv_wf(1) [OF assms], of cid]
  have filt: "sum_list (map g (uninstall_events m)) =
      sum_list (map (\<lambda>e. if \<not> cc_responded (snd e) then g (Answered (fst e) (cc_available_cycles (snd e))) else 0) (call_contexts m))"
    for g :: "ccm_event \<Rightarrow> nat"
    by (simp add: uninstall_events_def sum_map_filter case_prod_unfold del: map_map)
  have "sum_list (map (answers cid) (uninstall_events m)) =
      sum_list (map (\<lambda>e. if fst e = cid then if cc_responded (snd e) then 0 else 1 else 0) (call_contexts m))"
    unfolding filt by (intro arg_cong [of _ _ sum_list] map_cong refl) simp
  then show "sum_list (map (answers cid) (uninstall_events m)) = (if unanswered m cid then 1 else 0)"
    unfolding sum [of "\<lambda>cc. if cc_responded cc then 0 else 1"] by (simp add: unanswered_def split: option.split)
  have "sum_list (map (cycles_out cid) (uninstall_events m)) =
      sum_list (map (\<lambda>e. if fst e = cid then if cc_responded (snd e) then 0 else unat (cc_available_cycles (snd e)) else 0)
        (call_contexts m))"
    unfolding filt by (intro arg_cong [of _ _ sum_list] map_cong refl) simp
  then show "sum_list (map (cycles_out cid) (uninstall_events m)) = (if unanswered m cid then held_cycles m cid else 0)"
    unfolding sum [of "\<lambda>cc. if cc_responded cc then 0 else unat (cc_available_cycles cc)"]
    by (simp add: unanswered_def held_cycles_def split: option.split)
  show "sum_list (map (cycles_in cid) (uninstall_events m)) = 0"
    by (auto simp: uninstall_events_def)
qed

text \<open>The effect of the steps that concern one context.\<close>

lemma result_effect:
  assumes "ccm_inv m" and "on_canister_result m cid cb res = Some (act, m')"
  shows "issued m' k = issued m k"
    and "sum_list (map (answers k) (answer_events cid act)) + (if unanswered m' k then 1 else 0) = (if unanswered m k then 1 else 0)"
    and "sum_list (map (cycles_out k) (answer_events cid act)) + held_cycles m' k = held_cycles m k"
    and "sum_list (map (cycles_in k) (answer_events cid act)) = 0"
proof -
  obtain cc where cc: "bt_get (call_contexts m) cid = Some cc" and "ccm_inv m'"
    and next_id: "next_call_context_id m' = next_call_context_id m"
    and refund: "refund_of act \<noteq> None \<longrightarrow> refund_of act = Some (cc_available_cycles cc)" "refund_of act \<noteq> None \<longrightarrow> \<not> cc_responded cc"
    and get: "bt_get (call_contexts m') = (bt_get (call_contexts m))(cid := bt_get (call_contexts m') cid)"
    and own: "bt_get (call_contexts m') cid = None \<and> (refund_of act = None \<longrightarrow> cc_responded cc) \<or>
      bt_get (call_contexts m') cid = Some (if refund_of act = None then cc else mark_responded cc)"
    by (rule on_canister_result_ok [OF assms])
  have zero: "cc_responded cc \<Longrightarrow> cc_available_cycles cc = 0" using assms(1) cc by (auto simp: ccm_inv_def)
  show "issued m' k = issued m k" by (simp add: issued_def next_id)
  show "sum_list (map (cycles_in k) (answer_events cid act)) = 0"
    by (auto simp: answer_events_def split: option.split)
  have other: "bt_get (call_contexts m') k = bt_get (call_contexts m) k" if "k \<noteq> cid"
    using that fun_cong [OF get, of k] by simp
  show "sum_list (map (answers k) (answer_events cid act)) + (if unanswered m' k then 1 else 0) = (if unanswered m k then 1 else 0)"
  proof (cases "k = cid")
    case True
    then show ?thesis
      using own refund cc
      by (cases "refund_of act") (auto simp: answer_events_def unanswered_def mark_responded_def)
  qed (auto simp: other unanswered_def answer_events_def split: option.split)
  show "sum_list (map (cycles_out k) (answer_events cid act)) + held_cycles m' k = held_cycles m k"
  proof (cases "k = cid")
    case True
    then show ?thesis
      using own refund cc zero
      by (cases "refund_of act") (auto simp: answer_events_def held_cycles_def mark_responded_def)
  qed (auto simp: other held_cycles_def answer_events_def split: option.split)
qed

lemma withdraw_effect:
  assumes "ccm_inv m" and "ccm_call_context m cid = Some cc" and "withdraw_cycles cc c = Inr cc'"
  shows "unanswered (put_call_context cid cc' m) k = unanswered m k"
    and "cycles_out k (Withdrawn cid c) + held_cycles (put_call_context cid cc' m) k = held_cycles m k"
    and "issued (put_call_context cid cc' m) k = issued m k"
proof -
  have cc: "bt_get (call_contexts m) cid = Some cc" using assms(2) by (simp add: ccm_call_context_def)
  note w = withdraw_ok [OF assms(3)]
  have get: "bt_get (call_contexts (put_call_context cid cc' m)) = (bt_get (call_contexts m))(cid \<mapsto> cc')"
    using put_call_context_ok(2) [OF assms(1) cc] withdraw_responded [OF assms] by blast
  have "cc_responded cc' = cc_responded cc" by (subst w(2)) simp
  then show "unanswered (put_call_context cid cc' m) k = unanswered m k" using cc by (auto simp: unanswered_def get)
  show "cycles_out k (Withdrawn cid c) + held_cycles (put_call_context cid cc' m) k = held_cycles m k"
    using cc w(1) by (auto simp: held_cycles_def get)
  show "issued (put_call_context cid cc' m) k = issued m k" by (simp add: issued_def put_call_context_def)
qed

lemma same_contexts:
  assumes "call_contexts m' = call_contexts m" and "next_call_context_id m' = next_call_context_id m"
  shows "unanswered m' k = unanswered m k" "held_cycles m' k = held_cycles m k" "issued m' k = issued m k"
  using assms by (simp_all add: unanswered_def held_cycles_def issued_def)

lemma history_answers:
  "ccm_history h m \<Longrightarrow>
    sum_list (map (answers k) h) = (if issued m k \<and> \<not> unanswered m k then 1 else 0)"
proof (induction rule: ccm_history.induct)
  case init
  show ?case by (auto simp: issued_def ccm_default_def)
next
  case (create h m origin c t cid m')
  note new = new_call_context_ok [OF ccm_history_inv [OF create.hyps(1)] create.hyps(2)]
  have "unanswered m' k = (k = cid \<or> unanswered m k)"
    using new(2) by (auto simp: unanswered_def new(6) call_context_new_def)
  moreover have "issued m' k = (k = cid \<or> issued m k)"
  proof -
    have "unat k = Suc (unat (next_call_context_id m)) \<longleftrightarrow> k = cid" using new(3) by (metis word_eq_unatI)
    then show ?thesis using new(3) by (auto simp: issued_def new(4) le_Suc_eq)
  qed
  moreover have "\<not> issued m cid" using new(3) by (simp add: issued_def)
  ultimately show ?case using create.IH by auto
next
  case (register h m cb n m' cc)
  have "bt_get (call_contexts m) (cb_call_context_id cb) \<noteq> None" using register.hyps(3) by (simp add: ccm_call_context_def)
  note r = register_callback_ok [OF ccm_history_inv [OF register.hyps(1)] register.hyps(2) this]
  show ?case using register.IH same_contexts [OF r(4,5)] by simp
next
  case (unregister h m n r m')
  note u = unregister_callback_ok [OF ccm_history_inv [OF unregister.hyps(1)] unregister.hyps(2)]
  show ?case using unregister.IH same_contexts [OF u(4,5)] by simp
next
  case (withdraw h m cid cc c cc')
  show ?case
    using withdraw.IH withdraw_effect [OF ccm_history_inv [OF withdraw.hyps(1)] withdraw.hyps(2,3)] by simp
next
  case (result h m cid cb res act m')
  note inv = ccm_history_inv [OF result.hyps(1)]
  note e = result_effect [OF inv result.hyps(2), of k]
  have "unanswered m k \<Longrightarrow> issued m k" by (rule unanswered_issued [OF inv])
  then show ?case using result.IH e(1,2) by (auto split: if_splits)
next
  case (uninstall h m own t rs m')
  note inv = ccm_history_inv [OF uninstall.hyps(1)]
  note u = uninstall_ok [OF inv uninstall.hyps(2)]
  have "\<not> unanswered m' k" by (auto simp: unanswered_def u(2))
  moreover have "unanswered m k \<Longrightarrow> issued m k" by (rule unanswered_issued [OF inv])
  moreover have "issued m' k = issued m k" by (simp add: issued_def u(3))
  ultimately show ?case using uninstall.IH uninstall_events_sums(1) [OF inv, of k] by auto
qed

lemma history_cycles:
  "ccm_history h m \<Longrightarrow>
    sum_list (map (cycles_in k) h) = sum_list (map (cycles_out k) h) + held_cycles m k"
proof (induction rule: ccm_history.induct)
  case init
  show ?case by (simp add: held_cycles_def ccm_default_def)
next
  case (create h m origin c t cid m')
  note new = new_call_context_ok [OF ccm_history_inv [OF create.hyps(1)] create.hyps(2)]
  have "held_cycles m' k = cycles_in k (Created cid c) + held_cycles m k"
    using new(2) by (auto simp: held_cycles_def new(6) call_context_new_def)
  then show ?case using create.IH by simp
next
  case (register h m cb n m' cc)
  have "bt_get (call_contexts m) (cb_call_context_id cb) \<noteq> None" using register.hyps(3) by (simp add: ccm_call_context_def)
  note r = register_callback_ok [OF ccm_history_inv [OF register.hyps(1)] register.hyps(2) this]
  show ?case using register.IH same_contexts [OF r(4,5)] by simp
next
  case (unregister h m n r m')
  note u = unregister_callback_ok [OF ccm_history_inv [OF unregister.hyps(1)] unregister.hyps(2)]
  show ?case using unregister.IH same_contexts [OF u(4,5)] by simp
next
  case (withdraw h m cid cc c cc')
  show ?case
    using withdraw.IH withdraw_effect(2) [OF ccm_history_inv [OF withdraw.hyps(1)] withdraw.hyps(2,3), of k] by simp
next
  case (result h m cid cb res act m')
  show ?case
    using result.IH result_effect(3,4) [OF ccm_history_inv [OF result.hyps(1)] result.hyps(2), of k] by simp
next
  case (uninstall h m own t rs m')
  note inv = ccm_history_inv [OF uninstall.hyps(1)]
  note u = uninstall_ok [OF inv uninstall.hyps(2)]
  have "cc_responded cc \<Longrightarrow> cc_available_cycles cc = 0" if "bt_get (call_contexts m) k = Some cc" for cc
    using inv that by (auto simp: ccm_inv_def)
  then have "held_cycles m' k = 0" and "\<not> unanswered m k \<Longrightarrow> held_cycles m k = 0"
    by (auto simp: held_cycles_def unanswered_def u(2) split: option.split)
  then show ?case
    using uninstall.IH uninstall_events_sums(2,3) [OF inv, of k] by (cases "unanswered m k") (simp_all del: sum_list_eq_0_iff)
qed

section \<open>Old call contexts\<close>

text \<open>
  Contexts are created with non-decreasing times (as block times are): then the contexts in order
  of their IDs are in order of their creation times, and the prefix taken is all of the old ones.
\<close>

definition times_sorted :: "(u64, 'p call_context) btree \<Rightarrow> bool" where
  "times_sorted es \<longleftrightarrow> sorted (List.map_filter (\<lambda>e. cc_time (snd e)) es)"

lemma map_filter_takeWhile:
  "sorted_wrt (\<lambda>a b. \<not> P a \<longrightarrow> \<not> P b \<or> g b = None) es \<Longrightarrow>
    List.map_filter g (takeWhile P es) = List.map_filter g (filter P es)"
proof (induction es)
  case (Cons e es)
  have "List.map_filter g (filter P es) = []" if "\<not> P e"
    using Cons.prems that by (auto simp: List.map_filter_def filter_empty_conv)
  then show ?case using Cons by (cases "P e") (simp_all add: List.map_filter_simps split: option.split)
qed simp

lemma set_map_filter_iff: "x \<in> set (List.map_filter f es) \<longleftrightarrow> (\<exists>e \<in> set es. f e = Some x)"
  by (induction es) (auto simp: List.map_filter_simps split: option.split)

lemma time_add_le: "unat t + age < 2 ^ 64 \<Longrightarrow> time_add t age \<le> now \<longleftrightarrow> unat t + age \<le> unat now"
  using unat_of_nat_small [of "unat t + age", where 'a = 64] by (simp add: time_add_def word_le_nat_alt)

lemma sorted_wrt_times: "times_sorted es \<Longrightarrow>
  sorted_wrt (\<lambda>a b. \<forall>t u. cc_time (snd a) = Some t \<longrightarrow> cc_time (snd b) = Some u \<longrightarrow> t \<le> u) es"
proof (induction es)
  case (Cons e es)
  have "times_sorted es" using Cons.prems by (auto simp: times_sorted_def List.map_filter_simps split: option.splits)
  moreover have "t \<le> u" if "e' \<in> set es" "cc_time (snd e) = Some t" "cc_time (snd e') = Some u" for e' t u
  proof -
    have "u \<in> set (List.map_filter (\<lambda>e. cc_time (snd e)) es)" 
      using that by (auto simp: set_map_filter_iff)
    then show ?thesis using Cons.prems that(2) by (simp add: times_sorted_def List.map_filter_simps)
  qed
  ultimately show ?case using Cons.IH by simp
qed simp

end
