(* ===== verification/CallContextManager_Spec.thy ===== *)
theory CallContextManager_Spec
  imports CallContextManager_Correct
begin

text \<open>
  What the call context manager promises: the properties of the component, each with an application
  to a concrete manager.
\<close>

section \<open>A sample manager\<close>

text \<open>
  Two calls have arrived, one of a canister with 100 cycles and an ingress message; the first one
  has accepted 30 cycles and made a call.
\<close>

definition example_callback :: "u8 callback" where
  "example_callback =
     \<lparr>cb_call_context_id = 1, cb_originator = Some 2, cb_respondent = Some 4, cb_cycles_sent = 8,
      cb_prepayment_for_response_execution = None, cb_prepayment_for_response_transmission = Some 3,
      cb_on_reply = \<lparr>func_idx = 1, env = 0\<rparr>, cb_on_reject = \<lparr>func_idx = 2, env = 0\<rparr>, cb_on_cleanup = None\<rparr>"

definition example_update :: "u8 call_context" where
  "example_update = call_context_new (FromCanisterUpdate 1 7) False False 70 5"

definition example_ingress :: "u8 call_context" where
  "example_ingress = call_context_new (FromIngress 3 (replicate 32 0)) False False 0 6"

definition example_ccm :: "u8 call_context_manager" where
  "example_ccm =
     \<lparr>next_call_context_id = 2, next_callback_id = 1,
      call_contexts = [(1, example_update), (2, example_ingress)], callbacks = [(1, example_callback)]\<rparr>"

definition example_events :: "ccm_event list" where
  "example_events = [Created 1 100, Created 2 0, Withdrawn 1 30]"

lemma example_history: "ccm_history example_events example_ccm"
proof -
  let ?m1 = "\<lparr>next_call_context_id = 1, next_callback_id = 0,
    call_contexts = [(1, call_context_new (FromCanisterUpdate 1 7) False False 100 5)], callbacks = []\<rparr> :: u8 call_context_manager"
  let ?m2 = "?m1\<lparr>next_call_context_id := 2, call_contexts := call_contexts ?m1 @ [(2, example_ingress)]\<rparr>"
  have "ccm_history ([] @ [Created 1 100]) ?m1"
    by (rule ccm_history.create [OF ccm_history.init, of "FromCanisterUpdate 1 7" _ 5])
      (simp add: new_call_context_def ccm_default_def add_checked_def call_context_new_def)
  then have "ccm_history (([] @ [Created 1 100]) @ [Created 2 0]) ?m2"
    by (rule ccm_history.create [of _ _ "FromIngress 3 (replicate 32 0)" _ 6])
      (simp add: new_call_context_def add_checked_def call_context_new_def example_ingress_def)
  then have "ccm_history (([] @ [Created 1 100]) @ [Created 2 0]) (?m2\<lparr>next_callback_id := 1, callbacks := [(1, example_callback)]\<rparr>)"
    by (rule ccm_history.register [of _ _ example_callback 1])
      (simp_all add: register_callback_def add_checked_def ccm_call_context_def bt_get_def example_callback_def)
  then have "ccm_history ((([] @ [Created 1 100]) @ [Created 2 0]) @ [Withdrawn 1 30])
      (put_call_context 1 example_update (?m2\<lparr>next_callback_id := 1, callbacks := [(1, example_callback)]\<rparr>))"
    by (rule ccm_history.withdraw [of _ _ _ "call_context_new (FromCanisterUpdate 1 7) False False 100 5"])
      (simp_all add: ccm_call_context_def bt_get_def withdraw_cycles_def call_context_new_def example_update_def
        cycles_sub_def saturating_sub_def)
  then show ?thesis by (simp add: example_events_def example_ccm_def put_call_context_def)
qed

section \<open>Properties of histories\<close>





section \<open>Properties of operations\<close>

lemma after_callback_contexts [simp]: "call_contexts (after_callback cb m) = call_contexts m"
  by (simp add: after_callback_def unregister_callback_def split: option.split)

lemma result_action_None:
  "result_action r res responded outstanding = None \<longleftrightarrow> responded \<and> (\<exists>w. res = Inr (Some w))"
  by (cases "(r, res, responded, outstanding)" rule: result_action.cases) auto

text \<open>
  \<open>on_canister_result\<close> panics exactly when the call context does not exist, or when an execution replied or rejected
  although the context has been responded to already.
\<close>

theorem on_canister_result_panics_iff:
  "on_canister_result m cid cb res = None \<longleftrightarrow>
    ccm_call_context m cid = None \<or> call_responded m cid = Some True \<and> (\<exists>w. res = Inr (Some w))"
  by (auto simp: on_canister_result_eq ccm_call_context_def call_responded_def Let_def result_action_None
      split: option.split)

text \<open>
  A response is accepted once. Registering a callback gives a fresh ID; a response to it
  from the respondent is then valid, one from another canister is not; unregistering returns the callback
  and after that the response is not valid any more.
\<close>

theorem response_accepted_once:
  assumes "ccm_history h m" and "ccm_call_context m (cb_call_context_id cb) \<noteq> None"
    and "register_callback m cb = Some (n, m')"
    and "cb_originator cb = Some orig" and "cb_respondent cb = Some resp" and "originator_reply_callback rsp = n"
  shows "ccm_callback m n = None \<and> (validate_response m' rsp = Inr () \<longleftrightarrow> originator rsp = orig \<and> respondent rsp = resp) \<and>
    fst (unregister_callback m' n) = Some cb \<and>
    validate_response (snd (unregister_callback m' n)) rsp =
      Inl (NonMatchingResponse ''unknown callback id'' (originator rsp) n (respondent rsp))"
proof -
  note r = register_callback_ok [OF ccm_history_inv [OF assms(1)] assms(3) assms(2) [unfolded ccm_call_context_def]]
  obtain o' m'' where u: "unregister_callback m' n = (o', m'')" by fastforce
  show ?thesis
    using unregister_callback_ok(2,3) [OF r(1) u] assms(4,5,6) r(2,3)
    by (auto simp: u validate_response_def ccm_callback_def)
qed

theorem response_accepted_once_witness:
  "\<exists>m'. register_callback example_ccm example_callback = Some (2, m') \<and>
     validate_response m' \<lparr>originator = 2, respondent = 4, originator_reply_callback = 2, refund = 0, response_payload = Data []\<rparr> = Inr ()"
proof -
  have reg: "register_callback example_ccm example_callback = Some (2, snd (the (register_callback example_ccm example_callback)))"
    by (simp add: register_callback_def example_ccm_def add_checked_def)
  have "ccm_call_context example_ccm (cb_call_context_id example_callback) \<noteq> None"
    by (simp add: ccm_call_context_def example_ccm_def example_callback_def bt_get_def)
  moreover have "cb_originator example_callback = Some 2" "cb_respondent example_callback = Some 4"
    by (simp_all add: example_callback_def)
  ultimately show ?thesis
    using response_accepted_once [OF example_history _ reg, of 2 4
      "\<lparr>originator = 2, respondent = 4, originator_reply_callback = 2, refund = 0, response_payload = Data []\<rparr>"] reg
    by (intro exI [of _ "snd (the (register_callback example_ccm example_callback))"]) simp
qed

lemma callbacks_open_all:
  assumes "ccm_inv m"
  shows "list_all (\<lambda>(_, cb). bt_contains_key (call_contexts m) (cb_call_context_id cb)) (callbacks m)"
proof -
  have "callbacks_open m" using assms by (simp add: ccm_inv_def)
  then show ?thesis
    unfolding callbacks_open_def bt.get_iff_entry [OF ccm_inv_wf(2) [OF assms]]
    by (fastforce simp: list_all_iff bt_contains_key_def)
qed

text \<open>
  A canister can be stopped exactly when all of its open call contexts are marked as deleted: the other
  condition tested, that callbacks refer to open call contexts, always holds.
\<close>

theorem canister_ready_to_stop_iff:
  assumes "ccm_history h m"
  shows "canister_ready_to_stop m \<longleftrightarrow> list_all (\<lambda>(_, cc). cc_deleted cc) (call_contexts m)"
  using callbacks_open_all [OF ccm_history_inv [OF assms]] by (simp add: canister_ready_to_stop_def)

theorem canister_ready_to_stop_iff_witness: "\<not> canister_ready_to_stop example_ccm"
  using canister_ready_to_stop_iff [OF example_history]
  by (simp add: example_ccm_def example_update_def call_context_new_def)

section \<open>Uninstalling\<close>

definition from_query :: "'p call_origin \<Rightarrow> bool" where
  "from_query origin \<longleftrightarrow> (case origin of FromQuery _ \<Rightarrow> True | FromCanisterQuery _ _ \<Rightarrow> True | _ \<Rightarrow> False)"

lemma uninstall_reject_Some: "(\<exists>r. uninstall_reject own t cc = Some r) \<longleftrightarrow> \<not> from_query (cc_call_origin cc)"
  by (simp add: uninstall_reject_def from_query_def split: call_origin.split)

lemma uninstall_contexts_Some:
  "list_all (\<lambda>(_, cc). cc_responded cc \<or> \<not> from_query (cc_call_origin cc)) es \<Longrightarrow>
    \<exists>rs es'. uninstall_contexts own t es = Some (rs, es')"
proof (induction es)
  case (Cons e es)
  obtain k cc where e: "e = (k, cc)" by (cases e)
  obtain rs es' where IH: "uninstall_contexts own t es = Some (rs, es')" using Cons by auto
  show ?case
    using Cons.prems IH uninstall_reject_Some [of own t "mark_deleted cc"]
    by (cases "cc_responded cc") (auto simp: e Let_def mark_deleted_def)
qed simp



section \<open>Old call contexts\<close>

text \<open>
  \<open>call_contexts_older_than\<close> stops at the first context that is too young, yet returns all contexts of the
  given age that are not deleted, in order: contexts are created in the order of time, and adding the
  age does not overflow.
\<close>

theorem call_contexts_older_than_complete:
  assumes "times_sorted (call_contexts m)"
    and "list_all (\<lambda>(_, cc). \<forall>t. cc_time cc = Some t \<longrightarrow> unat t + age < 2 ^ 64) (call_contexts m)"
  shows "call_contexts_older_than m now age =
    List.map_filter (\<lambda>(_, cc). case cc_time cc of
        Some t \<Rightarrow> if \<not> cc_deleted cc \<and> unat t + age \<le> unat now then Some (cc_call_origin cc, t) else None
      | None \<Rightarrow> None) (call_contexts m)"
proof -
  let ?g = "\<lambda>(_ :: u64, cc). case cc_time cc of
      Some t \<Rightarrow> if \<not> cc_deleted cc then Some (cc_call_origin cc, t) else None
    | None \<Rightarrow> None"
  let ?P = "\<lambda>(_ :: u64, cc). case cc_time cc of Some t \<Rightarrow> time_add t age \<le> now | None \<Rightarrow> True"
  let ?h = "\<lambda>(_ :: u64, cc). case cc_time cc of
      Some t \<Rightarrow> if \<not> cc_deleted cc \<and> unat t + age \<le> unat now then Some (cc_call_origin cc, t) else None
    | None \<Rightarrow> None"
  have restrict: "List.map_filter ?g (filter ?P es) = List.map_filter ?h es"
    if "list_all (\<lambda>(_, cc). \<forall>t. cc_time cc = Some t \<longrightarrow> unat t + age < 2 ^ 64) es" for es
    using that
  proof (induction es)
    case (Cons e es)
    obtain k cc where e: "e = (k, cc)" by (cases e)
    show ?case
      using Cons by (cases "cc_time cc"; cases "cc_deleted cc") (simp_all add: e List.map_filter_simps time_add_le)
  qed simp
  have mono: "time_add t age \<le> now" if "time_add u age \<le> now" "t \<le> u" "unat u + age < 2 ^ 64" for t u
    using that time_add_le [of u age now] time_add_le [of t age now] by (simp add: word_le_nat_alt)
  have "sorted_wrt (\<lambda>a b. \<not> ?P a \<longrightarrow> \<not> ?P b \<or> ?g b = None) (call_contexts m)"
    by (rule sorted_wrt_mono_rel [OF _ sorted_wrt_times [OF assms(1)]])
      (use assms(2) mono in \<open>fastforce simp: list_all_iff split: option.splits\<close>)
  then have "call_contexts_older_than m now age = List.map_filter ?g (filter ?P (call_contexts m))"
    unfolding call_contexts_older_than_def by (rule map_filter_takeWhile)
  also have "\<dots> = List.map_filter ?h (call_contexts m)" by (rule restrict [OF assms(2)])
  finally show ?thesis .
qed

theorem call_contexts_older_than_complete_witness:
  "call_contexts_older_than example_ccm 15 10 = [(FromCanisterUpdate 1 7, 5)]"
proof -
  have contexts: "call_contexts example_ccm = [(1, example_update), (2, example_ingress)]" by (simp add: example_ccm_def)
  have "times_sorted (call_contexts example_ccm)"
    "list_all (\<lambda>(_, cc). \<forall>t. cc_time cc = Some t \<longrightarrow> unat t + 10 < 2 ^ 64) (call_contexts example_ccm)"
    by (simp_all add: contexts times_sorted_def List.map_filter_simps example_update_def example_ingress_def call_context_new_def)
  from call_contexts_older_than_complete [OF this, of 15] show ?thesis
    by (simp add: contexts List.map_filter_simps example_update_def example_ingress_def call_context_new_def)
qed

section \<open>Encoding\<close>

text \<open>What the encoding relies on: message IDs have the length their type promises.\<close>

definition ccm_encodable :: "'p call_context_manager \<Rightarrow> bool" where
  "ccm_encodable m \<longleftrightarrow>
     list_all (\<lambda>(_, cc). \<forall>u mid. cc_call_origin cc = FromIngress u mid \<longrightarrow> length mid = EXPECTED_MESSAGE_ID_LENGTH)
       (call_contexts m)"

lemma call_origin_roundtrip:
  assumes "\<And>c. dec (enc c) = Some c" and "\<And>u mid. origin = FromIngress u mid \<Longrightarrow> length mid = EXPECTED_MESSAGE_ID_LENGTH"
  shows "call_origin_try_from dec (call_origin_to_pb enc origin) = Some (Inr origin)"
  using assms
  by (cases origin) (simp_all add: canister_id_roundtrip user_id_try_from_protobuf_def message_id_try_from_def
      try_from_option_field_def [where field = "Some _"] canister_id_try_from_def canister_id_to_pb_def)

lemma callback_roundtrip:
  assumes "\<And>c. dec (enc c) = Some c"
  shows "callback_try_from dec (callback_to_pb enc cb) = Some (Inr cb)"
  by (cases "cb_originator cb"; cases "cb_respondent cb"; cases "cb_prepayment_for_response_execution cb";
      cases "cb_prepayment_for_response_transmission cb")
    (simp_all add: callback_try_from_def callback_to_pb_def canister_id_roundtrip assms try_ok_def try_transpose_def
      pb_cycles_into_def cycles_bytes_roundtrip try_from_option_field_def canister_id_try_from_def canister_id_to_pb_def)

lemma call_context_roundtrip:
  assumes "\<And>c. dec (enc c) = Some c"
    and "\<And>u mid. cc_call_origin cc = FromIngress u mid \<Longrightarrow> length mid = EXPECTED_MESSAGE_ID_LENGTH"
  shows "call_context_try_from dec (call_context_to_pb enc cc) = Some (Inr cc)"
  using call_origin_roundtrip [where dec = dec and enc = enc and origin = "cc_call_origin cc"] assms
  by (simp add: call_context_try_from_def call_context_to_pb_def try_from_option_field_def funds_try_from_def
      funds_to_pb_def funds_new_def pb_cycles_into_def cycles_bytes_roundtrip)

lemma decode_entries_encoded:
  assumes "\<forall>(k, v) \<in> set es. conv (encode v) = Some (Inr v)"
  shows "decode_entries conv name (map (\<lambda>(k, v). (k, Some (encode v))) es) acc =
    Some (Inr (foldl (\<lambda>m (k, v). bt_insert k v m) acc es))"
  using assms
proof (induction es arbitrary: acc)
  case (Cons e es)
  obtain k v where e: "e = (k, v)" by (cases e)
  then have "conv (encode v) = Some (Inr v)" using Cons.prems by simp
  then show ?case using Cons by (simp add: e try_from_option_field_def)
qed simp

text \<open>
  Decoding the encoding of a manager gives the manager back.
\<close>

theorem call_context_manager_roundtrip:
  assumes "ccm_history h m" and "\<And>c. dec (enc c) = Some c" and "ccm_encodable m"
  shows "ccm_try_from dec (ccm_to_pb enc m) = Some (Inr m)"
proof -
  note wf = ccm_inv_wf [OF ccm_history_inv [OF assms(1)]]
  have contexts: "decode_entries (call_context_try_from dec) name
      (map (\<lambda>(k, v). (k, Some (call_context_to_pb enc v))) (call_contexts m)) [] = Some (Inr (call_contexts m))" for name
    by (subst decode_entries_encoded)
      (use assms(2,3) bt_collect_sorted [OF wf(1)] in
        \<open>auto simp: ccm_encodable_def list_all_iff bt_collect_def intro!: call_context_roundtrip\<close>)
  have cbs: "decode_entries (callback_try_from dec) name
      (map (\<lambda>(k, v). (k, Some (callback_to_pb enc v))) (callbacks m)) [] = Some (Inr (callbacks m))" for name
    by (subst decode_entries_encoded)
      (use assms(2) bt_collect_sorted [OF wf(2)] in \<open>auto simp: bt_collect_def intro!: callback_roundtrip\<close>)
  show ?thesis using contexts cbs by (simp add: ccm_try_from_def ccm_to_pb_def)
qed

theorem call_context_manager_roundtrip_witness:
  "ccm_try_from example_dec (ccm_to_pb example_enc example_ccm) = Some (Inr example_ccm)"
proof -
  have "ccm_encodable example_ccm"
    by (simp add: ccm_encodable_def example_ccm_def example_update_def example_ingress_def call_context_new_def
        EXPECTED_MESSAGE_ID_LENGTH_def)
  then show ?thesis using call_context_manager_roundtrip [OF example_history example_codec] by blast
qed

section \<open>Refunds\<close>

text \<open>
  The documentation of the action \<open>Reject\<close> says that all cycles that the request initially contained are refunded. What is
  refunded is what the canister has not accepted: here 70 of 100 cycles.
\<close>

lemma reject_refunds_what_is_left:
  "\<exists>m'. on_canister_result example_ccm 1 (Some 1) (Inr (Some (WasmReject ''no'')) :: string + wasm_result option) =
      Some (ActReject ''no'' 70, m') \<and> Created 1 100 \<in> set example_events"
  by (simp add: on_canister_result_def unregister_callback_def example_ccm_def bt_get_def bt_remove_def
      outstanding_calls_def Let_def example_update_def call_context_new_def example_events_def)

end
