(* ===== verification/RoutingTable.thy ===== *)
theory RoutingTable
  imports BTreeMap Messages "HOL-Library.List_Lexorder"
begin

text \<open>
  Ranges of canister IDs, the routing table and the canister migrations
  (\<open>rs/registry/routing_table/src/lib.rs\<close> and \<open>proto.rs\<close>), and the canister IDs that are numbers
  (\<open>rs/types/base_types/src/canister_id.rs\<close>).

  A \<open>PrincipalId\<close>, and with it a canister or subnet ID, is of a type \<open>'c\<close> with a linear order: its representation and order
  are those of a library type. \<open>fr\<close> is the conversion \<open>CanisterId::from\<close> of a \<open>u64\<close> and \<open>into\<close> is
  \<open>canister_id_into_u64\<close>, which panics for IDs of another form. Both are defined on the bytes of
  an ID in the first section; the locale \<open>canister_numbering\<close> states what ranges rely on.
  The arguments formatted into error messages are left out.
\<close>

section \<open>Canister IDs that are numbers\<close>

text \<open>\<open>u64::to_be_bytes\<close> and \<open>u64::from_be_bytes\<close> of the standard library.\<close>

definition u64_to_be_bytes :: "u64 \<Rightarrow> u8 list" where
  "u64_to_be_bytes n = map (\<lambda>i. ucast (drop_bit (8 * (7 - i)) n)) [0..<8]"

definition be_value :: "u8 list \<Rightarrow> nat" where
  "be_value bs = foldl (\<lambda>a b. 256 * a + unat b) 0 bs"

definition u64_from_be_bytes :: "u8 list \<Rightarrow> u64" where
  "u64_from_be_bytes bs = of_nat (be_value bs)"

definition TYPE_OPAQUE :: u8 where
  "TYPE_OPAQUE = 1"

definition new_opaque_from_array :: "u8 list \<Rightarrow> u8 list" where
  "new_opaque_from_array blob = blob @ [TYPE_OPAQUE]"

definition canister_id_from_u64 :: "u64 \<Rightarrow> u8 list" where
  "canister_id_from_u64 val = new_opaque_from_array (u64_to_be_bytes val @ [1])"

definition canister_id_into_u64 :: "u8 list \<Rightarrow> u64 option" where
  "canister_id_into_u64 bytes = (if length bytes = 8 + 2 then Some (u64_from_be_bytes (take 8 bytes)) else None)"

section \<open>Ranges\<close>

text \<open>\<open>CanisterIdRange\<close> with the derived order.\<close>

datatype 'c canister_id_range = CanisterIdRange (r_start: 'c) (r_end: 'c)

instantiation canister_id_range :: (linorder) linorder
begin

definition less_eq_canister_id_range :: "'a canister_id_range \<Rightarrow> 'a canister_id_range \<Rightarrow> bool" where
  "r \<le> s \<longleftrightarrow> r_start r < r_start s \<or> r_start r = r_start s \<and> r_end r \<le> r_end s"

definition less_canister_id_range :: "'a canister_id_range \<Rightarrow> 'a canister_id_range \<Rightarrow> bool" where
  "r < s \<longleftrightarrow> r_start r < r_start s \<or> r_start r = r_start s \<and> r_end r < r_end s"

instance
  by standard (auto simp: less_eq_canister_id_range_def less_canister_id_range_def canister_id_range.expand)

end

definition range_contains :: "'c::linorder canister_id_range \<Rightarrow> 'c \<Rightarrow> bool" where
  "range_contains r canister_id \<longleftrightarrow> r_start r \<le> canister_id \<and> canister_id \<le> r_end r"

definition range_generate_canister_id ::
  "(u64 \<Rightarrow> 'c::linorder) \<Rightarrow> ('c \<Rightarrow> u64 option) \<Rightarrow> 'c canister_id_range \<Rightarrow> 'c option \<Rightarrow> 'c option option" where
  "range_generate_canister_id fr into r previous_canister_id =
     (case previous_canister_id of
        None \<Rightarrow> Some (Some (r_start r))
      | Some prev \<Rightarrow>
          if prev < r_start r then Some (Some (r_start r))
          else if r_end r \<le> prev then Some None
          else do {
            n \<leftarrow> into prev;
            n1 \<leftarrow> add_checked n 1;
            Some (Some (fr n1))
          })"

datatype canister_id_range_error = CanisterIdRangeEmpty | CanisterIdParseError | CanisterIdsNotPair

text \<open>\<open>str::split\<close> at a character.\<close>

fun split_at :: "char \<Rightarrow> string \<Rightarrow> string list" where
  "split_at c [] = [[]]"
| "split_at c (x # xs) =
     (if x = c then [] # split_at c xs
      else (case split_at c xs of [] \<Rightarrow> [[x]] | w # ws \<Rightarrow> (x # w) # ws))"

text \<open>\<open>parse\<close> is \<open>CanisterId::from_str\<close>, which is the parser of a library.\<close>

definition range_from_str ::
  "(string \<Rightarrow> 'c::linorder option) \<Rightarrow> string \<Rightarrow> canister_id_range_error + 'c canister_id_range" where
  "range_from_str parse input =
     (let id_pair = split_at (CHR '':'') input in
      if length id_pair \<noteq> 2 then Inl CanisterIdsNotPair
      else (case parse (id_pair ! 0) of
              None \<Rightarrow> Inl CanisterIdParseError
            | Some s \<Rightarrow>
                (case parse (id_pair ! 1) of
                   None \<Rightarrow> Inl CanisterIdParseError
                 | Some e \<Rightarrow> if e < s then Inl CanisterIdRangeEmpty else Inr (CanisterIdRange s e))))"

datatype well_formed_error =
    CanisterIdRangeEmptyRange
  | CanisterIdRangeNotSortedOrNotDisjoint
  | RoutingTableEmptyRange
  | RoutingTableNotDisjoint
  | RoutingTableNotOptimized
  | CanisterMigrationsEmptyRange
  | CanisterMigrationsNotDisjoint
  | CanisterMigrationsInvalidTrace

section \<open>Lists of ranges\<close>

text \<open>The loop of \<open>well_formed\<close>, with the end of the previous range.\<close>

fun ranges_well_formed_from :: "'c::linorder option \<Rightarrow> 'c canister_id_range list \<Rightarrow> well_formed_error + unit" where
  "ranges_well_formed_from previous [] = Inr ()"
| "ranges_well_formed_from previous (r # rs) =
     (if r_end r < r_start r then Inl CanisterIdRangeEmptyRange
      else if (case previous of Some e \<Rightarrow> r_start r \<le> e | None \<Rightarrow> False) then Inl CanisterIdRangeNotSortedOrNotDisjoint
      else ranges_well_formed_from (Some (r_end r)) rs)"

definition ranges_well_formed :: "'c::linorder canister_id_range list \<Rightarrow> well_formed_error + unit" where
  "ranges_well_formed rs = ranges_well_formed_from None rs"

definition ranges_try_from :: "'c::linorder canister_id_range list \<Rightarrow> well_formed_error + 'c canister_id_range list" where
  "ranges_try_from rs =
     (let r = sort rs in
      ok_bind (ranges_well_formed r) (\<lambda>_. Inr r))"

definition sub_checked :: "'a::len word \<Rightarrow> 'a word \<Rightarrow> 'a word option" where
  "sub_checked a b = (if b \<le> a then Some (a - b) else None)"

definition canister_id_into_u128 :: "('c \<Rightarrow> u64 option) \<Rightarrow> 'c \<Rightarrow> u128 option" where
  "canister_id_into_u128 into c = map_option ucast (into c)"

definition range_len :: "('c \<Rightarrow> u64 option) \<Rightarrow> 'c canister_id_range \<Rightarrow> u128 option" where
  "range_len into r =
     do {
       e \<leftarrow> canister_id_into_u128 into (r_end r);
       x \<leftarrow> add_checked 1 e;
       s \<leftarrow> canister_id_into_u128 into (r_start r);
       sub_checked x s
     }"

fun total_count_from :: "('c \<Rightarrow> u64 option) \<Rightarrow> u128 \<Rightarrow> 'c canister_id_range list \<Rightarrow> u128 option" where
  "total_count_from into acc [] = Some acc"
| "total_count_from into acc (r # rs) =
     do {
       n \<leftarrow> range_len into r;
       acc1 \<leftarrow> add_checked acc n;
       total_count_from into acc1 rs
     }"

definition total_count :: "('c \<Rightarrow> u64 option) \<Rightarrow> 'c canister_id_range list \<Rightarrow> u128 option" where
  "total_count into rs = total_count_from into 0 rs"

definition ranges_drop_first :: "'c canister_id_range list \<Rightarrow> ('c canister_id_range \<times> 'c canister_id_range list) option" where
  "ranges_drop_first rs = (case rs of [] \<Rightarrow> None | r # rs' \<Rightarrow> Some (r, rs'))"

definition ranges_start :: "'c canister_id_range list \<Rightarrow> 'c option" where
  "ranges_start rs = (case rs of [] \<Rightarrow> None | r # _ \<Rightarrow> Some (r_start r))"

definition ranges_end :: "'c canister_id_range list \<Rightarrow> 'c option" where
  "ranges_end rs = (if rs = [] then None else Some (r_end (last rs)))"

text \<open>The first ID that one of the ranges generates.\<close>

fun ranges_generate_canister_id ::
  "(u64 \<Rightarrow> 'c::linorder) \<Rightarrow> ('c \<Rightarrow> u64 option) \<Rightarrow> 'c canister_id_range list \<Rightarrow> 'c option \<Rightarrow> 'c option option" where
  "ranges_generate_canister_id fr into [] previous_canister_id = Some None"
| "ranges_generate_canister_id fr into (r # rs) previous_canister_id =
     do {
       c \<leftarrow> range_generate_canister_id fr into r previous_canister_id;
       (case c of
          Some canister_id \<Rightarrow> Some (Some canister_id)
        | None \<Rightarrow> ranges_generate_canister_id fr into rs previous_canister_id)
     }"

fun locate_loop :: "(u64 \<Rightarrow> 'c) \<Rightarrow> ('c \<Rightarrow> u64 option) \<Rightarrow> 'c canister_id_range list \<Rightarrow> u128 \<Rightarrow> 'c option" where
  "locate_loop fr into [] loc = None"
| "locate_loop fr into (r # rs) loc =
     do {
       n \<leftarrow> range_len into r;
       (if loc < n then
          do {
            s \<leftarrow> into (r_start r);
            c \<leftarrow> add_checked s (ucast loc);
            Some (fr c)
          }
        else locate_loop fr into rs (loc - n))
     }"

definition locate :: "(u64 \<Rightarrow> 'c) \<Rightarrow> ('c \<Rightarrow> u64 option) \<Rightarrow> 'c canister_id_range list \<Rightarrow> u64 \<Rightarrow> 'c option" where
  "locate fr into rs loc =
     do {
       total \<leftarrow> total_count into rs;
       (if (ucast loc :: u128) < total then locate_loop fr into rs (ucast loc) else None)
     }"

section \<open>Lookup and comparison of lists of ranges\<close>

text \<open>The outer option is the failed assertion, the inner one the result.\<close>

definition lookup_in_ranges ::
  "(u64 \<Rightarrow> 'c::linorder) \<Rightarrow> ('c canister_id_range, 'v) btree \<Rightarrow> 'c \<Rightarrow> ('c canister_id_range \<times> 'v) option option" where
  "lookup_in_ranges fr m canister_id =
     (case bt_last_le m (CanisterIdRange canister_id (fr (- 1))) of
        Some (interval, value) \<Rightarrow>
          if \<not> r_start interval \<le> canister_id then None
          else if canister_id \<le> r_end interval then Some (Some (interval, value))
          else Some None
      | None \<Rightarrow> Some None)"

fun are_disjoint :: "'c::linorder canister_id_range list \<Rightarrow> 'c canister_id_range list \<Rightarrow> bool" where
  "are_disjoint (l # ls) (r # rs) =
     (if r_end l < r_start r then are_disjoint ls (r # rs)
      else if r_end r < r_start l then are_disjoint (l # ls) rs
      else False)"
| "are_disjoint [] rs = True"
| "are_disjoint ls [] = True"

fun is_subset_of :: "'c::linorder canister_id_range list \<Rightarrow> 'c canister_id_range list \<Rightarrow> bool" where
  "is_subset_of [] rs = True"
| "is_subset_of (l # ls) rs =
     (let rs1 = dropWhile (\<lambda>r. \<not> (r_start r \<le> r_start l \<and> r_end l \<le> r_end r)) rs in
      if rs1 = [] then False else is_subset_of ls rs1)"

fun intersection_loop ::
  "'c::linorder canister_id_range list \<Rightarrow> 'c canister_id_range list \<Rightarrow> 'c canister_id_range list" where
  "intersection_loop (l # ls) (r # rs) =
     (let s = max (r_start l) (r_start r); e = min (r_end l) (r_end r);
          res = (if s \<le> e then [CanisterIdRange s e] else []) in
      res @ (if r_end l < r_end r then intersection_loop ls (r # rs) else intersection_loop (l # ls) rs))"
| "intersection_loop [] rs = []"
| "intersection_loop ls [] = []"

definition intersection ::
  "'c::linorder canister_id_range list \<Rightarrow> 'c canister_id_range list \<Rightarrow> well_formed_error + 'c canister_id_range list" where
  "intersection lhs rhs = ranges_try_from (intersection_loop lhs rhs)"

definition inc_id :: "(u64 \<Rightarrow> 'c) \<Rightarrow> ('c \<Rightarrow> u64 option) \<Rightarrow> 'c \<Rightarrow> 'c option" where
  "inc_id fr into c = do { n \<leftarrow> into c; n1 \<leftarrow> add_checked n 1; Some (fr n1) }"

definition dec_id :: "(u64 \<Rightarrow> 'c) \<Rightarrow> ('c \<Rightarrow> u64 option) \<Rightarrow> 'c \<Rightarrow> 'c option" where
  "dec_id fr into c = do { n \<leftarrow> into c; n1 \<leftarrow> sub_checked n 1; Some (fr n1) }"

text \<open>
  The inner loop of \<open>difference\<close> for one range of the left side: what is pushed, and the ranges of the right
  side that are left.
\<close>

fun difference_right ::
  "(u64 \<Rightarrow> 'c::linorder) \<Rightarrow> ('c \<Rightarrow> u64 option) \<Rightarrow> 'c \<Rightarrow> 'c \<Rightarrow> 'c canister_id_range list
   \<Rightarrow> ('c canister_id_range list \<times> 'c canister_id_range list) option" where
  "difference_right fr into s e [] = Some ([CanisterIdRange s e], [])"
| "difference_right fr into s e (r # rs) =
     (if r_end r < s then difference_right fr into s e rs
      else if e < r_start r then Some ([CanisterIdRange s e], r # rs)
      else do {
        prefix \<leftarrow> (if s < r_start r then do { d \<leftarrow> dec_id fr into (r_start r); Some [CanisterIdRange s d] } else Some []);
        (if e \<le> r_end r then Some (prefix, r # rs)
         else do {
           s1 \<leftarrow> inc_id fr into (r_end r);
           (res, rs1) \<leftarrow> difference_right fr into s1 e rs;
           Some (prefix @ res, rs1)
         })
      })"

fun difference_loop ::
  "(u64 \<Rightarrow> 'c::linorder) \<Rightarrow> ('c \<Rightarrow> u64 option) \<Rightarrow> 'c canister_id_range list \<Rightarrow> 'c canister_id_range list
   \<Rightarrow> 'c canister_id_range list option" where
  "difference_loop fr into [] rs = Some []"
| "difference_loop fr into (l # ls) rs =
     do {
       (res, rs1) \<leftarrow> difference_right fr into (r_start l) (r_end l) rs;
       rest \<leftarrow> difference_loop fr into ls rs1;
       Some (res @ rest)
     }"

definition difference ::
  "(u64 \<Rightarrow> 'c::linorder) \<Rightarrow> ('c \<Rightarrow> u64 option) \<Rightarrow> 'c canister_id_range list \<Rightarrow> 'c canister_id_range list
   \<Rightarrow> (well_formed_error + 'c canister_id_range list) option" where
  "difference fr into lhs rhs = map_option ranges_try_from (difference_loop fr into lhs rhs)"

section \<open>The routing table\<close>

type_synonym 'c routing_table = "('c canister_id_range, 'c) btree"

fun rt_validate_from :: "'c::linorder option \<Rightarrow> 'c canister_id_range list \<Rightarrow> well_formed_error + unit" where
  "rt_validate_from previous_end [] = Inr ()"
| "rt_validate_from previous_end (r # rs) =
     (if r_end r < r_start r then Inl RoutingTableEmptyRange
      else if (case previous_end of Some e \<Rightarrow> r_start r \<le> e | None \<Rightarrow> False) then Inl RoutingTableNotDisjoint
      else rt_validate_from (Some (r_end r)) rs)"

definition rt_validate :: "'c::linorder routing_table \<Rightarrow> well_formed_error + unit" where
  "rt_validate t = rt_validate_from None (map fst t)"

text \<open>Two neighbouring entries can be merged: short-circuit evaluation of the conditions.\<close>

definition mergeable :: "('c \<Rightarrow> u64 option) \<Rightarrow> 'c canister_id_range \<times> 'c \<Rightarrow> 'c canister_id_range \<times> 'c \<Rightarrow> bool option" where
  "mergeable into e1 e2 =
     do {
       last_range_end \<leftarrow> into (r_end (fst e1));
       range_start \<leftarrow> into (r_start (fst e2));
       (if snd e1 = snd e2 then map_option (\<lambda>n. n = range_start) (add_checked last_range_end 1) else Some False)
     }"

text \<open>The entries pushed so far are in the order of the vector, so that \<open>last\<close> is its last element.\<close>

fun optimize_loop ::
  "('c \<Rightarrow> u64 option) \<Rightarrow> ('c canister_id_range \<times> 'c) list \<Rightarrow> ('c canister_id_range \<times> 'c) list
   \<Rightarrow> ('c canister_id_range \<times> 'c) list option" where
  "optimize_loop into entries [] = Some entries"
| "optimize_loop into entries ((rng, subnet) # es) =
     do {
       merge \<leftarrow> (if entries = [] then Some False else mergeable into (last entries) (rng, subnet));
       (if merge
        then optimize_loop into
               (butlast entries @ [(CanisterIdRange (r_start (fst (last entries))) (r_end rng), snd (last entries))]) es
        else optimize_loop into (entries @ [(rng, subnet)]) es)
     }"

definition rt_optimize :: "('c::linorder \<Rightarrow> u64 option) \<Rightarrow> 'c routing_table \<Rightarrow> 'c routing_table option" where
  "rt_optimize into t = map_option bt_collect (optimize_loop into [] t)"

fun rt_is_optimized :: "('c \<Rightarrow> u64 option) \<Rightarrow> ('c canister_id_range \<times> 'c) list \<Rightarrow> bool option" where
  "rt_is_optimized into (e1 # e2 # es) =
     do {
       m \<leftarrow> mergeable into e1 e2;
       (if m then Some False else rt_is_optimized into (e2 # es))
     }"
| "rt_is_optimized into es = Some True"

definition rt_well_formed :: "('c::linorder \<Rightarrow> u64 option) \<Rightarrow> 'c routing_table \<Rightarrow> (well_formed_error + unit) option" where
  "rt_well_formed into t =
     try_bind (Some (rt_validate t)) (\<lambda>_.
       map_option (\<lambda>b. if b then Inr () else Inl RoutingTableNotOptimized) (rt_is_optimized into t))"

definition rt_try_from :: "('c::linorder \<Rightarrow> u64 option) \<Rightarrow> 'c routing_table \<Rightarrow> (well_formed_error + 'c routing_table) option" where
  "rt_try_from into m = try_bind (Some (rt_validate m)) (\<lambda>_. map_option Inr (rt_optimize into m))"

definition rt_insert ::
  "('c::linorder \<Rightarrow> u64 option) \<Rightarrow> 'c canister_id_range \<Rightarrow> 'c \<Rightarrow> 'c routing_table
   \<Rightarrow> (well_formed_error + 'c routing_table) option" where
  "rt_insert into canister_id_range subnet_id t =
     (if r_end canister_id_range < r_start canister_id_range then Some (Inl RoutingTableEmptyRange)
      else if \<not> are_disjoint [canister_id_range] (map fst t) then Some (Inl RoutingTableNotDisjoint)
      else map_option Inr (rt_optimize into (bt_insert canister_id_range subnet_id t)))"

definition CANISTER_IDS_PER_SUBNET :: u64 where
  "CANISTER_IDS_PER_SUBNET = push_bit 20 1"

definition routing_table_insert_subnet ::
  "(u64 \<Rightarrow> 'c::linorder) \<Rightarrow> ('c \<Rightarrow> u64 option) \<Rightarrow> 'c routing_table \<Rightarrow> 'c
   \<Rightarrow> (well_formed_error + 'c routing_table) option" where
  "routing_table_insert_subnet fr into t subnet_id =
     do {
       s \<leftarrow> (if t = [] then Some 0 else do { n \<leftarrow> into (r_end (fst (last t))); add_checked n 1 });
       x \<leftarrow> add_checked s CANISTER_IDS_PER_SUBNET;
       e \<leftarrow> sub_checked x 1;
       rt_insert into (CanisterIdRange (fr s) (fr e)) subnet_id t
     }"

section \<open>Assigning ranges\<close>

definition make_range :: "(u64 \<Rightarrow> 'c) \<Rightarrow> u64 \<Rightarrow> u64 \<Rightarrow> 'c canister_id_range" where
  "make_range fr s e = CanisterIdRange (fr s) (fr e)"

text \<open>The loop over the entries from the left to the right bound: what is to be removed and to be
  added. The guards exclude overflow of \<open>s - 1\<close> and \<open>e + 1\<close>.\<close>

fun assign_scan ::
  "(u64 \<Rightarrow> 'c) \<Rightarrow> ('c \<Rightarrow> u64 option) \<Rightarrow> u64 \<Rightarrow> u64 \<Rightarrow> ('c canister_id_range \<times> 'v) list
   \<Rightarrow> ('c canister_id_range list \<times> ('c canister_id_range \<times> 'v) list) option" where
  "assign_scan fr into s e [] = Some ([], [])"
| "assign_scan fr into s e ((k, v) # es) =
     do {
       k_start \<leftarrow> into (r_start k);
       k_end \<leftarrow> into (r_end k);
       (if k_start < s \<and> s \<le> k_end \<and> k_end \<le> e then
          do {
            (rem, add) \<leftarrow> assign_scan fr into s e es;
            Some (k # rem, (make_range fr k_start (s - 1), v) # add)
          }
        else if s \<le> k_start \<and> k_end \<le> e then
          do {
            (rem, add) \<leftarrow> assign_scan fr into s e es;
            Some (k # rem, add)
          }
        else if k_start < s \<and> e < k_end then
          Some ([k], [(make_range fr k_start (s - 1), v), (make_range fr (e + 1) k_end, v)])
        else if s \<le> k_start \<and> k_start \<le> e \<and> e < k_end then
          Some ([k], [(make_range fr (e + 1) k_end, v)])
        else if k_end < s \<or> e < k_start then assign_scan fr into s e es
        else None)
     }"

definition rt_assign_range ::
  "(u64 \<Rightarrow> 'c::linorder) \<Rightarrow> ('c \<Rightarrow> u64 option) \<Rightarrow> 'c canister_id_range \<Rightarrow> 'c \<Rightarrow> 'c routing_table
   \<Rightarrow> 'c routing_table option" where
  "rt_assign_range fr into rng destination t =
     do {
       s \<leftarrow> into (r_start rng);
       e \<leftarrow> into (r_end rng);
       let left_bound = (case bt_last_le t rng of Some (k, _) \<Rightarrow> k | None \<Rightarrow> rng);
       es \<leftarrow> bt_range t left_bound (make_range fr e (- 1));
       (rem, add) \<leftarrow> assign_scan fr into s e es;
       let t1 = foldl (\<lambda>t k. bt_remove k t) t rem;
       let t2 = foldl (\<lambda>t (k, v). bt_insert k v t) t1 add;
       Some (bt_insert rng destination t2)
     }"

fun rt_assign_all ::
  "(u64 \<Rightarrow> 'c::linorder) \<Rightarrow> ('c \<Rightarrow> u64 option) \<Rightarrow> 'c canister_id_range list \<Rightarrow> 'c \<Rightarrow> 'c routing_table
   \<Rightarrow> 'c routing_table option" where
  "rt_assign_all fr into [] destination t = Some t"
| "rt_assign_all fr into (r # rs) destination t =
     do { t1 \<leftarrow> rt_assign_range fr into r destination t; rt_assign_all fr into rs destination t1 }"

definition rt_assign_ranges ::
  "(u64 \<Rightarrow> 'c::linorder) \<Rightarrow> ('c \<Rightarrow> u64 option) \<Rightarrow> 'c canister_id_range list \<Rightarrow> 'c \<Rightarrow> 'c routing_table
   \<Rightarrow> (well_formed_error + 'c routing_table) option" where
  "rt_assign_ranges fr into ranges destination t =
     try_bind (Some (ranges_well_formed ranges)) (\<lambda>_.
       do {
         t1 \<leftarrow> rt_assign_all fr into ranges destination t;
         t2 \<leftarrow> rt_optimize into t1;
         Some (Inr t2)
       })"

section \<open>Removing subnets and routing\<close>

definition rt_remove_subnet :: "'c \<Rightarrow> 'c routing_table \<Rightarrow> 'c routing_table" where
  "rt_remove_subnet subnet_id_to_remove t = bt_retain (\<lambda>_ subnet_id. subnet_id \<noteq> subnet_id_to_remove) t"

definition rt_lookup_entry ::
  "(u64 \<Rightarrow> 'c::linorder) \<Rightarrow> 'c routing_table \<Rightarrow> 'c \<Rightarrow> ('c canister_id_range \<times> 'c) option option" where
  "rt_lookup_entry fr t canister_id = lookup_in_ranges fr t canister_id"

text \<open>Every principal ID is converted to a canister ID: \<open>CanisterId::try_from\<close> does not fail.\<close>

definition rt_route :: "(u64 \<Rightarrow> 'c::linorder) \<Rightarrow> 'c routing_table \<Rightarrow> 'c \<Rightarrow> 'c option option" where
  "rt_route fr t principal_id =
     (case find (\<lambda>x. x = principal_id) (map snd t) of
        Some subnet_id \<Rightarrow> Some (Some subnet_id)
      | None \<Rightarrow> map_option (map_option snd) (lookup_in_ranges fr t principal_id))"

definition rt_ranges :: "'c routing_table \<Rightarrow> 'c \<Rightarrow> 'c canister_id_range list" where
  "rt_ranges t subnet_id = List.map_filter (\<lambda>(rng, sid). if sid = subnet_id then Some rng else None) t"

section \<open>Canister migrations\<close>

type_synonym 'c canister_migrations = "('c canister_id_range, 'c list) btree"

definition trace_ok :: "'c list \<Rightarrow> bool" where
  "trace_ok trace \<longleftrightarrow> \<not> length trace < 2 \<and> list_all (\<lambda>(a, b). a \<noteq> b) (zip trace (drop 1 trace))"

fun cm_well_formed_from ::
  "'c::linorder option \<Rightarrow> ('c canister_id_range \<times> 'c list) list \<Rightarrow> well_formed_error + unit" where
  "cm_well_formed_from previous_end [] = Inr ()"
| "cm_well_formed_from previous_end ((r, trace) # es) =
     (if r_end r < r_start r then Inl CanisterMigrationsEmptyRange
      else if (case previous_end of Some e \<Rightarrow> r_start r \<le> e | None \<Rightarrow> False) then Inl CanisterMigrationsNotDisjoint
      else if \<not> trace_ok trace then Inl CanisterMigrationsInvalidTrace
      else cm_well_formed_from (Some (r_end r)) es)"

definition cm_well_formed :: "'c::linorder canister_migrations \<Rightarrow> well_formed_error + unit" where
  "cm_well_formed m = cm_well_formed_from None m"

definition cm_try_from :: "'c::linorder canister_migrations \<Rightarrow> well_formed_error + 'c canister_migrations" where
  "cm_try_from m = ok_bind (cm_well_formed m) (\<lambda>_. Inr m)"

definition cm_get :: "'c canister_migrations \<Rightarrow> 'c canister_id_range \<Rightarrow> 'c list option" where
  "cm_get m r = bt_get m r"

definition cm_lookup :: "(u64 \<Rightarrow> 'c::linorder) \<Rightarrow> 'c canister_migrations \<Rightarrow> 'c \<Rightarrow> 'c list option option" where
  "cm_lookup fr m canister_id = map_option (map_option snd) (lookup_in_ranges fr m canister_id)"

definition cm_insert_ranges ::
  "'c::linorder canister_id_range list \<Rightarrow> 'c \<Rightarrow> 'c \<Rightarrow> 'c canister_migrations \<Rightarrow> well_formed_error + 'c canister_migrations" where
  "cm_insert_ranges canister_id_ranges source destination m =
     ok_bind (ranges_well_formed canister_id_ranges) (\<lambda>_.
       if \<not> are_disjoint (map fst m) canister_id_ranges then Inl CanisterMigrationsNotDisjoint
       else Inr (foldl (\<lambda>m r. bt_insert r [source, destination] m) m canister_id_ranges))"

text \<open>The error is a message; here it is a unit.\<close>

definition cm_remove_ranges ::
  "'c::linorder canister_id_range list \<Rightarrow> 'c list \<Rightarrow> 'c canister_migrations \<Rightarrow> unit + 'c canister_migrations" where
  "cm_remove_ranges ranges_to_remove trace m =
     (if \<not> list_all (\<lambda>r. bt_get m r = Some trace) ranges_to_remove then Inl ()
      else Inr (foldl (\<lambda>m r. bt_remove r m) m ranges_to_remove))"

section \<open>Protobuf encoding\<close>

record pb_canister_id_range =
  pb_start_canister_id :: "pb_canister_id option"
  pb_end_canister_id :: "pb_canister_id option"

record pb_routing_table_entry =
  pbrt_range :: "pb_canister_id_range option"
  pbrt_subnet_id :: "pb_canister_id option"

record pb_canister_migrations_entry =
  pbcm_range :: "pb_canister_id_range option"
  pbcm_subnet_ids :: "pb_canister_id list"

definition range_to_pb :: "('c \<Rightarrow> u8 list) \<Rightarrow> 'c canister_id_range \<Rightarrow> pb_canister_id_range" where
  "range_to_pb enc src =
     \<lparr>pb_start_canister_id = Some (canister_id_to_pb enc (r_start src)),
      pb_end_canister_id = Some (canister_id_to_pb enc (r_end src))\<rparr>"

definition range_try_from ::
  "(u8 list \<Rightarrow> 'c option) \<Rightarrow> pb_canister_id_range \<Rightarrow> (proxy_decode_error + 'c canister_id_range) option" where
  "range_try_from dec src =
     try_bind (try_from_option_field (canister_id_try_from dec) (pb_start_canister_id src)
                 ''CanisterIdRange::start_canister_id'') (\<lambda>s.
     try_bind (try_from_option_field (canister_id_try_from dec) (pb_end_canister_id src)
                 ''CanisterIdRange::end_canister_id'') (\<lambda>e.
     Some (Inr (CanisterIdRange s e))))"

text \<open>\<open>From<WellFormedError> for ProxyDecodeError\<close>.\<close>

fun proxy_error :: "well_formed_error + 'a \<Rightarrow> proxy_decode_error + 'a" where
  "proxy_error (Inl e) = Inl (Other ''WellFormedError'')"
| "proxy_error (Inr a) = Inr a"

definition ranges_to_pb :: "('c \<Rightarrow> u8 list) \<Rightarrow> 'c canister_id_range list \<Rightarrow> pb_canister_id_range list" where
  "ranges_to_pb enc src = map (range_to_pb enc) src"

definition ranges_try_from_pb ::
  "(u8 list \<Rightarrow> 'c::linorder option) \<Rightarrow> pb_canister_id_range list \<Rightarrow> (proxy_decode_error + 'c canister_id_range list) option" where
  "ranges_try_from_pb dec src = try_bind (try_map (range_try_from dec) src) (\<lambda>rs. Some (proxy_error (ranges_try_from rs)))"

text \<open>A subnet ID is a principal ID in a field of its own, like a canister ID.\<close>

definition subnet_id_into_protobuf :: "('c \<Rightarrow> u8 list) \<Rightarrow> 'c \<Rightarrow> pb_canister_id" where
  "subnet_id_into_protobuf enc s = Some (enc s)"

definition subnet_id_try_from_protobuf ::
  "(u8 list \<Rightarrow> 'c option) \<Rightarrow> pb_canister_id \<Rightarrow> (proxy_decode_error + 'c) option" where
  "subnet_id_try_from_protobuf dec v =
     (case v of
        None \<Rightarrow> Some (Inl (MissingField ''SubnetId::principal_id''))
      | Some raw \<Rightarrow> (case dec raw of None \<Rightarrow> Some (Inl InvalidPrincipalId) | Some s \<Rightarrow> Some (Inr s)))"

definition rt_to_pb :: "('c \<Rightarrow> u8 list) \<Rightarrow> 'c routing_table \<Rightarrow> pb_routing_table_entry list" where
  "rt_to_pb enc src =
     map (\<lambda>(rng, subnet_id).
       \<lparr>pbrt_range = Some (range_to_pb enc rng), pbrt_subnet_id = Some (subnet_id_into_protobuf enc subnet_id)\<rparr>) src"

text \<open>The insertion that both decoders do for an entry: a second entry for a range is an error.\<close>

definition insert_new ::
  "'k::linorder \<Rightarrow> 'v \<Rightarrow> ('k, 'v) btree \<Rightarrow> (proxy_decode_error + ('k, 'v) btree) option" where
  "insert_new k v m =
     (if bt_contains_key m k then Some (Inl DuplicateEntry) else Some (Inr (bt_insert k v m)))"

fun rt_decode_entries ::
  "(u8 list \<Rightarrow> 'c::linorder option) \<Rightarrow> pb_routing_table_entry list \<Rightarrow> 'c routing_table
   \<Rightarrow> (proxy_decode_error + 'c routing_table) option" where
  "rt_decode_entries dec [] m = Some (Inr m)"
| "rt_decode_entries dec (entry # es) m =
     try_bind (try_from_option_field (range_try_from dec) (pbrt_range entry) ''RoutingTable::Entry::range'') (\<lambda>rng.
     try_bind (try_from_option_field (\<lambda>s. Some (Inr s)) (pbrt_subnet_id entry) ''RoutingTable::Entry::subnet_id'') (\<lambda>s.
     try_bind (subnet_id_try_from_protobuf dec s) (\<lambda>subnet_id.
     try_bind (insert_new rng subnet_id m) (\<lambda>m1.
     rt_decode_entries dec es m1))))"

definition rt_try_from_pb ::
  "('c::linorder \<Rightarrow> u64 option) \<Rightarrow> (u8 list \<Rightarrow> 'c option) \<Rightarrow> pb_routing_table_entry list
   \<Rightarrow> (proxy_decode_error + 'c routing_table) option" where
  "rt_try_from_pb into dec src =
     try_bind (rt_decode_entries dec src []) (\<lambda>m. map_option proxy_error (rt_try_from into m))"

definition cm_to_pb :: "('c \<Rightarrow> u8 list) \<Rightarrow> 'c canister_migrations \<Rightarrow> pb_canister_migrations_entry list" where
  "cm_to_pb enc src =
     map (\<lambda>(rng, subnet_ids).
       \<lparr>pbcm_range = Some (range_to_pb enc rng), pbcm_subnet_ids = map (subnet_id_into_protobuf enc) subnet_ids\<rparr>) src"

fun cm_decode_entries ::
  "(u8 list \<Rightarrow> 'c::linorder option) \<Rightarrow> pb_canister_migrations_entry list \<Rightarrow> 'c canister_migrations
   \<Rightarrow> (proxy_decode_error + 'c canister_migrations) option" where
  "cm_decode_entries dec [] m = Some (Inr m)"
| "cm_decode_entries dec (entry # es) m =
     try_bind (try_from_option_field (range_try_from dec) (pbcm_range entry) ''CanisterMigrations::Entry::range'') (\<lambda>rng.
     try_bind (try_map (subnet_id_try_from_protobuf dec) (pbcm_subnet_ids entry)) (\<lambda>subnet_ids.
     try_bind (insert_new rng subnet_ids m) (\<lambda>m1.
     cm_decode_entries dec es m1)))"

definition cm_try_from_pb ::
  "(u8 list \<Rightarrow> 'c::linorder option) \<Rightarrow> pb_canister_migrations_entry list \<Rightarrow> (proxy_decode_error + 'c canister_migrations) option" where
  "cm_try_from_pb dec src = try_bind (cm_decode_entries dec src []) (\<lambda>m. Some (proxy_error (cm_try_from m)))"

end
