(* ===== verification/RoutingTable_Correct.thy ===== *)
theory RoutingTable_Correct
  imports RoutingTable
begin

text \<open>
  Correctness of ranges and routing tables: the checks of well-formedness mean that ranges are not empty,
  ascending and disjoint; lookup, comparison, intersection and difference of such lists are those of
  the sets of IDs they stand for; the operations on routing tables keep tables well-formed and change
  the assignment of IDs to subnets as documented.
\<close>

section \<open>Well-formed lists of ranges\<close>

definition nonempty :: "'c::linorder canister_id_range \<Rightarrow> bool" where
  "nonempty r \<longleftrightarrow> r_start r \<le> r_end r"

definition ascending :: "'c::linorder canister_id_range list \<Rightarrow> bool" where
  "ascending rs \<longleftrightarrow> sorted_wrt (\<lambda>r s. r_end r < r_start s) rs \<and> list_all nonempty rs"

lemma ascending_Nil [simp]: "ascending []"
  by (simp add: ascending_def)

lemma ascending_Cons:
  "ascending (r # rs) \<longleftrightarrow> nonempty r \<and> ascending rs \<and> (\<forall>s \<in> set rs. r_end r < r_start s)"
  by (auto simp: ascending_def)

lemma ascending_append:
  "ascending (rs @ ss) \<longleftrightarrow> ascending rs \<and> ascending ss \<and> (\<forall>r \<in> set rs. \<forall>s \<in> set ss. r_end r < r_start s)"
  by (auto simp: ascending_def sorted_wrt_append)

lemma ascending_filter: "ascending rs \<Longrightarrow> ascending (filter P rs)"
  by (auto simp: ascending_def sorted_wrt_filter list_all_iff)

lemma ascending_later:
  assumes "ascending (r # rs)" and "s \<in> set rs"
  shows "r_end r < r_start s" "r_start s \<le> r_end s"
  using assms by (auto simp: ascending_def nonempty_def list_all_iff)

definition after_previous :: "'c::linorder option \<Rightarrow> 'c canister_id_range list \<Rightarrow> bool" where
  "after_previous previous rs \<longleftrightarrow> (\<forall>e. previous = Some e \<longrightarrow> (\<forall>r \<in> set rs. e < r_start r))"

lemma after_previous_Cons:
  assumes "nonempty r" and "after_previous (Some (r_end r)) rs"
  shows "after_previous previous (r # rs) \<longleftrightarrow> (case previous of Some e \<Rightarrow> e < r_start r | None \<Rightarrow> True)"
  using assms by (auto simp: after_previous_def nonempty_def split: option.split)

lemma ranges_well_formed_from_iff:
  "ranges_well_formed_from previous rs = Inr () \<longleftrightarrow> ascending rs \<and> after_previous previous rs"
proof (induction previous rs rule: ranges_well_formed_from.induct)
  case (2 previous r rs)
  show ?case
    using 2 after_previous_Cons [of r rs previous]
    by (auto simp: ascending_Cons nonempty_def not_le not_less after_previous_def split: option.splits)
qed (simp add: after_previous_def)

lemma ranges_well_formed_iff: "ranges_well_formed rs = Inr () \<longleftrightarrow> ascending rs"
  by (simp add: ranges_well_formed_def ranges_well_formed_from_iff after_previous_def)

lemma rt_validate_from_iff:
  "rt_validate_from previous rs = Inr () \<longleftrightarrow> ranges_well_formed_from previous rs = Inr ()"
  by (induction previous rs rule: rt_validate_from.induct) simp_all

lemma rt_validate_iff: "rt_validate t = Inr () \<longleftrightarrow> ascending (map fst t)"
  by (simp add: rt_validate_def rt_validate_from_iff ranges_well_formed_from_iff after_previous_def)

lemma cm_well_formed_from_iff:
  "cm_well_formed_from previous es = Inr () \<longleftrightarrow>
    ranges_well_formed_from previous (map fst es) = Inr () \<and> list_all (\<lambda>(_, trace). trace_ok trace) es"
  by (induction previous es rule: cm_well_formed_from.induct) auto

lemma cm_well_formed_iff:
  "cm_well_formed m = Inr () \<longleftrightarrow> ascending (map fst m) \<and> list_all (\<lambda>(_, trace). trace_ok trace) m"
  by (simp add: cm_well_formed_def cm_well_formed_from_iff ranges_well_formed_from_iff after_previous_def)

lemma range_less_iff:
  assumes "nonempty r" and "nonempty s" and "r_end r < r_start s \<or> r_end s < r_start r"
  shows "r < s \<longleftrightarrow> r_end r < r_start s"
  using assms by (auto simp: nonempty_def less_canister_id_range_def)

lemma ascending_sorted: "ascending rs \<Longrightarrow> sorted_wrt (<) rs"
proof (induction rs)
  case (Cons r rs)
  then show ?case by (auto simp: ascending_Cons nonempty_def less_canister_id_range_def)
qed simp

lemma ascending_bt_wf: "ascending (map fst t) \<Longrightarrow> bt_wf t"
  by (simp add: bt_wf_def ascending_sorted)

lemma ranges_try_from_ascending: "ascending rs \<Longrightarrow> ranges_try_from rs = Inr rs"
  using ascending_sorted [of rs] ranges_well_formed_iff [of rs]
  by (simp add: ranges_try_from_def sorted_sort_id strict_sorted_iff)

lemma ranges_try_from_Inr: "ranges_try_from rs = Inr rs' \<Longrightarrow> ascending rs' \<and> set rs' = set rs"
  by (cases "ranges_well_formed (sort rs)") (auto simp: ranges_try_from_def Let_def ranges_well_formed_iff [symmetric])

text \<open>The IDs in a list of ranges.\<close>

definition in_ranges :: "'c::linorder canister_id_range list \<Rightarrow> 'c \<Rightarrow> bool" where
  "in_ranges rs c \<longleftrightarrow> (\<exists>r \<in> set rs. range_contains r c)"

lemma in_ranges_simps [simp]:
  "in_ranges [] c \<longleftrightarrow> False"
  "in_ranges (r # rs) c \<longleftrightarrow> range_contains r c \<or> in_ranges rs c"
  "in_ranges (rs @ ss) c \<longleftrightarrow> in_ranges rs c \<or> in_ranges ss c"
  by (auto simp: in_ranges_def)

lemma not_in_later:
  assumes "ascending (r # rs)" and "c \<le> r_end r"
  shows "\<not> in_ranges rs c"
  using assms by (fastforce simp: ascending_Cons in_ranges_def range_contains_def)

section \<open>Operations on lists of ranges\<close>

lemma bt_last_le_append:
  "bt_last_le (m @ [e]) b = (if fst e \<le> b then Some e else bt_last_le m b)"
proof -
  have "bt_last_le m b = (if filter (\<lambda>e. fst e \<le> b) m = [] then None else Some (last (filter (\<lambda>e. fst e \<le> b) m)))"
    for m :: "('a, 'b) btree"
    by (simp add: bt_last_le_def split: list.split)
  then show ?thesis by simp
qed

lemma find_append: "find P (xs @ ys) = (case find P xs of None \<Rightarrow> find P ys | Some x \<Rightarrow> Some x)"
  by (induction xs) simp_all

text \<open>The entry found is the one that contains the ID, if any.\<close>

lemma lookup_in_ranges_find:
  assumes "ascending (map fst m)" and "\<forall>e \<in> set m. r_end (fst e) \<le> fr (- 1)"
  shows "lookup_in_ranges fr m c = Some (find (\<lambda>e. range_contains (fst e) c) m)"
  using assms
proof (induction m rule: rev_induct)
  case (snoc e m)
  obtain r v where e: "e = (r, v)" by (cases e)
  have IH: "lookup_in_ranges fr m c = Some (find (\<lambda>e. range_contains (fst e) c) m)"
    using snoc by (simp add: ascending_append)
  have le: "r \<le> CanisterIdRange c (fr (- 1)) \<longleftrightarrow> r_start r \<le> c"
    using snoc.prems(2) by (auto simp: e less_eq_canister_id_range_def)
  show ?case
  proof (cases "r_start r \<le> c")
    case True
    have "find (\<lambda>e. range_contains (fst e) c) m = None"
      using snoc.prems(1) True by (force simp: e find_None_iff ascending_append range_contains_def)
    then show ?thesis using True by (simp add: lookup_in_ranges_def bt_last_le_append e le find_append range_contains_def)
  next
    case False
    then have "find (\<lambda>e. range_contains (fst e) c) (m @ [e]) = find (\<lambda>e. range_contains (fst e) c) m"
      by (simp add: find_append e range_contains_def split: option.split)
    then show ?thesis using IH False by (simp add: lookup_in_ranges_def bt_last_le_append e le)
  qed
qed (simp add: lookup_in_ranges_def bt_last_le_def)

definition overlap :: "'c::linorder canister_id_range \<Rightarrow> 'c canister_id_range \<Rightarrow> bool" where
  "overlap r s \<longleftrightarrow> r_start r \<le> r_end s \<and> r_start s \<le> r_end r"

lemma overlap_sym: "overlap r s \<longleftrightarrow> overlap s r"
  by (auto simp: overlap_def)

lemma overlap_iff: "nonempty r \<Longrightarrow> nonempty s \<Longrightarrow> overlap r s \<longleftrightarrow> (\<exists>c. range_contains r c \<and> range_contains s c)"
  unfolding overlap_def nonempty_def range_contains_def
  by (meson linear order_trans)

lemma are_disjoint_iff:
  "ascending ls \<Longrightarrow> ascending rs \<Longrightarrow>
    are_disjoint ls rs \<longleftrightarrow> (\<forall>l \<in> set ls. \<forall>r \<in> set rs. \<not> overlap l r)"
proof (induction ls rs rule: are_disjoint.induct)
  case (1 l ls r rs)
  note later = ascending_later [OF 1(3)] ascending_later [OF 1(4)]
  have "\<not> overlap l q" if "r_end l < r_start r" "q \<in> set (r # rs)" for q
    using that later(3) [of q] 1(4) by (fastforce simp: overlap_def ascending_Cons nonempty_def)
  moreover have "\<not> overlap q r" if "r_end r < r_start l" "q \<in> set (l # ls)" for q
    using that later(1) [of q] 1(3) by (fastforce simp: overlap_def ascending_Cons nonempty_def)
  moreover have "overlap l r" if "\<not> r_end l < r_start r" "\<not> r_end r < r_start l"
    using that by (simp add: overlap_def not_less)
  ultimately show ?case using 1 by (auto simp: ascending_Cons)
qed simp_all

definition covers :: "'c::linorder canister_id_range \<Rightarrow> 'c canister_id_range \<Rightarrow> bool" where
  "covers r l \<longleftrightarrow> r_start r \<le> r_start l \<and> r_end l \<le> r_end r"

lemma is_subset_of_iff:
  "ascending ls \<Longrightarrow> ascending rs \<Longrightarrow> is_subset_of ls rs \<longleftrightarrow> (\<forall>l \<in> set ls. \<exists>r \<in> set rs. covers r l)"
proof (induction ls arbitrary: rs)
  case (Cons l ls)
  define ts where "ts = takeWhile (\<lambda>r. \<not> covers r l) rs"
  define rs1 where "rs1 = dropWhile (\<lambda>r. \<not> covers r l) rs"
  have rs: "rs = ts @ rs1" by (simp add: ts_def rs1_def)
  have skipped: "\<not> covers r l" if "r \<in> set ts" for r using that by (auto simp: ts_def dest: set_takeWhileD)
  have step: "is_subset_of (l # ls) rs \<longleftrightarrow> rs1 \<noteq> [] \<and> is_subset_of ls rs1"
    by (simp add: rs1_def covers_def [abs_def])
  show ?case
  proof (cases rs1)
    case Nil
    then show ?thesis using step skipped by (auto simp: rs)
  next
    case (Cons r rs')
    have hd: "covers r l" using Cons by (simp add: rs1_def dropWhile_eq_Cons_conv)
    have "\<not> covers q l'" if "q \<in> set ts" "l' \<in> set ls" for q l'
    proof -
      have "r_end q < r_start r" using \<open>ascending rs\<close> that(1) by (simp add: rs Cons ascending_append)
      moreover have "r_start l \<le> r_end l" "r_end l < r_start l'" "r_start l' \<le> r_end l'"
        using \<open>ascending (l # ls)\<close> ascending_later [OF \<open>ascending (l # ls)\<close> that(2)] by (simp_all add: ascending_Cons nonempty_def)
      moreover have "r_start r \<le> r_start l" using hd by (simp add: covers_def)
      ultimately show ?thesis by (auto simp: covers_def)
    qed
    then have "(\<exists>q \<in> set rs. covers q l') \<longleftrightarrow> (\<exists>q \<in> set rs1. covers q l')" if "l' \<in> set ls" for l'
      using that by (auto simp: rs)
    moreover have "is_subset_of ls rs1 \<longleftrightarrow> (\<forall>l \<in> set ls. \<exists>r \<in> set rs1. covers r l)"
      using Cons.prems by (intro Cons.IH) (simp_all add: rs ascending_append ascending_Cons)
    ultimately show ?thesis using step hd by (auto simp: Cons rs)
  qed
qed simp

lemma intersection_loop_within:
  assumes "r \<in> set (intersection_loop ls rs)" and "ascending ls" and "ascending rs"
  shows "nonempty r" and "\<exists>l \<in> set ls. covers l r" and "\<exists>q \<in> set rs. covers q r"
proof -
  have "nonempty r \<and> (\<exists>l \<in> set ls. covers l r) \<and> (\<exists>q \<in> set rs. covers q r)"
    using assms
  proof (induction ls rs rule: intersection_loop.induct)
    case (1 l ls q rs)
    show ?case
      using 1 by (auto simp: Let_def nonempty_def covers_def ascending_Cons split: if_splits)
  qed simp_all
  then show "nonempty r" "\<exists>l \<in> set ls. covers l r" "\<exists>q \<in> set rs. covers q r" by blast+
qed

lemma intersection_loop_ok:
  "ascending ls \<Longrightarrow> ascending rs \<Longrightarrow>
    ascending (intersection_loop ls rs) \<and> (\<forall>c. in_ranges (intersection_loop ls rs) c \<longleftrightarrow> in_ranges ls c \<and> in_ranges rs c)"
proof (induction ls rs rule: intersection_loop.induct)
  case (1 l ls r rs)
  define s where "s = max (r_start l) (r_start r)"
  define e where "e = min (r_end l) (r_end r)"
  define res where "res = (if s \<le> e then [CanisterIdRange s e] else [])"
  define rest where "rest = (if r_end l < r_end r then intersection_loop ls (r # rs) else intersection_loop (l # ls) rs)"
  have eq: "intersection_loop (l # ls) (r # rs) = res @ rest"
    by (simp add: Let_def res_def rest_def s_def e_def)
  have asc: "ascending ls" "ascending rs" using 1(3,4) by (simp_all add: ascending_Cons)
  have IH: "ascending rest" using 1 asc by (simp add: rest_def)
  have "e < r_start q" if q: "q \<in> set rest" for q
  proof (cases "r_end l < r_end r")
    case True
    then obtain l' where "l' \<in> set ls" "covers l' q"
      using q intersection_loop_within(2) [of q ls "r # rs"] asc(1) 1(4) by (auto simp: rest_def)
    then show ?thesis
      using ascending_later(1) [OF 1(3), of l'] by (auto simp: e_def covers_def min_less_iff_disj intro: order.strict_trans2)
  next
    case False
    then obtain r' where "r' \<in> set rs" "covers r' q"
      using q intersection_loop_within(3) [of q "l # ls" rs] asc(2) 1(3) by (auto simp: rest_def)
    then show ?thesis
      using ascending_later(1) [OF 1(4), of r'] by (auto simp: e_def covers_def min_less_iff_disj intro: order.strict_trans2)
  qed
  then have asc_all: "ascending (res @ rest)"
    using IH by (auto simp: ascending_append res_def ascending_Cons nonempty_def)
  have here: "in_ranges res c \<longleftrightarrow> range_contains l c \<and> range_contains r c" for c
    by (auto simp: res_def s_def e_def range_contains_def)
  have "in_ranges rest c \<longleftrightarrow> (if r_end l < r_end r then in_ranges ls c \<and> in_ranges (r # rs) c else in_ranges (l # ls) c \<and> in_ranges rs c)" for c
    using 1 asc by (simp add: rest_def)
  moreover have "\<not> (range_contains l c \<and> in_ranges rs c)" if "r_end l < r_end r" for c
    using not_in_later [OF 1(4), of c] that by (auto simp: range_contains_def)
  moreover have "\<not> (in_ranges ls c \<and> range_contains r c)" if "\<not> r_end l < r_end r" for c
    using not_in_later [OF 1(3), of c] that by (auto simp: range_contains_def not_less intro: order.trans)
  ultimately show ?case using asc_all here by (auto simp: eq simp del: intersection_loop.simps)
qed simp_all

section \<open>The numbering of canister IDs\<close>

text \<open>
  What ranges rely on: a number is recovered from its canister ID, and the order of canister IDs is that
  of their numbers.
\<close>

locale canister_numbering =
  fixes fr :: "u64 \<Rightarrow> 'c::linorder" and into :: "'c \<Rightarrow> u64 option"
  assumes into_fr [simp]: "into (fr n) = Some n"
    and fr_mono: "m < n \<Longrightarrow> fr m < fr n"
begin

lemma fr_less [simp]: "fr m < fr n \<longleftrightarrow> m < n"
  using fr_mono [of m n] fr_mono [of n m] by (cases m n rule: linorder_cases) auto

lemma fr_le [simp]: "fr m \<le> fr n \<longleftrightarrow> m \<le> n"
  by (simp add: not_less [symmetric])

lemma fr_eq [simp]: "fr m = fr n \<longleftrightarrow> m = n"
  using into_fr by (metis option.inject)

end

text \<open>The bytes of canister IDs are an instance, with the lexicographic order of byte strings.\<close>

lemma be_value_Cons: "foldl (\<lambda>a b. 256 * a + unat (b :: u8)) x bs = x * 256 ^ length bs + be_value bs"
proof (induction bs arbitrary: x)
  case (Cons b bs)
  have "foldl (\<lambda>a b. 256 * a + unat b) x (b # bs) = (256 * x + unat b) * 256 ^ length bs + be_value bs"
    using Cons [of "256 * x + unat b"] by simp
  moreover have "be_value (b # bs) = unat b * 256 ^ length bs + be_value bs"
    using Cons [of "unat b"] by (simp add: be_value_def)
  ultimately show ?case by (simp add: algebra_simps)
qed (simp add: be_value_def)

lemma be_value_step: "be_value (b # bs) = unat b * 256 ^ length bs + be_value bs"
  using be_value_Cons [of "unat b" bs] by (simp add: be_value_def)

lemma be_value_bound: "be_value bs < 256 ^ length bs"
proof (induction bs)
  case (Cons b bs)
  have "unat b + 1 \<le> 256" using unsigned_less [of b, where 'a = nat] by simp
  have "be_value (b # bs) < (unat b + 1) * 256 ^ length bs" using Cons by (simp add: be_value_step)
  also have "\<dots> \<le> 256 * 256 ^ length bs" using \<open>unat b + 1 \<le> 256\<close> by (rule mult_le_mono1)
  finally show ?case by simp
qed (simp add: be_value_def)

lemma be_value_less: "length xs = length ys \<Longrightarrow> be_value xs < be_value ys \<Longrightarrow> xs < ys"
proof (induction xs ys rule: list_induct2)
  case (Cons x xs y ys)
  show ?case
  proof (cases x y rule: linorder_cases)
    case greater
    then have "unat y + 1 \<le> unat x" by (simp add: word_less_nat_alt)
    then have "(unat y + 1) * 256 ^ length xs \<le> unat x * 256 ^ length xs" by (rule mult_le_mono1)
    then show ?thesis using Cons.prems Cons.hyps be_value_bound [of ys] by (simp add: be_value_step)
  qed (use Cons in \<open>auto simp: be_value_step\<close>)
qed (simp add: be_value_def)

lemma be_value_to_be_bytes: "be_value (u64_to_be_bytes n) = unat n"
proof -
  define byte where "byte i = (ucast (drop_bit (8 * (7 - i)) n) :: u8)" for i
  have byte: "unat (byte i) = unat n div 256 ^ (7 - i) mod 256" for i
  proof -
    have "unat (drop_bit k n) = unat n div 2 ^ k" for k 
      unfolding unat_drop_bit_eq by (simp only: drop_bit_eq_div)
    then show ?thesis by (simp add: byte_def unsigned_ucast_eq take_bit_eq_mod power_mult)
  qed
  have "be_value (map byte [0..<j]) = unat n div 256 ^ (8 - j)" if "j \<le> 8" for j
    using that
  proof (induction j)
    case 0
    show ?case using unsigned_less [of n, where 'a = nat] by (simp add: be_value_def)
  next
    case (Suc j)
    have "be_value (map byte [0..<Suc j]) = 256 * be_value (map byte [0..<j]) + unat (byte j)"
      by (simp add: be_value_def)
    also have "\<dots> = 256 * (unat n div 256 ^ (7 - j) div 256) + unat n div 256 ^ (7 - j) mod 256"
    proof -
      have "8 - j = Suc (7 - j)" using Suc.prems by simp
      then show ?thesis using Suc by (simp add: byte div_mult2_eq [symmetric] mult.commute)
    qed
    finally show ?case by simp
  qed
  from this [of 8] show ?thesis by (simp add: u64_to_be_bytes_def byte_def [abs_def])
qed

lemma length_to_be_bytes: "length (u64_to_be_bytes n) = 8"
  by (simp add: u64_to_be_bytes_def)

lemma list_less_append: "length xs = length ys \<Longrightarrow> xs < ys \<Longrightarrow> xs @ zs < ys @ zs"
  for xs :: "'a::linorder list"
  by (induction xs ys rule: list_induct2) auto

interpretation cid: canister_numbering canister_id_from_u64 canister_id_into_u64
proof
  show "canister_id_into_u64 (canister_id_from_u64 n) = Some n" for n
    by (simp add: canister_id_into_u64_def canister_id_from_u64_def new_opaque_from_array_def length_to_be_bytes
        u64_from_be_bytes_def be_value_to_be_bytes)
  show "canister_id_from_u64 m < canister_id_from_u64 n" if "m < n" for m n
    using that be_value_less [of "u64_to_be_bytes m" "u64_to_be_bytes n"]
    by (simp add: canister_id_from_u64_def new_opaque_from_array_def length_to_be_bytes be_value_to_be_bytes
        list_less_append word_less_nat_alt)
qed

section \<open>Ranges of numbered IDs\<close>

definition numbered :: "(u64 \<Rightarrow> 'c) \<Rightarrow> 'c canister_id_range \<Rightarrow> bool" where
  "numbered fr r \<longleftrightarrow> (\<exists>s e. r = make_range fr s e)"

lemma make_range_simps [simp]: "r_start (make_range fr s e) = fr s" "r_end (make_range fr s e) = fr e"
  by (simp_all add: make_range_def)

lemma numbered_make_range [simp]: "numbered fr (make_range fr s e)"
  by (auto simp: numbered_def)

lemma word_le_pred: "a < b \<Longrightarrow> x \<le> b - 1 \<longleftrightarrow> x < b" for a b x :: "'a::len word"
  by unat_arith

lemma word_succ_le: "a < b \<Longrightarrow> a + 1 \<le> x \<longleftrightarrow> a < x" for a b x :: "'a::len word"
  by unat_arith

lemma word_succ_checked: "a < b \<Longrightarrow> add_checked a 1 = Some (a + 1)" for a b :: "'a::len word"
proof -
  assume "a < b"
  then have "unat a + 1 \<le> unat b" by (simp add: word_less_nat_alt)
  also have "\<dots> < 2 ^ LENGTH('a)" by (rule unsigned_less)
  finally show ?thesis by (simp add: add_checked_def)
qed

lemma word_pred_checked: "a < b \<Longrightarrow> sub_checked b 1 = Some (b - 1)" for a b :: "'a::len word"
  unfolding sub_checked_def by unat_arith

context canister_numbering
begin

lemma contains_make_range [simp]: "range_contains (make_range fr s e) (fr n) \<longleftrightarrow> s \<le> n \<and> n \<le> e"
  by (simp add: range_contains_def)

lemma nonempty_make_range [simp]: "nonempty (make_range fr s e) \<longleftrightarrow> s \<le> e"
  by (simp add: nonempty_def)

lemma inc_id_fr: "a < b \<Longrightarrow> inc_id fr into (fr a) = Some (fr (a + 1))"
  using word_succ_checked [of a b] by (simp add: inc_id_def)

lemma dec_id_fr: "a < b \<Longrightarrow> dec_id fr into (fr b) = Some (fr (b - 1))"
  using word_pred_checked [of a b] by (simp add: dec_id_def)

text \<open>
  What the inner loop of \<open>difference\<close> gives for the range from \<open>s\<close> to \<open>e\<close>: its part outside of the ranges \<open>rs\<close>, and
  the rest of \<open>rs\<close> that still matters beyond \<open>e\<close>.
\<close>

definition difference_spec ::
  "u64 \<Rightarrow> u64 \<Rightarrow> 'c canister_id_range list \<Rightarrow> 'c canister_id_range list \<Rightarrow> 'c canister_id_range list \<Rightarrow> bool" where
  "difference_spec s e rs res rs1 \<longleftrightarrow>
     ascending res \<and> list_all (numbered fr) res \<and> (\<forall>r \<in> set res. fr s \<le> r_start r \<and> r_end r \<le> fr e) \<and>
     (\<forall>n. in_ranges res (fr n) \<longleftrightarrow> s \<le> n \<and> n \<le> e \<and> \<not> in_ranges rs (fr n)) \<and>
     ascending rs1 \<and> list_all (numbered fr) rs1 \<and> (\<forall>n > e. in_ranges rs1 (fr n) \<longleftrightarrow> in_ranges rs (fr n))"

definition prefix_before :: "u64 \<Rightarrow> u64 \<Rightarrow> 'c canister_id_range list" where
  "prefix_before s a = (if s < a then [make_range fr s (a - 1)] else [])"

lemma prefix_before_in: "in_ranges (prefix_before s a) (fr n) \<longleftrightarrow> s \<le> n \<and> n < a"
  using word_le_pred [of s a n] by (auto simp: prefix_before_def)

lemma prefix_before_ok:
  shows "ascending (prefix_before s a)" and "list_all (numbered fr) (prefix_before s a)"
    and "r \<in> set (prefix_before s a) \<Longrightarrow> fr s \<le> r_start r \<and> r_end r < fr a"
  using word_le_pred [of s a s] word_le_pred [of s a "a - 1"] by (auto simp: prefix_before_def ascending_Cons split: if_splits)

lemma difference_spec_skip:
  assumes "difference_spec s e rs res rs1" and "b < s" and "s \<le> e"
  shows "difference_spec s e (make_range fr a b # rs) res rs1"
  using assms by (auto simp: difference_spec_def)

lemma difference_spec_before:
  assumes "ascending rs" and "list_all (numbered fr) rs" and "s \<le> e" and "\<forall>n \<le> e. \<not> in_ranges rs (fr n)"
  shows "difference_spec s e rs [make_range fr s e] rs"
  using assms by (auto simp: difference_spec_def ascending_Cons)

lemma difference_spec_inside:
  assumes "ascending (make_range fr a b # rs)" and "list_all (numbered fr) rs" and "s \<le> b" and "a \<le> e" and "e \<le> b"
    and "\<forall>n \<le> b. \<not> in_ranges rs (fr n)"
  shows "difference_spec s e (make_range fr a b # rs) (prefix_before s a) (make_range fr a b # rs)"
proof -
  have "r_end r \<le> fr e" if "r \<in> set (prefix_before s a)" for r
    using prefix_before_ok(3) [OF that] assms(4) by (meson fr_le less_imp_le order.trans)
  then show ?thesis
    using assms prefix_before_ok(1,2) [of s a] prefix_before_ok(3) [of _ s a] prefix_before_in [of s a] unfolding difference_spec_def
    by (intro conjI ballI allI iffI) (auto simp: not_le)
qed

lemma difference_spec_beyond:
  assumes "difference_spec (b + 1) e rs res rs1" and "s \<le> b" and "a \<le> b" and "b < e"
    and "\<forall>n \<le> b. \<not> in_ranges rs (fr n)"
  shows "difference_spec s e (make_range fr a b # rs) (prefix_before s a @ res) rs1"
proof -
  have le: "b + 1 \<le> n \<longleftrightarrow> b < n" for n using word_succ_le [OF assms(4)] .
  have start: "fr b < r_start r" if "r \<in> set res" for r
    using that assms(1) le [of "b + 1"] by (auto simp: difference_spec_def intro: order.strict_trans2 [of "fr b" "fr (b + 1)"])
  have pre: "fr s \<le> r_start r \<and> r_end r \<le> fr e \<and> r_end r < fr b" if "r \<in> set (prefix_before s a)" for r
    using prefix_before_ok(3) [OF that] assms(3,4) by (meson fr_le fr_less less_imp_le order.strict_trans2 order.trans)
  have "r_end r < r_start q" if "r \<in> set (prefix_before s a)" "q \<in> set res" for r q
    using pre [OF that(1)] start [OF that(2)] by (meson order.strict_trans)
  then have "ascending (prefix_before s a @ res)"
    using prefix_before_ok(1) assms(1) by (simp add: ascending_append difference_spec_def)
  moreover have "fr s \<le> r_start r \<and> r_end r \<le> fr e" if "r \<in> set (prefix_before s a @ res)" for r
    using that pre start assms(1,2) by (auto simp: difference_spec_def) (meson fr_le less_imp_le order.trans)
  ultimately show ?thesis
    using assms prefix_before_ok(2) [of s a] by (auto simp: difference_spec_def prefix_before_in le not_le)
qed

end

context canister_numbering
begin

lemma difference_right_step:
  "difference_right fr into (fr s) (fr e) (make_range fr a b # rs) =
    (if b < s then difference_right fr into (fr s) (fr e) rs
     else if e < a then Some ([make_range fr s e], make_range fr a b # rs)
     else if e \<le> b then Some (prefix_before s a, make_range fr a b # rs)
     else map_option (\<lambda>(res, rs1). (prefix_before s a @ res, rs1)) (difference_right fr into (fr (b + 1)) (fr e) rs))"
proof -
  have pre: "(if fr s < fr a then do { d \<leftarrow> dec_id fr into (fr a); Some [CanisterIdRange (fr s) d] } else Some []) =
      Some (prefix_before s a)"
    using dec_id_fr [of s a] by (simp add: prefix_before_def make_range_def)
  have inc: "inc_id fr into (fr b) = Some (fr (b + 1))" if "\<not> e \<le> b"
    using inc_id_fr [of b e] that by simp
  show ?thesis
    unfolding difference_right.simps make_range_simps pre
    by (simp add: inc make_range_def [symmetric] map_option_case split: option.split)
qed

lemma difference_right_ok:
  "ascending rs \<Longrightarrow> list_all (numbered fr) rs \<Longrightarrow> s \<le> e \<Longrightarrow>
    \<exists>res rs1. difference_right fr into (fr s) (fr e) rs = Some (res, rs1) \<and> difference_spec s e rs res rs1"
proof (induction rs arbitrary: s)
  case Nil
  then show ?case using difference_spec_before [of "[]" s e] by (simp add: make_range_def)
next
  case (Cons r rs)
  obtain a b where r: "r = make_range fr a b" using Cons.prems(2) by (auto simp: numbered_def)
  have ab: "a \<le> b" and rs: "ascending rs" "list_all (numbered fr) rs" using Cons.prems by (simp_all add: r ascending_Cons)
  have later: "\<forall>n \<le> b. \<not> in_ranges rs (fr n)" using not_in_later [OF Cons.prems(1)] by (simp add: r)
  note step = difference_right_step [of s e a b rs]
  consider "b < s" | "\<not> b < s" "e < a" | "\<not> b < s" "\<not> e < a" "e \<le> b" | "\<not> b < s" "\<not> e < a" "\<not> e \<le> b" by blast
  then show ?case
  proof cases
    case 1
    then show ?thesis
      using Cons.IH [OF rs Cons.prems(3)] difference_spec_skip [of s e rs _ _ b a] Cons.prems(3) unfolding r step by auto
  next
    case 2
    then have "\<forall>n \<le> e. \<not> in_ranges (r # rs) (fr n)" using later ab by (auto simp: r)
    then show ?thesis using 2 difference_spec_before [OF Cons.prems(1,2,3)] unfolding r step by simp
  next
    case 3
    then have "difference_spec s e (make_range fr a b # rs) (prefix_before s a) (make_range fr a b # rs)"
      using Cons.prems later by (intro difference_spec_inside) (simp_all add: r not_less)
    then show ?thesis using 3 unfolding r step by simp
  next
    case 4
    then have be: "b < e" and sb: "s \<le> b" by simp_all
    obtain res rs1 where IH: "difference_right fr into (fr (b + 1)) (fr e) rs = Some (res, rs1)" "difference_spec (b + 1) e rs res rs1"
      using Cons.IH [OF rs, of "b + 1"] word_succ_le [OF be, of e] be by auto
    then show ?thesis using 4 difference_spec_beyond [OF IH(2) sb ab be later] unfolding r step by simp
  qed
qed

lemma difference_loop_ok:
  "ascending ls \<Longrightarrow> list_all (numbered fr) ls \<Longrightarrow> ascending rs \<Longrightarrow> list_all (numbered fr) rs \<Longrightarrow>
    \<exists>res. difference_loop fr into ls rs = Some res \<and> ascending res \<and> list_all (numbered fr) res \<and>
      (\<forall>q \<in> set res. \<exists>l \<in> set ls. r_start l \<le> r_start q) \<and>
      (\<forall>n. in_ranges res (fr n) \<longleftrightarrow> in_ranges ls (fr n) \<and> \<not> in_ranges rs (fr n))"
proof (induction ls arbitrary: rs)
  case (Cons l ls)
  obtain a b where l: "l = make_range fr a b" using Cons.prems(2) by (auto simp: numbered_def)
  have ls: "ascending ls" "list_all (numbered fr) ls" "a \<le> b" using Cons.prems by (simp_all add: l ascending_Cons)
  obtain res1 rs1 where 1: "difference_right fr into (fr a) (fr b) rs = Some (res1, rs1)" "difference_spec a b rs res1 rs1"
    using difference_right_ok [OF Cons.prems(3,4) ls(3)] by blast
  obtain res2 where 2: "difference_loop fr into ls rs1 = Some res2" "ascending res2" "list_all (numbered fr) res2"
      "\<forall>q \<in> set res2. \<exists>l \<in> set ls. r_start l \<le> r_start q"
      "\<forall>n. in_ranges res2 (fr n) \<longleftrightarrow> in_ranges ls (fr n) \<and> \<not> in_ranges rs1 (fr n)"
    using Cons.IH [OF ls(1,2), of rs1] 1(2) by (auto simp: difference_spec_def)
  have beyond: "n > b" if "in_ranges ls (fr n)" for n
    using that not_in_later [OF Cons.prems(1), of "fr n"] by (fastforce simp: l)
  have order: "fr b < r_start q" if q: "q \<in> set res2" for q
  proof -
    obtain l' where l': "l' \<in> set ls" "r_start l' \<le> r_start q" using 2(4) q by blast
    then show ?thesis using ascending_later(1) [OF Cons.prems(1) l'(1)] by (simp add: l)
  qed
  have "r_end q1 < r_start q2" if "q1 \<in> set res1" "q2 \<in> set res2" for q1 q2
    using 1(2) that(1) order [OF that(2)] by (auto simp: difference_spec_def)
  then have asc: "ascending (res1 @ res2)" using 1(2) 2(2) by (simp add: ascending_append difference_spec_def)
  have "\<exists>l' \<in> set (l # ls). r_start l' \<le> r_start q" if "q \<in> set (res1 @ res2)" for q
    using that 1(2) 2(4) by (auto simp: l difference_spec_def)
  moreover have "in_ranges (res1 @ res2) (fr n) \<longleftrightarrow> in_ranges (l # ls) (fr n) \<and> \<not> in_ranges rs (fr n)" for n
    using 1(2) 2(5) beyond [of n] by (auto simp: l difference_spec_def)
  moreover have "difference_loop fr into (l # ls) rs = Some (res1 @ res2)" using 1(1) 2(1) by (simp add: l)
  ultimately show ?case
    using asc 1(2) 2(3) by (intro exI [of _ "res1 @ res2"]) (simp add: difference_spec_def)
qed simp

end

section \<open>Counting and generating IDs\<close>

context canister_numbering
begin

definition ids :: "'c canister_id_range list \<Rightarrow> u64 set" where
  "ids rs = {n. in_ranges rs (fr n)}"

lemma ids_Cons: "ids (make_range fr a b # rs) = {a..b} \<union> ids rs"
  by (auto simp: ids_def)

lemma ids_later:
  assumes "ascending (make_range fr a b # rs)" and "n \<in> ids rs"
  shows "b < n"
  using assms not_in_later [OF assms(1), of "fr n"] by (fastforce simp: ids_def)

lemma finite_u64: "finite (S :: u64 set)"
  by (rule finite_subset [of _ UNIV]) simp_all

lemma card_interval: "a \<le> b \<Longrightarrow> card {a..b :: u64} = Suc (unat b - unat a)"
proof -
  assume "a \<le> b"
  have "unat ` {a..b} = {unat a..unat b}"
  proof (intro equalityI subsetI)
    fix x
    assume x: "x \<in> {unat a..unat b}"
    have "x < 2 ^ 64" using x unsigned_less [of b, where 'a = nat] by simp
    then have "unat (of_nat x :: u64) = x" using unat_of_nat_small [of x, where 'a = 64] by simp
    then show "x \<in> unat ` {a..b}" using x by (intro image_eqI [of _ _ "of_nat x"]) (simp_all add: word_le_nat_alt)
  qed (auto simp: word_le_nat_alt)
  moreover have "inj_on unat {a..b}" by (auto intro: inj_onI word_eq_unatI)
  ultimately have "card {a..b} = card {unat a..unat b}" by (metis card_image)
  then show ?thesis using \<open>a \<le> b\<close> by (simp add: word_le_nat_alt)
qed

lemma card_ids_Cons:
  assumes "ascending (make_range fr a b # rs)"
  shows "card (ids (make_range fr a b # rs)) = Suc (unat b - unat a) + card (ids rs)"
proof -
  have "{a..b} \<inter> ids rs = {}" using ids_later [OF assms] by fastforce
  moreover have "a \<le> b" using assms by (simp add: ascending_Cons)
  ultimately show ?thesis by (simp add: ids_Cons card_Un_disjoint finite_u64 card_interval)
qed

lemma card_ids: "card (ids rs) \<le> 2 ^ 64"
proof -
  have "card (ids rs) \<le> card (UNIV :: u64 set)" by (rule card_mono) (simp_all add: finite_u64)
  then show ?thesis by (simp add: card_word)
qed

lemma unat_ucast_u128: "unat (ucast x :: u128) = unat x" for x :: u64
proof -
  have "unat x < 2 ^ 128" using unsigned_less [of x, where 'a = nat] by (rule less_le_trans) simp
  then show ?thesis by (simp add: unsigned_ucast_eq take_bit_nat_eq_self)
qed

lemma range_len_fr:
  assumes "a \<le> b"
  shows "range_len into (make_range fr a b) = Some (of_nat (Suc (unat b - unat a)))"
    and "unat (of_nat (Suc (unat b - unat a)) :: u128) = Suc (unat b - unat a)"
proof -
  have b: "unat b < 2 ^ 64" using unsigned_less [of b, where 'a = nat] by simp
  note ucast = unat_ucast_u128
  show len: "unat (of_nat (Suc (unat b - unat a)) :: u128) = Suc (unat b - unat a)"
    using b unat_of_nat_small [of "Suc (unat b - unat a)", where 'a = 128] by (simp del: of_nat_Suc)
  have add: "add_checked 1 (ucast b :: u128) = Some (1 + ucast b)" using b by (simp add: add_checked_def ucast)
  then have "unat (1 + ucast b :: u128) = 1 + unat b" using add_checked_Some [OF add] by (simp add: ucast)
  moreover from this have "(ucast a :: u128) \<le> 1 + ucast b" using assms by (simp add: word_le_nat_alt ucast)
  ultimately have "1 + ucast b - ucast a = (of_nat (Suc (unat b - unat a)) :: u128)"
    using assms len by (intro word_eq_unatI) (simp add: unat_sub ucast word_le_nat_alt del: of_nat_Suc)
  then show "range_len into (make_range fr a b) = Some (of_nat (Suc (unat b - unat a)))"
    using add \<open>ucast a \<le> 1 + ucast b\<close> by (simp add: range_len_def canister_id_into_u128_def sub_checked_def del: of_nat_Suc)
qed

lemma total_count_from_ok:
  "ascending rs \<Longrightarrow> list_all (numbered fr) rs \<Longrightarrow> unat acc + card (ids rs) < 2 ^ 128 \<Longrightarrow>
    \<exists>total. total_count_from into acc rs = Some total \<and> unat total = unat acc + card (ids rs)"
proof (induction rs arbitrary: acc)
  case (Cons r rs)
  obtain a b where r: "r = make_range fr a b" using Cons.prems(2) by (auto simp: numbered_def)
  have ab: "a \<le> b" and rs: "ascending rs" "list_all (numbered fr) rs" using Cons.prems by (simp_all add: r ascending_Cons)
  note len = range_len_fr [OF ab] and card = card_ids_Cons [OF Cons.prems(1) [unfolded r]]
  have add: "add_checked acc (of_nat (Suc (unat b - unat a))) = Some (acc + of_nat (Suc (unat b - unat a)))"
    using Cons.prems(3) by (simp add: add_checked_def len(2) card r del: of_nat_Suc)
  then show ?case
    using Cons.IH [OF rs, of "acc + of_nat (Suc (unat b - unat a))"] add_checked_Some [OF add] Cons.prems(3)
    by (simp add: r len card add.assoc del: of_nat_Suc)
qed (simp add: ids_def)

end

context canister_numbering
begin

lemma card_below:
  assumes "a \<le> n"
  shows "card {a..<n :: u64} = unat n - unat a"
proof -
  have "{a..n} = insert n {a..<n}" using assms by auto
  then show ?thesis using card_interval [OF assms] finite_u64 by simp
qed

lemma total_count_ok:
  assumes "ascending rs" and "list_all (numbered fr) rs"
  shows "\<exists>total. total_count into rs = Some total \<and> unat total = card (ids rs)"
proof -
  have "unat (0 :: u128) + card (ids rs) < 2 ^ 128" using card_ids [of rs] by simp
  then show ?thesis using total_count_from_ok [OF assms, of 0] by (simp add: total_count_def)
qed

lemma locate_loop_ok:
  "ascending rs \<Longrightarrow> list_all (numbered fr) rs \<Longrightarrow> unat loc < card (ids rs) \<Longrightarrow>
    \<exists>n. locate_loop fr into rs loc = Some (fr n) \<and> n \<in> ids rs \<and> card {m \<in> ids rs. m < n} = unat loc"
proof (induction rs arbitrary: loc)
  case (Cons r rs)
  obtain a b where r: "r = make_range fr a b" using Cons.prems(2) by (auto simp: numbered_def)
  have ab: "a \<le> b" and rs: "ascending rs" "list_all (numbered fr) rs" using Cons.prems by (simp_all add: r ascending_Cons)
  note later = ids_later [OF Cons.prems(1) [unfolded r]]
  let ?len = "of_nat (Suc (unat b - unat a)) :: u128"
  note len = range_len_fr [OF ab] and card = card_ids_Cons [OF Cons.prems(1) [unfolded r]]
  show ?case
  proof (cases "loc < ?len")
    case True
    then have loc: "unat loc \<le> unat b - unat a" using len(2) by (simp add: word_less_nat_alt del: of_nat_Suc)
    then have small: "unat a + unat loc \<le> unat b" using ab by (simp add: word_le_nat_alt)
    have "unat b < 2 ^ 64" using unsigned_less [of b, where 'a = nat] by simp
    then have ucast: "unat (ucast loc :: u64) = unat loc"
      using small by (simp add: unsigned_ucast_eq take_bit_nat_eq_self)
    then have add: "add_checked a (ucast loc) = Some (a + ucast loc)"
      using small \<open>unat b < 2 ^ 64\<close> by (simp add: add_checked_def)
    define n where "n = a + ucast loc"
    have n: "unat n = unat a + unat loc" using add_checked_Some [OF add] ucast by (simp add: n_def)
    then have an: "a \<le> n" "n \<le> b" using small by (simp_all add: word_le_nat_alt)
    have "{m \<in> ids (r # rs). m < n} = {a..<n}" using an later by (fastforce simp: r ids_Cons)
    then have "card {m \<in> ids (r # rs). m < n} = unat loc" using card_below [OF an(1)] n by simp
    then show ?thesis using True add an len(1) by (intro exI [of _ n]) (simp add: r ids_Cons n_def)
  next
    case False
    then have ge: "Suc (unat b - unat a) \<le> unat loc" using len(2) by (simp add: word_less_nat_alt del: of_nat_Suc)
    then have rest: "unat (loc - ?len) = unat loc - Suc (unat b - unat a)"
      using len(2) by (simp add: unat_sub word_le_nat_alt del: of_nat_Suc)
    then have "unat (loc - ?len) < card (ids rs)" using Cons.prems(3) ge card by (simp add: r del: of_nat_Suc)
    then obtain n where n: "locate_loop fr into rs (loc - ?len) = Some (fr n)" "n \<in> ids rs"
        "card {m \<in> ids rs. m < n} = unat loc - Suc (unat b - unat a)"
      using Cons.IH [OF rs, of "loc - ?len"] rest by (auto simp del: of_nat_Suc)
    have "{m \<in> ids (r # rs). m < n} = {a..b} \<union> {m \<in> ids rs. m < n}" using later [OF n(2)] by (auto simp: r ids_Cons)
    moreover have "{a..b} \<inter> {m \<in> ids rs. m < n} = {}" using later by fastforce
    ultimately have "card {m \<in> ids (r # rs). m < n} = unat loc"
      using n(3) ge by (simp add: card_Un_disjoint finite_u64 card_interval [OF ab])
    then show ?thesis using False len(1) n(1,2) by (intro exI [of _ n]) (simp add: r ids_Cons del: of_nat_Suc)
  qed
qed (simp add: ids_def)

lemma locate_ok:
  assumes "ascending rs" and "list_all (numbered fr) rs" and "total_count into rs = Some k"
  shows "if unat loc < unat k
    then \<exists>n. locate fr into rs loc = Some (fr n) \<and> n \<in> ids rs \<and> card {m \<in> ids rs. m < n} = unat loc
    else locate fr into rs loc = None"
proof -
  have ucast: "unat (ucast loc :: u128) = unat loc" by (rule unat_ucast_u128)
  have "unat k = card (ids rs)" using total_count_ok [OF assms(1,2)] assms(3) by simp
  then show ?thesis
    using locate_loop_ok [OF assms(1,2), of "ucast loc"] assms(3) by (simp add: locate_def word_less_nat_alt ucast)
qed

lemma range_generate_fr:
  "range_generate_canister_id fr into (make_range fr a b) (Some (fr p)) =
    Some (if p < a then Some (fr a) else if b \<le> p then None else Some (fr (p + 1)))"
proof -
  have "add_checked p 1 = Some (p + 1)" if "\<not> b \<le> p" using word_succ_checked [of p b] that by simp
  then show ?thesis by (simp add: range_generate_canister_id_def)
qed

definition is_next :: "u64 set \<Rightarrow> u64 \<Rightarrow> u64 option \<Rightarrow> bool" where
  "is_next S p res \<longleftrightarrow>
     (case res of None \<Rightarrow> \<forall>n \<in> S. n \<le> p | Some n \<Rightarrow> n \<in> S \<and> p < n \<and> (\<forall>m \<in> S. p < m \<longrightarrow> n \<le> m))"

lemma is_next_skip: "\<forall>n \<in> T. n \<le> p \<Longrightarrow> is_next S p res \<Longrightarrow> is_next (T \<union> S) p res"
  by (cases res) (auto simp: is_next_def dest: leD)

lemma generate_ok:
  "ascending rs \<Longrightarrow> list_all (numbered fr) rs \<Longrightarrow>
    \<exists>res. ranges_generate_canister_id fr into rs (Some (fr p)) = Some (map_option fr res) \<and> is_next (ids rs) p res"
proof (induction rs)
  case (Cons r rs)
  obtain a b where r: "r = make_range fr a b" using Cons.prems(2) by (auto simp: numbered_def)
  have ab: "a \<le> b" and rs: "ascending rs" "list_all (numbered fr) rs" using Cons.prems by (simp_all add: r ascending_Cons)
  note later = ids_later [OF Cons.prems(1) [unfolded r]]
  obtain res where IH: "ranges_generate_canister_id fr into rs (Some (fr p)) = Some (map_option fr res)" "is_next (ids rs) p res"
    using Cons.IH [OF rs] by blast
  consider "p < a" | "\<not> p < a" "b \<le> p" | "\<not> p < a" "\<not> b \<le> p" by blast
  then show ?case
  proof cases
    case 1
    have "a \<le> m" if "m \<in> ids rs" for m using later [OF that] ab by simp
    then have "is_next (ids (r # rs)) p (Some a)"
      using 1 ab by (auto simp: is_next_def r ids_Cons)
    then show ?thesis using 1 by (intro exI [of _ "Some a"]) (simp add: r range_generate_fr)
  next
    case 2
    then have "is_next (ids (r # rs)) p res"
      unfolding r ids_Cons using IH(2) by (intro is_next_skip) auto
    then show ?thesis using 2 IH(1) by (intro exI [of _ res]) (simp add: r range_generate_fr)
  next
    case 3
    then have pb: "p < b" by simp
    have le: "p + 1 \<le> m \<longleftrightarrow> p < m" for m by (rule word_succ_le [OF pb])
    have "p < p + 1" using le [of "p + 1"] by simp
    moreover have "a \<le> p + 1" using 3(1) calculation by simp
    moreover have "p + 1 \<le> b" using pb le by simp
    ultimately have "is_next (ids (r # rs)) p (Some (p + 1))" by (simp add: is_next_def r ids_Cons le)
    then show ?thesis using 3 by (intro exI [of _ "Some (p + 1)"]) (simp add: r range_generate_fr)
  qed
qed (auto simp: is_next_def ids_def)

end

end
