(* ===== verification/RoutingTable_Table.thy ===== *)
theory RoutingTable_Table
  imports RoutingTable_Correct
begin

text \<open>
  Correctness of the operations on routing tables. A table stands for an assignment of canister IDs to
  subnets; merging neighbouring entries does not change it, and inserting, assigning and removing change it
  as documented. Every operation keeps tables well-formed and does not panic on them.
\<close>

definition rt_ok :: "(u64 \<Rightarrow> 'c::linorder) \<Rightarrow> ('c canister_id_range \<times> 'v) list \<Rightarrow> bool" where
  "rt_ok fr t \<longleftrightarrow> ascending (map fst t) \<and> list_all (numbered fr) (map fst t)"

definition assigned :: "(u64 \<Rightarrow> 'c::linorder) \<Rightarrow> ('c canister_id_range \<times> 'v) list \<Rightarrow> u64 \<Rightarrow> 'v \<Rightarrow> bool" where
  "assigned fr t n v \<longleftrightarrow> (\<exists>r. (r, v) \<in> set t \<and> range_contains r (fr n))"

lemma assigned_append [simp]: "assigned fr (t @ u) n v \<longleftrightarrow> assigned fr t n v \<or> assigned fr u n v"
  by (auto simp: assigned_def)

lemma assigned_Nil [simp]: "\<not> assigned fr [] n v"
  by (simp add: assigned_def)

lemma assigned_Cons [simp]: "assigned fr ((r, w) # t) n v \<longleftrightarrow> v = w \<and> range_contains r (fr n) \<or> assigned fr t n v"
  by (auto simp: assigned_def)

lemma rt_ok_append:
  "rt_ok fr (t @ u) \<longleftrightarrow> rt_ok fr t \<and> rt_ok fr u \<and> (\<forall>e \<in> set t. \<forall>f \<in> set u. r_end (fst e) < r_start (fst f))"
  by (auto simp: rt_ok_def ascending_append)

lemma rt_is_optimized_iff:
  "rt_is_optimized into es = Some True \<longleftrightarrow> successively (\<lambda>e1 e2. mergeable into e1 e2 = Some False) es"
proof (induction into es rule: rt_is_optimized.induct)
  case (1 into e1 e2 es)
  then show ?case by (cases "mergeable into e1 e2") auto
qed simp_all

lemma mergeable_start:
  "r_start (fst e) = r_start (fst f) \<Longrightarrow> snd e = snd f \<Longrightarrow> mergeable into d e = mergeable into d f"
  by (simp add: mergeable_def)

section \<open>Merging neighbours\<close>

context canister_numbering
begin

lemma ascending_disjoint:
  assumes "ascending (map fst t)" and "(r, v) \<in> set t" and "(q, w) \<in> set t" and "range_contains r c" and "range_contains q c"
  shows "r = q \<and> v = w"
  using assms
proof (induction t)
  case (Cons e t)
  have "\<not> range_contains k c" if "(k, x) \<in> set t" "range_contains (fst e) c" for k x
  proof -
    have "r_end (fst e) < r_start k" using Cons.prems(1) that(1) by (force simp: ascending_Cons)
    then show ?thesis using that(2) by (auto simp: range_contains_def)
  qed
  then show ?case using Cons by (cases e) (auto simp: ascending_Cons)
qed simp

lemma assigned_unique:
  assumes "rt_ok fr t" and "assigned fr t n v" and "assigned fr t n w"
  shows "v = w"
  using assms ascending_disjoint [of t] unfolding rt_ok_def assigned_def by blast

lemma mergeable_fr:
  assumes "b < c"
  shows "mergeable into (make_range fr a b, v) (make_range fr c d, w) = Some (v = w \<and> b + 1 = c)"
  using word_succ_checked [OF assms] by (simp add: mergeable_def)

lemma merge_step:
  assumes "rt_ok fr (t @ (make_range fr a b, v) # (make_range fr (b + 1) d, v) # es)" and "b < b + 1"
  shows "rt_ok fr (t @ (make_range fr a d, v) # es)"
    and "assigned fr (t @ (make_range fr a d, v) # es) n w \<longleftrightarrow>
      assigned fr (t @ (make_range fr a b, v) # (make_range fr (b + 1) d, v) # es) n w"
proof -
  have ab: "a \<le> b" "b + 1 \<le> d" using assms(1) by (simp_all add: rt_ok_def ascending_append ascending_Cons)
  have le: "b + 1 \<le> n \<longleftrightarrow> b < n" for n by (rule word_succ_le [OF assms(2)])
  have ad: "a \<le> d" using ab le [of d] by simp
  show "rt_ok fr (t @ (make_range fr a d, v) # es)"
    using assms(1) ad by (simp add: rt_ok_def ascending_append ascending_Cons)
  have "a \<le> n \<and> n \<le> d \<longleftrightarrow> (a \<le> n \<and> n \<le> b) \<or> (b + 1 \<le> n \<and> n \<le> d)"
    using ab le [of n] le [of d] by auto
  then show "assigned fr (t @ (make_range fr a d, v) # es) n w \<longleftrightarrow>
      assigned fr (t @ (make_range fr a b, v) # (make_range fr (b + 1) d, v) # es) n w" by auto
qed

lemma optimized_snoc:
  "rt_is_optimized into (acc @ [e]) = Some True \<longleftrightarrow>
    rt_is_optimized into acc = Some True \<and> (acc = [] \<or> mergeable into (last acc) e = Some False)"
  by (auto simp: rt_is_optimized_iff successively_append_iff)

lemma optimize_loop_step:
  assumes "rt_ok fr (acc @ e # es)" and "rt_is_optimized into acc = Some True"
  obtains acc' where "optimize_loop into acc (e # es) = optimize_loop into acc' es" and "rt_ok fr (acc' @ es)"
    and "rt_is_optimized into acc' = Some True" and "\<forall>n v. assigned fr (acc' @ es) n v \<longleftrightarrow> assigned fr (acc @ e # es) n v"
proof -
  obtain c d v where e: "e = (make_range fr c d, v)" using assms(1) by (cases e) (auto simp: rt_ok_def numbered_def)
  show thesis
  proof (cases acc rule: rev_cases)
    case Nil
    then show ?thesis using that [of "[e]"] assms by (simp add: e)
  next
    case (snoc t l)
    obtain a b w where l: "l = (make_range fr a b, w)" using assms(1) by (cases l) (auto simp: snoc rt_ok_def numbered_def)
    have bc: "b < c" using assms(1) by (simp add: snoc e l rt_ok_def ascending_append ascending_Cons)
    note merge = mergeable_fr [OF bc, of a w d v]
    show ?thesis
    proof (cases "w = v \<and> b + 1 = c")
      case True
      then have eq: "acc @ e # es = t @ (make_range fr a b, v) # (make_range fr (b + 1) d, v) # es" by (simp add: snoc e l)
      have bb: "b < b + 1" using True bc by simp
      have "rt_is_optimized into (t @ [(make_range fr a d, v)]) = Some True"
        using assms(2) True mergeable_start [of "(make_range fr a d, v)" l into "last t"]
        by (simp add: snoc optimized_snoc l)
      moreover have "optimize_loop into acc (e # es) = optimize_loop into (t @ [(make_range fr a d, v)]) es"
        using merge True by (simp add: snoc e l make_range_def)
      ultimately show ?thesis
        using that [of "t @ [(make_range fr a d, v)]"] merge_step [OF assms(1) [unfolded eq] bb] by (simp add: eq)
    next
      case False
      then have "rt_is_optimized into (acc @ [e]) = Some True" using assms(2) merge by (subst optimized_snoc) (simp add: snoc e l)
      moreover have "optimize_loop into acc (e # es) = optimize_loop into (acc @ [e]) es"
        using merge False by (simp add: snoc e l)
      ultimately show ?thesis using that [of "acc @ [e]"] assms(1) by simp
    qed
  qed
qed

lemma optimize_loop_ok:
  "rt_ok fr (acc @ es) \<Longrightarrow> rt_is_optimized into acc = Some True \<Longrightarrow>
    \<exists>es'. optimize_loop into acc es = Some es' \<and> rt_ok fr es' \<and> rt_is_optimized into es' = Some True \<and>
      (\<forall>n v. assigned fr es' n v \<longleftrightarrow> assigned fr (acc @ es) n v)"
proof (induction es arbitrary: acc)
  case (Cons e es)
  obtain acc' where step: "optimize_loop into acc (e # es) = optimize_loop into acc' es" "rt_ok fr (acc' @ es)"
    "rt_is_optimized into acc' = Some True" "\<forall>n v. assigned fr (acc' @ es) n v \<longleftrightarrow> assigned fr (acc @ e # es) n v"
    by (rule optimize_loop_step [OF Cons.prems])
  show ?case using Cons.IH [OF step(2,3)] unfolding step(1) using step(4) by simp
qed simp

definition well_formed :: "'c routing_table \<Rightarrow> bool" where
  "well_formed t \<longleftrightarrow> rt_ok fr t \<and> rt_well_formed into t = Some (Inr ())"

lemma well_formed_iff: "well_formed t \<longleftrightarrow> rt_ok fr t \<and> rt_is_optimized into t = Some True"
  by (auto simp: well_formed_def rt_well_formed_def rt_ok_def rt_validate_iff [symmetric] map_option_case
      split: option.splits if_splits)

lemma rt_optimize_ok:
  assumes "rt_ok fr t"
  shows "\<exists>t'. rt_optimize into t = Some t' \<and> well_formed t' \<and> (\<forall>n v. assigned fr t' n v \<longleftrightarrow> assigned fr t n v)"
proof -
  obtain es where es: "optimize_loop into [] t = Some es" "rt_ok fr es" "rt_is_optimized into es = Some True"
    "\<forall>n v. assigned fr es n v \<longleftrightarrow> assigned fr t n v"
    using optimize_loop_ok [of "[]" t] assms by auto
  have "bt_collect es = es" using es(2) by (simp add: rt_ok_def bt_collect_sorted ascending_bt_wf)
  then show ?thesis using es by (simp add: rt_optimize_def well_formed_iff)
qed

end

section \<open>Changing tables\<close>

text \<open>Tables as sets of entries: ascending means sorted keys, which are not empty and do not overlap.\<close>

lemma ascending_iff:
  assumes "sorted_wrt (<) rs"
  shows "ascending rs \<longleftrightarrow> (\<forall>r \<in> set rs. nonempty r) \<and> (\<forall>r \<in> set rs. \<forall>q \<in> set rs. r \<noteq> q \<longrightarrow> \<not> overlap r q)"
  using assms
proof (induction rs)
  case (Cons r rs)
  have before: "r_end r < r_start q \<longleftrightarrow> \<not> overlap r q" if "q \<in> set rs" "nonempty r" "nonempty q" for q
    using Cons.prems that by (auto simp: overlap_def nonempty_def less_canister_id_range_def)
  have new: "r \<notin> set rs" using Cons.prems by auto
  have sym: "overlap q r \<Longrightarrow> overlap r q" for q by (simp add: overlap_def)
  have IH: "ascending rs \<longleftrightarrow> (\<forall>r \<in> set rs. nonempty r) \<and> (\<forall>r \<in> set rs. \<forall>q \<in> set rs. r \<noteq> q \<longrightarrow> \<not> overlap r q)"
    using Cons by simp
  show ?case
  proof (cases "nonempty r \<and> (\<forall>q \<in> set rs. nonempty q)")
    case True
    then have "(\<forall>q \<in> set rs. r_end r < r_start q) \<longleftrightarrow> (\<forall>q \<in> set rs. \<not> overlap r q)" using before by blast
    moreover have "(\<forall>q \<in> set rs. \<not> overlap r q) \<longleftrightarrow>
        (\<forall>q \<in> set rs. r \<noteq> q \<longrightarrow> \<not> overlap r q) \<and> (\<forall>q \<in> set rs. q \<noteq> r \<longrightarrow> \<not> overlap q r)"
      using new sym by metis
    ultimately show ?thesis using True unfolding ascending_Cons IH by auto
  next
    case False
    then show ?thesis unfolding ascending_Cons IH by auto
  qed
qed simp

lemma rt_ok_iff:
  assumes "bt_wf t"
  shows "rt_ok fr t \<longleftrightarrow> (\<forall>(r, _) \<in> set t. nonempty r \<and> numbered fr r) \<and>
    (\<forall>(r, _) \<in> set t. \<forall>(q, _) \<in> set t. r \<noteq> q \<longrightarrow> \<not> overlap r q)"
  using ascending_iff [of "map fst t"] assms unfolding rt_ok_def bt_wf_def by (fastforce simp: list_all_iff)

lemma set_bt_insert_fresh:
  assumes "bt_wf t" and "k \<notin> fst ` set t"
  shows "set (bt_insert k v t) = insert (k, v) (set t)"
  using assms by (induction k v t rule: bt_insert.induct) (auto simp: bt_wf_def)

lemma rt_ok_wf: "rt_ok fr t \<Longrightarrow> bt_wf t"
  by (simp add: rt_ok_def ascending_bt_wf)

lemma rt_ok_insert:
  assumes "rt_ok fr t" and "nonempty r" and "numbered fr r" and "\<forall>(q, _) \<in> set t. \<not> overlap r q"
  shows "rt_ok fr (bt_insert r v t)" and "set (bt_insert r v t) = insert (r, v) (set t)"
proof -
  have "r \<notin> fst ` set t" using assms(2,4) by (fastforce simp: overlap_def nonempty_def)
  then show set: "set (bt_insert r v t) = insert (r, v) (set t)" by (rule set_bt_insert_fresh [OF rt_ok_wf [OF assms(1)]])
  have wf: "bt_wf (bt_insert r v t)" by (rule bt_wf_insert [OF rt_ok_wf [OF assms(1)]])
  have "\<forall>(q, _) \<in> set t. \<not> overlap q r" using assms(4) overlap_sym by blast
  then show "rt_ok fr (bt_insert r v t)"
    using assms unfolding rt_ok_iff [OF wf] rt_ok_iff [OF rt_ok_wf [OF assms(1)]] set by auto
qed

lemma rt_ok_filter: "rt_ok fr t \<Longrightarrow> rt_ok fr (filter P t)"
proof -
  assume ok: "rt_ok fr t"
  have "bt_wf (filter P t)" by (rule bt_wf_filter [OF rt_ok_wf [OF ok]])
  then show ?thesis using ok unfolding rt_ok_iff [OF \<open>bt_wf (filter P t)\<close>] rt_ok_iff [OF rt_ok_wf [OF ok]] by auto
qed

lemma rt_ok_insert_all:
  "rt_ok fr t \<Longrightarrow> rt_ok fr add \<Longrightarrow> \<forall>(r, _) \<in> set add. \<forall>(q, _) \<in> set t. \<not> overlap r q \<Longrightarrow>
    rt_ok fr (foldl (\<lambda>t (k, v). bt_insert k v t) t add) \<and>
    set (foldl (\<lambda>t (k, v). bt_insert k v t) t add) = set t \<union> set add"
proof (induction add arbitrary: t)
  case (Cons e add)
  obtain r v where e: "e = (r, v)" by (cases e)
  have new: "nonempty r" "numbered fr r" "rt_ok fr add" using Cons.prems(2) by (simp_all add: e rt_ok_def ascending_Cons)
  note ins = rt_ok_insert [OF Cons.prems(1) new(1,2), of v]
  have "\<not> overlap q r" if "(q, w) \<in> set add" for q w
    using Cons.prems(2) that by (force simp: e rt_ok_def ascending_Cons overlap_def)
  then have "\<forall>(q, _) \<in> set add. \<forall>(p, _) \<in> set (bt_insert r v t). \<not> overlap q p"
    using Cons.prems(3) ins(2) by (auto simp: e)
  then show ?case using Cons.IH [OF ins(1) new(3)] Cons.prems(3) ins(2) by (auto simp: e)
qed simp

lemma foldl_bt_remove: "foldl (\<lambda>t k. bt_remove k t) t ks = filter (\<lambda>e. fst e \<notin> set ks) t"
  by (induction ks arbitrary: t) (auto simp: bt_remove_def intro: filter_cong)

section \<open>Assigning a range\<close>

context canister_numbering
begin

text \<open>What is left of an entry outside of the range from \<open>s\<close> to \<open>e\<close>.\<close>

definition cut :: "u64 \<Rightarrow> u64 \<Rightarrow> 'c canister_id_range \<times> 'v \<Rightarrow> ('c canister_id_range \<times> 'v) list" where
  "cut s e entry =
     (case (into (r_start (fst entry)), into (r_end (fst entry))) of
        (Some a, Some b) \<Rightarrow>
          (if a < s then [(make_range fr a (s - 1), snd entry)] else []) @
          (if e < b then [(make_range fr (e + 1) b, snd entry)] else [])
      | _ \<Rightarrow> [])"

lemma cut_fr:
  "cut s e (make_range fr a b, v) =
    (if a < s then [(make_range fr a (s - 1), v)] else []) @ (if e < b then [(make_range fr (e + 1) b, v)] else [])"
  by (simp add: cut_def)

lemma overlap_fr [simp]: "overlap (make_range fr a b) (make_range fr c d) \<longleftrightarrow> a \<le> d \<and> c \<le> b"
  by (simp add: overlap_def)

lemma assign_scan_ok:
  "rt_ok fr es \<Longrightarrow> s \<le> e \<Longrightarrow>
    assign_scan fr into s e es =
      (let hit = filter (\<lambda>x. overlap (fst x) (make_range fr s e)) es in Some (map fst hit, concat (map (cut s e) hit)))"
proof (induction es)
  case (Cons x es)
  obtain a b v where x: "x = (make_range fr a b, v)" using Cons.prems(1) by (cases x) (auto simp: rt_ok_def numbered_def)
  have ab: "a \<le> b" and es: "rt_ok fr es" using Cons.prems(1) by (simp_all add: x rt_ok_def ascending_Cons)
  note IH = Cons.IH [OF es Cons.prems(2), unfolded Let_def]
  have rest: "filter (\<lambda>x. overlap (fst x) (make_range fr s e)) es = []" if "e < b"
  proof -
    have "\<not> overlap (fst y) (make_range fr s e)" if "y \<in> set es" for y
    proof -
      have "fr b < r_start (fst y)" using Cons.prems(1) that by (simp add: x rt_ok_def ascending_Cons)
      then have "fr e < r_start (fst y)" using \<open>e < b\<close> by (meson fr_less order.strict_trans)
      then show ?thesis by (auto simp: overlap_def dest: leD)
    qed
    then show ?thesis by (simp add: filter_empty_conv)
  qed
  consider (left) "a < s" "s \<le> b" "b \<le> e" | (inside) "s \<le> a" "b \<le> e" | (split) "a < s" "e < b"
    | (right) "s \<le> a" "a \<le> e" "e < b" | (none) "b < s \<or> e < a" by fastforce
  then show ?case
  proof cases
    case left
    then have "a \<le> e" "\<not> e < b" using Cons.prems(2) by auto
    then show ?thesis using left IH by (simp add: x cut_fr)
  next
    case inside
    then have "a \<le> e" "s \<le> b" "\<not> a < s" "\<not> e < b" using ab by auto
    then show ?thesis using inside IH by (simp add: x cut_fr)
  next
    case split
    then have "a \<le> e" "s \<le> b" "\<not> b \<le> e" "\<not> s \<le> a" using Cons.prems(2) by auto
    then show ?thesis using split rest by (simp add: x cut_fr)
  next
    case right
    then have "s \<le> b" "\<not> b \<le> e" "\<not> a < s" by auto
    then show ?thesis using right rest by (simp add: x cut_fr)
  next
    case none
    then consider "b < s" "\<not> s \<le> b" "\<not> s \<le> a" "\<not> e < b" | "e < a" "\<not> a \<le> e" "\<not> b \<le> e" "\<not> a < s"
      using ab Cons.prems(2) by fastforce
    then show ?thesis using IH by cases (simp_all add: x Let_def)
  qed
qed simp

lemma cut_ok:
  assumes "nonempty k" and "numbered fr k" and "overlap k (make_range fr s e)" and "s \<le> e"
  shows "rt_ok fr (cut s e (k, v))"
    and "(p, w) \<in> set (cut s e (k, v)) \<Longrightarrow> covers k p \<and> \<not> overlap p (make_range fr s e)"
    and "assigned fr (cut s e (k, v)) n w \<longleftrightarrow> w = v \<and> range_contains k (fr n) \<and> \<not> (s \<le> n \<and> n \<le> e)"
proof -
  obtain a b where k: "k = make_range fr a b" using assms(2) by (auto simp: numbered_def)
  have ab: "a \<le> b" "a \<le> e" "s \<le> b" using assms(1,3) by (simp_all add: k)
  have pred: "x \<le> s - 1 \<longleftrightarrow> x < s" if "a < s" for x by (rule word_le_pred [OF that])
  have succ: "e + 1 \<le> x \<longleftrightarrow> e < x" if "e < b" for x by (rule word_succ_le [OF that])
  have mid: "s - 1 < e + 1" if "a < s" "e < b"
  proof -
    have "s - 1 < s" "e < e + 1" using pred [OF that(1), of "s - 1"] succ [OF that(2), of "e + 1"] by simp_all
    then show ?thesis using assms(4) by simp
  qed
  show "rt_ok fr (cut s e (k, v))"
    using pred [of a] succ [of b] mid by (simp add: k cut_fr rt_ok_def ascending_Cons)
  show "covers k p \<and> \<not> overlap p (make_range fr s e)" if "(p, w) \<in> set (cut s e (k, v))"
  proof -
    have "s - 1 < s" "s - 1 \<le> b" if "a < s" using pred [OF that, of "s - 1"] ab(3) by auto
    moreover have "e < e + 1" "a \<le> e + 1" if "e < b" using succ [OF that, of "e + 1"] ab(2) by auto
    ultimately show ?thesis using that by (auto simp: k cut_fr covers_def not_le split: if_splits)
  qed
  show "assigned fr (cut s e (k, v)) n w \<longleftrightarrow> w = v \<and> range_contains k (fr n) \<and> \<not> (s \<le> n \<and> n \<le> e)"
    using pred [of n] succ [of n] ab by (auto simp: k cut_fr not_le)
qed

end

context canister_numbering
begin

lemma cut_all_ok:
  assumes "rt_ok fr es" and "s \<le> e" and "\<forall>x \<in> set es. overlap (fst x) (make_range fr s e)"
  shows "rt_ok fr (concat (map (cut s e) es))"
  using assms
proof (induction es)
  case (Cons x es)
  obtain k v where x: "x = (k, v)" by (cases x)
  have k: "nonempty k" "numbered fr k" "overlap k (make_range fr s e)"
    using Cons.prems by (simp_all add: x rt_ok_def ascending_Cons)
  have es: "rt_ok fr es" using Cons.prems(1) by (simp add: rt_ok_def ascending_Cons)
  have "r_end p < r_start p'" if piece: "(p, w) \<in> set (cut s e x)" "(p', w') \<in> set (concat (map (cut s e) es))" for p w p' w'
  proof -
    obtain k' v' where k': "(k', v') \<in> set es" "(p', w') \<in> set (cut s e (k', v'))" using piece(2) by auto
    have "nonempty k'" "numbered fr k'" "overlap k' (make_range fr s e)"
      using k'(1) es Cons.prems(3) by (force simp: rt_ok_def ascending_def list_all_iff)+
    then have "covers k' p'" using cut_ok(2) [OF _ _ _ Cons.prems(2) k'(2)] by simp
    moreover have "covers k p" using cut_ok(2) [OF k Cons.prems(2), of p w v] piece(1) by (simp add: x)
    moreover have "r_end k < r_start k'" using Cons.prems(1) k'(1) by (force simp: x rt_ok_def ascending_Cons)
    ultimately show ?thesis by (auto simp: covers_def)
  qed
  then show ?case
    using cut_ok(1) [OF k Cons.prems(2), of v] Cons.IH [OF es Cons.prems(2)] Cons.prems(3)
    by (force simp: x rt_ok_append)
qed (simp add: rt_ok_def)

text \<open>No entry outside of the bounds overlaps the range.\<close>

lemma scanned_all:
  assumes "rt_ok fr t" and "s \<le> e" and left: "left = (case bt_last_le t (make_range fr s e) of Some (k, _) \<Rightarrow> k | None \<Rightarrow> make_range fr s e)"
  shows "bt_range t left (make_range fr e (- 1)) = Some (filter (\<lambda>x. left \<le> fst x \<and> fst x \<le> make_range fr e (- 1)) t)"
    and "filter (\<lambda>x. overlap (fst x) (make_range fr s e)) (filter (\<lambda>x. left \<le> fst x \<and> fst x \<le> make_range fr e (- 1)) t) =
      filter (\<lambda>x. overlap (fst x) (make_range fr s e)) t"
proof -
  let ?r = "make_range fr s e" and ?le = "filter (\<lambda>x. fst x \<le> make_range fr s e) t"
  have max: "n \<le> - 1" for n :: u64 by simp
  have left': "left = (if ?le = [] then ?r else fst (last ?le))"
    by (simp add: left bt_last_le_def split: list.split prod.split)
  have "fst (last ?le) \<le> ?r" if "?le \<noteq> []" using last_in_set [OF that] by auto
  then have le: "left \<le> ?r" by (simp add: left')
  also have "?r \<le> make_range fr e (- 1)" using assms(2) max by (auto simp: less_eq_canister_id_range_def)
  finally show "bt_range t left (make_range fr e (- 1)) = Some (filter (\<lambda>x. left \<le> fst x \<and> fst x \<le> make_range fr e (- 1)) t)"
    by (simp add: bt_range_def not_less)
  have "left \<le> fst x \<and> fst x \<le> make_range fr e (- 1)" if x: "x \<in> set t" and over: "overlap (fst x) ?r" for x
  proof
    obtain a b where ab: "fst x = make_range fr a b" "a \<le> b"
      using assms(1) x by (force simp: rt_ok_def ascending_def list_all_iff numbered_def)
    show "fst x \<le> make_range fr e (- 1)" using over max by (auto simp: ab less_eq_canister_id_range_def)
    show "left \<le> fst x"
    proof (cases "fst x \<le> ?r")
      case False
      then show ?thesis using le by simp
    next
      case True
      then have ne: "?le \<noteq> []" and mem: "x \<in> set ?le" using x by (auto simp: filter_empty_conv)
      have "sorted_wrt (<) (map fst ?le)" using rt_ok_wf [OF assms(1)] bt_wf_filter by (auto simp: bt_wf_def)
      then have asc: "ascending (map fst ?le)" using rt_ok_filter [OF assms(1)] by (simp add: rt_ok_def)
      show ?thesis
      proof (cases "x = last ?le")
        case False
        have "r_end (fst x) < r_start (fst (last ?le))"
          using asc mem False ne by (subst (asm) (2) append_butlast_last_id [OF ne, symmetric], subst (asm) append_butlast_last_id [OF ne, symmetric])
            (auto simp: ascending_append simp del: append_butlast_last_id)
        moreover have "r_start (fst (last ?le)) \<le> fr s"
          using \<open>?le \<noteq> [] \<Longrightarrow> fst (last ?le) \<le> ?r\<close> ne by (auto simp: less_eq_canister_id_range_def)
        ultimately show ?thesis using over by (auto simp: overlap_def)
      qed (simp add: left' ne)
    qed
  qed
  then show "filter (\<lambda>x. overlap (fst x) ?r) (filter (\<lambda>x. left \<le> fst x \<and> fst x \<le> make_range fr e (- 1)) t) =
      filter (\<lambda>x. overlap (fst x) ?r) t"
    by (auto simp: filter_filter intro: filter_cong)
qed

end

context canister_numbering
begin

lemma rt_ok_entry: "rt_ok fr t \<Longrightarrow> (k, v) \<in> set t \<Longrightarrow> nonempty k \<and> numbered fr k"
  by (force simp: rt_ok_def ascending_def list_all_iff)

text \<open>The entries outside of a range, the rests of those that overlap it, and the range itself.\<close>

lemma assigned_cut:
  assumes ok: "rt_ok fr t" and se: "s \<le> e"
    and set: "set t' = insert (make_range fr s e, dest)
      (set (filter (\<lambda>x. \<not> overlap (fst x) (make_range fr s e)) t) \<union>
       set (concat (map (cut s e) (filter (\<lambda>x. overlap (fst x) (make_range fr s e)) t))))"
  shows "assigned fr t' n v \<longleftrightarrow> (if s \<le> n \<and> n \<le> e then v = dest else assigned fr t n v)"
proof -
  let ?r = "make_range fr s e"
  have outside: "range_contains k (fr n) \<Longrightarrow> overlap k ?r" if "s \<le> n" "n \<le> e" for k
    using that by (auto simp: overlap_def range_contains_def intro: order.trans [of _ "fr n"])
  have part: "assigned fr (cut s e (k, w)) n v \<longleftrightarrow> v = w \<and> range_contains k (fr n) \<and> \<not> (s \<le> n \<and> n \<le> e)"
    if "(k, w) \<in> set t" "overlap k ?r" for k w
    by (rule cut_ok(3)) (use that se rt_ok_entry [OF ok that(1)] in simp_all)
  have eq: "assigned fr t' n v \<longleftrightarrow> v = dest \<and> s \<le> n \<and> n \<le> e \<or>
      (\<exists>k. (k, v) \<in> set t \<and> \<not> overlap k ?r \<and> range_contains k (fr n)) \<or>
      (\<exists>k w. (k, w) \<in> set t \<and> overlap k ?r \<and> assigned fr (cut s e (k, w)) n v)"
    unfolding assigned_def set by auto
  show ?thesis
  proof (cases "s \<le> n \<and> n \<le> e")
    case True
    have "\<not> (\<exists>k. (k, v) \<in> set t \<and> \<not> overlap k ?r \<and> range_contains k (fr n))" using outside True by blast
    moreover have "\<not> (\<exists>k w. (k, w) \<in> set t \<and> overlap k ?r \<and> assigned fr (cut s e (k, w)) n v)" using part True by blast
    ultimately have "assigned fr t' n v \<longleftrightarrow> v = dest" using True unfolding eq by blast
    then show ?thesis using True by simp
  next
    case False
    then have "(\<exists>k w. (k, w) \<in> set t \<and> overlap k ?r \<and> assigned fr (cut s e (k, w)) n v) \<longleftrightarrow>
        (\<exists>k. (k, v) \<in> set t \<and> overlap k ?r \<and> range_contains k (fr n))"
      using part by blast
    moreover have "assigned fr t n v \<longleftrightarrow> (\<exists>k. (k, v) \<in> set t \<and> \<not> overlap k ?r \<and> range_contains k (fr n)) \<or>
        (\<exists>k. (k, v) \<in> set t \<and> overlap k ?r \<and> range_contains k (fr n))"
      unfolding assigned_def by blast
    ultimately have "assigned fr t' n v \<longleftrightarrow> assigned fr t n v" using False unfolding eq by blast
    then show ?thesis using False by auto
  qed
qed

end

context canister_numbering
begin

lemma assign_range_ok:
  assumes ok: "rt_ok fr t" and se: "s \<le> e"
  shows "\<exists>t'. rt_assign_range fr into (make_range fr s e) dest t = Some t' \<and> rt_ok fr t' \<and>
    (\<forall>n v. assigned fr t' n v \<longleftrightarrow> (if s \<le> n \<and> n \<le> e then v = dest else assigned fr t n v))"
proof -
  let ?r = "make_range fr s e" and ?hit = "\<lambda>x. overlap (fst x) (make_range fr s e)"
  define left where "left = (case bt_last_le t ?r of Some (k, _) \<Rightarrow> k | None \<Rightarrow> ?r)"
  define add where "add = concat (map (cut s e) (filter ?hit t))"
  define t1 where "t1 = filter (\<lambda>x. \<not> ?hit x) t"
  note scan = scanned_all [OF ok se left_def]
  have found: "assign_scan fr into s e (filter (\<lambda>x. left \<le> fst x \<and> fst x \<le> make_range fr e (- 1)) t) =
      Some (map fst (filter ?hit t), add)"
    unfolding assign_scan_ok [OF rt_ok_filter [OF ok] se] Let_def scan(2) add_def ..
  have "foldl (\<lambda>t k. bt_remove k t) t (map fst (filter ?hit t)) = t1"
    by (auto simp: foldl_bt_remove t1_def intro!: filter_cong)
  then have eq: "rt_assign_range fr into ?r dest t =
      Some (bt_insert ?r dest (foldl (\<lambda>t (k, v). bt_insert k v t) t1 add))"
    using scan(1) found by (simp add: rt_assign_range_def left_def [symmetric])
  have pieces: "\<exists>k v. (k, v) \<in> set t \<and> ?hit (k, v) \<and> (p, w) \<in> set (cut s e (k, v)) \<and> covers k p \<and> \<not> overlap p ?r"
    if piece: "(p, w) \<in> set add" for p w
  proof -
    obtain k v where kv: "(k, v) \<in> set t" "?hit (k, v)" "(p, w) \<in> set (cut s e (k, v))" using piece by (auto simp: add_def)
    then show ?thesis using cut_ok(2) [of k s e p w v] rt_ok_entry [OF ok kv(1)] se by auto
  qed
  have t1: "rt_ok fr t1" unfolding t1_def by (rule rt_ok_filter [OF ok])
  have addok: "rt_ok fr add" unfolding add_def by (rule cut_all_ok [OF rt_ok_filter [OF ok] se]) simp
  have apart: "\<not> overlap k q" if "(k, v) \<in> set t" "(q, w) \<in> set t1" "?hit (k, v)" for k v q w
  proof -
    have "k \<noteq> q" "(q, w) \<in> set t" using that(2,3) by (auto simp: t1_def)
    then show ?thesis using ok that(1) unfolding rt_ok_iff [OF rt_ok_wf [OF ok]] by blast
  qed
  have "\<not> overlap p q" if "(p, w) \<in> set add" "(q, u) \<in> set t1" for p w q u
  proof -
    obtain k v where "(k, v) \<in> set t" "?hit (k, v)" "covers k p" using pieces [OF \<open>(p, w) \<in> set add\<close>] by blast
    then have "\<not> overlap k q" "r_start k \<le> r_start p" "r_end p \<le> r_end k"
      using apart [OF _ that(2)] by (simp_all add: covers_def)
    then show ?thesis unfolding overlap_def by (meson order.trans)
  qed
  then have both: "rt_ok fr (foldl (\<lambda>t (k, v). bt_insert k v t) t1 add)"
      "set (foldl (\<lambda>t (k, v). bt_insert k v t) t1 add) = set t1 \<union> set add"
    using rt_ok_insert_all [OF t1 addok] by auto
  have "\<not> overlap ?r q" if "(q, u) \<in> set t1 \<union> set add" for q u
    using that pieces [of q u] overlap_sym [of ?r q] by (auto simp: t1_def)
  then have free: "\<forall>(q, _) \<in> set (foldl (\<lambda>t (k, v). bt_insert k v t) t1 add). \<not> overlap ?r q" using both(2) by auto
  note ins = rt_ok_insert [OF both(1) _ _ free, of dest]
  have set: "set (bt_insert ?r dest (foldl (\<lambda>t (k, v). bt_insert k v t) t1 add)) = insert (?r, dest) (set t1 \<union> set add)"
    using ins(2) se by (simp only: both(2) nonempty_make_range numbered_make_range)
  show ?thesis using eq ins(1) se assigned_cut [OF ok se set [unfolded t1_def add_def]] unfolding t1_def add_def by simp
qed

end

section \<open>Operations on well-formed tables\<close>

context canister_numbering
begin

text \<open>No two entries of an optimised table can be merged, adjacent or not.\<close>

lemma optimized_pairs:
  "rt_ok fr es \<Longrightarrow> rt_is_optimized into es = Some True \<longleftrightarrow> sorted_wrt (\<lambda>x y. mergeable into x y = Some False) es"
proof (induction es)
  case (Cons x es)
  have es: "rt_ok fr es" using Cons.prems by (simp add: rt_ok_def ascending_Cons)
  have far: "mergeable into x y = Some False" if near: "mergeable into x (hd es) = Some False" and y: "y \<in> set es" for y
  proof (cases "y = hd es")
    case False
    then obtain h ys where es': "es = h # ys" "y \<in> set ys" using y by (cases es) auto
    obtain a b v c d w p q u where xyz: "x = (make_range fr a b, v)" "h = (make_range fr c d, w)" "y = (make_range fr p q, u)"
      using Cons.prems es' by (cases x; cases h; cases y) (force simp: rt_ok_def numbered_def list_all_iff)
    have "b < c" "c \<le> d" "d < p" using Cons.prems es' by (force simp: xyz rt_ok_def ascending_Cons)+
    then have "b + 1 \<noteq> p" "b < p" using word_succ_le [of b c c] by auto
    then show ?thesis using mergeable_fr [of b p a v q u] by (simp add: xyz)
  qed (use near in simp)
  show ?case using Cons.IH [OF es] far by (cases es) (auto simp: rt_is_optimized_iff)
qed simp

lemma well_formed_filter:
  assumes "well_formed t"
  shows "well_formed (filter P t)"
proof -
  have ok: "rt_ok fr t" using assms by (simp add: well_formed_iff)
  note ok' = rt_ok_filter [OF ok, of P]
  show ?thesis
    using assms sorted_wrt_filter [of _ t P] ok' unfolding well_formed_iff optimized_pairs [OF ok] optimized_pairs [OF ok'] by blast
qed

lemma assigned_filter:
  "assigned fr (filter (\<lambda>x. snd x \<noteq> s) t) n v \<longleftrightarrow> v \<noteq> s \<and> assigned fr t n v"
  by (auto simp: assigned_def)

lemma assign_all_ok:
  "rt_ok fr t \<Longrightarrow> list_all nonempty rs \<Longrightarrow> list_all (numbered fr) rs \<Longrightarrow>
    \<exists>t'. rt_assign_all fr into rs dest t = Some t' \<and> rt_ok fr t' \<and>
      (\<forall>n v. assigned fr t' n v \<longleftrightarrow> (if in_ranges rs (fr n) then v = dest else assigned fr t n v))"
proof (induction rs arbitrary: t)
  case (Cons r rs)
  obtain s e where r: "r = make_range fr s e" using Cons.prems(3) by (auto simp: numbered_def)
  obtain t1 where t1: "rt_assign_range fr into r dest t = Some t1" "rt_ok fr t1"
    "\<forall>n v. assigned fr t1 n v \<longleftrightarrow> (if s \<le> n \<and> n \<le> e then v = dest else assigned fr t n v)"
    using assign_range_ok [OF Cons.prems(1), of s e dest] Cons.prems(2) by (auto simp: r)
  obtain t' where t': "rt_assign_all fr into rs dest t1 = Some t'" "rt_ok fr t'"
    "\<forall>n v. assigned fr t' n v \<longleftrightarrow> (if in_ranges rs (fr n) then v = dest else assigned fr t1 n v)"
    using Cons.IH [OF t1(2)] Cons.prems(2,3) by auto
  then show ?case using t1 by (intro exI [of _ t']) (simp add: r)
qed simp

lemma assign_ranges_ok:
  assumes "rt_ok fr t" and "ascending rs" and "list_all (numbered fr) rs"
  shows "\<exists>t'. rt_assign_ranges fr into rs dest t = Some (Inr t') \<and> well_formed t' \<and>
    (\<forall>n v. assigned fr t' n v \<longleftrightarrow> (if in_ranges rs (fr n) then v = dest else assigned fr t n v))"
proof -
  have "list_all nonempty rs" using assms(2) by (simp add: ascending_def)
  from assign_all_ok [OF assms(1) this assms(3), of dest] obtain t1 where t1: "rt_assign_all fr into rs dest t = Some t1"
    "rt_ok fr t1" "\<forall>n v. assigned fr t1 n v \<longleftrightarrow> (if in_ranges rs (fr n) then v = dest else assigned fr t n v)" by blast
  obtain t2 where t2: "rt_optimize into t1 = Some t2" "well_formed t2" "\<forall>n v. assigned fr t2 n v \<longleftrightarrow> assigned fr t1 n v"
    using rt_optimize_ok [OF t1(2)] by blast
  have "ranges_well_formed rs = Inr ()" using assms(2) by (simp add: ranges_well_formed_iff)
  then show ?thesis using t1 t2 by (intro exI [of _ t2]) (simp add: rt_assign_ranges_def)
qed

lemma insert_ok:
  assumes "rt_ok fr t" and "nonempty r" and "numbered fr r" and "are_disjoint [r] (map fst t)"
  shows "\<exists>t'. rt_insert into r s t = Some (Inr t') \<and> well_formed t' \<and>
    (\<forall>n v. assigned fr t' n v \<longleftrightarrow> range_contains r (fr n) \<and> v = s \<or> assigned fr t n v)"
proof -
  have asc: "ascending [r]" "ascending (map fst t)" using assms(1,2) by (simp_all add: ascending_Cons rt_ok_def)
  then have "\<forall>(q, _) \<in> set t. \<not> overlap r q" using assms(4) are_disjoint_iff [OF asc] by auto
  note ins = rt_ok_insert [OF assms(1-3) this, of s]
  obtain t' where t': "rt_optimize into (bt_insert r s t) = Some t'" "well_formed t'"
    "\<forall>n v. assigned fr t' n v \<longleftrightarrow> assigned fr (bt_insert r s t) n v"
    using rt_optimize_ok [OF ins(1)] by blast
  have "assigned fr (bt_insert r s t) n v \<longleftrightarrow> range_contains r (fr n) \<and> v = s \<or> assigned fr t n v" for n v
    unfolding assigned_def ins(2) by auto
  then show ?thesis using t' assms(2,4) by (intro exI [of _ t']) (simp add: rt_insert_def nonempty_def not_less)
qed

end

section \<open>Well-formed tables are canonical\<close>

context canister_numbering
begin

lemma assigned_first:
  assumes "rt_ok fr ((make_range fr a b, v) # t)"
  shows "assigned fr ((make_range fr a b, v) # t) a v"
    and "assigned fr ((make_range fr a b, v) # t) n w \<Longrightarrow> a \<le> n"
    and "assigned fr t n w \<Longrightarrow> b < n"
proof -
  have ab: "a \<le> b" using assms by (simp add: rt_ok_def ascending_Cons)
  then show "assigned fr ((make_range fr a b, v) # t) a v" by simp
  show later: "b < n" if "assigned fr t n w" for n w
  proof -
    obtain r where "(r, w) \<in> set t" "range_contains r (fr n)" using \<open>assigned fr t n w\<close> by (auto simp: assigned_def)
    moreover from this(1) have "fr b < r_start r" using assms by (force simp: rt_ok_def ascending_Cons)
    ultimately show ?thesis by (metis fr_less order.strict_trans2 range_contains_def)
  qed
  show "a \<le> n" if "assigned fr ((make_range fr a b, v) # t) n w" using that ab later [of n w] by auto
qed

text \<open>The first range of an optimised table extends as far as its subnet.\<close>

lemma first_maximal:
  assumes "well_formed ((make_range fr a b, v) # t)" and "b < d"
  shows "\<not> assigned fr ((make_range fr a b, v) # t) (b + 1) v"
proof
  have ok: "rt_ok fr ((make_range fr a b, v) # t)" and opt: "rt_is_optimized into ((make_range fr a b, v) # t) = Some True"
    using assms(1) by (simp_all add: well_formed_iff)
  have le: "b + 1 \<le> n \<longleftrightarrow> b < n" for n by (rule word_succ_le [OF assms(2)])
  assume "assigned fr ((make_range fr a b, v) # t) (b + 1) v"
  then have "assigned fr t (b + 1) v" using le [of "b + 1"] by (auto dest: leD)
  then obtain r where r: "(r, v) \<in> set t" "range_contains r (fr (b + 1))" by (auto simp: assigned_def)
  obtain p q where pq: "r = make_range fr p q" using rt_ok_entry [of t r v] ok r(1) by (auto simp: rt_ok_def ascending_Cons numbered_def)
  have "b < p" using ok r(1) by (force simp: pq rt_ok_def ascending_Cons)
  then have "p = b + 1" using r(2) le [of p] by (simp add: pq)
  then have "mergeable into (make_range fr a b, v) (r, v) = Some True" using mergeable_fr [OF \<open>b < p\<close>, of a v q v] by (simp add: pq)
  then show False using opt r(1) unfolding optimized_pairs [OF ok] by auto
qed

lemma first_end:
  assumes "well_formed ((make_range fr a b, v) # t)" and "rt_ok fr ((make_range fr a d, v) # u)"
    and "\<forall>n w. assigned fr ((make_range fr a b, v) # t) n w \<longleftrightarrow> assigned fr ((make_range fr a d, v) # u) n w"
  shows "d \<le> b"
proof (rule ccontr)
  assume "\<not> d \<le> b"
  then have bd: "b < d" by simp
  have "a \<le> b" using assms(1) by (simp add: well_formed_iff rt_ok_def ascending_Cons)
  then have "a \<le> b + 1" "b + 1 \<le> d" using word_succ_le [OF bd, of "b + 1"] word_succ_le [OF bd, of d] bd by auto
  then have "assigned fr ((make_range fr a d, v) # u) (b + 1) v" by simp
  then show False using assms(3) first_maximal [OF assms(1) bd] by blast
qed

lemma well_formed_Cons: "well_formed (x # t) \<Longrightarrow> well_formed t"
  using well_formed_iff [of "x # t"] well_formed_iff [of t] optimized_pairs [of "x # t"] optimized_pairs [of t]
  by (auto simp: rt_ok_def ascending_Cons)

lemma well_formed_unique:
  "well_formed t \<Longrightarrow> well_formed u \<Longrightarrow> \<forall>n v. assigned fr t n v \<longleftrightarrow> assigned fr u n v \<Longrightarrow> t = u"
proof (induction t arbitrary: u)
  case Nil
  show ?case
  proof (cases u)
    case (Cons y us)
    have "rt_ok fr (y # us)" using Nil.prems(2) by (simp add: Cons well_formed_iff)
    moreover from this obtain c d w where "y = (make_range fr c d, w)" by (cases y) (auto simp: rt_ok_def numbered_def)
    ultimately show ?thesis using Nil.prems(3) assigned_first(1) [of c d w us] by (simp add: Cons)
  qed simp
next
  case (Cons x t)
  have ok: "rt_ok fr (x # t)" using Cons.prems(1) by (simp add: well_formed_iff)
  from this obtain a b v where x: "x = (make_range fr a b, v)" by (cases x) (auto simp: rt_ok_def numbered_def)
  note fx = assigned_first [OF ok [unfolded x]]
  obtain y us where u: "u = y # us" using Cons.prems(3) fx(1) by (cases u) (auto simp: x)
  have oku: "rt_ok fr (y # us)" using Cons.prems(2) by (simp add: u well_formed_iff)
  from this obtain c d w where y: "y = (make_range fr c d, w)" by (cases y) (auto simp: rt_ok_def numbered_def)
  note fy = assigned_first [OF oku [unfolded y]]
  have same: "assigned fr ((make_range fr a b, v) # t) n z \<longleftrightarrow> assigned fr ((make_range fr c d, w) # us) n z" for n z
    using Cons.prems(3) by (simp add: x y u)
  have ac: "a = c" using fx(1,2) fy(1,2) same by (meson order.antisym)
  have vw: "v = w" using assigned_unique [OF oku [unfolded y]] fx(1) fy(1) same unfolding ac by blast
  have "d \<le> b" using Cons.prems(1) oku same by (intro first_end [of a b v t d us]) (simp_all add: x y ac vw)
  moreover have "b \<le> d" using Cons.prems(2) ok same by (intro first_end [of a d v us b t]) (simp_all add: x y u ac vw)
  ultimately have bd: "b = d" by simp
  have "assigned fr t n z \<longleftrightarrow> assigned fr us n z" for n z
    using same [of n z] fx(3) [of n z] fy(3) [of n z] unfolding ac vw bd assigned_Cons contains_make_range by (auto dest: leD)
  then have "t = us" using Cons.IH [of us] Cons.prems(1,2) well_formed_Cons u by blast
  then show ?case by (simp add: u x y ac vw bd)
qed

end

end
