(* ===== verification/RoutingTable_Spec.thy ===== *)
theory RoutingTable_Spec
  imports RoutingTable_Table
begin

text \<open>
  What ranges of canister IDs, the routing table and the canister migrations promise: the properties of the
  component, each with an application to concrete ranges or tables.
\<close>

section \<open>Reachable tables\<close>

text \<open>
  The tables that the operations produce. The ranges given to them consist of numbered canister IDs;
  \<open>from_map\<close> is the conversion of a map that does not need to be well-formed, which decoding uses.
\<close>

inductive rt_reachable :: "(u64 \<Rightarrow> 'c::linorder) \<Rightarrow> ('c \<Rightarrow> u64 option) \<Rightarrow> 'c routing_table \<Rightarrow> bool"
  for fr :: "u64 \<Rightarrow> 'c::linorder" and into :: "'c \<Rightarrow> u64 option" where
  new: "rt_reachable fr into []"
| insert:
    "rt_reachable fr into t \<Longrightarrow> numbered fr r \<Longrightarrow> rt_insert into r s t = Some (Inr t') \<Longrightarrow> rt_reachable fr into t'"
| insert_subnet:
    "rt_reachable fr into t \<Longrightarrow> routing_table_insert_subnet fr into t s = Some (Inr t') \<Longrightarrow> rt_reachable fr into t'"
| assign:
    "rt_reachable fr into t \<Longrightarrow> list_all (numbered fr) rs \<Longrightarrow> rt_assign_ranges fr into rs s t = Some (Inr t') \<Longrightarrow>
     rt_reachable fr into t'"
| remove: "rt_reachable fr into t \<Longrightarrow> rt_reachable fr into (rt_remove_subnet s t)"
| from_map:
    "list_all (numbered fr) (map fst m) \<Longrightarrow> rt_try_from into m = Some (Inr t') \<Longrightarrow> rt_reachable fr into t'"

text \<open>The subnet that a canister ID is assigned to, by the lookup of the code.\<close>

definition subnet_of :: "(u64 \<Rightarrow> 'c::linorder) \<Rightarrow> 'c routing_table \<Rightarrow> u64 \<Rightarrow> 'c option" where
  "subnet_of fr t n = (case rt_lookup_entry fr t (fr n) of Some (Some (_, s)) \<Rightarrow> Some s | _ \<Rightarrow> None)"

lemma find_mem: "find P xs = Some x \<Longrightarrow> x \<in> set xs \<and> P x"
  by (auto simp: find_Some_iff)

context canister_numbering
begin

lemma remove_subnet_eq: "rt_remove_subnet s t = filter (\<lambda>x. snd x \<noteq> s) t"
  by (simp add: rt_remove_subnet_def bt_retain_def case_prod_unfold)

lemma insert_cases:
  assumes "rt_insert into r s t = Some (Inr t')"
  shows "nonempty r" and "are_disjoint [r] (map fst t)"
  using assms by (auto simp: rt_insert_def nonempty_def split: if_splits)

lemma insert_subnet_cases:
  assumes "routing_table_insert_subnet fr into t s = Some (Inr t')"
  obtains a b where "rt_insert into (make_range fr a b) s t = Some (Inr t')"
  using assms by (auto simp: routing_table_insert_subnet_def bind_eq_Some_conv make_range_def)

lemma assign_cases:
  assumes "rt_assign_ranges fr into rs s t = Some (Inr t')"
  shows "ascending rs"
  using assms by (cases "ranges_well_formed rs") (auto simp: rt_assign_ranges_def ranges_well_formed_iff [symmetric])

lemma try_from_cases:
  assumes "rt_try_from into m = Some (Inr t')"
  shows "ascending (map fst m)" and "rt_optimize into m = Some t'"
  using assms by (cases "rt_validate m"; auto simp: rt_try_from_def rt_validate_iff [symmetric])+

lemma well_formed_insert:
  assumes "well_formed t" and "numbered fr r" and "rt_insert into r s t = Some (Inr t')"
  shows "well_formed t'"
  using insert_ok [of t r s] insert_cases [OF assms(3)] assms by (auto simp: well_formed_iff)

lemma reachable_well_formed: "rt_reachable fr into t \<Longrightarrow> well_formed t"
proof (induction rule: rt_reachable.induct)
  case new
  show ?case by (simp add: well_formed_iff rt_ok_def)
next
  case (insert t r s t')
  then show ?case using well_formed_insert by blast
next
  case (insert_subnet t s t')
  obtain a b where "rt_insert into (make_range fr a b) s t = Some (Inr t')"
    by (rule insert_subnet_cases [OF insert_subnet.hyps(2)])
  then show ?case using well_formed_insert [OF insert_subnet.IH numbered_make_range] by blast
next
  case (assign t rs s t')
  then show ?case using assign_ranges_ok [of t rs s] assign_cases [OF assign.hyps(3)] by (auto simp: well_formed_iff)
next
  case (remove t s)
  show ?case unfolding remove_subnet_eq by (rule well_formed_filter [OF remove.IH])
next
  case (from_map m t')
  then show ?case using try_from_cases [OF from_map.hyps(2)] rt_optimize_ok [of m] by (auto simp: rt_ok_def)
qed

lemma lookup_ok:
  assumes "rt_ok fr t"
  shows "lookup_in_ranges fr t c = Some (find (\<lambda>x. range_contains (fst x) c) t)"
proof -
  have "r_end (fst x) \<le> fr (- 1)" if "x \<in> set t" for x
    using rt_ok_entry [OF assms, of "fst x" "snd x"] that by (auto simp: numbered_def)
  then show ?thesis using assms by (intro lookup_in_ranges_find) (simp_all add: rt_ok_def)
qed

lemma find_assigned:
  assumes "rt_ok fr t"
  shows "(\<exists>r. find (\<lambda>x. range_contains (fst x) (fr n)) t = Some (r, s)) \<longleftrightarrow> assigned fr t n s"
proof
  assume "\<exists>r. find (\<lambda>x. range_contains (fst x) (fr n)) t = Some (r, s)"
  then show "assigned fr t n s" by (fastforce simp: assigned_def dest: find_mem)
next
  assume a: "assigned fr t n s"
  then obtain x where x: "find (\<lambda>x. range_contains (fst x) (fr n)) t = Some x"
    by (cases "find (\<lambda>x. range_contains (fst x) (fr n)) t") (auto simp: find_None_iff assigned_def)
  then have "assigned fr t n (snd x)" using find_mem [OF x] by (cases x) (auto simp: assigned_def)
  then have "snd x = s" using assigned_unique [OF assms a] by simp
  then show "\<exists>r. find (\<lambda>x. range_contains (fst x) (fr n)) t = Some (r, s)" using x by (cases x) simp
qed

lemma subnet_of_iff: "rt_ok fr t \<Longrightarrow> subnet_of fr t n = Some s \<longleftrightarrow> assigned fr t n s"
  using find_assigned [of t n s] by (auto simp: subnet_of_def rt_lookup_entry_def lookup_ok split: option.splits)

lemma subnet_of_eqI:
  assumes "rt_ok fr t" and "\<And>v. assigned fr t n v \<longleftrightarrow> x = Some v"
  shows "subnet_of fr t n = x"
  using subnet_of_iff [OF assms(1), of n] assms(2) by (metis not_None_eq)

lemma subnet_of_assign:
  assumes "rt_ok fr t" and "list_all (numbered fr) rs" and "rt_assign_ranges fr into rs s t = Some (Inr t')"
  shows "subnet_of fr t' n = (if in_ranges rs (fr n) then Some s else subnet_of fr t n)"
proof -
  have "rt_ok fr t'" and "\<forall>v. assigned fr t' n v \<longleftrightarrow> (if in_ranges rs (fr n) then v = s else assigned fr t n v)"
    using assign_ranges_ok [OF assms(1) assign_cases [OF assms(3)] assms(2), of s] assms(3) by (auto simp: well_formed_iff)
  then show ?thesis by (intro subnet_of_eqI) (auto simp: subnet_of_iff [OF assms(1)])
qed

lemma subnet_of_insert:
  assumes "rt_ok fr t" and "numbered fr r" and "rt_insert into r s t = Some (Inr t')"
  shows "subnet_of fr t' n = (if range_contains r (fr n) then Some s else subnet_of fr t n)"
proof -
  note c = insert_cases [OF assms(3)]
  have ok: "rt_ok fr t'" and new: "\<And>v. assigned fr t' n v \<longleftrightarrow> range_contains r (fr n) \<and> v = s \<or> assigned fr t n v"
    using insert_ok [OF assms(1) c(1) assms(2) c(2), of s] assms(3) by (auto simp: well_formed_iff)
  have "assigned fr t' n v \<longleftrightarrow> (if range_contains r (fr n) then Some s else subnet_of fr t n) = Some v" for v
    using assigned_unique [OF ok, of n s v] new [of v] new [of s] by (auto simp: subnet_of_iff [OF assms(1)])
  then show ?thesis by (rule subnet_of_eqI [OF ok])
qed

lemma subnet_of_remove:
  assumes "rt_ok fr t"
  shows "subnet_of fr (rt_remove_subnet s t) n = (if subnet_of fr t n = Some s then None else subnet_of fr t n)"
  unfolding remove_subnet_eq using assigned_unique [OF assms, of n s]
  by (intro subnet_of_eqI [OF rt_ok_filter [OF assms]]) (auto simp: assigned_filter subnet_of_iff [OF assms])

lemma are_disjoint_ids:
  assumes "ascending ls" and "ascending rs" and "list_all (numbered fr) ls" and "list_all (numbered fr) rs"
  shows "are_disjoint ls rs \<longleftrightarrow> (\<forall>n. \<not> (in_ranges ls (fr n) \<and> in_ranges rs (fr n)))"
proof -
  have "overlap l r \<longleftrightarrow> (\<exists>n. range_contains l (fr n) \<and> range_contains r (fr n))" if lr: "l \<in> set ls" "r \<in> set rs" for l r
  proof -
    obtain a b c d where ab: "l = make_range fr a b" "r = make_range fr c d" "a \<le> b" "c \<le> d"
      using assms lr by (force simp: ascending_def list_all_iff numbered_def)
    have "\<exists>n. (a \<le> n \<and> n \<le> b) \<and> c \<le> n \<and> n \<le> d" if "a \<le> d" "c \<le> b"
      using that ab(3,4) by (intro exI [of _ "max a c"]) (auto simp: max_def)
    then show ?thesis by (auto simp: ab)
  qed
  then show ?thesis unfolding are_disjoint_iff [OF assms(1,2)] in_ranges_def by blast
qed

end

section \<open>Properties of routing tables\<close>

text \<open>A sample table over the bytes of canister IDs: two subnets, whose IDs are 100 and 200.\<close>

abbreviation example_fr :: "u64 \<Rightarrow> u8 list" where
  "example_fr \<equiv> canister_id_from_u64"

abbreviation example_into :: "u8 list \<Rightarrow> u64 option" where
  "example_into \<equiv> canister_id_into_u64"

definition example_rt :: "u8 list routing_table" where
  "example_rt = [(make_range example_fr 0 9, [100]), (make_range example_fr 10 19, [200])]"

lemma example_reachable: "rt_reachable example_fr example_into example_rt"
proof (rule rt_reachable.from_map)
  show "list_all (numbered example_fr) (map fst example_rt)" by (simp add: example_rt_def)
  have "mergeable example_into (CanisterIdRange (example_fr 0) (example_fr 9), [100])
      (CanisterIdRange (example_fr 10) (example_fr 19), [200]) = Some False"
    by (simp add: mergeable_def)
  then show "rt_try_from example_into example_rt = Some (Inr example_rt)"
    by (simp add: rt_try_from_def rt_validate_def example_rt_def rt_optimize_def bt_collect_def less_canister_id_range_def make_range_def)
qed

text \<open>
  C30. Every table that the operations produce is well-formed: its ranges are not empty, ascending and disjoint, and no
  two neighbours can be merged. On such tables inserting and assigning ranges, looking up and routing do not panic.
\<close>

theorem routing_table_invariant:
  assumes "canister_numbering fr into" and "rt_reachable fr into t"
  shows "rt_well_formed into t = Some (Inr ()) \<and>
    (\<forall>r s. numbered fr r \<longrightarrow> rt_insert into r s t \<noteq> None) \<and>
    (\<forall>rs s. list_all (numbered fr) rs \<longrightarrow> rt_assign_ranges fr into rs s t \<noteq> None) \<and>
    (\<forall>p. rt_route fr t p \<noteq> None)"
proof -
  note wf = canister_numbering.reachable_well_formed [OF assms]
  then have ok: "rt_ok fr t" and good: "rt_well_formed into t = Some (Inr ())"
    by (simp_all add: canister_numbering.well_formed_def [OF assms(1)])
  have "rt_insert into r s t \<noteq> None" if "numbered fr r" for r s
  proof (cases "nonempty r \<and> are_disjoint [r] (map fst t)")
    case True
    then show ?thesis using canister_numbering.insert_ok [OF assms(1) ok _ that, of s] by auto
  qed (auto simp: rt_insert_def nonempty_def)
  moreover have "rt_assign_ranges fr into rs s t \<noteq> None" if "list_all (numbered fr) rs" for rs s
    using canister_numbering.assign_ranges_ok [OF assms(1) ok _ that, of s]
    by (cases "ranges_well_formed rs") (auto simp: rt_assign_ranges_def ranges_well_formed_iff [symmetric])
  moreover have "rt_route fr t p \<noteq> None" for p
    using canister_numbering.lookup_ok [OF assms(1) ok] by (auto simp: rt_route_def split: option.splits)
  ultimately show ?thesis using good by blast
qed

theorem routing_table_invariant_witness:
  "rt_well_formed example_into example_rt = Some (Inr ()) \<and> rt_route example_fr example_rt [7] \<noteq> None"
  using routing_table_invariant [OF cid.canister_numbering_axioms example_reachable] by blast

text \<open>
  C8. A routing table implements a map from canister IDs to subnets. Assigning ranges sends exactly the IDs in the ranges to
  the destination, inserting a range adds its IDs, and removing a subnet makes exactly its IDs unassigned.
\<close>

theorem routing_table_refines_map:
  assumes "canister_numbering fr into" and "rt_reachable fr into t"
  shows "(list_all (numbered fr) rs \<longrightarrow> rt_assign_ranges fr into rs s t = Some (Inr t') \<longrightarrow>
      subnet_of fr t' n = (if in_ranges rs (fr n) then Some s else subnet_of fr t n)) \<and>
    (numbered fr r \<longrightarrow> rt_insert into r s t = Some (Inr t') \<longrightarrow>
      subnet_of fr t' n = (if range_contains r (fr n) then Some s else subnet_of fr t n)) \<and>
    subnet_of fr (rt_remove_subnet s t) n = (if subnet_of fr t n = Some s then None else subnet_of fr t n)"
proof -
  have ok: "rt_ok fr t"
    using canister_numbering.reachable_well_formed [OF assms] by (simp add: canister_numbering.well_formed_iff [OF assms(1)])
  show ?thesis
    using canister_numbering.subnet_of_assign [OF assms(1) ok] canister_numbering.subnet_of_insert [OF assms(1) ok]
      canister_numbering.subnet_of_remove [OF assms(1) ok] by blast
qed

theorem routing_table_refines_map_witness:
  "\<exists>t'. rt_assign_ranges example_fr example_into [make_range example_fr 5 14] [100] example_rt = Some (Inr t') \<and>
     subnet_of example_fr t' 12 = Some [100] \<and> subnet_of example_fr t' 15 = subnet_of example_fr example_rt 15"
proof -
  have ok: "rt_ok example_fr example_rt" "ascending [make_range example_fr 5 14]" "list_all (numbered example_fr) [make_range example_fr 5 14]"
    by (simp_all add: rt_ok_def example_rt_def ascending_Cons)
  obtain t' where t': "rt_assign_ranges example_fr example_into [make_range example_fr 5 14] [100] example_rt = Some (Inr t')"
    using cid.assign_ranges_ok [OF ok, of "[100]"] by blast
  then show ?thesis
    using routing_table_refines_map [OF cid.canister_numbering_axioms example_reachable,
        of "[make_range example_fr 5 14]" "[100]" t' 12]
      routing_table_refines_map [OF cid.canister_numbering_axioms example_reachable,
        of "[make_range example_fr 5 14]" "[100]" t' 15] ok(3)
    by (intro exI [of _ t']) simp
qed

text \<open>
  C23. Tables are canonical: two tables that route every canister ID to the same subnet are equal, however they were built.
\<close>

theorem routing_table_canonical:
  assumes "canister_numbering fr into" and "rt_reachable fr into t" and "rt_reachable fr into u"
    and "\<forall>n. subnet_of fr t n = subnet_of fr u n"
  shows "t = u"
proof -
  note wf = canister_numbering.reachable_well_formed [OF assms(1,2)] canister_numbering.reachable_well_formed [OF assms(1,3)]
  have "rt_ok fr t" "rt_ok fr u" using wf by (simp_all add: canister_numbering.well_formed_iff [OF assms(1)])
  then have "\<forall>n v. assigned fr t n v \<longleftrightarrow> assigned fr u n v"
    using assms(4) by (simp add: canister_numbering.subnet_of_iff [OF assms(1), symmetric])
  then show ?thesis by (rule canister_numbering.well_formed_unique [OF assms(1) wf])
qed

theorem routing_table_canonical_witness:
  "rt_assign_ranges example_fr example_into [make_range example_fr 0 9] [100] example_rt = Some (Inr example_rt)"
proof -
  have ok: "rt_ok example_fr example_rt" "ascending [make_range example_fr 0 9]" "list_all (numbered example_fr) [make_range example_fr 0 9]"
    by (simp_all add: rt_ok_def example_rt_def ascending_Cons)
  obtain t' where t': "rt_assign_ranges example_fr example_into [make_range example_fr 0 9] [100] example_rt = Some (Inr t')"
    using cid.assign_ranges_ok [OF ok, of "[100]"] by blast
  have "subnet_of example_fr example_rt n = Some [100]" if "n \<le> 9" for n
    using that by (subst cid.subnet_of_iff [OF ok(1)]) (simp add: example_rt_def)
  then have "\<forall>n. subnet_of example_fr t' n = subnet_of example_fr example_rt n"
    using cid.subnet_of_assign [OF ok(1,3) t'] by simp
  then show ?thesis
    using t' routing_table_canonical [OF cid.canister_numbering_axioms
        rt_reachable.assign [OF example_reachable ok(3) t'] example_reachable] by simp
qed

section \<open>Properties of ranges\<close>

text \<open>
  Canister IDs made from numbers keep the order of the numbers, and the number can be recovered: the big-endian
  encoding, with its two sentinel bytes, in the lexicographic order of bytes.
\<close>

theorem canister_id_encoding:
  "canister_id_into_u64 (canister_id_from_u64 m) = Some m \<and>
   (canister_id_from_u64 m \<le> canister_id_from_u64 n \<longleftrightarrow> m \<le> n) \<and> length (canister_id_from_u64 m) = 10"
proof -
  have "length (canister_id_from_u64 m) = 10"
    by (simp add: canister_id_from_u64_def new_opaque_from_array_def length_to_be_bytes)
  then show ?thesis by simp
qed

text \<open>
  C34. Intersection and difference of well-formed lists of ranges are well-formed and contain exactly the IDs of the
  intersection and difference of sets; the test for disjointness tells whether there is a common ID.
\<close>

theorem range_algebra:
  assumes "canister_numbering fr into"
    and "ranges_well_formed ls = Inr ()" and "list_all (numbered fr) ls"
    and "ranges_well_formed rs = Inr ()" and "list_all (numbered fr) rs"
  shows "\<exists>i d. intersection ls rs = Inr i \<and> difference fr into ls rs = Some (Inr d) \<and>
    ranges_well_formed i = Inr () \<and> ranges_well_formed d = Inr () \<and>
    (\<forall>n. (in_ranges i (fr n) \<longleftrightarrow> in_ranges ls (fr n) \<and> in_ranges rs (fr n)) \<and>
         (in_ranges d (fr n) \<longleftrightarrow> in_ranges ls (fr n) \<and> \<not> in_ranges rs (fr n))) \<and>
    (are_disjoint ls rs \<longleftrightarrow> (\<forall>n. \<not> (in_ranges ls (fr n) \<and> in_ranges rs (fr n))))"
proof -
  have asc: "ascending ls" "ascending rs" using assms(2,4) by (simp_all add: ranges_well_formed_iff)
  note i = intersection_loop_ok [OF asc]
  obtain d where d: "difference_loop fr into ls rs = Some d" "ascending d"
    "\<forall>n. in_ranges d (fr n) \<longleftrightarrow> in_ranges ls (fr n) \<and> \<not> in_ranges rs (fr n)"
    using canister_numbering.difference_loop_ok [OF assms(1) asc(1) assms(3) asc(2) assms(5)] by blast
  have "intersection ls rs = Inr (intersection_loop ls rs)" "difference fr into ls rs = Some (Inr d)"
    using i d by (simp_all add: intersection_def difference_def ranges_try_from_ascending)
  moreover have "are_disjoint ls rs \<longleftrightarrow> (\<forall>n. \<not> (in_ranges ls (fr n) \<and> in_ranges rs (fr n)))"
    by (rule canister_numbering.are_disjoint_ids [OF assms(1) asc assms(3,5)])
  ultimately show ?thesis using i d by (simp add: ranges_well_formed_iff)
qed

theorem range_algebra_witness:
  "\<exists>d. difference example_fr example_into [make_range example_fr 0 9] [make_range example_fr 4 6] = Some (Inr d) \<and>
     in_ranges d (example_fr 3) \<and> \<not> in_ranges d (example_fr 4)"
proof -
  have "ranges_well_formed [make_range example_fr 0 9] = Inr ()" "ranges_well_formed [make_range example_fr 4 6] = Inr ()"
    by (simp_all add: ranges_well_formed_iff ascending_Cons)
  then show ?thesis
    using range_algebra [OF cid.canister_numbering_axioms, of "[make_range example_fr 0 9]" "[make_range example_fr 4 6]"] by auto
qed

text \<open>
  \<open>total_count\<close> is the number of canister IDs in the ranges, for which \<open>u128\<close> suffices; \<open>locate\<close> selects the ID with the given
  position among them; \<open>generate_canister_id\<close> gives the next ID after the previous one, or none
  if all have been used.
\<close>

theorem ranges_enumerated:
  assumes "canister_numbering fr into" and "ranges_well_formed rs = Inr ()" and "list_all (numbered fr) rs"
  shows "\<exists>total. total_count into rs = Some total \<and> unat total = card {n. in_ranges rs (fr n)} \<and>
    (\<forall>loc. if unat loc < unat total
           then \<exists>n. locate fr into rs loc = Some (fr n) \<and> in_ranges rs (fr n) \<and>
             card {m. in_ranges rs (fr m) \<and> m < n} = unat loc
           else locate fr into rs loc = None) \<and>
    (\<forall>p. case ranges_generate_canister_id fr into rs (Some (fr p)) of
           Some (Some c) \<Rightarrow> (\<exists>n. c = fr n \<and> in_ranges rs c \<and> p < n \<and> (\<forall>m. in_ranges rs (fr m) \<longrightarrow> p < m \<longrightarrow> n \<le> m))
         | Some None \<Rightarrow> \<forall>m. in_ranges rs (fr m) \<longrightarrow> m \<le> p
         | None \<Rightarrow> False)"
proof -
  have asc: "ascending rs" using assms(2) by (simp add: ranges_well_formed_iff)
  note num = assms(1) and ids = canister_numbering.ids_def [OF assms(1)]
  obtain total where total: "total_count into rs = Some total" "unat total = card {n. in_ranges rs (fr n)}"
    using canister_numbering.total_count_ok [OF num asc assms(3)] by (auto simp: ids)
  have "if unat loc < unat total
      then \<exists>n. locate fr into rs loc = Some (fr n) \<and> in_ranges rs (fr n) \<and> card {m. in_ranges rs (fr m) \<and> m < n} = unat loc
      else locate fr into rs loc = None" for loc
    using canister_numbering.locate_ok [OF num asc assms(3) total(1), of loc, unfolded ids mem_Collect_eq] .
  moreover have "case ranges_generate_canister_id fr into rs (Some (fr p)) of
        Some (Some c) \<Rightarrow> (\<exists>n. c = fr n \<and> in_ranges rs c \<and> p < n \<and> (\<forall>m. in_ranges rs (fr m) \<longrightarrow> p < m \<longrightarrow> n \<le> m))
      | Some None \<Rightarrow> \<forall>m. in_ranges rs (fr m) \<longrightarrow> m \<le> p
      | None \<Rightarrow> False" for p
  proof -
    obtain res where "ranges_generate_canister_id fr into rs (Some (fr p)) = Some (map_option fr res)"
      "canister_numbering.is_next {n. in_ranges rs (fr n)} p res"
      using canister_numbering.generate_ok [OF num asc assms(3), of p] by (auto simp: ids)
    then show ?thesis by (cases res) (auto simp: canister_numbering.is_next_def [OF num])
  qed
  ultimately show ?thesis using total by blast
qed

theorem ranges_enumerated_witness:
  "\<exists>k. total_count example_into [make_range example_fr 0 1, make_range example_fr 8 9] = Some k \<and>
     unat k = card {n :: u64. n \<le> 1 \<or> 8 \<le> n \<and> n \<le> 9}"
proof -
  let ?rs = "[make_range example_fr 0 1, make_range example_fr 8 9]"
  have "ranges_well_formed ?rs = Inr ()" "list_all (numbered example_fr) ?rs"
    by (simp_all add: ranges_well_formed_iff ascending_Cons)
  from ranges_enumerated [OF cid.canister_numbering_axioms this]
  have "\<exists>k. total_count example_into ?rs = Some k \<and> unat k = card {n. in_ranges ?rs (example_fr n)}" by blast
  moreover have "{n. in_ranges ?rs (example_fr n)} = {n. n \<le> 1 \<or> 8 \<le> n \<and> n \<le> 9}" by simp
  ultimately show ?thesis by simp
qed

section \<open>Encoding\<close>

lemma range_roundtrip:
  assumes "\<And>c. dec (enc c) = Some c"
  shows "range_try_from dec (range_to_pb enc r) = Some (Inr r)"
  by (simp add: range_try_from_def range_to_pb_def canister_id_roundtrip assms)

lemma insert_new_fresh: "bt_wf m \<Longrightarrow> \<forall>e \<in> set m. fst e < k \<Longrightarrow> insert_new k v m = Some (Inr (m @ [(k, v)]))"
proof -
  assume "bt_wf m" and less: "\<forall>e \<in> set m. fst e < k"
  have "bt_insert k v m = m @ [(k, v)]" using less by (induction k v m rule: bt_insert.induct) auto
  moreover have "\<not> bt_contains_key m k" using less by (auto simp: bt_contains_key_def bt_get_def map_of_eq_None_iff)
  ultimately show ?thesis by (simp add: insert_new_def)
qed

lemma rt_decode_encoded:
  assumes "\<And>c. dec (enc c) = Some c"
  shows "bt_wf (m @ t) \<Longrightarrow> rt_decode_entries dec (rt_to_pb enc t) m = Some (Inr (m @ t))"
proof (induction t arbitrary: m)
  case (Cons e t)
  obtain r s where e: "e = (r, s)" by (cases e)
  have "insert_new r s m = Some (Inr (m @ [(r, s)]))"
    using Cons.prems by (intro insert_new_fresh) (auto simp: e bt_wf_def sorted_wrt_append)
  then show ?case
    using Cons.IH [of "m @ [e]"] Cons.prems
    by (simp add: e rt_to_pb_def try_from_option_field_def range_roundtrip subnet_id_try_from_protobuf_def
        subnet_id_into_protobuf_def assms)
qed (simp add: rt_to_pb_def)

lemma cm_decode_encoded:
  assumes "\<And>c. dec (enc c) = Some c"
  shows "bt_wf (m @ t) \<Longrightarrow> cm_decode_entries dec (cm_to_pb enc t) m = Some (Inr (m @ t))"
proof (induction t arbitrary: m)
  case (Cons e t)
  obtain r ss where e: "e = (r, ss)" by (cases e)
  have "insert_new r ss m = Some (Inr (m @ [(r, ss)]))"
    using Cons.prems by (intro insert_new_fresh) (auto simp: e bt_wf_def sorted_wrt_append)
  moreover have "try_map (subnet_id_try_from_protobuf dec) (map (subnet_id_into_protobuf enc) ss) = Some (Inr ss)"
    by (rule try_map_roundtrip) (simp add: subnet_id_try_from_protobuf_def subnet_id_into_protobuf_def assms)
  ultimately show ?case
    using Cons.IH [of "m @ [e]"] Cons.prems by (simp add: e cm_to_pb_def try_from_option_field_def range_roundtrip assms)
qed (simp add: cm_to_pb_def)

text \<open>
  Decoding an encoded routing table gives the table back, and so for well-formed canister migrations.
\<close>

theorem routing_table_roundtrip:
  assumes "canister_numbering fr into" and "rt_reachable fr into t" and "cm_well_formed m = Inr ()"
    and "\<And>c. dec (enc c) = Some c"
  shows "rt_try_from_pb into dec (rt_to_pb enc t) = Some (Inr t) \<and> cm_try_from_pb dec (cm_to_pb enc m) = Some (Inr m)"
proof
  note wf = canister_numbering.reachable_well_formed [OF assms(1,2)]
  then have ok: "rt_ok fr t" by (simp add: canister_numbering.well_formed_iff [OF assms(1)])
  have "rt_try_from into t = Some (Inr t)"
  proof -
    obtain t' where t': "rt_optimize into t = Some t'" "canister_numbering.well_formed fr into t'"
      "\<forall>n v. assigned fr t' n v \<longleftrightarrow> assigned fr t n v"
      using canister_numbering.rt_optimize_ok [OF assms(1) ok] by blast
    then have "t' = t" using canister_numbering.well_formed_unique [OF assms(1) t'(2) wf] by blast
    moreover have "rt_validate t = Inr ()" using ok by (simp add: rt_validate_iff rt_ok_def)
    ultimately show ?thesis using t'(1) by (simp add: rt_try_from_def)
  qed
  then show "rt_try_from_pb into dec (rt_to_pb enc t) = Some (Inr t)"
    using rt_decode_encoded [of dec enc "[]" t] assms(4) rt_ok_wf [OF ok] by (simp add: rt_try_from_pb_def)
  have "bt_wf m" using assms(3) by (simp add: cm_well_formed_iff ascending_bt_wf)
  then show "cm_try_from_pb dec (cm_to_pb enc m) = Some (Inr m)"
    using cm_decode_encoded [of dec enc "[]" m] assms(3,4) by (simp add: cm_try_from_pb_def cm_try_from_def)
qed

theorem routing_table_roundtrip_witness:
  "rt_try_from_pb example_into Some (rt_to_pb id example_rt) = Some (Inr example_rt)"
proof -
  have "cm_well_formed ([] :: u8 list canister_migrations) = Inr ()" by (simp add: cm_well_formed_def)
  then show ?thesis
    using routing_table_roundtrip [OF cid.canister_numbering_axioms example_reachable, of "[]" Some id] by simp
qed

section \<open>Canister migrations\<close>

lemma foldl_insert_set:
  "bt_wf m \<Longrightarrow> sorted_wrt (<) rs \<Longrightarrow> set rs \<inter> fst ` set m = {} \<Longrightarrow>
    bt_wf (foldl (\<lambda>m r. bt_insert r v m) m rs) \<and>
    set (foldl (\<lambda>m r. bt_insert r v m) m rs) = set m \<union> (\<lambda>r. (r, v)) ` set rs"
proof (induction rs arbitrary: m)
  case (Cons r rs)
  have fresh: "r \<notin> fst ` set m" using Cons.prems(3) by auto
  note ins = set_bt_insert_fresh [OF Cons.prems(1) fresh, of v]
  have "r \<notin> set rs" using Cons.prems(2) by auto
  then show ?case using Cons.IH [of "bt_insert r v m"] Cons.prems bt_wf_insert [OF Cons.prems(1), of r v] ins by auto
qed simp

lemma bt_wf_set_eq:
  assumes "bt_wf m" and "bt_wf m'" and "set m = set m'"
  shows "m = m'"
proof -
  have "sorted_wrt (\<lambda>a b. fst a < fst b) m" "sorted_wrt (\<lambda>a b. fst a < fst b) m'"
    using assms(1,2) by (simp_all add: bt_wf_def sorted_wrt_map)
  then show ?thesis using assms(3)
  proof (induction m arbitrary: m')
    case (Cons x m)
    then obtain y m'' where m': "m' = y # m''" by (cases m') auto
    have "x = y" using Cons.prems by (auto simp: m') (metis insert_iff order.asym)
    moreover have "set m = set m''" using Cons.prems \<open>x = y\<close> by (auto simp: m')
    ultimately show ?case using Cons.IH [of m''] Cons.prems by (simp add: m')
  qed simp
qed

text \<open>The entries after inserting ranges that do not overlap those of the migrations.\<close>

lemma cm_inserted:
  assumes "cm_well_formed m = Inr ()" and "cm_insert_ranges rs s d m = Inr m'"
  shows "ascending rs" and "bt_wf m'" and "set m' = set m \<union> (\<lambda>r. (r, [s, d])) ` set rs"
    and "\<forall>(r, _) \<in> set m. \<forall>q \<in> set rs. \<not> overlap r q"
proof -
  have asc: "ascending (map fst m)" using assms(1) by (simp add: cm_well_formed_iff)
  show rs: "ascending rs" using assms(2) by (cases "ranges_well_formed rs")
      (auto simp: cm_insert_ranges_def ranges_well_formed_iff [symmetric])
  then have ok: "ranges_well_formed rs = Inr ()" by (simp add: ranges_well_formed_iff)
  show apart: "\<forall>(r, _) \<in> set m. \<forall>q \<in> set rs. \<not> overlap r q"
    using assms(2) are_disjoint_iff [OF asc rs] by (auto simp: cm_insert_ranges_def ok split: if_splits)
  have "\<forall>q \<in> set rs. overlap q q" using rs by (auto simp: ascending_def list_all_iff overlap_def nonempty_def)
  then have "set rs \<inter> fst ` set m = {}" using apart by fastforce
  note ins = foldl_insert_set [OF ascending_bt_wf [OF asc] ascending_sorted [OF rs] this, of "[s, d]"]
  have m': "m' = foldl (\<lambda>m r. bt_insert r [s, d] m) m rs"
    using assms(2) by (simp add: cm_insert_ranges_def ok split: if_splits)
  show "bt_wf m'" "set m' = set m \<union> (\<lambda>r. (r, [s, d])) ` set rs" using ins by (simp_all add: m')
qed

lemma cm_inserted_ascending:
  assumes "cm_well_formed m = Inr ()" and "cm_insert_ranges rs s d m = Inr m'"
  shows "ascending (map fst m')"
proof -
  note ins = cm_inserted [OF assms]
  have keys: "set (map fst m') = set (map fst m) \<union> set rs" by (simp add: ins(3) image_Un image_image)
  have asc: "ascending (map fst m)" using assms(1) by (simp add: cm_well_formed_iff)
  have one: "\<forall>r \<in> set (map fst m). nonempty r" "\<forall>r \<in> set (map fst m). \<forall>q \<in> set (map fst m). r \<noteq> q \<longrightarrow> \<not> overlap r q"
    using ascending_iff [OF ascending_sorted [OF asc]] asc by blast+
  have two: "\<forall>r \<in> set rs. nonempty r" "\<forall>r \<in> set rs. \<forall>q \<in> set rs. r \<noteq> q \<longrightarrow> \<not> overlap r q"
    using ascending_iff [OF ascending_sorted [OF ins(1)]] ins(1) by blast+
  have cross: "\<not> overlap r q \<and> \<not> overlap q r" if "r \<in> set (map fst m)" "q \<in> set rs" for r q
    using ins(4) that overlap_sym [of r q] by auto
  have "sorted_wrt (<) (map fst m')" using ins(2) by (simp add: bt_wf_def)
  from ascending_iff [OF this] show ?thesis unfolding keys using one two cross by blast
qed

lemma cm_removed:
  assumes "cm_well_formed m = Inr ()" and "cm_insert_ranges rs s d m = Inr m'"
  shows "cm_remove_ranges rs [s, d] m' = Inr m"
proof -
  note ins = cm_inserted [OF assms]
  have asc: "ascending (map fst m)" using assms(1) by (simp add: cm_well_formed_iff)
  have "list_all (\<lambda>r. bt_get m' r = Some [s, d]) rs"
    using bt.get_iff_entry [OF ins(2)] by (auto simp: list_all_iff ins(3))
  moreover have "filter (\<lambda>e. fst e \<notin> set rs) m' = m"
  proof (rule bt_wf_set_eq)
    have "\<forall>q \<in> set rs. overlap q q" using ins(1) by (auto simp: ascending_def list_all_iff overlap_def nonempty_def)
    then show "set (filter (\<lambda>e. fst e \<notin> set rs) m') = set m" using ins(4) by (fastforce simp: ins(3))
  qed (simp_all add: bt_wf_filter ins(2) ascending_bt_wf asc)
  ultimately show ?thesis by (simp add: cm_remove_ranges_def foldl_bt_remove)
qed

text \<open>
  Migrations: inserting ranges for a move between two different subnets keeps the migrations well-formed, the lookup
  gives the trace of the move exactly for IDs in the ranges and is unchanged elsewhere; removing the
  same ranges with the same trace restores the migrations.
\<close>

theorem migrations_insert_remove:
  assumes "canister_numbering fr into" and "cm_well_formed m = Inr ()" and "list_all (numbered fr) (map fst m)"
    and "list_all (numbered fr) rs" and "s \<noteq> d" and "cm_insert_ranges rs s d m = Inr m'"
  shows "cm_well_formed m' = Inr () \<and>
    cm_lookup fr m' (fr n) = (if in_ranges rs (fr n) then Some (Some [s, d]) else cm_lookup fr m (fr n)) \<and>
    cm_remove_ranges rs [s, d] m' = Inr m"
proof -
  note ins = cm_inserted [OF assms(2,6)] and asc' = cm_inserted_ascending [OF assms(2,6)]
  have asc: "ascending (map fst m)" using assms(2) by (simp add: cm_well_formed_iff)
  have keys: "set (map fst m') = set (map fst m) \<union> set rs" by (simp add: ins(3) image_Un image_image)
  have "list_all (\<lambda>(_, t). trace_ok t) m'"
    using assms(2,5) by (auto simp: list_all_iff ins(3) cm_well_formed_iff trace_ok_def)
  then have wf: "cm_well_formed m' = Inr ()" using asc' by (simp add: cm_well_formed_iff)
  have ok: "rt_ok fr m" "rt_ok fr m'"
    using asc asc' assms(3,4) keys by (auto simp: rt_ok_def list_all_iff)
  have look: "cm_lookup fr t (fr n) = Some (map_option snd (find (\<lambda>x. range_contains (fst x) (fr n)) t))" if "rt_ok fr t" for t
    using canister_numbering.lookup_ok [OF assms(1) that] by (simp add: cm_lookup_def)
  have found: "map_option snd (find (\<lambda>x. range_contains (fst x) (fr n)) t) = Some v \<longleftrightarrow> assigned fr t n v" if "rt_ok fr t" for t v
    using canister_numbering.find_assigned [OF assms(1) that, of n v] by auto
  have new: "assigned fr m' n v \<longleftrightarrow> v = [s, d] \<and> in_ranges rs (fr n) \<or> assigned fr m n v" for v
    by (auto simp: assigned_def ins(3) in_ranges_def)
  have "cm_lookup fr m' (fr n) = (if in_ranges rs (fr n) then Some (Some [s, d]) else cm_lookup fr m (fr n))"
  proof (cases "in_ranges rs (fr n)")
    case True
    then show ?thesis using found [OF ok(2), of "[s, d]"] new [of "[s, d]"] by (simp add: look [OF ok(2)])
  next
    case False
    then have "map_option snd (find (\<lambda>x. range_contains (fst x) (fr n)) m') = map_option snd (find (\<lambda>x. range_contains (fst x) (fr n)) m)"
      using found [OF ok(1)] found [OF ok(2)] new by (metis option.exhaust)
    then show ?thesis using False by (simp add: look [OF ok(1)] look [OF ok(2)])
  qed
  moreover have "cm_remove_ranges rs [s, d] m' = Inr m"
    by (rule cm_removed [OF assms(2,6)])
  ultimately show ?thesis using wf by blast
qed

theorem migrations_insert_remove_witness:
  "\<exists>m'. cm_insert_ranges [make_range example_fr 3 5] [100] [200] [] = Inr m' \<and>
     cm_lookup example_fr m' (example_fr 4) = Some (Some [[100], [200]]) \<and>
     cm_remove_ranges [make_range example_fr 3 5] [[100], [200]] m' = Inr []"
proof -
  have "ranges_well_formed [make_range example_fr 3 5] = Inr ()" by (simp add: ranges_well_formed_iff ascending_Cons)
  then have ins: "cm_insert_ranges [make_range example_fr 3 5] [100] [200] [] = Inr [(make_range example_fr 3 5, [[100], [200]])]"
    by (simp add: cm_insert_ranges_def)
  have "cm_well_formed ([] :: u8 list canister_migrations) = Inr ()" by (simp add: cm_well_formed_def)
  from migrations_insert_remove [OF cid.canister_numbering_axioms this _ _ _ ins, of 4] ins show ?thesis by simp
qed

text \<open>
  \<open>insert_ranges\<close> does not reject a move from a subnet to itself: the migrations it returns fail their own check of
  well-formedness, which is a debug assertion at the end of the operation.
\<close>

lemma migrations_same_subnet:
  "cm_insert_ranges [make_range example_fr 3 5] s s [] = Inr [(make_range example_fr 3 5, [s, s])] \<and>
   cm_well_formed [(make_range example_fr 3 5, [s, s])] = Inl CanisterMigrationsInvalidTrace"
proof -
  have "ranges_well_formed [make_range example_fr 3 5] = Inr ()" by (simp add: ranges_well_formed_iff ascending_Cons)
  then show ?thesis by (simp add: cm_insert_ranges_def cm_well_formed_def trace_ok_def)
qed

section \<open>Inserting a subnet\<close>

text \<open>
  \<open>routing_table_insert_subnet\<close> gives the subnet the next \<open>CANISTER_IDS_PER_SUBNET\<close> IDs after the last range. It
  overflows, and so panics, when fewer are left.
\<close>

lemma insert_subnet_overflow:
  assumes "canister_numbering fr into" and "t \<noteq> []" and "r_end (fst (last t)) = fr n" and "2 ^ 64 \<le> unat n + 1 + 2 ^ 20"
  shows "routing_table_insert_subnet fr into t s = None"
proof -
  have c: "unat CANISTER_IDS_PER_SUBNET = 2 ^ 20" by (simp add: CANISTER_IDS_PER_SUBNET_def push_bit_eq_mult)
  note into = canister_numbering.into_fr [OF assms(1), of n]
  show ?thesis
  proof (cases "add_checked n 1")
    case None
    then show ?thesis using assms(2,3) into by (simp add: routing_table_insert_subnet_def)
  next
    case (Some x)
    have "\<not> unat x + unat CANISTER_IDS_PER_SUBNET < 2 ^ 64"
      using add_checked_Some [OF Some] assms(4) unfolding c by simp
    then have "add_checked x CANISTER_IDS_PER_SUBNET = None" unfolding add_checked_def by simp
    then show ?thesis using Some assms(2,3) into by (simp add: routing_table_insert_subnet_def)
  qed
qed

end
