(* ===== verification/IntMap.thy ===== *)
theory IntMap
  imports Prelude
begin

text \<open>
  Maps with integer keys (\<open>rs/replicated_state/src/page_map/int_map.rs\<close>): big-endian Patricia trees, which
  the page maps of canisters are made of. Trees are persistent, so that \<open>Arc\<close> and the in-place updates of
  unshared nodes are not visible; a branching bit, a \<open>u8\<close> of at most 63, is a natural number.
\<close>

unbundle bit_operations_syntax

section \<open>Bits of keys\<close>

text \<open>\<open>u64::leading_zeros\<close> of the standard library.\<close>

definition leading_zeros :: "u64 \<Rightarrow> nat" where
  "leading_zeros x = length (takeWhile (\<lambda>i. \<not> bit x i) (rev [0..<64]))"

text \<open>The subtraction underflows, and so panics, when the patterns are equal.\<close>

definition branching_bit :: "u64 \<Rightarrow> u64 \<Rightarrow> nat option" where
  "branching_bit p0 p1 = sub_usize 63 (leading_zeros (p0 XOR p1))"

definition shifted :: "nat \<Rightarrow> u64" where
  "shifted b = push_bit b 1"

definition mask_key :: "u64 \<Rightarrow> nat \<Rightarrow> u64" where
  "mask_key key b = (let m = shifted b in key AND NOT (m OR (m - 1)))"

definition matches_prefix :: "u64 \<Rightarrow> u64 \<Rightarrow> nat \<Rightarrow> bool" where
  "matches_prefix key branch_prefix b \<longleftrightarrow> mask_key key b = branch_prefix"

definition goes_left :: "u64 \<Rightarrow> nat \<Rightarrow> bool" where
  "goes_left key b \<longleftrightarrow> key AND shifted b = 0"

section \<open>Trees\<close>

datatype 'v tree =
    Empty
  | Leaf u64 'v
  | Branch u64 nat "'v tree" "'v tree"

definition join :: "u64 \<Rightarrow> 'v tree \<Rightarrow> u64 \<Rightarrow> 'v tree \<Rightarrow> 'v tree option" where
  "join p0 t0 p1 t1 =
     do {
       b \<leftarrow> branching_bit p0 p1;
       Some (if goes_left p0 b then Branch (mask_key p0 b) b t0 t1 else Branch (mask_key p0 b) b t1 t0)
     }"

fun tree_get :: "'v tree \<Rightarrow> u64 \<Rightarrow> 'v option" where
  "tree_get Empty key = None"
| "tree_get (Leaf k v) key = (if key = k then Some v else None)"
| "tree_get (Branch prefix b left right) key =
     (if \<not> matches_prefix key prefix b then None
      else if goes_left key b then tree_get left key
      else tree_get right key)"

text \<open>The loops of \<open>min_key\<close> and \<open>max_key\<close> descend on one side.\<close>

fun tree_min_key :: "'v tree \<Rightarrow> u64 option" where
  "tree_min_key Empty = None"
| "tree_min_key (Leaf k v) = Some k"
| "tree_min_key (Branch prefix b left right) = tree_min_key left"

fun tree_max_key :: "'v tree \<Rightarrow> u64 option" where
  "tree_max_key Empty = None"
| "tree_max_key (Leaf k v) = Some k"
| "tree_max_key (Branch prefix b left right) = tree_max_key right"

fun tree_bounds :: "'v tree \<Rightarrow> u64 \<Rightarrow> u64 option \<times> u64 option" where
  "tree_bounds Empty key = (None, None)"
| "tree_bounds (Leaf k v) key =
     (if key < k then (None, Some k) else if key = k then (Some key, Some key) else (Some k, None))"
| "tree_bounds (Branch prefix b left right) key =
     (if mask_key key b < prefix then (None, tree_min_key left)
      else if prefix < mask_key key b then (tree_max_key right, None)
      else if goes_left key b then
        (let (s, e) = tree_bounds left key in
         if e = None then (s, tree_min_key right) else (s, e))
      else
        (let (s, e) = tree_bounds right key in
         if s = None then (tree_max_key left, e) else (s, e)))"

fun tree_insert :: "'v tree \<Rightarrow> u64 \<Rightarrow> 'v \<Rightarrow> 'v tree option" where
  "tree_insert Empty key value = Some (Leaf key value)"
| "tree_insert (Leaf k v) key value =
     (if k = key then Some (Leaf k value) else join key (Leaf key value) k (Leaf k v))"
| "tree_insert (Branch prefix b left right) key value =
     (if matches_prefix key prefix b then
        (if goes_left key b
         then do { l \<leftarrow> tree_insert left key value; Some (Branch prefix b l right) }
         else do { r \<leftarrow> tree_insert right key value; Some (Branch prefix b left r) })
      else join key (Leaf key value) prefix (Branch prefix b left right))"

function (sequential) tree_union :: "'v tree \<Rightarrow> 'v tree \<Rightarrow> 'v tree option" where
  "tree_union Empty t = Some t"
| "tree_union t Empty = Some t"
| "tree_union (Leaf k v) t = tree_insert t k v"
| "tree_union t (Leaf k v) = (if tree_get t k \<noteq> None then Some t else tree_insert t k v)"
| "tree_union (Branch p0 b0 left0 right0) (Branch p1 b1 left1 right1) =
     (if p0 = p1 \<and> b0 = b1 then
        do {
          l \<leftarrow> tree_union left0 left1;
          r \<leftarrow> tree_union right0 right1;
          Some (Branch p0 b0 l r)
        }
      else if b1 < b0 \<and> matches_prefix p1 p0 b0 then
        (if goes_left p1 b0
         then do { l \<leftarrow> tree_union left0 (Branch p1 b1 left1 right1); Some (Branch p0 b0 l right0) }
         else do { r \<leftarrow> tree_union right0 (Branch p1 b1 left1 right1); Some (Branch p0 b0 left0 r) })
      else if b0 < b1 \<and> matches_prefix p0 p1 b1 then
        (if goes_left p0 b1
         then do { l \<leftarrow> tree_union (Branch p0 b0 left0 right0) left1; Some (Branch p1 b1 l right1) }
         else do { r \<leftarrow> tree_union (Branch p0 b0 left0 right0) right1; Some (Branch p1 b1 left1 r) })
      else join p0 (Branch p0 b0 left0 right0) p1 (Branch p1 b1 left1 right1))"
  by pat_completeness auto
termination
  by (relation "measure (\<lambda>(s, t). size s + size t)") auto

fun tree_len :: "'v tree \<Rightarrow> nat" where
  "tree_len Empty = 0"
| "tree_len (Leaf k v) = 1"
| "tree_len (Branch prefix b left right) = tree_len left + tree_len right"

section \<open>Maps\<close>

type_synonym 'v int_map = "'v tree"

definition im_new :: "'v int_map" where
  "im_new = Empty"

definition im_get :: "'v int_map \<Rightarrow> u64 \<Rightarrow> 'v option" where
  "im_get m key = tree_get m key"

definition im_bounds :: "'v int_map \<Rightarrow> u64 \<Rightarrow> u64 option \<times> u64 option" where
  "im_bounds m key = tree_bounds m key"

definition im_insert :: "'v int_map \<Rightarrow> u64 \<Rightarrow> 'v \<Rightarrow> 'v int_map option" where
  "im_insert m key value = tree_insert m key value"

definition im_union :: "'v int_map \<Rightarrow> 'v int_map \<Rightarrow> 'v int_map option" where
  "im_union m other = tree_union m other"

definition im_len :: "'v int_map \<Rightarrow> nat" where
  "im_len m = tree_len m"

definition im_is_empty :: "'v int_map \<Rightarrow> bool" where
  "im_is_empty m \<longleftrightarrow> (case m of Empty \<Rightarrow> True | _ \<Rightarrow> False)"

definition im_max_key :: "'v int_map \<Rightarrow> u64 option" where
  "im_max_key m = tree_max_key m"

definition im_from_iter :: "(u64 \<times> 'v) list \<Rightarrow> 'v int_map option" where
  "im_from_iter es = run_ops (\<lambda>(k, v) m. im_insert m k v) es im_new"

section \<open>Iteration\<close>

text \<open>
  The stack of subtrees that have not been visited; its top is the head of the list. \<open>descend\<close> is the inner
  loop to the leftmost subtree.
\<close>

fun descend :: "'v tree \<Rightarrow> 'v tree list \<Rightarrow> 'v tree \<times> 'v tree list" where
  "descend (Branch prefix b left right) stack = descend left (right # stack)"
| "descend p stack = (p, stack)"

definition iter_new :: "'v tree \<Rightarrow> 'v tree list" where
  "iter_new root = [root]"

definition iter_next :: "'v tree list \<Rightarrow> (u64 \<times> 'v) option \<times> 'v tree list" where
  "iter_next stack =
     (case stack of
        [] \<Rightarrow> (None, [])
      | p # ps \<Rightarrow>
          (case descend p ps of
             (Leaf k v, stack1) \<Rightarrow> (Some (k, v), stack1)
           | (_, stack1) \<Rightarrow> (None, stack1)))"

definition im_iter :: "'v int_map \<Rightarrow> 'v tree list" where
  "im_iter m = iter_new m"

text \<open>What the first \<open>n\<close> calls of \<open>next\<close> return, up to the first \<open>None\<close>.\<close>

fun iter_collect :: "nat \<Rightarrow> 'v tree list \<Rightarrow> (u64 \<times> 'v) list" where
  "iter_collect 0 stack = []"
| "iter_collect (Suc n) stack =
     (case iter_next stack of (Some e, stack1) \<Rightarrow> e # iter_collect n stack1 | (None, _) \<Rightarrow> [])"

end
