(* ===== verification/IntMap_Correct.thy ===== *)
theory IntMap_Correct
  imports IntMap "HOL-Library.Multiset"
begin

text \<open>
  The invariant of the Patricia trees of \<^verbatim>\<open>IntMap\<close>, as the comments of \<open>Tree::Branch\<close> state it, and the
  behaviour of every operation on trees that satisfy it.
\<close>

section \<open>Agreement of keys above a bit\<close>

definition agree :: "nat \<Rightarrow> u64 \<Rightarrow> u64 \<Rightarrow> bool" where
  "agree n k k' \<longleftrightarrow> drop_bit n k = drop_bit n k'"

lemma agree_iff: "agree n k k' \<longleftrightarrow> (\<forall>i\<ge>n. bit k i = bit k' i)"
proof
  assume "agree n k k'"
  then have "bit (drop_bit n k) (i - n) = bit (drop_bit n k') (i - n)" for i
    by (simp add: agree_def)
  then show "\<forall>i\<ge>n. bit k i = bit k' i"
    by (metis bit_drop_bit_eq comp_apply le_add_diff_inverse)
next
  assume "\<forall>i\<ge>n. bit k i = bit k' i"
  then show "agree n k k'"
    by (simp add: agree_def bit_eq_iff bit_drop_bit_eq)
qed

lemma agree_refl [simp]: "agree n k k"
  by (simp add: agree_def)

lemma agree_sym: "agree n k k' \<Longrightarrow> agree n k' k"
  by (simp add: agree_def)

lemma agree_trans: "agree n k k' \<Longrightarrow> agree n k' k'' \<Longrightarrow> agree n k k''"
  by (simp add: agree_def)

lemma agree_mono: "agree n k k' \<Longrightarrow> n \<le> m \<Longrightarrow> agree m k k'"
  by (simp add: agree_iff)

lemma agree_0 [simp]: "agree 0 k k' \<longleftrightarrow> k = k'"
  by (simp add: agree_def)

lemma bit_mask_key: "b < 64 \<Longrightarrow> bit (mask_key k b) i \<longleftrightarrow> b < i \<and> bit k i"
proof -
  assume b: "b < 64"
  have "shifted b OR (shifted b - 1) = mask (Suc b)"
    by (simp only: mask_Suc_exp) (simp add: shifted_def mask_eq_exp_minus_1 push_bit_eq_mult)
  then have "mask_key k b = k AND NOT (mask (Suc b))"
    unfolding mask_key_def Let_def by (simp only:)
  then show ?thesis
    by (auto simp: bit_and_iff bit_not_iff bit_mask_iff not_less less_Suc_eq_le dest: bit_imp_le_length)
qed

lemma mask_key_eq_iff: "b < 64 \<Longrightarrow> mask_key k b = mask_key k' b \<longleftrightarrow> agree (Suc b) k k'"
proof -
  assume b: "b < 64"
  have "mask_key k b = mask_key k' b \<longleftrightarrow> (\<forall>i. bit (mask_key k b) i = bit (mask_key k' b) i)"
    by (auto intro: bit_eqI)
  then show ?thesis
    using b by (auto simp: agree_iff bit_mask_key Suc_le_eq)
qed

lemma mask_key_idem: "b < 64 \<Longrightarrow> mask_key (mask_key k b) b = mask_key k b"
  by (auto simp: bit_eq_iff bit_mask_key)

lemma goes_left_iff: "goes_left k b \<longleftrightarrow> \<not> bit k b"
  by (simp add: goes_left_def shifted_def push_bit_eq_mult and_exp_eq_0_iff_not_bit)

lemma goes_left_agree: "agree n k k' \<Longrightarrow> n \<le> b \<Longrightarrow> goes_left k b = goes_left k' b"
  by (simp add: goes_left_iff agree_iff)

text \<open>The order of keys is that of the highest bits in which they differ.\<close>

lemma unat_drop_bit: "unat (drop_bit n (k :: u64)) = unat k div 2 ^ n"
  unfolding unat_drop_bit_eq by (simp only: drop_bit_eq_div)

lemma drop_bit_less: "drop_bit n k < drop_bit n (k' :: u64) \<Longrightarrow> k < k'"
proof -
  assume a: "drop_bit n k < drop_bit n k'"
  have "unat k div 2 ^ n < unat k' div 2 ^ n"
    using a by (simp only: word_less_nat_alt unat_drop_bit)
  then have "unat k < unat k'"
    by (meson div_le_mono leD leI)
  then show ?thesis
    by (simp add: word_less_nat_alt)
qed

lemma mask_key_less: "b < 64 \<Longrightarrow> mask_key k b < mask_key k' b \<Longrightarrow> k < k'"
proof -
  assume b: "b < 64" and less: "mask_key k b < mask_key k' b"
  have drop: "drop_bit (Suc b) (mask_key q b) = drop_bit (Suc b) q" for q
    using b by (auto simp: bit_eq_iff bit_drop_bit_eq bit_mask_key)
  have "mask_key k b \<noteq> mask_key k' b"
    using less by simp
  then have "\<not> agree (Suc b) k k'"
    using b by (simp add: mask_key_eq_iff)
  moreover have "drop_bit (Suc b) k \<le> drop_bit (Suc b) k'"
    using less drop_bit_less [of "Suc b" "mask_key k' b" "mask_key k b"] unfolding drop by (meson leI less_asym)
  ultimately have "drop_bit (Suc b) k < drop_bit (Suc b) k'"
    by (simp add: agree_def order_less_le)
  then show ?thesis
    by (rule drop_bit_less)
qed

lemma parity_less: "a div 2 = c div 2 \<Longrightarrow> even a \<Longrightarrow> odd c \<Longrightarrow> a < (c :: nat)"
  by presburger

lemma branch_less: "agree (Suc b) k k' \<Longrightarrow> goes_left k b \<Longrightarrow> \<not> goes_left k' b \<Longrightarrow> k < k'"
proof -
  assume a: "agree (Suc b) k k'" and l: "goes_left k b" and r: "\<not> goes_left k' b"
  have half: "unat q div 2 ^ b div 2 = unat (drop_bit (Suc b) q)" for q :: u64
    by (simp only: unat_drop_bit power_Suc2 div_mult2_eq)
  have odd: "odd (unat q div 2 ^ b) \<longleftrightarrow> bit q b" for q :: u64
    by (simp only: bit_iff_odd [of "unat q", symmetric]) (simp add: bit_unsigned_iff)
  have "unat k div 2 ^ b < unat k' div 2 ^ b"
  proof -
    have "unat k div 2 ^ b div 2 = unat k' div 2 ^ b div 2"
      using a unfolding half agree_def by (simp only:)
    moreover have "even (unat k div 2 ^ b)" "odd (unat k' div 2 ^ b)"
      using odd [of k] odd [of k'] l r by (simp_all add: goes_left_iff)
    ultimately show ?thesis
      by (rule parity_less)
  qed
  then have "unat k < unat k'"
    by (meson div_le_mono leD leI)
  then show ?thesis
    by (simp add: word_less_nat_alt)
qed

lemma branching_bit_differs:
  assumes "p0 \<noteq> p1"
  obtains b where "branching_bit p0 p1 = Some b" "b < 64" "agree (Suc b) p0 p1" "goes_left p0 b \<noteq> goes_left p1 b"
proof -
  define x where "x = p0 XOR p1"
  define n where "n = leading_zeros x"
  obtain j where j: "bit x j"
    using assms by (auto simp: x_def bit_eq_iff bit_xor_iff)
  then have j64: "j < 64"
    using bit_imp_le_length by fastforce
  then have "j \<in> set (rev [0..<64])"
    by simp
  then have n: "n < length (rev [0..<64::nat])"
    unfolding n_def leading_zeros_def using j by (metis (mono_tags, lifting) length_takeWhile_le le_neq_implies_less set_takeWhileD takeWhile_eq_take take_all le_refl)
  have "bit x (rev [0..<64] ! n)"
    using nth_length_takeWhile [of "\<lambda>i. \<not> bit x i" "rev [0..<64]"] n by (simp add: n_def leading_zeros_def)
  then have diff: "bit x (63 - n)"
    using n by (simp add: rev_nth)
  have above: "\<not> bit x i" if i: "63 - n < i" for i
  proof (cases "i < 64")
    case True
    then have "rev [0..<64] ! (63 - i) = i" "63 - i < n"
      using i n by (simp_all add: rev_nth)
    then show ?thesis
      using nth_take [of "63 - i" n "rev [0..<64]"] set_takeWhileD [of i "\<lambda>i. \<not> bit x i" "rev [0..<64]"]
        nth_mem [of "63 - i" "takeWhile (\<lambda>i. \<not> bit x i) (rev [0..<64])"]
      by (metis n_def leading_zeros_def takeWhile_nth)
  next
    case False
    then show ?thesis
      using bit_imp_le_length by fastforce
  qed
  show ?thesis
  proof (rule that [of "63 - n"])
    show "branching_bit p0 p1 = Some (63 - n)"
      using n by (simp add: branching_bit_def sub_usize_def n_def x_def)
    show "agree (Suc (63 - n)) p0 p1"
      using above by (simp add: agree_iff x_def bit_xor_iff Suc_le_eq)
    show "goes_left p0 (63 - n) \<noteq> goes_left p1 (63 - n)"
      using diff by (simp add: goes_left_iff x_def bit_xor_iff)
  qed simp
qed

section \<open>Trees that satisfy the invariant\<close>

fun tree_entries :: "'v tree \<Rightarrow> (u64 \<times> 'v) list" where
  "tree_entries Empty = []"
| "tree_entries (Leaf k v) = [(k, v)]"
| "tree_entries (Branch prefix b left right) = tree_entries left @ tree_entries right"

definition keys :: "'v tree \<Rightarrow> u64 set" where
  "keys t = fst ` set (tree_entries t)"

definition lk :: "'v tree \<Rightarrow> u64 \<Rightarrow> 'v option" where
  "lk t = map_of (tree_entries t)"

lemma keys_simps [simp]:
  "keys Empty = {}" "keys (Leaf k v) = {k}" "keys (Branch prefix b l r) = keys l \<union> keys r"
  by (auto simp: keys_def)

lemma dom_lk [simp]: "dom (lk t) = keys t"
  by (simp add: lk_def keys_def dom_map_of_conv_image_fst)

lemma lk_None_iff: "lk t k = None \<longleftrightarrow> k \<notin> keys t"
  by (simp flip: dom_lk add: domIff)

lemma lk_simps [simp]:
  "lk Empty = Map.empty" "lk (Leaf k v) = [k \<mapsto> v]" "lk (Branch prefix b l r) = lk r ++ lk l"
  by (simp_all add: lk_def)

fun node_ok :: "'v tree \<Rightarrow> bool" where
  "node_ok Empty \<longleftrightarrow> False"
| "node_ok (Leaf k v) \<longleftrightarrow> True"
| "node_ok (Branch prefix b left right) \<longleftrightarrow>
     b \<le> 63 \<and> node_ok left \<and> node_ok right
     \<and> (\<forall>k\<in>keys left. matches_prefix k prefix b \<and> goes_left k b)
     \<and> (\<forall>k\<in>keys right. matches_prefix k prefix b \<and> \<not> goes_left k b)"

definition tree_ok :: "'v tree \<Rightarrow> bool" where
  "tree_ok t \<longleftrightarrow> t = Empty \<or> node_ok t"

lemma node_ok_keys: "node_ok t \<Longrightarrow> keys t \<noteq> {}"
  by (induction t) auto

text \<open>A branch covers the keys that agree with its prefix above the branching bit.\<close>

lemma node_ok_Branch_iff:
  "node_ok (Branch prefix b left right) \<longleftrightarrow>
     b < 64 \<and> mask_key prefix b = prefix \<and> node_ok left \<and> node_ok right
     \<and> (\<forall>k\<in>keys left. agree (Suc b) k prefix \<and> goes_left k b)
     \<and> (\<forall>k\<in>keys right. agree (Suc b) k prefix \<and> \<not> goes_left k b)" (is "?l \<longleftrightarrow> ?r")
proof
  assume l: ?l
  then have b: "b < 64" and ok: "node_ok left" "node_ok right"
    by auto
  obtain k where "k \<in> keys left"
    using node_ok_keys [OF ok(1)] by blast
  then have p: "mask_key prefix b = prefix"
    using l b by (auto simp: matches_prefix_def mask_key_idem)
  then have "matches_prefix k prefix b \<longleftrightarrow> agree (Suc b) k prefix" for k
    using mask_key_eq_iff [OF b, of k prefix] by (simp add: matches_prefix_def)
  then show ?r
    using l b p by simp
next
  assume r: ?r
  then have b: "b < 64" and p: "mask_key prefix b = prefix"
    by auto
  then have "matches_prefix k prefix b \<longleftrightarrow> agree (Suc b) k prefix" for k
    using mask_key_eq_iff [OF b, of k prefix] by (simp add: matches_prefix_def)
  then show ?l
    using r by auto
qed

declare node_ok.simps(3) [simp del]

lemma matches_prefix_iff:
  "b < 64 \<Longrightarrow> mask_key prefix b = prefix \<Longrightarrow> matches_prefix k prefix b \<longleftrightarrow> agree (Suc b) k prefix"
  using mask_key_eq_iff [of b k prefix] by (simp add: matches_prefix_def)

lemma tree_get_node: "node_ok t \<Longrightarrow> tree_get t k = lk t k"
proof (induction t)
  case (Branch prefix b left right)
  have left: "k \<in> keys left \<Longrightarrow> matches_prefix k prefix b \<and> goes_left k b"
    and right: "k \<in> keys right \<Longrightarrow> matches_prefix k prefix b \<and> \<not> goes_left k b"
    using Branch.prems by (auto simp: node_ok.simps)
  show ?case
    using Branch left right lk_None_iff [of left k] lk_None_iff [of right k]
    by (auto simp: node_ok.simps map_add_def split: option.splits)
qed auto

lemma tree_get_ok: "tree_ok t \<Longrightarrow> tree_get t = lk t"
  by (auto simp: tree_ok_def tree_get_node)

text \<open>Subtrees whose keys agree with different patterns are joined.\<close>

lemma join_ok:
  assumes "\<not> agree n p0 p1" "node_ok t0" "node_ok t1"
    and "\<forall>k\<in>keys t0. agree n k p0" "\<forall>k\<in>keys t1. agree n k p1"
  obtains t where "join p0 t0 p1 t1 = Some t" "node_ok t" "lk t = lk t1 ++ lk t0"
proof -
  have "p0 \<noteq> p1"
    using assms(1) by auto
  then obtain b where b: "branching_bit p0 p1 = Some b" "b < 64" "agree (Suc b) p0 p1"
    "goes_left p0 b \<noteq> goes_left p1 b"
    by (rule branching_bit_differs)
  have n: "n \<le> b"
    using assms(1) b(3) agree_mono [of "Suc b" p0 p1 n] by linarith
  define p where "p = mask_key p0 b"
  have p: "mask_key p b = p" "agree (Suc b) p0 p"
    using b(2) by (auto simp: p_def mask_key_idem agree_iff bit_mask_key)
  have k0: "agree (Suc b) k p \<and> goes_left k b = goes_left p0 b" if "k \<in> keys t0" for k
    using that assms(4) n p(2) agree_mono [of n k p0 "Suc b"] agree_trans [of "Suc b" k p0 p] goes_left_agree [of n k p0 b] by auto
  have k1: "agree (Suc b) k p \<and> goes_left k b = goes_left p1 b" if "k \<in> keys t1" for k
    using that assms(5) n p(2) b(3) agree_mono [of n k p1 "Suc b"] agree_trans [of "Suc b" k p1 p0] agree_sym [of "Suc b" p0 p1]
      agree_trans [of "Suc b" k p0 p] goes_left_agree [of n k p1 b] by auto
  have "keys t0 \<inter> keys t1 = {}"
    using k0 k1 b(4) by auto
  then have comm: "lk t1 ++ lk t0 = lk t0 ++ lk t1"
    by (intro map_add_comm) (auto simp: Int_commute)
  show ?thesis
  proof (cases "goes_left p0 b")
    case True
    then show ?thesis
      using that [of "Branch p b t0 t1"] b k0 k1 assms(2,3) p by (simp add: join_def p_def [symmetric] node_ok_Branch_iff)
  next
    case False
    then show ?thesis
      using that [of "Branch p b t1 t0"] b k0 k1 assms(2,3) p comm by (simp add: join_def p_def [symmetric] node_ok_Branch_iff)
  qed
qed

section \<open>Insertion and union\<close>

lemma tree_insert_node:
  "node_ok t \<Longrightarrow> \<exists>t'. tree_insert t k v = Some t' \<and> node_ok t' \<and> lk t' = (lk t)(k \<mapsto> v)"
proof (induction t)
  case (Leaf k' v')
  show ?case
  proof (cases "k' = k")
    case False
    then obtain t' where "join k (Leaf k v) k' (Leaf k' v') = Some t'" "node_ok t'" "lk t' = lk (Leaf k' v') ++ lk (Leaf k v)"
      using join_ok [of 0 k k' "Leaf k v" "Leaf k' v'"] by auto
    then show ?thesis
      using False by (auto simp: fun_eq_iff)
  qed auto
next
  case (Branch prefix b left right)
  then have b: "b < 64" "mask_key prefix b = prefix" and ok: "node_ok left" "node_ok right"
    and left: "\<And>q. q \<in> keys left \<Longrightarrow> agree (Suc b) q prefix \<and> goes_left q b"
    and right: "\<And>q. q \<in> keys right \<Longrightarrow> agree (Suc b) q prefix \<and> \<not> goes_left q b"
    by (auto simp: node_ok_Branch_iff)
  note covers = matches_prefix_iff [OF b, of k]
  show ?case
  proof (cases "matches_prefix k prefix b")
    case True
    obtain l where l: "tree_insert left k v = Some l" "node_ok l" "lk l = (lk left)(k \<mapsto> v)"
      using Branch.IH(1) ok by blast
    obtain r where r: "tree_insert right k v = Some r" "node_ok r" "lk r = (lk right)(k \<mapsto> v)"
      using Branch.IH(2) ok by blast
    have keys: "keys l = insert k (keys left)" "keys r = insert k (keys right)"
      using l(3) r(3) by (simp_all flip: dom_lk)
    show ?thesis
    proof (cases "goes_left k b")
      case True
      then have "node_ok (Branch prefix b l right)"
        using \<open>matches_prefix k prefix b\<close> covers l ok b left right keys by (simp add: node_ok_Branch_iff)
      moreover have "lk (Branch prefix b l right) = (lk (Branch prefix b left right))(k \<mapsto> v)"
        using l(3) by (simp only: lk_simps map_add_upd)
      ultimately show ?thesis
        using True \<open>matches_prefix k prefix b\<close> l(1) by (simp del: lk_simps fun_upd_apply)
    next
      case False
      then have "k \<notin> keys left"
        using left by blast
      then have "lk (Branch prefix b left r) = (lk (Branch prefix b left right))(k \<mapsto> v)"
        using r(3) by (simp only: lk_simps map_add_upd_left dom_lk not_False_eq_True)
      moreover have "node_ok (Branch prefix b left r)"
        using False \<open>matches_prefix k prefix b\<close> covers r ok b left right keys by (simp add: node_ok_Branch_iff)
      ultimately show ?thesis
        using False \<open>matches_prefix k prefix b\<close> r(1) by (simp del: lk_simps fun_upd_apply)
    qed
  next
    case False
    then have "\<not> agree (Suc b) k prefix"
      using covers by simp
    then obtain t' where "join k (Leaf k v) prefix (Branch prefix b left right) = Some t'" "node_ok t'"
      "lk t' = lk (Branch prefix b left right) ++ lk (Leaf k v)"
      using join_ok [of "Suc b" k prefix "Leaf k v" "Branch prefix b left right"] Branch.prems left right by auto
    then show ?thesis
      using False by (simp del: fun_upd_apply)
  qed
qed simp

lemma tree_insert_ok:
  "tree_ok t \<Longrightarrow> \<exists>t'. tree_insert t k v = Some t' \<and> tree_ok t' \<and> lk t' = (lk t)(k \<mapsto> v)"
  using tree_insert_node [of t k v] by (auto simp: tree_ok_def)

text \<open>A branch below another one agrees with it on the side on which it is added.\<close>

lemma sub_branch:
  assumes "node_ok (Branch p1 b1 l1 r1)" "node_ok (Branch p0 b0 l0 r0)" "b1 < b0" "matches_prefix p1 p0 b0"
    and "k \<in> keys l1 \<union> keys r1"
  shows "agree (Suc b0) k p0" "goes_left k b0 = goes_left p1 b0"
proof -
  have k: "agree (Suc b1) k p1"
    using assms(1,5) by (auto simp: node_ok_Branch_iff)
  then have "agree (Suc b0) k p1"
    using assms(3) by (auto intro: agree_mono)
  moreover have "agree (Suc b0) p1 p0"
    using assms(2,4) by (simp add: node_ok_Branch_iff matches_prefix_iff)
  ultimately show "agree (Suc b0) k p0"
    by (rule agree_trans)
  show "goes_left k b0 = goes_left p1 b0"
    using goes_left_agree [OF k] assms(3) by simp
qed

lemma join_branches:
  assumes "node_ok (Branch p0 b0 l0 r0)" "node_ok (Branch p1 b1 l1 r1)" "\<not> (p0 = p1 \<and> b0 = b1)"
    and "\<not> (b1 < b0 \<and> matches_prefix p1 p0 b0)" "\<not> (b0 < b1 \<and> matches_prefix p0 p1 b1)"
  obtains t where "join p0 (Branch p0 b0 l0 r0) p1 (Branch p1 b1 l1 r1) = Some t" "node_ok t"
    "lk t = lk (Branch p1 b1 l1 r1) ++ lk (Branch p0 b0 l0 r0)"
proof -
  have p: "mask_key p0 b0 = p0" "mask_key p1 b1 = p1" "b0 < 64" "b1 < 64"
    using assms(1,2) by (auto simp: node_ok_Branch_iff)
  have "\<not> agree (Suc (max b0 b1)) p0 p1"
    using assms(3,4,5) p matches_prefix_iff [of b0 p0 p1] matches_prefix_iff [of b1 p1 p0] mask_key_eq_iff [of b0 p0 p1]
      agree_sym [of "Suc b0" p0 p1]
    by (cases b0 b1 rule: linorder_cases) (auto simp: max_def)
  moreover have "\<forall>k\<in>keys (Branch p0 b0 l0 r0). agree (Suc (max b0 b1)) k p0"
    "\<forall>k\<in>keys (Branch p1 b1 l1 r1). agree (Suc (max b0 b1)) k p1"
    using assms(1,2) agree_mono [of "Suc b0" _ p0 "Suc (max b0 b1)"] agree_mono [of "Suc b1" _ p1 "Suc (max b0 b1)"]
    by (auto simp: node_ok_Branch_iff)
  ultimately show ?thesis
    using join_ok [of "Suc (max b0 b1)" p0 p1] assms(1,2) that by metis
qed

lemma lk_disjoint_comm: "keys s \<inter> keys t = {} \<Longrightarrow> lk s ++ lk t = lk t ++ lk s"
  by (intro map_add_comm) simp

lemma lk_add_Leaf: "lk t ++ lk (Leaf k v) = (lk t)(k \<mapsto> v)"
  by simp

lemma union_same_prefix:
  assumes "node_ok (Branch p b l0 r0)" "node_ok (Branch p b l1 r1)"
    and "node_ok l" "lk l = lk l1 ++ lk l0" "node_ok r" "lk r = lk r1 ++ lk r0"
  shows "node_ok (Branch p b l r)" "lk (Branch p b l r) = lk (Branch p b l1 r1) ++ lk (Branch p b l0 r0)"
proof -
  have "keys l = keys l0 \<union> keys l1" "keys r = keys r0 \<union> keys r1"
    using assms(4,6) by (simp_all flip: dom_lk)
  then show "node_ok (Branch p b l r)"
    using assms by (auto simp: node_ok_Branch_iff)
  have "keys r0 \<inter> keys l1 = {}"
    using assms(1,2) by (auto simp: node_ok_Branch_iff)
  from lk_disjoint_comm [OF this]
  have "lk r0 ++ (lk l1 ++ lk l0) = lk l1 ++ (lk r0 ++ lk l0)"
    by (metis map_add_assoc)
  then show "lk (Branch p b l r) = lk (Branch p b l1 r1) ++ lk (Branch p b l0 r0)"
    unfolding lk_simps assms(4,6) by (simp flip: map_add_assoc)
qed

text \<open>Adding a subtree on one side, its entries having the lower (\<open>self\<close>) or the higher priority (\<open>other\<close>).\<close>

lemma union_left:
  assumes "node_ok (Branch p b l0 r0)" "\<forall>k\<in>keys t. agree (Suc b) k p \<and> goes_left k b" "node_ok l"
  shows "lk l = lk t ++ lk l0 \<Longrightarrow> node_ok (Branch p b l r0) \<and> lk (Branch p b l r0) = lk t ++ lk (Branch p b l0 r0)"
    and "lk l = lk l0 ++ lk t \<Longrightarrow> node_ok (Branch p b l r0) \<and> lk (Branch p b l r0) = lk (Branch p b l0 r0) ++ lk t"
proof -
  have "keys r0 \<inter> keys t = {}"
    using assms(1,2) by (auto simp: node_ok_Branch_iff)
  note comm = lk_disjoint_comm [OF this]
  have ok: "node_ok (Branch p b l r0)" if "keys l = keys t \<union> keys l0"
    using assms that by (auto simp: node_ok_Branch_iff)
  show "node_ok (Branch p b l r0) \<and> lk (Branch p b l r0) = lk t ++ lk (Branch p b l0 r0)" if l: "lk l = lk t ++ lk l0"
  proof -
    have "keys l = keys t \<union> keys l0"
      using l by (auto simp flip: dom_lk)
    then show ?thesis
      using ok l comm by (simp add: map_add_assoc)
  qed
  show "node_ok (Branch p b l r0) \<and> lk (Branch p b l r0) = lk (Branch p b l0 r0) ++ lk t" if l: "lk l = lk l0 ++ lk t"
  proof -
    have "keys l = keys t \<union> keys l0"
      using l by (auto simp flip: dom_lk)
    then show ?thesis
      using ok l by simp
  qed
qed

lemma union_right:
  assumes "node_ok (Branch p b l0 r0)" "\<forall>k\<in>keys t. agree (Suc b) k p \<and> \<not> goes_left k b" "node_ok r"
  shows "lk r = lk t ++ lk r0 \<Longrightarrow> node_ok (Branch p b l0 r) \<and> lk (Branch p b l0 r) = lk t ++ lk (Branch p b l0 r0)"
    and "lk r = lk r0 ++ lk t \<Longrightarrow> node_ok (Branch p b l0 r) \<and> lk (Branch p b l0 r) = lk (Branch p b l0 r0) ++ lk t"
proof -
  have "keys t \<inter> keys l0 = {}"
    using assms(1,2) by (auto simp: node_ok_Branch_iff)
  note comm = lk_disjoint_comm [OF this]
  have ok: "node_ok (Branch p b l0 r)" if "keys r = keys t \<union> keys r0"
    using assms that by (auto simp: node_ok_Branch_iff)
  show "node_ok (Branch p b l0 r) \<and> lk (Branch p b l0 r) = lk t ++ lk (Branch p b l0 r0)" if r: "lk r = lk t ++ lk r0"
  proof -
    have "keys r = keys t \<union> keys r0"
      using r by (auto simp flip: dom_lk)
    then show ?thesis
      using ok r by simp
  qed
  show "node_ok (Branch p b l0 r) \<and> lk (Branch p b l0 r) = lk (Branch p b l0 r0) ++ lk t" if r: "lk r = lk r0 ++ lk t"
  proof -
    have "keys r = keys t \<union> keys r0"
      using r by (auto simp flip: dom_lk)
    then show ?thesis
      using ok r comm by (simp flip: map_add_assoc)
  qed
qed

lemma tree_union_node:
  "node_ok s \<Longrightarrow> node_ok t \<Longrightarrow> \<exists>u. tree_union s t = Some u \<and> node_ok u \<and> lk u = lk t ++ lk s"
proof (induction s t rule: tree_union.induct)
  case (4 p b l r k v)
  let ?s = "Branch p b l r"
  show ?case
  proof (cases "tree_get ?s k")
    case None
    then have "lk (Leaf k v) ++ lk ?s = (lk ?s)(k \<mapsto> v)"
      using tree_get_node [OF "4.prems"(1), of k] by (auto simp: map_add_def fun_eq_iff split: option.splits)
    moreover have "tree_union ?s (Leaf k v) = tree_insert ?s k v"
      using None by simp
    ultimately show ?thesis
      using tree_insert_node [OF "4.prems"(1), of k v] by metis
  next
    case (Some y)
    then have "lk ?s k = Some y"
      using tree_get_node [OF "4.prems"(1), of k] by metis
    then have "lk (Leaf k v) ++ lk ?s = lk ?s"
      by (auto simp: map_add_def fun_eq_iff split: option.splits)
    moreover have "tree_union ?s (Leaf k v) = Some ?s"
      using Some by simp
    ultimately show ?thesis
      using "4.prems" by metis
  qed
next
  case (5 p0 b0 l0 r0 p1 b1 l1 r1)
  let ?s = "Branch p0 b0 l0 r0" and ?t = "Branch p1 b1 l1 r1"
  have ok: "node_ok l0" "node_ok r0" "node_ok l1" "node_ok r1"
    using "5.prems" by (auto simp: node_ok_Branch_iff)
  consider (same) "p0 = p1 \<and> b0 = b1"
    | (below) "\<not> (p0 = p1 \<and> b0 = b1)" "b1 < b0 \<and> matches_prefix p1 p0 b0"
    | (above) "\<not> (p0 = p1 \<and> b0 = b1)" "\<not> (b1 < b0 \<and> matches_prefix p1 p0 b0)" "b0 < b1 \<and> matches_prefix p0 p1 b1"
    | (apart) "\<not> (p0 = p1 \<and> b0 = b1)" "\<not> (b1 < b0 \<and> matches_prefix p1 p0 b0)" "\<not> (b0 < b1 \<and> matches_prefix p0 p1 b1)"
    by blast
  then show ?case
  proof cases
    case same
    obtain l where l: "tree_union l0 l1 = Some l" "node_ok l" "lk l = lk l1 ++ lk l0"
      using "5.IH"(1) same ok by blast
    obtain r where r: "tree_union r0 r1 = Some r" "node_ok r" "lk r = lk r1 ++ lk r0"
      using "5.IH"(2) [OF same l(1)] ok by blast
    show ?thesis
      using same l r union_same_prefix [of p0 b0 l0 r0 l1 r1 l r] "5.prems" by (simp del: lk_simps)
  next
    case below
    note sub = sub_branch [OF "5.prems"(2,1)]
    show ?thesis
    proof (cases "goes_left p1 b0")
      case True
      then obtain l where l: "tree_union l0 ?t = Some l" "node_ok l" "lk l = lk ?t ++ lk l0"
        using "5.IH"(3) below ok "5.prems" by blast
      show ?thesis
        using True below l union_left(1) [OF "5.prems"(1) _ l(2,3)] sub by (simp del: lk_simps)
    next
      case False
      then obtain r where r: "tree_union r0 ?t = Some r" "node_ok r" "lk r = lk ?t ++ lk r0"
        using "5.IH"(4) below ok "5.prems" by blast
      show ?thesis
        using False below r union_right(1) [OF "5.prems"(1) _ r(2,3)] sub by (simp del: lk_simps)
    qed
  next
    case above
    note sub = sub_branch [OF "5.prems"]
    show ?thesis
    proof (cases "goes_left p0 b1")
      case True
      then obtain l where l: "tree_union ?s l1 = Some l" "node_ok l" "lk l = lk l1 ++ lk ?s"
        using "5.IH"(5) above ok "5.prems" by blast
      show ?thesis
        using True above l union_left(2) [OF "5.prems"(2) _ l(2,3)] sub by (simp del: lk_simps)
    next
      case False
      then obtain r where r: "tree_union ?s r1 = Some r" "node_ok r" "lk r = lk r1 ++ lk ?s"
        using "5.IH"(6) above ok "5.prems" by blast
      show ?thesis
        using False above r union_right(2) [OF "5.prems"(2) _ r(2,3)] sub by (simp del: lk_simps)
    qed
  next
    case apart
    then show ?thesis
      using join_branches [OF "5.prems" apart] by (simp del: lk_simps) metis
  qed
qed (simp_all add: tree_insert_node lk_add_Leaf del: tree_insert.simps lk_simps fun_upd_apply)

lemma tree_union_ok:
  "tree_ok s \<Longrightarrow> tree_ok t \<Longrightarrow> \<exists>u. tree_union s t = Some u \<and> tree_ok u \<and> lk u = lk t ++ lk s"
  using tree_union_node [of s t] by (cases s; cases t) (auto simp: tree_ok_def)

section \<open>Order of the keys\<close>

lemma branch_order: "node_ok (Branch p b l r) \<Longrightarrow> k \<in> keys l \<Longrightarrow> k' \<in> keys r \<Longrightarrow> k < k'"
  using branch_less [of b k k'] agree_trans [of "Suc b" k p k'] agree_sym [of "Suc b" k' p]
  by (auto simp: node_ok_Branch_iff)

lemma tree_entries_sorted: "node_ok t \<Longrightarrow> sorted_wrt (<) (map fst (tree_entries t))"
proof (induction t)
  case (Branch p b l r)
  then have "node_ok l" "node_ok r"
    by (auto simp: node_ok_Branch_iff)
  then show ?case
    using Branch branch_order [OF Branch.prems] by (auto simp: sorted_wrt_append keys_def)
qed auto

lemma tree_min_key_ok: "node_ok t \<Longrightarrow> \<exists>m. tree_min_key t = Some m \<and> m \<in> keys t \<and> (\<forall>k\<in>keys t. m \<le> k)"
proof (induction t)
  case (Branch p b l r)
  then obtain m where m: "tree_min_key l = Some m" "m \<in> keys l" "\<forall>k\<in>keys l. m \<le> k"
    by (auto simp: node_ok_Branch_iff)
  moreover have "\<forall>k\<in>keys r. m \<le> k"
    using branch_order [OF Branch.prems m(2)] by (auto intro: less_imp_le)
  ultimately show ?case
    by auto
qed auto

lemma tree_max_key_ok: "node_ok t \<Longrightarrow> \<exists>m. tree_max_key t = Some m \<and> m \<in> keys t \<and> (\<forall>k\<in>keys t. k \<le> m)"
proof (induction t)
  case (Branch p b l r)
  then obtain m where m: "tree_max_key r = Some m" "m \<in> keys r" "\<forall>k\<in>keys r. k \<le> m"
    by (auto simp: node_ok_Branch_iff)
  moreover have "\<forall>k\<in>keys l. k \<le> m"
    using branch_order [OF Branch.prems _ m(2)] by (auto intro: less_imp_le)
  ultimately show ?case
    by auto
qed auto

text \<open>The greatest key that is not above, and the least key that is not below, a given one.\<close>

definition greatest_le :: "u64 set \<Rightarrow> u64 \<Rightarrow> u64 option \<Rightarrow> bool" where
  "greatest_le K key s \<longleftrightarrow>
     (case s of None \<Rightarrow> \<forall>k\<in>K. key < k | Some l \<Rightarrow> l \<in> K \<and> l \<le> key \<and> (\<forall>k\<in>K. k \<le> key \<longrightarrow> k \<le> l))"

definition least_ge :: "u64 set \<Rightarrow> u64 \<Rightarrow> u64 option \<Rightarrow> bool" where
  "least_ge K key e \<longleftrightarrow>
     (case e of None \<Rightarrow> \<forall>k\<in>K. k < key | Some u \<Rightarrow> u \<in> K \<and> key \<le> u \<and> (\<forall>k\<in>K. key \<le> k \<longrightarrow> u \<le> k))"

lemma all_above:
  assumes "node_ok t" "\<forall>k\<in>keys t. key < k"
  shows "greatest_le (keys t) key None" "least_ge (keys t) key (tree_min_key t)"
  using assms tree_min_key_ok [OF assms(1)] by (auto simp: greatest_le_def least_ge_def less_imp_le)

lemma all_below:
  assumes "node_ok t" "\<forall>k\<in>keys t. k < key"
  shows "greatest_le (keys t) key (tree_max_key t)" "least_ge (keys t) key None"
  using assms tree_max_key_ok [OF assms(1)] by (auto simp: greatest_le_def least_ge_def less_imp_le)

text \<open>Bounds of two sets of which one is above the key, or below it.\<close>

lemma bounds_join_above:
  assumes above: "\<And>k. k \<in> R \<Longrightarrow> key < k" and order: "\<And>k k'. k \<in> L \<Longrightarrow> k' \<in> R \<Longrightarrow> k < k'"
  shows "greatest_le L key s \<Longrightarrow> greatest_le (L \<union> R) key s"
    and "least_ge L key e \<Longrightarrow> least_ge R key e' \<Longrightarrow> least_ge (L \<union> R) key (if e = None then e' else e)"
proof -
  show "greatest_le L key s \<Longrightarrow> greatest_le (L \<union> R) key s"
    using above by (cases s) (auto simp: greatest_le_def not_le dest: leD)
  show "least_ge (L \<union> R) key (if e = None then e' else e)" if e: "least_ge L key e" and e': "least_ge R key e'"
  proof (cases e)
    case None
    then have "k < key" if "k \<in> L" for k
      using e that by (simp add: least_ge_def)
    then show ?thesis
      using None e' above by (cases e') (auto simp: least_ge_def dest: leD)
  next
    case (Some u)
    then show ?thesis
      using e order [of u] by (auto simp: least_ge_def intro: less_imp_le)
  qed
qed

lemma bounds_join_below:
  assumes below: "\<And>k. k \<in> L \<Longrightarrow> k < key" and order: "\<And>k k'. k \<in> L \<Longrightarrow> k' \<in> R \<Longrightarrow> k < k'"
  shows "least_ge R key e \<Longrightarrow> least_ge (L \<union> R) key e"
    and "greatest_le R key s \<Longrightarrow> greatest_le L key s' \<Longrightarrow> greatest_le (L \<union> R) key (if s = None then s' else s)"
proof -
  show "least_ge R key e \<Longrightarrow> least_ge (L \<union> R) key e"
    using below by (cases e) (auto simp: least_ge_def not_le dest: leD)
  show "greatest_le (L \<union> R) key (if s = None then s' else s)" if s: "greatest_le R key s" and s': "greatest_le L key s'"
  proof (cases s)
    case None
    then have "key < k" if "k \<in> R" for k
      using s that by (simp add: greatest_le_def)
    then show ?thesis
      using None s' below by (cases s') (auto simp: greatest_le_def dest: leD)
  next
    case (Some l)
    then show ?thesis
      using s order [of _ l] by (auto simp: greatest_le_def intro: less_imp_le)
  qed
qed

lemma tree_bounds_node:
  "node_ok t \<Longrightarrow> greatest_le (keys t) key (fst (tree_bounds t key)) \<and> least_ge (keys t) key (snd (tree_bounds t key))"
proof (induction t)
  case (Branch p b l r)
  then have ok: "b < 64" "node_ok l" "node_ok r" "mask_key p b = p"
    and left: "\<And>k. k \<in> keys l \<Longrightarrow> agree (Suc b) k p \<and> goes_left k b"
    and right: "\<And>k. k \<in> keys r \<Longrightarrow> agree (Suc b) k p \<and> \<not> goes_left k b"
    by (auto simp: node_ok_Branch_iff)
  note order = branch_order [OF Branch.prems]
  have prefix: "mask_key k b = p" if "k \<in> keys (Branch p b l r)" for k
    using that left right ok mask_key_eq_iff [of b k p] by auto
  consider (less) "mask_key key b < p" | (greater) "p < mask_key key b"
    | (left) "mask_key key b = p" "goes_left key b" | (right) "mask_key key b = p" "\<not> goes_left key b"
    by fastforce
  then show ?case
  proof cases
    case less
    then have "\<forall>k\<in>keys (Branch p b l r). key < k"
      using prefix mask_key_less [OF ok(1), of key] by metis
    then show ?thesis
      using less all_above [OF Branch.prems, of key] by simp
  next
    case greater
    then have "\<forall>k\<in>keys (Branch p b l r). k < key"
      using prefix mask_key_less [OF ok(1), of _ key] by metis
    moreover have "\<not> mask_key key b < p"
      using greater by simp
    ultimately show ?thesis
      using greater all_below [OF Branch.prems, of key] by simp
  next
    case left
    then have "agree (Suc b) key p"
      using mask_key_eq_iff [OF ok(1), of key p] ok(4) by simp
    then have above: "key < k" if "k \<in> keys r" for k
      using branch_less [of b key k] right [OF that] left(2) agree_trans [of "Suc b" key p k] agree_sym [of "Suc b" k p] by blast
    have "least_ge (keys r) key (tree_min_key r)"
      using all_above(2) [OF ok(3)] above by blast
    moreover obtain s e where se: "tree_bounds l key = (s, e)"
      by fastforce
    ultimately show ?thesis
      using left Branch.IH(1) [OF ok(2)] bounds_join_above(1) [of "keys r" key "keys l" s, OF above order]
        bounds_join_above(2) [of "keys r" key "keys l" e "tree_min_key r", OF above order] by auto
  next
    case right
    then have "agree (Suc b) key p"
      using mask_key_eq_iff [OF ok(1), of key p] ok(4) by simp
    then have below: "k < key" if "k \<in> keys l" for k
      using branch_less [of b k key] local.left [OF that] right(2) agree_trans [of "Suc b" k p key] agree_sym [of "Suc b" key p] by blast
    have "greatest_le (keys l) key (tree_max_key l)"
      using all_below(1) [OF ok(2)] below by blast
    moreover obtain s e where se: "tree_bounds r key = (s, e)"
      by fastforce
    ultimately show ?thesis
      using right Branch.IH(2) [OF ok(3)] bounds_join_below(1) [of "keys l" key "keys r" e, OF below order]
        bounds_join_below(2) [of "keys l" key "keys r" s "tree_max_key l", OF below order] by auto
  qed
qed (auto simp: greatest_le_def least_ge_def)

lemma tree_bounds_ok:
  "tree_ok t \<Longrightarrow> greatest_le (keys t) key (fst (tree_bounds t key)) \<and> least_ge (keys t) key (snd (tree_bounds t key))"
  using tree_bounds_node [of t key] by (auto simp: tree_ok_def) (auto simp: greatest_le_def least_ge_def)

section \<open>Canonicity\<close>

lemma branch_two_keys: "node_ok (Branch p b l r) \<Longrightarrow> \<exists>k\<in>keys l. \<exists>k'\<in>keys r. k \<noteq> k'"
  using node_ok_keys [of l] node_ok_keys [of r] branch_order [of p b l r] by (fastforce simp: node_ok_Branch_iff)

lemma branch_not_singleton: "node_ok (Branch p b l r) \<Longrightarrow> keys (Branch p b l r) \<noteq> {q}"
  using branch_two_keys [of p b l r] by (metis keys_simps(3) UnCI singletonD)

text \<open>The branching bit is the highest bit in which two keys of a tree differ, and so determined by the keys.\<close>

lemma branch_bit_le:
  assumes "node_ok (Branch p0 b0 l0 r0)" "node_ok (Branch p1 b1 l1 r1)"
    and "keys (Branch p0 b0 l0 r0) = keys (Branch p1 b1 l1 r1)"
  shows "b1 \<le> b0"
proof (rule ccontr)
  assume "\<not> b1 \<le> b0"
  then have b: "Suc b0 \<le> b1"
    by simp
  obtain k k' where k: "k \<in> keys l1" "k' \<in> keys r1"
    using branch_two_keys [OF assms(2)] by blast
  then have "k \<in> keys (Branch p0 b0 l0 r0)" "k' \<in> keys (Branch p0 b0 l0 r0)"
    using assms(3) by auto
  then have "agree (Suc b0) k k'"
    using assms(1) agree_trans [of "Suc b0" k p0 k'] agree_sym [of "Suc b0" k' p0] by (auto simp: node_ok_Branch_iff)
  then have "goes_left k b1 = goes_left k' b1"
    using b by (rule goes_left_agree)
  then show False
    using k assms(2) by (auto simp: node_ok_Branch_iff)
qed

lemma lk_branch_sides:
  assumes "node_ok (Branch p b l r)"
  shows "lk l = lk (Branch p b l r) |` {k. goes_left k b}" "lk r = lk (Branch p b l r) |` {k. \<not> goes_left k b}"
proof -
  have l: "goes_left k b" if "k \<in> keys l" for k
    using that assms by (simp add: node_ok_Branch_iff)
  have r: "\<not> goes_left k b" if "k \<in> keys r" for k
    using that assms by (simp add: node_ok_Branch_iff)
  have "lk l k = (lk (Branch p b l r) |` {k. goes_left k b}) k" for k
    using l [of k] r [of k] lk_None_iff [of l k] lk_None_iff [of r k] by (auto simp: map_add_def restrict_map_def split: option.splits)
  then show "lk l = lk (Branch p b l r) |` {k. goes_left k b}"
    by blast
  have "lk r k = (lk (Branch p b l r) |` {k. \<not> goes_left k b}) k" for k
    using l [of k] r [of k] lk_None_iff [of l k] lk_None_iff [of r k] by (auto simp: map_add_def restrict_map_def split: option.splits)
  then show "lk r = lk (Branch p b l r) |` {k. \<not> goes_left k b}"
    by blast
qed

lemma node_canonical: "node_ok s \<Longrightarrow> node_ok t \<Longrightarrow> lk s = lk t \<Longrightarrow> s = t"
proof (induction s arbitrary: t)
  case (Leaf k v)
  have keys: "keys t = {k}"
    using Leaf.prems(3) dom_lk keys_simps(2) by metis
  show ?case
  proof (cases t)
    case (Leaf k' v')
    then show ?thesis
      using keys Leaf.prems(3) by (auto dest: fun_cong [of _ _ k])
  next
    case (Branch p b l r)
    then show ?thesis
      using keys branch_not_singleton Leaf.prems(2) by metis
  qed (use keys in simp)
next
  case (Branch p0 b0 l0 r0)
  have keys: "keys t = keys (Branch p0 b0 l0 r0)"
    using Branch.prems(3) dom_lk by metis
  then obtain p1 b1 l1 r1 where t: "t = Branch p1 b1 l1 r1"
    using Branch.prems(2) branch_not_singleton [OF Branch.prems(1)] by (cases t) auto
  have ok: "node_ok l0" "node_ok r0" "node_ok l1" "node_ok r1" "b0 < 64"
    and p: "mask_key p0 b0 = p0" "mask_key p1 b1 = p1"
    using Branch.prems t by (auto simp: node_ok_Branch_iff)
  have b: "b1 = b0"
    using branch_bit_le Branch.prems(1,2) keys unfolding t by (metis order_antisym)
  obtain k where k: "k \<in> keys l0"
    using node_ok_keys [OF ok(1)] by blast
  then have "agree (Suc b0) k p0" "agree (Suc b0) k p1"
    using Branch.prems(1,2) keys b unfolding t by (auto simp: node_ok_Branch_iff)
  then have "p1 = p0"
    using p b mask_key_eq_iff [OF ok(5)] by metis
  moreover have "l0 = l1"
    using Branch.IH(1) [OF ok(1,3)] lk_branch_sides(1) Branch.prems b unfolding t by metis
  moreover have "r0 = r1"
    using Branch.IH(2) [OF ok(2,4)] lk_branch_sides(2) Branch.prems b unfolding t by metis
  ultimately show ?case
    using t b by simp
qed simp

lemma tree_canonical: "tree_ok s \<Longrightarrow> tree_ok t \<Longrightarrow> lk s = lk t \<Longrightarrow> s = t"
  using node_canonical [of s t] node_ok_keys [of s] node_ok_keys [of t] dom_lk [of s] dom_lk [of t]
  by (auto simp: tree_ok_def)

section \<open>Iteration\<close>

lemma tree_len_entries: "tree_len t = length (tree_entries t)"
  by (induction t) simp_all

definition stack_entries :: "'v tree list \<Rightarrow> (u64 \<times> 'v) list" where
  "stack_entries stack = concat (map tree_entries stack)"

lemma stack_entries_Nil [simp]: "stack_entries [] = []"
  by (simp add: stack_entries_def)

lemma descend_entries:
  assumes "node_ok p" "\<forall>t\<in>set ps. node_ok t"
  shows "\<exists>k v stack. descend p ps = (Leaf k v, stack) \<and> stack_entries (p # ps) = (k, v) # stack_entries stack
           \<and> (\<forall>t\<in>set stack. node_ok t)"
  using assms
proof (induction p arbitrary: ps)
  case (Branch p b l r)
  then have "node_ok l" "node_ok r"
    by (auto simp: node_ok_Branch_iff)
  then show ?case
    using Branch.IH(1) [of "r # ps"] Branch.prems by (auto simp: stack_entries_def)
qed (auto simp: stack_entries_def)

lemma iter_next_entries:
  assumes "\<forall>t\<in>set stack. node_ok t"
  shows "case stack_entries stack of
           [] \<Rightarrow> iter_next stack = (None, [])
         | e # es \<Rightarrow> \<exists>stack1. iter_next stack = (Some e, stack1) \<and> stack_entries stack1 = es \<and> (\<forall>t\<in>set stack1. node_ok t)"
proof (cases stack)
  case (Cons p ps)
  then show ?thesis
    using assms descend_entries [of p ps] by (auto simp: iter_next_def)
qed (simp add: iter_next_def stack_entries_def)

lemma iter_collect_entries:
  "\<forall>t\<in>set stack. node_ok t \<Longrightarrow> length (stack_entries stack) \<le> n \<Longrightarrow> iter_collect n stack = stack_entries stack"
proof (induction n arbitrary: stack)
  case (Suc n)
  show ?case
  proof (cases "stack_entries stack")
    case (Cons e es)
    then obtain stack1 where "iter_next stack = (Some e, stack1)" "stack_entries stack1 = es" "\<forall>t\<in>set stack1. node_ok t"
      using iter_next_entries [OF Suc.prems(1)] by auto
    then show ?thesis
      using Suc.IH [of stack1] Suc.prems(2) Cons by simp
  qed (use iter_next_entries [OF Suc.prems(1)] in simp)
qed simp

text \<open>The state of the iterator after a number of calls of \<open>next\<close>.\<close>

fun iter_after :: "nat \<Rightarrow> 'v tree list \<Rightarrow> 'v tree list" where
  "iter_after 0 stack = stack"
| "iter_after (Suc n) stack = iter_after n (snd (iter_next stack))"

lemma iter_after_entries:
  "\<forall>t\<in>set stack. node_ok t \<Longrightarrow>
     stack_entries (iter_after n stack) = drop n (stack_entries stack) \<and> (\<forall>t\<in>set (iter_after n stack). node_ok t)"
proof (induction n arbitrary: stack)
  case (Suc n)
  show ?case
  proof (cases "stack_entries stack")
    case Nil
    then have "iter_next stack = (None, [])"
      using iter_next_entries [OF Suc.prems] by simp
    then show ?thesis
      using Suc.IH [of "[]"] Nil by simp
  next
    case (Cons e es)
    then obtain stack1 where "iter_next stack = (Some e, stack1)" "stack_entries stack1 = es" "\<forall>t\<in>set stack1. node_ok t"
      using iter_next_entries [OF Suc.prems] by auto
    then show ?thesis
      using Suc.IH [of stack1] Cons by simp
  qed
qed simp

lemma iter_ends: "tree_ok m \<Longrightarrow> fst (iter_next (iter_after (tree_len m) (iter_new m))) = None"
proof (cases "m = Empty")
  case False
  assume "tree_ok m"
  then have ok: "\<forall>t\<in>set [m]. node_ok t"
    using False by (simp add: tree_ok_def)
  have "stack_entries (iter_after (tree_len m) [m]) = []"
    using iter_after_entries [OF ok, of "tree_len m"] by (simp add: stack_entries_def tree_len_entries)
  then show ?thesis
    using iter_next_entries [of "iter_after (tree_len m) [m]"] iter_after_entries [OF ok, of "tree_len m"]
    by (simp add: iter_new_def)
qed (simp add: iter_new_def iter_next_def)

lemma iter_collect_tree: "tree_ok m \<Longrightarrow> tree_len m \<le> n \<Longrightarrow> iter_collect n (iter_new m) = tree_entries m"
proof (cases "m = Empty")
  case True
  then show ?thesis
    by (cases n) (simp_all add: iter_new_def iter_next_def)
next
  case False
  assume "tree_ok m" "tree_len m \<le> n"
  then show ?thesis
    using False iter_collect_entries [of "[m]" n] by (simp add: tree_ok_def iter_new_def stack_entries_def tree_len_entries)
qed

section \<open>The interface of persistent maps\<close>

text \<open>
  What page deltas rely on: insertion and union never fail on the maps that can be built, and entries of the
  receiver take precedence in a union.
\<close>

locale mergeable_map =
  fixes ok :: "'m \<Rightarrow> bool"
    and new :: 'm
    and get :: "'m \<Rightarrow> u64 \<Rightarrow> 'v option"
    and ins :: "'m \<Rightarrow> u64 \<Rightarrow> 'v \<Rightarrow> 'm option"
    and union :: "'m \<Rightarrow> 'm \<Rightarrow> 'm option"
  assumes new_ok: "ok new"
    and get_new: "get new = Map.empty"
    and ins_ok: "ok m \<Longrightarrow> \<exists>m'. ins m k v = Some m' \<and> ok m' \<and> get m' = (get m)(k \<mapsto> v)"
    and union_ok: "ok m \<Longrightarrow> ok n \<Longrightarrow> \<exists>u. union m n = Some u \<and> ok u \<and> get u = get n ++ get m"
    and extensional: "ok m \<Longrightarrow> ok n \<Longrightarrow> get m = get n \<Longrightarrow> m = n"
begin

lemma ins_all_ok:
  "ok m \<Longrightarrow> \<exists>m'. run_ops (\<lambda>(k, v) m. ins m k v) es m = Some m' \<and> ok m' \<and> get m' = get m ++ map_of (rev es)"
proof (induction es arbitrary: m)
  case (Cons e es)
  obtain k v where e: "e = (k, v)"
    by fastforce
  obtain m1 where m1: "ins m k v = Some m1" "ok m1" "get m1 = (get m)(k \<mapsto> v)"
    using ins_ok [OF Cons.prems] by blast
  then obtain m' where "run_ops (\<lambda>(k, v) m. ins m k v) es m1 = Some m'" "ok m'" "get m' = get m1 ++ map_of (rev es)"
    using Cons.IH by blast
  then show ?case
    using e m1 by (auto simp: map_of_append fun_eq_iff map_add_def split: option.splits)
qed simp

lemma collect_ok: "\<exists>m. run_ops (\<lambda>(k, v) m. ins m k v) es new = Some m \<and> ok m \<and> get m = map_of (rev es)"
  using ins_all_ok [OF new_ok] by (simp add: get_new)

text \<open>Collecting a batch of entries and merging it over a map is inserting the entries one by one.\<close>

lemma collect_union:
  assumes "ok m" "run_ops (\<lambda>(k, v) m. ins m k v) es new = Some d"
  shows "union d m = run_ops (\<lambda>(k, v) m. ins m k v) es m"
proof -
  obtain u where u: "union d m = Some u" "ok u" "get u = get m ++ get d"
    using collect_ok [of es] assms union_ok by force
  moreover have "get d = map_of (rev es)"
    using collect_ok [of es] assms(2) by auto
  ultimately show ?thesis
    using ins_all_ok [OF assms(1), of es] extensional by fastforce
qed

text \<open>The order in which entries with different keys are collected is irrelevant.\<close>

lemma collect_order:
  assumes "distinct (map fst es)" "mset es = mset es'"
  shows "run_ops (\<lambda>(k, v) m. ins m k v) es new = run_ops (\<lambda>(k, v) m. ins m k v) es' new"
proof -
  have "distinct (map fst es')"
    using assms by (metis mset_map mset_eq_imp_distinct_iff)
  then have "map_of (rev es) = map_of (rev es')"
    using assms mset_eq_setD [OF assms(2)] by (intro map_of_inject_set [THEN iffD2]) (auto simp: rev_map [symmetric])
  then show ?thesis
    using collect_ok [of es] collect_ok [of es'] extensional by fastforce
qed

end

interpretation im: mergeable_map tree_ok im_new im_get im_insert im_union
proof
  show "tree_ok im_new" "im_get im_new = Map.empty"
    by (simp_all add: tree_ok_def im_new_def im_get_def fun_eq_iff)
  show "\<exists>m'. im_insert m k v = Some m' \<and> tree_ok m' \<and> im_get m' = (im_get m)(k \<mapsto> v)" if "tree_ok m" for m :: "'a tree" and k v
    using tree_insert_ok [OF that] by (metis im_insert_def im_get_def tree_get_ok that ext)
  show "\<exists>u. im_union m n = Some u \<and> tree_ok u \<and> im_get u = im_get n ++ im_get m" if "tree_ok m" "tree_ok n" for m n :: "'a tree"
    using tree_union_ok [OF that] that by (metis im_union_def im_get_def tree_get_ok ext)
  show "m = n" if "tree_ok m" "tree_ok n" "im_get m = im_get n" for m n :: "'a tree"
    using tree_canonical [OF that(1,2)] that tree_get_ok by (metis im_get_def ext)
qed

end
