(* ===== verification/IntMap_Spec.thy ===== *)
theory IntMap_Spec
  imports IntMap_Correct
begin

text \<open>
  The contract of \<^verbatim>\<open>IntMap\<close>: the maps that \<open>new\<close>, \<open>insert\<close> and \<open>union\<close> build, next to the partial functions
  they stand for, and the results of every observer on them.
\<close>

inductive im_built :: "'v int_map \<Rightarrow> (u64 \<Rightarrow> 'v option) \<Rightarrow> bool" where
  built_new: "im_built im_new Map.empty"
| built_insert: "im_built m f \<Longrightarrow> im_insert m k v = Some m' \<Longrightarrow> im_built m' (f(k \<mapsto> v))"
| built_union: "im_built m f \<Longrightarrow> im_built n g \<Longrightarrow> im_union m n = Some u \<Longrightarrow> im_built u (g ++ f)"

lemma im_built_ok: "im_built m f \<Longrightarrow> tree_ok m \<and> im_get m = f"
proof (induction rule: im_built.induct)
  case built_new
  then show ?case
    by (simp add: im.new_ok im.get_new)
next
  case (built_insert m f k v m')
  then show ?case
    using im.ins_ok [of m k v] by (auto simp del: fun_upd_apply)
next
  case (built_union m f n g u)
  then show ?case
    using im.union_ok [of m n] by auto
qed

lemma im_built_collect: "im_built m f \<Longrightarrow> run_ops (\<lambda>(k, v) m. im_insert m k v) es m = Some m' \<Longrightarrow> im_built m' (f ++ map_of (rev es))"
proof (induction es arbitrary: m f)
  case (Cons e es)
  obtain k v where e: "e = (k, v)"
    by fastforce
  obtain m1 where m1: "im_insert m k v = Some m1"
    using Cons.prems(2) e by (auto split: option.splits)
  have "im_built m1 (f(k \<mapsto> v))"
    using Cons.prems(1) m1 by (rule built_insert)
  then have "im_built m' (f(k \<mapsto> v) ++ map_of (rev es))"
    using Cons.IH Cons.prems(2) e m1 by simp
  moreover have "f(k \<mapsto> v) ++ map_of (rev es) = f ++ map_of (rev (e # es))"
    using e by (auto simp: fun_eq_iff map_add_def split: option.splits)
  ultimately show ?case
    by simp
qed simp

lemma im_keys_get: "tree_ok m \<Longrightarrow> keys m = dom (im_get m)"
  by (metis dom_lk ext im_get_def tree_get_ok)

lemma im_get_entries: "tree_ok m \<Longrightarrow> im_get m = map_of (tree_entries m)"
  by (metis ext im_get_def lk_def tree_get_ok)

text \<open>
  C17. A map built by any sequence of insertions and unions is the map it stands for: \<open>get\<close> returns the value of
  the last insertion, a union prefers the entries of its receiver, and no insertion or union of such maps fails on
  the subtraction in \<open>branching_bit\<close>.
\<close>

theorem int_map_refines_map:
  assumes "im_built m f" "im_built n g"
  shows "im_get m = f \<and> (\<exists>m'. im_insert m k v = Some m' \<and> im_get m' = f(k \<mapsto> v)) \<and>
         (\<exists>u. im_union m n = Some u \<and> im_get u = g ++ f)"
  using im_built_ok [OF assms(1)] im_built_ok [OF assms(2)] im.ins_ok [of m k v] im.union_ok [of m n]
  by (auto simp del: fun_upd_apply)

lemma built_leaf: "im_built (Leaf k v) [k \<mapsto> v]"
  using built_insert [OF built_new, of k v "Leaf k v"] by (simp add: im_insert_def im_new_def)

lemma union_5_9: "im_union (Leaf 5 True) (Leaf 9 False) = Some (Branch 0 3 (Leaf 5 True) (Leaf 9 False))"
  by code_simp

theorem int_map_refines_map_witness:
  "im_built (Leaf 5 True) [5 \<mapsto> True] \<and> im_built (Leaf 9 False) [9 \<mapsto> False]
   \<and> (\<exists>u. im_union (Leaf 5 True) (Leaf 9 False) = Some u \<and> im_get u = [9 \<mapsto> False] ++ [5 \<mapsto> True])
   \<and> im_union (Leaf 5 True) (Leaf 9 False) = Some (Branch 0 3 (Leaf 5 True) (Leaf 9 False))"
  using int_map_refines_map [OF built_leaf [of 5 True] built_leaf [of 9 False]] built_leaf [of 5 True] built_leaf [of 9 False]
    union_5_9 by blast

text \<open>
  Every map that is built satisfies the documented invariant of its branches, and maps with the same entries are
  the same tree, whatever insertions and unions built them.
\<close>

theorem int_map_canonical:
  assumes "im_built m f" "im_built n g"
  shows "tree_ok m \<and> (f = g \<longleftrightarrow> m = n)"
  using im_built_ok [OF assms(1)] im_built_ok [OF assms(2)] im.extensional [of m n] by auto

theorem int_map_canonical_witness:
  "tree_ok (Leaf 5 True) \<and> ([5 :: u64 \<mapsto> True] = [9 \<mapsto> False] \<longleftrightarrow> Leaf 5 True = Leaf 9 False)"
  using int_map_canonical [OF built_leaf [of 5 True] built_leaf [of 9 False]] by blast

text \<open>
  \<open>bounds\<close> returns the greatest key of the map that is not above the given key and the least one that is not
  below it, and \<open>None\<close> exactly where there is no such key; \<open>max_key\<close> is the greatest key.
\<close>

theorem int_map_bounds:
  assumes "im_built m f"
  shows "greatest_le (dom f) key (fst (im_bounds m key)) \<and> least_ge (dom f) key (snd (im_bounds m key)) \<and>
         (case im_max_key m of None \<Rightarrow> f = Map.empty | Some k \<Rightarrow> k \<in> dom f \<and> (\<forall>k'\<in>dom f. k' \<le> k))"
proof -
  have ok: "tree_ok m" "keys m = dom f"
    using im_built_ok [OF assms] im_keys_get by auto
  moreover have "case im_max_key m of None \<Rightarrow> f = Map.empty | Some k \<Rightarrow> k \<in> dom f \<and> (\<forall>k'\<in>dom f. k' \<le> k)"
  proof (cases "m = Empty")
    case True
    then show ?thesis
      using ok(2) dom_eq_empty_conv [of f] by (simp add: im_max_key_def)
  next
    case False
    then show ?thesis
      using ok tree_max_key_ok [of m] by (auto simp: tree_ok_def im_max_key_def)
  qed
  ultimately show ?thesis
    using tree_bounds_ok [OF ok(1), of key] by (simp add: im_bounds_def)
qed

theorem int_map_bounds_witness:
  "im_built (Leaf 5 True) [5 \<mapsto> True]
   \<and> greatest_le (dom [5 \<mapsto> True]) 7 (fst (im_bounds (Leaf 5 True) 7)) \<and> im_bounds (Leaf 5 True) 7 = (Some 5, None)"
  using int_map_bounds [OF built_leaf [of 5 True], of 7] built_leaf [of 5 True] by (simp add: im_bounds_def)

text \<open>
  C29. A traversal ends: the iterator of a map with \<open>n\<close> entries returns them in the first \<open>n\<close> calls of \<open>next\<close>, in
  strictly increasing order of their keys and none of them twice, and returns \<open>None\<close> in the next call; \<open>len\<close> is
  the number of keys.
\<close>

theorem int_map_iter:
  assumes "im_built m f" "im_len m \<le> n"
  shows "iter_collect n (im_iter m) = tree_entries m \<and> fst (iter_next (iter_after (im_len m) (im_iter m))) = None \<and>
         sorted_wrt (<) (map fst (tree_entries m)) \<and> map_of (tree_entries m) = f \<and> im_len m = card (dom f)"
proof -
  have ok: "tree_ok m" "im_get m = f"
    using im_built_ok [OF assms(1)] by auto
  have sorted: "sorted_wrt (<) (map fst (tree_entries m))"
    using ok(1) tree_entries_sorted by (auto simp: tree_ok_def)
  have f: "map_of (tree_entries m) = f"
    using im_get_entries [OF ok(1)] ok(2) by simp
  have "dom f = set (map fst (tree_entries m))"
    unfolding f [symmetric] by (simp add: dom_map_of_conv_image_fst)
  then have "im_len m = card (dom f)"
    using distinct_card [of "map fst (tree_entries m)"] sorted [unfolded strict_sorted_iff]
    by (simp add: im_len_def tree_len_entries)
  then show ?thesis
    using sorted f iter_ends [OF ok(1)] iter_collect_tree [OF ok(1), of n] assms(2) by (simp add: im_len_def im_iter_def)
qed

theorem int_map_iter_witness:
  "im_built (Leaf 5 True) [5 \<mapsto> True] \<and> im_len (Leaf 5 True) \<le> 3 \<and> iter_collect 3 (im_iter (Leaf 5 True)) = [(5, True)]"
  using int_map_iter [OF built_leaf [of 5 True], of 3] built_leaf [of 5 True] by (simp add: im_len_def)

end
