(* ===== verification/FileIO.thy ===== *)
theory FileIO
  imports Prelude "HOL-Library.Sublist"
begin

text \<open>
  Files as the operating system keeps them, and the vectored write of \<open>rs/utils/src/fs.rs\<close> that the page maps are
  persisted with. What the system answers to a call is an argument: a write may be short, may be interrupted and may
  fail, and \<open>write_all_vectored\<close> is run on a list of answers.
\<close>

section \<open>Files\<close>

record os_file =
  f_bytes :: "u8 list"
  f_pos :: nat

text \<open>Bytes written at a position; the hole of a file that is extended past its end reads as zeros.\<close>

definition file_put :: "u8 list \<Rightarrow> nat \<Rightarrow> u8 list \<Rightarrow> u8 list" where
  "file_put bytes pos data =
     (if data = [] then bytes
      else take pos (bytes @ replicate (pos - length bytes) 0) @ data @ drop (pos + length data) bytes)"

lemma file_put_Nil [simp]: "file_put bytes pos [] = bytes"
  by (simp add: file_put_def)

lemma length_file_put: "length (file_put bytes pos data) = (if data = [] then length bytes else max (length bytes) (pos + length data))"
  by (auto simp: file_put_def)

lemma nth_file_put:
  "i < length (file_put bytes pos data) \<Longrightarrow>
     file_put bytes pos data ! i =
       (if pos \<le> i \<and> i < pos + length data then data ! (i - pos) else if i < length bytes then bytes ! i else 0)"
proof (cases "data = []")
  case False
  assume i: "i < length (file_put bytes pos data)"
  define head where "head = take pos (bytes @ replicate (pos - length bytes) 0)"
  have head: "length head = pos" "j < pos \<Longrightarrow> head ! j = (if j < length bytes then bytes ! j else 0)" for j
    by (auto simp: head_def nth_append)
  have put: "file_put bytes pos data = head @ data @ drop (pos + length data) bytes"
    using False by (simp add: file_put_def head_def)
  have "i < length bytes" if "pos + length data \<le> i"
    using that i False by (simp add: length_file_put split: if_splits)
  then show ?thesis
    unfolding put by (auto simp: nth_append head)
qed auto

lemma file_put_append: "file_put (file_put bytes pos xs) (pos + length xs) ys = file_put bytes pos (xs @ ys)"
proof (cases "xs = [] \<or> ys = []")
  case False
  show ?thesis
  proof (rule nth_equalityI)
    show "length (file_put (file_put bytes pos xs) (pos + length xs) ys) = length (file_put bytes pos (xs @ ys))"
      using False by (simp add: length_file_put)
    fix i
    assume "i < length (file_put (file_put bytes pos xs) (pos + length xs) ys)"
    then show "file_put (file_put bytes pos xs) (pos + length xs) ys ! i = file_put bytes pos (xs @ ys) ! i"
      using False by (auto simp: nth_file_put nth_append length_file_put)
  qed
qed auto

section \<open>Vectored writes\<close>

datatype io_error =
    WriteZero
  | OsError string

text \<open>Answers of the system to \<open>write_vectored\<close>: a number of bytes, which is at most that of the slices, or an error.\<close>

datatype write_response =
    Wrote nat
  | Interrupted
  | Failed string

function advance_slices :: "u8 list list \<Rightarrow> nat \<Rightarrow> nat \<Rightarrow> u8 list list \<Rightarrow> (u8 list list \<times> nat) option" where
  "advance_slices slices front written bufs =
     (if 0 < written \<and> front < length slices then
        let first_len = length (slices ! front) in
        if first_len \<le> written then advance_slices slices (front + 1) (written - first_len) bufs
        else do {
          start \<leftarrow> sub_usize (length (bufs ! front)) (first_len - written);
          Some (slices[front := drop start (bufs ! front)], front)
        }
      else Some (slices, front))"
  by pat_completeness auto
termination
  by (relation "measure (\<lambda>(slices, front, written, bufs). length slices - front)") auto

definition first_non_empty :: "u8 list list \<Rightarrow> nat" where
  "first_non_empty slices = length (takeWhile (\<lambda>s. s = []) slices)"

text \<open>The loop of \<open>write_all_vectored\<close>; \<open>None\<close> when the answers are used up before it returns.\<close>

fun write_loop ::
  "write_response list \<Rightarrow> u8 list list \<Rightarrow> nat \<Rightarrow> u8 list list \<Rightarrow> os_file \<Rightarrow> ((io_error + unit) \<times> os_file) option" where
  "write_loop answers slices front bufs file =
     (if \<not> front < length slices then Some (Inr (), file)
      else case answers of
        [] \<Rightarrow> None
      | Interrupted # rest \<Rightarrow> write_loop rest slices front bufs file
      | Failed e # rest \<Rightarrow> Some (Inl (OsError e), file)
      | Wrote k # rest \<Rightarrow>
          let data = take k (concat (drop front slices)) in
          if data = [] then Some (Inl WriteZero, file)
          else do {
            (slices1, front1) \<leftarrow> advance_slices slices front (length data) bufs;
            write_loop rest slices1 front1 bufs
              (file\<lparr>f_bytes := file_put (f_bytes file) (f_pos file) data, f_pos := f_pos file + length data\<rparr>)
          })"

definition write_all_vectored ::
  "write_response list \<Rightarrow> os_file \<Rightarrow> u8 list list \<Rightarrow> ((io_error + unit) \<times> os_file) option" where
  "write_all_vectored answers file bufs = write_loop answers bufs (first_non_empty bufs) bufs file"

declare advance_slices.simps [simp del]
declare write_loop.simps [simp del]

lemma write_loop_done: "\<not> front < length slices \<Longrightarrow> write_loop answers slices front bufs fl = Some (Inr (), fl)"
  by (subst write_loop.simps) simp

lemma write_loop_step:
  assumes "front < length slices"
  shows "write_loop [] slices front bufs fl = None"
    and "write_loop (Interrupted # as) slices front bufs fl = write_loop as slices front bufs fl"
    and "write_loop (Failed e # as) slices front bufs fl = Some (Inl (OsError e), fl)"
    and "write_loop (Wrote k # as) slices front bufs fl =
          (let data = take k (concat (drop front slices)) in
           if data = [] then Some (Inl WriteZero, fl)
           else do {
             (slices1, front1) \<leftarrow> advance_slices slices front (length data) bufs;
             write_loop as slices1 front1 bufs
               (fl\<lparr>f_bytes := file_put (f_bytes fl) (f_pos fl) data, f_pos := f_pos fl + length data\<rparr>)
           })"
  using assms by (subst write_loop.simps; simp)+

section \<open>Correctness\<close>

text \<open>The slices that remain are suffixes of the buffers they come from.\<close>

definition slices_of :: "u8 list list \<Rightarrow> u8 list list \<Rightarrow> bool" where
  "slices_of bufs slices \<longleftrightarrow> list_all2 (\<lambda>s b. suffix s b) slices bufs"

lemma drop_nth_Cons: "front < length xs \<Longrightarrow> drop front xs = xs ! front # drop (Suc front) xs"
  by (simp add: Cons_nth_drop_Suc)

lemma advance_slices_ok:
  "slices_of bufs slices \<Longrightarrow> written \<le> length (concat (drop front slices)) \<Longrightarrow>
     \<exists>slices1 front1. advance_slices slices front written bufs = Some (slices1, front1) \<and> slices_of bufs slices1
       \<and> concat (drop front1 slices1) = drop written (concat (drop front slices))
       \<and> length slices1 = length slices \<and> (last slices \<noteq> [] \<longrightarrow> last slices1 \<noteq> [])"
proof (induction slices front written bufs rule: advance_slices.induct)
  case (1 slices front written bufs)
  show ?case
  proof (cases "0 < written \<and> front < length slices")
    case False
    then have "written = 0"
      using "1.prems"(2) by auto
    then show ?thesis
      using "1.prems"(1) by (simp add: advance_slices.simps [of slices front])
  next
    case True
    note rest = drop_nth_Cons [of front slices]
    show ?thesis
    proof (cases "length (slices ! front) \<le> written")
      case le: True
      have "written - length (slices ! front) \<le> length (concat (drop (front + 1) slices))"
        using "1.prems"(2) rest True by simp
      from "1.IH" [OF True refl le "1.prems"(1) this] show ?thesis
        using True le rest by (simp add: advance_slices.simps [of slices front])
    next
      case gt: False
      have len: "length bufs = length slices" "suffix (slices ! front) (bufs ! front)"
        using "1.prems"(1) True by (auto simp: slices_of_def list_all2_lengthD list_all2_nthD)
      then obtain pre where pre: "bufs ! front = pre @ slices ! front"
        by (auto simp: suffix_def)
      define s where "s = drop (length (bufs ! front) - (length (slices ! front) - written)) (bufs ! front)"
      have s: "s = drop written (slices ! front)"
        using gt by (simp add: s_def pre)
      have "slices_of bufs (slices[front := s])"
        using "1.prems"(1) len(1) True unfolding slices_of_def
        by (auto simp: list_all2_conv_all_nth nth_list_update s_def suffix_drop)
      moreover have "concat (drop front (slices[front := s])) = drop written (concat (drop front slices))"
        using True gt rest s drop_nth_Cons [of front "slices[front := s]"] by simp
      moreover have "slices \<noteq> []"
        using True by auto
      then have "last slices \<noteq> [] \<longrightarrow> last (slices[front := s]) \<noteq> []"
        using gt s by (auto simp: last_list_update)
      ultimately show ?thesis
        using True gt pre s_def
        by (auto simp: advance_slices.simps [of slices front] sub_usize_def Let_def)
    qed
  qed
qed

text \<open>Whatever the answers are, the file gets a prefix of the data, and all of it when the loop succeeds.\<close>

definition put_data :: "os_file \<Rightarrow> u8 list \<Rightarrow> os_file" where
  "put_data file data = file\<lparr>f_bytes := file_put (f_bytes file) (f_pos file) data, f_pos := f_pos file + length data\<rparr>"

lemma put_data_Nil [simp]: "put_data file [] = file"
  by (simp add: put_data_def)

lemma put_data_append: "put_data (put_data file xs) ys = put_data file (xs @ ys)"
  by (simp add: put_data_def file_put_append)

lemma write_loop_prefix:
  "slices_of bufs slices \<Longrightarrow> write_loop answers slices front bufs fl = Some (r, fl') \<Longrightarrow>
     \<exists>n. fl' = put_data fl (take n (concat (drop front slices)))
       \<and> (r = Inr () \<longrightarrow> length (concat (drop front slices)) \<le> n)"
proof (induction answers arbitrary: slices front fl)
  case Nil
  then show ?case
    by (cases "front < length slices") (auto simp: write_loop_done write_loop_step)
next
  case (Cons a as)
  let ?rest = "concat (drop front slices)"
  show ?case
  proof (cases "front < length slices")
    case False
    then show ?thesis
      using Cons.prems by (simp add: write_loop_done)
  next
    case True
    show ?thesis
    proof (cases a)
      case Interrupted
      then show ?thesis
        using Cons.IH True Cons.prems by (simp add: write_loop_step)
    next
      case (Failed e)
      then show ?thesis
        using True Cons.prems by (intro exI [of _ 0]) (auto simp: write_loop_step)
    next
      case (Wrote k)
      define data where "data = take k ?rest"
      have "length data \<le> length ?rest"
        by (simp add: data_def)
      then obtain slices1 front1 where adv: "advance_slices slices front (length data) bufs = Some (slices1, front1)"
        "slices_of bufs slices1" "concat (drop front1 slices1) = drop (length data) ?rest"
        using advance_slices_ok [OF Cons.prems(1)] by blast
      show ?thesis
      proof (cases "data = []")
        case empty: True
        then show ?thesis
          using True Wrote Cons.prems by (intro exI [of _ 0]) (auto simp: write_loop_step data_def)
      next
        case False
        have "write_loop as slices1 front1 bufs (put_data fl data) = Some (r, fl')"
          using True Wrote Cons.prems(2) False adv(1) by (simp add: write_loop_step put_data_def Let_def data_def [symmetric])
        then obtain n where n: "fl' = put_data (put_data fl data) (take n (drop (length data) ?rest))"
          "r = Inr () \<longrightarrow> length (drop (length data) ?rest) \<le> n"
          using Cons.IH [OF adv(2)] adv(3) by metis
        have "data @ take n (drop (length data) ?rest) = take (length data + n) ?rest"
          by (cases "k \<le> length ?rest") (simp_all add: data_def take_add)
        then show ?thesis
          using n by (auto simp: put_data_append intro!: exI [of _ "length data + n"])
      qed
    qed
  qed
qed

lemma concat_drop_last: "front < length slices \<Longrightarrow> last slices \<noteq> [] \<Longrightarrow> concat (drop front slices) \<noteq> []"
  by (metis concat_eq_Nil_conv drop_eq_Nil last_drop last_in_set leD)

text \<open>Every write of at least one byte brings the loop nearer to its end.\<close>

definition good_answer :: "write_response \<Rightarrow> bool" where
  "good_answer a \<longleftrightarrow> (case a of Wrote k \<Rightarrow> 0 < k | Interrupted \<Rightarrow> True | Failed _ \<Rightarrow> False)"

definition writes :: "write_response list \<Rightarrow> nat" where
  "writes answers = length (filter (\<lambda>a. a \<noteq> Interrupted) answers)"

lemma write_loop_ends:
  "slices_of bufs slices \<Longrightarrow> front < length slices \<longrightarrow> last slices \<noteq> [] \<Longrightarrow> list_all good_answer answers \<Longrightarrow>
     length (concat (drop front slices)) \<le> writes answers \<Longrightarrow>
     \<exists>fl'. write_loop answers slices front bufs fl = Some (Inr (), fl')"
proof (induction answers arbitrary: slices front fl)
  case Nil
  then show ?case
    using concat_drop_last [of front slices] by (cases "front < length slices") (auto simp: writes_def write_loop_done)
next
  case (Cons a as)
  let ?rest = "concat (drop front slices)"
  show ?case
  proof (cases "front < length slices")
    case True
    then have rest: "?rest \<noteq> []" "last slices \<noteq> []"
      using Cons.prems(2) concat_drop_last by auto
    show ?thesis
    proof (cases a)
      case Interrupted
      then show ?thesis
        using Cons.IH [of slices front fl] True Cons.prems by (simp add: write_loop_step writes_def)
    next
      case (Failed e)
      then show ?thesis
        using Cons.prems(3) by (simp add: good_answer_def)
    next
      case (Wrote k)
      define data where "data = take k ?rest"
      have data: "data \<noteq> []" "length data \<le> length ?rest"
        using Wrote Cons.prems(3) rest by (simp_all add: data_def good_answer_def)
      then obtain slices1 front1 where adv: "advance_slices slices front (length data) bufs = Some (slices1, front1)"
        "slices_of bufs slices1" "concat (drop front1 slices1) = drop (length data) ?rest" "last slices1 \<noteq> []"
        using advance_slices_ok [OF Cons.prems(1)] rest(2) by blast
      have "0 < length data" "length ?rest \<le> Suc (writes as)"
        using Cons.prems(4) Wrote data by (simp_all add: writes_def)
      then have "length (concat (drop front1 slices1)) \<le> writes as"
        unfolding adv(3) length_drop by linarith
      then obtain fl' where "write_loop as slices1 front1 bufs (put_data fl data) = Some (Inr (), fl')"
        using Cons.IH [OF adv(2)] adv(4) Cons.prems(3) by auto
      then show ?thesis
        using True Wrote adv(1) data(1) by (simp add: write_loop_step put_data_def Let_def data_def [symmetric])
    qed
  qed (simp add: write_loop_done)
qed

lemma slices_of_refl: "slices_of bufs bufs"
  by (simp add: slices_of_def list_all2_refl)

lemma first_non_empty_rest: "concat (drop (first_non_empty bufs) bufs) = concat bufs"
  unfolding first_non_empty_def by (induction bufs) auto

lemma write_all_vectored_data:
  "write_all_vectored answers fl bufs = Some (r, fl') \<Longrightarrow>
     \<exists>n. fl' = put_data fl (take n (concat bufs)) \<and> (r = Inr () \<longrightarrow> length (concat bufs) \<le> n)"
  using write_loop_prefix [OF slices_of_refl] first_non_empty_rest [of bufs] unfolding write_all_vectored_def by metis

lemma write_all_vectored_total:
  assumes "list_all good_answer answers" "length (concat bufs) \<le> writes answers" "last bufs \<noteq> []"
  shows "write_all_vectored answers fl bufs = Some (Inr (), put_data fl (concat bufs))"
proof -
  have "length (concat (drop (first_non_empty bufs) bufs)) \<le> writes answers"
    unfolding first_non_empty_rest using assms(2) .
  then obtain fl' where fl': "write_all_vectored answers fl bufs = Some (Inr (), fl')"
    using write_loop_ends [OF slices_of_refl _ assms(1)] assms(3) unfolding write_all_vectored_def by blast
  then show ?thesis
    using write_all_vectored_data [OF fl'] by auto
qed



lemma advance_slices_trailing:
  "slices_of bufs slices \<Longrightarrow> front < length slices \<Longrightarrow> last slices = [] \<Longrightarrow> written \<le> length (concat (drop front slices)) \<Longrightarrow>
     advance_slices slices front written bufs = Some (slices1, front1) \<Longrightarrow> front1 < length slices1 \<and> last slices1 = []"
proof (induction slices front written bufs rule: advance_slices.induct)
  case (1 slices front written bufs)
  note rest = drop_nth_Cons [OF "1.prems"(2)]
  show ?case
  proof (cases "0 < written")
    case False
    then show ?thesis
      using "1.prems" by (simp add: advance_slices.simps [of slices front])
  next
    case True
    have not_last: "Suc front < length slices"
    proof (rule ccontr)
      assume "\<not> Suc front < length slices"
      then have "front = length slices - 1"
        using "1.prems"(2) by simp
      moreover have "slices \<noteq> []"
        using "1.prems"(2) by auto
      ultimately have "slices ! front = last slices" "drop (Suc front) slices = []"
        using "1.prems"(2) by (auto simp: last_conv_nth)
      then show False
        using True "1.prems"(3,4) rest by simp
    qed
    show ?thesis
    proof (cases "length (slices ! front) \<le> written")
      case le: True
      then have "advance_slices slices (front + 1) (written - length (slices ! front)) bufs = Some (slices1, front1)"
        using True "1.prems"(2,5) by (simp add: advance_slices.simps [of slices front])
      then show ?thesis
        using "1.IH" [OF _ refl le "1.prems"(1) _ "1.prems"(3)] True "1.prems"(2,4) not_last rest by simp
    next
      case gt: False
      then obtain x where "slices1 = slices[front := x]" "front1 = front"
        using True "1.prems"(2,5) by (auto simp: advance_slices.simps [of slices front] bind_eq_Some_conv)
      moreover have "slices \<noteq> []"
        using "1.prems"(2) by auto
      ultimately show ?thesis
        using "1.prems"(2,3) not_last by (simp add: last_list_update)
    qed
  qed
qed

lemma write_loop_trailing:
  "slices_of bufs slices \<Longrightarrow> front < length slices \<Longrightarrow> last slices = [] \<Longrightarrow>
     write_loop answers slices front bufs fl \<noteq> Some (Inr (), fl')"
proof (induction answers arbitrary: slices front fl)
  case (Cons a as)
  show ?case
  proof (cases a)
    case (Wrote k)
    define data where "data = take k (concat (drop front slices))"
    have len: "length data \<le> length (concat (drop front slices))"
      by (simp add: data_def)
    then obtain slices1 front1 where adv: "advance_slices slices front (length data) bufs = Some (slices1, front1)" "slices_of bufs slices1"
      using advance_slices_ok [OF Cons.prems(1)] by blast
    then show ?thesis
      using Wrote Cons.prems Cons.IH [OF adv(2)] advance_slices_trailing [OF Cons.prems len adv(1)]
      by (auto simp: write_loop_step Let_def data_def [symmetric])
  qed (use Cons in \<open>simp_all add: write_loop_step\<close>)
qed (simp add: write_loop_step)



end
