(* ===== verification/PageMap.thy ===== *)
theory PageMap
  imports IntMap_Spec BTreeMap FileIO
begin

text \<open>
  Page maps (\<open>rs/replicated_state/src/page_map.rs\<close> and \<open>page_map/checkpoint.rs\<close>): the image of the memory of a
  canister as a checkpoint file and the pages that were modified since, the buffers that give byte-wise access to it,
  and the way a page map is written back to a file.

  A page is its contents, an array of \<open>PAGE_SIZE\<close> bytes; where the page allocator keeps it is not part of the state.
  The calls of the operating system are arguments.
\<close>

section \<open>Pages and errors\<close>

definition PAGE_SIZE :: nat where
  "PAGE_SIZE = 4096"

type_synonym page_bytes = "u8 list"

definition zeroed_page :: page_bytes where
  "zeroed_page = replicate PAGE_SIZE 0"

datatype io_context =
    OpenFailed
  | MetadataFailed
  | SeekFailed u64
  | CopyFailed u64 u64

datatype persistence_error =
    FileSystemError string io_context io_error
  | MmapError string nat io_error
  | InvalidHeapFile string nat nat
  | BadPageSize nat nat

definition is_invalid_heap_file :: "persistence_error \<Rightarrow> bool" where
  "is_invalid_heap_file e \<longleftrightarrow> (case e of InvalidHeapFile _ _ _ \<Rightarrow> True | _ \<Rightarrow> False)"

definition add_usize :: "nat \<Rightarrow> nat \<Rightarrow> nat option" where
  "add_usize a b = (if a + b < 2 ^ 64 then Some (a + b) else None)"

definition mul_checked :: "u64 \<Rightarrow> u64 \<Rightarrow> u64 option" where
  "mul_checked a b = (if unat a * unat b < 2 ^ 64 then Some (a * b) else None)"

section \<open>Checkpoints\<close>

text \<open>An open file, and what the system answers when one opens, measures and maps it.\<close>

record heap_file =
  hf_fd :: int
  hf_bytes :: "u8 list"

record os_calls =
  os_open :: "string \<Rightarrow> io_error + heap_file"
  os_len :: "heap_file \<Rightarrow> io_error + nat"
  os_mmap :: "heap_file \<Rightarrow> nat \<Rightarrow> io_error + u8 list"

record mapping =
  mmap_bytes :: "u8 list"
  file_descriptor :: int

record checkpoint =
  cp_mapping :: "mapping option"

datatype memory_region =
    Zeros u64 u64
  | BackedByFile u64 u64 int
  | BackedByPage page_bytes

definition mapping_new :: "os_calls \<Rightarrow> heap_file \<Rightarrow> nat \<Rightarrow> string \<Rightarrow> persistence_error + mapping option" where
  "mapping_new os f len path =
     (if len = 0 then Inr None
      else case os_mmap os f len of
        Inl err \<Rightarrow> Inl (MmapError path len err)
      | Inr bytes \<Rightarrow> Inr (Some \<lparr>mmap_bytes = bytes, file_descriptor = hf_fd f\<rparr>))"

definition mapping_open :: "os_calls \<Rightarrow> string \<Rightarrow> persistence_error + mapping option" where
  "mapping_open os path =
     (case os_open os path of
        Inl err \<Rightarrow> Inl (FileSystemError path OpenFailed err)
      | Inr f \<Rightarrow>
          (case os_len os f of
             Inl err \<Rightarrow> Inl (FileSystemError path MetadataFailed err)
           | Inr len \<Rightarrow>
               if len mod PAGE_SIZE \<noteq> 0 then Inl (InvalidHeapFile path len PAGE_SIZE)
               else mapping_new os f len path))"

definition mapping_num_pages :: "mapping \<Rightarrow> nat" where
  "mapping_num_pages m = length (mmap_bytes m) div PAGE_SIZE"

definition mapping_get_page :: "mapping \<Rightarrow> u64 \<Rightarrow> page_bytes" where
  "mapping_get_page m page_index =
     (let num_pages = length (mmap_bytes m) div PAGE_SIZE in
      if page_index < of_nat num_pages
      then take PAGE_SIZE (drop (unat page_index * PAGE_SIZE) (mmap_bytes m))
      else zeroed_page)"

definition mapping_get_memory_region :: "mapping \<Rightarrow> u64 \<Rightarrow> u64 \<Rightarrow> u64 \<Rightarrow> memory_region" where
  "mapping_get_memory_region m page_index range_start range_end =
     (let num_pages = of_nat (length (mmap_bytes m) div PAGE_SIZE) in
      if num_pages \<le> page_index then Zeros num_pages range_end
      else BackedByFile range_start (min num_pages range_end) (file_descriptor m))"

definition cp_empty :: checkpoint where
  "cp_empty = \<lparr>cp_mapping = None\<rparr>"

definition cp_open :: "os_calls \<Rightarrow> string \<Rightarrow> persistence_error + checkpoint" where
  "cp_open os path = ok_bind (mapping_open os path) (\<lambda>m. Inr \<lparr>cp_mapping = m\<rparr>)"

definition cp_get_page :: "checkpoint \<Rightarrow> u64 \<Rightarrow> page_bytes" where
  "cp_get_page c page_index =
     (case cp_mapping c of Some m \<Rightarrow> mapping_get_page m page_index | None \<Rightarrow> zeroed_page)"

definition cp_get_memory_region :: "checkpoint \<Rightarrow> u64 \<Rightarrow> u64 \<Rightarrow> u64 \<Rightarrow> memory_region option" where
  "cp_get_memory_region c page_index range_start range_end =
     (if \<not> (range_start \<le> page_index \<and> page_index < range_end) then None
      else case cp_mapping c of
        Some m \<Rightarrow> Some (mapping_get_memory_region m page_index range_start range_end)
      | None \<Rightarrow> Some (Zeros range_start range_end))"

definition cp_num_pages :: "checkpoint \<Rightarrow> nat" where
  "cp_num_pages c = (case cp_mapping c of Some m \<Rightarrow> mapping_num_pages m | None \<Rightarrow> 0)"

section \<open>Page deltas\<close>

type_synonym page_delta = "page_bytes int_map"

definition pd_get_page :: "page_delta \<Rightarrow> u64 \<Rightarrow> page_bytes option" where
  "pd_get_page d page_index = im_get d page_index"

definition pd_bounds :: "page_delta \<Rightarrow> u64 \<Rightarrow> u64 option \<times> u64 option" where
  "pd_bounds d page_index = im_bounds d page_index"

definition pd_update :: "page_delta \<Rightarrow> page_delta \<Rightarrow> page_delta option" where
  "pd_update d rhs = im_union rhs d"

text \<open>The entries that a traversal of the iterator yields; the call after the last entry ends it.\<close>

definition pd_iter :: "page_delta \<Rightarrow> (u64 \<times> page_bytes) list" where
  "pd_iter d = iter_collect (im_len d + 1) (im_iter d)"

definition pd_is_empty :: "page_delta \<Rightarrow> bool" where
  "pd_is_empty d \<longleftrightarrow> im_is_empty d"

definition pd_max_page_index :: "page_delta \<Rightarrow> u64 option" where
  "pd_max_page_index d = im_max_key d"

definition pd_from :: "(u64 \<times> page_bytes) list \<Rightarrow> page_delta option" where
  "pd_from es = im_from_iter es"

text \<open>
  The conversion \<open>as f64\<close> of an integer keeps 53 significant bits and rounds to nearest, ties to even; so does the
  product of two integral floats. \<open>f64_exceeds\<close> is the comparison of \<open>write_amplification_to_gap\<close>, for a maximum
  amplification that is an integer, as \<open>MAXIMUM_WRITE_AMPLIFICATION\<close> is.
\<close>

fun bit_len :: "nat \<Rightarrow> nat" where
  "bit_len n = (if n = 0 then 0 else Suc (bit_len (n div 2)))"

declare bit_len.simps [simp del]

definition f64_round :: "nat \<Rightarrow> nat" where
  "f64_round n =
     (if n < 2 ^ 53 then n
      else
        let e = bit_len n - 53; q = n div 2 ^ e; r = n mod 2 ^ e; half = 2 ^ (e - 1) in
        (if half < r \<or> (r = half \<and> odd q) then q + 1 else q) * 2 ^ e)"

definition f64_exceeds :: "u64 \<Rightarrow> u64 \<Rightarrow> nat \<Rightarrow> bool" where
  "f64_exceeds total_pages dirty_pages amplification \<longleftrightarrow>
     f64_round (f64_round (unat dirty_pages) * (amplification - 1)) < f64_round (unat total_pages)"

definition MAXIMUM_GAP :: u64 where
  "MAXIMUM_GAP = 200"

definition MAXIMUM_WRITE_AMPLIFICATION :: nat where
  "MAXIMUM_WRITE_AMPLIFICATION = 5"

text \<open>The histogram of the gaps, and the number of pages that were counted with it.\<close>

fun gap_histogram :: "u64 \<Rightarrow> u64 list \<Rightarrow> u64 \<Rightarrow> (u64, u64) btree \<Rightarrow> u64 \<Rightarrow> ((u64, u64) btree \<times> u64) option" where
  "gap_histogram maximum_gap [] last_index gaps n = Some (gaps, n)"
| "gap_histogram maximum_gap (index # rest) last_index gaps n =
     (if \<not> last_index < index then None
      else
        let gap = index - last_index - 1 in
        do {
          gaps1 \<leftarrow>
            (if 0 < gap \<and> gap \<le> maximum_gap then
               do {
                 c \<leftarrow> add_checked (case bt_get gaps gap of Some c \<Rightarrow> c | None \<Rightarrow> 0) 1;
                 Some (bt_insert gap c gaps)
               }
             else Some gaps);
          n1 \<leftarrow> add_checked n 1;
          gap_histogram maximum_gap rest index gaps1 n1
        })"

fun scan_gaps :: "(u64 \<times> u64) list \<Rightarrow> u64 \<Rightarrow> u64 \<Rightarrow> u64 \<Rightarrow> nat \<Rightarrow> u64 option" where
  "scan_gaps [] amplified maximum_gap dirty_pages amplification = Some maximum_gap"
| "scan_gaps ((gap, n) # rest) amplified maximum_gap dirty_pages amplification =
     do {
       pages \<leftarrow> mul_checked gap n;
       amplified1 \<leftarrow> add_checked amplified pages;
       if f64_exceeds amplified1 dirty_pages amplification
       then (if 0 < gap then Some (gap - 1) else None)
       else scan_gaps rest amplified1 maximum_gap dirty_pages amplification
     }"

definition write_amplification_to_gap :: "page_delta \<Rightarrow> u64 \<Rightarrow> nat \<Rightarrow> u64 option" where
  "write_amplification_to_gap d maximum_gap amplification =
     (if pd_is_empty d \<or> amplification \<le> 1 then Some 0
      else case map fst (pd_iter d) of
        [] \<Rightarrow> None
      | first # rest \<Rightarrow>
          do {
            (gaps, dirty_pages) \<leftarrow> gap_histogram maximum_gap rest first [] 0;
            scan_gaps gaps 0 maximum_gap dirty_pages amplification
          })"

section \<open>Page maps\<close>

record page_map =
  pm_checkpoint :: checkpoint
  base_height :: "u64 option"
  pm_page_delta :: page_delta
  round_delta :: page_delta
  stripped_round_deltas :: bool

definition pm_default :: page_map where
  "pm_default =
     \<lparr>pm_checkpoint = cp_empty, base_height = None, pm_page_delta = im_new, round_delta = im_new, stripped_round_deltas = False\<rparr>"

definition pm_open :: "os_calls \<Rightarrow> string \<Rightarrow> u64 \<Rightarrow> persistence_error + page_map" where
  "pm_open os heap_file height =
     ok_bind (cp_open os heap_file)
       (\<lambda>c. Inr \<lparr>pm_checkpoint = c, base_height = Some height, pm_page_delta = im_new, round_delta = im_new,
                 stripped_round_deltas = False\<rparr>)"

definition pm_apply :: "page_map \<Rightarrow> (u64 \<times> page_bytes) list \<Rightarrow> page_map option" where
  "pm_apply pm pages =
     do {
       delta \<leftarrow> pd_from pages;
       page_delta1 \<leftarrow> pd_update (pm_page_delta pm) delta;
       round_delta1 \<leftarrow> pd_update (round_delta pm) delta;
       Some (pm\<lparr>pm_page_delta := page_delta1, round_delta := round_delta1\<rparr>)
     }"

text \<open>The allocator copies the pages; the page that it returns for an index has the given contents.\<close>

definition pm_update :: "page_map \<Rightarrow> (u64 \<times> page_bytes) list \<Rightarrow> (page_map \<times> u64 list) option" where
  "pm_update pm pages = do { pm1 \<leftarrow> pm_apply pm pages; Some (pm1, map fst pages) }"

definition pm_get_page :: "page_map \<Rightarrow> u64 \<Rightarrow> page_bytes" where
  "pm_get_page pm page_index =
     (case pd_get_page (pm_page_delta pm) page_index of
        Some page \<Rightarrow> page
      | None \<Rightarrow> cp_get_page (pm_checkpoint pm) page_index)"

definition pm_get_memory_region :: "page_map \<Rightarrow> u64 \<Rightarrow> memory_region option" where
  "pm_get_memory_region pm page_index =
     (case pd_get_page (pm_page_delta pm) page_index of
        Some page \<Rightarrow> Some (BackedByPage page)
      | None \<Rightarrow>
          (let (lower, upper) = pd_bounds (pm_page_delta pm) page_index in
           do {
             range_start \<leftarrow> (case lower of None \<Rightarrow> Some 0 | Some s \<Rightarrow> add_checked s 1);
             let range_end = (case upper of None \<Rightarrow> - 1 | Some e \<Rightarrow> e) in
             if \<not> (range_start \<le> page_index \<and> page_index < range_end) then None
             else cp_get_memory_region (pm_checkpoint pm) page_index range_start range_end
           }))"

definition pm_get_checkpoint_memory_region :: "page_map \<Rightarrow> memory_region option" where
  "pm_get_checkpoint_memory_region pm = cp_get_memory_region (pm_checkpoint pm) 0 0 (- 1)"

definition pm_strip_all_deltas :: "page_map \<Rightarrow> page_map" where
  "pm_strip_all_deltas pm = pm\<lparr>pm_page_delta := im_new, round_delta := im_new\<rparr>"

definition pm_strip_round_delta :: "page_map \<Rightarrow> page_map" where
  "pm_strip_round_delta pm = pm\<lparr>stripped_round_deltas := True, round_delta := im_new\<rparr>"

definition pm_get_page_delta_indices :: "page_map \<Rightarrow> u64 list" where
  "pm_get_page_delta_indices pm = map fst (pd_iter (pm_page_delta pm))"

definition pm_page_delta_is_empty :: "page_map \<Rightarrow> bool" where
  "pm_page_delta_is_empty pm \<longleftrightarrow> pd_is_empty (pm_page_delta pm)"

definition pm_round_delta_is_empty :: "page_map \<Rightarrow> bool" where
  "pm_round_delta_is_empty pm \<longleftrightarrow> pd_is_empty (round_delta pm)"

definition pm_num_host_pages :: "page_map \<Rightarrow> nat option" where
  "pm_num_host_pages pm =
     (let pages_in_checkpoint = cp_num_pages (pm_checkpoint pm) in
      case pd_max_page_index (pm_page_delta pm) of
        None \<Rightarrow> Some pages_in_checkpoint
      | Some i \<Rightarrow> do { n \<leftarrow> add_checked i 1; Some (max pages_in_checkpoint (unat n)) })"

definition pm_host_pages :: "page_map \<Rightarrow> (u64 \<times> page_bytes) list option" where
  "pm_host_pages pm =
     do { n \<leftarrow> pm_num_host_pages pm; Some (map (\<lambda>i. (of_nat i, pm_get_page pm (of_nat i))) [0..<n]) }"

text \<open>The four assertions on the deltas follow the assignments; one that fails is a panic.\<close>

definition pm_switch_to_checkpoint :: "page_map \<Rightarrow> page_map \<Rightarrow> page_map option" where
  "pm_switch_to_checkpoint pm checkpointed =
     (if pd_is_empty (pm_page_delta pm) \<and> pd_is_empty (round_delta pm) \<and>
         pd_is_empty (pm_page_delta checkpointed) \<and> pd_is_empty (round_delta checkpointed)
      then Some (pm\<lparr>pm_checkpoint := pm_checkpoint checkpointed, base_height := base_height checkpointed\<rparr>)
      else None)"

definition pm_eq :: "page_map \<Rightarrow> page_map \<Rightarrow> bool option" where
  "pm_eq pm rhs =
     do {
       n \<leftarrow> pm_num_host_pages pm;
       m \<leftarrow> pm_num_host_pages rhs;
       if n \<noteq> m then Some False
       else do { xs \<leftarrow> pm_host_pages pm; ys \<leftarrow> pm_host_pages rhs; Some (xs = ys) }
     }"

section \<open>Persisting a delta\<close>

text \<open>
  What the system answers while a buffer that starts at the given page is written: the error of the seek, if any, and
  the answers to the writes.
\<close>

type_synonym write_env = "u64 \<Rightarrow> io_error option \<times> write_response list"

record write_buffer =
  wb_content :: "page_bytes list"
  wb_start_index :: u64

definition wb_apply_to_file ::
  "write_env \<Rightarrow> string \<Rightarrow> write_buffer \<Rightarrow> os_file \<Rightarrow> ((persistence_error + unit) \<times> os_file) option" where
  "wb_apply_to_file env path wb fl =
     do {
       offset \<leftarrow> mul_checked (wb_start_index wb) (of_nat PAGE_SIZE);
       case fst (env (wb_start_index wb)) of
         Some err \<Rightarrow> Some (Inl (FileSystemError path (SeekFailed offset) err), fl)
       | None \<Rightarrow>
           do {
             (r, fl1) \<leftarrow> write_all_vectored (snd (env (wb_start_index wb))) (fl\<lparr>f_pos := unat offset\<rparr>) (wb_content wb);
             case r of
               Inr _ \<Rightarrow> Some (Inr (), fl1)
             | Inl err \<Rightarrow>
                 do {
                   last_page \<leftarrow> add_checked (wb_start_index wb) (of_nat (length (wb_content wb)));
                   Some (Inl (FileSystemError path (CopyFailed (wb_start_index wb) last_page) err), fl1)
                 }
           }
     }"

text \<open>The pages between the end of the buffer and the next page of the delta.\<close>

definition pm_pages_between :: "page_map \<Rightarrow> u64 \<Rightarrow> u64 \<Rightarrow> page_bytes list" where
  "pm_pages_between pm next_index index = map (\<lambda>i. pm_get_page pm (of_nat i)) [unat next_index..<unat index]"

fun apply_pages ::
  "write_env \<Rightarrow> string \<Rightarrow> page_map \<Rightarrow> u64 \<Rightarrow> (u64 \<times> page_bytes) list \<Rightarrow> write_buffer \<Rightarrow> os_file \<Rightarrow>
   ((persistence_error + unit) \<times> os_file) option" where
  "apply_pages env path pm maximum_gap [] buffer fl = wb_apply_to_file env path buffer fl"
| "apply_pages env path pm maximum_gap ((index, page) # rest) buffer fl =
     do {
       next_index \<leftarrow> add_checked (wb_start_index buffer) (of_nat (length (wb_content buffer)));
       limit \<leftarrow> add_checked next_index maximum_gap;
       if index \<le> limit then
         apply_pages env path pm maximum_gap rest
           (buffer\<lparr>wb_content := wb_content buffer @ pm_pages_between pm next_index index @ [page]\<rparr>) fl
       else
         do {
           (r, fl1) \<leftarrow> wb_apply_to_file env path buffer fl;
           case r of
             Inl err \<Rightarrow> Some (Inl err, fl1)
           | Inr _ \<Rightarrow> apply_pages env path pm maximum_gap rest \<lparr>wb_content = [page], wb_start_index = index\<rparr> fl1
         }
     }"

text \<open>The first iteration has no buffer yet and opens one.\<close>

definition pm_apply_delta_to_file ::
  "write_env \<Rightarrow> string \<Rightarrow> page_map \<Rightarrow> page_delta \<Rightarrow> os_file \<Rightarrow> ((persistence_error + unit) \<times> os_file) option" where
  "pm_apply_delta_to_file env path pm delta fl =
     do {
       maximum_gap \<leftarrow> write_amplification_to_gap delta MAXIMUM_GAP MAXIMUM_WRITE_AMPLIFICATION;
       case pd_iter delta of
         [] \<Rightarrow> Some (Inr (), fl)
       | (index, page) # rest \<Rightarrow>
           apply_pages env path pm maximum_gap rest \<lparr>wb_content = [page], wb_start_index = index\<rparr> fl
     }"

text \<open>Opening for writing creates the file when there is none.\<close>

definition pm_persist_to_file ::
  "write_env \<Rightarrow> (string \<Rightarrow> io_error + os_file) \<Rightarrow> page_map \<Rightarrow> page_delta \<Rightarrow> string \<Rightarrow>
   ((persistence_error + unit) \<times> os_file option) option" where
  "pm_persist_to_file env open_for_writing pm delta dst =
     (case open_for_writing dst of
        Inl err \<Rightarrow> Some (Inl (FileSystemError dst OpenFailed err), None)
      | Inr fl \<Rightarrow> do { (r, fl1) \<leftarrow> pm_apply_delta_to_file env dst pm delta fl; Some (r, Some fl1) })"

definition pm_persist_delta ::
  "write_env \<Rightarrow> (string \<Rightarrow> io_error + os_file) \<Rightarrow> page_map \<Rightarrow> string \<Rightarrow>
   ((persistence_error + unit) \<times> os_file option) option" where
  "pm_persist_delta env open_for_writing pm dst = pm_persist_to_file env open_for_writing pm (pm_page_delta pm) dst"

definition pm_persist_round_delta ::
  "write_env \<Rightarrow> (string \<Rightarrow> io_error + os_file) \<Rightarrow> page_map \<Rightarrow> string \<Rightarrow>
   ((persistence_error + unit) \<times> os_file option) option" where
  "pm_persist_round_delta env open_for_writing pm dst = pm_persist_to_file env open_for_writing pm (round_delta pm) dst"

section \<open>Buffers\<close>

text \<open>The order of the hash map of the dirty pages is not observable; here it is that of the page indices.\<close>

record buffer =
  bf_page_map :: page_map
  bf_dirty_pages :: "(u64, page_bytes) btree"

definition bf_new :: "page_map \<Rightarrow> buffer" where
  "bf_new pm = \<lparr>bf_page_map = pm, bf_dirty_pages = []\<rparr>"

text \<open>\<open>deterministic_copy_from_slice\<close> panics when the lengths of the slices differ.\<close>

definition deterministic_copy_from_slice :: "u8 list \<Rightarrow> u8 list \<Rightarrow> u8 list option" where
  "deterministic_copy_from_slice dst src = (if length dst \<noteq> length src then None else Some src)"

definition bf_page :: "buffer \<Rightarrow> u64 \<Rightarrow> page_bytes" where
  "bf_page buf page =
     (case bt_get (bf_dirty_pages buf) page of Some bytes \<Rightarrow> bytes | None \<Rightarrow> pm_get_page (bf_page_map buf) page)"

function bf_read :: "buffer \<Rightarrow> u8 list \<Rightarrow> nat \<Rightarrow> u8 list option" where
  "bf_read buf dst offset =
     (if dst = [] then Some []
      else
        let page = of_nat (offset div PAGE_SIZE);
            offset_into_page = offset mod PAGE_SIZE;
            page_len = min (length dst) (PAGE_SIZE - offset_into_page)
        in do {
          bytes \<leftarrow> deterministic_copy_from_slice (take page_len dst) (take page_len (drop offset_into_page (bf_page buf page)));
          offset1 \<leftarrow> add_usize offset page_len;
          rest \<leftarrow> bf_read buf (drop page_len dst) offset1;
          Some (bytes @ rest)
        })"
  by pat_completeness auto
termination
  by (relation "measure (\<lambda>(buf, dst, offset). length dst)") (auto simp: PAGE_SIZE_def)

function bf_write :: "buffer \<Rightarrow> u8 list \<Rightarrow> nat \<Rightarrow> buffer option" where
  "bf_write buf src offset =
     (if src = [] then Some buf
      else
        let page = of_nat (offset div PAGE_SIZE);
            offset_into_page = offset mod PAGE_SIZE;
            page_len = min (length src) (PAGE_SIZE - offset_into_page);
            dirty_page = bf_page buf page
        in do {
          bytes \<leftarrow> deterministic_copy_from_slice (take page_len (drop offset_into_page dirty_page)) (take page_len src);
          offset1 \<leftarrow> add_usize offset page_len;
          bf_write
            (buf\<lparr>bf_dirty_pages :=
               bt_insert page (take offset_into_page dirty_page @ bytes @ drop (offset_into_page + page_len) dirty_page)
                 (bf_dirty_pages buf)\<rparr>)
            (drop page_len src) offset1
        })"
  by pat_completeness auto
termination
  by (relation "measure (\<lambda>(buf, src, offset). length src)") (auto simp: PAGE_SIZE_def)

declare bf_read.simps [simp del]
declare bf_write.simps [simp del]

definition MAX_STABLE_MEMORY_IN_BYTES :: u64 where
  "MAX_STABLE_MEMORY_IN_BYTES = 48 * (1024 * 1024 * 1024)"

definition bf_dirty_pages_from_write :: "buffer \<Rightarrow> u64 \<Rightarrow> u64 \<Rightarrow> u64" where
  "bf_dirty_pages_from_write buf offset size_bytes =
     (if size_bytes = 0 then 0
      else
        let first_page = offset div of_nat PAGE_SIZE;
            last_page = min (saturating_add offset (size_bytes - 1)) MAX_STABLE_MEMORY_IN_BYTES div of_nat PAGE_SIZE
        in of_nat (length (filter (\<lambda>p. \<not> bt_contains_key (bf_dirty_pages buf) (of_nat p))
                             [unat first_page..<Suc (unat last_page)])))"

definition bf_into_page_map :: "buffer \<Rightarrow> page_map option" where
  "bf_into_page_map buf = map_option fst (pm_update (bf_page_map buf) (bf_dirty_pages buf))"

definition pm_from_bytes :: "u8 list \<Rightarrow> page_map option" where
  "pm_from_bytes bytes =
     do {
       buf \<leftarrow> bf_write (bf_new pm_default) bytes 0;
       map_option fst (pm_update pm_default (bf_dirty_pages buf))
     }"

end
