(* ===== verification/PageMap_Correct.thy ===== *)
theory PageMap_Correct
  imports PageMap
begin

text \<open>
  The invariant of page maps and the behaviour of their operations on the memory image, the function from page
  indices to pages that \<open>get_page\<close> computes.
\<close>

lemma PAGE_SIZE_pos [simp]: "0 < PAGE_SIZE"
  by (simp add: PAGE_SIZE_def)

section \<open>The invariant\<close>

definition delta_ok :: "page_delta \<Rightarrow> bool" where
  "delta_ok d \<longleftrightarrow> tree_ok d \<and> (\<forall>i page. im_get d i = Some page \<longrightarrow> length page = PAGE_SIZE)"

text \<open>The length of a mapped file is a positive multiple of the page size, and a file offset is an \<open>i64\<close>.\<close>

definition cp_ok :: "checkpoint \<Rightarrow> bool" where
  "cp_ok c \<longleftrightarrow>
     (case cp_mapping c of
        None \<Rightarrow> True
      | Some m \<Rightarrow> mmap_bytes m \<noteq> [] \<and> length (mmap_bytes m) mod PAGE_SIZE = 0 \<and> length (mmap_bytes m) < 2 ^ 63)"

definition pm_ok :: "page_map \<Rightarrow> bool" where
  "pm_ok pm \<longleftrightarrow>
     cp_ok (pm_checkpoint pm) \<and> delta_ok (pm_page_delta pm) \<and> delta_ok (round_delta pm) \<and>
     im_get (round_delta pm) \<subseteq>\<^sub>m im_get (pm_page_delta pm)"

section \<open>Checkpoints\<close>

definition page_of :: "u8 list \<Rightarrow> nat \<Rightarrow> page_bytes" where
  "page_of bytes i = take PAGE_SIZE (drop (i * PAGE_SIZE) bytes)"

lemma length_page_of: "i < length bytes div PAGE_SIZE \<Longrightarrow> length (page_of bytes i) = PAGE_SIZE"
proof -
  assume "i < length bytes div PAGE_SIZE"
  then have "Suc i * PAGE_SIZE \<le> length bytes div PAGE_SIZE * PAGE_SIZE"
    by (intro mult_le_mono1) simp
  also have "\<dots> \<le> length bytes"
    by simp
  finally show ?thesis
    by (simp add: page_of_def)
qed

lemma nth_page_of: "o1 < PAGE_SIZE \<Longrightarrow> i * PAGE_SIZE + o1 < length bytes \<Longrightarrow> page_of bytes i ! o1 = bytes ! (i * PAGE_SIZE + o1)"
  by (simp add: page_of_def)

lemma length_zeroed_page [simp]: "length zeroed_page = PAGE_SIZE"
  by (simp add: zeroed_page_def)

lemma num_pages_small: "length bytes < 2 ^ 63 \<Longrightarrow> unat (of_nat (length bytes div PAGE_SIZE) :: u64) = length bytes div PAGE_SIZE"
proof -
  assume "length bytes < 2 ^ 63"
  then have "length bytes < 2 ^ 64"
    by simp
  then have "length bytes div PAGE_SIZE < 2 ^ 64"
    by (rule le_less_trans [OF div_le_dividend])
  then show ?thesis
    by (simp add: unat_of_nat take_bit_nat_eq_self)
qed

lemma mapping_get_page_eq:
  "length (mmap_bytes m) < 2 ^ 63 \<Longrightarrow>
     mapping_get_page m i = (if unat i < mapping_num_pages m then page_of (mmap_bytes m) (unat i) else zeroed_page)"
  using num_pages_small [of "mmap_bytes m"]
  by (simp add: mapping_get_page_def mapping_num_pages_def page_of_def word_less_nat_alt Let_def)

lemma cp_get_page_zero: "cp_ok c \<Longrightarrow> cp_num_pages c \<le> unat i \<Longrightarrow> cp_get_page c i = zeroed_page"
  by (auto simp: cp_ok_def cp_get_page_def cp_num_pages_def mapping_get_page_eq split: option.splits)

lemma length_cp_get_page: "cp_ok c \<Longrightarrow> length (cp_get_page c i) = PAGE_SIZE"
  by (auto simp: cp_ok_def cp_get_page_def mapping_get_page_eq mapping_num_pages_def length_page_of split: option.splits)

lemma cp_empty_ok: "cp_ok cp_empty"
  by (simp add: cp_ok_def cp_empty_def)

text \<open>What the system documents of \<open>fstat\<close> and \<open>mmap\<close> on an open file.\<close>

definition os_reads_files :: "os_calls \<Rightarrow> bool" where
  "os_reads_files os \<longleftrightarrow>
     (\<forall>f len. os_len os f = Inr len \<longrightarrow> len = length (hf_bytes f) \<and> len < 2 ^ 63) \<and>
     (\<forall>f len bytes. os_mmap os f len = Inr bytes \<longrightarrow> bytes = take len (hf_bytes f))"

lemma cp_open_ok:
  assumes "os_reads_files os" "cp_open os path = Inr c"
  obtains f where "os_open os path = Inr f" "length (hf_bytes f) mod PAGE_SIZE = 0" "cp_ok c"
    "cp_num_pages c = length (hf_bytes f) div PAGE_SIZE"
    "\<And>i. cp_get_page c i = (if unat i < length (hf_bytes f) div PAGE_SIZE then page_of (hf_bytes f) (unat i) else zeroed_page)"
proof -
  obtain f len m where f: "os_open os path = Inr f" "os_len os f = Inr len" "len mod PAGE_SIZE = 0"
    "mapping_new os f len path = Inr m" "c = \<lparr>cp_mapping = m\<rparr>"
    using assms(2) by (auto simp: cp_open_def mapping_open_def split: sum.splits if_splits elim!: ok_bind.elims)
  have len: "len = length (hf_bytes f)" "len < 2 ^ 63"
    using assms(1) f(2) by (auto simp: os_reads_files_def)
  show ?thesis
  proof (cases "len = 0")
    case True
    then show ?thesis
      using that [OF f(1)] f len by (simp add: mapping_new_def cp_ok_def cp_num_pages_def cp_get_page_def)
  next
    case False
    then obtain bytes where m: "os_mmap os f len = Inr bytes" "m = Some \<lparr>mmap_bytes = bytes, file_descriptor = hf_fd f\<rparr>"
      using f(4) by (auto simp: mapping_new_def split: sum.splits)
    then have "bytes = take len (hf_bytes f)"
      using assms(1) unfolding os_reads_files_def by blast
    then have "bytes = hf_bytes f"
      using len(1) by simp
    then show ?thesis
      using that [OF f(1)] f len False m by (simp add: cp_ok_def cp_num_pages_def cp_get_page_def mapping_num_pages_def mapping_get_page_eq)
  qed
qed

section \<open>Deltas\<close>

lemma delta_ok_new: "delta_ok im_new"
  by (simp add: delta_ok_def im.new_ok im.get_new)

lemma pd_from_ok:
  assumes "\<forall>(_, page) \<in> set pages. length page = PAGE_SIZE"
  obtains d where "pd_from pages = Some d" "delta_ok d" "im_get d = map_of (rev pages)"
proof -
  obtain d where d: "pd_from pages = Some d" "tree_ok d" "im_get d = map_of (rev pages)"
    using im.collect_ok [of pages] by (auto simp: pd_from_def im_from_iter_def)
  moreover have "length page = PAGE_SIZE" if "im_get d i = Some page" for i page
    using that assms d(3) map_of_SomeD [of "rev pages" i page] by auto
  ultimately show ?thesis
    using that by (auto simp: delta_ok_def)
qed

lemma pd_update_ok:
  assumes "delta_ok d" "delta_ok rhs"
  obtains d' where "pd_update d rhs = Some d'" "delta_ok d'" "im_get d' = im_get d ++ im_get rhs"
proof -
  obtain d' where d': "pd_update d rhs = Some d'" "tree_ok d'" "im_get d' = im_get d ++ im_get rhs"
    using im.union_ok [of rhs d] assms by (auto simp: pd_update_def delta_ok_def)
  moreover have "length page = PAGE_SIZE" if "im_get d' i = Some page" for i page
    using that assms unfolding d'(3) by (auto simp: delta_ok_def map_add_Some_iff)
  ultimately show ?thesis
    using that by (auto simp: delta_ok_def)
qed

lemma pd_iter_entries: "delta_ok d \<Longrightarrow> pd_iter d = tree_entries d"
  by (simp add: pd_iter_def delta_ok_def im_len_def im_iter_def iter_collect_tree del: iter_collect.simps)

lemma pd_iter_sorted: "delta_ok d \<Longrightarrow> sorted_wrt (<) (map fst (pd_iter d))"
  using tree_entries_sorted by (auto simp: pd_iter_entries delta_ok_def tree_ok_def)

lemma pd_iter_map: "delta_ok d \<Longrightarrow> map_of (pd_iter d) = im_get d"
  by (simp add: pd_iter_entries im_get_entries delta_ok_def)

lemma pd_is_empty_iff: "delta_ok d \<Longrightarrow> pd_is_empty d \<longleftrightarrow> im_get d = Map.empty"
proof -
  assume "delta_ok d"
  moreover have "pd_is_empty d \<longleftrightarrow> d = im_new"
    by (cases d) (simp_all add: pd_is_empty_def im_is_empty_def im_new_def)
  ultimately show ?thesis
    using im.extensional [of d im_new] im.new_ok im.get_new by (auto simp: delta_ok_def)
qed

lemma pd_max_page_index_iff:
  assumes "delta_ok d"
  shows "case pd_max_page_index d of None \<Rightarrow> im_get d = Map.empty
         | Some k \<Rightarrow> k \<in> dom (im_get d) \<and> (\<forall>k'\<in>dom (im_get d). k' \<le> k)"
  using assms tree_max_key_ok [of d] im_keys_get [of d] im.get_new [unfolded im_new_def]
  by (auto simp: delta_ok_def tree_ok_def pd_max_page_index_def im_max_key_def)

section \<open>Operations of page maps\<close>

lemma pm_default_ok: "pm_ok pm_default"
  by (simp add: pm_ok_def pm_default_def cp_empty_ok delta_ok_new)

lemma pm_default_page: "pm_get_page pm_default i = zeroed_page"
  by (simp add: pm_get_page_def pm_default_def pd_get_page_def im.get_new cp_get_page_def cp_empty_def)

lemma length_pm_get_page: "pm_ok pm \<Longrightarrow> length (pm_get_page pm i) = PAGE_SIZE"
  by (auto simp: pm_ok_def delta_ok_def pm_get_page_def pd_get_page_def length_cp_get_page split: option.splits)

lemma map_le_add_same: "f \<subseteq>\<^sub>m g \<Longrightarrow> f ++ h \<subseteq>\<^sub>m g ++ h"
  by (auto simp: map_le_def map_add_def split: option.splits)

lemma pm_apply_ok:
  assumes "pm_ok pm" "\<forall>(_, page) \<in> set pages. length page = PAGE_SIZE"
  obtains pm' where "pm_apply pm pages = Some pm'" "pm_ok pm'"
    "im_get (pm_page_delta pm') = im_get (pm_page_delta pm) ++ map_of (rev pages)"
    "im_get (round_delta pm') = im_get (round_delta pm) ++ map_of (rev pages)"
    "pm_checkpoint pm' = pm_checkpoint pm" "base_height pm' = base_height pm"
    "stripped_round_deltas pm' = stripped_round_deltas pm"
proof -
  obtain d where d: "pd_from pages = Some d" "delta_ok d" "im_get d = map_of (rev pages)"
    using pd_from_ok [OF assms(2)] .
  have ok: "delta_ok (pm_page_delta pm)" "delta_ok (round_delta pm)"
    using assms(1) by (auto simp: pm_ok_def)
  obtain p where p: "pd_update (pm_page_delta pm) d = Some p" "delta_ok p" "im_get p = im_get (pm_page_delta pm) ++ im_get d"
    using pd_update_ok [OF ok(1) d(2)] .
  obtain r where r: "pd_update (round_delta pm) d = Some r" "delta_ok r" "im_get r = im_get (round_delta pm) ++ im_get d"
    using pd_update_ok [OF ok(2) d(2)] .
  let ?pm = "pm\<lparr>pm_page_delta := p, round_delta := r\<rparr>"
  have "pm_ok ?pm"
    using assms(1) p r by (simp add: pm_ok_def map_le_add_same)
  then show ?thesis
    using that [of ?pm] d p r by (simp add: pm_apply_def)
qed

lemma pm_update_ok:
  assumes "pm_ok pm" "\<forall>(_, page) \<in> set pages. length page = PAGE_SIZE"
  obtains pm' where "pm_update pm pages = Some (pm', map fst pages)" "pm_ok pm'"
    "\<And>i. pm_get_page pm' i = (case map_of (rev pages) i of Some page \<Rightarrow> page | None \<Rightarrow> pm_get_page pm i)"
    "im_get (pm_page_delta pm') = im_get (pm_page_delta pm) ++ map_of (rev pages)"
    "im_get (round_delta pm') = im_get (round_delta pm) ++ map_of (rev pages)"
    "pm_checkpoint pm' = pm_checkpoint pm"
proof (rule pm_apply_ok [OF assms])
  fix pm'
  assume pm': "pm_apply pm pages = Some pm'" "pm_ok pm'"
    "im_get (pm_page_delta pm') = im_get (pm_page_delta pm) ++ map_of (rev pages)"
    "im_get (round_delta pm') = im_get (round_delta pm) ++ map_of (rev pages)"
    "pm_checkpoint pm' = pm_checkpoint pm"
  then show ?thesis
    using that [of pm'] by (simp add: pm_update_def pm_get_page_def pd_get_page_def map_add_def split: option.splits)
qed

lemma pm_strip_all_ok: "pm_ok pm \<Longrightarrow> pm_ok (pm_strip_all_deltas pm)"
  by (simp add: pm_ok_def pm_strip_all_deltas_def delta_ok_new)

lemma pm_strip_round_ok: "pm_ok pm \<Longrightarrow> pm_ok (pm_strip_round_delta pm)"
  by (simp add: pm_ok_def pm_strip_round_delta_def delta_ok_new im.get_new)

lemma pm_strip_all_page: "pm_get_page (pm_strip_all_deltas pm) i = cp_get_page (pm_checkpoint pm) i"
  by (simp add: pm_strip_all_deltas_def pm_get_page_def pd_get_page_def im.get_new)

lemma pm_strip_round_page: "pm_get_page (pm_strip_round_delta pm) i = pm_get_page pm i"
  by (simp add: pm_strip_round_delta_def pm_get_page_def split: option.split)

lemma pm_switch_ok:
  assumes "pm_ok pm" "pm_ok pm0" "pm_switch_to_checkpoint pm pm0 = Some pm'"
  shows "pm_ok pm'" "pm_get_page pm' i = pm_get_page pm0 i" "base_height pm' = base_height pm0"
  using assms by (auto simp: pm_switch_to_checkpoint_def pm_ok_def pm_get_page_def pd_get_page_def pd_is_empty_iff split: if_splits)

lemma pm_open_ok:
  assumes "os_reads_files os" "pm_open os path h = Inr pm"
  obtains f where "os_open os path = Inr f" "length (hf_bytes f) mod PAGE_SIZE = 0" "pm_ok pm"
    "\<And>i. pm_get_page pm i = (if unat i < length (hf_bytes f) div PAGE_SIZE then page_of (hf_bytes f) (unat i) else zeroed_page)"
    "pm_num_host_pages pm = Some (length (hf_bytes f) div PAGE_SIZE)"
proof -
  obtain c where c: "cp_open os path = Inr c"
    "pm = \<lparr>pm_checkpoint = c, base_height = Some h, pm_page_delta = im_new, round_delta = im_new, stripped_round_deltas = False\<rparr>"
    using assms(2) by (auto simp: pm_open_def elim!: ok_bind.elims)
  obtain f where f: "os_open os path = Inr f" "length (hf_bytes f) mod PAGE_SIZE = 0" "cp_ok c"
    "cp_num_pages c = length (hf_bytes f) div PAGE_SIZE"
    "\<And>i. cp_get_page c i = (if unat i < length (hf_bytes f) div PAGE_SIZE then page_of (hf_bytes f) (unat i) else zeroed_page)"
    using cp_open_ok [OF assms(1) c(1)] by blast
  have "pd_max_page_index im_new = None"
    by (simp add: pd_max_page_index_def im_max_key_def im_new_def)
  then show ?thesis
    using that [OF f(1,2)] f(3-5) by (simp add: c(2) pm_ok_def delta_ok_new pm_get_page_def pd_get_page_def im.get_new pm_num_host_pages_def)
qed

section \<open>The modified prefix\<close>

lemma unat_below_max: "(i :: u64) \<noteq> - 1 \<Longrightarrow> unat i + 1 < 2 ^ 64"
proof -
  assume "i \<noteq> - 1"
  then have "unat i \<noteq> 2 ^ 64 - 1"
    using unat_minus_1_word [where 'a = 64] word_eq_unatI [of i "- 1"] by auto
  then show ?thesis
    using unsigned_less [of i, where 'a = nat] by simp
qed

lemma add_checked_1: "add_checked (i :: u64) 1 = (if i = - 1 then None else Some (i + 1))"
  using unat_below_max [of i] unat_minus_1_word [where 'a = 64] by (auto simp: add_checked_def)

lemma unat_Suc_u64: "(i :: u64) \<noteq> - 1 \<Longrightarrow> unat (i + 1) = Suc (unat i)"
  using unat_below_max [of i] by (simp add: unat_word_ariths)

lemma pm_num_host_pages_zero:
  assumes "pm_ok pm" "pm_num_host_pages pm = Some n" "n \<le> unat i"
  shows "pm_get_page pm i = zeroed_page"
proof -
  have ok: "delta_ok (pm_page_delta pm)" "cp_ok (pm_checkpoint pm)"
    using assms(1) by (auto simp: pm_ok_def)
  have "cp_num_pages (pm_checkpoint pm) \<le> n"
    using assms(2) by (auto simp: pm_num_host_pages_def Let_def bind_eq_Some_conv split: option.splits)
  moreover have "im_get (pm_page_delta pm) i = None"
  proof (cases "pd_max_page_index (pm_page_delta pm)")
    case None
    then show ?thesis
      using pd_max_page_index_iff [OF ok(1)] by simp
  next
    case (Some k)
    then have "Suc (unat k) \<le> n" 
      using assms(2) by (auto simp: pm_num_host_pages_def add_checked_1 unat_Suc_u64 split: if_splits)
    then have "k < i"
      using assms(3) by (simp add: word_less_nat_alt)
    then show ?thesis
      using pd_max_page_index_iff [OF ok(1)] Some by (force simp: dom_def dest: leD)
  qed
  ultimately show ?thesis
    using cp_get_page_zero [OF ok(2), of i] assms(3) by (simp add: pm_get_page_def pd_get_page_def)
qed

lemma pm_num_host_pages_panics: "pm_ok pm \<Longrightarrow> pm_num_host_pages pm = None \<longleftrightarrow> - 1 \<in> dom (im_get (pm_page_delta pm))"
proof -
  assume "pm_ok pm"
  then have ok: "delta_ok (pm_page_delta pm)"
    by (simp add: pm_ok_def)
  show ?thesis
  proof (cases "pd_max_page_index (pm_page_delta pm)")
    case None
    then show ?thesis
      using pd_max_page_index_iff [OF ok] by (simp add: pm_num_host_pages_def)
  next
    case (Some k)
    then have k: "k \<in> dom (im_get (pm_page_delta pm))" "\<forall>k'\<in>dom (im_get (pm_page_delta pm)). k' \<le> k"
      using pd_max_page_index_iff [OF ok] by auto
    then have "- 1 \<in> dom (im_get (pm_page_delta pm)) \<longleftrightarrow> k = - 1"
      using word_order.extremum_unique [of k] by blast
    then show ?thesis
      using Some by (simp add: pm_num_host_pages_def add_checked_1)
  qed
qed

section \<open>Memory regions\<close>

text \<open>The pages around a page that is not in the delta, up to the nearest pages that are.\<close>

lemma pd_bounds_gap:
  assumes "delta_ok d" "im_get d i = None" "pd_bounds d i = (lower, upper)"
  shows "case lower of None \<Rightarrow> \<forall>k\<in>dom (im_get d). i < k | Some l \<Rightarrow> l < i \<and> (\<forall>k\<in>dom (im_get d). k \<le> l \<or> i < k)"
    and "case upper of None \<Rightarrow> \<forall>k\<in>dom (im_get d). k < i | Some u \<Rightarrow> i < u \<and> (\<forall>k\<in>dom (im_get d). k < i \<or> u \<le> k)"
proof -
  have bounds: "greatest_le (dom (im_get d)) i lower" "least_ge (dom (im_get d)) i upper"
    using assms tree_bounds_ok [of d i] im_keys_get [of d] by (simp_all add: delta_ok_def pd_bounds_def im_bounds_def)
  have i: "k \<noteq> i" if "k \<in> dom (im_get d)" for k
    using that assms(2) by auto
  show "case lower of None \<Rightarrow> \<forall>k\<in>dom (im_get d). i < k | Some l \<Rightarrow> l < i \<and> (\<forall>k\<in>dom (im_get d). k \<le> l \<or> i < k)"
    using bounds(1) i unfolding greatest_le_def by (cases lower) (simp, simp add: order_less_le, metis order_class.order_eq_iff linorder_linear)
  show "case upper of None \<Rightarrow> \<forall>k\<in>dom (im_get d). k < i | Some u \<Rightarrow> i < u \<and> (\<forall>k\<in>dom (im_get d). k < i \<or> u \<le> k)"
    using bounds(2) i unfolding least_ge_def by (cases upper) (simp, simp add: order_less_le, metis order_class.order_eq_iff linorder_linear)
qed

lemma not_max_if_less: "(l :: u64) < i \<Longrightarrow> l \<noteq> - 1"
  using word_order.extremum [of i] by auto

lemma less_imp_Suc_le: "(l :: u64) < i \<Longrightarrow> l + 1 \<le> i"
  using unat_Suc_u64 [OF not_max_if_less] by (simp add: word_less_nat_alt word_le_nat_alt)

lemma Suc_le_imp_less: "(l :: u64) \<noteq> - 1 \<Longrightarrow> l + 1 \<le> j \<Longrightarrow> l < j"
  using unat_Suc_u64 [of l] by (simp add: word_less_nat_alt word_le_nat_alt)

text \<open>The range that is handed to the checkpoint; it is contiguous and holds no page of the delta.\<close>

lemma pm_region_range:
  assumes "pm_ok pm" "im_get (pm_page_delta pm) i = None"
  obtains s e where
    "pm_get_memory_region pm i = (if i = - 1 then None else cp_get_memory_region (pm_checkpoint pm) i s e)"
    "s \<le> i" "i \<noteq> - 1 \<Longrightarrow> i < e" "\<And>j. s \<le> j \<Longrightarrow> j < e \<Longrightarrow> im_get (pm_page_delta pm) j = None"
    "s \<noteq> 0 \<Longrightarrow> s - 1 \<in> dom (im_get (pm_page_delta pm))" "e \<noteq> - 1 \<Longrightarrow> e \<in> dom (im_get (pm_page_delta pm))"
proof -
  let ?d = "pm_page_delta pm"
  have ok: "delta_ok ?d"
    using assms(1) by (simp add: pm_ok_def)
  obtain lower upper where lu: "pd_bounds ?d i = (lower, upper)"
    by fastforce
  define s where "s = (case lower of None \<Rightarrow> 0 | Some l \<Rightarrow> l + 1)"
  define e where "e = (case upper of None \<Rightarrow> - 1 | Some u \<Rightarrow> u)"
  note lower = pd_bounds_gap(1) [OF ok assms(2) lu] and upper = pd_bounds_gap(2) [OF ok assms(2) lu]
  have keys: "greatest_le (dom (im_get ?d)) i lower" "least_ge (dom (im_get ?d)) i upper"
    using ok lu tree_bounds_ok [of ?d i] im_keys_get [of ?d] by (simp_all add: delta_ok_def pd_bounds_def im_bounds_def)
  have start: "(case lower of None \<Rightarrow> Some 0 | Some l \<Rightarrow> add_checked l 1) = Some s"
    using lower not_max_if_less by (auto simp: s_def add_checked_1 split: option.splits)
  have s: "s \<le> i"
    using lower less_imp_Suc_le by (auto simp: s_def split: option.splits)
  have e: "i < e" if "i \<noteq> - 1"
    using that upper word_order.extremum [of i] by (auto simp: e_def less_le split: option.splits)
  have e_max: "\<not> i < e" if "i = - 1"
    using word_order.extremum [of e] that by (simp add: not_less)
  have gap: "im_get ?d j = None" if "s \<le> j" "j < e" for j
  proof (rule ccontr)
    assume "im_get ?d j \<noteq> None"
    then have j: "j \<in> dom (im_get ?d)" "j \<noteq> i"
      using assms(2) by auto
    have "s \<le> j \<Longrightarrow> i < j"
      using lower j(1) Suc_le_imp_less [of _ j] not_max_if_less [of _ i] by (cases lower) (auto simp: s_def dest: leD)
    moreover have "j < e \<Longrightarrow> j < i"
      using upper j(1) by (cases upper) (auto simp: e_def dest: leD)
    ultimately show False
      using that by (meson less_asym)
  qed
  show ?thesis
  proof (rule that [of s e])
    show "pm_get_memory_region pm i = (if i = - 1 then None else cp_get_memory_region (pm_checkpoint pm) i s e)"
      using assms(2) lu start s e e_max by (auto simp: pm_get_memory_region_def pd_get_page_def e_def [symmetric] Let_def)
    show "s - 1 \<in> dom (im_get ?d)" if "s \<noteq> 0"
      using that keys(1) by (auto simp: s_def greatest_le_def split: option.splits)
    show "e \<in> dom (im_get ?d)" if "e \<noteq> - 1"
      using that keys(2) by (auto simp: e_def least_ge_def split: option.splits)
  qed (use s e gap in auto)
qed

section \<open>The gaps of a delta\<close>

definition hist_total :: "(u64, u64) btree \<Rightarrow> nat" where
  "hist_total m = sum_list (map (\<lambda>(g, n). unat g * unat n) m)"

lemma hist_total_insert:
  "bt_wf m \<Longrightarrow>
     hist_total (bt_insert g n m) + (case bt_get m g of Some n0 \<Rightarrow> unat g * unat n0 | None \<Rightarrow> 0) = hist_total m + unat g * unat n"
proof (induction m)
  case (Cons e m)
  then show ?case
    by (cases e) (fastforce simp: hist_total_def bt_wf_def bt_get_def map_of_eq_None_iff split: option.splits dest: map_of_SomeD)
qed (simp add: hist_total_def bt_get_def)

lemma hist_total_ge: "bt_get m g = Some n \<Longrightarrow> unat g * unat n \<le> hist_total m"
  unfolding hist_total_def bt_get_def by (induction m) (auto split: if_splits)

text \<open>
  The gaps that are counted and the pages between them are disjoint, so that none of the sums of
  \<open>write_amplification_to_gap\<close> overflows.
\<close>

lemma gap_histogram_ok:
  "bt_wf gaps \<Longrightarrow> list_all (\<lambda>(g, _). 0 < g \<and> g \<le> maximum_gap) gaps \<Longrightarrow> hist_total gaps + unat n \<le> unat last_index \<Longrightarrow>
     sorted_wrt (<) (last_index # rest) \<Longrightarrow>
     \<exists>gaps' n'. gap_histogram maximum_gap rest last_index gaps n = Some (gaps', n')
       \<and> list_all (\<lambda>(g, _). 0 < g \<and> g \<le> maximum_gap) gaps' \<and> hist_total gaps' < 2 ^ 64"
proof (induction rest arbitrary: last_index gaps n)
  case Nil
  then show ?case
    using unsigned_less [of last_index, where 'a = nat] by auto
next
  case (Cons index rest)
  define gap where "gap = index - last_index - 1"
  have less: "unat last_index < unat index"
    using Cons.prems(4) by (simp add: word_less_nat_alt)
  have "Suc 0 \<le> unat index - unat last_index"
    using less by simp
  then have gap: "unat gap + 1 + unat last_index = unat index"
    using less unat_sub_if' [of index last_index] unat_sub_if' [of "index - last_index" 1] by (simp add: gap_def)
  have bound: "unat index < 2 ^ 64"
    using unsigned_less [of index, where 'a = nat] by simp
  have n1: "add_checked n 1 = Some (n + 1)" "unat (n + 1) = unat n + 1"
    using Cons.prems(3) less bound by (auto simp: add_checked_def unat_word_ariths)
  show ?case
  proof (cases "0 < gap \<and> gap \<le> maximum_gap")
    case False
    then show ?thesis
      using Cons.IH [of gaps "n + 1" index] Cons.prems n1 less by (auto simp: gap_def [symmetric] Let_def)
  next
    case True
    define c where "c = (case bt_get gaps gap of Some c \<Rightarrow> c | None \<Rightarrow> 0)"
    have pos: "0 < unat gap"
      using True by (simp add: word_less_nat_alt)
    have "unat gap * unat c \<le> hist_total gaps"
      using hist_total_ge [of gaps gap] by (auto simp: c_def split: option.splits)
    then have "unat c \<le> hist_total gaps"
      using pos by (metis le_trans mult_le_mono1 nat_mult_1 Suc_leI One_nat_def)
    then have c: "add_checked c 1 = Some (c + 1)" "unat (c + 1) = unat c + 1"
      using Cons.prems(3) less bound by (auto simp: add_checked_def unat_word_ariths)
    have gaps: "hist_total (bt_insert gap (c + 1) gaps) = hist_total gaps + unat gap"
      using hist_total_insert [OF Cons.prems(1), of gap "c + 1"] c(2) by (auto simp: c_def split: option.splits)
    have "list_all (\<lambda>(g, _). 0 < g \<and> g \<le> maximum_gap) (bt_insert gap (c + 1) gaps)"
    proof -
      have "fst ` set (bt_insert gap (c + 1) gaps) = insert gap (fst ` set gaps)"
        by (rule set_bt_insert)
      then show ?thesis
        using True Cons.prems(2) by (fastforce simp: list_all_iff image_iff)
    qed
    moreover have "hist_total (bt_insert gap (c + 1) gaps) + unat (n + 1) \<le> unat index"
      using gaps gap n1 Cons.prems(3) by linarith
    ultimately show ?thesis
      using Cons.IH [of "bt_insert gap (c + 1) gaps" "n + 1" index] Cons.prems True n1 less c bt_wf_insert [OF Cons.prems(1)]
      by (simp add: gap_def [symmetric] c_def [symmetric] Let_def)
  qed
qed

lemma gap_histogram_count: "gap_histogram maximum_gap rest last_index gaps n = Some (gaps', n') \<Longrightarrow> unat n' = unat n + length rest"
proof (induction rest arbitrary: last_index gaps n)
  case (Cons index rest)
  then obtain gaps1 where "gap_histogram maximum_gap rest index gaps1 (n + 1) = Some (gaps', n')" "n \<noteq> - 1"
    by (auto simp: add_checked_1 Let_def bind_eq_Some_conv split: if_splits)
  then show ?case
    using Cons.IH unat_Suc_u64 by fastforce
qed simp

lemma scan_gaps_ok:
  "list_all (\<lambda>(g, _). 0 < g \<and> g \<le> maximum_gap) m \<Longrightarrow> unat amplified + hist_total m < 2 ^ 64 \<Longrightarrow>
     \<exists>g. scan_gaps m amplified maximum_gap dirty_pages a = Some g \<and> g \<le> maximum_gap"
proof (induction m arbitrary: amplified)
  case (Cons e m)
  obtain g n where e: "e = (g, n)"
    by fastforce
  have prod: "mul_checked g n = Some (g * n)" "unat (g * n) = unat g * unat n"
    using Cons.prems(2) e by (auto simp: mul_checked_def hist_total_def unat_word_ariths)
  have add: "add_checked amplified (g * n) = Some (amplified + g * n)" "unat (amplified + g * n) = unat amplified + unat g * unat n"
    using Cons.prems(2) e prod by (auto simp: add_checked_def hist_total_def unat_word_ariths)
  have "g - 1 \<le> maximum_gap" "0 < g"
    using Cons.prems(1) e word_le_minus_mono_left [of g maximum_gap 1] by (auto simp: word_le_nat_alt word_less_nat_alt unat_sub_if')
  then show ?case
    using Cons.IH [of "amplified + g * n"] Cons.prems e prod add by (simp add: hist_total_def)
qed simp

lemma write_amplification_ok:
  assumes "delta_ok d"
  obtains g where "write_amplification_to_gap d maximum_gap a = Some g" "g \<le> maximum_gap"
proof (cases "pd_is_empty d \<or> a \<le> 1")
  case True
  then show ?thesis
    using that [of 0] by (auto simp: write_amplification_to_gap_def)
next
  case False
  obtain first rest where entries: "map fst (pd_iter d) = first # rest"
    using False pd_is_empty_iff [OF assms] pd_iter_map [OF assms] by (cases "pd_iter d") auto
  have "sorted_wrt (<) (first # rest)"
    using pd_iter_sorted [OF assms] entries by simp
  moreover have "hist_total [] + unat (0 :: u64) \<le> unat first"
    by (simp add: hist_total_def)
  ultimately obtain gaps n where "gap_histogram maximum_gap rest first [] 0 = Some (gaps, n)"
    "list_all (\<lambda>(g, _). 0 < g \<and> g \<le> maximum_gap) gaps" "hist_total gaps < 2 ^ 64"
    using gap_histogram_ok [of "[]" maximum_gap 0 first rest] by auto
  then show ?thesis
    using that False entries scan_gaps_ok [of maximum_gap gaps 0 n a] by (auto simp: write_amplification_to_gap_def)
qed

end
