(* ===== verification/PageMap_Persist.thy ===== *)
theory PageMap_Persist
  imports PageMap_Correct
begin

text \<open>
  Writing a delta to a file: the pages of the file afterwards, whatever gaps between dirty pages are rewritten with
  them.
\<close>

section \<open>Files as sequences of pages\<close>

definition paged :: "u8 list \<Rightarrow> bool" where
  "paged bytes \<longleftrightarrow> length bytes mod PAGE_SIZE = 0"

definition fpage :: "u8 list \<Rightarrow> nat \<Rightarrow> page_bytes" where
  "fpage bytes j = (if j < length bytes div PAGE_SIZE then page_of bytes j else zeroed_page)"

lemma length_fpage [simp]: "length (fpage bytes j) = PAGE_SIZE"
  by (simp add: fpage_def length_page_of)

lemma page_split: "o1 < PAGE_SIZE \<Longrightarrow> (j * PAGE_SIZE + o1) div PAGE_SIZE = j" "o1 < PAGE_SIZE \<Longrightarrow> (j * PAGE_SIZE + o1) mod PAGE_SIZE = o1"
  by (simp_all add: div_mult_self3)

lemma below_page_iff: "o1 < PAGE_SIZE \<Longrightarrow> j * PAGE_SIZE + o1 < n * PAGE_SIZE \<longleftrightarrow> j < n"
proof
  assume o1: "o1 < PAGE_SIZE" and "j * PAGE_SIZE + o1 < n * PAGE_SIZE"
  then have "j * PAGE_SIZE < n * PAGE_SIZE"
    by linarith
  then show "j < n"
    by simp
next
  assume o1: "o1 < PAGE_SIZE" and "j < n"
  then have "Suc j * PAGE_SIZE \<le> n * PAGE_SIZE"
    by (intro mult_le_mono1) simp
  then show "j * PAGE_SIZE + o1 < n * PAGE_SIZE"
    using o1 by simp
qed

lemma paged_length: "paged bytes \<Longrightarrow> length bytes = length bytes div PAGE_SIZE * PAGE_SIZE"
  unfolding paged_def by (metis add.right_neutral div_mult_mod_eq)

lemma nth_fpage:
  assumes "paged bytes" "o1 < PAGE_SIZE"
  shows "fpage bytes j ! o1 = (if j * PAGE_SIZE + o1 < length bytes then bytes ! (j * PAGE_SIZE + o1) else 0)"
proof -
  have "j * PAGE_SIZE + o1 < length bytes \<longleftrightarrow> j < length bytes div PAGE_SIZE"
    using below_page_iff [OF assms(2), of j "length bytes div PAGE_SIZE"] paged_length [OF assms(1)] by simp
  then show ?thesis
    using assms(2) nth_page_of [OF assms(2), of j bytes] by (simp add: fpage_def zeroed_page_def)
qed

lemma length_concat_pages: "\<forall>p\<in>set pages. length p = PAGE_SIZE \<Longrightarrow> length (concat pages) = length pages * PAGE_SIZE"
  by (induction pages) auto

lemma nth_concat_pages:
  "\<forall>p\<in>set pages. length p = PAGE_SIZE \<Longrightarrow> t < length pages \<Longrightarrow> o1 < PAGE_SIZE \<Longrightarrow> concat pages ! (t * PAGE_SIZE + o1) = pages ! t ! o1"
proof (induction pages arbitrary: t)
  case (Cons p pages)
  then show ?case
    by (cases t) (auto simp: nth_append)
qed simp

lemma file_put_pages:
  fixes start :: nat
  assumes "paged bytes" "pages \<noteq> []" "\<forall>p\<in>set pages. length p = PAGE_SIZE"
  defines "bytes' \<equiv> file_put bytes (start * PAGE_SIZE) (concat pages)"
  shows "paged bytes'" "length bytes' = max (length bytes) ((start + length pages) * PAGE_SIZE)"
    and "fpage bytes' j = (if start \<le> j \<and> j < start + length pages then pages ! (j - start) else fpage bytes j)"
proof -
  have len: "length (concat pages) = length pages * PAGE_SIZE"
    by (rule length_concat_pages [OF assms(3)])
  then have "concat pages \<noteq> []"
    using assms(2) by (metis PAGE_SIZE_pos length_greater_0_conv mult_is_0 neq0_conv)
  then show length: "length bytes' = max (length bytes) ((start + length pages) * PAGE_SIZE)"
    unfolding bytes'_def length_file_put len by (simp only: if_False add_mult_distrib)
  then show paged: "paged bytes'"
    using assms(1) by (simp add: paged_def max_def)
  show "fpage bytes' j = (if start \<le> j \<and> j < start + length pages then pages ! (j - start) else fpage bytes j)"
  proof (rule nth_equalityI)
    have "length (pages ! (j - start)) = PAGE_SIZE" if "start \<le> j \<and> j < start + length pages"
      using that assms(3) nth_mem [of "j - start" pages] by auto
    then show "length (fpage bytes' j) = length (if start \<le> j \<and> j < start + length pages then pages ! (j - start) else fpage bytes j)"
      by simp
    fix o1
    assume "o1 < length (fpage bytes' j)"
    then have o1: "o1 < PAGE_SIZE"
      by simp
    let ?i = "j * PAGE_SIZE + o1"
    have range: "start * PAGE_SIZE \<le> ?i \<longleftrightarrow> start \<le> j" "?i < start * PAGE_SIZE + length (concat pages) \<longleftrightarrow> j < start + length pages"
      using below_page_iff [OF o1, of j start] below_page_iff [OF o1, of j "start + length pages"] len
      by (auto simp: add_mult_distrib not_less [symmetric] simp del: not_less)
    have "concat pages ! (?i - start * PAGE_SIZE) = pages ! (j - start) ! o1" if "start \<le> j" "j < start + length pages"
      using nth_concat_pages [OF assms(3) _ o1, of "j - start"] that by (simp add: diff_mult_distrib)
    then show "fpage bytes' j ! o1 = (if start \<le> j \<and> j < start + length pages then pages ! (j - start) else fpage bytes j) ! o1"
      using nth_fpage [OF paged o1, of j] nth_fpage [OF assms(1) o1, of j] nth_file_put [of ?i bytes "start * PAGE_SIZE" "concat pages"]
        range length len by (auto simp: bytes'_def add_mult_distrib)
  qed
qed

section \<open>Writing a buffer\<close>

text \<open>A system that never fails, and writes at least one byte whenever it is asked to, for \<open>n\<close> bytes.\<close>

definition env_ok :: "nat \<Rightarrow> write_env \<Rightarrow> bool" where
  "env_ok n env \<longleftrightarrow> (\<forall>i. fst (env i) = None \<and> list_all good_answer (snd (env i)) \<and> n \<le> writes (snd (env i)))"

text \<open>A buffer holds consecutive pages of the page map, up to the page \<open>last_index\<close>.\<close>

definition wb_ok :: "page_map \<Rightarrow> write_buffer \<Rightarrow> u64 \<Rightarrow> bool" where
  "wb_ok pm wb last_index \<longleftrightarrow>
     wb_content wb \<noteq> [] \<and> unat (wb_start_index wb) + length (wb_content wb) = Suc (unat last_index) \<and> unat last_index < 2 ^ 50 \<and>
     (\<forall>t < length (wb_content wb). wb_content wb ! t = pm_get_page pm (of_nat (unat (wb_start_index wb) + t)))"

lemma unat_of_nat_page: "n < 2 ^ 51 \<Longrightarrow> unat (of_nat n :: u64) = n"
  by (simp add: unat_of_nat take_bit_nat_eq_self)

lemma page_offset: "unat (i :: u64) < 2 ^ 51 \<Longrightarrow> mul_checked i (of_nat PAGE_SIZE) = Some (i * of_nat PAGE_SIZE) \<and> unat (i * of_nat PAGE_SIZE) = unat i * PAGE_SIZE"
  by (simp add: mul_checked_def PAGE_SIZE_def unat_word_ariths)

lemma wb_pages_length: "pm_ok pm \<Longrightarrow> wb_ok pm wb l \<Longrightarrow> \<forall>p\<in>set (wb_content wb). length p = PAGE_SIZE"
  by (auto simp: wb_ok_def in_set_conv_nth length_pm_get_page)

text \<open>The file after the pages from \<open>first\<close> to \<open>last\<close> have been replaced by those of the page map.\<close>

definition pages_written :: "page_map \<Rightarrow> nat \<Rightarrow> nat \<Rightarrow> os_file \<Rightarrow> os_file \<Rightarrow> bool" where
  "pages_written pm first_page last_page fl fl' \<longleftrightarrow>
     paged (f_bytes fl') \<and> length (f_bytes fl') = max (length (f_bytes fl)) (Suc last_page * PAGE_SIZE) \<and>
     (\<forall>j. fpage (f_bytes fl') j =
        (if first_page \<le> j \<and> j \<le> last_page then pm_get_page pm (of_nat j) else fpage (f_bytes fl) j))"

lemma wb_apply_ok:
  assumes "pm_ok pm" "wb_ok pm wb l" "paged (f_bytes fl)" "env_ok (Suc (unat l) * PAGE_SIZE) env"
  obtains fl' where "wb_apply_to_file env path wb fl = Some (Inr (), fl')" "pages_written pm (unat (wb_start_index wb)) (unat l) fl fl'"
proof -
  let ?start = "wb_start_index wb" and ?pages = "wb_content wb"
  have wb: "?pages \<noteq> []" "unat ?start + length ?pages = Suc (unat l)" "unat l < 2 ^ 50"
    "\<And>t. t < length ?pages \<Longrightarrow> ?pages ! t = pm_get_page pm (of_nat (unat ?start + t))"
    using assms(2) by (auto simp: wb_ok_def)
  note pages = wb_pages_length [OF assms(1,2)]
  have len: "length (concat ?pages) \<le> Suc (unat l) * PAGE_SIZE"
    unfolding length_concat_pages [OF pages] using wb(2) by (intro mult_le_mono1) simp
  have "length (last ?pages) = PAGE_SIZE"
    using pages wb(1) by simp
  then have "last ?pages \<noteq> []"
    using PAGE_SIZE_pos by (metis length_0_conv less_numeral_extra(3))
  moreover have env: "fst (env ?start) = None" "list_all good_answer (snd (env ?start))" "length (concat ?pages) \<le> writes (snd (env ?start))"
    using assms(4) len unfolding env_ok_def by (blast intro: le_trans)+
  ultimately have "write_all_vectored (snd (env ?start)) (fl\<lparr>f_pos := unat ?start * PAGE_SIZE\<rparr>) ?pages =
      Some (Inr (), put_data (fl\<lparr>f_pos := unat ?start * PAGE_SIZE\<rparr>) (concat ?pages))" (is "_ = Some (_, ?fl)")
    using write_all_vectored_total by blast
  then have "wb_apply_to_file env path wb fl = Some (Inr (), ?fl)"
    using env(1) page_offset [of ?start] wb(1-3) by (simp add: wb_apply_to_file_def)
  moreover have "f_bytes ?fl = file_put (f_bytes fl) (unat ?start * PAGE_SIZE) (concat ?pages)"
    by (simp add: put_data_def)
  then have "pages_written pm (unat ?start) (unat l) fl ?fl"
    using file_put_pages [OF assms(3) wb(1) pages, of "unat ?start"] wb(2,4) unfolding pages_written_def
    by (auto simp: less_Suc_eq_le)
  ultimately show ?thesis
    by (rule that)
qed

lemma wb_extend:
  assumes "pm_ok pm" "wb_ok pm wb l" "l < index" "unat index < 2 ^ 50"
  shows "wb_ok pm (wb\<lparr>wb_content := wb_content wb @ pm_pages_between pm (l + 1) index @ [pm_get_page pm index]\<rparr>) index"
proof -
  have l: "unat (l + 1) = Suc (unat l)" "unat l < unat index"
    using assms(3) unat_Suc_u64 [OF not_max_if_less] by (auto simp: word_less_nat_alt)
  have wb: "unat (wb_start_index wb) + length (wb_content wb) = Suc (unat l)"
    "\<And>t. t < length (wb_content wb) \<Longrightarrow> wb_content wb ! t = pm_get_page pm (of_nat (unat (wb_start_index wb) + t))"
    using assms(2) by (auto simp: wb_ok_def)
  define s where "s = unat (wb_start_index wb)"
  define c where "c = wb_content wb @ map (\<lambda>i. pm_get_page pm (of_nat i)) [Suc (unat l)..<unat index] @ [pm_get_page pm index]"
  have len: "s + length c = Suc (unat index)"
    using wb(1) l(2) by (simp add: s_def c_def)
  have "c ! t = pm_get_page pm (of_nat (s + t))" if t: "t < length c" for t
  proof -
    consider "t < length (wb_content wb)" | "length (wb_content wb) \<le> t" "s + t < unat index" | "s + t = unat index"
      using t len by linarith
    then show ?thesis
    proof cases
      case 1
      then show ?thesis
        using wb(2) by (simp add: c_def s_def nth_append)
    next
      case 2
      then have "t - length (wb_content wb) < unat index - Suc (unat l)" "Suc (unat l) + (t - length (wb_content wb)) = s + t"
        using wb(1) by (simp_all add: s_def)
      then show ?thesis
        using 2(1) by (simp add: c_def nth_append del: upt_Suc)
    next
      case 3
      then have "t - length (wb_content wb) = unat index - Suc (unat l)" "length (wb_content wb) \<le> t"
        using wb(1) l(2) by (simp_all add: s_def)
      then show ?thesis
        using 3 by (simp add: c_def nth_append)
    qed
  qed
  then show ?thesis
    using len assms(4) unfolding wb_ok_def pm_pages_between_def l(1) by (simp add: c_def [symmetric] s_def [symmetric]) (simp add: c_def)
qed

section \<open>Writing a delta\<close>

text \<open>
  The pages \<open>W\<close> of the file are now those of the page map; any other page is unchanged or is that of the page map, too.
\<close>

definition file_updated :: "page_map \<Rightarrow> nat set \<Rightarrow> nat \<Rightarrow> os_file \<Rightarrow> os_file \<Rightarrow> bool" where
  "file_updated pm W last_page fl fl' \<longleftrightarrow>
     paged (f_bytes fl') \<and> length (f_bytes fl') = max (length (f_bytes fl)) (Suc last_page * PAGE_SIZE) \<and>
     (\<forall>j\<in>W. fpage (f_bytes fl') j = pm_get_page pm (of_nat j)) \<and>
     (\<forall>j. fpage (f_bytes fl') j = fpage (f_bytes fl) j \<or> fpage (f_bytes fl') j = pm_get_page pm (of_nat j))"

lemma pages_written_updated: "pages_written pm a b fl fl' \<Longrightarrow> file_updated pm {a..b} b fl fl'"
  by (auto simp: pages_written_def file_updated_def)

lemma file_updated_trans:
  assumes "file_updated pm V a fl fl1" "file_updated pm W b fl1 fl'" "a \<le> b"
  shows "file_updated pm (V \<union> W) b fl fl'"
proof -
  have "Suc a * PAGE_SIZE \<le> Suc b * PAGE_SIZE"
    using assms(3) by (intro mult_le_mono1) simp
  then have "length (f_bytes fl') = max (length (f_bytes fl)) (Suc b * PAGE_SIZE)"
    using assms(1,2) unfolding file_updated_def by linarith
  moreover have "fpage (f_bytes fl') j = pm_get_page pm (of_nat j)" if "j \<in> V \<union> W" for j
    using that assms(1,2) unfolding file_updated_def by (metis UnE)
  moreover have "fpage (f_bytes fl') j = fpage (f_bytes fl) j \<or> fpage (f_bytes fl') j = pm_get_page pm (of_nat j)" for j
    using assms(1,2) unfolding file_updated_def by metis
  ultimately show ?thesis
    using assms(2) by (simp add: file_updated_def)
qed

lemma file_updated_mono: "file_updated pm V b fl fl' \<Longrightarrow> W \<subseteq> V \<Longrightarrow> file_updated pm W b fl fl'"
  by (auto simp: file_updated_def)

lemma apply_pages_ok:
  assumes "pm_ok pm" "wb_ok pm wb l" "paged (f_bytes fl)" "sorted_wrt (<) (l # map fst entries)"
    and "\<forall>(i, page)\<in>set entries. page = pm_get_page pm i \<and> unat i < 2 ^ 50" "unat g < 2 ^ 50"
    and "env_ok (Suc (unat (last (l # map fst entries))) * PAGE_SIZE) env"
  shows "\<exists>fl'. apply_pages env path pm g entries wb fl = Some (Inr (), fl') \<and>
           file_updated pm ({unat (wb_start_index wb)..unat l} \<union> unat ` fst ` set entries) (unat (last (l # map fst entries))) fl fl'"
  using assms(2-5,7)
proof (induction entries arbitrary: wb l fl)
  case Nil
  then obtain fl' where "wb_apply_to_file env path wb fl = Some (Inr (), fl')"
    "pages_written pm (unat (wb_start_index wb)) (unat l) fl fl'"
    using wb_apply_ok [OF assms(1), of wb l fl env path] by auto
  then show ?case
    using pages_written_updated by auto
next
  case (Cons e entries)
  obtain index page where e: "e = (index, page)"
    by fastforce
  let ?s = "wb_start_index wb" and ?last = "last (index # map fst entries)"
  have "?last \<in> set (index # map fst entries)"
    by (rule last_in_set) simp
  then have index: "page = pm_get_page pm index" "unat index < 2 ^ 50" "l < index" "unat l < 2 ^ 50" "index \<le> ?last"
    using Cons.prems(1,3,4) e by (auto simp: wb_ok_def simp del: last.simps intro: less_imp_le)
  have next_index: "add_checked ?s (of_nat (length (wb_content wb))) = Some (l + 1)"
  proof -
    have s: "unat ?s + length (wb_content wb) = Suc (unat l)"
      using Cons.prems(1) by (simp add: wb_ok_def)
    then have "unat (of_nat (length (wb_content wb)) :: u64) = length (wb_content wb)"
      using index(4) by (intro unat_of_nat_page) simp
    moreover from this have "?s + of_nat (length (wb_content wb)) = l + 1"
      using s index(4) unat_Suc_u64 [OF not_max_if_less [OF index(3)]]
      by (intro word_eq_unatI) (simp add: unat_word_ariths)
    ultimately show ?thesis
      using s index(4) by (simp add: add_checked_def)
  qed
  have limit: "add_checked (l + 1) g = Some (l + 1 + g)"
    using index(4) assms(6) unat_Suc_u64 [OF not_max_if_less [OF index(3)]] by (simp add: add_checked_def)
  have env: "env_ok (Suc (unat ?last) * PAGE_SIZE) env"
    using Cons.prems(5) e by simp
  have rest: "sorted_wrt (<) (index # map fst entries)" "\<forall>(i, page)\<in>set entries. page = pm_get_page pm i \<and> unat i < 2 ^ 50"
    using Cons.prems(3,4) e by auto
  show ?case
  proof (cases "index \<le> l + 1 + g")
    case True
    let ?wb = "wb\<lparr>wb_content := wb_content wb @ pm_pages_between pm (l + 1) index @ [page]\<rparr>"
    have wb: "wb_ok pm ?wb index"
      using wb_extend [OF assms(1) Cons.prems(1) index(3,2)] index(1) by simp
    obtain fl' where fl': "apply_pages env path pm g entries ?wb fl = Some (Inr (), fl')"
      "file_updated pm ({unat (wb_start_index ?wb)..unat index} \<union> unat ` fst ` set entries) (unat ?last) fl fl'"
      using Cons.IH [OF wb Cons.prems(2) rest env] by blast
    have "{unat ?s..unat l} \<union> unat ` fst ` set (e # entries) \<subseteq> {unat (wb_start_index ?wb)..unat index} \<union> unat ` fst ` set entries"
      using e index(3) Cons.prems(1) by (auto simp: wb_ok_def word_less_nat_alt)
    from file_updated_mono [OF fl'(2) this] show ?thesis
      using e next_index limit True fl'(1) by simp
  next
    case False
    let ?wb = "\<lparr>wb_content = [page], wb_start_index = index\<rparr>"
    have "env_ok (Suc (unat l) * PAGE_SIZE) env"
    proof -
      have "unat l \<le> unat ?last"
        using index(3,5) by (simp add: word_less_nat_alt word_le_nat_alt)
      then have "Suc (unat l) * PAGE_SIZE \<le> Suc (unat ?last) * PAGE_SIZE"
        by (intro mult_le_mono1) simp
      then show ?thesis
        using env unfolding env_ok_def by (meson le_trans)
    qed
    then obtain fl1 where fl1: "wb_apply_to_file env path wb fl = Some (Inr (), fl1)" "pages_written pm (unat ?s) (unat l) fl fl1"
      using wb_apply_ok [OF assms(1) Cons.prems(1,2)] by blast
    have wb: "wb_ok pm ?wb index" "paged (f_bytes fl1)"
      using index fl1(2) by (simp_all add: wb_ok_def pages_written_def)
    obtain fl' where fl': "apply_pages env path pm g entries ?wb fl1 = Some (Inr (), fl')"
      "file_updated pm ({unat (wb_start_index ?wb)..unat index} \<union> unat ` fst ` set entries) (unat ?last) fl1 fl'"
      using Cons.IH [OF wb rest env] by blast
    have "file_updated pm ({unat ?s..unat l} \<union> ({unat (wb_start_index ?wb)..unat index} \<union> unat ` fst ` set entries)) (unat ?last) fl fl'"
      using file_updated_trans [OF pages_written_updated [OF fl1(2)] fl'(2)] index(3,5) by (simp add: word_less_nat_alt word_le_nat_alt)
    then have "file_updated pm ({unat ?s..unat l} \<union> unat ` fst ` set (e # entries)) (unat ?last) fl fl'"
      by (rule file_updated_mono) (use e in auto)
    then show ?thesis
      using e next_index limit False fl1(1) fl'(1) by simp
  qed
qed

lemma tree_entries_nonempty: "node_ok t \<Longrightarrow> tree_entries t \<noteq> []"
  by (induction t) (auto simp: node_ok_Branch_iff)

lemma tree_max_key_last: "node_ok t \<Longrightarrow> tree_max_key t = Some (last (map fst (tree_entries t)))"
proof (induction t)
  case (Branch p b l r)
  then show ?case
    using tree_entries_nonempty [of r] by (simp add: node_ok_Branch_iff)
qed simp_all

definition last_page_end :: "page_delta \<Rightarrow> nat" where
  "last_page_end d = (case pd_max_page_index d of None \<Rightarrow> 0 | Some k \<Rightarrow> Suc (unat k))"

lemma pm_apply_delta_ok:
  assumes "pm_ok pm" "delta_ok d" "im_get d \<subseteq>\<^sub>m im_get (pm_page_delta pm)" "\<forall>i\<in>dom (im_get d). unat i < 2 ^ 50"
    and "paged (f_bytes fl)" "env_ok (last_page_end d * PAGE_SIZE) env"
  obtains fl' where "pm_apply_delta_to_file env path pm d fl = Some (Inr (), fl')" "paged (f_bytes fl')"
    "length (f_bytes fl') = max (length (f_bytes fl)) (last_page_end d * PAGE_SIZE)"
    "\<And>i. i \<in> dom (im_get d) \<Longrightarrow> fpage (f_bytes fl') (unat i) = pm_get_page pm i"
    "\<And>i. fpage (f_bytes fl') (unat i) = fpage (f_bytes fl) (unat i) \<or> fpage (f_bytes fl') (unat i) = pm_get_page pm i"
proof -
  obtain g where g: "write_amplification_to_gap d MAXIMUM_GAP MAXIMUM_WRITE_AMPLIFICATION = Some g" "g \<le> MAXIMUM_GAP"
    using write_amplification_ok [OF assms(2)] .
  have small: "unat g < 2 ^ 50"
    using g(2) by (simp add: word_le_nat_alt MAXIMUM_GAP_def)
  show ?thesis
  proof (cases "pd_iter d")
    case Nil
    then have "d = Empty" "im_get d = Map.empty"
      using assms(2) pd_iter_map [OF assms(2)] tree_entries_nonempty by (auto simp: pd_iter_entries delta_ok_def tree_ok_def)
    moreover from this have "last_page_end d = 0"
      by (simp add: last_page_end_def pd_max_page_index_def im_max_key_def)
    ultimately show ?thesis
      using that [of fl] Nil g assms(5) by (simp add: pm_apply_delta_to_file_def)
  next
    case (Cons e entries)
    obtain index page where e: "e = (index, page)"
      by fastforce
    have page: "p = pm_get_page pm i \<and> unat i < 2 ^ 50" if "(i, p) \<in> set (pd_iter d)" for i p
    proof -
      have "distinct (map fst (pd_iter d))"
        using pd_iter_sorted [OF assms(2)] by (simp add: strict_sorted_iff)
      then have i: "im_get d i = Some p"
        using that pd_iter_map [OF assms(2)] by (metis map_of_eq_Some_iff)
      then have "im_get (pm_page_delta pm) i = Some p"
        using assms(3) by (metis map_le_def domI)
      then show ?thesis
        using i assms(4) by (auto simp: pm_get_page_def pd_get_page_def)
    qed
    have dom: "fst ` set (pd_iter d) = dom (im_get d)"
      using pd_iter_map [OF assms(2)] by (metis dom_map_of_conv_image_fst)
    let ?wb = "\<lparr>wb_content = [page], wb_start_index = index\<rparr>" and ?last = "last (index # map fst entries)"
    have wb: "wb_ok pm ?wb index"
      using page [of index page] Cons e by (simp add: wb_ok_def)
    have "node_ok d"
      using assms(2) Cons by (auto simp: pd_iter_entries delta_ok_def tree_ok_def)
    then have last: "last_page_end d = Suc (unat ?last)"
      using tree_max_key_last [of d] Cons e assms(2)
      by (simp add: last_page_end_def pd_max_page_index_def im_max_key_def pd_iter_entries)
    have sorted: "sorted_wrt (<) (index # map fst entries)"
      using pd_iter_sorted [OF assms(2)] Cons e by simp
    have entries: "\<forall>(i, p)\<in>set entries. p = pm_get_page pm i \<and> unat i < 2 ^ 50"
      using page Cons by auto
    obtain fl' where fl': "apply_pages env path pm g entries ?wb fl = Some (Inr (), fl')"
      "file_updated pm ({unat (wb_start_index ?wb)..unat index} \<union> unat ` fst ` set entries) (unat ?last) fl fl'"
      using apply_pages_ok [OF assms(1) wb assms(5) sorted entries small, of env path] assms(6) last by auto
    have "unat ` dom (im_get d) \<subseteq> {unat (wb_start_index ?wb)..unat index} \<union> unat ` fst ` set entries"
      unfolding dom [symmetric] using Cons e by auto
    from file_updated_mono [OF fl'(2) this]
    have upd: "paged (f_bytes fl')" "length (f_bytes fl') = max (length (f_bytes fl)) (Suc (unat ?last) * PAGE_SIZE)"
      "\<And>i. i \<in> dom (im_get d) \<Longrightarrow> fpage (f_bytes fl') (unat i) = pm_get_page pm (of_nat (unat i))"
      "\<And>i :: u64. fpage (f_bytes fl') (unat i) = fpage (f_bytes fl) (unat i) \<or> fpage (f_bytes fl') (unat i) = pm_get_page pm (of_nat (unat i))"
      unfolding file_updated_def by blast+
    show ?thesis
    proof (rule that [of fl'])
      show "pm_apply_delta_to_file env path pm d fl = Some (Inr (), fl')"
        using g(1) Cons e fl'(1) by (simp add: pm_apply_delta_to_file_def)
    qed (use upd last in simp_all)
  qed
qed

section \<open>Checkpoints that are written and opened again\<close>

text \<open>The file holds the pages of the checkpoint of the page map.\<close>

definition holds_checkpoint :: "page_map \<Rightarrow> os_file \<Rightarrow> bool" where
  "holds_checkpoint pm fl \<longleftrightarrow>
     length (f_bytes fl) = cp_num_pages (pm_checkpoint pm) * PAGE_SIZE \<and>
     (\<forall>i. fpage (f_bytes fl) (unat i) = cp_get_page (pm_checkpoint pm) i)"

lemma persisted_pages:
  assumes "pm_ok pm" "\<forall>i\<in>dom (im_get (pm_page_delta pm)). unat i < 2 ^ 50" "holds_checkpoint pm fl"
    and "env_ok (last_page_end (pm_page_delta pm) * PAGE_SIZE) env"
  obtains fl' where "pm_apply_delta_to_file env path pm (pm_page_delta pm) fl = Some (Inr (), fl')" "paged (f_bytes fl')"
    "length (f_bytes fl') = max (cp_num_pages (pm_checkpoint pm)) (last_page_end (pm_page_delta pm)) * PAGE_SIZE"
    "\<And>i. fpage (f_bytes fl') (unat i) = pm_get_page pm i"
proof -
  have "delta_ok (pm_page_delta pm)" "paged (f_bytes fl)"
    using assms(1,3) by (auto simp: pm_ok_def holds_checkpoint_def paged_def)
  then obtain fl' where fl': "pm_apply_delta_to_file env path pm (pm_page_delta pm) fl = Some (Inr (), fl')" "paged (f_bytes fl')"
    "length (f_bytes fl') = max (length (f_bytes fl)) (last_page_end (pm_page_delta pm) * PAGE_SIZE)"
    "\<And>i. i \<in> dom (im_get (pm_page_delta pm)) \<Longrightarrow> fpage (f_bytes fl') (unat i) = pm_get_page pm i"
    "\<And>i. fpage (f_bytes fl') (unat i) = fpage (f_bytes fl) (unat i) \<or> fpage (f_bytes fl') (unat i) = pm_get_page pm i"
    using pm_apply_delta_ok [OF assms(1) _ _ assms(2) _ assms(4), of fl path] by (metis map_le_refl)
  have "fpage (f_bytes fl') (unat i) = pm_get_page pm i" for i
  proof (cases "im_get (pm_page_delta pm) i")
    case None
    then have "pm_get_page pm i = cp_get_page (pm_checkpoint pm) i"
      by (simp add: pm_get_page_def pd_get_page_def)
    then show ?thesis
      using fl'(5) [of i] assms(3) by (simp add: holds_checkpoint_def)
  qed (use fl'(4) [of i] in blast)
  moreover have "length (f_bytes fl') = max (cp_num_pages (pm_checkpoint pm)) (last_page_end (pm_page_delta pm)) * PAGE_SIZE"
    using fl'(3) assms(3) by (simp add: holds_checkpoint_def max_def)
  ultimately show ?thesis
    using that fl'(1,2) by blast
qed

lemma pm_num_host_pages_eq:
  "pm_ok pm \<Longrightarrow> \<forall>i\<in>dom (im_get (pm_page_delta pm)). unat i < 2 ^ 50 \<Longrightarrow>
     pm_num_host_pages pm = Some (max (cp_num_pages (pm_checkpoint pm)) (last_page_end (pm_page_delta pm)))"
proof -
  assume pm: "pm_ok pm" "\<forall>i\<in>dom (im_get (pm_page_delta pm)). unat i < 2 ^ 50"
  have "- 1 \<notin> dom (im_get (pm_page_delta pm))"
  proof
    assume "- 1 \<in> dom (im_get (pm_page_delta pm))"
    then have "unat (- 1 :: u64) < 2 ^ 50"
      using pm(2) by blast
    then show False
      by (simp add: unat_minus_1_word)
  qed
  then have k: "k \<noteq> - 1" if "pd_max_page_index (pm_page_delta pm) = Some k" for k
    using that pm(1) pd_max_page_index_iff [of "pm_page_delta pm"] by (auto simp: pm_ok_def)
  show ?thesis
    using k by (auto simp: pm_num_host_pages_def last_page_end_def add_checked_1 unat_Suc_u64 split: option.splits)
qed

end
