(* ===== verification/PageMap_Buffer.thy ===== *)
theory PageMap_Buffer
  imports PageMap_Correct
begin

text \<open>
  Buffers refine a memory of bytes: what \<open>read\<close> and \<open>write\<close> do to the pages, byte by byte.
\<close>

definition bf_ok :: "buffer \<Rightarrow> bool" where
  "bf_ok buf \<longleftrightarrow>
     pm_ok (bf_page_map buf) \<and> bt_wf (bf_dirty_pages buf) \<and> (\<forall>(_, page)\<in>set (bf_dirty_pages buf). length page = PAGE_SIZE)"

definition bf_byte :: "buffer \<Rightarrow> nat \<Rightarrow> u8" where
  "bf_byte buf i = bf_page buf (of_nat (i div PAGE_SIZE)) ! (i mod PAGE_SIZE)"

definition pm_byte :: "page_map \<Rightarrow> nat \<Rightarrow> u8" where
  "pm_byte pm i = pm_get_page pm (of_nat (i div PAGE_SIZE)) ! (i mod PAGE_SIZE)"

lemma bf_new_ok: "pm_ok pm \<Longrightarrow> bf_ok (bf_new pm)"
  by (simp add: bf_ok_def bf_new_def)

lemma bf_new_byte: "bf_byte (bf_new pm) i = pm_byte pm i"
  by (simp add: bf_byte_def pm_byte_def bf_page_def bf_new_def)

lemma length_bf_page: "bf_ok buf \<Longrightarrow> length (bf_page buf p) = PAGE_SIZE"
  by (auto simp: bf_ok_def bf_page_def bt_get_def length_pm_get_page split: option.splits dest!: map_of_SomeD)

lemma page_of_nat_inj: "i < 2 ^ 64 \<Longrightarrow> j < 2 ^ 64 \<Longrightarrow> (of_nat (i div PAGE_SIZE) :: u64) = of_nat (j div PAGE_SIZE) \<longleftrightarrow> i div PAGE_SIZE = j div PAGE_SIZE"
proof -
  assume ij: "i < 2 ^ 64" "j < 2 ^ 64"
  then have "i div PAGE_SIZE < 2 ^ 64" "j div PAGE_SIZE < 2 ^ 64"
    using div_le_dividend le_less_trans by blast+
  then have "unat (of_nat (i div PAGE_SIZE) :: u64) = i div PAGE_SIZE" "unat (of_nat (j div PAGE_SIZE) :: u64) = j div PAGE_SIZE"
    by (simp_all add: unat_of_nat take_bit_nat_eq_self)
  then show ?thesis
    by metis
qed

text \<open>Offsets that stay within one page.\<close>

lemma within_page:
  assumes "offset mod PAGE_SIZE + t < PAGE_SIZE"
  shows "(offset + t) div PAGE_SIZE = offset div PAGE_SIZE" "(offset + t) mod PAGE_SIZE = offset mod PAGE_SIZE + t"
proof -
  have "offset + t = offset div PAGE_SIZE * PAGE_SIZE + (offset mod PAGE_SIZE + t)"
    using div_mult_mod_eq [of offset PAGE_SIZE] by linarith
  then show "(offset + t) div PAGE_SIZE = offset div PAGE_SIZE" "(offset + t) mod PAGE_SIZE = offset mod PAGE_SIZE + t"
    using assms by (metis add.left_neutral div_less div_mult_self3 PAGE_SIZE_pos less_not_refl add.commute, metis assms mod_less mod_mult_self3)
qed

lemma same_page_base:
  assumes "i div PAGE_SIZE = offset div PAGE_SIZE"
  obtains c where "offset = c + offset mod PAGE_SIZE" "i = c + i mod PAGE_SIZE"
  using that [of "offset div PAGE_SIZE * PAGE_SIZE"] assms by (metis div_mult_mod_eq)

lemma same_page_range:
  assumes "page_len \<le> PAGE_SIZE - offset mod PAGE_SIZE" "i div PAGE_SIZE = offset div PAGE_SIZE"
  shows "offset \<le> i \<and> i < offset + page_len \<longleftrightarrow> offset mod PAGE_SIZE \<le> i mod PAGE_SIZE \<and> i mod PAGE_SIZE < offset mod PAGE_SIZE + page_len"
proof -
  obtain c where "offset = c + offset mod PAGE_SIZE" "i = c + i mod PAGE_SIZE"
    using same_page_base [OF assms(2)] .
  then show ?thesis
    by linarith
qed

lemma page_chunk:
  assumes "bf_ok buf" "page_len \<le> PAGE_SIZE - offset mod PAGE_SIZE"
  shows "take page_len (drop (offset mod PAGE_SIZE) (bf_page buf (of_nat (offset div PAGE_SIZE)))) =
         map (bf_byte buf) [offset..<offset + page_len]"
proof (rule nth_equalityI)
  have "offset mod PAGE_SIZE < PAGE_SIZE"
    by simp
  then show "length (take page_len (drop (offset mod PAGE_SIZE) (bf_page buf (of_nat (offset div PAGE_SIZE))))) =
      length (map (bf_byte buf) [offset..<offset + page_len])"
    using assms by (simp add: length_bf_page)
  fix t
  assume "t < length (take page_len (drop (offset mod PAGE_SIZE) (bf_page buf (of_nat (offset div PAGE_SIZE)))))"
  then have t: "t < page_len" "offset mod PAGE_SIZE + t < PAGE_SIZE"
    using assms by (simp_all add: length_bf_page)
  then show "take page_len (drop (offset mod PAGE_SIZE) (bf_page buf (of_nat (offset div PAGE_SIZE)))) ! t =
      map (bf_byte buf) [offset..<offset + page_len] ! t"
    using assms(1) within_page [OF t(2)] by (simp add: bf_byte_def length_bf_page)
qed

lemma page_len_ok:
  assumes "xs \<noteq> []"
  shows "0 < min (length xs) (PAGE_SIZE - offset mod PAGE_SIZE)"
  using assms by (simp add: PAGE_SIZE_def)

section \<open>Reading\<close>

lemma bf_read_bytes:
  "bf_ok buf \<Longrightarrow> offset + length dst < 2 ^ 64 \<Longrightarrow> bf_read buf dst offset = Some (map (bf_byte buf) [offset..<offset + length dst])"
proof (induction buf dst offset rule: bf_read.induct)
  case (1 buf dst offset)
  show ?case
  proof (cases "dst = []")
    case True
    then show ?thesis
      by (subst bf_read.simps) simp
  next
    case False
    define n where "n = min (length dst) (PAGE_SIZE - offset mod PAGE_SIZE)"
    have n: "n \<le> length dst" "n \<le> PAGE_SIZE - offset mod PAGE_SIZE"
      by (simp_all add: n_def)
    define chunk where "chunk = map (bf_byte buf) [offset..<offset + n]"
    have copy: "deterministic_copy_from_slice (take n dst) (take n (drop (offset mod PAGE_SIZE) (bf_page buf (of_nat (offset div PAGE_SIZE))))) = Some chunk"
      using page_chunk [OF "1.prems"(1) n(2)] n(1) by (simp add: deterministic_copy_from_slice_def chunk_def)
    have add: "add_usize offset n = Some (offset + n)"
      using "1.prems"(2) n(1) by (simp add: add_usize_def)
    have "bf_read buf (drop n dst) (offset + n) = Some (map (bf_byte buf) [offset + n..<offset + length dst])"
      using "1.IH" [OF False refl refl n_def, of chunk "offset + n"] copy add "1.prems" n(1) by simp
    moreover have "chunk @ map (bf_byte buf) [offset + n..<offset + length dst] = map (bf_byte buf) [offset..<offset + length dst]"
      using upt_add_eq_append [of offset "offset + n" "length dst - n"] n(1) by (simp add: chunk_def)
    ultimately show ?thesis
      using False copy add by (subst bf_read.simps) (simp add: n_def [symmetric] Let_def)
  qed
qed

section \<open>Writing\<close>

lemma set_bt_insert_subset: "set (bt_insert k v m) \<subseteq> insert (k, v) (set m)"
  by (induction m) (auto split: if_splits)

text \<open>One iteration of \<open>write\<close>: a chunk that stays within a page.\<close>

definition write_chunk :: "buffer \<Rightarrow> nat \<Rightarrow> u8 list \<Rightarrow> buffer" where
  "write_chunk buf offset chunk =
     (let p = of_nat (offset div PAGE_SIZE); o1 = offset mod PAGE_SIZE; page = bf_page buf p in
      buf\<lparr>bf_dirty_pages := bt_insert p (take o1 page @ chunk @ drop (o1 + length chunk) page) (bf_dirty_pages buf)\<rparr>)"

lemma bf_page_write_chunk:
  "bf_ok buf \<Longrightarrow>
   bf_page (write_chunk buf offset chunk) q =
     (if q = of_nat (offset div PAGE_SIZE)
      then take (offset mod PAGE_SIZE) (bf_page buf q) @ chunk @ drop (offset mod PAGE_SIZE + length chunk) (bf_page buf q)
      else bf_page buf q)"
  by (auto simp: write_chunk_def bf_page_def Let_def bt.get_ins bf_ok_def split: option.split)

lemma write_chunk_ok:
  assumes "bf_ok buf" "length chunk \<le> PAGE_SIZE - offset mod PAGE_SIZE"
  shows "bf_ok (write_chunk buf offset chunk)"
proof -
  let ?p = "of_nat (offset div PAGE_SIZE) :: u64"
  let ?page = "take (offset mod PAGE_SIZE) (bf_page buf ?p) @ chunk @ drop (offset mod PAGE_SIZE + length chunk) (bf_page buf ?p)"
  have "offset mod PAGE_SIZE + length chunk \<le> PAGE_SIZE"
    using assms(2) mod_less_divisor [OF PAGE_SIZE_pos, of offset] by linarith
  then have "length ?page = PAGE_SIZE"
    using assms(1) by (simp add: length_bf_page)
  moreover have "set (bt_insert ?p ?page (bf_dirty_pages buf)) \<subseteq> insert (?p, ?page) (set (bf_dirty_pages buf))"
    by (rule set_bt_insert_subset)
  ultimately show ?thesis
    using assms(1) bt_wf_insert [of "bf_dirty_pages buf" ?p ?page] unfolding bf_ok_def write_chunk_def Let_def by auto
qed

lemma bf_byte_write_chunk:
  assumes "bf_ok buf" "length chunk \<le> PAGE_SIZE - offset mod PAGE_SIZE" "offset < 2 ^ 64" "i < 2 ^ 64"
  shows "bf_byte (write_chunk buf offset chunk) i =
         (if offset \<le> i \<and> i < offset + length chunk then chunk ! (i - offset) else bf_byte buf i)"
proof (cases "i div PAGE_SIZE = offset div PAGE_SIZE")
  case True
  let ?p = "of_nat (offset div PAGE_SIZE) :: u64" and ?o = "offset mod PAGE_SIZE" and ?i = "i mod PAGE_SIZE"
  obtain c where "offset = c + ?o" "i = c + ?i"
    using same_page_base [OF True] .
  then have "i - offset = ?i - ?o"
    by linarith
  moreover have "?i < PAGE_SIZE" "?o + length chunk \<le> PAGE_SIZE"
    using assms(2) mod_less_divisor [OF PAGE_SIZE_pos, of offset] by (simp, linarith)
  ultimately show ?thesis
    using same_page_range [OF assms(2) True] length_bf_page [OF assms(1), of ?p] True assms(2)
    unfolding bf_byte_def bf_page_write_chunk [OF assms(1)] by (auto simp: nth_append)
next
  case False
  then have "(of_nat (i div PAGE_SIZE) :: u64) \<noteq> of_nat (offset div PAGE_SIZE)"
    using page_of_nat_inj assms(3,4) by blast
  moreover have "\<not> (offset \<le> i \<and> i < offset + length chunk)"
  proof
    assume i: "offset \<le> i \<and> i < offset + length chunk"
    then have "offset mod PAGE_SIZE + (i - offset) < PAGE_SIZE"
      using assms(2) by linarith
    then show False
      using within_page(1) [of offset "i - offset"] i False by simp
  qed
  ultimately show ?thesis
    by (auto simp: bf_byte_def bf_page_write_chunk [OF assms(1)])
qed

lemma dirty_keys_write_chunk:
  "fst ` set (bf_dirty_pages (write_chunk buf offset chunk)) = insert (of_nat (offset div PAGE_SIZE)) (fst ` set (bf_dirty_pages buf))"
  by (simp add: write_chunk_def Let_def set_bt_insert)

text \<open>The pages that a range of bytes touches.\<close>

definition touched :: "nat \<Rightarrow> nat \<Rightarrow> nat set" where
  "touched offset n = (\<lambda>i. i div PAGE_SIZE) ` {offset..<offset + n}"

lemma touched_chunk:
  assumes "0 < k" "k \<le> PAGE_SIZE - offset mod PAGE_SIZE"
  shows "touched offset k = {offset div PAGE_SIZE}"
proof -
  have "i div PAGE_SIZE = offset div PAGE_SIZE" if "i \<in> {offset..<offset + k}" for i
  proof -
    have "offset mod PAGE_SIZE + (i - offset) < PAGE_SIZE" "offset + (i - offset) = i"
      using that assms(2) by auto
    then show ?thesis
      using within_page(1) by metis
  qed
  then have "touched offset k \<subseteq> {offset div PAGE_SIZE}"
    unfolding touched_def by blast
  moreover have "offset div PAGE_SIZE \<in> touched offset k"
    unfolding touched_def using assms(1) by (intro imageI) simp
  ultimately show ?thesis
    by blast
qed

lemma touched_split: "k \<le> n \<Longrightarrow> touched offset n = touched offset k \<union> touched (offset + k) (n - k)"
  by (simp add: touched_def image_Un [symmetric] ivl_disj_un)

lemma bf_write_bytes:
  "bf_ok buf \<Longrightarrow> offset + length src < 2 ^ 64 \<Longrightarrow>
     \<exists>buf'. bf_write buf src offset = Some buf' \<and> bf_ok buf' \<and> bf_page_map buf' = bf_page_map buf \<and>
       fst ` set (bf_dirty_pages buf') = of_nat ` touched offset (length src) \<union> fst ` set (bf_dirty_pages buf) \<and>
       (\<forall>i < 2 ^ 64. bf_byte buf' i = (if offset \<le> i \<and> i < offset + length src then src ! (i - offset) else bf_byte buf i))"
proof (induction buf src offset rule: bf_write.induct)
  case (1 buf src offset)
  show ?case
  proof (cases "src = []")
    case True
    then show ?thesis
      using "1.prems"(1) by (subst bf_write.simps) (auto simp: touched_def)
  next
    case False
    define k where "k = min (length src) (PAGE_SIZE - offset mod PAGE_SIZE)"
    have k: "k \<le> length src" "k \<le> PAGE_SIZE - offset mod PAGE_SIZE" "0 < k" "length (take k src) = k"
      using page_len_ok [OF False, of offset] by (simp_all add: k_def)
    define buf1 where "buf1 = write_chunk buf offset (take k src)"
    have copy: "deterministic_copy_from_slice (take k (drop (offset mod PAGE_SIZE) (bf_page buf (of_nat (offset div PAGE_SIZE))))) (take k src) = Some (take k src)"
      using page_chunk [OF "1.prems"(1) k(2)] k(4) by (simp add: deterministic_copy_from_slice_def)
    have add: "add_usize offset k = Some (offset + k)"
      using "1.prems"(2) k(1) by (simp add: add_usize_def)
    have step: "bf_write buf src offset = bf_write buf1 (drop k src) (offset + k)"
      using False copy add k(4) by (subst bf_write.simps) (simp add: k_def [symmetric] Let_def buf1_def write_chunk_def)
    have ok: "bf_ok buf1"
      using write_chunk_ok [OF "1.prems"(1)] k by (simp add: buf1_def)
    have buf1: "buf1 = buf\<lparr>bf_dirty_pages := bt_insert (of_nat (offset div PAGE_SIZE))
        (take (offset mod PAGE_SIZE) (bf_page buf (of_nat (offset div PAGE_SIZE))) @ take k src @
         drop (offset mod PAGE_SIZE + k) (bf_page buf (of_nat (offset div PAGE_SIZE)))) (bf_dirty_pages buf)\<rparr>"
      using k(4) by (simp add: buf1_def write_chunk_def Let_def)
    have bound: "offset + k + length (drop k src) < 2 ^ 64"
      using "1.prems"(2) k(1) by simp
    note "1.IH" [OF False refl refl k_def refl copy add, folded buf1, OF ok bound]
    then obtain buf' where buf': "bf_write buf1 (drop k src) (offset + k) = Some buf'" "bf_ok buf'" "bf_page_map buf' = bf_page_map buf1"
       "fst ` set (bf_dirty_pages buf') = of_nat ` touched (offset + k) (length src - k) \<union> fst ` set (bf_dirty_pages buf1)"
       "\<And>i. i < 2 ^ 64 \<Longrightarrow> bf_byte buf' i = (if offset + k \<le> i \<and> i < offset + length src then drop k src ! (i - (offset + k)) else bf_byte buf1 i)"
      using k(1) by auto
    have "bf_byte buf' i = (if offset \<le> i \<and> i < offset + length src then src ! (i - offset) else bf_byte buf i)" if i: "i < 2 ^ 64" for i
    proof -
      have "bf_byte buf1 i = (if offset \<le> i \<and> i < offset + k then take k src ! (i - offset) else bf_byte buf i)"
        using bf_byte_write_chunk [OF "1.prems"(1), of "take k src" offset i] k "1.prems"(2) i by (simp add: buf1_def)
      then show ?thesis
        using buf'(5) [OF i] k(1) by auto
    qed
    moreover have "fst ` set (bf_dirty_pages buf') = of_nat ` touched offset (length src) \<union> fst ` set (bf_dirty_pages buf)"
      unfolding buf'(4) touched_split [OF k(1), of offset] touched_chunk [OF k(3,2)] buf1_def dirty_keys_write_chunk by auto
    moreover have "bf_page_map buf1 = bf_page_map buf"
      by (simp add: buf1_def write_chunk_def Let_def)
    ultimately show ?thesis
      using step buf'(1-3) by auto
  qed
qed

section \<open>Dirty pages\<close>

lemma touched_interval:
  assumes "0 < n"
  shows "touched offset n = {offset div PAGE_SIZE..(offset + n - 1) div PAGE_SIZE}"
proof (rule equalityI; rule subsetI)
  fix j
  assume "j \<in> touched offset n"
  then obtain i where "j = i div PAGE_SIZE" "offset \<le> i" "i \<le> offset + n - 1"
    by (auto simp: touched_def)
  then show "j \<in> {offset div PAGE_SIZE..(offset + n - 1) div PAGE_SIZE}"
    by (simp add: div_le_mono)
next
  fix j
  assume j: "j \<in> {offset div PAGE_SIZE..(offset + n - 1) div PAGE_SIZE}"
  define i where "i = max offset (j * PAGE_SIZE)"
  have "j * PAGE_SIZE \<le> (offset + n - 1) div PAGE_SIZE * PAGE_SIZE"
    using j by (intro mult_le_mono1) simp
  also have "\<dots> \<le> offset + n - 1"
    by simp
  finally have "i \<in> {offset..<offset + n}"
    using assms by (auto simp: i_def)
  moreover have "i div PAGE_SIZE = j"
  proof (cases "offset \<le> j * PAGE_SIZE")
    case True
    then show ?thesis
      by (simp add: i_def)
  next
    case False
    then have "j \<le> offset div PAGE_SIZE"
      using div_le_mono [of "j * PAGE_SIZE" offset PAGE_SIZE] by simp
    then show ?thesis
      using j False by (simp add: i_def max_def)
  qed
  ultimately show "j \<in> touched offset n"
    unfolding touched_def by blast
qed

lemma length_dirty: "bf_ok buf \<Longrightarrow> length (bf_dirty_pages buf) = card (fst ` set (bf_dirty_pages buf))"
  using distinct_card [of "map fst (bf_dirty_pages buf)"] by (simp add: bf_ok_def bt_wf_def strict_sorted_iff)

lemma contains_dirty: "bt_contains_key (bf_dirty_pages buf) p \<longleftrightarrow> p \<in> fst ` set (bf_dirty_pages buf)"
  by (simp add: bt_contains_key_def bt_get_def map_of_eq_None_iff)

text \<open>\<open>dirty_pages_from_write\<close> counts the touched pages that are not dirty yet.\<close>

lemma dirty_pages_from_write_card:
  assumes "unat offset + unat n \<le> unat MAX_STABLE_MEMORY_IN_BYTES"
  shows "unat (bf_dirty_pages_from_write buf offset n) =
         card {p \<in> touched (unat offset) (unat n). of_nat p \<notin> fst ` set (bf_dirty_pages buf)}"
proof (cases "n = 0")
  case True
  then show ?thesis
    by (simp add: bf_dirty_pages_from_write_def touched_def)
next
  case False
  have max: "unat MAX_STABLE_MEMORY_IN_BYTES = 48 * 2 ^ 30"
    by (simp add: MAX_STABLE_MEMORY_IN_BYTES_def)
  have n: "0 < unat n" "unat (n - 1) = unat n - 1"
    using False unat_sub_if' [of n 1] by (auto simp: unat_gt_0 Suc_le_eq)
  define first_page where "first_page = offset div of_nat PAGE_SIZE"
  define last_page where "last_page = min (saturating_add offset (n - 1)) MAX_STABLE_MEMORY_IN_BYTES div of_nat PAGE_SIZE"
  have size: "unat (of_nat PAGE_SIZE :: u64) = PAGE_SIZE"
    by (simp add: PAGE_SIZE_def)
  have sum: "saturating_add offset (n - 1) = offset + (n - 1)" "unat (offset + (n - 1)) = unat offset + unat n - 1"
    using assms max n by (auto simp: saturating_add_def unat_word_ariths)
  then have "min (saturating_add offset (n - 1)) MAX_STABLE_MEMORY_IN_BYTES = offset + (n - 1)"
    using assms n min_absorb1 [of "offset + (n - 1)" MAX_STABLE_MEMORY_IN_BYTES] by (simp add: word_le_nat_alt)
  then have pages: "unat first_page = unat offset div PAGE_SIZE" "unat last_page = (unat offset + unat n - 1) div PAGE_SIZE"
    using sum(2) size by (simp_all add: first_page_def last_page_def unat_div)
  let ?P = "\<lambda>p. \<not> bt_contains_key (bf_dirty_pages buf) (of_nat p)"
  let ?new = "{p \<in> touched (unat offset) (unat n). of_nat p \<notin> fst ` set (bf_dirty_pages buf)}"
  have "set [unat first_page..<Suc (unat last_page)] = touched (unat offset) (unat n)"
    unfolding touched_interval [OF n(1)] pages by auto
  then have "length (filter ?P [unat first_page..<Suc (unat last_page)]) = card ?new"
    using distinct_card [of "filter ?P [unat first_page..<Suc (unat last_page)]"] by (auto simp: contains_dirty simp del: upt_Suc)
  moreover have "card ?new < 2 ^ 64"
  proof -
    have "card ?new \<le> card (touched (unat offset) (unat n))"
      by (intro card_mono) (auto simp: touched_def)
    also have "\<dots> \<le> unat n"
      unfolding touched_def using card_image_le [of "{unat offset..<unat offset + unat n}"] by simp
    finally show ?thesis
      using unsigned_less [of n, where 'a = nat] by simp
  qed
  ultimately show ?thesis
    using False by (simp add: bf_dirty_pages_from_write_def first_page_def [symmetric] last_page_def [symmetric] Let_def
        unat_of_nat take_bit_nat_eq_self del: upt_Suc)
qed

lemma dirty_pages_after_write:
  assumes "bf_ok buf" "unat offset + length src \<le> unat MAX_STABLE_MEMORY_IN_BYTES" "bf_write buf src (unat offset) = Some buf'"
  shows "length (bf_dirty_pages buf') = length (bf_dirty_pages buf) + unat (bf_dirty_pages_from_write buf offset (of_nat (length src)))"
proof -
  have max: "unat MAX_STABLE_MEMORY_IN_BYTES = 48 * 2 ^ 30"
    by (simp add: MAX_STABLE_MEMORY_IN_BYTES_def)
  have small: "unat offset + length src < 2 ^ 64"
    using assms(2) max by simp
  have buf': "bf_ok buf'" "fst ` set (bf_dirty_pages buf') = of_nat ` touched (unat offset) (length src) \<union> fst ` set (bf_dirty_pages buf)"
    using bf_write_bytes [OF assms(1) small] assms(3) by auto
  let ?T = "touched (unat offset) (length src)" and ?K = "fst ` set (bf_dirty_pages buf)"
  have len: "unat (of_nat (length src) :: u64) = length src"
    using assms(2) max by (simp add: unat_of_nat take_bit_nat_eq_self)
  have "p < 2 ^ 64" if "p \<in> ?T" for p
    using that small by (auto simp: touched_def intro!: le_less_trans [OF div_le_dividend])
  then have inj: "inj_on (of_nat :: nat \<Rightarrow> u64) ?T"
    by (intro inj_on_inverseI [of _ unat]) (simp add: unat_of_nat take_bit_nat_eq_self)
  have "of_nat ` ?T \<union> ?K = ?K \<union> of_nat ` {p \<in> ?T. of_nat p \<notin> ?K}"
    by auto
  moreover have "finite ?T"
    by (simp add: touched_def)
  moreover have "K \<inter> of_nat ` {p \<in> T. of_nat p \<notin> K} = {}" for K :: "u64 set" and T
    by blast
  ultimately have "card (of_nat ` ?T \<union> ?K) = card ?K + card ((of_nat :: nat \<Rightarrow> u64) ` {p \<in> ?T. of_nat p \<notin> ?K})"
    using card_Un_disjoint [of ?K "of_nat ` {p \<in> ?T. of_nat p \<notin> ?K}"] by simp
  also have "card ((of_nat :: nat \<Rightarrow> u64) ` {p \<in> ?T. of_nat p \<notin> ?K}) = card {p \<in> ?T. (of_nat p :: u64) \<notin> ?K}"
    by (intro card_image inj_on_subset [OF inj]) auto
  finally show ?thesis
    using dirty_pages_from_write_card [of offset "of_nat (length src)" buf] assms(2) len buf' length_dirty assms(1) by simp
qed

section \<open>Page maps from buffers\<close>

lemma bf_into_page_map_ok:
  assumes "bf_ok buf"
  obtains pm where "bf_into_page_map buf = Some pm" "pm_ok pm" "\<And>i. pm_get_page pm i = bf_page buf i"
    "im_get (pm_page_delta pm) = im_get (pm_page_delta (bf_page_map buf)) ++ map_of (bf_dirty_pages buf)"
proof -
  have dirty: "\<forall>(_, page)\<in>set (bf_dirty_pages buf). length page = PAGE_SIZE" "distinct (map fst (bf_dirty_pages buf))"
    using assms by (auto simp: bf_ok_def bt_wf_def strict_sorted_iff)
  then have rev: "map_of (rev (bf_dirty_pages buf)) = map_of (bf_dirty_pages buf)"
    by (intro map_of_inject_set [THEN iffD2]) (auto simp: rev_map [symmetric])
  have ok: "pm_ok (bf_page_map buf)"
    using assms by (simp add: bf_ok_def)
  show ?thesis
  proof (rule pm_update_ok [OF ok dirty(1)])
    fix pm
    assume "pm_update (bf_page_map buf) (bf_dirty_pages buf) = Some (pm, map fst (bf_dirty_pages buf))" "pm_ok pm"
      "\<And>i. pm_get_page pm i = (case map_of (rev (bf_dirty_pages buf)) i of Some page \<Rightarrow> page | None \<Rightarrow> pm_get_page (bf_page_map buf) i)"
      "im_get (pm_page_delta pm) = im_get (pm_page_delta (bf_page_map buf)) ++ map_of (rev (bf_dirty_pages buf))"
    then show ?thesis
      using that [of pm] unfolding rev by (simp add: bf_into_page_map_def bf_page_def bt_get_def)
  qed
qed

end
