(* ===== verification/PageMap_Spec.thy ===== *)
theory PageMap_Spec
  imports PageMap_Persist PageMap_Buffer
begin

text \<open>
  The contract of page maps and buffers: the page maps that the operations build, and what each operation does to the
  memory image.
\<close>

section \<open>Page maps that are built\<close>

text \<open>Arrays of type \<open>PageBytes\<close> have \<open>PAGE_SIZE\<close> elements.\<close>

inductive pm_reachable :: "os_calls \<Rightarrow> page_map \<Rightarrow> bool" for os where
  reach_default: "pm_reachable os pm_default"
| reach_open: "pm_open os path h = Inr pm \<Longrightarrow> pm_reachable os pm"
| reach_update: "pm_reachable os pm \<Longrightarrow> \<forall>(_, page) \<in> set pages. length page = PAGE_SIZE \<Longrightarrow>
    pm_update pm pages = Some (pm', indices) \<Longrightarrow> pm_reachable os pm'"
| reach_strip_all: "pm_reachable os pm \<Longrightarrow> pm_reachable os (pm_strip_all_deltas pm)"
| reach_strip_round: "pm_reachable os pm \<Longrightarrow> pm_reachable os (pm_strip_round_delta pm)"
| reach_switch: "pm_reachable os pm \<Longrightarrow> pm_reachable os pm0 \<Longrightarrow> pm_switch_to_checkpoint pm pm0 = Some pm' \<Longrightarrow> pm_reachable os pm'"

lemma pm_reachable_ok:
  assumes "os_reads_files os"
  shows "pm_reachable os pm \<Longrightarrow> pm_ok pm"
proof (induction rule: pm_reachable.induct)
  case reach_default
  then show ?case
    by (rule pm_default_ok)
next
  case (reach_open path h pm)
  then show ?case
    using pm_open_ok [OF assms] by metis
next
  case (reach_update pm pages pm' indices)
  then show ?case
    using pm_update_ok by (metis option.inject prod.inject)
next
  case (reach_strip_all pm)
  then show ?case
    by (simp add: pm_strip_all_ok)
next
  case (reach_strip_round pm)
  then show ?case
    by (simp add: pm_strip_round_ok)
next
  case (reach_switch pm pm0 pm')
  then show ?case
    using pm_switch_ok(1) by blast
qed

text \<open>A system whose only file has the given contents, for the examples.\<close>

definition one_file :: "u8 list \<Rightarrow> os_calls" where
  "one_file bytes =
     \<lparr>os_open = (\<lambda>_. Inr \<lparr>hf_fd = 3, hf_bytes = bytes\<rparr>),
      os_len = (\<lambda>f. if length (hf_bytes f) < 2 ^ 63 then Inr (length (hf_bytes f)) else Inl WriteZero),
      os_mmap = (\<lambda>f len. Inr (take len (hf_bytes f)))\<rparr>"

lemma one_file_reads: "os_reads_files (one_file bytes)"
  by (auto simp: os_reads_files_def one_file_def)

definition ones :: page_bytes where
  "ones = replicate PAGE_SIZE 1"

lemma length_ones [simp]: "length ones = PAGE_SIZE"
  by (simp add: ones_def)

definition one_page_map :: page_map where
  "one_page_map =
     pm_default\<lparr>pm_page_delta := Leaf 5 ones, round_delta := Leaf 5 ones\<rparr>"

lemma one_page_update: "pm_update pm_default [(5, ones)] = Some (one_page_map, [5])"
  by (simp add: pm_update_def pm_apply_def pd_from_def im_from_iter_def im_insert_def im_new_def pd_update_def im_union_def
      one_page_map_def pm_default_def)

lemma one_page_reachable: "pm_reachable os one_page_map"
  using reach_update [OF reach_default _ one_page_update] by simp

section \<open>Updates\<close>

text \<open>
  Every page map that is built satisfies the documented invariant \<open>round_delta \<subseteq> page_delta\<close>, its deltas are
  well-formed trees of whole pages, and its checkpoint is empty or a whole number of pages.
\<close>

theorem page_map_invariant:
  assumes "os_reads_files os" "pm_reachable os pm"
  shows "pm_ok pm \<and> im_get (round_delta pm) \<subseteq>\<^sub>m im_get (pm_page_delta pm) \<and> (\<forall>i. length (pm_get_page pm i) = PAGE_SIZE)"
  using pm_reachable_ok [OF assms] length_pm_get_page by (auto simp: pm_ok_def)

theorem page_map_invariant_witness:
  "os_reads_files (one_file []) \<and> pm_reachable (one_file []) one_page_map \<and> pm_ok one_page_map"
  using page_map_invariant [OF one_file_reads one_page_reachable] one_file_reads one_page_reachable by blast

text \<open>
  C25. An update with whole pages never fails: afterwards \<open>get_page\<close> returns the last of the given pages with the
  index, and the old page elsewhere; both deltas have gained exactly the given pages; the order of pages with different
  indices is irrelevant, and the indices of the page delta are listed in increasing order.
\<close>

theorem page_map_update:
  assumes "os_reads_files os" "pm_reachable os pm" "\<forall>(_, page) \<in> set pages. length page = PAGE_SIZE"
  shows "\<exists>pm'. pm_update pm pages = Some (pm', map fst pages) \<and>
           (\<forall>i. pm_get_page pm' i = (case map_of (rev pages) i of Some page \<Rightarrow> page | None \<Rightarrow> pm_get_page pm i)) \<and>
           im_get (pm_page_delta pm') = im_get (pm_page_delta pm) ++ map_of (rev pages) \<and>
           im_get (round_delta pm') = im_get (round_delta pm) ++ map_of (rev pages) \<and>
           sorted_wrt (<) (pm_get_page_delta_indices pm') \<and>
           set (pm_get_page_delta_indices pm') = dom (im_get (pm_page_delta pm)) \<union> fst ` set pages \<and>
           (\<forall>pages'. distinct (map fst pages) \<longrightarrow> mset pages' = mset pages \<longrightarrow> map_option fst (pm_update pm pages') = Some pm')"
proof -
  obtain pm' where pm': "pm_update pm pages = Some (pm', map fst pages)" "pm_ok pm'"
    "\<And>i. pm_get_page pm' i = (case map_of (rev pages) i of Some page \<Rightarrow> page | None \<Rightarrow> pm_get_page pm i)"
    "im_get (pm_page_delta pm') = im_get (pm_page_delta pm) ++ map_of (rev pages)"
    "im_get (round_delta pm') = im_get (round_delta pm) ++ map_of (rev pages)"
    using pm_update_ok [OF pm_reachable_ok [OF assms(1,2)] assms(3)] by metis
  have ok: "delta_ok (pm_page_delta pm')"
    using pm'(2) by (simp add: pm_ok_def)
  have indices: "set (pm_get_page_delta_indices pm') = dom (im_get (pm_page_delta pm'))"
    using pd_iter_map [OF ok] dom_map_of_conv_image_fst by (metis pm_get_page_delta_indices_def list.set_map)
  have "map_option fst (pm_update pm pages') = Some pm'" if "distinct (map fst pages)" "mset pages' = mset pages" for pages'
  proof -
    have "pd_from pages' = pd_from pages"
      using im.collect_order [OF that(1), of pages'] that(2) by (simp add: pd_from_def im_from_iter_def)
    then show ?thesis
      using pm'(1) by (auto simp: pm_update_def pm_apply_def bind_eq_Some_conv)
  qed
  then show ?thesis
    using pm' pd_iter_sorted [OF ok] indices
    by (intro exI [of _ pm']) (auto simp: pm_get_page_delta_indices_def dom_map_of_conv_image_fst image_iff)
qed

theorem page_map_update_witness:
  "pm_get_page one_page_map 5 = ones \<and> pm_get_page one_page_map 6 = zeroed_page"
  using page_map_update [OF one_file_reads [of "[]"] reach_default, of "[(5, ones)]"] one_page_update
  by (auto simp: pm_default_page)

section \<open>The modified prefix and equality\<close>

text \<open>
  \<open>num_host_pages\<close> has the documented property: the pages from that index on are zero pages. It overflows exactly
  when the last page index is in the delta. Equality of page maps is equality of the number of pages and of all pages.
\<close>

theorem page_map_prefix:
  assumes "os_reads_files os" "pm_reachable os pm" "pm_reachable os rhs"
  shows "(pm_num_host_pages pm = None \<longleftrightarrow> - 1 \<in> dom (im_get (pm_page_delta pm))) \<and>
         (\<forall>n. pm_num_host_pages pm = Some n \<longrightarrow> (\<forall>i. n \<le> unat i \<longrightarrow> pm_get_page pm i = zeroed_page)) \<and>
         (\<forall>n m. pm_num_host_pages pm = Some n \<longrightarrow> pm_num_host_pages rhs = Some m \<longrightarrow>
            pm_eq pm rhs = Some (n = m \<and> (\<forall>i. pm_get_page pm i = pm_get_page rhs i)))"
proof -
  have ok: "pm_ok pm" "pm_ok rhs"
    using assms pm_reachable_ok by blast+
  have eq: "pm_eq pm rhs = Some (n = m \<and> (\<forall>i. pm_get_page pm i = pm_get_page rhs i))"
    if n: "pm_num_host_pages pm = Some n" and m: "pm_num_host_pages rhs = Some m" for n m
  proof (cases "n = m")
    case True
    have "(\<forall>i\<in>set [0..<n]. pm_get_page pm (of_nat i) = pm_get_page rhs (of_nat i)) \<longleftrightarrow> (\<forall>i. pm_get_page pm i = pm_get_page rhs i)"
    proof (intro iffI allI ballI)
      fix i :: u64
      assume eq: "\<forall>i\<in>set [0..<n]. pm_get_page pm (of_nat i) = pm_get_page rhs (of_nat i)"
      show "pm_get_page pm i = pm_get_page rhs i"
      proof (cases "unat i < n")
        case True
        then show ?thesis
          using bspec [OF eq, of "unat i"] by simp
      next
        case False
        then show ?thesis
          using pm_num_host_pages_zero [OF ok(1) n, of i] pm_num_host_pages_zero [OF ok(2) m, of i] \<open>n = m\<close> by simp
      qed
    qed simp
    then show ?thesis
      using True n m by (auto simp: pm_eq_def pm_host_pages_def)
  next
    case False
    then show ?thesis
      using n m by (simp add: pm_eq_def)
  qed
  then show ?thesis
    using pm_num_host_pages_panics [OF ok(1)] pm_num_host_pages_zero [OF ok(1)] by blast
qed

lemma one_page_num: "pm_num_host_pages one_page_map = Some 6"
  by (simp add: pm_num_host_pages_def one_page_map_def pm_default_def cp_num_pages_def cp_empty_def pd_max_page_index_def
      im_max_key_def add_checked_def)

lemma default_num: "pm_num_host_pages pm_default = Some 0"
  by (simp add: pm_num_host_pages_def pm_default_def cp_num_pages_def cp_empty_def pd_max_page_index_def im_max_key_def im_new_def)

theorem page_map_prefix_witness:
  "pm_num_host_pages one_page_map = Some 6 \<and> pm_get_page one_page_map 6 = zeroed_page \<and> pm_eq one_page_map pm_default = Some False"
  using page_map_prefix [OF one_file_reads [of "[]"] one_page_reachable reach_default] one_page_num default_num by simp

section \<open>Memory regions\<close>

text \<open>
  C26. \<open>get_memory_region\<close> returns a range that contains the page, whose pages are what the region says: a page of the
  delta itself; consecutive pages of the checkpoint file with no page of the delta among them; or pages that are zero,
  from the given page upwards and wherever the delta has no page. It panics only on the last page index.
\<close>

theorem memory_region_sound:
  assumes "os_reads_files os" "pm_reachable os pm"
  shows "(case pm_get_memory_region pm i of
            None \<Rightarrow> i = - 1
          | Some (BackedByPage page) \<Rightarrow> i \<in> dom (im_get (pm_page_delta pm)) \<and> page = pm_get_page pm i
          | Some (BackedByFile s e fd) \<Rightarrow> s \<le> i \<and> i < e \<and>
              (\<exists>m. cp_mapping (pm_checkpoint pm) = Some m \<and> fd = file_descriptor m \<and>
                 (\<forall>j. s \<le> j \<and> j < e \<longrightarrow> pm_get_page pm j = page_of (mmap_bytes m) (unat j)))
          | Some (Zeros s e) \<Rightarrow> s \<le> i \<and> i < e \<and>
              (\<forall>j. s \<le> j \<and> j < e \<and> (i \<le> j \<or> j \<notin> dom (im_get (pm_page_delta pm))) \<longrightarrow> pm_get_page pm j = zeroed_page))"
proof (cases "im_get (pm_page_delta pm) i")
  case (Some page)
  then show ?thesis
    by (auto simp: pm_get_memory_region_def pm_get_page_def pd_get_page_def)
next
  case None
  have ok: "pm_ok pm" "cp_ok (pm_checkpoint pm)"
    using pm_reachable_ok [OF assms] by (auto simp: pm_ok_def)
  obtain s e where region: "pm_get_memory_region pm i = (if i = - 1 then None else cp_get_memory_region (pm_checkpoint pm) i s e)"
    and range: "s \<le> i" "i \<noteq> - 1 \<Longrightarrow> i < e" and gap: "\<And>j. s \<le> j \<Longrightarrow> j < e \<Longrightarrow> im_get (pm_page_delta pm) j = None"
    using pm_region_range [OF ok(1) None] by metis
  have checkpoint: "pm_get_page pm j = cp_get_page (pm_checkpoint pm) j" if "im_get (pm_page_delta pm) j = None" for j
    using that by (simp add: pm_get_page_def pd_get_page_def)
  show ?thesis
  proof (cases "i = - 1")
    case False
    note range = range(1) range(2) [OF False]
    show ?thesis
    proof (cases "cp_mapping (pm_checkpoint pm)")
      case None
      then show ?thesis
        using region False range gap checkpoint by (auto simp: cp_get_memory_region_def cp_get_page_def)
    next
      case (Some m)
      let ?n = "of_nat (length (mmap_bytes m) div PAGE_SIZE) :: u64"
      have n: "unat ?n = mapping_num_pages m" "length (mmap_bytes m) < 2 ^ 63"
        using ok(2) Some num_pages_small [of "mmap_bytes m"] by (auto simp: cp_ok_def mapping_num_pages_def)
      have page: "cp_get_page (pm_checkpoint pm) j = (if j < ?n then page_of (mmap_bytes m) (unat j) else zeroed_page)" for j
        using Some mapping_get_page_eq [OF n(2), of j] n(1) by (simp add: cp_get_page_def word_less_nat_alt)
      show ?thesis
      proof (cases "?n \<le> i")
        case True
        then have "pm_get_memory_region pm i = Some (Zeros ?n e)"
          using region False range Some by (simp add: cp_get_memory_region_def mapping_get_memory_region_def)
        moreover have "pm_get_page pm j = zeroed_page" if "?n \<le> j" "j < e" "i \<le> j \<or> j \<notin> dom (im_get (pm_page_delta pm))" for j
        proof -
          have "im_get (pm_page_delta pm) j = None"
            using that gap [of j] range(1) by auto
          then show ?thesis
            using checkpoint page [of j] that(1) by (auto dest: leD)
        qed
        ultimately show ?thesis
          using True range(2) by auto
      next
        case less: False
        then have "pm_get_memory_region pm i = Some (BackedByFile s (min ?n e) (file_descriptor m))"
          using region False range Some by (simp add: cp_get_memory_region_def mapping_get_memory_region_def)
        moreover have "pm_get_page pm j = page_of (mmap_bytes m) (unat j)" if "s \<le> j" "j < min ?n e" for j
          using that gap [of j] checkpoint [of j] page [of j] by simp
        ultimately show ?thesis
          using less range Some by auto
      qed
    qed
  qed (use region in simp)
qed

theorem memory_region_sound_witness:
  "os_reads_files (one_file []) \<and> pm_reachable (one_file []) one_page_map \<and> pm_get_memory_region one_page_map 5 = Some (BackedByPage ones)
   \<and> ones = pm_get_page one_page_map 5"
  using memory_region_sound [OF one_file_reads [of "[]"] one_page_reachable, of 5] one_file_reads one_page_reachable
  by (simp add: pm_get_memory_region_def one_page_map_def pd_get_page_def im_get_def)

text \<open>
  C40. A region of zeros can contain a page that is not zero: when the page map has a checkpoint file, the region that
  is returned for a page behind the file starts at the end of the file, even if the page delta has pages in between.
\<close>

theorem memory_region_zeros_overlap:
  assumes "os_reads_files os" "pm_reachable os pm" "cp_mapping (pm_checkpoint pm) = Some m" "im_get (pm_page_delta pm) i = None"
    and "im_get (pm_page_delta pm) q = Some page" "mapping_num_pages m \<le> unat q" "q < i" "i \<noteq> - 1"
  shows "\<exists>s e. pm_get_memory_region pm i = Some (Zeros s e) \<and> s \<le> q \<and> q < e \<and> pm_get_page pm q = page"
proof -
  have ok: "pm_ok pm" "cp_ok (pm_checkpoint pm)"
    using pm_reachable_ok [OF assms(1,2)] by (auto simp: pm_ok_def)
  obtain s e where region: "pm_get_memory_region pm i = (if i = - 1 then None else cp_get_memory_region (pm_checkpoint pm) i s e)"
    "s \<le> i" "i \<noteq> - 1 \<Longrightarrow> i < e"
    using pm_region_range [OF ok(1) assms(4)] by metis
  let ?n = "of_nat (length (mmap_bytes m) div PAGE_SIZE) :: u64"
  have "unat ?n = mapping_num_pages m"
    using ok(2) assms(3) num_pages_small [of "mmap_bytes m"] by (auto simp: cp_ok_def mapping_num_pages_def)
  then have n: "?n \<le> q" "?n \<le> i"
    using assms(6,7) by (simp_all add: word_le_nat_alt word_less_nat_alt)
  have "pm_get_memory_region pm i = Some (Zeros ?n e)"
    using region assms(3,8) n(2) by (simp add: cp_get_memory_region_def mapping_get_memory_region_def)
  moreover have "q < e"
    using assms(7,8) region(3) by simp
  moreover have "pm_get_page pm q = page"
    using assms(5) by (simp add: pm_get_page_def pd_get_page_def)
  ultimately show ?thesis
    using n(1) by blast
qed

definition file_page_map :: page_map where
  "file_page_map =
     \<lparr>pm_checkpoint = \<lparr>cp_mapping = Some \<lparr>mmap_bytes = ones, file_descriptor = 3\<rparr>\<rparr>, base_height = Some 1,
      pm_page_delta = Leaf 5 ones, round_delta = Leaf 5 ones, stripped_round_deltas = False\<rparr>"

lemma file_page_reachable: "pm_reachable (one_file ones) file_page_map"
proof -
  let ?pm = "file_page_map\<lparr>pm_page_delta := im_new, round_delta := im_new\<rparr>"
  have "pm_open (one_file ones) ''heap'' 1 = Inr ?pm"
    by (simp add: pm_open_def cp_open_def mapping_open_def mapping_new_def one_file_def file_page_map_def)
      (simp add: PAGE_SIZE_def)
  then have "pm_reachable (one_file ones) ?pm"
    by (rule reach_open)
  moreover have "pm_update ?pm [(5, ones)] = Some (file_page_map, [5])"
    by (simp add: pm_update_def pm_apply_def pd_from_def im_from_iter_def im_insert_def im_new_def pd_update_def im_union_def file_page_map_def)
  ultimately show ?thesis
    using reach_update [of "one_file ones" ?pm "[(5, ones)]"] by simp
qed

theorem memory_region_zeros_overlap_witness:
  "pm_reachable (one_file ones) file_page_map \<and> pm_get_page file_page_map 5 = ones \<and> ones \<noteq> zeroed_page \<and>
   (\<exists>s e. pm_get_memory_region file_page_map 7 = Some (Zeros s e) \<and> s \<le> 5 \<and> 5 < e)"
proof -
  have "\<exists>s e. pm_get_memory_region file_page_map 7 = Some (Zeros s e) \<and> s \<le> 5 \<and> 5 < e \<and> pm_get_page file_page_map 5 = ones"
    by (intro memory_region_zeros_overlap [OF one_file_reads file_page_reachable, of "\<lparr>mmap_bytes = ones, file_descriptor = 3\<rparr>"]) (simp_all add: file_page_map_def im_get_def mapping_num_pages_def)
  moreover have "ones \<noteq> zeroed_page"
    by (simp add: ones_def zeroed_page_def PAGE_SIZE_def)
  ultimately show ?thesis
    using file_page_reachable by blast
qed

section \<open>Persisting\<close>

text \<open>
  C7. Checkpointing keeps the memory: when the delta of a page map is written over a file that holds its checkpoint, and
  the file is opened again, the new page map has an empty delta and is equal to the old one, page by page. The write
  succeeds on every system that does not fail, whatever writes are short or interrupted, and whatever gaps between dirty
  pages are rewritten. Page indices are below \<open>2\<^sup>5\<^sup>0\<close>.
\<close>

theorem checkpoint_keeps_memory:
  assumes "os_reads_files os" "pm_reachable os pm" "\<forall>i\<in>dom (im_get (pm_page_delta pm)). unat i < 2 ^ 50"
    and "open_for_writing dst = Inr fl" "holds_checkpoint pm fl" "env_ok (last_page_end (pm_page_delta pm) * PAGE_SIZE) env"
  shows "\<exists>fl'. pm_persist_delta env open_for_writing pm dst = Some (Inr (), Some fl') \<and>
           (\<forall>os' f h pm0. os_reads_files os' \<longrightarrow> os_open os' dst = Inr f \<longrightarrow> hf_bytes f = f_bytes fl' \<longrightarrow> pm_open os' dst h = Inr pm0 \<longrightarrow>
              pm_page_delta_is_empty pm0 \<and> (\<forall>i. pm_get_page pm0 i = pm_get_page pm i) \<and> pm_num_host_pages pm0 = pm_num_host_pages pm)"
proof -
  have ok: "pm_ok pm"
    using pm_reachable_ok [OF assms(1,2)] .
  obtain fl' where fl': "pm_apply_delta_to_file env dst pm (pm_page_delta pm) fl = Some (Inr (), fl')" "paged (f_bytes fl')"
    "length (f_bytes fl') = max (cp_num_pages (pm_checkpoint pm)) (last_page_end (pm_page_delta pm)) * PAGE_SIZE"
    "\<And>i. fpage (f_bytes fl') (unat i) = pm_get_page pm i"
    using persisted_pages [OF ok assms(3,5,6), of dst] by metis
  have "pm_page_delta_is_empty pm0 \<and> (\<forall>i. pm_get_page pm0 i = pm_get_page pm i) \<and> pm_num_host_pages pm0 = pm_num_host_pages pm"
    if "os_reads_files os'" "os_open os' dst = Inr f" "hf_bytes f = f_bytes fl'" "pm_open os' dst h = Inr pm0" for os' f h pm0
  proof -
    have "\<And>i. pm_get_page pm0 i = fpage (f_bytes fl') (unat i)" "pm_num_host_pages pm0 = Some (length (f_bytes fl') div PAGE_SIZE)"
      using pm_open_ok [OF that(1,4)] that(2,3) unfolding fpage_def by (metis sum.inject(2))+
    moreover have "pm_page_delta_is_empty pm0"
      using that(4) by (auto simp: pm_open_def pm_page_delta_is_empty_def pd_is_empty_def im_is_empty_def im_new_def elim!: ok_bind.elims)
    ultimately show ?thesis
      using fl'(3,4) pm_num_host_pages_eq [OF ok assms(3)] by simp
  qed
  then show ?thesis
    using fl'(1) assms(4) by (auto simp: pm_persist_delta_def pm_persist_to_file_def)
qed

definition steady_env :: "nat \<Rightarrow> write_env" where
  "steady_env n = (\<lambda>_. (None, replicate n (Wrote 1)))"

lemma steady_env_ok: "env_ok n (steady_env n)"
  by (simp add: env_ok_def steady_env_def list_all_iff good_answer_def writes_def)

theorem checkpoint_keeps_memory_witness:
  "\<exists>fl'. pm_persist_delta (steady_env (6 * PAGE_SIZE)) (\<lambda>_. Inr \<lparr>f_bytes = [], f_pos = 0\<rparr>) one_page_map ''heap'' = Some (Inr (), Some fl')"
proof -
  have "last_page_end (pm_page_delta one_page_map) = 6"
    by (simp add: last_page_end_def one_page_map_def pd_max_page_index_def im_max_key_def)
  moreover have "holds_checkpoint one_page_map \<lparr>f_bytes = [], f_pos = 0\<rparr>"
    by (simp add: holds_checkpoint_def one_page_map_def pm_default_def cp_empty_def cp_num_pages_def fpage_def cp_get_page_def)
  moreover have "\<forall>i\<in>dom (im_get (pm_page_delta one_page_map)). unat i < 2 ^ 50"
    by (auto simp: one_page_map_def im_get_def split: if_splits)
  ultimately show ?thesis
    using checkpoint_keeps_memory [OF one_file_reads [of "[]"] one_page_reachable, of "\<lambda>_. Inr \<lparr>f_bytes = [], f_pos = 0\<rparr>" "''heap''"]
      steady_env_ok [of "6 * PAGE_SIZE"] by fastforce
qed

section \<open>Buffers\<close>

text \<open>Buffers on page maps that are built, after any number of writes.\<close>

inductive bf_reachable :: "os_calls \<Rightarrow> buffer \<Rightarrow> bool" for os where
  reach_new: "pm_reachable os pm \<Longrightarrow> bf_reachable os (bf_new pm)"
| reach_write: "bf_reachable os buf \<Longrightarrow> offset + length src < 2 ^ 64 \<Longrightarrow> bf_write buf src offset = Some buf' \<Longrightarrow> bf_reachable os buf'"

lemma bf_reachable_ok:
  assumes "os_reads_files os"
  shows "bf_reachable os buf \<Longrightarrow> bf_ok buf"
proof (induction rule: bf_reachable.induct)
  case (reach_new pm)
  then show ?case
    using bf_new_ok pm_reachable_ok [OF assms] by blast
next
  case (reach_write buf offset src buf')
  then show ?case
    using bf_write_bytes by (metis option.inject)
qed

text \<open>
  C18. A buffer is a byte-addressed memory: a write of any length at any offset changes exactly the bytes of its range,
  and a read, of any buffer, returns the bytes of its range; both succeed as long as the range ends below \<open>2\<^sup>6\<^sup>4\<close>.
  The page map below the buffer is unchanged.
\<close>

theorem buffer_refines_memory:
  assumes "os_reads_files os" "bf_reachable os buf" "offset + length src < 2 ^ 64" "at + length dst < 2 ^ 64"
  shows "\<exists>buf'. bf_write buf src offset = Some buf' \<and> bf_page_map buf' = bf_page_map buf \<and>
           (\<forall>i < 2 ^ 64. bf_byte buf' i = (if offset \<le> i \<and> i < offset + length src then src ! (i - offset) else bf_byte buf i)) \<and>
           bf_read buf' dst at = Some (map (bf_byte buf') [at..<at + length dst])"
  using bf_write_bytes [OF bf_reachable_ok [OF assms(1,2)] assms(3)] bf_read_bytes assms(4) by metis

theorem buffer_refines_memory_witness:
  "\<exists>buf'. bf_write (bf_new pm_default) [1, 2, 3] 4095 = Some buf' \<and> bf_byte buf' 4096 = 2 \<and>
     bf_read buf' [0, 0] 4095 = Some [1, 2]"
  using buffer_refines_memory [OF one_file_reads [of "[]"] reach_new [OF reach_default], of 4095 "[1, 2, 3]" 4095 "[0, 0]"]
  by (auto simp: upt_conv_Cons)

text \<open>
  \<open>dirty_pages_from_write\<close> predicts the growth of the set of dirty pages exactly, for every write that stays within
  the maximum size of the stable memory.
\<close>

theorem dirty_pages_predicted:
  assumes "os_reads_files os" "bf_reachable os buf" "unat offset + length src \<le> unat MAX_STABLE_MEMORY_IN_BYTES"
  shows "\<exists>buf'. bf_write buf src (unat offset) = Some buf' \<and>
           length (bf_dirty_pages buf') = length (bf_dirty_pages buf) + unat (bf_dirty_pages_from_write buf offset (of_nat (length src)))"
proof -
  have small: "unat offset + length src < 2 ^ 64"
    using assms(3) by (simp add: MAX_STABLE_MEMORY_IN_BYTES_def)
  show ?thesis
    using bf_write_bytes [OF bf_reachable_ok [OF assms(1,2)] small]
      dirty_pages_after_write [OF bf_reachable_ok [OF assms(1,2)] assms(3)] by blast
qed

theorem dirty_pages_predicted_witness:
  "\<exists>buf'. bf_write (bf_new pm_default) [1, 2, 3] 4095 = Some buf' \<and>
     length (bf_dirty_pages buf') = 0 + unat (bf_dirty_pages_from_write (bf_new pm_default) 4095 3)"
  using dirty_pages_predicted [OF one_file_reads [of "[]"] reach_new [OF reach_default], of 4095 "[1, 2, 3]"]
  by (simp add: MAX_STABLE_MEMORY_IN_BYTES_def bf_new_def)

text \<open>
  Turning a buffer into a page map keeps every byte, and the page map made of a sequence of bytes holds these bytes
  followed by zeros.
\<close>

theorem buffer_into_page_map:
  assumes "os_reads_files os" "bf_reachable os buf" "length bytes < 2 ^ 64"
  shows "(\<exists>pm. bf_into_page_map buf = Some pm \<and> pm_ok pm \<and> (\<forall>i. pm_byte pm i = bf_byte buf i)) \<and>
         (\<exists>pm. pm_from_bytes bytes = Some pm \<and> (\<forall>i < 2 ^ 64. pm_byte pm i = (if i < length bytes then bytes ! i else 0)))"
proof
  show "\<exists>pm. bf_into_page_map buf = Some pm \<and> pm_ok pm \<and> (\<forall>i. pm_byte pm i = bf_byte buf i)"
    using bf_into_page_map_ok [OF bf_reachable_ok [OF assms(1,2)]] unfolding pm_byte_def bf_byte_def by metis
  have ok: "bf_ok (bf_new pm_default)"
    using bf_new_ok pm_default_ok by blast
  obtain buf' where buf': "bf_write (bf_new pm_default) bytes 0 = Some buf'" "bf_ok buf'" "bf_page_map buf' = pm_default"
    "\<And>i. i < 2 ^ 64 \<Longrightarrow> bf_byte buf' i = (if i < length bytes then bytes ! i else bf_byte (bf_new pm_default) i)"
    using bf_write_bytes [OF ok, of 0 bytes] assms(3) by (auto simp: bf_new_def)
  obtain pm where pm: "bf_into_page_map buf' = Some pm" "\<And>i. pm_get_page pm i = bf_page buf' i"
    using bf_into_page_map_ok [OF buf'(2)] by metis
  have "pm_from_bytes bytes = Some pm"
    using buf'(1,3) pm(1) by (simp add: pm_from_bytes_def bf_into_page_map_def)
  moreover have "bf_byte (bf_new pm_default) i = 0" for i
    by (simp add: bf_new_byte pm_byte_def pm_default_page zeroed_page_def)
  ultimately show "\<exists>pm. pm_from_bytes bytes = Some pm \<and> (\<forall>i < 2 ^ 64. pm_byte pm i = (if i < length bytes then bytes ! i else 0))"
    using buf'(4) pm(2) by (auto simp: pm_byte_def bf_byte_def)
qed

theorem buffer_into_page_map_witness:
  "\<exists>pm. pm_from_bytes [7, 8] = Some pm \<and> pm_byte pm 1 = 8 \<and> pm_byte pm 2 = 0"
  using buffer_into_page_map [OF one_file_reads [of "[]"] reach_new [OF reach_default], of "[7, 8]"] by auto

end
