(* ===== verification/Streams.thy ===== *)
theory Streams
  imports Messages BTreeMap
begin

text \<open>
  The streams of messages between subnets: gap-free indexed queues, headers and slices
  (\<open>rs/types/types/src/xnet.rs\<close>), the stream of a subnet to another one with its signals, and
  all streams of a subnet with the sizes of the responses in them, by respondent
  (\<open>rs/replicated_state/src/metadata_state.rs\<close>).

  Stream indices count messages and are natural numbers; they are checked against the width of
  the protobuf fields where a stream is encoded. An assertion that fails, an unwrapped \<open>None\<close>
  and a subtraction below zero are the value \<^const>\<open>None\<close>. The debug assertions of the source
  are not steps of the model; that they hold is part of the invariant.
\<close>

section \<open>Indexed queues\<close>

type_synonym stream_index = nat

record 'a stream_indexed_queue =
  siq_begin :: stream_index
  siq_queue :: "'a list"

definition siq_default :: "'a stream_indexed_queue" where
  "siq_default = \<lparr>siq_begin = 0, siq_queue = []\<rparr>"

definition siq_with_begin :: "stream_index \<Rightarrow> 'a stream_indexed_queue" where
  "siq_with_begin b = \<lparr>siq_begin = b, siq_queue = []\<rparr>"

definition siq_len :: "'a stream_indexed_queue \<Rightarrow> nat" where
  "siq_len q = length (siq_queue q)"

definition siq_is_empty :: "'a stream_indexed_queue \<Rightarrow> bool" where
  "siq_is_empty q \<longleftrightarrow> siq_queue q = []"

definition siq_end :: "'a stream_indexed_queue \<Rightarrow> stream_index" where
  "siq_end q = siq_begin q + length (siq_queue q)"

definition siq_slice ::
  "'a stream_indexed_queue \<Rightarrow> stream_index \<Rightarrow> nat option \<Rightarrow> 'a stream_indexed_queue option" where
  "siq_slice q slice_begin max_items =
     (if slice_begin < siq_begin q \<or> slice_begin > siq_end q then None
      else
        let skip = slice_begin - siq_begin q;
            n = (case max_items of Some m \<Rightarrow> m | None \<Rightarrow> siq_len q)
        in Some \<lparr>siq_begin = slice_begin, siq_queue = take n (drop skip (siq_queue q))\<rparr>)"

definition siq_push :: "'a \<Rightarrow> 'a stream_indexed_queue \<Rightarrow> 'a stream_indexed_queue" where
  "siq_push item q = q\<lparr>siq_queue := siq_queue q @ [item]\<rparr>"

definition siq_pop ::
  "'a stream_indexed_queue \<Rightarrow> (stream_index \<times> 'a) option \<times> 'a stream_indexed_queue" where
  "siq_pop q =
     (case siq_queue q of
        [] \<Rightarrow> (None, q)
      | msg # rest \<Rightarrow> (Some (siq_begin q, msg), \<lparr>siq_begin = siq_begin q + 1, siq_queue = rest\<rparr>))"

definition siq_get :: "'a stream_indexed_queue \<Rightarrow> stream_index \<Rightarrow> 'a option" where
  "siq_get q index =
     (if index \<ge> siq_begin q \<and> index - siq_begin q < length (siq_queue q)
      then Some (siq_queue q ! (index - siq_begin q)) else None)"

text \<open>The loop of \<open>discard_before\<close>: pop and advance until the new beginning is reached.\<close>

fun discard_loop :: "stream_index \<Rightarrow> stream_index \<Rightarrow> 'a list \<Rightarrow> (stream_index \<times> 'a list) option" where
  "discard_loop new_begin b [] = (if b < new_begin then None else Some (b, []))"
| "discard_loop new_begin b (x # xs) =
     (if b < new_begin then discard_loop new_begin (b + 1) xs else Some (b, x # xs))"

definition siq_discard_before ::
  "stream_index \<Rightarrow> 'a stream_indexed_queue \<Rightarrow> 'a stream_indexed_queue option" where
  "siq_discard_before new_begin q =
     (if new_begin < siq_begin q \<or> new_begin > siq_end q then None
      else map_option (\<lambda>(b, xs). \<lparr>siq_begin = b, siq_queue = xs\<rparr>)
             (discard_loop new_begin (siq_begin q) (siq_queue q)))"

definition siq_iter :: "'a stream_indexed_queue \<Rightarrow> (stream_index \<times> 'a) list" where
  "siq_iter q = zip [siq_begin q..<siq_begin q + length (siq_queue q)] (siq_queue q)"

section \<open>Headers and slices\<close>

record stream_header =
  h_begin :: stream_index
  h_end :: stream_index
  h_signals_end :: stream_index
  h_reject_signals :: "stream_index list"

record 'p stream_slice =
  sl_header :: stream_header
  sl_messages :: "'p request_or_response stream_indexed_queue option"

definition slice_new ::
  "stream_header \<Rightarrow> 'p request_or_response stream_indexed_queue \<Rightarrow> 'p stream_slice" where
  "slice_new h q = \<lparr>sl_header = h, sl_messages = (if siq_is_empty q then None else Some q)\<rparr>"

definition slice_from_parts ::
  "stream_header \<Rightarrow> 'p request_or_response stream_indexed_queue option \<Rightarrow> 'p stream_slice" where
  "slice_from_parts h mq =
     (case mq of
        None \<Rightarrow> \<lparr>sl_header = h, sl_messages = None\<rparr>
      | Some q \<Rightarrow> slice_new h q)"

definition slice_pop_message ::
  "'p stream_slice \<Rightarrow> (stream_index \<times> 'p request_or_response) option \<times> 'p stream_slice" where
  "slice_pop_message s =
     (case sl_messages s of
        Some q \<Rightarrow>
          (case siq_pop q of
             (result, q1) \<Rightarrow> (result, s\<lparr>sl_messages := (if siq_is_empty q1 then None else Some q1)\<rparr>))
      | None \<Rightarrow> (None, s))"

section \<open>The stream to one subnet\<close>

record 'p stream =
  st_messages :: "'p request_or_response stream_indexed_queue"
  st_signals_end :: stream_index
  st_reject_signals :: "stream_index list"
  st_messages_size_bytes :: nat

definition st_size_bytes :: "layout \<Rightarrow> 'p request_or_response stream_indexed_queue \<Rightarrow> nat" where
  "st_size_bytes z q = (\<Sum>(_, m)\<leftarrow>siq_iter q. rr_count_bytes z m)"

definition st_with_signals ::
  "layout \<Rightarrow> 'p request_or_response stream_indexed_queue \<Rightarrow> stream_index \<Rightarrow> stream_index list \<Rightarrow> 'p stream"
where
  "st_with_signals z q signals_end reject_signals =
     \<lparr>st_messages = q, st_signals_end = signals_end, st_reject_signals = reject_signals,
      st_messages_size_bytes = st_size_bytes z q\<rparr>"

definition st_new ::
  "layout \<Rightarrow> 'p request_or_response stream_indexed_queue \<Rightarrow> stream_index \<Rightarrow> 'p stream" where
  "st_new z q signals_end =
     \<lparr>st_messages = q, st_signals_end = signals_end, st_reject_signals = [],
      st_messages_size_bytes = st_size_bytes z q\<rparr>"

definition st_default :: "layout \<Rightarrow> 'p stream" where
  "st_default z =
     \<lparr>st_messages = siq_default, st_signals_end = 0, st_reject_signals = [],
      st_messages_size_bytes = st_size_bytes z (siq_default :: 'p request_or_response stream_indexed_queue)\<rparr>"

definition st_header :: "'p stream \<Rightarrow> stream_header" where
  "st_header s =
     \<lparr>h_begin = siq_begin (st_messages s), h_end = siq_end (st_messages s),
      h_signals_end = st_signals_end s, h_reject_signals = st_reject_signals s\<rparr>"

definition st_slice :: "'p stream \<Rightarrow> stream_index \<Rightarrow> nat option \<Rightarrow> 'p stream_slice option" where
  "st_slice s from count = map_option (slice_new (st_header s)) (siq_slice (st_messages s) from count)"

text \<open>The conversion of a whole stream to a slice.\<close>

definition st_into_slice :: "'p stream \<Rightarrow> 'p stream_slice" where
  "st_into_slice s =
     slice_new
       \<lparr>h_begin = siq_begin (st_messages s), h_end = siq_end (st_messages s),
        h_signals_end = st_signals_end s, h_reject_signals = st_reject_signals s\<rparr>
       (st_messages s)"

definition st_push :: "layout \<Rightarrow> 'p request_or_response \<Rightarrow> 'p stream \<Rightarrow> 'p stream" where
  "st_push z message s =
     s\<lparr>st_messages_size_bytes := st_messages_size_bytes s + rr_count_bytes z message,
       st_messages := siq_push message (st_messages s)\<rparr>"

definition next_signal :: "stream_index \<Rightarrow> stream_index list \<Rightarrow> stream_index \<times> stream_index list" where
  "next_signal new_begin signals = (case signals of [] \<Rightarrow> (new_begin, []) | i # is \<Rightarrow> (i, is))"

text \<open>
  The loop of \<open>discard_messages_before\<close> over the messages from index \<open>b\<close> on. Its state is the
  byte size, the next reject signal, the iterator behind it and the rejected messages so far.
\<close>

fun discard_messages_loop ::
  "layout \<Rightarrow> stream_index \<Rightarrow> stream_index \<Rightarrow> 'p request_or_response list \<Rightarrow> nat \<Rightarrow> stream_index
   \<Rightarrow> stream_index list \<Rightarrow> 'p request_or_response list
   \<Rightarrow> (stream_index \<times> 'p request_or_response list \<times> nat \<times> 'p request_or_response list) option" where
  "discard_messages_loop z new_begin b [] size_bytes next_reject_signal signals rejected =
     (if b < new_begin then None else Some (b, [], size_bytes, rejected))"
| "discard_messages_loop z new_begin b (msg # rest) size_bytes next_reject_signal signals rejected =
     (if b < new_begin then
        do {
          size_bytes1 \<leftarrow> sub_usize size_bytes (rr_count_bytes z msg);
          if next_reject_signal = b then
            (case next_signal new_begin signals of (next1, signals1) \<Rightarrow>
               discard_messages_loop z new_begin (b + 1) rest size_bytes1 next1 signals1 (rejected @ [msg]))
          else discard_messages_loop z new_begin (b + 1) rest size_bytes1 next_reject_signal signals rejected
        }
      else Some (b, msg # rest, size_bytes, rejected))"

definition st_discard_messages_before ::
  "layout \<Rightarrow> stream_index \<Rightarrow> stream_index list \<Rightarrow> 'p stream
   \<Rightarrow> ('p request_or_response list \<times> 'p stream) option" where
  "st_discard_messages_before z new_begin reject_signals s =
     (if new_begin < siq_begin (st_messages s) \<or> new_begin > siq_end (st_messages s) then None
      else
        let messages_begin = siq_begin (st_messages s);
            signals = dropWhile (\<lambda>reject_signal. reject_signal < messages_begin) reject_signals
        in case next_signal new_begin signals of (next_reject_signal, signals1) \<Rightarrow>
             map_option
               (\<lambda>(b, rest, size_bytes, rejected).
                  (rejected, s\<lparr>st_messages := \<lparr>siq_begin = b, siq_queue = rest\<rparr>,
                               st_messages_size_bytes := size_bytes\<rparr>))
               (discard_messages_loop z new_begin messages_begin (siq_queue (st_messages s))
                  (st_messages_size_bytes s) next_reject_signal signals1 []))"

fun pop_signals_before :: "stream_index \<Rightarrow> stream_index list \<Rightarrow> stream_index list" where
  "pop_signals_before new_signals_begin [] = []"
| "pop_signals_before new_signals_begin (i # is) =
     (if i < new_signals_begin then pop_signals_before new_signals_begin is else i # is)"

definition st_discard_signals_before :: "stream_index \<Rightarrow> 'p stream \<Rightarrow> 'p stream" where
  "st_discard_signals_before new_signals_begin s =
     s\<lparr>st_reject_signals := pop_signals_before new_signals_begin (st_reject_signals s)\<rparr>"

definition st_increment_signals_end :: "'p stream \<Rightarrow> 'p stream" where
  "st_increment_signals_end s = s\<lparr>st_signals_end := st_signals_end s + 1\<rparr>"

definition st_push_reject_signal :: "stream_index \<Rightarrow> 'p stream \<Rightarrow> 'p stream option" where
  "st_push_reject_signal index s =
     (if index \<noteq> st_signals_end s then None
      else if st_reject_signals s \<noteq> [] \<and> \<not> last (st_reject_signals s) < index then None
      else Some (s\<lparr>st_reject_signals := st_reject_signals s @ [index]\<rparr>))"

text \<open>One byte is counted for every reject signal. The size of the struct is a parameter.\<close>

definition st_count_bytes :: "nat \<Rightarrow> 'p stream \<Rightarrow> nat" where
  "st_count_bytes size_of_Stream s =
     size_of_Stream + st_messages_size_bytes s + length (st_reject_signals s)"

section \<open>Protobuf codec of a stream\<close>

record pb_stream =
  pbs_messages_begin :: u64
  pbs_messages :: "pb_request_or_response list"
  pbs_signals_end :: u64
  pbs_reject_signals :: "u64 list"

definition st_to_pb :: "('p \<Rightarrow> u8 list) \<Rightarrow> 'p stream \<Rightarrow> pb_stream" where
  "st_to_pb enc item =
     \<lparr>pbs_messages_begin = of_nat (siq_begin (st_messages item)),
      pbs_messages = map (\<lambda>(_, m). rr_to_pb enc m) (siq_iter (st_messages item)),
      pbs_signals_end = of_nat (st_signals_end item),
      pbs_reject_signals = map of_nat (st_reject_signals item)\<rparr>"

definition st_try_from ::
  "layout \<Rightarrow> (u8 list \<Rightarrow> 'p option) \<Rightarrow> pb_stream \<Rightarrow> (proxy_decode_error + 'p stream) option" where
  "st_try_from z dec item =
     try_bind (try_map (rr_try_from dec) (pbs_messages item))
       (\<lambda>ms.
          let q = foldl (\<lambda>q m. siq_push m q) (siq_with_begin (unat (pbs_messages_begin item))) ms
          in Some (Inr \<lparr>st_messages = q, st_signals_end = unat (pbs_signals_end item),
                        st_reject_signals = map unat (pbs_reject_signals item),
                        st_messages_size_bytes = st_size_bytes z q\<rparr>))"

section \<open>All streams of a subnet\<close>

type_synonym 'p stream_map = "('p, 'p stream) btree"

record 'p streams =
  ss_streams :: "'p stream_map"
  ss_responses_size_bytes :: "('p, nat) btree"

definition ss_new :: "'p streams" where
  "ss_new = \<lparr>ss_streams = [], ss_responses_size_bytes = []\<rparr>"

definition ss_get :: "'p streams \<Rightarrow> 'p \<Rightarrow> 'p stream option" where
  "ss_get s destination = bt_get (ss_streams s) destination"

text \<open>\<open>*map.entry(key).or_default() += n\<close>\<close>

definition entry_add :: "'p::linorder \<Rightarrow> nat \<Rightarrow> ('p, nat) btree \<Rightarrow> ('p, nat) btree" where
  "entry_add k n m = bt_insert k ((case bt_get m k of Some v \<Rightarrow> v | None \<Rightarrow> 0) + n) m"

fun add_response :: "layout \<Rightarrow> 'p::linorder request_or_response \<Rightarrow> ('p, nat) btree \<Rightarrow> ('p, nat) btree" where
  "add_response z (Request _) m = m"
| "add_response z (Response rep) m = entry_add (respondent rep) (rr_count_bytes z (Response rep)) m"

text \<open>\<open>streams.entry(destination).or_default()\<close>\<close>

definition stream_or_default :: "layout \<Rightarrow> 'p stream_map \<Rightarrow> 'p \<Rightarrow> 'p stream" where
  "stream_or_default z m destination =
     (case bt_get m destination of Some s \<Rightarrow> s | None \<Rightarrow> st_default z)"

definition ss_push ::
  "layout \<Rightarrow> 'p::linorder \<Rightarrow> 'p request_or_response \<Rightarrow> 'p streams \<Rightarrow> 'p streams" where
  "ss_push z destination msg s =
     s\<lparr>ss_responses_size_bytes := add_response z msg (ss_responses_size_bytes s),
       ss_streams :=
         bt_insert destination (st_push z msg (stream_or_default z (ss_streams s) destination)) (ss_streams s)\<rparr>"

definition calculate_stats :: "layout \<Rightarrow> 'p::linorder stream_map \<Rightarrow> ('p, nat) btree" where
  "calculate_stats z m =
     foldl (\<lambda>stats (_, s). foldl (\<lambda>stats (_, msg). add_response z msg stats) stats (siq_iter (st_messages s)))
       [] m"

text \<open>
  A \<open>StreamHandle\<close> is a mutable reference to a stream and to the statistics of the map it is
  in. It is a pair here; \<open>ss_put_handle\<close> writes the pair back where the handle is dropped.
\<close>

type_synonym 'p stream_handle = "'p stream \<times> ('p, nat) btree"

definition ss_get_mut :: "'p streams \<Rightarrow> 'p \<Rightarrow> 'p stream_handle option" where
  "ss_get_mut s destination =
     map_option (\<lambda>st. (st, ss_responses_size_bytes s)) (bt_get (ss_streams s) destination)"

definition ss_get_mut_or_insert :: "layout \<Rightarrow> 'p streams \<Rightarrow> 'p \<Rightarrow> 'p stream_handle" where
  "ss_get_mut_or_insert z s destination =
     (stream_or_default z (ss_streams s) destination, ss_responses_size_bytes s)"

definition ss_put_handle :: "'p::linorder \<Rightarrow> 'p stream_handle \<Rightarrow> 'p streams \<Rightarrow> 'p streams" where
  "ss_put_handle destination h s =
     s\<lparr>ss_streams := bt_insert destination (fst h) (ss_streams s), ss_responses_size_bytes := snd h\<rparr>"

definition sh_push :: "layout \<Rightarrow> 'p::linorder request_or_response \<Rightarrow> 'p stream_handle \<Rightarrow> 'p stream_handle" where
  "sh_push z message h = (st_push z message (fst h), add_response z message (snd h))"

definition sh_increment_signals_end :: "'p stream_handle \<Rightarrow> 'p stream_handle" where
  "sh_increment_signals_end h = (st_increment_signals_end (fst h), snd h)"

definition sh_push_reject_signal :: "stream_index \<Rightarrow> 'p stream_handle \<Rightarrow> 'p stream_handle option" where
  "sh_push_reject_signal index h = map_option (\<lambda>s. (s, snd h)) (st_push_reject_signal index (fst h))"

text \<open>
  The statistics of the discarded messages: the size of a response is taken off the entry of
  its respondent, which must exist, and an entry that reaches zero is removed.
\<close>

fun deduct_responses ::
  "layout \<Rightarrow> stream_index \<Rightarrow> (stream_index \<times> 'p::linorder request_or_response) list
   \<Rightarrow> ('p, nat) btree \<Rightarrow> ('p, nat) btree option" where
  "deduct_responses z new_begin [] m = Some m"
| "deduct_responses z new_begin ((index, msg) # rest) m =
     (if index \<ge> new_begin then Some m
      else
        case msg of
          Request _ \<Rightarrow> deduct_responses z new_begin rest m
        | Response rep \<Rightarrow>
            do {
              v \<leftarrow> bt_get m (respondent rep);
              v1 \<leftarrow> sub_usize v (rr_count_bytes z msg);
              deduct_responses z new_begin rest
                (if v1 = 0 then bt_remove (respondent rep) m else bt_insert (respondent rep) v1 m)
            })"

definition sh_discard_messages_before ::
  "layout \<Rightarrow> stream_index \<Rightarrow> stream_index list \<Rightarrow> 'p::linorder stream_handle
   \<Rightarrow> ('p request_or_response list \<times> 'p stream_handle) option" where
  "sh_discard_messages_before z new_begin reject_signals h =
     do {
       m \<leftarrow> deduct_responses z new_begin (siq_iter (st_messages (fst h))) (snd h);
       (rejected, s) \<leftarrow> st_discard_messages_before z new_begin reject_signals (fst h);
       Some (rejected, (s, m))
     }"

definition sh_discard_signals_before :: "stream_index \<Rightarrow> 'p stream_handle \<Rightarrow> 'p stream_handle" where
  "sh_discard_signals_before new_signals_begin h = (st_discard_signals_before new_signals_begin (fst h), snd h)"

end
