(* ===== verification/IngressHistory.thy ===== *)
theory IngressHistory
  imports CallContextManager "HOL-Library.List_Lexorder"
begin

text \<open>
  The history of ingress messages: statuses of messages (\<open>rs/types/types/src/ingress.rs\<close>), the
  \<open>IngressHistoryState\<close> of \<open>rs/replicated_state/src/metadata_state.rs\<close>, and the guard on status
  transitions of \<open>rs/execution_environment/src/history.rs\<close>. A message ID is a string of bytes; a
  \<open>BTreeSet\<close> of IDs is an ascending list. Reference counts and metrics are left out.
\<close>

section \<open>Statuses\<close>

type_synonym message_id = "u8 list"

datatype error_code =
    ErrSubnetOversubscribed | ErrMaxNumberOfCanistersReached | ErrCanisterOutputQueueFull | ErrIngressMessageTimeout
  | ErrCanisterQueueNotEmpty | ErrCanisterNotFound | ErrCanisterMethodNotFound | ErrCanisterAlreadyInstalled
  | ErrCanisterWasmModuleNotFound | ErrInsufficientMemoryAllocation | ErrInsufficientCyclesForCreateCanister
  | ErrSubnetNotFound | ErrCanisterNotHostedBySubnet | ErrCanisterOutOfCycles | ErrCanisterTrapped
  | ErrCanisterCalledTrap | ErrCanisterContractViolation | ErrCanisterInvalidWasm | ErrCanisterDidNotReply
  | ErrCanisterOutOfMemory | ErrCanisterStopped | ErrCanisterStopping | ErrCanisterNotStopped
  | ErrCanisterStoppingCancelled | ErrCanisterInvalidController | ErrCanisterFunctionNotFound | ErrCanisterNonEmpty
  | ErrCertifiedStateUnavailable | ErrCanisterRejectedMessage | ErrQueryCallGraphLoopDetected
  | ErrUnknownManagementMessage | ErrInvalidManagementPayload | ErrInsufficientCyclesInCall | ErrCanisterWasmEngineError
  | ErrCanisterInstructionLimitExceeded | ErrCanisterInstallCodeRateLimited | ErrCanisterMemoryAccessLimitExceeded
  | ErrQueryCallGraphTooDeep | ErrQueryCallGraphTotalInstructionLimitExceeded
  | ErrCompositeQueryCalledInReplicatedMode

record user_error =
  ue_code :: error_code
  ue_description :: string

datatype ingress_state = Received | Completed wasm_result | Failed user_error | Processing | Done

datatype 'p ingress_status = Known 'p 'p time ingress_state | Unknown

fun wasm_result_count_bytes :: "wasm_result \<Rightarrow> nat" where
  "wasm_result_count_bytes (WasmReply bytes) = length bytes"
| "wasm_result_count_bytes (WasmReject s) = length s"

fun ingress_status_payload_bytes :: "'p ingress_status \<Rightarrow> nat" where
  "ingress_status_payload_bytes (Known _ _ _ state) =
     (case state of
        Completed result \<Rightarrow> wasm_result_count_bytes result
      | Failed err \<Rightarrow> length (ue_description err)
      | _ \<Rightarrow> 0)"
| "ingress_status_payload_bytes Unknown = 0"

section \<open>Certification versions\<close>

datatype certification_version = V0 | V1 | V2 | V3 | V4 | V5 | V6 | V7 | V8 | V9 | V10 | V11

fun version_number :: "certification_version \<Rightarrow> nat" where
  "version_number V0 = 0"
| "version_number V1 = 1"
| "version_number V2 = 2"
| "version_number V3 = 3"
| "version_number V4 = 4"
| "version_number V5 = 5"
| "version_number V6 = 6"
| "version_number V7 = 7"
| "version_number V8 = 8"
| "version_number V9 = 9"
| "version_number V10 = 10"
| "version_number V11 = 11"

definition CURRENT_CERTIFICATION_VERSION :: certification_version where
  "CURRENT_CERTIFICATION_VERSION = V10"

section \<open>The history\<close>

record 'p ingress_history_state =
  ih_statuses :: "(message_id, 'p ingress_status) btree"
  ih_pruning_times :: "(time, message_id list) btree"
  ih_next_terminal_time :: time
  ih_memory_usage :: nat

definition ih_default :: "'p ingress_history_state" where
  "ih_default = \<lparr>ih_statuses = [], ih_pruning_times = [], ih_next_terminal_time = 0, ih_memory_usage = 0\<rparr>"

definition compute_memory_usage :: "(message_id, 'p ingress_status) btree \<Rightarrow> nat" where
  "compute_memory_usage statuses = (\<Sum>e\<leftarrow>statuses. ingress_status_payload_bytes (snd e))"

text \<open>Five minutes, in nanoseconds.\<close>

definition MAX_INGRESS_TTL :: nat where
  "MAX_INGRESS_TTL = 5 * 60 * 1000000000"

definition has_reply :: "ingress_state \<Rightarrow> bool" where
  "has_reply state \<longleftrightarrow> (case state of Completed _ \<Rightarrow> True | Failed _ \<Rightarrow> True | _ \<Rightarrow> False)"

definition is_terminal :: "ingress_state \<Rightarrow> bool" where
  "is_terminal state \<longleftrightarrow> has_reply state \<or> state = Done"

text \<open>The body of the loops of \<open>forget_terminal_statuses\<close> for one message, over the messages of one time, over all times.\<close>

definition forget_status :: "message_id \<Rightarrow> 'p ingress_history_state \<Rightarrow> 'p ingress_history_state option" where
  "forget_status m h =
     (case bt_get (ih_statuses h) m of
        Some (Known rcv user_id time state) \<Rightarrow>
          if has_reply state then
            let done_status = Known rcv user_id time Done in
            do {
              mem \<leftarrow> sub_usize (ih_memory_usage h + ingress_status_payload_bytes done_status)
                (ingress_status_payload_bytes (Known rcv user_id time state));
              Some (h\<lparr>ih_statuses := bt_insert m done_status (ih_statuses h), ih_memory_usage := mem\<rparr>)
            }
          else Some h
      | _ \<Rightarrow> Some h)"

fun forget_statuses :: "message_id list \<Rightarrow> 'p ingress_history_state \<Rightarrow> 'p ingress_history_state option" where
  "forget_statuses [] h = Some h"
| "forget_statuses (m # ms) h =
     do {
       h1 \<leftarrow> forget_status m h;
       forget_statuses ms h1
     }"

fun forget_times ::
  "nat \<Rightarrow> (time \<times> message_id list) list \<Rightarrow> 'p ingress_history_state \<Rightarrow> 'p ingress_history_state option" where
  "forget_times target [] h = Some h"
| "forget_times target ((time, ids) # rest) h =
     (let h1 = h\<lparr>ih_next_terminal_time := time\<rparr> in
      if ih_memory_usage h1 \<le> target then Some h1
      else
        do {
          h2 \<leftarrow> forget_statuses ids h1;
          forget_times target rest h2
        })"

definition forget_terminal_statuses :: "nat \<Rightarrow> 'p ingress_history_state \<Rightarrow> 'p ingress_history_state option" where
  "forget_terminal_statuses target h =
     (if version_number CURRENT_CERTIFICATION_VERSION < version_number V8 then Some h
      else forget_times target (filter (\<lambda>(t, _). ih_next_terminal_time h \<le> t) (ih_pruning_times h)) h)"

definition enroll_for_pruning :: "message_id \<Rightarrow> ingress_state \<Rightarrow> time \<Rightarrow> 'p ingress_history_state \<Rightarrow> 'p ingress_history_state" where
  "enroll_for_pruning m state time h =
     (if is_terminal state then
        let timeout = time_add time MAX_INGRESS_TTL;
            ids = (case bt_get (ih_pruning_times h) timeout of None \<Rightarrow> [] | Some ids \<Rightarrow> ids) in
        h\<lparr>ih_next_terminal_time :=
             (if ih_next_terminal_time h > timeout \<and> has_reply state then timeout else ih_next_terminal_time h),
          ih_pruning_times := bt_insert timeout (insort_insert m ids) (ih_pruning_times h)\<rparr>
      else h)"

definition ih_insert ::
  "message_id \<Rightarrow> 'p ingress_status \<Rightarrow> time \<Rightarrow> nat \<Rightarrow> 'p ingress_history_state \<Rightarrow> 'p ingress_history_state option" where
  "ih_insert m status time ingress_memory_capacity h =
     (let h1 = (case status of Known _ _ _ state \<Rightarrow> enroll_for_pruning m state time h | Unknown \<Rightarrow> h);
          added = ih_memory_usage h1 + ingress_status_payload_bytes status in
      do {
        mem \<leftarrow> (case bt_get (ih_statuses h1) m of
                  None \<Rightarrow> Some added
                | Some old \<Rightarrow> sub_usize added (ingress_status_payload_bytes old));
        let h2 = h1\<lparr>ih_statuses := bt_insert m status (ih_statuses h1), ih_memory_usage := mem\<rparr>;
        if mem > ingress_memory_capacity then forget_terminal_statuses ingress_memory_capacity h2 else Some h2
      })"

text \<open>The loops of \<open>prune\<close> over the messages of all times that have passed.\<close>

fun prune_statuses :: "message_id list \<Rightarrow> 'p ingress_history_state \<Rightarrow> 'p ingress_history_state option" where
  "prune_statuses [] h = Some h"
| "prune_statuses (m # ms) h =
     (case bt_get (ih_statuses h) m of
        None \<Rightarrow> prune_statuses ms h
      | Some removed \<Rightarrow>
          do {
            mem \<leftarrow> sub_usize (ih_memory_usage h) (ingress_status_payload_bytes removed);
            prune_statuses ms (h\<lparr>ih_statuses := bt_remove m (ih_statuses h), ih_memory_usage := mem\<rparr>)
          })"

definition ih_prune :: "time \<Rightarrow> 'p ingress_history_state \<Rightarrow> 'p ingress_history_state option" where
  "ih_prune time h =
     (let new_pruning_times = filter (\<lambda>(t, _). time \<le> t) (ih_pruning_times h);
          passed = filter (\<lambda>(t, _). t < time) (ih_pruning_times h) in
      do {
        h1 \<leftarrow> prune_statuses (concat (map snd passed)) h;
        Some (h1\<lparr>ih_pruning_times := new_pruning_times\<rparr>)
      })"

section \<open>Transitions\<close>

definition ih_get_status :: "'p ingress_history_state \<Rightarrow> message_id \<Rightarrow> 'p ingress_status" where
  "ih_get_status h m = (case bt_get (ih_statuses h) m of None \<Rightarrow> Unknown | Some status \<Rightarrow> status)"

fun valid_transition :: "'p ingress_status \<Rightarrow> 'p ingress_status \<Rightarrow> bool" where
  "valid_transition Unknown _ = True"
| "valid_transition (Known _ _ _ _) Unknown = False"
| "valid_transition (Known _ _ _ current_state) (Known _ _ _ state) =
     (case current_state of
        Received \<Rightarrow> state = Processing \<or> has_reply state
      | Processing \<Rightarrow> state = Processing \<or> has_reply state
      | _ \<Rightarrow> False)"

text \<open>\<open>set_status\<close> on the history: a transition that is not valid is a fatal error.\<close>

definition ih_set_status ::
  "time \<Rightarrow> nat \<Rightarrow> message_id \<Rightarrow> 'p ingress_status \<Rightarrow> 'p ingress_history_state \<Rightarrow> 'p ingress_history_state option" where
  "ih_set_status time cap m status h =
     (if valid_transition (ih_get_status h m) status then ih_insert m status time cap h else None)"

end
