(* ===== verification/ReplicatedState.thy ===== *)
theory ReplicatedState
  imports CanisterQueues CallContextManager RoutingTable Streams IngressHistory
begin

text \<open>
  The state of a subnet that message routing reads and writes: the system state of a canister
  (\<open>rs/replicated_state/src/canister_state/system_state.rs\<close>), the canister state with its memory
  accounting (\<open>rs/replicated_state/src/canister_state.rs\<close>) and the replicated state with all
  canisters, the queues of the subnet, its streams and the network topology
  (\<open>rs/replicated_state/src/replicated_state.rs\<close>).

  Canister and subnet IDs are principals, of one type. Byte counts are natural numbers; the
  signed amounts of available memory are integers, and \<open>as_i64\<close> is the cast that wraps.
\<close>

section \<open>Numbers and strings\<close>

definition as_i64 :: "nat \<Rightarrow> int" where
  "as_i64 n = sint (of_nat n :: u64)"

text \<open>Decimal numbers, as printed by the standard library.\<close>

fun show_nat :: "nat \<Rightarrow> string" where
  "show_nat n = (if n < 10 then [char_of (48 + n)] else show_nat (n div 10) @ [char_of (48 + n mod 10)])"

declare show_nat.simps [simp del]

definition show_int :: "int \<Rightarrow> string" where
  "show_int i = (if i < 0 then ''-'' @ show_nat (nat (- i)) else show_nat (nat i))"

text \<open>The textual forms of principals and of cycles come from external libraries.\<close>

record 'p display =
  disp_id :: "'p \<Rightarrow> string"
  disp_cycles :: "cycles \<Rightarrow> string"

fun bitcoin_state_error_to_string :: "bitcoin_state_error \<Rightarrow> string" where
  "bitcoin_state_error_to_string FeatureNotEnabled = ''Bitcoin feature not enabled.''"
| "bitcoin_state_error_to_string (BitcoinNonMatchingResponse callback_id) =
     ''Attempted to push a response for callback id '' @ show_nat (unat callback_id)
     @ '' without an in-flight corresponding request''"
| "bitcoin_state_error_to_string (BitcoinQueueFull cap) =
     ''Request can not be enqueued because the queue has reached its capacity of '' @ show_nat (unat cap) @ ''.''"

fun state_error_to_string :: "'p display \<Rightarrow> 'p state_error \<Rightarrow> string" where
  "state_error_to_string d (CanisterNotFound c) = ''Canister '' @ disp_id d c @ '' not found''"
| "state_error_to_string d (QueueFull cap) = ''Maximum queue capacity '' @ show_nat cap @ '' reached''"
| "state_error_to_string d (CanisterStopped c) = ''Canister '' @ disp_id d c @ '' is stopped''"
| "state_error_to_string d (CanisterStopping c) = ''Canister '' @ disp_id d c @ '' is stopping''"
| "state_error_to_string d (CanisterOutOfCycles c available requested threshold) =
     ''Canister '' @ disp_id d c @ '' is out of cycles: requested '' @ disp_cycles d requested
     @ '' cycles but the available balance is '' @ disp_cycles d available
     @ '' cycles and the freezing threshold '' @ disp_cycles d threshold @ '' cycles''"
| "state_error_to_string d (InvariantBroken err) = ''Invariant broken: '' @ err"
| "state_error_to_string d (UnknownSubnetMethod meth) =
     ''Cannot enqueue management message. Method '' @ meth @ '' is unknown.''"
| "state_error_to_string d (NonMatchingResponse err_str orig callback_id resp) =
     ''Cannot enqueue response with callback id '' @ show_nat (unat callback_id) @ '' due to '' @ err_str
     @ '' : originator => '' @ disp_id d orig @ '', respondent => '' @ disp_id d resp"
| "state_error_to_string d InvalidSubnetPayload = ''Cannot enqueue management message. Candid payload is invalid.''"
| "state_error_to_string d (OutOfMemory requested available) =
     ''Cannot enqueue message. Out of memory: requested '' @ show_nat requested @ '', available '' @ show_int available"
| "state_error_to_string d (BitcoinStateError err) = ''Bitcoin state error: '' @ bitcoin_state_error_to_string err"

section \<open>System state of a canister\<close>

datatype subnet_type = Application | System | VerifiedApplication

datatype memory_allocation = Reserved nat | BestEffort

datatype 'p stop_canister_context = StopIngress 'p "u8 list" | StopCanister 'p u64 cycles

datatype 'p canister_status =
    Running "'p call_context_manager"
  | Stopping "'p call_context_manager" "'p stop_canister_context list"
  | Stopped

record 'p system_state =
  sys_controllers :: "'p list"
  sys_canister_id :: 'p
  sys_queues :: "'p canister_queues"
  sys_memory_allocation :: memory_allocation
  sys_status :: "'p canister_status"
  sys_cycles_balance :: cycles
  sys_cycles_debit :: cycles

definition status_new_running :: "'p canister_status" where
  "status_new_running = Running ccm_default"

definition sys_new :: "layout \<Rightarrow> 'p \<Rightarrow> 'p \<Rightarrow> cycles \<Rightarrow> 'p canister_status \<Rightarrow> 'p system_state" where
  "sys_new z canister_id controller initial_cycles status =
     \<lparr>sys_controllers = [controller], sys_canister_id = canister_id, sys_queues = cq_default z,
      sys_memory_allocation = BestEffort, sys_status = status, sys_cycles_balance = initial_cycles,
      sys_cycles_debit = cycles_zero\<rparr>"

definition sys_new_running :: "layout \<Rightarrow> 'p \<Rightarrow> 'p \<Rightarrow> cycles \<Rightarrow> 'p system_state" where
  "sys_new_running z canister_id controller initial_cycles =
     sys_new z canister_id controller initial_cycles status_new_running"

definition sys_new_stopping :: "layout \<Rightarrow> 'p \<Rightarrow> 'p \<Rightarrow> cycles \<Rightarrow> 'p system_state" where
  "sys_new_stopping z canister_id controller initial_cycles =
     sys_new z canister_id controller initial_cycles (Stopping ccm_default [])"

definition sys_new_stopped :: "layout \<Rightarrow> 'p \<Rightarrow> 'p \<Rightarrow> cycles \<Rightarrow> 'p system_state" where
  "sys_new_stopped z canister_id controller initial_cycles =
     sys_new z canister_id controller initial_cycles Stopped"

text \<open>The balance after the pending debit; the subtraction saturates.\<close>

definition sys_debited_balance :: "'p system_state \<Rightarrow> cycles" where
  "sys_debited_balance s = cycles_sub (sys_cycles_balance s) (sys_cycles_debit s)"

definition sys_add_postponed_charge :: "cycles \<Rightarrow> 'p system_state \<Rightarrow> 'p system_state option" where
  "sys_add_postponed_charge charge s =
     (if charge \<le> sys_debited_balance s
      then Some (s\<lparr>sys_cycles_debit := cycles_add (sys_cycles_debit s) charge\<rparr>) else None)"

definition sys_apply_cycles_debit :: "'p system_state \<Rightarrow> 'p system_state" where
  "sys_apply_cycles_debit s =
     s\<lparr>sys_cycles_balance := cycles_sub (sys_cycles_balance s) (sys_cycles_debit s),
       sys_cycles_debit := cycles_zero\<rparr>"

definition sys_call_context_manager :: "'p system_state \<Rightarrow> 'p call_context_manager option" where
  "sys_call_context_manager s =
     (case sys_status s of Running m \<Rightarrow> Some m | Stopping m _ \<Rightarrow> Some m | Stopped \<Rightarrow> None)"

definition sys_push_output_request ::
  "layout \<Rightarrow> 'p::linorder system_state \<Rightarrow> 'p request \<Rightarrow> time
   \<Rightarrow> ('p system_state \<times> (('p state_error \<times> 'p request) + unit)) option" where
  "sys_push_output_request z s msg t =
     (if sender msg \<noteq> sys_canister_id s then None
      else map_option (\<lambda>(q, r). (s\<lparr>sys_queues := q\<rparr>, r)) (cq_push_output_request z (sys_queues s) msg t))"

definition sys_reject_ic00_output_request ::
  "layout \<Rightarrow> 'p::linorder \<Rightarrow> 'p system_state \<Rightarrow> 'p request \<Rightarrow> reject_context
   \<Rightarrow> ('p system_state \<times> ('p state_error + unit)) option" where
  "sys_reject_ic00_output_request z ic00 s request rc =
     (if sender request \<noteq> sys_canister_id s then None
      else map_option (\<lambda>(q, r). (s\<lparr>sys_queues := q\<rparr>, r))
             (cq_reject_ic00_output_request z ic00 (sys_queues s) request rc))"

definition sys_push_output_response ::
  "layout \<Rightarrow> 'p::linorder system_state \<Rightarrow> 'p response \<Rightarrow> 'p system_state option" where
  "sys_push_output_response z s msg =
     (if respondent msg \<noteq> sys_canister_id s then None
      else map_option (\<lambda>q. s\<lparr>sys_queues := q\<rparr>) (cq_push_output_response z (sys_queues s) msg))"

definition sys_pop_input ::
  "layout \<Rightarrow> 'p::linorder system_state \<Rightarrow> ('p canister_input_message option \<times> 'p system_state) option" where
  "sys_pop_input z s = map_option (\<lambda>(m, q). (m, s\<lparr>sys_queues := q\<rparr>)) (cq_pop_input z (sys_queues s))"

definition sys_has_input :: "'p system_state \<Rightarrow> bool" where
  "sys_has_input s \<longleftrightarrow> cq_has_input (sys_queues s)"

text \<open>
  The memory check and accounting around a push into the induction pool. The queues, the available
  memory and the result are returned.
\<close>

definition queues_push_input ::
  "layout \<Rightarrow> 'p::linorder canister_queues \<Rightarrow> 'p request_or_response \<Rightarrow> int \<Rightarrow> int \<Rightarrow> subnet_type \<Rightarrow> input_queue_type
   \<Rightarrow> 'p canister_queues \<times> int \<times> (('p state_error \<times> 'p request_or_response) + unit)" where
  "queues_push_input z queues msg queues_available_memory subnet_available_memory own_subnet_type t =
     (let available_memory = min queues_available_memory subnet_available_memory;
          check = (if own_subnet_type \<noteq> System \<or> t \<noteq> LocalSubnet then can_push z msg available_memory else Inr ())
      in case check of
           Inl required_memory \<Rightarrow>
             (queues, subnet_available_memory, Inl (OutOfMemory required_memory available_memory, msg))
         | Inr _ \<Rightarrow>
             (case cq_push_input z queues msg t of
                (queues1, res) \<Rightarrow>
                  (queues1,
                   subnet_available_memory + int (cq_memory_usage z queues) - int (cq_memory_usage z queues1),
                   res)))"

text \<open>Stopped canisters accept nothing, stopping ones only responses; a wrong receiver panics.\<close>

definition sys_push_input ::
  "layout \<Rightarrow> 'p::linorder system_state \<Rightarrow> 'p request_or_response \<Rightarrow> int \<Rightarrow> int \<Rightarrow> subnet_type \<Rightarrow> input_queue_type
   \<Rightarrow> ('p system_state \<times> int \<times> (('p state_error \<times> 'p request_or_response) + unit)) option" where
  "sys_push_input z s msg canister_available_memory subnet_available_memory own_subnet_type t =
     (if rr_receiver msg \<noteq> sys_canister_id s then None
      else
        let accept = (\<lambda>ccm.
          case (case msg of Response response \<Rightarrow> validate_response ccm response | Request _ \<Rightarrow> Inr ()) of
            Inl err \<Rightarrow> (s, subnet_available_memory, Inl (err, msg))
          | Inr _ \<Rightarrow>
              (case queues_push_input z (sys_queues s) msg canister_available_memory subnet_available_memory
                      own_subnet_type t of
                 (q, avail, res) \<Rightarrow> (s\<lparr>sys_queues := q\<rparr>, avail, res)))
        in Some (case (msg, sys_status s) of
             (_, Stopped) \<Rightarrow> (s, subnet_available_memory, Inl (CanisterStopped (sys_canister_id s), msg))
           | (Request _, Stopping _ _) \<Rightarrow>
               (s, subnet_available_memory, Inl (CanisterStopping (sys_canister_id s), msg))
           | (_, Running ccm) \<Rightarrow> accept ccm
           | (Response _, Stopping ccm _) \<Rightarrow> accept ccm))"

definition sys_push_ingress :: "layout \<Rightarrow> 'p ingress \<Rightarrow> 'p system_state \<Rightarrow> 'p system_state" where
  "sys_push_ingress z msg s = s\<lparr>sys_queues := cq_push_ingress z (sys_queues s) msg\<rparr>"

definition sys_ready_to_stop :: "'p system_state \<Rightarrow> bool" where
  "sys_ready_to_stop s =
     (case sys_status s of
        Running _ \<Rightarrow> False
      | Stopping ccm _ \<Rightarrow> canister_ready_to_stop ccm
      | Stopped \<Rightarrow> True)"

definition sys_memory_usage :: "layout \<Rightarrow> 'p system_state \<Rightarrow> nat" where
  "sys_memory_usage z s = cq_memory_usage z (sys_queues s)"

definition sys_set_stream_responses_size_bytes :: "nat \<Rightarrow> 'p system_state \<Rightarrow> 'p system_state" where
  "sys_set_stream_responses_size_bytes size_bytes s =
     s\<lparr>sys_queues := cq_set_stream_responses_size_bytes size_bytes (sys_queues s)\<rparr>"

definition sys_add_stop_context :: "'p stop_canister_context \<Rightarrow> 'p system_state \<Rightarrow> 'p system_state option" where
  "sys_add_stop_context stop_context s =
     (case sys_status s of
        Running _ \<Rightarrow> None
      | Stopped \<Rightarrow> None
      | Stopping ccm stop_contexts \<Rightarrow> Some (s\<lparr>sys_status := Stopping ccm (stop_contexts @ [stop_context])\<rparr>))"

text \<open>
  The loop that moves messages from the output queue to oneself into the input queue from
  oneself. Its state is the queues, the available memory of the canister, that of the subnet and
  the memory usage of the queues.
\<close>

partial_function (option) induct_to_self_loop ::
  "layout \<Rightarrow> 'p::linorder \<Rightarrow> subnet_type \<Rightarrow> 'p canister_queues \<Rightarrow> int \<Rightarrow> int \<Rightarrow> int
   \<Rightarrow> ('p canister_queues \<times> int) option" where
  "induct_to_self_loop z own own_subnet_type q available_memory subnet_available_memory memory_usage =
     (case cq_peek_output q own of
        None \<Rightarrow> None
      | Some None \<Rightarrow> Some (q, subnet_available_memory)
      | Some (Some msg) \<Rightarrow>
          if own_subnet_type \<noteq> System \<and> \<not> is_ok (can_push z msg available_memory)
          then Some (q, subnet_available_memory)
          else
            case cq_induct_message_to_self z q own of
              None \<Rightarrow> None
            | Some (q1, Inl _) \<Rightarrow> Some (q1, subnet_available_memory)
            | Some (q1, Inr _) \<Rightarrow>
                let memory_usage1 = int (cq_memory_usage z q1) in
                induct_to_self_loop z own own_subnet_type q1
                  (available_memory + memory_usage - memory_usage1)
                  (subnet_available_memory + memory_usage - memory_usage1) memory_usage1)"

definition sys_induct_messages_to_self ::
  "layout \<Rightarrow> 'p::linorder system_state \<Rightarrow> int \<Rightarrow> int \<Rightarrow> subnet_type \<Rightarrow> ('p system_state \<times> int) option" where
  "sys_induct_messages_to_self z s canister_available_memory subnet_available_memory own_subnet_type =
     (case sys_status s of
        Running _ \<Rightarrow>
          map_option (\<lambda>(q, avail). (s\<lparr>sys_queues := q\<rparr>, avail))
            (induct_to_self_loop z (sys_canister_id s) own_subnet_type (sys_queues s)
               (min canister_available_memory subnet_available_memory) subnet_available_memory
               (int (cq_memory_usage z (sys_queues s))))
      | Stopped \<Rightarrow> Some (s, subnet_available_memory)
      | Stopping _ _ \<Rightarrow> Some (s, subnet_available_memory))"

definition sys_garbage_collect_canister_queues ::
  "layout \<Rightarrow> 'p system_state \<Rightarrow> 'p system_state option" where
  "sys_garbage_collect_canister_queues z s =
     map_option (\<lambda>q. s\<lparr>sys_queues := q\<rparr>) (cq_garbage_collect z (sys_queues s))"

definition sys_has_expired_deadlines :: "'p system_state \<Rightarrow> time \<Rightarrow> bool" where
  "sys_has_expired_deadlines s current_time \<longleftrightarrow> cq_has_expired_deadlines (sys_queues s) current_time"

definition sys_time_out_requests ::
  "layout \<Rightarrow> 'p system_state \<Rightarrow> time \<Rightarrow> 'p \<Rightarrow> ('p \<Rightarrow> bool) \<Rightarrow> ('p system_state \<times> nat) option" where
  "sys_time_out_requests z s current_time own_canister_id local_canister =
     map_option (\<lambda>(q, n). (s\<lparr>sys_queues := q\<rparr>, n))
       (cq_time_out_requests z (sys_queues s) current_time own_canister_id local_canister)"

section \<open>Canister state\<close>

definition WASM_PAGE_SIZE_IN_BYTES :: nat where
  "WASM_PAGE_SIZE_IN_BYTES = 64 * 1024"

text \<open>Of the execution state only the sizes matter here.\<close>

record execution_state =
  es_wasm_memory_pages :: nat
  es_stable_memory_pages :: nat
  es_num_exported_globals :: nat
  es_wasm_binary_len :: nat

record 'p canister_state =
  can_system_state :: "'p system_state"
  can_execution_state :: "execution_state option"

definition num_bytes_try_from :: "nat \<Rightarrow> string + nat" where
  "num_bytes_try_from pages =
     (if pages * WASM_PAGE_SIZE_IN_BYTES < 2 ^ 64 then Inr (pages * WASM_PAGE_SIZE_IN_BYTES)
      else Inl ''Could not convert from wasm pages to number of bytes'')"

definition es_memory_usage :: "execution_state \<Rightarrow> nat option" where
  "es_memory_usage es =
     do {
       wasm \<leftarrow> ok_of (num_bytes_try_from (es_wasm_memory_pages es));
       stable \<leftarrow> ok_of (num_bytes_try_from (es_stable_memory_pages es));
       Some (wasm + stable + 8 * es_num_exported_globals es + es_wasm_binary_len es)
     }"

definition can_raw_memory_usage :: "'p canister_state \<Rightarrow> nat option" where
  "can_raw_memory_usage c = (case can_execution_state c of None \<Rightarrow> Some 0 | Some es \<Rightarrow> es_memory_usage es)"

definition can_message_memory_usage :: "layout \<Rightarrow> 'p canister_state \<Rightarrow> nat" where
  "can_message_memory_usage z c = sys_memory_usage z (can_system_state c)"

definition can_memory_usage :: "layout \<Rightarrow> 'p canister_state \<Rightarrow> subnet_type \<Rightarrow> nat option" where
  "can_memory_usage z c own_subnet_type =
     do {
       result \<leftarrow> can_raw_memory_usage c;
       Some (if own_subnet_type \<noteq> System then result + can_message_memory_usage z c else result)
     }"

definition can_memory_limit :: "'p canister_state \<Rightarrow> nat \<Rightarrow> nat" where
  "can_memory_limit c default_limit =
     (case sys_memory_allocation (can_system_state c) of Reserved bytes \<Rightarrow> bytes | BestEffort \<Rightarrow> default_limit)"

definition can_available_message_memory :: "layout \<Rightarrow> 'p canister_state \<Rightarrow> nat \<Rightarrow> subnet_type \<Rightarrow> int option" where
  "can_available_message_memory z c max_canister_memory_size own_subnet_type =
     (if own_subnet_type = System
      then Some (as_i64 max_canister_memory_size - as_i64 (sys_memory_usage z (can_system_state c)))
      else
        do {
          used \<leftarrow> can_memory_usage z c own_subnet_type;
          Some (as_i64 (can_memory_limit c max_canister_memory_size) - as_i64 used)
        })"

definition can_push_input ::
  "layout \<Rightarrow> 'p::linorder canister_state \<Rightarrow> 'p request_or_response \<Rightarrow> nat \<Rightarrow> int \<Rightarrow> subnet_type \<Rightarrow> input_queue_type
   \<Rightarrow> ('p canister_state \<times> int \<times> (('p state_error \<times> 'p request_or_response) + unit)) option" where
  "can_push_input z c msg max_canister_memory_size subnet_available_memory own_subnet_type t =
     do {
       available \<leftarrow> can_available_message_memory z c max_canister_memory_size own_subnet_type;
       (s, avail, res) \<leftarrow> sys_push_input z (can_system_state c) msg available subnet_available_memory own_subnet_type t;
       Some (c\<lparr>can_system_state := s\<rparr>, avail, res)
     }"

definition can_induct_messages_to_self ::
  "layout \<Rightarrow> 'p::linorder canister_state \<Rightarrow> nat \<Rightarrow> int \<Rightarrow> subnet_type \<Rightarrow> ('p canister_state \<times> int) option" where
  "can_induct_messages_to_self z c max_canister_memory_size subnet_available_memory own_subnet_type =
     do {
       available \<leftarrow> can_available_message_memory z c max_canister_memory_size own_subnet_type;
       (s, avail) \<leftarrow> sys_induct_messages_to_self z (can_system_state c) available subnet_available_memory own_subnet_type;
       Some (c\<lparr>can_system_state := s\<rparr>, avail)
     }"

section \<open>Replicated state\<close>

record 'p network_topology =
  nt_subnet_types :: "('p, subnet_type) btree"
  nt_routing_table :: "'p routing_table"
  nt_canister_migrations :: "'p canister_migrations"

record 'p system_metadata =
  md_streams :: "'p streams"
  md_own_subnet_id :: 'p
  md_own_subnet_type :: subnet_type
  md_network_topology :: "'p network_topology"
  md_certification_version :: certification_version
  md_batch_time :: time
  md_ingress_history :: "'p ingress_history_state"
  md_canister_allocation_ranges :: "'p canister_id_range list"
  md_last_generated_canister_id :: "'p option"

record 'p replicated_state =
  rs_canister_states :: "('p, 'p canister_state) btree"
  rs_metadata :: "'p system_metadata"
  rs_subnet_queues :: "'p canister_queues"
  rs_consensus_queue :: "'p response list"

definition rs_put_canister :: "'p::linorder \<Rightarrow> 'p canister_state \<Rightarrow> 'p replicated_state \<Rightarrow> 'p replicated_state" where
  "rs_put_canister c cs s = s\<lparr>rs_canister_states := bt_insert c cs (rs_canister_states s)\<rparr>"

definition rs_get_stream :: "'p replicated_state \<Rightarrow> 'p \<Rightarrow> 'p stream option" where
  "rs_get_stream s destination_subnet_id = ss_get (md_streams (rs_metadata s)) destination_subnet_id"

text \<open>The sums of \<open>raw_total_and_message_memory_taken\<close> over the canisters.\<close>

fun memory_taken :: "layout \<Rightarrow> ('p, 'p canister_state) btree \<Rightarrow> (nat \<times> nat) option" where
  "memory_taken z [] = Some (0, 0)"
| "memory_taken z ((_, c) # cs) =
     do {
       raw \<leftarrow> (case sys_memory_allocation (can_system_state c) of
                 Reserved bytes \<Rightarrow> Some bytes
               | BestEffort \<Rightarrow> can_raw_memory_usage c);
       (raw1, msgs) \<leftarrow> memory_taken z cs;
       Some (raw + raw1, sys_memory_usage z (can_system_state c) + msgs)
     }"

definition rs_raw_total_and_message_memory_taken :: "layout \<Rightarrow> 'p replicated_state \<Rightarrow> (nat \<times> nat) option" where
  "rs_raw_total_and_message_memory_taken z s =
     do {
       (raw, msgs) \<leftarrow> memory_taken z (rs_canister_states s);
       Some (raw, msgs + cq_memory_usage z (rs_subnet_queues s))
     }"

definition rs_total_and_message_memory_taken :: "layout \<Rightarrow> 'p replicated_state \<Rightarrow> (nat \<times> nat) option" where
  "rs_total_and_message_memory_taken z s =
     do {
       (raw, msgs) \<leftarrow> rs_raw_total_and_message_memory_taken z s;
       Some (if md_own_subnet_type (rs_metadata s) \<noteq> System then raw + msgs else raw, msgs)
     }"

definition rs_push_input ::
  "layout \<Rightarrow> 'p::linorder replicated_state \<Rightarrow> 'p request_or_response \<Rightarrow> nat \<Rightarrow> int
   \<Rightarrow> ('p replicated_state \<times> int \<times> (('p state_error \<times> 'p request_or_response) + unit)) option" where
  "rs_push_input z s msg max_canister_memory_size subnet_available_memory =
     (let own_subnet_type = md_own_subnet_type (rs_metadata s);
          own_subnet_id = md_own_subnet_id (rs_metadata s);
          t = (if rr_sender msg = own_subnet_id \<or> bt_contains_key (rs_canister_states s) (rr_sender msg)
               then LocalSubnet else RemoteSubnet)
      in case bt_get (rs_canister_states s) (rr_receiver msg) of
           Some c \<Rightarrow>
             do {
               (c1, avail, res) \<leftarrow> can_push_input z c msg max_canister_memory_size subnet_available_memory own_subnet_type t;
               Some (rs_put_canister (rr_receiver msg) c1 s, avail, res)
             }
         | None \<Rightarrow>
             if rr_receiver msg = own_subnet_id then
               (case queues_push_input z (rs_subnet_queues s) msg subnet_available_memory subnet_available_memory
                       own_subnet_type t of
                  (q, avail, res) \<Rightarrow> Some (s\<lparr>rs_subnet_queues := q\<rparr>, avail, res))
             else Some (s, subnet_available_memory, Inl (CanisterNotFound (rr_receiver msg), msg)))"

text \<open>The ID of the management canister, \<open>IC_00\<close>, is a parameter.\<close>

definition is_subnet_id :: "'p \<Rightarrow> 'p \<Rightarrow> 'p \<Rightarrow> bool" where
  "is_subnet_id ic00 canister_id own_subnet_id \<longleftrightarrow> canister_id = ic00 \<or> canister_id = own_subnet_id"

definition is_addressed_to_subnet :: "'p \<Rightarrow> 'p ingress \<Rightarrow> 'p \<Rightarrow> bool" where
  "is_addressed_to_subnet ic00 msg own_subnet_id \<longleftrightarrow> is_subnet_id ic00 (i_receiver msg) own_subnet_id"

definition rs_push_ingress ::
  "layout \<Rightarrow> 'p \<Rightarrow> 'p::linorder replicated_state \<Rightarrow> 'p ingress \<Rightarrow> 'p replicated_state \<times> ('p state_error + unit)" where
  "rs_push_ingress z ic00 s msg =
     (if is_addressed_to_subnet ic00 msg (md_own_subnet_id (rs_metadata s))
      then (s\<lparr>rs_subnet_queues := cq_push_ingress z (rs_subnet_queues s) msg\<rparr>, Inr ())
      else
        case bt_get (rs_canister_states s) (i_receiver msg) of
          Some c \<Rightarrow>
            (rs_put_canister (i_receiver msg) (c\<lparr>can_system_state := sys_push_ingress z msg (can_system_state c)\<rparr>) s,
             Inr ())
        | None \<Rightarrow> (s, Inl (CanisterNotFound (i_receiver msg))))"

definition rs_pop_subnet_input ::
  "layout \<Rightarrow> 'p::linorder replicated_state \<Rightarrow> ('p canister_input_message option \<times> 'p replicated_state) option" where
  "rs_pop_subnet_input z s =
     map_option (\<lambda>(m, q). (m, s\<lparr>rs_subnet_queues := q\<rparr>)) (cq_pop_input z (rs_subnet_queues s))"

definition rs_push_subnet_output_response ::
  "layout \<Rightarrow> 'p::linorder response \<Rightarrow> 'p replicated_state \<Rightarrow> 'p replicated_state option" where
  "rs_push_subnet_output_response z msg s =
     map_option (\<lambda>q. s\<lparr>rs_subnet_queues := q\<rparr>) (cq_push_output_response z (rs_subnet_queues s) msg)"

text \<open>Streams are taken out of the state, and put back into a state without any.\<close>

definition rs_set_streams :: "'p streams \<Rightarrow> 'p replicated_state \<Rightarrow> 'p replicated_state" where
  "rs_set_streams streams s = s\<lparr>rs_metadata := (rs_metadata s)\<lparr>md_streams := streams\<rparr>\<rparr>"

definition rs_take_streams :: "'p replicated_state \<Rightarrow> 'p streams \<times> 'p replicated_state" where
  "rs_take_streams s = (md_streams (rs_metadata s), rs_set_streams ss_new s)"

definition rs_update_stream_responses_size_bytes :: "'p replicated_state \<Rightarrow> 'p replicated_state" where
  "rs_update_stream_responses_size_bytes s =
     (let sizes = ss_responses_size_bytes (md_streams (rs_metadata s)) in
      s\<lparr>rs_canister_states :=
          map (\<lambda>(canister_id, c).
                 (canister_id,
                  c\<lparr>can_system_state :=
                      sys_set_stream_responses_size_bytes
                        (case bt_get sizes canister_id of Some n \<Rightarrow> n | None \<Rightarrow> 0) (can_system_state c)\<rparr>))
            (rs_canister_states s)\<rparr>)"

definition rs_put_streams :: "'p streams \<Rightarrow> 'p replicated_state \<Rightarrow> 'p replicated_state option" where
  "rs_put_streams streams s =
     (if ss_streams (md_streams (rs_metadata s)) \<noteq> [] then None
      else Some (rs_update_stream_responses_size_bytes (rs_set_streams streams s)))"

fun gc_canisters :: "layout \<Rightarrow> ('p, 'p canister_state) btree \<Rightarrow> ('p, 'p canister_state) btree option" where
  "gc_canisters z [] = Some []"
| "gc_canisters z ((canister_id, c) # cs) =
     do {
       s \<leftarrow> sys_garbage_collect_canister_queues z (can_system_state c);
       cs1 \<leftarrow> gc_canisters z cs;
       Some ((canister_id, c\<lparr>can_system_state := s\<rparr>) # cs1)
     }"

definition rs_garbage_collect_canister_queues :: "layout \<Rightarrow> 'p replicated_state \<Rightarrow> 'p replicated_state option" where
  "rs_garbage_collect_canister_queues z s =
     do {
       cs \<leftarrow> gc_canisters z (rs_canister_states s);
       q \<leftarrow> cq_garbage_collect z (rs_subnet_queues s);
       Some (s\<lparr>rs_canister_states := cs, rs_subnet_queues := q\<rparr>)
     }"

text \<open>
  Timing out requests: the canisters with expired deadlines are removed from the map one after the
  other, processed with the rest of the map as the local canisters, and inserted again.
\<close>

fun time_out_canisters ::
  "layout \<Rightarrow> time \<Rightarrow> 'p::linorder list \<Rightarrow> ('p, 'p canister_state) btree \<Rightarrow> nat
   \<Rightarrow> (('p, 'p canister_state) btree \<times> nat) option" where
  "time_out_canisters z current_time [] cs n = Some (cs, n)"
| "time_out_canisters z current_time (canister_id # ids) cs n =
     do {
       canister \<leftarrow> bt_get cs canister_id;
       let rest = bt_remove canister_id cs;
       (s, k) \<leftarrow> sys_time_out_requests z (can_system_state canister) current_time canister_id (bt_contains_key rest);
       time_out_canisters z current_time ids (bt_insert canister_id (canister\<lparr>can_system_state := s\<rparr>) rest) (n + k)
     }"

definition rs_time_out_requests ::
  "layout \<Rightarrow> 'p::linorder replicated_state \<Rightarrow> time \<Rightarrow> ('p replicated_state \<times> nat) option" where
  "rs_time_out_requests z s current_time =
     (let ids = map fst (filter (\<lambda>(_, c). sys_has_expired_deadlines (can_system_state c) current_time)
                           (rs_canister_states s))
      in map_option (\<lambda>(cs, n). (s\<lparr>rs_canister_states := cs\<rparr>, n))
           (time_out_canisters z current_time ids (rs_canister_states s) 0))"

section \<open>Output iterator\<close>

text \<open>
  The iterator over the output of all canisters and of the subnet. It borrows the queues of the
  state; here it names their owners and reads them from the state.
\<close>

datatype 'p queues_owner = OfSubnet | OfCanister 'p

record 'p state_output_iterator =
  oi_iterators :: "('p queues_owner \<times> 'p output_iterator) list"
  oi_size :: nat

definition owner_queues :: "'p replicated_state \<Rightarrow> 'p queues_owner \<Rightarrow> 'p canister_queues option" where
  "owner_queues s owner =
     (case owner of
        OfSubnet \<Rightarrow> Some (rs_subnet_queues s)
      | OfCanister c \<Rightarrow> map_option (\<lambda>c. sys_queues (can_system_state c)) (bt_get (rs_canister_states s) c))"

definition put_owner_queues ::
  "'p::linorder queues_owner \<Rightarrow> 'p canister_queues \<Rightarrow> 'p replicated_state \<Rightarrow> 'p replicated_state option" where
  "put_owner_queues owner q s =
     (case owner of
        OfSubnet \<Rightarrow> Some (s\<lparr>rs_subnet_queues := q\<rparr>)
      | OfCanister c \<Rightarrow>
          map_option
            (\<lambda>cs. rs_put_canister c (cs\<lparr>can_system_state := (can_system_state cs)\<lparr>sys_queues := q\<rparr>\<rparr>) s)
            (bt_get (rs_canister_states s) c))"

definition oi_compute_size :: "('p queues_owner \<times> 'p output_iterator) list \<Rightarrow> nat" where
  "oi_compute_size its = (\<Sum>(_, it)\<leftarrow>its. it_size it)"

text \<open>The rotation is drawn from a random number generator with the given seed.\<close>

definition oi_new ::
  "(u64 \<Rightarrow> nat \<Rightarrow> nat) \<Rightarrow> 'p replicated_state \<Rightarrow> u64 \<Rightarrow> 'p state_output_iterator option" where
  "oi_new gen_range s seed =
     (let its = filter (\<lambda>(_, it). \<not> it_is_empty it)
                  (map (\<lambda>(owner, c). (OfCanister owner, it_new owner (sys_queues (can_system_state c))))
                     (rs_canister_states s));
          rotation = gen_range seed (max (length its) 1);
          subnet = it_new (md_own_subnet_id (rs_metadata s)) (rs_subnet_queues s)
      in if rotation > length its then None
         else
           let rotated = drop rotation its @ take rotation its;
               its1 = (if \<not> it_is_empty subnet then (OfSubnet, subnet) # rotated else rotated)
           in Some \<lparr>oi_iterators = its1, oi_size = oi_compute_size its1\<rparr>)"

definition oi_next ::
  "layout \<Rightarrow> 'p::linorder state_output_iterator \<Rightarrow> 'p replicated_state
   \<Rightarrow> (('p queue_id \<times> 'p request_or_response) option \<times> 'p state_output_iterator \<times> 'p replicated_state) option"
where
  "oi_next z oi s =
     (case oi_iterators oi of
        [] \<Rightarrow> Some (None, oi, s)
      | (owner, it) # rest \<Rightarrow>
          do {
            q \<leftarrow> owner_queues s owner;
            (r, it1, q1) \<leftarrow> it_pop z it q;
            s1 \<leftarrow> put_owner_queues owner q1 s;
            (case r of
               Some msg \<Rightarrow>
                 do {
                   n \<leftarrow> sub_usize (oi_size oi) 1;
                   Some (Some msg,
                         oi\<lparr>oi_iterators := (if \<not> it_is_empty it1 then rest @ [(owner, it1)] else rest), oi_size := n\<rparr>,
                         s1)
                 }
             | None \<Rightarrow> Some (None, oi\<lparr>oi_iterators := rest\<rparr>, s1))
          })"

definition oi_peek ::
  "'p state_output_iterator \<Rightarrow> 'p replicated_state \<Rightarrow> ('p queue_id \<times> 'p request_or_response) option option" where
  "oi_peek oi s =
     (case oi_iterators oi of
        [] \<Rightarrow> Some None
      | (owner, it) # _ \<Rightarrow> Option.bind (owner_queues s owner) (it_peek it))"

definition oi_exclude_queue ::
  "'p state_output_iterator \<Rightarrow> 'p replicated_state \<Rightarrow> 'p state_output_iterator option" where
  "oi_exclude_queue oi s =
     (case oi_iterators oi of
        [] \<Rightarrow> Some oi
      | (owner, it) # rest \<Rightarrow>
          do {
            q \<leftarrow> owner_queues s owner;
            (k, it1) \<leftarrow> it_exclude_queue it q;
            n \<leftarrow> sub_usize (oi_size oi) k;
            Some (oi\<lparr>oi_iterators := (if \<not> it_is_empty it1 then (owner, it1) # rest else rest), oi_size := n\<rparr>)
          })"

definition rs_output_into_iter ::
  "(u64 \<Rightarrow> nat \<Rightarrow> nat) \<Rightarrow> 'p replicated_state \<Rightarrow> 'p state_output_iterator option" where
  "rs_output_into_iter gen_range s = oi_new gen_range s (md_batch_time (rs_metadata s))"

end
