(* ===== verification/StreamBuilder.thy ===== *)
theory StreamBuilder
  imports ReplicatedState
begin

text \<open>
  The stream builder (\<open>rs/messaging/src/routing/stream_builder.rs\<close>): at the end of a round it moves
  the output messages of all canisters into the streams to the subnets that host the receivers.
  Messages without a route and messages above the size limit are answered or replaced. The size of the \<open>Stream\<close> type in memory is a
  parameter, \<open>szs\<close>, and so is the random number generator that the output iterator uses.
\<close>

definition TARGET_STREAM_SIZE_BYTES :: nat where
  "TARGET_STREAM_SIZE_BYTES = 10 * 1024 * 1024"

definition MAX_STREAM_MESSAGES :: nat where
  "MAX_STREAM_MESSAGES = 50000"

definition SYSTEM_SUBNET_STREAM_MSG_LIMIT :: nat where
  "SYSTEM_SUBNET_STREAM_MSG_LIMIT = 100"

text \<open>A reject response for a request of a local canister; that it is not accepted panics.\<close>

definition reject_local_request ::
  "layout \<Rightarrow> 'p::linorder replicated_state \<Rightarrow> 'p request \<Rightarrow> reject_code \<Rightarrow> string \<Rightarrow> 'p replicated_state option" where
  "reject_local_request z state req reject_code reject_message =
     (case rs_push_input z state
             (Response \<lparr>originator = sender req, respondent = receiver req,
                originator_reply_callback = sender_reply_callback req, refund = payment req,
                response_payload =
                  Reject (new_with_message_length_limit reject_code reject_message MR_SYNTHETIC_REJECT_MESSAGE_MAX_LEN)\<rparr>)
             ((2 ^ 63 - 1) div 2) ((2 ^ 63 - 1) div 2) of
        None \<Rightarrow> None
      | Some (_, _, Inl _) \<Rightarrow> None
      | Some (state1, _, Inr _) \<Rightarrow> Some state1)"

definition is_at_limit :: "nat \<Rightarrow> 'p stream option \<Rightarrow> nat \<Rightarrow> nat \<Rightarrow> bool \<Rightarrow> subnet_type \<Rightarrow> bool" where
  "is_at_limit size_of_Stream stream max_stream_messages target_stream_size_bytes is_local_message destination_subnet_type \<longleftrightarrow>
     (case stream of
        None \<Rightarrow> False
      | Some stream \<Rightarrow>
          let stream_messages_len = siq_len (st_messages stream) in
          if stream_messages_len \<ge> max_stream_messages \<or> st_count_bytes size_of_Stream stream \<ge> target_stream_size_bytes then True
          else \<not> is_local_message \<and> destination_subnet_type = System
               \<and> stream_messages_len \<ge> 2 * SYSTEM_SUBNET_STREAM_MSG_LIMIT)"

text \<open>An oversized response gets a reject payload, or a shorter message if it has one already.\<close>

definition violated_contract :: "'p display \<Rightarrow> 'p \<Rightarrow> nat \<Rightarrow> string" where
  "violated_contract d canister bytes =
     ''Canister '' @ disp_id d canister @ '' violated contract: attempted to send a message of size ''
     @ show_nat bytes @ '' exceeding the limit '' @ show_nat MAX_INTER_CANISTER_PAYLOAD_IN_BYTES"

definition shrink_response :: "layout \<Rightarrow> 'p display \<Rightarrow> 'p response \<Rightarrow> 'p response" where
  "shrink_response z d rep =
     rep\<lparr>response_payload :=
       (case response_payload rep of
          Data _ \<Rightarrow>
            Reject \<lparr>rc_code = CanisterError,
                    rc_message = violated_contract d (respondent rep) (payload_size_bytes z (response_payload rep))\<rparr>
        | Reject context \<Rightarrow>
            Reject (context\<lparr>rc_message :=
              safe_truncate (rc_message context) (5 * 1024) @ ''...'' @ safe_truncate_right (rc_message context) (2 * 1024)\<rparr>))\<rparr>"

record 'p build_state =
  bs_state :: "'p replicated_state"
  bs_streams :: "'p streams"
  bs_iter :: "'p state_output_iterator"
  bs_requests_to_reject :: "'p request list"
  bs_oversized_requests :: "'p request list"

text \<open>Pops the message that was peeked before; that there is none panics.\<close>

definition validated_next :: "layout \<Rightarrow> 'p::linorder build_state \<Rightarrow> ('p request_or_response \<times> 'p build_state) option" where
  "validated_next z b =
     (case oi_next z (bs_iter b) (bs_state b) of
        None \<Rightarrow> None
      | Some (None, _, _) \<Rightarrow> None
      | Some (Some (_, msg), it1, s1) \<Rightarrow> Some (msg, b\<lparr>bs_iter := it1, bs_state := s1\<rparr>))"

definition route_popped ::
  "layout \<Rightarrow> 'p::linorder display \<Rightarrow> 'p \<Rightarrow> 'p \<Rightarrow> 'p request_or_response \<Rightarrow> 'p build_state \<Rightarrow> 'p build_state" where
  "route_popped z d own dst_net_id msg b =
     (case msg of
        Request req \<Rightarrow>
          if dst_net_id \<noteq> own \<and> request_payload_size_bytes req > MAX_INTER_CANISTER_PAYLOAD_IN_BYTES
          then b\<lparr>bs_oversized_requests := bs_oversized_requests b @ [req]\<rparr>
          else b\<lparr>bs_streams := ss_push z dst_net_id msg (bs_streams b)\<rparr>
      | Response rep \<Rightarrow>
          if payload_size_bytes z (response_payload rep) > MAX_INTER_CANISTER_PAYLOAD_IN_BYTES
          then b\<lparr>bs_streams := ss_push z dst_net_id (Response (shrink_response z d rep)) (bs_streams b)\<rparr>
          else b\<lparr>bs_streams := ss_push z dst_net_id msg (bs_streams b)\<rparr>)"

definition route_message ::
  "layout \<Rightarrow> nat \<Rightarrow> (u64 \<Rightarrow> 'p::linorder) \<Rightarrow> 'p display \<Rightarrow> 'p \<Rightarrow> nat \<Rightarrow> nat \<Rightarrow> 'p network_topology \<Rightarrow> 'p queue_id \<Rightarrow> 'p build_state
   \<Rightarrow> 'p build_state option" where
  "route_message z szs fr d own max_stream_messages target_stream_size_bytes nt queue_id b =
     (case rt_route fr (nt_routing_table nt) (dst_canister queue_id) of
        None \<Rightarrow> None
      | Some (Some dst_net_id) \<Rightarrow>
          if is_at_limit szs (ss_get (bs_streams b) dst_net_id) max_stream_messages target_stream_size_bytes
               (own = dst_net_id)
               (case bt_get (nt_subnet_types nt) dst_net_id of Some t \<Rightarrow> t | None \<Rightarrow> Application)
          then map_option (\<lambda>it1. b\<lparr>bs_iter := it1\<rparr>) (oi_exclude_queue (bs_iter b) (bs_state b))
          else map_option (\<lambda>(msg, b1). route_popped z d own dst_net_id msg b1) (validated_next z b)
      | Some None \<Rightarrow>
          map_option
            (\<lambda>(msg, b1). case msg of
               Request req \<Rightarrow> b1\<lparr>bs_requests_to_reject := bs_requests_to_reject b1 @ [req]\<rparr>
             | Response rep \<Rightarrow> b1)
            (validated_next z b))"

text \<open>
  The loop over the output. It stops when the size of the iterator is not below the one before,
  \<open>last_output_size\<close>, which makes it terminate.
\<close>

function build_loop ::
  "layout \<Rightarrow> nat \<Rightarrow> (u64 \<Rightarrow> 'p::linorder) \<Rightarrow> 'p display \<Rightarrow> 'p \<Rightarrow> nat \<Rightarrow> nat \<Rightarrow> 'p network_topology \<Rightarrow> nat \<Rightarrow> 'p build_state
   \<Rightarrow> 'p build_state option" where
  "build_loop z szs fr d own max_msgs target nt last_output_size b =
     (case oi_peek (bs_iter b) (bs_state b) of
        None \<Rightarrow> None
      | Some None \<Rightarrow> Some b
      | Some (Some (queue_id, msg)) \<Rightarrow>
          if oi_size (bs_iter b) \<ge> last_output_size then Some b
          else
            case route_message z szs fr d own max_msgs target nt queue_id b of
              None \<Rightarrow> None
            | Some b1 \<Rightarrow> build_loop z szs fr d own max_msgs target nt (oi_size (bs_iter b)) b1)"
  by pat_completeness auto
termination
  by (relation "measure (\<lambda>(z, szs, fr, d, own, max_msgs, target, nt, last_output_size, b). last_output_size)") auto

declare build_loop.simps [simp del]

fun reject_all ::
  "layout \<Rightarrow> 'p::linorder replicated_state \<Rightarrow> reject_code \<Rightarrow> ('p request \<Rightarrow> string) \<Rightarrow> 'p request list \<Rightarrow> 'p replicated_state option"
where
  "reject_all z state code message [] = Some state"
| "reject_all z state code message (req # reqs) =
     (case reject_local_request z state req code (message req) of
        None \<Rightarrow> None
      | Some state1 \<Rightarrow> reject_all z state1 code message reqs)"

definition build_streams_impl ::
  "layout \<Rightarrow> nat \<Rightarrow> (u64 \<Rightarrow> 'p::linorder) \<Rightarrow> 'p display \<Rightarrow> (u64 \<Rightarrow> nat \<Rightarrow> nat) \<Rightarrow> 'p \<Rightarrow> 'p replicated_state \<Rightarrow> nat \<Rightarrow> nat
   \<Rightarrow> 'p replicated_state option" where
  "build_streams_impl z szs fr d gen_range own state max_stream_messages target_stream_size_bytes =
     (case rs_take_streams state of
        (streams, state1) \<Rightarrow>
          do {
            output_iter \<leftarrow> rs_output_into_iter gen_range state1;
            b \<leftarrow> build_loop z szs fr d own max_stream_messages target_stream_size_bytes
                  (md_network_topology (rs_metadata state1)) (2 ^ 64 - 1)
                  \<lparr>bs_state = state1, bs_streams = streams, bs_iter = output_iter, bs_requests_to_reject = [],
                   bs_oversized_requests = []\<rparr>;
            state2 \<leftarrow>
              reject_all z (bs_state b) DestinationInvalid
                (\<lambda>req. ''No route to canister '' @ disp_id d (receiver req)) (bs_requests_to_reject b);
            state3 \<leftarrow>
              reject_all z state2 CanisterError
                (\<lambda>req. violated_contract d (sender req) (request_payload_size_bytes req)) (bs_oversized_requests b);
            rs_put_streams (bs_streams b) state3
          })"

definition build_streams ::
  "layout \<Rightarrow> nat \<Rightarrow> (u64 \<Rightarrow> 'p::linorder) \<Rightarrow> 'p display \<Rightarrow> (u64 \<Rightarrow> nat \<Rightarrow> nat) \<Rightarrow> 'p \<Rightarrow> 'p replicated_state
   \<Rightarrow> 'p replicated_state option" where
  "build_streams z szs fr d gen_range own state =
     build_streams_impl z szs fr d gen_range own state MAX_STREAM_MESSAGES TARGET_STREAM_SIZE_BYTES"

end
