(* ===== verification/StreamHandler.thy ===== *)
theory StreamHandler
  imports ReplicatedState
begin

text \<open>
  The stream handler of message routing (\<open>rs/messaging/src/routing/stream_handler.rs\<close>): induction
  of the messages of incoming stream slices, signals for them, and garbage collection of the
  outgoing streams. Metrics and log messages are left out; assertions, unwrapped values and the
  fatal log message are panics. The parameters \<open>z\<close>, \<open>fr\<close> and \<open>d\<close> are the sizes of structs, the
  canister ID with a given number, and the textual forms used in reject messages.
\<close>

record 'p stream_handler =
  hd_subnet_id :: 'p
  hd_max_canister_memory_size :: nat
  hd_subnet_memory_capacity :: nat
  hd_subnet_message_memory_capacity :: nat
  hd_testing_flag_generate_reject_signals :: bool

section \<open>Checks\<close>

text \<open>Signals are strictly increasing, and below \<open>signals_end\<close>.\<close>

definition assert_valid_signals :: "stream_index \<Rightarrow> stream_index list \<Rightarrow> bool" where
  "assert_valid_signals signals_end reject_signals \<longleftrightarrow>
     (let shifted = drop 1 reject_signals @ [signals_end] in
      list_all (\<lambda>(x, y). x < y) (zip reject_signals shifted))"

definition assert_valid_signals_for_messages :: "stream_index \<Rightarrow> stream_index \<Rightarrow> stream_index \<Rightarrow> bool" where
  "assert_valid_signals_for_messages signals_end messages_begin messages_end \<longleftrightarrow>
     messages_begin \<le> signals_end \<and> signals_end \<le> messages_end"

definition assert_valid_slice_messages_for_stream ::
  "'p request_or_response stream_indexed_queue option \<Rightarrow> stream_index \<Rightarrow> bool" where
  "assert_valid_slice_messages_for_stream slice_messages stream_signals_end \<longleftrightarrow>
     (case slice_messages of Some messages \<Rightarrow> siq_begin messages = stream_signals_end | None \<Rightarrow> True)"

section \<open>Garbage collection\<close>

definition garbage_collect_messages ::
  "layout \<Rightarrow> 'p::linorder stream_handle \<Rightarrow> stream_index \<Rightarrow> stream_index list
   \<Rightarrow> ('p request_or_response list \<times> 'p stream_handle) option" where
  "garbage_collect_messages z h signals_end reject_signals =
     (if \<not> assert_valid_signals signals_end reject_signals then None
      else if \<not> assert_valid_signals_for_messages signals_end (siq_begin (st_messages (fst h))) (siq_end (st_messages (fst h)))
      then None
      else sh_discard_messages_before z signals_end reject_signals h)"

definition garbage_collect_signals ::
  "'p stream_handle \<Rightarrow> 'p stream_slice \<Rightarrow> 'p stream_handle option" where
  "garbage_collect_signals h stream_slice =
     (if \<not> assert_valid_signals (st_signals_end (fst h)) (st_reject_signals (fst h)) then None
      else if \<not> assert_valid_signals_for_messages (st_signals_end (fst h)) (h_begin (sl_header stream_slice))
                 (case sl_messages stream_slice of Some q \<Rightarrow> siq_end q | None \<Rightarrow> h_end (sl_header stream_slice))
      then None
      else if \<not> assert_valid_slice_messages_for_stream (sl_messages stream_slice) (st_signals_end (fst h)) then None
      else Some (sh_discard_signals_before (h_begin (sl_header stream_slice)) h))"

text \<open>Rejected requests are dropped, rejected responses go to the subnet that hosts the originator.\<close>

fun reroute_rejected_messages ::
  "layout \<Rightarrow> (u64 \<Rightarrow> 'p::linorder) \<Rightarrow> 'p routing_table \<Rightarrow> 'p request_or_response list \<Rightarrow> 'p streams \<Rightarrow> 'p streams option"
where
  "reroute_rejected_messages z fr routing_table [] streams = Some streams"
| "reroute_rejected_messages z fr routing_table (msg # msgs) streams =
     (case msg of
        Request _ \<Rightarrow> reroute_rejected_messages z fr routing_table msgs streams
      | Response response \<Rightarrow>
          do {
            route \<leftarrow> rt_route fr routing_table (originator response);
            new_destination \<leftarrow> route;
            let h = sh_push z (Response response) (ss_get_mut_or_insert z streams new_destination);
            reroute_rejected_messages z fr routing_table msgs (ss_put_handle new_destination h streams)
          })"

fun garbage_collect_slices ::
  "layout \<Rightarrow> (u64 \<Rightarrow> 'p::linorder) \<Rightarrow> 'p routing_table \<Rightarrow> ('p, 'p stream_slice) btree \<Rightarrow> 'p streams
   \<Rightarrow> 'p streams option" where
  "garbage_collect_slices z fr routing_table [] streams = Some streams"
| "garbage_collect_slices z fr routing_table ((remote_subnet, stream_slice) # slices) streams =
     do {
       let header = sl_header stream_slice;
       streams1 \<leftarrow>
         (case ss_get_mut streams remote_subnet of
            Some h \<Rightarrow>
              do {
                (rejected_messages, h1) \<leftarrow>
                  garbage_collect_messages z h (h_signals_end header) (h_reject_signals header);
                h2 \<leftarrow> garbage_collect_signals h1 stream_slice;
                reroute_rejected_messages z fr routing_table rejected_messages (ss_put_handle remote_subnet h2 streams)
              }
          | None \<Rightarrow> if h_signals_end header = 0 \<and> h_begin header = 0 then Some streams else None);
       _ \<leftarrow> (case sl_messages stream_slice of
               Some messages \<Rightarrow> sub_usize (h_end header) (siq_end messages)
             | None \<Rightarrow> sub_usize (h_end header) (h_begin header));
       garbage_collect_slices z fr routing_table slices streams1
     }"

definition garbage_collect_local_state ::
  "layout \<Rightarrow> (u64 \<Rightarrow> 'p::linorder) \<Rightarrow> 'p replicated_state \<Rightarrow> ('p, 'p stream_slice) btree \<Rightarrow> 'p replicated_state option"
where
  "garbage_collect_local_state z fr state stream_slices =
     (case rs_take_streams state of
        (streams, state1) \<Rightarrow>
          do {
            streams1 \<leftarrow>
              garbage_collect_slices z fr (nt_routing_table (md_network_topology (rs_metadata state1))) stream_slices streams;
            rs_put_streams streams1 state1
          })"

section \<open>Induction\<close>

fun reject_code_for_state_error :: "'p state_error \<Rightarrow> reject_code" where
  "reject_code_for_state_error (QueueFull _) = SysTransient"
| "reject_code_for_state_error (CanisterOutOfCycles _ _ _ _) = SysTransient"
| "reject_code_for_state_error (CanisterNotFound _) = DestinationInvalid"
| "reject_code_for_state_error (CanisterStopped _) = CanisterReject"
| "reject_code_for_state_error (CanisterStopping _) = CanisterReject"
| "reject_code_for_state_error (InvariantBroken _) = SysTransient"
| "reject_code_for_state_error (UnknownSubnetMethod _) = CanisterReject"
| "reject_code_for_state_error (NonMatchingResponse _ _ _ _) = SysFatal"
| "reject_code_for_state_error InvalidSubnetPayload = CanisterReject"
| "reject_code_for_state_error (OutOfMemory _ _) = SysTransient"
| "reject_code_for_state_error (BitcoinStateError _) = SysTransient"

fun generate_reject_response ::
  "'p request_or_response \<Rightarrow> reject_code \<Rightarrow> string \<Rightarrow> 'p request_or_response option" where
  "generate_reject_response (Request msg) reject_code message =
     Some (Response \<lparr>originator = sender msg, respondent = receiver msg,
                     originator_reply_callback = sender_reply_callback msg, refund = payment msg,
                     response_payload =
                       Reject (new_with_message_length_limit reject_code message
                         MR_SYNTHETIC_REJECT_MESSAGE_MAX_LEN)\<rparr>)"
| "generate_reject_response (Response _) reject_code message = None"

text \<open>Both subnets are on the path of a migration of the canister.\<close>

definition on_migration_path ::
  "(u64 \<Rightarrow> 'p::linorder) \<Rightarrow> 'p replicated_state \<Rightarrow> 'p \<Rightarrow> 'p \<Rightarrow> 'p \<Rightarrow> bool option" where
  "on_migration_path fr state canister a b =
     map_option
       (\<lambda>t. case t of Some trace \<Rightarrow> a \<in> set trace \<and> b \<in> set trace | None \<Rightarrow> False)
       (cm_lookup fr (nt_canister_migrations (md_network_topology (rs_metadata state))) canister)"

definition should_accept_message_from ::
  "(u64 \<Rightarrow> 'p::linorder) \<Rightarrow> 'p request_or_response \<Rightarrow> 'p \<Rightarrow> 'p replicated_state \<Rightarrow> bool option" where
  "should_accept_message_from fr msg actual_subnet_id state =
     do {
       r \<leftarrow> rt_route fr (nt_routing_table (md_network_topology (rs_metadata state))) (rr_sender msg);
       (case r of
          Some expected_subnet_id \<Rightarrow>
            if expected_subnet_id = actual_subnet_id then Some True
            else on_migration_path fr state (rr_sender msg) actual_subnet_id expected_subnet_id
        | None \<Rightarrow> Some False)
     }"

definition should_reroute_message_to ::
  "(u64 \<Rightarrow> 'p::linorder) \<Rightarrow> 'p stream_handler \<Rightarrow> 'p request_or_response \<Rightarrow> 'p \<Rightarrow> 'p replicated_state \<Rightarrow> bool option"
where
  "should_reroute_message_to fr sh msg actual_receiver_subnet state =
     on_migration_path fr state (rr_receiver msg) actual_receiver_subnet (hd_subnet_id sh)"

text \<open>
  Inducting a message whose receiver is hosted here. A request that is not accepted is answered by
  a reject response; a response that is not accepted is dropped.
\<close>

definition induct_hosted ::
  "layout \<Rightarrow> 'p display \<Rightarrow> 'p::linorder stream_handler \<Rightarrow> 'p request_or_response
   \<Rightarrow> 'p replicated_state \<Rightarrow> 'p stream_handle \<Rightarrow> int \<Rightarrow> ('p replicated_state \<times> 'p stream_handle \<times> int) option" where
  "induct_hosted z d sh msg state stream subnet_available_memory =
     do {
       (state1, avail, res) \<leftarrow> rs_push_input z state msg (hd_max_canister_memory_size sh) subnet_available_memory;
       (case res of
          Inr _ \<Rightarrow> Some (state1, stream, avail)
        | Inl (err, msg1) \<Rightarrow>
            (case msg1 of
               Request _ \<Rightarrow>
                 do {
                   r \<leftarrow> generate_reject_response msg1 (reject_code_for_state_error err) (state_error_to_string d err);
                   Some (state1, sh_push z r stream, avail)
                 }
             | Response _ \<Rightarrow> Some (state1, stream, avail)))
     }"

text \<open>The receiver is migrating: requests get a reject response, responses a reject signal.\<close>

definition induct_migrating ::
  "layout \<Rightarrow> 'p display \<Rightarrow> 'p::linorder stream_handler \<Rightarrow> 'p \<Rightarrow> 'p request_or_response \<Rightarrow> stream_index
   \<Rightarrow> 'p replicated_state \<Rightarrow> 'p stream_handle \<Rightarrow> 'p stream_handle option" where
  "induct_migrating z d sh host_subnet msg stream_index state stream =
     (case msg of
        Request _ \<Rightarrow>
          do {
            r \<leftarrow> generate_reject_response msg SysTransient
                  (''Canister '' @ disp_id d (rr_receiver msg) @ '' is being migrated to/from '' @ disp_id d host_subnet);
            Some (sh_push z r stream)
          }
      | Response _ \<Rightarrow>
          if version_number (md_certification_version (rs_metadata state)) \<ge> version_number V9
             \<or> hd_testing_flag_generate_reject_signals sh
          then sh_push_reject_signal stream_index stream
          else None)"

definition induct_message ::
  "layout \<Rightarrow> (u64 \<Rightarrow> 'p::linorder) \<Rightarrow> 'p display \<Rightarrow> 'p stream_handler \<Rightarrow> 'p request_or_response \<Rightarrow> 'p \<Rightarrow> stream_index
   \<Rightarrow> 'p replicated_state \<Rightarrow> 'p stream_handle \<Rightarrow> int \<Rightarrow> ('p replicated_state \<times> 'p stream_handle \<times> int) option" where
  "induct_message z fr d sh msg remote_subnet_id stream_index state stream subnet_available_memory =
     do {
       accept \<leftarrow> should_accept_message_from fr msg remote_subnet_id state;
       (state1, stream1, avail) \<leftarrow>
         (if accept then
            do {
              receiver_host_subnet \<leftarrow>
                rt_route fr (nt_routing_table (md_network_topology (rs_metadata state))) (rr_receiver msg);
              (case receiver_host_subnet of
                 None \<Rightarrow> Some (state, stream, subnet_available_memory)
               | Some host_subnet \<Rightarrow>
                   if host_subnet = hd_subnet_id sh
                   then induct_hosted z d sh msg state stream subnet_available_memory
                   else
                     do {
                       reroute \<leftarrow> should_reroute_message_to fr sh msg host_subnet state;
                       if reroute then
                         do {
                           h \<leftarrow> induct_migrating z d sh host_subnet msg stream_index state stream;
                           Some (state, h, subnet_available_memory)
                         }
                       else Some (state, stream, subnet_available_memory)
                     })
            }
          else Some (state, stream, subnet_available_memory));
       if st_signals_end (fst stream1) \<noteq> stream_index then None
       else Some (state1, sh_increment_signals_end stream1, avail)
     }"

lemma slice_pop_message_length:
  "slice_pop_message s = (Some m, s1) \<Longrightarrow>
   length (case sl_messages s1 of Some q \<Rightarrow> siq_queue q | None \<Rightarrow> [])
     < length (case sl_messages s of Some q \<Rightarrow> siq_queue q | None \<Rightarrow> [])"
  by (auto simp: slice_pop_message_def siq_pop_def siq_is_empty_def split: option.splits list.splits if_splits)

text \<open>The loop over the messages of a slice.\<close>

function induct_slice ::
  "layout \<Rightarrow> (u64 \<Rightarrow> 'p::linorder) \<Rightarrow> 'p display \<Rightarrow> 'p stream_handler \<Rightarrow> 'p \<Rightarrow> 'p stream_slice
   \<Rightarrow> 'p replicated_state \<Rightarrow> 'p stream_handle \<Rightarrow> int \<Rightarrow> ('p replicated_state \<times> 'p stream_handle \<times> int) option" where
  "induct_slice z fr d sh remote_subnet_id stream_slice state stream avail =
     (case slice_pop_message stream_slice of
        (None, _) \<Rightarrow> Some (state, stream, avail)
      | (Some (stream_index, msg), stream_slice1) \<Rightarrow>
          (case induct_message z fr d sh msg remote_subnet_id stream_index state stream avail of
             None \<Rightarrow> None
           | Some (state1, stream1, avail1) \<Rightarrow>
               induct_slice z fr d sh remote_subnet_id stream_slice1 state1 stream1 avail1))"
  by pat_completeness auto
termination
  by (relation "measure (\<lambda>(z, fr, d, sh, r, s, state, stream, avail).
        length (case sl_messages s of Some q \<Rightarrow> siq_queue q | None \<Rightarrow> []))")
    (auto dest!: sym [of _ "slice_pop_message _"] slice_pop_message_length)

declare induct_slice.simps [simp del]

fun induct_slices ::
  "layout \<Rightarrow> (u64 \<Rightarrow> 'p::linorder) \<Rightarrow> 'p display \<Rightarrow> 'p stream_handler \<Rightarrow> ('p, 'p stream_slice) btree
   \<Rightarrow> 'p replicated_state \<Rightarrow> 'p streams \<Rightarrow> int \<Rightarrow> ('p replicated_state \<times> 'p streams \<times> int) option" where
  "induct_slices z fr d sh [] state streams avail = Some (state, streams, avail)"
| "induct_slices z fr d sh ((remote_subnet_id, stream_slice) # slices) state streams avail =
     do {
       let stream = ss_get_mut_or_insert z streams remote_subnet_id;
       (state1, stream1, avail1) \<leftarrow> induct_slice z fr d sh remote_subnet_id stream_slice state stream avail;
       induct_slices z fr d sh slices state1 (ss_put_handle remote_subnet_id stream1 streams) avail1
     }"

definition induct_stream_slices ::
  "layout \<Rightarrow> (u64 \<Rightarrow> 'p::linorder) \<Rightarrow> 'p display \<Rightarrow> 'p stream_handler \<Rightarrow> 'p replicated_state
   \<Rightarrow> ('p, 'p stream_slice) btree \<Rightarrow> 'p replicated_state option" where
  "induct_stream_slices z fr d sh state stream_slices =
     do {
       (raw_memory_taken, message_memory_taken) \<leftarrow> rs_raw_total_and_message_memory_taken z state;
       let subnet_available_memory =
         as_i64 (hd_subnet_memory_capacity sh) - as_i64 raw_memory_taken - as_i64 message_memory_taken;
       let subnet_available_message_memory =
         as_i64 (hd_subnet_message_memory_capacity sh) - as_i64 message_memory_taken;
       let (streams, state1) = rs_take_streams state;
       (state2, streams1, _) \<leftarrow>
         induct_slices z fr d sh stream_slices state1 streams
           (min subnet_available_memory subnet_available_message_memory);
       rs_put_streams streams1 state2
     }"

text \<open>
  The loopback stream: induct all its messages, then discard them and their signals, and route
  the rejected responses again.
\<close>

definition induct_loopback_stream ::
  "layout \<Rightarrow> (u64 \<Rightarrow> 'p::linorder) \<Rightarrow> 'p display \<Rightarrow> 'p stream_handler \<Rightarrow> 'p replicated_state \<Rightarrow> 'p replicated_state option"
where
  "induct_loopback_stream z fr d sh state =
     (case rs_get_stream state (hd_subnet_id sh) of
        None \<Rightarrow> Some state
      | Some loopback_stream \<Rightarrow>
          if siq_is_empty (st_messages loopback_stream) then Some state
          else if \<not> assert_valid_slice_messages_for_stream (Some (st_messages loopback_stream))
                       (st_signals_end loopback_stream)
          then None
          else
            do {
              state1 \<leftarrow> induct_stream_slices z fr d sh state [(hd_subnet_id sh, st_into_slice loopback_stream)];
              let (streams, state2) = rs_take_streams state1;
              h \<leftarrow> ss_get_mut streams (hd_subnet_id sh);
              let signals_end = st_signals_end (fst h);
              let reject_signals = st_reject_signals (fst h);
              (rejected_messages, h1) \<leftarrow> garbage_collect_messages z h signals_end reject_signals;
              let h2 = sh_discard_signals_before signals_end h1;
              streams1 \<leftarrow>
                reroute_rejected_messages z fr (nt_routing_table (md_network_topology (rs_metadata state2)))
                  rejected_messages (ss_put_handle (hd_subnet_id sh) h2 streams);
              rs_put_streams streams1 state2
            })"

definition process_stream_slices ::
  "layout \<Rightarrow> (u64 \<Rightarrow> 'p::linorder) \<Rightarrow> 'p display \<Rightarrow> 'p stream_handler \<Rightarrow> 'p replicated_state
   \<Rightarrow> ('p, 'p stream_slice) btree \<Rightarrow> 'p replicated_state option" where
  "process_stream_slices z fr d sh state stream_slices =
     do {
       state1 \<leftarrow> induct_loopback_stream z fr d sh state;
       state2 \<leftarrow> garbage_collect_local_state z fr state1 stream_slices;
       induct_stream_slices z fr d sh state2 stream_slices
     }"

end
