(* ===== verification/Streams_Correct.thy ===== *)
theory Streams_Correct
  imports Streams
begin

text \<open>
  Correctness of the streams: an indexed queue is a window on a sequence of messages, garbage
  collection cuts the window and returns exactly the rejected messages, signals stay in order,
  and the byte counts equal what they would be if computed from scratch.
\<close>

section \<open>Maps with the same entries\<close>

lemma bt_ext:
  assumes "bt_wf m" and "bt_wf n" and get: "\<And>k. bt_get m k = bt_get n k"
  shows "m = n"
proof -
  have set: "set m = set n"
    using bt.get_iff_entry [OF assms(1)] bt.get_iff_entry [OF assms(2)] get by auto
  then have keys: "map fst m = map fst n"
    using assms(1,2) by (intro strict_sorted_equal) (simp_all add: bt_wf_def)
  have entries: "l = map (\<lambda>k. (k, the (bt_get l k))) (map fst l)" if "bt_wf l" for l :: "('a, 'b) btree"
  proof -
    have "(fst e, the (bt_get l (fst e))) = e" if "e \<in> set l" for e
      using bt.get_iff_entry [OF \<open>bt_wf l\<close>, of "fst e" "snd e"] that by simp
    then have "map (\<lambda>e. (fst e, the (bt_get l (fst e)))) l = l" by (intro map_idI)
    then show ?thesis by (simp add: comp_def)
  qed
  show ?thesis using entries [OF assms(1)] entries [OF assms(2)] keys get by simp
qed

section \<open>Indexed queues\<close>

lemma siq_defaults [simp]:
  "siq_begin siq_default = 0" "siq_queue siq_default = []" "siq_end siq_default = 0"
  "siq_queue (siq_with_begin b) = []" "siq_begin (siq_with_begin b) = b"
  by (simp_all add: siq_default_def siq_with_begin_def siq_end_def)

lemma siq_push_simps [simp]:
  "siq_begin (siq_push m q) = siq_begin q" "siq_queue (siq_push m q) = siq_queue q @ [m]"
  "siq_end (siq_push m q) = siq_end q + 1"
  by (simp_all add: siq_push_def siq_end_def)

lemma map_snd_siq_iter [simp]: "map snd (siq_iter q) = siq_queue q"
  by (simp add: siq_iter_def)

lemma sum_siq_iter: "(\<Sum>(_, m)\<leftarrow>siq_iter q. f m) = (\<Sum>m\<leftarrow>siq_queue q. f m)"
proof -
  have "map (\<lambda>(_, m). f m) (siq_iter q) = map f (map snd (siq_iter q))" by (simp add: split_def del: map_snd_siq_iter)
  then show ?thesis by simp
qed

lemma discard_loop_eq:
  "b \<le> n \<Longrightarrow> n \<le> b + length xs \<Longrightarrow> discard_loop n b xs = Some (n, drop (n - b) xs)"
  by (induction n b xs rule: discard_loop.induct) (auto simp: Suc_diff_Suc drop_Cons' le_Suc_eq)

lemma siq_discard_before_eq:
  "siq_discard_before n q =
     (if siq_begin q \<le> n \<and> n \<le> siq_end q
      then Some \<lparr>siq_begin = n, siq_queue = drop (n - siq_begin q) (siq_queue q)\<rparr> else None)"
  by (auto simp: siq_discard_before_def discard_loop_eq siq_end_def)

lemma siq_get_slice:
  assumes "siq_slice q b mx = Some s"
  shows "siq_get s i =
    (if b \<le> i \<and> (\<forall>n. mx = Some n \<longrightarrow> i < b + n) then siq_get q i else None)"
  using assms
  by (cases mx) (auto simp: siq_slice_def siq_get_def siq_end_def siq_len_def Let_def split: if_splits)

lemma siq_slice_bounds:
  assumes "siq_slice q b mx = Some s"
  shows "siq_begin s = b" and "siq_begin q \<le> b" and "siq_end s \<le> siq_end q"
  using assms by (auto simp: siq_slice_def siq_end_def Let_def split: if_splits)

section \<open>Garbage collection of messages\<close>

definition next_ok :: "stream_index \<Rightarrow> stream_index \<Rightarrow> stream_index \<Rightarrow> stream_index list \<Rightarrow> bool" where
  "next_ok n b i sg \<longleftrightarrow> b \<le> i \<and> (if i = n \<and> sg = [] then True else sorted_wrt (<) (i # sg))"

lemma next_signal_ok:
  assumes "b \<le> n" and "sorted_wrt (<) sg" and "\<And>i. i \<in> set sg \<Longrightarrow> b \<le> i"
    and "next_signal n sg = (j, js)"
  shows "next_ok n b j js" and "insert j (set js) \<inter> {..<n} = set sg \<inter> {..<n}"
  using assms by (cases sg; force simp: next_signal_def next_ok_def)+

lemma discard_messages_loop_eq:
  assumes "b \<le> n" and "n \<le> b + length xs" and "next_ok n b i sg"
  shows "discard_messages_loop z n b xs ((\<Sum>m\<leftarrow>xs. rr_count_bytes z m) + c) i sg rej =
    Some (n, drop (n - b) xs, (\<Sum>m\<leftarrow>drop (n - b) xs. rr_count_bytes z m) + c,
      rej @ map snd (filter (\<lambda>(k, _). k \<in> insert i (set sg)) (zip [b..<n] xs)))"
  using assms
proof (induction xs arbitrary: b i sg rej)
  case (Cons x xs)
  show ?case
  proof (cases "b < n")
    case True
    have upt: "[b..<n] = b # [Suc b..<n]" using True by (rule upt_conv_Cons)
    have dr: "drop (n - b) (x # xs) = drop (n - Suc b) xs" using True by (simp add: drop_Cons')
    have sz: "sub_usize ((\<Sum>m\<leftarrow>x # xs. rr_count_bytes z m) + c) (rr_count_bytes z x)
        = Some ((\<Sum>m\<leftarrow>xs. rr_count_bytes z m) + c)" by (simp add: sub_usize_Some_iff)
    show ?thesis
    proof (cases "i = b")
      case hit: True
      obtain j js where j: "next_signal n sg = (j, js)" by (cases "next_signal n sg")
      have srt: "sorted_wrt (<) (b # sg)" using Cons.prems(3) hit True by (auto simp: next_ok_def split: if_splits)
      then have ge: "\<And>k. k \<in> set sg \<Longrightarrow> Suc b \<le> k" by auto
      note nx = next_signal_ok [OF _ _ ge j]
      have ok: "next_ok n (Suc b) j js" and s: "insert j (set js) \<inter> {..<n} = set sg \<inter> {..<n}"
        using nx srt True by auto
      have "filter (\<lambda>(k, _). k \<in> insert j (set js)) (zip [Suc b..<n] xs)
          = filter (\<lambda>(k, _). k \<in> insert i (set sg)) (zip [Suc b..<n] xs)"
        using s hit by (intro filter_cong refl) (force dest: set_zip_leftD)
      moreover have "discard_messages_loop z n (Suc b) xs ((\<Sum>m\<leftarrow>xs. rr_count_bytes z m) + c) j js (rej @ [x]) =
        Some (n, drop (n - Suc b) xs, (\<Sum>m\<leftarrow>drop (n - Suc b) xs. rr_count_bytes z m) + c,
          (rej @ [x]) @ map snd (filter (\<lambda>(k, _). k \<in> insert j (set js)) (zip [Suc b..<n] xs)))"
        using Cons.prems True ok by (intro Cons.IH) auto
      ultimately show ?thesis using True hit j sz unfolding dr upt by simp
    next
      case False
      have ok: "next_ok n (Suc b) i sg" using Cons.prems(3) False by (auto simp: next_ok_def)
      have "discard_messages_loop z n (Suc b) xs ((\<Sum>m\<leftarrow>xs. rr_count_bytes z m) + c) i sg rej =
        Some (n, drop (n - Suc b) xs, (\<Sum>m\<leftarrow>drop (n - Suc b) xs. rr_count_bytes z m) + c,
          rej @ map snd (filter (\<lambda>(k, _). k \<in> insert i (set sg)) (zip [Suc b..<n] xs)))"
        using Cons.prems True ok by (intro Cons.IH) auto
      moreover have "b \<notin> set sg" using Cons.prems(3) True by (auto simp: next_ok_def split: if_splits)
      ultimately show ?thesis using True False sz unfolding dr upt by simp
    qed
  next
    case False
    then show ?thesis using Cons.prems by simp
  qed
qed simp

text \<open>The messages of a queue before an index for which there is a reject signal.\<close>

definition rejected_before :: "stream_index \<Rightarrow> stream_index list \<Rightarrow> 'a stream_indexed_queue \<Rightarrow> 'a list" where
  "rejected_before n signals q =
     map snd (filter (\<lambda>(i, _). i < n \<and> i \<in> set signals) (siq_iter q))"

lemma sorted_dropWhile_less:
  "sorted_wrt (<) sg \<Longrightarrow> set (dropWhile (\<lambda>i. i < b) sg) = {i \<in> set sg. b \<le> i}" for b :: nat
  by (induction sg) force+

lemma st_discard_messages_before_eq:
  assumes size: "st_messages_size_bytes s = st_size_bytes z (st_messages s)" and srt: "sorted_wrt (<) signals"
  shows "st_discard_messages_before z n signals s =
    (if siq_begin (st_messages s) \<le> n \<and> n \<le> siq_end (st_messages s) then
       Some (rejected_before n signals (st_messages s),
         s\<lparr>st_messages := \<lparr>siq_begin = n,
               siq_queue = drop (n - siq_begin (st_messages s)) (siq_queue (st_messages s))\<rparr>,
           st_messages_size_bytes := st_size_bytes z \<lparr>siq_begin = n,
               siq_queue = drop (n - siq_begin (st_messages s)) (siq_queue (st_messages s))\<rparr>\<rparr>)
     else None)"
proof (cases "siq_begin (st_messages s) \<le> n \<and> n \<le> siq_end (st_messages s)")
  case True
  define b xs where "b = siq_begin (st_messages s)" and "xs = siq_queue (st_messages s)"
  define sg where "sg = dropWhile (\<lambda>i. i < b) signals"
  obtain j js where j: "next_signal n sg = (j, js)" by (cases "next_signal n sg")
  have len: "b \<le> n" "n \<le> b + length xs" using True by (simp_all add: siq_end_def b_def xs_def)
  have srt': "sorted_wrt (<) sg" unfolding sg_def dropWhile_eq_drop using srt by (rule sorted_wrt_drop)
  have set: "set sg = {i \<in> set signals. b \<le> i}" unfolding sg_def by (rule sorted_dropWhile_less [OF srt])
  have nx: "next_ok n b j js" "insert j (set js) \<inter> {..<n} = set sg \<inter> {..<n}"
    using next_signal_ok [OF len(1) srt' _ j] set by auto
  have loop: "discard_messages_loop z n b xs (\<Sum>m\<leftarrow>xs. rr_count_bytes z m) j js [] =
    Some (n, drop (n - b) xs, (\<Sum>m\<leftarrow>drop (n - b) xs. rr_count_bytes z m),
      map snd (filter (\<lambda>(k, _). k \<in> insert j (set js)) (zip [b..<n] xs)))"
    using discard_messages_loop_eq [OF len nx(1), of z 0 "[]"] by simp
  have split: "siq_iter (st_messages s) = zip [b..<n] xs @ zip [n..<b + length xs] (drop (n - b) xs)"
  proof -
    have "[b..<b + length xs] = [b..<n] @ [n..<b + length xs]"
      using len upt_add_eq_append [of b n "b + length xs - n"] by simp
    moreover have "zip [b..<n] (take (n - b) xs) = zip [b..<n] xs"
      using take_zip [of "n - b" "[b..<n]" xs] by simp
    ultimately show ?thesis using len by (simp add: siq_iter_def b_def [symmetric] xs_def [symmetric] zip_append1)
  qed
  have "filter (\<lambda>(i, _). i < n \<and> i \<in> set signals) (zip [n..<b + length xs] (drop (n - b) xs)) = []"
    by (auto simp: filter_empty_conv dest: set_zip_leftD)
  moreover have "filter (\<lambda>(i, _). i < n \<and> i \<in> set signals) (zip [b..<n] xs)
      = filter (\<lambda>(k, _). k \<in> insert j (set js)) (zip [b..<n] xs)"
    using nx(2) set by (intro filter_cong refl) (force dest: set_zip_leftD)
  ultimately have "rejected_before n signals (st_messages s)
      = map snd (filter (\<lambda>(k, _). k \<in> insert j (set js)) (zip [b..<n] xs))"
    by (simp add: rejected_before_def split)
  then show ?thesis
    using True loop j size
    by (simp add: st_discard_messages_before_def st_size_bytes_def sum_siq_iter Let_def
        b_def [symmetric] xs_def [symmetric] sg_def [symmetric])
qed (auto simp: st_discard_messages_before_def)

section \<open>The invariant of a stream\<close>

definition st_ok :: "layout \<Rightarrow> 'p stream \<Rightarrow> bool" where
  "st_ok z s \<longleftrightarrow>
     st_messages_size_bytes s = st_size_bytes z (st_messages s)
     \<and> sorted_wrt (<) (st_reject_signals s @ [st_signals_end s])"

lemma st_ok_sorted: "st_ok z s \<Longrightarrow> sorted_wrt (<) (st_reject_signals s)"
  by (simp add: st_ok_def sorted_wrt_append)

lemma st_ok_default [simp]: "st_ok z (st_default z)"
  by (simp add: st_ok_def st_default_def)

lemma st_ok_push: "st_ok z s \<Longrightarrow> st_ok z (st_push z m s)"
  by (simp add: st_ok_def st_push_def st_size_bytes_def sum_siq_iter)

lemma st_ok_increment: "st_ok z s \<Longrightarrow> st_ok z (st_increment_signals_end s)"
  by (auto simp: st_ok_def st_increment_signals_end_def sorted_wrt_append)

lemma st_push_reject_signal_eq:
  assumes "st_ok z s"
  shows "st_push_reject_signal i s =
    (if i = st_signals_end s then Some (s\<lparr>st_reject_signals := st_reject_signals s @ [i]\<rparr>) else None)"
  using assms by (auto simp: st_push_reject_signal_def st_ok_def sorted_wrt_append)

lemma st_ok_reject: "st_ok z s \<Longrightarrow>
  st_ok z (st_increment_signals_end (s\<lparr>st_reject_signals := st_reject_signals s @ [st_signals_end s]\<rparr>))"
  by (auto simp: st_ok_def st_increment_signals_end_def sorted_wrt_append)

lemma pop_signals_before_filter:
  "sorted_wrt (<) is \<Longrightarrow> pop_signals_before n is = filter (\<lambda>i. n \<le> i) is"
proof (induction "is")
  case (Cons a "is")
  have "filter (\<lambda>i. n \<le> i) is = is" if "n \<le> a" using Cons.prems that by (intro filter_True) auto
  then show ?case using Cons by auto
qed simp

lemma st_discard_signals_before_eq:
  "st_ok z s \<Longrightarrow> st_discard_signals_before n s = s\<lparr>st_reject_signals := filter (\<lambda>i. n \<le> i) (st_reject_signals s)\<rparr>"
  by (simp add: st_discard_signals_before_def pop_signals_before_filter st_ok_sorted)

lemma st_ok_discard_signals: "st_ok z s \<Longrightarrow> st_ok z (st_discard_signals_before n s)"
  by (auto simp: st_discard_signals_before_eq) (auto simp: st_ok_def sorted_wrt_append intro: sorted_wrt_filter)

lemma st_ok_discard_messages:
  assumes "st_ok z s" and "sorted_wrt (<) signals" and "st_discard_messages_before z n signals s = Some (rej, s')"
  shows "st_ok z s'"
  using assms by (auto simp: st_ok_def st_discard_messages_before_eq split: if_splits)

section \<open>Sizes of responses by respondent\<close>

fun resp_bytes :: "layout \<Rightarrow> 'p \<Rightarrow> 'p request_or_response \<Rightarrow> nat" where
  "resp_bytes z k (Request _) = 0"
| "resp_bytes z k (Response rep) = (if respondent rep = k then rr_count_bytes z (Response rep) else 0)"

definition st_resp_bytes :: "layout \<Rightarrow> 'p \<Rightarrow> 'p stream \<Rightarrow> nat" where
  "st_resp_bytes z k s = (\<Sum>m\<leftarrow>siq_queue (st_messages s). resp_bytes z k m)"

text \<open>A map of sizes that has an entry for the keys with a positive size, and no other.\<close>

definition sizes_ok :: "('p::linorder, nat) btree \<Rightarrow> ('p \<Rightarrow> nat) \<Rightarrow> bool" where
  "sizes_ok st f \<longleftrightarrow> bt_wf st \<and> (\<forall>k. bt_get st k = (if f k = 0 then None else Some (f k)))"

text \<open>Every message takes up some bytes.\<close>

definition sized :: "layout \<Rightarrow> bool" where
  "sized z \<longleftrightarrow> 0 < size_of_RequestOrResponse z"

lemma sized_count_bytes: "sized z \<Longrightarrow> 0 < rr_count_bytes z m"
  by (cases m) (simp_all add: sized_def request_count_bytes_def response_count_bytes_def)

lemma sizes_ok_Nil: "sizes_ok [] (\<lambda>k. 0)"
  by (simp add: sizes_ok_def)

lemma sizes_ok_unique: "sizes_ok st f \<Longrightarrow> sizes_ok st' f \<Longrightarrow> st = st'"
  by (auto simp: sizes_ok_def intro: bt_ext)

lemma sizes_ok_add:
  assumes "sizes_ok st f" and "0 < n"
  shows "sizes_ok (entry_add k n st) (\<lambda>k'. f k' + (if k' = k then n else 0))"
  using assms by (auto simp: sizes_ok_def entry_add_def bt.wf_ins bt.get_ins)

lemma sizes_ok_add_response:
  assumes "sizes_ok st f" and "sized z"
  shows "sizes_ok (add_response z m st) (\<lambda>k. f k + resp_bytes z k m)"
proof (cases m)
  case (Response rep)
  have eq: "(\<lambda>k. f k + resp_bytes z k m)
      = (\<lambda>k. f k + (if k = respondent rep then rr_count_bytes z m else 0))"
    by (auto simp: Response)
  have "sizes_ok (entry_add (respondent rep) (rr_count_bytes z m) st)
      (\<lambda>k. f k + (if k = respondent rep then rr_count_bytes z m else 0))"
    by (rule sizes_ok_add [OF assms(1) sized_count_bytes [OF assms(2)]])
  then show ?thesis unfolding eq by (simp add: Response)
qed (use assms in simp)

lemma sizes_ok_add_responses:
  "sizes_ok st f \<Longrightarrow> sized z \<Longrightarrow>
   sizes_ok (foldl (\<lambda>st (_, m). add_response z m st) st ims) (\<lambda>k. f k + (\<Sum>(_, m)\<leftarrow>ims. resp_bytes z k m))"
proof (induction ims arbitrary: st f)
  case (Cons im ims)
  obtain i m where im: "im = (i, m)" by (cases im)
  show ?case
    using Cons.IH [OF sizes_ok_add_response [OF Cons.prems(1,2), of m] Cons.prems(2)]
    by (simp add: im add.assoc)
qed simp

lemma sizes_ok_calculate_stats:
  assumes "sized z"
  shows "sizes_ok (calculate_stats z m) (\<lambda>k. bt.total (st_resp_bytes z k) m)"
proof -
  have "sizes_ok (foldl (\<lambda>st (_, s). foldl (\<lambda>st (_, m). add_response z m st) st (siq_iter (st_messages s))) st m)
      (\<lambda>k. f k + (\<Sum>e\<leftarrow>m. st_resp_bytes z k (snd e)))" if "sizes_ok st f" for st f
    using that
  proof (induction m arbitrary: st f)
    case (Cons e m)
    obtain d s where e: "e = (d, s)" by (cases e)
    show ?case
      using Cons.IH [OF sizes_ok_add_responses [OF Cons.prems assms, of "siq_iter (st_messages s)"]]
      by (simp add: e add.assoc st_resp_bytes_def sum_siq_iter)
  qed simp
  from this [OF sizes_ok_Nil] show ?thesis by (simp add: calculate_stats_def bt.total_def)
qed

lemma deduct_response_sizes:
  assumes "sizes_ok st f" and "\<And>k. resp_bytes z k (Response rep) \<le> f k" and "sized z"
  shows "\<exists>v v1. bt_get st (respondent rep) = Some v \<and> sub_usize v (rr_count_bytes z (Response rep)) = Some v1
    \<and> sizes_ok (if v1 = 0 then bt_remove (respondent rep) st else bt_insert (respondent rep) v1 st)
        (\<lambda>k. f k - resp_bytes z k (Response rep))"
proof -
  let ?k = "respondent rep" and ?n = "rr_count_bytes z (Response rep)"
  have le: "?n \<le> f ?k" using assms(2) [of ?k] by simp
  have pos: "0 < ?n" by (rule sized_count_bytes [OF assms(3)])
  have get: "bt_get st ?k = Some (f ?k)" using assms(1) le pos by (auto simp: sizes_ok_def)
  have wf: "bt_wf st" using assms(1) by (simp add: sizes_ok_def)
  have ok: "sizes_ok (if f ?k - ?n = 0 then bt_remove ?k st else bt_insert ?k (f ?k - ?n) st)
        (\<lambda>k. f k - resp_bytes z k (Response rep))"
    using assms(1) wf unfolding sizes_ok_def
    by (auto simp: bt.get_ins [OF wf] bt.get_del [OF wf] bt.wf_ins bt.wf_del simp del: rr_count_bytes.simps)
  have "sub_usize (f ?k) ?n = Some (f ?k - ?n)" using le by (simp add: sub_usize_def)
  with get ok show ?thesis by blast
qed

lemma deduct_responses_ok:
  assumes "sizes_ok st f" and "sized z" and "n \<le> b + length xs"
    and "\<And>k. (\<Sum>m\<leftarrow>xs. resp_bytes z k m) \<le> f k"
  shows "\<exists>st'. deduct_responses z n (zip [b..<b + length xs] xs) st = Some st'
    \<and> sizes_ok st' (\<lambda>k. f k - (\<Sum>m\<leftarrow>take (n - b) xs. resp_bytes z k m))"
  using assms
proof (induction xs arbitrary: b st f)
  case (Cons x xs)
  have upt: "[b..<b + length (x # xs)] = b # [Suc b..<Suc b + length xs]" by (simp add: upt_conv_Cons del: upt_Suc)
  show ?case
  proof (cases "b < n")
    case True
    have tk: "take (n - b) (x # xs) = x # take (n - Suc b) xs" using True by (simp add: take_Cons')
    have le: "resp_bytes z k x \<le> f k" "(\<Sum>m\<leftarrow>xs. resp_bytes z k m) \<le> f k - resp_bytes z k x" for k
      using Cons.prems(4) [of k] by simp_all
    have len: "n \<le> Suc b + length xs" using Cons.prems(3) by simp
    show ?thesis
    proof (cases x)
      case (Request req)
      have "\<exists>st'. deduct_responses z n (zip [Suc b..<Suc b + length xs] xs) st = Some st'
        \<and> sizes_ok st' (\<lambda>k. f k - (\<Sum>m\<leftarrow>take (n - Suc b) xs. resp_bytes z k m))"
        using Cons.IH [OF Cons.prems(1,2) len] le(2) by (simp add: Request)
      then show ?thesis unfolding upt tk using True by (simp add: Request)
    next
      case (Response rep)
      obtain v v1 where v: "bt_get st (respondent rep) = Some v"
        "sub_usize v (rr_count_bytes z x) = Some v1"
        "sizes_ok (if v1 = 0 then bt_remove (respondent rep) st else bt_insert (respondent rep) v1 st)
          (\<lambda>k. f k - resp_bytes z k x)"
        using deduct_response_sizes [OF Cons.prems(1) _ Cons.prems(2), of rep] le(1) unfolding Response by blast
      from Cons.IH [OF v(3) Cons.prems(2) len le(2)] show ?thesis
        unfolding upt tk using True v(1,2) by (simp add: Response diff_diff_left del: rr_count_bytes.simps)
    qed
  next
    case False
    then show ?thesis unfolding upt using Cons.prems(1) by simp
  qed
qed simp

section \<open>Handles and the invariant of all streams\<close>

definition sh_ok :: "layout \<Rightarrow> ('p::linorder \<Rightarrow> nat) \<Rightarrow> 'p stream_handle \<Rightarrow> bool" where
  "sh_ok z rest h \<longleftrightarrow> st_ok z (fst h) \<and> sizes_ok (snd h) (\<lambda>k. rest k + st_resp_bytes z k (fst h))"

definition ss_ok :: "layout \<Rightarrow> 'p::linorder streams \<Rightarrow> bool" where
  "ss_ok z s \<longleftrightarrow>
     bt_wf (ss_streams s) \<and> (\<forall>d st. bt_get (ss_streams s) d = Some st \<longrightarrow> st_ok z st)
     \<and> ss_responses_size_bytes s = calculate_stats z (ss_streams s)"

text \<open>The sizes of the responses in all streams but the one to \<open>d\<close>.\<close>

definition other_bytes :: "layout \<Rightarrow> 'p::linorder \<Rightarrow> 'p stream_map \<Rightarrow> 'p \<Rightarrow> nat" where
  "other_bytes z d m k = bt.total (st_resp_bytes z k) m - st_resp_bytes z k (stream_or_default z m d)"

lemma st_resp_bytes_default [simp]: "st_resp_bytes z k (st_default z) = 0"
  by (simp add: st_resp_bytes_def st_default_def)

lemma other_bytes_add:
  assumes "bt_wf m"
  shows "other_bytes z d m k + st_resp_bytes z k (stream_or_default z m d) = bt.total (st_resp_bytes z k) m"
  using bt.total_ge [OF assms, of d _ "st_resp_bytes z k"]
  by (cases "bt_get m d") (simp_all add: other_bytes_def stream_or_default_def)

lemma total_put_stream:
  assumes "bt_wf m"
  shows "bt.total (st_resp_bytes z k) (bt_insert d s m) = other_bytes z d m k + st_resp_bytes z k s"
proof (cases "bt_get m d")
  case None
  then show ?thesis
    using bt.total_ins_new [OF assms, of d "st_resp_bytes z k" s] by (simp add: other_bytes_def stream_or_default_def)
next
  case (Some s')
  then show ?thesis
    using bt.total_ins_old [OF assms Some, of "st_resp_bytes z k" s] other_bytes_add [OF assms, of z d k]
    by (simp add: stream_or_default_def)
qed

lemma ss_ok_new: "ss_ok z ss_new"
  by (simp add: ss_ok_def ss_new_def calculate_stats_def)

lemma ss_handle_ok:
  assumes "ss_ok z s" and "sized z"
  shows "sh_ok z (other_bytes z d (ss_streams s)) (ss_get_mut_or_insert z s d)"
proof -
  have wf: "bt_wf (ss_streams s)" using assms(1) by (simp add: ss_ok_def)
  have "st_ok z (stream_or_default z (ss_streams s) d)"
    using assms(1) by (auto simp: ss_ok_def stream_or_default_def split: option.splits)
  then show ?thesis
    using assms sizes_ok_calculate_stats [OF assms(2), of "ss_streams s"]
    by (simp add: sh_ok_def ss_get_mut_or_insert_def other_bytes_add [OF wf] ss_ok_def)
qed

lemma ss_put_handle_ok:
  assumes "ss_ok z s" and "sized z" and "sh_ok z (other_bytes z d (ss_streams s)) h"
  shows "ss_ok z (ss_put_handle d h s)"
proof -
  have wf: "bt_wf (ss_streams s)" using assms(1) by (simp add: ss_ok_def)
  have "snd h = calculate_stats z (bt_insert d (fst h) (ss_streams s))"
    using assms(3) sizes_ok_calculate_stats [OF assms(2), of "bt_insert d (fst h) (ss_streams s)"]
    by (auto simp: sh_ok_def total_put_stream [OF wf] intro: sizes_ok_unique)
  then show ?thesis
    using assms by (auto simp: ss_ok_def ss_put_handle_def bt.wf_ins bt.get_ins sh_ok_def split: if_splits)
qed

lemma ss_push_handle: "ss_push z d m s = ss_put_handle d (sh_push z m (ss_get_mut_or_insert z s d)) s"
  by (simp add: ss_push_def ss_put_handle_def sh_push_def ss_get_mut_or_insert_def)

lemma ss_get_mut_eq:
  "ss_get_mut s d = Some h \<longleftrightarrow> bt_get (ss_streams s) d \<noteq> None \<and> h = ss_get_mut_or_insert z s d"
  by (auto simp: ss_get_mut_def ss_get_mut_or_insert_def stream_or_default_def split: option.splits)

lemma sh_ok_push: "sh_ok z rest h \<Longrightarrow> sized z \<Longrightarrow> sh_ok z rest (sh_push z m h)"
  using sizes_ok_add_response [of "snd h" "\<lambda>k. rest k + st_resp_bytes z k (fst h)" z m]
    st_ok_push [of z "fst h" m]
  by (simp add: sh_ok_def sh_push_def st_resp_bytes_def st_push_def add.assoc)

lemma sh_ok_same_messages:
  "sh_ok z rest h \<Longrightarrow> st_ok z s \<Longrightarrow> st_messages s = st_messages (fst h) \<Longrightarrow> sh_ok z rest (s, snd h)"
  by (simp add: sh_ok_def st_resp_bytes_def)

lemma sh_ok_increment: "sh_ok z rest h \<Longrightarrow> sh_ok z rest (sh_increment_signals_end h)"
  unfolding sh_increment_signals_end_def
  by (rule sh_ok_same_messages) (auto simp: sh_ok_def st_ok_increment, simp add: st_increment_signals_end_def)

lemma sh_ok_discard_signals: "sh_ok z rest h \<Longrightarrow> sh_ok z rest (sh_discard_signals_before n h)"
  unfolding sh_discard_signals_before_def
  by (rule sh_ok_same_messages) (auto simp: sh_ok_def st_ok_discard_signals, simp add: st_discard_signals_before_def)

lemma sh_discard_messages_ok:
  assumes ok: "sh_ok z rest h" and "sized z" and srt: "sorted_wrt (<) signals"
    and n: "siq_begin (st_messages (fst h)) \<le> n" "n \<le> siq_end (st_messages (fst h))"
  shows "\<exists>h'. sh_discard_messages_before z n signals h = Some (rejected_before n signals (st_messages (fst h)), h')
    \<and> sh_ok z rest h'
    \<and> st_messages (fst h') = \<lparr>siq_begin = n,
         siq_queue = drop (n - siq_begin (st_messages (fst h))) (siq_queue (st_messages (fst h)))\<rparr>
    \<and> st_signals_end (fst h') = st_signals_end (fst h) \<and> st_reject_signals (fst h') = st_reject_signals (fst h)"
proof -
  let ?q = "st_messages (fst h)"
  let ?xs = "siq_queue ?q" and ?b = "siq_begin ?q"
  obtain s' where s': "st_discard_messages_before z n signals (fst h) = Some (rejected_before n signals ?q, s')"
    and st: "st_messages s' = \<lparr>siq_begin = n, siq_queue = drop (n - ?b) ?xs\<rparr>"
      "st_signals_end s' = st_signals_end (fst h)" "st_reject_signals s' = st_reject_signals (fst h)"
    using ok n by (simp add: sh_ok_def st_ok_def st_discard_messages_before_eq [OF _ srt])
  have ok': "st_ok z s'" using st_ok_discard_messages [OF _ srt s'] ok by (simp add: sh_ok_def)
  have split: "(\<Sum>m\<leftarrow>?xs. resp_bytes z k m)
      = (\<Sum>m\<leftarrow>take (n - ?b) ?xs. resp_bytes z k m) + (\<Sum>m\<leftarrow>drop (n - ?b) ?xs. resp_bytes z k m)" for k
    by (metis append_take_drop_id map_append sum_list_append)
  have "\<exists>m'. deduct_responses z n (siq_iter ?q) (snd h) = Some m'
      \<and> sizes_ok m' (\<lambda>k. rest k + st_resp_bytes z k (fst h) - (\<Sum>m\<leftarrow>take (n - ?b) ?xs. resp_bytes z k m))"
    using deduct_responses_ok [of "snd h" _ z n ?b ?xs] ok assms(2) n(2)
    by (simp add: siq_iter_def sh_ok_def siq_end_def st_resp_bytes_def)
  moreover have "rest k + st_resp_bytes z k (fst h) - (\<Sum>m\<leftarrow>take (n - ?b) ?xs. resp_bytes z k m)
      = rest k + st_resp_bytes z k s'" for k
    using split [of k] by (simp add: st_resp_bytes_def st)
  ultimately obtain m' where "deduct_responses z n (siq_iter ?q) (snd h) = Some m'"
    and "sizes_ok m' (\<lambda>k. rest k + st_resp_bytes z k s')" by auto
  with s' ok' st show ?thesis by (simp add: sh_discard_messages_before_def sh_ok_def)
qed

section \<open>The codec of a stream\<close>

lemma foldl_siq_push: "foldl (\<lambda>q m. siq_push m q) q ms = q\<lparr>siq_queue := siq_queue q @ ms\<rparr>"
  by (induction ms arbitrary: q) (simp_all add: siq_push_def)

lemma st_codec:
  assumes codec: "\<And>c. dec (enc c) = Some c" and ok: "st_ok z s"
    and bounds: "siq_begin (st_messages s) < 2 ^ 64" "st_signals_end s < 2 ^ 64"
  shows "st_try_from z dec (st_to_pb enc s) = Some (Inr s)"
proof -
  have pb: "map (\<lambda>(_, m). rr_to_pb enc m) (siq_iter (st_messages s)) = map (rr_to_pb enc) (siq_queue (st_messages s))"
    using map_snd_siq_iter [of "st_messages s", symmetric] by (simp add: split_def del: map_snd_siq_iter)
  have ms: "try_map (rr_try_from dec) (map (rr_to_pb enc) (siq_queue (st_messages s)))
      = Some (Inr (siq_queue (st_messages s)))"
    by (rule try_map_roundtrip) (rule rr_roundtrip [OF codec])
  have "i < 2 ^ 64" if "i \<in> set (st_reject_signals s)" for i
    using ok that bounds(2) by (force simp: st_ok_def sorted_wrt_append)
  then have sig: "map (\<lambda>i. unat (of_nat i :: u64)) (st_reject_signals s) = st_reject_signals s"
    by (intro map_idI) (simp add: unat_of_nat_small)
  have idx: "unat (of_nat (siq_begin (st_messages s)) :: u64) = siq_begin (st_messages s)"
      "unat (of_nat (st_signals_end s) :: u64) = st_signals_end s"
    using bounds by (simp_all add: unat_of_nat_small)
  have q: "(siq_with_begin (siq_begin (st_messages s)))\<lparr>siq_queue := siq_queue (st_messages s)\<rparr> = st_messages s"
    by (simp add: siq_with_begin_def)
  show ?thesis
    using ok by (simp add: Let_def q st_try_from_def st_to_pb_def pb ms sig idx foldl_siq_push comp_def st_ok_def)
qed

end
