(* ===== verification/StreamHandler_Correct.thy ===== *)
theory StreamHandler_Correct
  imports StreamHandler Streams_Correct
begin

text \<open>
  Correctness of the stream handler, phase by phase: what happens to the stream to one subnet when
  messages are routed again, when slices are used for garbage collection, and when slices are
  inducted; and that no phase panics on a well-formed state.
\<close>

section \<open>The stream to one subnet\<close>

abbreviation strm :: "layout \<Rightarrow> 'p streams \<Rightarrow> 'p \<Rightarrow> 'p stream" where
  "strm z s d \<equiv> stream_or_default z (ss_streams s) d"

lemma strm_put_handle:
  "bt_wf (ss_streams s) \<Longrightarrow> strm z (ss_put_handle d h s) e = (if e = d then fst h else strm z s e)"
  by (simp add: stream_or_default_def ss_put_handle_def bt.get_ins)

lemma ss_ok_wf: "ss_ok z s \<Longrightarrow> bt_wf (ss_streams s)"
  by (simp add: ss_ok_def)

lemma ss_ok_strm: "ss_ok z s \<Longrightarrow> st_ok z (strm z s d)"
  by (auto simp: ss_ok_def stream_or_default_def split: option.splits)

lemma get_mut_strm: "ss_get_mut_or_insert z s d = (strm z s d, ss_responses_size_bytes s)"
  by (simp add: ss_get_mut_or_insert_def)

lemma get_mut_cases:
  "ss_get_mut s d = (if bt_get (ss_streams s) d = None then None else Some (ss_get_mut_or_insert z s d))"
  by (auto simp: ss_get_mut_def ss_get_mut_or_insert_def stream_or_default_def split: option.splits)

text \<open>Messages that follow others, all of them responses.\<close>

fun is_response :: "'p request_or_response \<Rightarrow> bool" where
  "is_response (Request _) \<longleftrightarrow> False"
| "is_response (Response _) \<longleftrightarrow> True"

definition appended :: "'p request_or_response list \<Rightarrow> 'p request_or_response list \<Rightarrow> bool" where
  "appended xs ys \<longleftrightarrow> (\<exists>ms. list_all is_response ms \<and> ys = xs @ ms)"

lemma appended_refl [simp]: "appended xs xs"
  by (auto simp: appended_def intro: exI [of _ "[]"])

lemma appended_trans: "appended xs ys \<Longrightarrow> appended ys zs \<Longrightarrow> appended xs zs"
  by (auto simp: appended_def intro: exI [of _ "_ @ _"])

lemma appended_snoc: "is_response m \<Longrightarrow> appended xs (xs @ [m])"
  by (auto simp: appended_def intro: exI [of _ "[m]"])

lemma appended_drop: "appended xs ys \<Longrightarrow> n \<le> length xs \<Longrightarrow> appended (drop n xs) (drop n ys)"
  by (auto simp: appended_def)

lemma appended_length: "appended xs ys \<Longrightarrow> length xs \<le> length ys"
  by (auto simp: appended_def)

text \<open>Responses are appended, nothing else changes.\<close>

definition grows :: "'p stream \<Rightarrow> 'p stream \<Rightarrow> bool" where
  "grows s s' \<longleftrightarrow>
     siq_begin (st_messages s') = siq_begin (st_messages s) \<and> st_signals_end s' = st_signals_end s
     \<and> st_reject_signals s' = st_reject_signals s
     \<and> appended (siq_queue (st_messages s)) (siq_queue (st_messages s'))"

lemma grows_refl [simp]: "grows s s"
  by (simp add: grows_def)

lemma grows_trans: "grows s s' \<Longrightarrow> grows s' s'' \<Longrightarrow> grows s s''"
  by (auto simp: grows_def intro: appended_trans)

lemma grows_push: "is_response m \<Longrightarrow> grows s (st_push z m s)"
  by (simp add: grows_def st_push_def appended_snoc)

section \<open>Messages that can be routed again\<close>

fun routable_msg :: "(u64 \<Rightarrow> 'p::linorder) \<Rightarrow> 'p routing_table \<Rightarrow> 'p request_or_response \<Rightarrow> bool" where
  "routable_msg fr t (Request _) \<longleftrightarrow> True"
| "routable_msg fr t (Response rep) \<longleftrightarrow>
     (case rt_route fr t (originator rep) of Some (Some _) \<Rightarrow> True | _ \<Rightarrow> False)"

definition routable_stream :: "(u64 \<Rightarrow> 'p::linorder) \<Rightarrow> 'p routing_table \<Rightarrow> 'p stream \<Rightarrow> bool" where
  "routable_stream fr t s \<longleftrightarrow> list_all (routable_msg fr t) (siq_queue (st_messages s))"

definition routable :: "(u64 \<Rightarrow> 'p::linorder) \<Rightarrow> 'p routing_table \<Rightarrow> 'p streams \<Rightarrow> bool" where
  "routable fr t s \<longleftrightarrow> (\<forall>d st. bt_get (ss_streams s) d = Some st \<longrightarrow> routable_stream fr t st)"

lemma routable_default [simp]: "routable_stream fr t (st_default z)"
  by (simp add: routable_stream_def st_default_def)

lemma routable_strm: "routable fr t s \<Longrightarrow> routable_stream fr t (strm z s d)"
  by (auto simp: routable_def stream_or_default_def split: option.splits)

lemma routable_put:
  "bt_wf (ss_streams s) \<Longrightarrow> routable fr t s \<Longrightarrow> routable_stream fr t (fst h) \<Longrightarrow> routable fr t (ss_put_handle d h s)"
  by (auto simp: routable_def ss_put_handle_def bt.get_ins)

lemma routable_push:
  "routable_stream fr t s \<Longrightarrow> routable_msg fr t m \<Longrightarrow> routable_stream fr t (st_push z m s)"
  by (simp add: routable_stream_def st_push_def)

lemma rejected_before_subset: "set (rejected_before n signals q) \<subseteq> set (siq_queue q)"
  by (auto simp: rejected_before_def siq_iter_def dest: set_zip_rightD)

lemma reroute_ok:
  assumes "ss_ok z s" and "sized z" and "routable fr t s" and "list_all (routable_msg fr t) msgs"
  shows "\<exists>s'. reroute_rejected_messages z fr t msgs s = Some s' \<and> ss_ok z s' \<and> routable fr t s'
    \<and> (\<forall>d. grows (strm z s d) (strm z s' d)) \<and> dom (bt_get (ss_streams s)) \<subseteq> dom (bt_get (ss_streams s'))"
  using assms
proof (induction msgs arbitrary: s)
  case (Cons m msgs)
  show ?case
  proof (cases m)
    case (Request req)
    then show ?thesis using Cons by simp
  next
    case (Response rep)
    obtain d where d: "rt_route fr t (originator rep) = Some (Some d)"
      using Cons.prems(4) by (auto simp: Response split: option.splits)
    let ?h = "sh_push z m (ss_get_mut_or_insert z s d)"
    let ?s = "ss_put_handle d ?h s"
    note wf = ss_ok_wf [OF Cons.prems(1)]
    have ok: "ss_ok z ?s"
      by (intro ss_put_handle_ok Cons.prems(1,2) sh_ok_push ss_handle_ok)
    have rt: "routable fr t ?s"
      using Cons.prems by (intro routable_put wf) (auto simp: sh_push_def get_mut_strm intro!: routable_push routable_strm)
    have g: "grows (strm z s e) (strm z ?s e)" for e
      by (simp add: strm_put_handle [OF wf] sh_push_def get_mut_strm grows_push Response)
    have dm: "dom (bt_get (ss_streams s)) \<subseteq> dom (bt_get (ss_streams ?s))"
      by (auto simp: ss_put_handle_def bt.get_ins [OF wf])
    obtain s' where s': "reroute_rejected_messages z fr t msgs ?s = Some s'" "ss_ok z s'" "routable fr t s'"
      and g': "\<And>e. grows (strm z ?s e) (strm z s' e)"
      and dm': "dom (bt_get (ss_streams ?s)) \<subseteq> dom (bt_get (ss_streams s'))"
      using Cons.IH [OF ok Cons.prems(2) rt] Cons.prems(4) by auto
    have "reroute_rejected_messages z fr t (m # msgs) s = Some s'" using d s'(1) by (simp add: Response)
    then show ?thesis using s'(2,3) grows_trans [OF g g'] subset_trans [OF dm dm'] by blast
  qed
qed simp

section \<open>Garbage collection\<close>

lemma assert_valid_signals_iff: "assert_valid_signals e rs \<longleftrightarrow> sorted_wrt (<) (rs @ [e])"
proof -
  have zip: "zip rs (drop 1 rs @ [e]) = zip (rs @ [e]) (tl (rs @ [e]))"
  proof (cases rs)
    case (Cons a as)
    have "zip ((a # as) @ [e]) (as @ [e]) = zip (a # as) (as @ [e])"
      by (subst zip_append1) simp
    then show ?thesis by (simp add: Cons)
  qed simp
  have "assert_valid_signals e rs \<longleftrightarrow> successively (<) (rs @ [e])"
    unfolding assert_valid_signals_def Let_def zip zip_tl_all_iff_successively [symmetric] by (simp add: list_all_iff)
  then show ?thesis by (simp add: successively_conv_sorted_wrt transp_on_def)
qed

lemma gc_messages_ok:
  assumes "sh_ok z rest h" and "sized z" and "sorted_wrt (<) (signals @ [n])"
    and "siq_begin (st_messages (fst h)) \<le> n" "n \<le> siq_end (st_messages (fst h))"
  shows "\<exists>h'. garbage_collect_messages z h n signals = Some (rejected_before n signals (st_messages (fst h)), h')
    \<and> sh_ok z rest h'
    \<and> st_messages (fst h') = \<lparr>siq_begin = n,
         siq_queue = drop (n - siq_begin (st_messages (fst h))) (siq_queue (st_messages (fst h)))\<rparr>
    \<and> st_signals_end (fst h') = st_signals_end (fst h) \<and> st_reject_signals (fst h') = st_reject_signals (fst h)"
proof -
  have "sorted_wrt (<) signals" using assms(3) by (simp add: sorted_wrt_append)
  from sh_discard_messages_ok [OF assms(1,2) this assms(4,5)] show ?thesis
    using assms(3-5)
    by (simp add: garbage_collect_messages_def assert_valid_signals_iff assert_valid_signals_for_messages_def)
qed

text \<open>
  A slice can be used for garbage collection with a stream: its signals are for messages of the
  stream, and its messages continue where the signals of the stream end.
\<close>

definition slice_fits :: "'p stream_slice \<Rightarrow> 'p stream \<Rightarrow> bool" where
  "slice_fits sl s \<longleftrightarrow>
     sorted_wrt (<) (h_reject_signals (sl_header sl) @ [h_signals_end (sl_header sl)])
     \<and> siq_begin (st_messages s) \<le> h_signals_end (sl_header sl) \<and> h_signals_end (sl_header sl) \<le> siq_end (st_messages s)
     \<and> h_begin (sl_header sl) \<le> st_signals_end s
     \<and> (case sl_messages sl of
          Some q \<Rightarrow> siq_begin q = st_signals_end s \<and> siq_end q \<le> h_end (sl_header sl)
        | None \<Rightarrow> st_signals_end s \<le> h_end (sl_header sl))"

text \<open>The stream after garbage collection with a header.\<close>

definition collected :: "stream_header \<Rightarrow> 'p stream \<Rightarrow> 'p stream \<Rightarrow> bool" where
  "collected hdr s s' \<longleftrightarrow>
     siq_begin (st_messages s') = h_signals_end hdr \<and> st_signals_end s' = st_signals_end s
     \<and> st_reject_signals s' = filter (\<lambda>i. h_begin hdr \<le> i) (st_reject_signals s)
     \<and> appended (drop (h_signals_end hdr - siq_begin (st_messages s)) (siq_queue (st_messages s)))
          (siq_queue (st_messages s'))"

lemma collected_grows: "collected hdr s s' \<Longrightarrow> grows s' s'' \<Longrightarrow> collected hdr s s''"
  by (auto simp: collected_def grows_def intro: appended_trans)

lemma gc_signals_ok:
  assumes "sh_ok z rest h" and "h_begin (sl_header sl) \<le> st_signals_end (fst h)"
    and "case sl_messages sl of
          Some q \<Rightarrow> siq_begin q = st_signals_end (fst h) \<and> siq_end q \<le> h_end (sl_header sl)
        | None \<Rightarrow> st_signals_end (fst h) \<le> h_end (sl_header sl)"
  shows "garbage_collect_signals h sl = Some (sh_discard_signals_before (h_begin (sl_header sl)) h)"
proof -
  have "assert_valid_signals (st_signals_end (fst h)) (st_reject_signals (fst h))"
    using assms(1) by (simp add: sh_ok_def st_ok_def assert_valid_signals_iff)
  then show ?thesis
    using assms(2,3)
    by (auto simp: garbage_collect_signals_def assert_valid_signals_for_messages_def siq_end_def
        assert_valid_slice_messages_for_stream_def split: option.splits)
qed

lemma gc_one_ok:
  assumes "ss_ok z s" and "sized z" and "routable fr t s" and fits: "slice_fits sl (strm z s d)"
    and "bt_get (ss_streams s) d \<noteq> None"
  shows "\<exists>rej h h'. rej = rejected_before (h_signals_end (sl_header sl)) (h_reject_signals (sl_header sl)) (st_messages (strm z s d))
    \<and> ss_get_mut s d = Some h
    \<and> garbage_collect_messages z h (h_signals_end (sl_header sl)) (h_reject_signals (sl_header sl)) = Some (rej, h')
    \<and> list_all (routable_msg fr t) rej
    \<and> (\<exists>h''. garbage_collect_signals h' sl = Some h'' \<and> collected (sl_header sl) (strm z s d) (fst h'')
         \<and> siq_queue (st_messages (fst h''))
             = drop (h_signals_end (sl_header sl) - siq_begin (st_messages (strm z s d))) (siq_queue (st_messages (strm z s d)))
         \<and> ss_ok z (ss_put_handle d h'' s) \<and> routable fr t (ss_put_handle d h'' s))"
proof -
  let ?h = "ss_get_mut_or_insert z s d" and ?hdr = "sl_header sl"
  note wf = ss_ok_wf [OF assms(1)]
  note ok = ss_handle_ok [OF assms(1,2), of d]
  have fst: "fst ?h = strm z s d" by (simp add: get_mut_strm)
  obtain h' where h': "garbage_collect_messages z ?h (h_signals_end ?hdr) (h_reject_signals ?hdr)
      = Some (rejected_before (h_signals_end ?hdr) (h_reject_signals ?hdr) (st_messages (strm z s d)), h')"
    and ok': "sh_ok z (other_bytes z d (ss_streams s)) h'"
    and st: "st_messages (fst h') = \<lparr>siq_begin = h_signals_end ?hdr,
         siq_queue = drop (h_signals_end ?hdr - siq_begin (st_messages (strm z s d))) (siq_queue (st_messages (strm z s d)))\<rparr>"
      "st_signals_end (fst h') = st_signals_end (strm z s d)"
      "st_reject_signals (fst h') = st_reject_signals (strm z s d)"
    using gc_messages_ok [OF ok assms(2), unfolded fst] fits unfolding slice_fits_def by blast
  have rej: "list_all (routable_msg fr t)
      (rejected_before (h_signals_end ?hdr) (h_reject_signals ?hdr) (st_messages (strm z s d)))"
    using routable_strm [OF assms(3), of z d]
    by (auto simp: routable_stream_def list_all_iff dest!: subsetD [OF rejected_before_subset])
  let ?h'' = "sh_discard_signals_before (h_begin ?hdr) h'"
  have gs: "garbage_collect_signals h' sl = Some ?h''"
    using fits st(2) by (intro gc_signals_ok [OF ok']) (auto simp: slice_fits_def split: option.splits)
  have ok'': "sh_ok z (other_bytes z d (ss_streams s)) ?h''" by (rule sh_ok_discard_signals [OF ok'])
  have eq: "fst ?h'' = (fst h')\<lparr>st_reject_signals := filter (\<lambda>i. h_begin ?hdr \<le> i) (st_reject_signals (fst h'))\<rparr>"
    using ok' by (simp add: sh_discard_signals_before_def sh_ok_def st_discard_signals_before_eq [of z])
  have "collected ?hdr (strm z s d) (fst ?h'')" by (simp add: collected_def eq st)
  moreover have "siq_queue (st_messages (fst ?h''))
      = drop (h_signals_end ?hdr - siq_begin (st_messages (strm z s d))) (siq_queue (st_messages (strm z s d)))"
    by (simp add: eq st)
  moreover have "routable_stream fr t (fst ?h'')"
    using routable_strm [OF assms(3), of z d] by (auto simp: routable_stream_def eq st list_all_iff dest: in_set_dropD)
  moreover have "ss_get_mut s d = Some ?h" using assms(5) by (simp add: get_mut_cases [of s d z])
  ultimately show ?thesis
    using h' rej gs ss_put_handle_ok [OF assms(1,2) ok''] routable_put [OF wf assms(3)] by blast
qed

lemma slice_fits_grows: "slice_fits sl s \<Longrightarrow> grows s s' \<Longrightarrow> slice_fits sl s'"
  by (auto simp: slice_fits_def grows_def siq_end_def dest: appended_length split: option.splits)

lemma grows_collected:
  assumes "grows s s'" and "slice_fits sl s" and "collected (sl_header sl) s' s''"
  shows "collected (sl_header sl) s s''"
proof -
  have "h_signals_end (sl_header sl) - siq_begin (st_messages s) \<le> length (siq_queue (st_messages s))"
    using assms(2) by (auto simp: slice_fits_def siq_end_def)
  then show ?thesis using assms(1,3)
    by (auto simp: grows_def collected_def intro: appended_trans [OF appended_drop])
qed

text \<open>One iteration of the loop over the slices.\<close>

lemma gc_slice_step:
  assumes "ss_ok z s" and "sized z" and "routable fr t s" and fits: "slice_fits sl (strm z s d)"
  shows "\<exists>s'. garbage_collect_slices z fr t ((d, sl) # slices) s = garbage_collect_slices z fr t slices s'
    \<and> ss_ok z s' \<and> routable fr t s' \<and> collected (sl_header sl) (strm z s d) (strm z s' d)
    \<and> (\<forall>e. e \<noteq> d \<longrightarrow> grows (strm z s e) (strm z s' e))"
proof -
  have sub: "\<exists>n. (case sl_messages sl of
               Some messages \<Rightarrow> sub_usize (h_end (sl_header sl)) (siq_end messages)
             | None \<Rightarrow> sub_usize (h_end (sl_header sl)) (h_begin (sl_header sl))) = Some n"
    using fits by (auto simp: slice_fits_def sub_usize_def split: option.splits)
  show ?thesis
  proof (cases "bt_get (ss_streams s) d")
    case None
    have dflt: "strm z s d = st_default z" by (simp add: stream_or_default_def None)
    have "h_signals_end (sl_header sl) = 0" "h_begin (sl_header sl) = 0"
      using fits by (simp_all add: dflt slice_fits_def st_default_def)
    moreover have "collected (sl_header sl) (strm z s d) (strm z s d)"
      using calculation by (simp add: dflt collected_def st_default_def)
    ultimately show ?thesis
      using sub assms by (intro exI [of _ s]) (auto simp: ss_get_mut_def None)
  next
    case (Some st)
    obtain rej h h' h'' where h: "ss_get_mut s d = Some h"
      "garbage_collect_messages z h (h_signals_end (sl_header sl)) (h_reject_signals (sl_header sl)) = Some (rej, h')"
      "garbage_collect_signals h' sl = Some h''" and rej: "list_all (routable_msg fr t) rej"
      and col: "collected (sl_header sl) (strm z s d) (fst h'')"
      and ok: "ss_ok z (ss_put_handle d h'' s)" "routable fr t (ss_put_handle d h'' s)"
      using gc_one_ok [OF assms] Some by blast
    obtain s' where s': "reroute_rejected_messages z fr t rej (ss_put_handle d h'' s) = Some s'"
      "ss_ok z s'" "routable fr t s'" and g: "\<And>e. grows (strm z (ss_put_handle d h'' s) e) (strm z s' e)"
      using reroute_ok [OF ok(1) assms(2) ok(2) rej] by blast
    note put = strm_put_handle [OF ss_ok_wf [OF assms(1)], of z d h'']
    have "collected (sl_header sl) (strm z s d) (strm z s' d)"
      using collected_grows [OF col] g [of d] by (simp add: put)
    moreover have "grows (strm z s e) (strm z s' e)" if "e \<noteq> d" for e
      using g [of e] that by (simp add: put)
    ultimately show ?thesis using sub h s' by (intro exI [of _ s']) auto
  qed
qed

text \<open>The effect of a garbage collection on the stream to each subnet.\<close>

definition collected_by :: "('p, 'p stream_slice) btree \<Rightarrow> 'p \<Rightarrow> 'p stream \<Rightarrow> 'p stream \<Rightarrow> bool" where
  "collected_by slices d s s' \<longleftrightarrow>
     (case bt_get slices d of None \<Rightarrow> grows s s' | Some sl \<Rightarrow> collected (sl_header sl) s s')"

lemma gc_slices_ok:
  assumes "ss_ok z s" and "sized z" and "routable fr t s" and "distinct (map fst slices)"
    and "\<And>d sl. bt_get slices d = Some sl \<Longrightarrow> slice_fits sl (strm z s d)"
  shows "\<exists>s'. garbage_collect_slices z fr t slices s = Some s' \<and> ss_ok z s' \<and> routable fr t s'
    \<and> (\<forall>d. collected_by slices d (strm z s d) (strm z s' d))"
  using assms
proof (induction slices arbitrary: s)
  case (Cons e slices)
  obtain d sl where e: "e = (d, sl)" by (cases e)
  have d: "bt_get slices d = None" using Cons.prems(4) by (simp add: e bt_get_def map_of_eq_None_iff)
  have fits: "slice_fits sl (strm z s d)" using Cons.prems(5) [of d sl] by (simp add: e bt_get_def)
  obtain s1 where s1: "garbage_collect_slices z fr t (e # slices) s = garbage_collect_slices z fr t slices s1"
    "ss_ok z s1" "routable fr t s1" and col: "collected (sl_header sl) (strm z s d) (strm z s1 d)"
    and g: "\<And>e. e \<noteq> d \<Longrightarrow> grows (strm z s e) (strm z s1 e)"
    using gc_slice_step [OF Cons.prems(1-3) fits] unfolding e by blast
  have fits': "slice_fits sl' (strm z s f)" "f \<noteq> d" if "bt_get slices f = Some sl'" for f sl'
  proof -
    show "f \<noteq> d" using that d by auto
    then show "slice_fits sl' (strm z s f)" using that Cons.prems(5) [of f sl'] by (simp add: e bt_get_def)
  qed
  obtain s' where s': "garbage_collect_slices z fr t slices s1 = Some s'" "ss_ok z s'" "routable fr t s'"
    and col': "\<And>f. collected_by slices f (strm z s1 f) (strm z s' f)"
    using Cons.IH [OF s1(2) Cons.prems(2) s1(3)] Cons.prems(4) slice_fits_grows [OF fits'(1) g [OF fits'(2)]] by auto
  have "collected_by (e # slices) f (strm z s f) (strm z s' f)" for f
  proof (cases "f = d")
    case True
    then show ?thesis using col' [of d] col d collected_grows
      by (auto simp: collected_by_def e bt_get_def)
  next
    case False
    then show ?thesis using col' [of f] g [OF False] grows_trans grows_collected [OF g [OF False] fits'(1)]
      by (auto simp: collected_by_def e bt_get_def split: option.splits)
  qed
  then show ?case using s1(1) s' by auto
qed (auto simp: collected_by_def)

section \<open>Pushing into the induction pool\<close>

definition canisters_ok :: "'p::linorder replicated_state \<Rightarrow> bool" where
  "canisters_ok s \<longleftrightarrow>
     bt_wf (rs_canister_states s)
     \<and> (\<forall>k c. bt_get (rs_canister_states s) k = Some c \<longrightarrow>
          sys_canister_id (can_system_state c) = k \<and> can_raw_memory_usage c \<noteq> None)"

lemma cq_push_input_msg: "cq_push_input z q msg t = (q', Inl (e, m)) \<Longrightarrow> m = msg"
  by (auto simp: cq_push_input_def cq_push_selected_def iq_push_def qwr_push_def qwr_push_into_reserved_slot_def
      qwr_check_has_slot_def Let_def
      split: request_or_response.splits prod.splits sum.splits option.splits if_splits)

lemma queues_push_input_msg:
  "queues_push_input z q msg a b ty t = (q', avail, Inl (e, m)) \<Longrightarrow> m = msg"
  by (auto simp: queues_push_input_def Let_def dest: cq_push_input_msg split: sum.splits prod.splits)

definition queues_only ::
  "'p system_state \<Rightarrow> 'p request_or_response \<Rightarrow> 'p system_state \<times> int \<times> ('p state_error \<times> 'p request_or_response + unit) \<Rightarrow> bool"
where
  "queues_only s msg r \<longleftrightarrow> (\<exists>q. fst r = s\<lparr>sys_queues := q\<rparr>) \<and> (\<forall>e m. snd (snd r) = Inl (e, m) \<longrightarrow> m = msg)"

lemma queues_only_err: "queues_only s msg (s, b, Inl (err, msg))"
  by (auto simp: queues_only_def intro: exI [of _ "sys_queues s"])

lemma queues_only_push:
  "queues_only s msg (case queues_push_input z (sys_queues s) msg a b ty t of
     (q, avail, res) \<Rightarrow> (s\<lparr>sys_queues := q\<rparr>, avail, res))"
  by (auto simp: queues_only_def dest: queues_push_input_msg split: prod.splits)

lemma sys_push_input_ok:
  assumes "rr_receiver msg = sys_canister_id s"
  shows "\<exists>q avail res. sys_push_input z s msg a b ty t = Some (s\<lparr>sys_queues := q\<rparr>, avail, res)
    \<and> (\<forall>e m. res = Inl (e, m) \<longrightarrow> m = msg)"
proof -
  have "\<exists>r. sys_push_input z s msg a b ty t = Some r \<and> queues_only s msg r"
    using assms queues_only_err [of s] queues_only_push [of s msg z a b ty t]
    by (auto simp: sys_push_input_def Let_def split: request_or_response.splits canister_status.splits sum.splits)
  then show ?thesis by (auto simp: queues_only_def)
qed

lemma can_push_input_ok:
  assumes "rr_receiver msg = sys_canister_id (can_system_state c)" and "can_raw_memory_usage c \<noteq> None"
  shows "\<exists>q avail res. can_push_input z c msg mx b ty t
      = Some (c\<lparr>can_system_state := (can_system_state c)\<lparr>sys_queues := q\<rparr>\<rparr>, avail, res)
    \<and> (\<forall>e m. res = Inl (e, m) \<longrightarrow> m = msg)"
proof -
  obtain a where a: "can_available_message_memory z c mx ty = Some a"
    using assms(2) by (cases "ty = System") (auto simp: can_available_message_memory_def can_memory_usage_def)
  show ?thesis
    using sys_push_input_ok [OF assms(1), of z a b ty t] by (auto simp: can_push_input_def a)
qed

lemma rs_push_input_ok:
  assumes "canisters_ok s"
  shows "\<exists>s' avail res. rs_push_input z s msg mx b = Some (s', avail, res) \<and> canisters_ok s'
    \<and> rs_metadata s' = rs_metadata s \<and> (\<forall>e m. res = Inl (e, m) \<longrightarrow> m = msg)"
proof (cases "bt_get (rs_canister_states s) (rr_receiver msg)")
  case None
  obtain q avail res where q: "queues_push_input z (rs_subnet_queues s) msg b b (md_own_subnet_type (rs_metadata s))
      (if rr_sender msg = md_own_subnet_id (rs_metadata s) \<or> bt_contains_key (rs_canister_states s) (rr_sender msg)
       then LocalSubnet else RemoteSubnet) = (q, avail, res)"
    by (metis prod_cases3)
  show ?thesis
    using assms queues_push_input_msg [of z "rs_subnet_queues s" msg b b] q
    by (auto simp: rs_push_input_def None Let_def canisters_ok_def)
next
  case (Some c)
  define t where "t = (if rr_sender msg = md_own_subnet_id (rs_metadata s)
      \<or> bt_contains_key (rs_canister_states s) (rr_sender msg) then LocalSubnet else RemoteSubnet)"
  have c: "rr_receiver msg = sys_canister_id (can_system_state c)" "can_raw_memory_usage c \<noteq> None"
    using assms Some by (auto simp: canisters_ok_def)
  obtain q avail res where q: "can_push_input z c msg mx b (md_own_subnet_type (rs_metadata s)) t
      = Some (c\<lparr>can_system_state := (can_system_state c)\<lparr>sys_queues := q\<rparr>\<rparr>, avail, res)"
    "\<forall>e m. res = Inl (e, m) \<longrightarrow> m = msg"
    using can_push_input_ok [OF c] by blast
  have "canisters_ok (rs_put_canister (rr_receiver msg) (c\<lparr>can_system_state := (can_system_state c)\<lparr>sys_queues := q\<rparr>\<rparr>) s)"
    using assms c by (auto simp: canisters_ok_def rs_put_canister_def bt.wf_ins bt.get_ins can_raw_memory_usage_def)
  then show ?thesis
    using q by (auto simp: rs_push_input_def Some Let_def t_def [symmetric] rs_put_canister_def)
qed

section \<open>Inducting a message\<close>

text \<open>A reject response answers a request: it goes back with the callback and all cycles.\<close>

definition answers :: "'p request \<Rightarrow> 'p response \<Rightarrow> bool" where
  "answers req rep \<longleftrightarrow>
     originator rep = sender req \<and> respondent rep = receiver req
     \<and> originator_reply_callback rep = sender_reply_callback req \<and> refund rep = payment req
     \<and> (\<exists>c m. response_payload rep = Reject \<lparr>rc_code = c, rc_message = m\<rparr>)"

text \<open>
  The outcomes of inducting a message: a signal for it, and possibly a reject response to a
  request, or that the signal for a response is a reject signal.
\<close>

definition outcome :: "'p request_or_response \<Rightarrow> 'p stream \<Rightarrow> 'p stream \<Rightarrow> bool" where
  "outcome msg s s' \<longleftrightarrow>
     siq_begin (st_messages s') = siq_begin (st_messages s) \<and> st_signals_end s' = st_signals_end s
     \<and> (\<exists>replies. siq_queue (st_messages s') = siq_queue (st_messages s) @ replies
         \<and> (st_reject_signals s' = st_reject_signals s
              \<and> (replies = [] \<or> (\<exists>req rep. msg = Request req \<and> replies = [Response rep] \<and> answers req rep))
            \<or> st_reject_signals s' = st_reject_signals s @ [st_signals_end s]
              \<and> replies = [] \<and> (\<exists>rep. msg = Response rep)))"

definition signalled :: "'p request_or_response \<Rightarrow> 'p stream \<Rightarrow> 'p stream \<Rightarrow> bool" where
  "signalled msg s s' \<longleftrightarrow> (\<exists>t. outcome msg s t \<and> s' = st_increment_signals_end t)"

lemma outcome_refl [simp]: "outcome msg s s"
  by (simp add: outcome_def)

lemma generate_reject_response_answers:
  "\<exists>rep. generate_reject_response (Request req) c m = Some (Response rep) \<and> answers req rep"
  by (auto simp: answers_def new_with_message_length_limit_def reject_context_new_def)

lemma outcome_push:
  "answers req rep \<Longrightarrow> outcome (Request req) s (st_push z (Response rep) s)"
  by (auto simp: outcome_def st_push_def)

definition topology_total :: "(u64 \<Rightarrow> 'p::linorder) \<Rightarrow> 'p network_topology \<Rightarrow> bool" where
  "topology_total fr nt \<longleftrightarrow>
     (\<forall>p. rt_route fr (nt_routing_table nt) p \<noteq> None) \<and> (\<forall>p. cm_lookup fr (nt_canister_migrations nt) p \<noteq> None)"

definition can_reject :: "'p stream_handler \<Rightarrow> 'p replicated_state \<Rightarrow> bool" where
  "can_reject sh s \<longleftrightarrow>
     version_number (md_certification_version (rs_metadata s)) \<ge> version_number V9
     \<or> hd_testing_flag_generate_reject_signals sh"

text \<open>What holds after the body of \<open>induct_message\<close>, with the sender known to the routing table.\<close>

definition body_ok ::
  "layout \<Rightarrow> ('p::linorder \<Rightarrow> nat) \<Rightarrow> 'p request_or_response \<Rightarrow> 'p replicated_state \<Rightarrow> 'p stream_handle
   \<Rightarrow> 'p replicated_state \<times> 'p stream_handle \<times> int \<Rightarrow> bool" where
  "body_ok z rest msg s h r \<longleftrightarrow>
     canisters_ok (fst r) \<and> rs_metadata (fst r) = rs_metadata s
     \<and> sizes_ok (snd (fst (snd r))) (\<lambda>k. rest k + st_resp_bytes z k (fst (fst (snd r))))
     \<and> outcome msg (fst h) (fst (fst (snd r)))
     \<and> st_ok z (st_increment_signals_end (fst (fst (snd r))))"

lemma body_ok_same:
  "canisters_ok s \<Longrightarrow> sh_ok z rest h \<Longrightarrow> body_ok z rest msg s h (s, h, avail)"
  by (auto simp: body_ok_def sh_ok_def st_ok_increment)

lemma body_ok_push:
  assumes "canisters_ok s'" and "rs_metadata s' = rs_metadata s" and "sh_ok z rest h" and "sized z" and "answers req rep"
  shows "body_ok z rest (Request req) s h (s', sh_push z (Response rep) h, avail)"
  using assms sh_ok_push [OF assms(3,4), of "Response rep"] outcome_push [OF assms(5), of "fst h" z]
  by (auto simp: body_ok_def sh_ok_def sh_push_def st_ok_increment)

lemma induct_hosted_ok:
  assumes "canisters_ok s" and "sh_ok z rest h" and "sized z"
  shows "\<exists>r. induct_hosted z d sh msg s h avail = Some r \<and> body_ok z rest msg s h r"
proof -
  obtain s' a res where push: "rs_push_input z s msg (hd_max_canister_memory_size sh) avail = Some (s', a, res)"
    and s': "canisters_ok s'" "rs_metadata s' = rs_metadata s" and msg: "\<And>e m. res = Inl (e, m) \<Longrightarrow> m = msg"
    using rs_push_input_ok [OF assms(1)] by blast
  have same: "body_ok z rest msg s h (s', h, a)"
    using s' assms(2) body_ok_same [OF s'(1) assms(2)] by (simp add: body_ok_def)
  show ?thesis
  proof (cases res)
    case (Inl em)
    obtain e where em: "em = (e, msg)" using msg Inl by (cases em) auto
    show ?thesis
    proof (cases msg)
      case (Request req)
      obtain rep where rep: "generate_reject_response (Request req) (reject_code_for_state_error e)
          (state_error_to_string d e) = Some (Response rep)" "answers req rep"
        using generate_reject_response_answers by blast
      then show ?thesis
        using push Inl em Request body_ok_push [OF s' assms(2,3) rep(2)] by (simp add: induct_hosted_def)
    next
      case (Response rep)
      then show ?thesis using push Inl em same by (simp add: induct_hosted_def)
    qed
  next
    case (Inr u)
    then show ?thesis using push same by (simp add: induct_hosted_def)
  qed
qed

lemma induct_migrating_ok:
  assumes "canisters_ok s" and "sh_ok z rest h" and "sized z" and "can_reject sh s"
    and "st_signals_end (fst h) = i"
  shows "\<exists>h'. induct_migrating z d sh host msg i s h = Some h' \<and> body_ok z rest msg s h (s, h', avail)"
proof (cases msg)
  case (Request req)
  obtain rep where rep: "generate_reject_response (Request req) SysTransient
      (''Canister '' @ disp_id d (rr_receiver msg) @ '' is being migrated to/from '' @ disp_id d host) = Some (Response rep)"
    "answers req rep"
    using generate_reject_response_answers by blast
  then show ?thesis
    using body_ok_push [OF assms(1) refl assms(2,3) rep(2)] by (simp add: induct_migrating_def Request)
next
  case (Response rep)
  let ?s = "(fst h)\<lparr>st_reject_signals := st_reject_signals (fst h) @ [i]\<rparr>"
  have ok: "st_ok z (fst h)" using assms(2) by (simp add: sh_ok_def)
  have "induct_migrating z d sh host msg i s h = Some (?s, snd h)"
    using assms(4,5) by (simp add: induct_migrating_def Response can_reject_def sh_push_reject_signal_def
        st_push_reject_signal_eq [OF ok])
  moreover have "body_ok z rest msg s h (s, (?s, snd h), avail)"
    using assms(1,2) st_ok_reject [OF ok] assms(5)
    by (simp add: body_ok_def sh_ok_def outcome_def Response st_resp_bytes_def)
  ultimately show ?thesis by blast
qed

text \<open>The body of \<open>induct_message\<close>, once the routing table and the migrations have been looked up.\<close>

definition induct_body ::
  "layout \<Rightarrow> 'p::linorder display \<Rightarrow> 'p stream_handler \<Rightarrow> 'p request_or_response \<Rightarrow> stream_index \<Rightarrow> bool \<Rightarrow> 'p option
   \<Rightarrow> ('p \<Rightarrow> bool) \<Rightarrow> 'p replicated_state \<Rightarrow> 'p stream_handle \<Rightarrow> int \<Rightarrow> ('p replicated_state \<times> 'p stream_handle \<times> int) option" where
  "induct_body z d sh msg i accept host reroute s h avail =
     (if accept then
        (case host of
           None \<Rightarrow> Some (s, h, avail)
         | Some host \<Rightarrow>
             if host = hd_subnet_id sh then induct_hosted z d sh msg s h avail
             else if reroute host then
               Option.bind (induct_migrating z d sh host msg i s h) (\<lambda>h. Some (s, h, avail))
             else Some (s, h, avail))
      else Some (s, h, avail))"

lemma induct_body_ok:
  assumes "canisters_ok s" and "sh_ok z rest h" and "sized z" and "can_reject sh s" and "st_signals_end (fst h) = i"
  shows "\<exists>r. induct_body z d sh msg i accept host reroute s h avail = Some r \<and> body_ok z rest msg s h r
    \<and> (\<not> accept \<longrightarrow> r = (s, h, avail))"
proof -
  have same: "body_ok z rest msg s h (s, h, avail)" by (rule body_ok_same [OF assms(1,2)])
  consider "\<not> accept \<or> host = None" | "accept" "host = Some (hd_subnet_id sh)"
    | host' where "accept" "host = Some host'" "host' \<noteq> hd_subnet_id sh"
    by (cases host) auto
  then show ?thesis
  proof cases
    case 1
    then have "induct_body z d sh msg i accept host reroute s h avail = Some (s, h, avail)" by (auto simp: induct_body_def)
    then show ?thesis using same by blast
  next
    case 2
    then show ?thesis using induct_hosted_ok [OF assms(1-3)] by (simp add: induct_body_def)
  next
    case 3
    obtain h' where "induct_migrating z d sh host' msg i s h = Some h'" "body_ok z rest msg s h (s, h', avail)"
      using induct_migrating_ok [OF assms] by blast
    then show ?thesis using 3 same by (cases "reroute host'") (simp_all add: induct_body_def)
  qed
qed

lemma induct_message_body:
  assumes top: "topology_total fr (md_network_topology (rs_metadata s))"
  shows "\<exists>accept host reroute. induct_message z fr d sh msg remote i s h avail =
      Option.bind (induct_body z d sh msg i accept host reroute s h avail)
        (\<lambda>(s1, h1, a). if st_signals_end (fst h1) \<noteq> i then None else Some (s1, sh_increment_signals_end h1, a))
    \<and> (accept \<longrightarrow> (\<exists>e. rt_route fr (nt_routing_table (md_network_topology (rs_metadata s))) (rr_sender msg) = Some (Some e)))"
proof -
  let ?rt = "nt_routing_table (md_network_topology (rs_metadata s))"
  obtain o1 o2 where route: "rt_route fr ?rt (rr_sender msg) = Some o1" "rt_route fr ?rt (rr_receiver msg) = Some o2"
    using top unfolding topology_total_def by (meson not_None_eq)
  have path: "\<exists>b. on_migration_path fr s c x y = Some b" for c x y
    using top by (auto simp: topology_total_def on_migration_path_def)
  have "\<exists>b. should_accept_message_from fr msg remote s = Some b \<and> (b \<longrightarrow> o1 \<noteq> None)"
    using route(1) path [of "rr_sender msg" remote "the o1"] by (cases o1) (auto simp: should_accept_message_from_def)
  then obtain b where b: "should_accept_message_from fr msg remote s = Some b" "b \<longrightarrow> o1 \<noteq> None" by blast
  define reroute where "reroute host = the (should_reroute_message_to fr sh msg host s)" for host
  have reroute: "should_reroute_message_to fr sh msg host s = Some (reroute host)" for host
    using path [of "rr_receiver msg" host "hd_subnet_id sh"] by (auto simp: reroute_def should_reroute_message_to_def)
  have "induct_message z fr d sh msg remote i s h avail =
      Option.bind (induct_body z d sh msg i b o2 reroute s h avail)
        (\<lambda>(s1, h1, a). if st_signals_end (fst h1) \<noteq> i then None else Some (s1, sh_increment_signals_end h1, a))"
    unfolding induct_message_def induct_body_def b(1) by (cases o2) (simp_all add: route(2) reroute)
  then show ?thesis using b(2) route(1) by blast
qed

lemma induct_message_ok:
  assumes "canisters_ok s" and "sh_ok z rest h" and "sized z" and "can_reject sh s"
    and top: "topology_total fr (md_network_topology (rs_metadata s))" and "st_signals_end (fst h) = i"
  shows "\<exists>s' h' avail'. induct_message z fr d sh msg remote i s h avail = Some (s', h', avail')
    \<and> canisters_ok s' \<and> rs_metadata s' = rs_metadata s \<and> sh_ok z rest h' \<and> signalled msg (fst h) (fst h')
    \<and> (routable_stream fr (nt_routing_table (md_network_topology (rs_metadata s))) (fst h) \<longrightarrow>
       routable_stream fr (nt_routing_table (md_network_topology (rs_metadata s))) (fst h'))"
proof -
  let ?rt = "nt_routing_table (md_network_topology (rs_metadata s))"
  obtain accept host reroute where im: "induct_message z fr d sh msg remote i s h avail =
      Option.bind (induct_body z d sh msg i accept host reroute s h avail)
        (\<lambda>(s1, h1, a). if st_signals_end (fst h1) \<noteq> i then None else Some (s1, sh_increment_signals_end h1, a))"
    and sender: "accept \<longrightarrow> (\<exists>e. rt_route fr ?rt (rr_sender msg) = Some (Some e))"
    using induct_message_body [OF top] by blast
  obtain s' h1 a where r: "induct_body z d sh msg i accept host reroute s h avail = Some (s', h1, a)"
    and ok: "body_ok z rest msg s h (s', h1, a)" and nb: "\<not> accept \<longrightarrow> (s', h1, a) = (s, h, avail)"
    using induct_body_ok [OF assms(1-4,6)] by (metis prod_cases3)
  have out: "outcome msg (fst h) (fst h1)" using ok by (simp add: body_ok_def)
  have sig: "st_signals_end (fst h1) = i" using out assms(6) by (simp add: outcome_def)
  have "induct_message z fr d sh msg remote i s h avail = Some (s', sh_increment_signals_end h1, a)"
    unfolding im r using sig by simp
  moreover have "sh_ok z rest (sh_increment_signals_end h1)"
    using ok by (simp add: body_ok_def sh_ok_def sh_increment_signals_end_def st_increment_signals_end_def st_resp_bytes_def)
  moreover have "signalled msg (fst h) (fst (sh_increment_signals_end h1))"
    using out by (auto simp: signalled_def sh_increment_signals_end_def)
  moreover have "routable_stream fr ?rt (fst (sh_increment_signals_end h1))" if "routable_stream fr ?rt (fst h)"
    using out that sender nb
    by (cases accept) (auto simp: routable_stream_def outcome_def sh_increment_signals_end_def st_increment_signals_end_def answers_def)
  ultimately show ?thesis using ok by (auto simp: body_ok_def)
qed

section \<open>Inducting slices\<close>

definition slice_msgs :: "'p stream_slice \<Rightarrow> 'p request_or_response list" where
  "slice_msgs sl = (case sl_messages sl of None \<Rightarrow> [] | Some q \<Rightarrow> siq_queue q)"

fun signalled_all :: "'p request_or_response list \<Rightarrow> 'p stream \<Rightarrow> 'p stream \<Rightarrow> bool" where
  "signalled_all [] s s' \<longleftrightarrow> s' = s"
| "signalled_all (m # ms) s s' \<longleftrightarrow> (\<exists>t. signalled m s t \<and> signalled_all ms t s')"

text \<open>Signals were added for messages, and messages appended.\<close>

definition advanced :: "nat \<Rightarrow> 'p stream \<Rightarrow> 'p stream \<Rightarrow> bool" where
  "advanced n s s' \<longleftrightarrow>
     siq_begin (st_messages s') = siq_begin (st_messages s) \<and> st_signals_end s' = st_signals_end s + n
     \<and> appended (siq_queue (st_messages s)) (siq_queue (st_messages s'))
     \<and> (\<exists>is. st_reject_signals s' = st_reject_signals s @ is
          \<and> set is \<subseteq> {st_signals_end s..<st_signals_end s + n})"

lemma advanced_0 [simp]: "advanced 0 s s"
  by (simp add: advanced_def)

lemma advanced_trans:
  assumes "advanced m s t" and "advanced n t s'"
  shows "advanced (m + n) s s'"
proof -
  obtain rs where one: "st_reject_signals t = st_reject_signals s @ rs" "set rs \<subseteq> {st_signals_end s..<st_signals_end s + m}"
    using assms(1) by (auto simp: advanced_def)
  obtain rs' where two: "st_reject_signals s' = st_reject_signals t @ rs'" "set rs' \<subseteq> {st_signals_end t..<st_signals_end t + n}"
    using assms(2) by (auto simp: advanced_def)
  have t: "st_signals_end t = st_signals_end s + m" using assms(1) by (simp add: advanced_def)
  have "set (rs @ rs') \<subseteq> {st_signals_end s..<st_signals_end s + (m + n)}" using one(2) two(2) t by auto
  then show ?thesis
    using assms one(1) two(1) unfolding advanced_def
    by (intro conjI exI [of _ "rs @ rs'"]) (auto intro: appended_trans)
qed

lemma signalled_advanced: "signalled m s s' \<Longrightarrow> advanced 1 s s'"
  by (auto simp: appended_snoc signalled_def outcome_def advanced_def st_increment_signals_end_def)

lemma signalled_all_advanced: "signalled_all ms s s' \<Longrightarrow> advanced (length ms) s s'"
proof (induction ms arbitrary: s)
  case (Cons m ms)
  then show ?case using advanced_trans [OF signalled_advanced] by fastforce
qed simp

lemma slice_pop_message_Cons:
  assumes "slice_msgs sl = m # ms" and "sl_messages sl = Some q"
  shows "\<exists>sl1. slice_pop_message sl = (Some (siq_begin q, m), sl1) \<and> slice_msgs sl1 = ms
    \<and> (\<forall>q1. sl_messages sl1 = Some q1 \<longrightarrow> siq_begin q1 = siq_begin q + 1)"
  using assms by (auto simp: slice_msgs_def slice_pop_message_def siq_pop_def siq_is_empty_def)

lemma induct_slice_ok:
  assumes "canisters_ok s" and "sh_ok z rest h" and "sized z" and "can_reject sh s"
    and "topology_total fr (md_network_topology (rs_metadata s))"
    and "\<And>q. sl_messages sl = Some q \<Longrightarrow> siq_begin q = st_signals_end (fst h)"
  shows "\<exists>s' h' avail'. induct_slice z fr d sh remote sl s h avail = Some (s', h', avail')
    \<and> canisters_ok s' \<and> rs_metadata s' = rs_metadata s \<and> sh_ok z rest h'
    \<and> signalled_all (slice_msgs sl) (fst h) (fst h')
    \<and> (routable_stream fr (nt_routing_table (md_network_topology (rs_metadata s))) (fst h) \<longrightarrow>
       routable_stream fr (nt_routing_table (md_network_topology (rs_metadata s))) (fst h'))"
  using assms
proof (induction "slice_msgs sl" arbitrary: sl s h avail)
  case Nil
  then have "fst (slice_pop_message sl) = None"
    by (auto simp: slice_msgs_def slice_pop_message_def siq_pop_def split: option.splits)
  then have "induct_slice z fr d sh remote sl s h avail = Some (s, h, avail)"
    by (subst induct_slice.simps) (auto split: prod.splits)
  then show ?case using Nil by simp
next
  case (Cons m ms)
  obtain q where q: "sl_messages sl = Some q" using Cons.hyps(2) by (auto simp: slice_msgs_def split: option.splits)
  obtain sl1 where pop: "slice_pop_message sl = (Some (siq_begin q, m), sl1)" and sl1: "ms = slice_msgs sl1"
    and next_begin: "\<And>q1. sl_messages sl1 = Some q1 \<Longrightarrow> siq_begin q1 = siq_begin q + 1"
    using slice_pop_message_Cons [OF Cons.hyps(2) [symmetric] q] by blast
  let ?rt = "nt_routing_table (md_network_topology (rs_metadata s))"
  obtain s1 h1 a1 where one: "induct_message z fr d sh m remote (siq_begin q) s h avail = Some (s1, h1, a1)"
    "canisters_ok s1" "rs_metadata s1 = rs_metadata s" "sh_ok z rest h1" "signalled m (fst h) (fst h1)"
    "routable_stream fr ?rt (fst h) \<longrightarrow> routable_stream fr ?rt (fst h1)"
    using induct_message_ok [OF Cons.prems(1-5) Cons.prems(6) [OF q, symmetric]] by blast
  have "siq_begin q1 = st_signals_end (fst h1)" if "sl_messages sl1 = Some q1" for q1
    using next_begin [OF that] Cons.prems(6) [OF q] signalled_advanced [OF one(5)] by (simp add: advanced_def)
  then obtain s2 h2 a2 where "induct_slice z fr d sh remote sl1 s1 h1 a1 = Some (s2, h2, a2)"
    "canisters_ok s2" "rs_metadata s2 = rs_metadata s1" "sh_ok z rest h2"
    and sig: "signalled_all (slice_msgs sl1) (fst h1) (fst h2)"
    and "routable_stream fr ?rt (fst h1) \<longrightarrow> routable_stream fr ?rt (fst h2)"
    using Cons.hyps(1) [OF sl1 one(2,4) Cons.prems(3), of a1] Cons.prems(4,5) one(3)
    by (auto simp: can_reject_def)
  moreover have "induct_slice z fr d sh remote sl s h avail = induct_slice z fr d sh remote sl1 s1 h1 a1"
    by (subst induct_slice.simps) (simp add: pop one(1))
  moreover have "signalled_all (slice_msgs sl) (fst h) (fst h2)"
    unfolding Cons.hyps(2) [symmetric] using one(5) sig sl1 by auto
  ultimately show ?case using one(3,6) by auto
qed

lemma induct_slices_ok:
  assumes "canisters_ok s" and "ss_ok z ss" and "sized z" and "can_reject sh s"
    and "topology_total fr (md_network_topology (rs_metadata s))" and "distinct (map fst slices)"
    and "routable fr (nt_routing_table (md_network_topology (rs_metadata s))) ss"
    and "\<forall>d sl q. bt_get slices d = Some sl \<longrightarrow> sl_messages sl = Some q \<longrightarrow> siq_begin q = st_signals_end (strm z ss d)"
  shows "\<exists>s' ss' avail'. induct_slices z fr dsp sh slices s ss avail = Some (s', ss', avail')
    \<and> canisters_ok s' \<and> rs_metadata s' = rs_metadata s \<and> ss_ok z ss'
    \<and> routable fr (nt_routing_table (md_network_topology (rs_metadata s))) ss'
    \<and> (\<forall>d. signalled_all (case bt_get slices d of None \<Rightarrow> [] | Some sl \<Rightarrow> slice_msgs sl) (strm z ss d) (strm z ss' d))
    \<and> (\<forall>d. bt_get slices d \<noteq> None \<longrightarrow> bt_get (ss_streams ss') d \<noteq> None)
    \<and> dom (bt_get (ss_streams ss)) \<subseteq> dom (bt_get (ss_streams ss'))"
  using assms
proof (induction slices arbitrary: s ss avail)
  case (Cons e slices)
  obtain d sl where e: "e = (d, sl)" by (cases e)
  let ?rt = "nt_routing_table (md_network_topology (rs_metadata s))"
  note wf = ss_ok_wf [OF Cons.prems(2)]
  have d: "bt_get slices d = None" using Cons.prems(6) by (simp add: e bt_get_def map_of_eq_None_iff)
  have bgn: "siq_begin q = st_signals_end (fst (ss_get_mut_or_insert z ss d))" if "sl_messages sl = Some q" for q
    using Cons.prems(8) that by (simp add: e bt_get_def get_mut_strm)
  obtain s1 h1 a1 where one: "induct_slice z fr dsp sh d sl s (ss_get_mut_or_insert z ss d) avail = Some (s1, h1, a1)"
    "canisters_ok s1" "rs_metadata s1 = rs_metadata s" "sh_ok z (other_bytes z d (ss_streams ss)) h1"
    "signalled_all (slice_msgs sl) (strm z ss d) (fst h1)"
    "routable_stream fr ?rt (strm z ss d) \<longrightarrow> routable_stream fr ?rt (fst h1)"
    using induct_slice_ok [OF Cons.prems(1) ss_handle_ok [OF Cons.prems(2,3)] Cons.prems(3-5) bgn]
    unfolding get_mut_strm fst_conv by blast
  let ?ss = "ss_put_handle d h1 ss"
  have ok: "ss_ok z ?ss" by (rule ss_put_handle_ok [OF Cons.prems(2,3) one(4)])
  have rt: "routable fr ?rt ?ss"
    using one(6) routable_strm [OF Cons.prems(7)] by (intro routable_put [OF wf Cons.prems(7)]) blast
  note put = strm_put_handle [OF wf, of z d h1]
  have bgn': "\<forall>f sl q. bt_get slices f = Some sl \<longrightarrow> sl_messages sl = Some q \<longrightarrow> siq_begin q = st_signals_end (strm z ?ss f)"
    using Cons.prems(8) d by (auto simp: e bt_get_def put split: if_splits)
  have pre: "can_reject sh s1" "topology_total fr (md_network_topology (rs_metadata s1))" "distinct (map fst slices)"
    "routable fr (nt_routing_table (md_network_topology (rs_metadata s1))) ?ss"
    using Cons.prems(4-6) one(3) rt by (simp_all add: can_reject_def)
  obtain s2 ss2 a2 where two: "induct_slices z fr dsp sh slices s1 ?ss a1 = Some (s2, ss2, a2)"
    "canisters_ok s2" "rs_metadata s2 = rs_metadata s" "ss_ok z ss2" "routable fr ?rt ss2"
    and sig: "\<And>f. signalled_all (case bt_get slices f of None \<Rightarrow> [] | Some sl \<Rightarrow> slice_msgs sl) (strm z ?ss f) (strm z ss2 f)"
    and dm: "\<And>f. bt_get slices f \<noteq> None \<Longrightarrow> bt_get (ss_streams ss2) f \<noteq> None"
      "dom (bt_get (ss_streams ?ss)) \<subseteq> dom (bt_get (ss_streams ss2))"
    using Cons.IH [OF one(2) ok Cons.prems(3) pre bgn'] unfolding one(3) by blast
  have "signalled_all (case bt_get (e # slices) f of None \<Rightarrow> [] | Some sl \<Rightarrow> slice_msgs sl) (strm z ss f) (strm z ss2 f)" for f
    using sig [of f] one(5) d by (cases "f = d") (auto simp: put e bt_get_def)
  moreover have "bt_get (ss_streams ss2) d \<noteq> None"
    using subsetD [OF dm(2), of d] by (simp add: dom_def ss_put_handle_def bt.get_ins [OF wf])
  then have "bt_get (ss_streams ss2) f \<noteq> None" if "bt_get (e # slices) f \<noteq> None" for f
    using that dm(1) [of f] by (cases "f = d") (simp_all add: e bt_get_def)
  moreover have "dom (bt_get (ss_streams ss)) \<subseteq> dom (bt_get (ss_streams ?ss))"
    by (auto simp: ss_put_handle_def bt.get_ins [OF wf])
  moreover have "induct_slices z fr dsp sh (e # slices) s ss avail = Some (s2, ss2, a2)"
    using one(1) two(1) by (simp add: e Let_def)
  ultimately show ?case using two dm(2) by blast
qed simp

end
