(* ===== verification/StreamHandler_Rounds.thy ===== *)
theory StreamHandler_Rounds
  imports StreamHandler_Correct
begin

text \<open>
  The stream handler on a whole replicated state: a well-formed state is processed without a
  panic, stays well-formed, and the stream to every other subnet changes as the slice from that
  subnet says.
\<close>

section \<open>Taking streams out of a state, and putting them back\<close>

abbreviation streams_of :: "'p replicated_state \<Rightarrow> 'p streams" where
  "streams_of s \<equiv> md_streams (rs_metadata s)"

abbreviation topology_of :: "'p replicated_state \<Rightarrow> 'p network_topology" where
  "topology_of s \<equiv> md_network_topology (rs_metadata s)"

text \<open>Of the metadata, only the streams differ.\<close>

definition same_metadata :: "'p replicated_state \<Rightarrow> 'p replicated_state \<Rightarrow> bool" where
  "same_metadata s s' \<longleftrightarrow> (rs_metadata s')\<lparr>md_streams := ss_new\<rparr> = (rs_metadata s)\<lparr>md_streams := ss_new\<rparr>"

lemma same_metadata_refl [simp]: "same_metadata s s"
  by (simp add: same_metadata_def)

lemma same_metadata_trans: "same_metadata s s' \<Longrightarrow> same_metadata s' s'' \<Longrightarrow> same_metadata s s''"
  by (simp add: same_metadata_def)

lemma same_metadata_field:
  assumes "same_metadata s s'"
  shows "f ((rs_metadata s')\<lparr>md_streams := ss_new\<rparr>) = f ((rs_metadata s)\<lparr>md_streams := ss_new\<rparr>)"
  using assms by (simp only: same_metadata_def)

lemma same_metadata_simps:
  assumes "same_metadata s s'"
  shows "topology_of s' = topology_of s" and "can_reject sh s' = can_reject sh s"
    and "md_own_subnet_id (rs_metadata s') = md_own_subnet_id (rs_metadata s)"
proof -
  show "topology_of s' = topology_of s" using same_metadata_field [OF assms, of md_network_topology] by simp
  show "can_reject sh s' = can_reject sh s" using same_metadata_field [OF assms, of md_certification_version] by (simp add: can_reject_def)
  show "md_own_subnet_id (rs_metadata s') = md_own_subnet_id (rs_metadata s)" using same_metadata_field [OF assms, of md_own_subnet_id] by simp
qed

lemma bt_get_map_snd: "bt_get (map (\<lambda>(k, v). (k, f k v)) m) k = map_option (f k) (bt_get m k)"
  by (induction m) (auto simp: bt_get_def)

lemma bt_wf_map_snd: "bt_wf (map (\<lambda>(k, v). (k, f k v)) m) = bt_wf m"
  by (simp add: bt_wf_def comp_def split_def)

lemma take_streams_simps:
  assumes "rs_take_streams s = (ss, s1)"
  shows "ss = streams_of s" and "streams_of s1 = ss_new" and "same_metadata s s1"
    and "canisters_ok s1 = canisters_ok s" and "rs_canister_states s1 = rs_canister_states s"
  using assms by (auto simp: rs_take_streams_def rs_set_streams_def same_metadata_def canisters_ok_def)

lemma put_streams_ok:
  assumes "streams_of s = ss_new" and "canisters_ok s"
  shows "\<exists>s'. rs_put_streams ss s = Some s' \<and> streams_of s' = ss \<and> same_metadata s s' \<and> canisters_ok s'"
proof -
  have "canisters_ok (rs_update_stream_responses_size_bytes (rs_set_streams ss s))"
    using assms(2)
    by (auto simp: canisters_ok_def rs_update_stream_responses_size_bytes_def rs_set_streams_def Let_def
        bt_wf_map_snd bt_get_map_snd sys_set_stream_responses_size_bytes_def can_raw_memory_usage_def)
  then show ?thesis
    using assms(1) by (auto simp: rs_put_streams_def ss_new_def rs_update_stream_responses_size_bytes_def
        rs_set_streams_def same_metadata_def Let_def)
qed

lemma memory_taken_ok:
  assumes "canisters_ok s"
  shows "rs_raw_total_and_message_memory_taken z s \<noteq> None"
proof -
  have "memory_taken z cs \<noteq> None" if "\<forall>(k, c) \<in> set cs. can_raw_memory_usage c \<noteq> None"
    for cs :: "('a, 'a canister_state) btree"
    using that by (induction cs) (auto split: memory_allocation.splits)
  moreover have "\<forall>(k, c) \<in> set (rs_canister_states s). can_raw_memory_usage c \<noteq> None"
    using assms bt.get_iff_entry [of "rs_canister_states s"] by (auto simp: canisters_ok_def)
  ultimately show ?thesis by (fastforce simp: rs_raw_total_and_message_memory_taken_def)
qed

section \<open>Well-formed states of a subnet\<close>

definition state_ok :: "layout \<Rightarrow> (u64 \<Rightarrow> 'p::linorder) \<Rightarrow> 'p stream_handler \<Rightarrow> 'p replicated_state \<Rightarrow> bool" where
  "state_ok z fr sh s \<longleftrightarrow>
     canisters_ok s \<and> ss_ok z (streams_of s) \<and> routable fr (nt_routing_table (topology_of s)) (streams_of s)
     \<and> topology_total fr (topology_of s) \<and> can_reject sh s"

text \<open>The signals of the loopback stream end where its messages begin, with no reject signals left.\<close>

definition loopback_ok :: "layout \<Rightarrow> 'p \<Rightarrow> 'p replicated_state \<Rightarrow> bool" where
  "loopback_ok z own s \<longleftrightarrow>
     siq_begin (st_messages (strm z (streams_of s) own)) = st_signals_end (strm z (streams_of s) own)
     \<and> st_reject_signals (strm z (streams_of s) own) = []"

definition slices_ok :: "'p::linorder \<Rightarrow> ('p, 'p stream_slice) btree \<Rightarrow> bool" where
  "slices_ok own slices \<longleftrightarrow> bt_wf slices \<and> bt_get slices own = None"

definition fits_all :: "layout \<Rightarrow> ('p, 'p stream_slice) btree \<Rightarrow> 'p replicated_state \<Rightarrow> bool" where
  "fits_all z slices s \<longleftrightarrow> (\<forall>d sl. bt_get slices d = Some sl \<longrightarrow> slice_fits sl (strm z (streams_of s) d))"

definition msgs_from :: "('p, 'p stream_slice) btree \<Rightarrow> 'p \<Rightarrow> 'p request_or_response list" where
  "msgs_from slices d = (case bt_get slices d of None \<Rightarrow> [] | Some sl \<Rightarrow> slice_msgs sl)"

lemma gc_local_ok:
  assumes "state_ok z fr sh s" and "sized z" and "bt_wf slices" and "fits_all z slices s"
  shows "\<exists>s'. garbage_collect_local_state z fr s slices = Some s' \<and> state_ok z fr sh s' \<and> same_metadata s s'
    \<and> (\<forall>d. collected_by slices d (strm z (streams_of s) d) (strm z (streams_of s') d))"
proof -
  obtain ss s1 where take: "rs_take_streams s = (ss, s1)" by (cases "rs_take_streams s")
  note t = take_streams_simps [OF take]
  note m1 = same_metadata_simps [OF t(3)]
  obtain ss' where ss': "garbage_collect_slices z fr (nt_routing_table (topology_of s)) slices ss = Some ss'"
    "ss_ok z ss'" "routable fr (nt_routing_table (topology_of s)) ss'"
    "\<And>d. collected_by slices d (strm z ss d) (strm z ss' d)"
    using gc_slices_ok [of z ss fr "nt_routing_table (topology_of s)" slices] assms bt.distinct_entries [OF assms(3)]
    by (auto simp: state_ok_def fits_all_def t(1))
  obtain s' where s': "rs_put_streams ss' s1 = Some s'" "streams_of s' = ss'" "same_metadata s1 s'" "canisters_ok s'"
    using put_streams_ok [OF t(2)] assms(1) t(4) by (auto simp: state_ok_def)
  note m = same_metadata_trans [OF t(3) s'(3)]
  have "garbage_collect_local_state z fr s slices = Some s'"
    using ss'(1) s'(1) by (simp add: garbage_collect_local_state_def take m1)
  moreover have "state_ok z fr sh s'"
    using assms(1) ss' s' by (simp add: state_ok_def same_metadata_simps [OF m])
  ultimately show ?thesis using m ss'(4) s'(2) t(1) by auto
qed

lemma induct_stream_slices_ok:
  assumes "state_ok z fr sh s" and "sized z" and "bt_wf slices"
    and "\<forall>d sl q. bt_get slices d = Some sl \<longrightarrow> sl_messages sl = Some q \<longrightarrow>
           siq_begin q = st_signals_end (strm z (streams_of s) d)"
  shows "\<exists>s'. induct_stream_slices z fr dsp sh s slices = Some s' \<and> state_ok z fr sh s' \<and> same_metadata s s'
    \<and> (\<forall>d. signalled_all (msgs_from slices d) (strm z (streams_of s) d) (strm z (streams_of s') d))
    \<and> (\<forall>d. bt_get slices d \<noteq> None \<longrightarrow> bt_get (ss_streams (streams_of s')) d \<noteq> None)"
proof -
  obtain ss s1 where take: "rs_take_streams s = (ss, s1)" by (cases "rs_take_streams s")
  note t = take_streams_simps [OF take]
  note m1 = same_metadata_simps [OF t(3)]
  obtain raw msgs where mem: "rs_raw_total_and_message_memory_taken z s = Some (raw, msgs)"
    using memory_taken_ok [of s z] assms(1) by (auto simp: state_ok_def)
  define avail where "avail = min (as_i64 (hd_subnet_memory_capacity sh) - as_i64 raw - as_i64 msgs)
    (as_i64 (hd_subnet_message_memory_capacity sh) - as_i64 msgs)"
  have pre: "canisters_ok s1" "ss_ok z ss" "can_reject sh s1" "topology_total fr (topology_of s1)"
    "routable fr (nt_routing_table (topology_of s1)) ss" "distinct (map fst slices)"
    using assms(1) t(1,4) m1 bt.distinct_entries [OF assms(3)] by (simp_all add: state_ok_def)
  obtain s2 ss' a where two: "induct_slices z fr dsp sh slices s1 ss avail = Some (s2, ss', a)"
    "canisters_ok s2" "rs_metadata s2 = rs_metadata s1" "ss_ok z ss'" "routable fr (nt_routing_table (topology_of s1)) ss'"
    and sig: "\<And>d. signalled_all (case bt_get slices d of None \<Rightarrow> [] | Some sl \<Rightarrow> slice_msgs sl) (strm z ss d) (strm z ss' d)"
    and dm: "\<And>d. bt_get slices d \<noteq> None \<Longrightarrow> bt_get (ss_streams ss') d \<noteq> None"
    using induct_slices_ok [OF pre(1,2) assms(2) pre(3,4,6,5) assms(4) [folded t(1)]] by blast
  obtain s' where s': "rs_put_streams ss' s2 = Some s'" "streams_of s' = ss'" "same_metadata s2 s'" "canisters_ok s'"
    using put_streams_ok [OF _ two(2), of ss'] two(3) t(2) by auto
  have m2: "same_metadata s s2" using t(3) two(3) by (simp add: same_metadata_def)
  note m = same_metadata_trans [OF m2 s'(3)]
  have "induct_stream_slices z fr dsp sh s slices = Some s'"
    using two(1) s'(1) by (simp add: induct_stream_slices_def mem take avail_def)
  moreover have "state_ok z fr sh s'"
    using assms(1) two(4,5) s' m1 by (simp add: state_ok_def same_metadata_simps [OF m])
  ultimately show ?thesis using m sig dm s'(2) t(1) by (auto simp: msgs_from_def)
qed

section \<open>The loopback stream\<close>

text \<open>Garbage collection with the signals of the loopback stream itself.\<close>

lemma loopback_gc:
  assumes ok: "ss_ok z ss" and "sized z" and rt: "routable fr t ss" and adv: "advanced (length xs) s (strm z ss d)"
    and xs: "siq_queue (st_messages s) = xs" and s: "siq_begin (st_messages s) = st_signals_end s"
    and "bt_get (ss_streams ss) d \<noteq> None"
  shows "\<exists>rej h h'. ss_get_mut ss d = Some h
    \<and> garbage_collect_messages z h (st_signals_end (fst h)) (st_reject_signals (fst h)) = Some (rej, h')
    \<and> list_all (routable_msg fr t) rej
    \<and> (let h'' = sh_discard_signals_before (st_signals_end (fst h)) h' in
         ss_ok z (ss_put_handle d h'' ss) \<and> routable fr t (ss_put_handle d h'' ss)
         \<and> siq_begin (st_messages (fst h'')) = siq_end (st_messages s) \<and> st_signals_end (fst h'') = siq_end (st_messages s)
         \<and> st_reject_signals (fst h'') = [] \<and> list_all is_response (siq_queue (st_messages (fst h''))))"
proof -
  let ?h = "ss_get_mut_or_insert z ss d" and ?l = "strm z ss d"
  have fst: "fst ?h = ?l" by (simp add: get_mut_strm)
  note hok = ss_handle_ok [OF ok assms(2), of d]
  have lok: "st_ok z ?l" by (rule ss_ok_strm [OF ok])
  have sig: "st_signals_end ?l = siq_end (st_messages s)" using adv xs s by (simp add: advanced_def siq_end_def)
  have bgn: "siq_begin (st_messages ?l) = siq_begin (st_messages s)" using adv by (simp add: advanced_def)
  obtain ms where ms: "list_all is_response ms" "siq_queue (st_messages ?l) = xs @ ms"
    using adv xs by (auto simp: advanced_def appended_def)
  have "sorted_wrt (<) (st_reject_signals ?l @ [st_signals_end ?l])" using lok by (simp add: st_ok_def)
  moreover have "siq_begin (st_messages ?l) \<le> st_signals_end ?l" "st_signals_end ?l \<le> siq_end (st_messages ?l)"
    using sig bgn ms(2) xs by (simp_all add: siq_end_def)
  ultimately obtain h' where h': "garbage_collect_messages z ?h (st_signals_end ?l) (st_reject_signals ?l)
      = Some (rejected_before (st_signals_end ?l) (st_reject_signals ?l) (st_messages ?l), h')"
    "sh_ok z (other_bytes z d (ss_streams ss)) h'"
    "st_messages (fst h') = \<lparr>siq_begin = st_signals_end ?l,
       siq_queue = drop (st_signals_end ?l - siq_begin (st_messages ?l)) (siq_queue (st_messages ?l))\<rparr>"
    "st_signals_end (fst h') = st_signals_end ?l" "st_reject_signals (fst h') = st_reject_signals ?l"
    using gc_messages_ok [OF hok assms(2), unfolded fst] by blast
  have rej: "list_all (routable_msg fr t) (rejected_before (st_signals_end ?l) (st_reject_signals ?l) (st_messages ?l))"
    using routable_strm [OF rt, of z d]
    by (auto simp: routable_stream_def list_all_iff dest!: subsetD [OF rejected_before_subset])
  let ?h'' = "sh_discard_signals_before (st_signals_end ?l) h'"
  have eq: "fst ?h'' = (fst h')\<lparr>st_reject_signals := filter (\<lambda>i. st_signals_end ?l \<le> i) (st_reject_signals (fst h'))\<rparr>"
    using h'(2) by (simp add: sh_discard_signals_before_def sh_ok_def st_discard_signals_before_eq [of z])
  have "st_reject_signals (fst ?h'') = []"
    using lok by (auto simp: eq h'(5) st_ok_def sorted_wrt_append filter_empty_conv not_le)
  moreover have "siq_queue (st_messages (fst ?h'')) = ms"
    unfolding eq using sig bgn ms(2) xs by (simp add: h'(3) siq_end_def)
  moreover have "ss_ok z (ss_put_handle d ?h'' ss)"
    by (rule ss_put_handle_ok [OF ok assms(2) sh_ok_discard_signals [OF h'(2)]])
  moreover have "routable fr t (ss_put_handle d ?h'' ss)"
    using routable_strm [OF rt, of z d]
    by (intro routable_put [OF ss_ok_wf [OF ok] rt]) (auto simp: routable_stream_def eq h'(3) list_all_iff dest: in_set_dropD)
  moreover have "ss_get_mut ss d = Some ?h" using assms(7) by (simp add: get_mut_cases [of ss d z])
  moreover have "siq_begin (st_messages (fst ?h'')) = siq_end (st_messages s)"
    "st_signals_end (fst ?h'') = siq_end (st_messages s)"
    unfolding eq using sig h'(3,4) by simp_all
  ultimately show ?thesis
    using h'(1) rej ms(1)
    by (intro exI [of _ "rejected_before (st_signals_end ?l) (st_reject_signals ?l) (st_messages ?l)"]
        exI [of _ ?h] exI [of _ h']) (simp add: Let_def fst)
qed

lemma induct_loopback_ok:
  assumes st: "state_ok z fr sh s" and "sized z" and loop: "loopback_ok z (hd_subnet_id sh) s"
  shows "\<exists>s'. induct_loopback_stream z fr dsp sh s = Some s' \<and> state_ok z fr sh s' \<and> same_metadata s s'
    \<and> loopback_ok z (hd_subnet_id sh) s'
    \<and> (\<forall>d. d \<noteq> hd_subnet_id sh \<longrightarrow> grows (strm z (streams_of s) d) (strm z (streams_of s') d))
    \<and> siq_begin (st_messages (strm z (streams_of s') (hd_subnet_id sh)))
        = siq_end (st_messages (strm z (streams_of s) (hd_subnet_id sh)))
    \<and> list_all is_response (siq_queue (st_messages (strm z (streams_of s') (hd_subnet_id sh))))"
proof (cases "siq_queue (st_messages (strm z (streams_of s) (hd_subnet_id sh))) = []")
  case True
  then have "induct_loopback_stream z fr dsp sh s = Some s"
    by (auto simp: induct_loopback_stream_def rs_get_stream_def ss_get_def siq_is_empty_def stream_or_default_def
        split: option.splits)
  then show ?thesis using assms True by (simp add: siq_end_def)
next
  case False
  let ?own = "hd_subnet_id sh" and ?l = "strm z (streams_of s) (hd_subnet_id sh)"
  let ?sl = "st_into_slice ?l" and ?t = "nt_routing_table (topology_of s)"
  have some: "rs_get_stream s ?own = Some ?l"
    using False by (auto simp: rs_get_stream_def ss_get_def stream_or_default_def st_default_def split: option.splits)
  have sl: "sl_messages ?sl = Some (st_messages ?l)" using False by (simp add: st_into_slice_def slice_new_def siq_is_empty_def)
  have l: "siq_begin (st_messages ?l) = st_signals_end ?l" using loop by (simp add: loopback_ok_def)
  have wf: "bt_wf [(?own, ?sl)]" and own: "bt_get [(?own, ?sl)] ?own \<noteq> None" by (simp_all add: bt_wf_def bt_get_def)
  have bgn: "\<forall>d sl q. bt_get [(?own, ?sl)] d = Some sl \<longrightarrow> sl_messages sl = Some q \<longrightarrow>
      siq_begin q = st_signals_end (strm z (streams_of s) d)"
    using sl l by (simp add: bt_get_def)
  obtain s1 where s1: "induct_stream_slices z fr dsp sh s [(?own, ?sl)] = Some s1" "state_ok z fr sh s1" "same_metadata s s1"
    and sig: "\<And>d. signalled_all (msgs_from [(?own, ?sl)] d) (strm z (streams_of s) d) (strm z (streams_of s1) d)"
    and dm: "bt_get (ss_streams (streams_of s1)) ?own \<noteq> None"
    using induct_stream_slices_ok [OF st assms(2) wf bgn] own by blast
  have adv: "advanced (length (siq_queue (st_messages ?l))) ?l (strm z (streams_of s1) ?own)"
    using signalled_all_advanced [OF sig [of ?own]] by (simp add: msgs_from_def bt_get_def slice_msgs_def sl)
  have other: "strm z (streams_of s1) d = strm z (streams_of s) d" if "d \<noteq> ?own" for d
    using sig [of d] that by (simp add: msgs_from_def bt_get_def)
  obtain ss s2 where take: "rs_take_streams s1 = (ss, s2)" by (cases "rs_take_streams s1")
  note t = take_streams_simps [OF take]
  note m1 = same_metadata_simps [OF s1(3)] and m2 = same_metadata_simps [OF t(3)]
  have ss: "ss_ok z ss" "routable fr ?t ss" using s1(2) t(1) m1 by (simp_all add: state_ok_def)
  obtain rej h h' where h: "ss_get_mut ss ?own = Some h"
    "garbage_collect_messages z h (st_signals_end (fst h)) (st_reject_signals (fst h)) = Some (rej, h')"
    and rej: "list_all (routable_msg fr ?t) rej"
    and h'': "let h'' = sh_discard_signals_before (st_signals_end (fst h)) h' in
         ss_ok z (ss_put_handle ?own h'' ss) \<and> routable fr ?t (ss_put_handle ?own h'' ss)
         \<and> siq_begin (st_messages (fst h'')) = siq_end (st_messages ?l) \<and> st_signals_end (fst h'') = siq_end (st_messages ?l)
         \<and> st_reject_signals (fst h'') = [] \<and> list_all is_response (siq_queue (st_messages (fst h'')))"
    using loopback_gc [OF ss(1) assms(2) ss(2) _ refl l] adv dm unfolding t(1) by blast
  define g where "g = sh_discard_signals_before (st_signals_end (fst h)) h'"
  note g = h'' [folded g_def, unfolded Let_def]
  obtain ss' where ss': "reroute_rejected_messages z fr ?t rej (ss_put_handle ?own g ss) = Some ss'" "ss_ok z ss'"
    "routable fr ?t ss'" and grows: "\<And>d. grows (strm z (ss_put_handle ?own g ss) d) (strm z ss' d)"
    using reroute_ok [OF _ assms(2) _ rej, of "ss_put_handle ?own g ss"] g by blast
  obtain s' where s': "rs_put_streams ss' s2 = Some s'" "streams_of s' = ss'" "same_metadata s2 s'" "canisters_ok s'"
    using put_streams_ok [OF t(2)] s1(2) t(4) by (auto simp: state_ok_def)
  note m = same_metadata_trans [OF same_metadata_trans [OF s1(3) t(3)] s'(3)]
  note put = strm_put_handle [OF ss_ok_wf [OF ss(1)], of z ?own g]
  have "induct_loopback_stream z fr dsp sh s = Some s'"
    using False s1(1) take h ss'(1) s'(1) l
    by (simp add: induct_loopback_stream_def some siq_is_empty_def assert_valid_slice_messages_for_stream_def
        g_def m1 m2)
  moreover have "state_ok z fr sh s'"
    using st ss' s' by (simp add: state_ok_def same_metadata_simps [OF m])
  moreover have "grows (strm z (streams_of s) d) (strm z (streams_of s') d)" if "d \<noteq> ?own" for d
    using grows [of d] other [OF that] that s'(2) by (simp add: put t(1) [symmetric])
  ultimately show ?thesis
    using m g grows [of ?own] s'(2) unfolding put
    by (auto simp: loopback_ok_def grows_def appended_def)
qed

section \<open>A whole round\<close>

text \<open>
  The stream to another subnet after a round: messages are discarded up to the signals of the
  slice, there is a signal for every message of the slice, and responses are appended.
\<close>

definition processed_slice :: "'p stream_slice \<Rightarrow> 'p stream \<Rightarrow> 'p stream \<Rightarrow> bool" where
  "processed_slice sl s s' \<longleftrightarrow>
     siq_begin (st_messages s') = h_signals_end (sl_header sl)
     \<and> st_signals_end s' = st_signals_end s + length (slice_msgs sl)
     \<and> appended (drop (h_signals_end (sl_header sl) - siq_begin (st_messages s)) (siq_queue (st_messages s)))
          (siq_queue (st_messages s'))
     \<and> (\<exists>is. st_reject_signals s' = filter (\<lambda>i. h_begin (sl_header sl) \<le> i) (st_reject_signals s) @ is
          \<and> set is \<subseteq> {st_signals_end s..<st_signals_end s + length (slice_msgs sl)})"

definition processed :: "('p, 'p stream_slice) btree \<Rightarrow> 'p \<Rightarrow> 'p stream \<Rightarrow> 'p stream \<Rightarrow> bool" where
  "processed slices d s s' \<longleftrightarrow>
     (case bt_get slices d of None \<Rightarrow> grows s s' | Some sl \<Rightarrow> processed_slice sl s s')"

lemma collected_advanced:
  "collected (sl_header sl) s t \<Longrightarrow> advanced (length (slice_msgs sl)) t s' \<Longrightarrow> processed_slice sl s s'"
  by (auto simp: collected_def advanced_def processed_slice_def intro: appended_trans)

lemma collected_by_signals_end: "collected_by slices d s s' \<Longrightarrow> st_signals_end s' = st_signals_end s"
  by (auto simp: collected_by_def collected_def grows_def split: option.splits)

lemma process_ok:
  assumes st: "state_ok z fr sh s" and "sized z" and loop: "loopback_ok z (hd_subnet_id sh) s"
    and sl: "slices_ok (hd_subnet_id sh) slices" and fits: "fits_all z slices s"
  shows "\<exists>s'. process_stream_slices z fr dsp sh s slices = Some s' \<and> state_ok z fr sh s' \<and> same_metadata s s'
    \<and> loopback_ok z (hd_subnet_id sh) s'
    \<and> (\<forall>d. d \<noteq> hd_subnet_id sh \<longrightarrow> processed slices d (strm z (streams_of s) d) (strm z (streams_of s') d))"
proof -
  let ?own = "hd_subnet_id sh"
  have wf: "bt_wf slices" and own: "bt_get slices ?own = None" using sl by (simp_all add: slices_ok_def)
  have ne: "d \<noteq> ?own" if "bt_get slices d = Some sl" for d sl using that own by auto
  obtain s1 where s1: "induct_loopback_stream z fr dsp sh s = Some s1" "state_ok z fr sh s1" "same_metadata s s1"
    "loopback_ok z ?own s1" and g: "\<And>d. d \<noteq> ?own \<Longrightarrow> grows (strm z (streams_of s) d) (strm z (streams_of s1) d)"
    using induct_loopback_ok [OF st assms(2) loop] by blast
  have fits0: "slice_fits sl (strm z (streams_of s) d)" if "bt_get slices d = Some sl" for d sl
    using fits that by (simp add: fits_all_def)
  have fits1: "fits_all z slices s1"
    using slice_fits_grows [OF fits0 g [OF ne]] by (simp add: fits_all_def)
  obtain s2 where s2: "garbage_collect_local_state z fr s1 slices = Some s2" "state_ok z fr sh s2" "same_metadata s1 s2"
    and col: "\<And>d. collected_by slices d (strm z (streams_of s1) d) (strm z (streams_of s2) d)"
    using gc_local_ok [OF s1(2) assms(2) wf fits1] by blast
  have "\<forall>d sl q. bt_get slices d = Some sl \<longrightarrow> sl_messages sl = Some q \<longrightarrow>
      siq_begin q = st_signals_end (strm z (streams_of s2) d)"
    using fits1 collected_by_signals_end [OF col] by (force simp: fits_all_def slice_fits_def split: option.splits)
  then obtain s3 where s3: "induct_stream_slices z fr dsp sh s2 slices = Some s3" "state_ok z fr sh s3" "same_metadata s2 s3"
    and sig: "\<And>d. signalled_all (msgs_from slices d) (strm z (streams_of s2) d) (strm z (streams_of s3) d)"
    using induct_stream_slices_ok [OF s2(2) assms(2) wf] by blast
  have "grows (strm z (streams_of s1) ?own) (strm z (streams_of s3) ?own)"
    using sig [of ?own] col [of ?own] own by (simp add: msgs_from_def collected_by_def)
  then have "loopback_ok z ?own s3" using s1(4) by (simp add: loopback_ok_def grows_def)
  moreover have "processed slices d (strm z (streams_of s) d) (strm z (streams_of s3) d)" if d: "d \<noteq> ?own" for d
  proof (cases "bt_get slices d")
    case None
    then show ?thesis
      using sig [of d] col [of d] grows_trans [OF g [OF d]] by (simp add: msgs_from_def collected_by_def processed_def)
  next
    case (Some sl)
    have "collected (sl_header sl) (strm z (streams_of s) d) (strm z (streams_of s2) d)"
      using grows_collected [OF g [OF d] fits0 [OF Some]] col [of d] by (simp add: collected_by_def Some)
    moreover have "advanced (length (slice_msgs sl)) (strm z (streams_of s2) d) (strm z (streams_of s3) d)"
      using signalled_all_advanced [OF sig [of d]] by (simp add: msgs_from_def Some)
    ultimately show ?thesis by (simp add: processed_def Some collected_advanced)
  qed
  ultimately show ?thesis
    using s1(1) s2(1) s3 same_metadata_trans [OF same_metadata_trans [OF s1(3) s2(3)] s3(3)]
    by (simp add: process_stream_slices_def)
qed

end
