(* ===== verification/XNet.thy ===== *)
theory XNet
  imports StreamHandler_Rounds
begin

text \<open>
  A network of subnets that exchange messages through the stream handler. Every subnet processes
  slices of the streams of the others; a slice may be of an old version of a stream, but not of one
  older than the last version of that stream that was used. Between rounds a subnet executes and
  routes messages, which appends to its streams. The messages that were routed into every
  stream and those that were inducted from it are recorded beside the states.
\<close>

section \<open>Streams as windows on the messages that were routed\<close>

definition view_of :: "'p request_or_response list \<Rightarrow> 'p stream \<Rightarrow> bool" where
  "view_of L s \<longleftrightarrow>
     siq_end (st_messages s) \<le> length L
     \<and> siq_queue (st_messages s) = drop (siq_begin (st_messages s)) (take (siq_end (st_messages s)) L)"

definition later :: "'p stream \<Rightarrow> 'p stream \<Rightarrow> bool" where
  "later s s' \<longleftrightarrow>
     siq_begin (st_messages s) \<le> siq_begin (st_messages s') \<and> siq_end (st_messages s) \<le> siq_end (st_messages s')
     \<and> st_signals_end s \<le> st_signals_end s'"

text \<open>A stream moves on: messages before \<open>b\<close> are discarded, \<open>n\<close> signals and some messages added.\<close>

definition evolves :: "nat \<Rightarrow> nat \<Rightarrow> 'p stream \<Rightarrow> 'p stream \<Rightarrow> bool" where
  "evolves b n s s' \<longleftrightarrow>
     siq_begin (st_messages s) \<le> b \<and> b \<le> siq_end (st_messages s)
     \<and> siq_begin (st_messages s') = b \<and> st_signals_end s' = st_signals_end s + n
     \<and> (\<exists>ms. siq_queue (st_messages s') = drop (b - siq_begin (st_messages s)) (siq_queue (st_messages s)) @ ms)"

definition new_messages :: "'p stream \<Rightarrow> 'p stream \<Rightarrow> 'p request_or_response list" where
  "new_messages s s' = drop (siq_end (st_messages s) - siq_begin (st_messages s')) (siq_queue (st_messages s'))"

lemma later_refl [simp]: "later s s"
  by (simp add: later_def)

lemma later_trans: "later s s' \<Longrightarrow> later s' s'' \<Longrightarrow> later s s''"
  by (simp add: later_def)

lemma view_of_append: "view_of L s \<Longrightarrow> view_of (L @ ms) s"
  by (simp add: view_of_def)

lemma grows_evolves: "grows s s' \<Longrightarrow> evolves (siq_begin (st_messages s)) 0 s s'"
  by (auto simp: grows_def evolves_def appended_def siq_end_def)

lemma processed_evolves:
  "slice_fits sl s \<Longrightarrow> processed_slice sl s s' \<Longrightarrow> evolves (h_signals_end (sl_header sl)) (length (slice_msgs sl)) s s'"
  by (auto simp: processed_slice_def evolves_def appended_def slice_fits_def)

lemma evolves_queue:
  assumes "evolves b n s s'"
  shows "siq_queue (st_messages s') = drop (b - siq_begin (st_messages s)) (siq_queue (st_messages s)) @ new_messages s s'"
proof -
  obtain ms where ms: "siq_queue (st_messages s') = drop (b - siq_begin (st_messages s)) (siq_queue (st_messages s)) @ ms"
    using assms by (auto simp: evolves_def)
  have "siq_end (st_messages s) - b = length (siq_queue (st_messages s)) - (b - siq_begin (st_messages s))"
    using assms by (simp add: evolves_def siq_end_def)
  then have "new_messages s s' = ms" using assms by (simp add: new_messages_def ms evolves_def)
  then show ?thesis by (simp add: ms)
qed

lemma evolves_end:
  assumes "evolves b n s s'"
  shows "siq_end (st_messages s') = siq_end (st_messages s) + length (new_messages s s')"
  using assms evolves_queue [OF assms] by (auto simp: evolves_def siq_end_def)

lemma evolves_later: "evolves b n s s' \<Longrightarrow> later s s'"
  using evolves_end [of b n s s'] by (simp add: evolves_def later_def)

text \<open>The current version of a stream is a view up to the end of what was routed, and stays one.\<close>

definition current :: "'p request_or_response list \<Rightarrow> 'p stream \<Rightarrow> bool" where
  "current L s \<longleftrightarrow>
     siq_begin (st_messages s) \<le> length L \<and> siq_queue (st_messages s) = drop (siq_begin (st_messages s)) L"

lemma current_end: "current L s \<Longrightarrow> siq_end (st_messages s) = length L"
  by (simp add: current_def siq_end_def)

lemma current_view: "current L s \<Longrightarrow> view_of L s"
  using current_end [of L s] by (simp add: view_of_def current_def)

lemma current_evolves:
  assumes "current L s" and "evolves b n s s'"
  shows "current (L @ new_messages s s') s'"
proof -
  have "b \<le> length L" using assms by (simp add: evolves_def current_end)
  moreover have "siq_begin (st_messages s') = b" "siq_begin (st_messages s) \<le> b" using assms(2) by (simp_all add: evolves_def)
  ultimately show ?thesis
    using evolves_queue [OF assms(2)] assms(1) by (simp add: current_def)
qed

section \<open>Slices of a version\<close>

lemma slice_of_version:
  assumes "st_slice v i n = Some sl"
  shows "sl_header sl = st_header v" and "siq_begin (st_messages v) \<le> i" and "i \<le> siq_end (st_messages v)"
    and "sl_messages sl = Some q \<Longrightarrow> siq_begin q = i \<and> siq_end q \<le> siq_end (st_messages v)"
    and "i + length (slice_msgs sl) \<le> siq_end (st_messages v)"
  using assms
  by (auto simp: st_slice_def siq_slice_def slice_new_def slice_msgs_def siq_end_def siq_is_empty_def Let_def
      split: if_splits option.splits)

lemma slice_msgs_view:
  assumes "st_slice v i n = Some sl" and "view_of L v"
  shows "slice_msgs sl = take (length (slice_msgs sl)) (drop i L)"
proof -
  have i: "siq_begin (st_messages v) \<le> i" "i \<le> siq_end (st_messages v)" by (rule slice_of_version [OF assms(1)])+
  obtain k where "slice_msgs sl = take k (drop (i - siq_begin (st_messages v)) (siq_queue (st_messages v)))"
    using assms(1)
    by (auto simp: st_slice_def siq_slice_def slice_new_def slice_msgs_def siq_is_empty_def Let_def
        split: if_splits option.splits intro: that [of 0])
  then have k: "slice_msgs sl = take k (drop i (take (siq_end (st_messages v)) L))"
    using i assms(2) by (simp add: view_of_def)
  show ?thesis unfolding k by (simp add: drop_take min_def)
qed

lemma slice_exists:
  "siq_begin (st_messages v) \<le> i \<Longrightarrow> i \<le> siq_end (st_messages v) \<Longrightarrow> st_slice v i n \<noteq> None"
  by (simp add: st_slice_def siq_slice_def Let_def)

section \<open>The network\<close>

text \<open>
  For subnets \<open>x\<close> and \<open>y\<close>: the state of \<open>x\<close>; the versions that the stream from \<open>x\<close> to \<open>y\<close> had, the
  first one empty; the index of the version of the stream from \<open>y\<close> that \<open>x\<close> used last; the messages
  that \<open>x\<close> put on its stream to \<open>y\<close>; and the messages from \<open>y\<close> that \<open>x\<close> inducted.
\<close>

record 'p network =
  net_state :: "'p \<Rightarrow> 'p replicated_state"
  net_versions :: "'p \<Rightarrow> 'p \<Rightarrow> 'p stream list"
  net_used :: "'p \<Rightarrow> 'p \<Rightarrow> nat"
  net_routed :: "'p \<Rightarrow> 'p \<Rightarrow> 'p request_or_response list"
  net_inducted :: "'p \<Rightarrow> 'p \<Rightarrow> 'p request_or_response list"

abbreviation net_stream :: "layout \<Rightarrow> 'p network \<Rightarrow> 'p \<Rightarrow> 'p \<Rightarrow> 'p stream" where
  "net_stream z N x y \<equiv> strm z (streams_of (net_state N x)) y"

definition net_start :: "layout \<Rightarrow> ('p \<Rightarrow> 'p replicated_state) \<Rightarrow> 'p network" where
  "net_start z states =
     \<lparr>net_state = states, net_versions = (\<lambda>x y. [st_default z]), net_used = (\<lambda>x y. 0),
      net_routed = (\<lambda>x y. []), net_inducted = (\<lambda>x y. [])\<rparr>"

text \<open>Subnet \<open>x\<close> moves to state \<open>s\<close>, after using the given versions and inducting the given messages.\<close>

definition net_advance ::
  "layout \<Rightarrow> 'p \<Rightarrow> 'p replicated_state \<Rightarrow> ('p \<Rightarrow> nat) \<Rightarrow> ('p \<Rightarrow> 'p request_or_response list) \<Rightarrow> 'p network \<Rightarrow> 'p network" where
  "net_advance z x s u ms N =
     \<lparr>net_state = (net_state N)(x := s),
      net_versions = (net_versions N)(x := \<lambda>y. net_versions N x y @ [strm z (streams_of s) y]),
      net_used = (net_used N)(x := u),
      net_routed = (net_routed N)
        (x := \<lambda>y. net_routed N x y @ new_messages (net_stream z N x y) (strm z (streams_of s) y)),
      net_inducted = (net_inducted N)(x := \<lambda>y. net_inducted N x y @ ms y)\<rparr>"

text \<open>
  The slices that subnet \<open>x\<close> may be given: for any of the other subnets a slice, of any length, from
  the first message it has no signal for, of a version not older than the last one used.
\<close>

definition admissible ::
  "layout \<Rightarrow> 'p::linorder network \<Rightarrow> 'p \<Rightarrow> ('p \<Rightarrow> nat) \<Rightarrow> ('p, 'p stream_slice) btree \<Rightarrow> bool" where
  "admissible z N x u slices \<longleftrightarrow>
     slices_ok x slices
     \<and> (\<forall>y. case bt_get slices y of
          None \<Rightarrow> u y = net_used N x y
        | Some sl \<Rightarrow> net_used N x y \<le> u y \<and> u y < length (net_versions N y x)
            \<and> (\<exists>n. st_slice (net_versions N y x ! u y) (st_signals_end (net_stream z N x y)) n = Some sl))"

text \<open>Routing appends messages to the streams, one after the other.\<close>

definition push_all ::
  "layout \<Rightarrow> ('p::linorder \<times> 'p request_or_response) list \<Rightarrow> 'p streams \<Rightarrow> 'p streams" where
  "push_all z ps ss = foldl (\<lambda>ss (d, m). ss_push z d m ss) ss ps"

inductive net_step ::
  "layout \<Rightarrow> (u64 \<Rightarrow> 'p::linorder) \<Rightarrow> 'p display \<Rightarrow> ('p \<Rightarrow> 'p stream_handler) \<Rightarrow> 'p network \<Rightarrow> 'p network \<Rightarrow> bool"
  for z fr dsp hs where
  process: "admissible z N x u slices \<Longrightarrow>
     process_stream_slices z fr dsp (hs x) (net_state N x) slices = Some s \<Longrightarrow>
     net_step z fr dsp hs N (net_advance z x s u (msgs_from slices) N)"
| execute: "state_ok z fr (hs x) s \<Longrightarrow> streams_of s = push_all z ps (streams_of (net_state N x)) \<Longrightarrow>
     net_step z fr dsp hs N (net_advance z x s (net_used N x) (\<lambda>y. []) N)"

inductive_cases net_stepE: "net_step z fr dsp hs N N'"

definition start_ok ::
  "layout \<Rightarrow> (u64 \<Rightarrow> 'p::linorder) \<Rightarrow> ('p \<Rightarrow> 'p stream_handler) \<Rightarrow> ('p \<Rightarrow> 'p replicated_state) \<Rightarrow> bool" where
  "start_ok z fr hs states \<longleftrightarrow>
     (\<forall>x. hd_subnet_id (hs x) = x \<and> streams_of (states x) = ss_new \<and> state_ok z fr (hs x) (states x))"

definition net_reachable ::
  "layout \<Rightarrow> (u64 \<Rightarrow> 'p::linorder) \<Rightarrow> 'p display \<Rightarrow> ('p \<Rightarrow> 'p stream_handler) \<Rightarrow> 'p network \<Rightarrow> bool" where
  "net_reachable z fr dsp hs N \<longleftrightarrow>
     (\<exists>states. start_ok z fr hs states \<and> (net_step z fr dsp hs)\<^sup>*\<^sup>* (net_start z states) N)"

section \<open>The invariant\<close>

text \<open>What holds of the stream from \<open>x\<close> to \<open>y\<close>, with the versions \<open>vs\<close> that it had, \<open>y\<close> having used
  the one at \<open>k\<close>, and the stream \<open>r\<close> from \<open>y\<close> back to \<open>x\<close>.\<close>

definition link_ok ::
  "layout \<Rightarrow> 'p request_or_response list \<Rightarrow> 'p request_or_response list \<Rightarrow> 'p stream list \<Rightarrow> nat \<Rightarrow> 'p stream \<Rightarrow> 'p stream \<Rightarrow> bool" where
  "link_ok z L I vs k s r \<longleftrightarrow>
     k < length vs \<and> last vs = s \<and> sorted_wrt later vs \<and> list_all (\<lambda>v. st_ok z v \<and> view_of L v) vs
     \<and> current L s \<and> I = take (st_signals_end r) L
     \<and> siq_begin (st_messages r) = st_signals_end (vs ! k) \<and> st_signals_end r \<le> siq_end (st_messages (vs ! k))
     \<and> siq_begin (st_messages s) \<le> st_signals_end r"

definition net_link :: "layout \<Rightarrow> 'p network \<Rightarrow> 'p \<Rightarrow> 'p \<Rightarrow> bool" where
  "net_link z N x y \<longleftrightarrow>
     link_ok z (net_routed N x y) (net_inducted N y x) (net_versions N x y) (net_used N y x)
       (net_stream z N x y) (net_stream z N y x)"

definition net_ok ::
  "layout \<Rightarrow> (u64 \<Rightarrow> 'p::linorder) \<Rightarrow> ('p \<Rightarrow> 'p stream_handler) \<Rightarrow> 'p network \<Rightarrow> bool" where
  "net_ok z fr hs N \<longleftrightarrow>
     (\<forall>x. hd_subnet_id (hs x) = x \<and> state_ok z fr (hs x) (net_state N x) \<and> loopback_ok z x (net_state N x))
     \<and> (\<forall>x y. x \<noteq> y \<longrightarrow> net_link z N x y)"

lemma sorted_later_nth:
  "sorted_wrt later vs \<Longrightarrow> i \<le> j \<Longrightarrow> j < length vs \<Longrightarrow> later (vs ! i) (vs ! j)"
  by (cases "i = j") (simp_all add: sorted_wrt_iff_nth_less)

lemma link_later:
  assumes "link_ok z L I vs k s r" and "j < length vs"
  shows "later (vs ! j) s"
proof -
  have "s = last vs" "vs \<noteq> []" using assms by (auto simp: link_ok_def)
  then have "s = vs ! (length vs - 1)" by (simp add: last_conv_nth)
  then show ?thesis using assms sorted_later_nth [of vs j "length vs - 1"] by (simp add: link_ok_def)
qed

lemma link_window:
  assumes "link_ok z L I vs k s r"
  shows "siq_begin (st_messages s) \<le> st_signals_end r" and "st_signals_end r \<le> siq_end (st_messages s)"
proof -
  have "later (vs ! k) s" using assms by (intro link_later [OF assms]) (simp add: link_ok_def)
  then show "st_signals_end r \<le> siq_end (st_messages s)" "siq_begin (st_messages s) \<le> st_signals_end r"
    using assms by (simp_all add: link_ok_def later_def)
qed

text \<open>The sender moves on.\<close>

lemma link_send:
  assumes "link_ok z L I vs k s r" and "evolves b n s s'" and "st_ok z s'" and "b \<le> st_signals_end r"
  shows "link_ok z (L @ new_messages s s') I (vs @ [s']) k s' r"
proof -
  have "later (vs ! j) s'" if "j < length vs" for j
    using link_later [OF assms(1) that] evolves_later [OF assms(2)] later_trans by blast
  then have "\<forall>v\<in>set vs. later v s'" by (metis in_set_conv_nth)
  moreover have "siq_begin (st_messages s') = b" using assms(2) by (simp add: evolves_def)
  moreover have "current (L @ new_messages s s') s'"
    using assms(1,2) by (intro current_evolves) (simp_all add: link_ok_def)
  moreover have "st_signals_end r \<le> length L"
    using link_window(2) [OF assms(1)] assms(1) current_end [of L s] by (simp add: link_ok_def)
  ultimately show ?thesis
    using assms by (auto simp: link_ok_def sorted_wrt_append list_all_iff nth_append view_of_append current_view)
qed

text \<open>The receiver moves on, having used version \<open>j\<close> and inducted a slice of it.\<close>

lemma link_receive:
  assumes "link_ok z L I vs k s r" and "k \<le> j" and "j < length vs"
    and sl: "st_slice (vs ! j) (st_signals_end r) n = Some sl"
    and ev: "evolves (st_signals_end (vs ! j)) (length (slice_msgs sl)) r r'"
  shows "link_ok z L (I @ slice_msgs sl) vs j s r'"
proof -
  have "view_of L (vs ! j)" using assms(1,3) by (simp add: link_ok_def list_all_length)
  then have m: "slice_msgs sl = take (length (slice_msgs sl)) (drop (st_signals_end r) L)"
    by (rule slice_msgs_view [OF sl])
  have sig: "st_signals_end r' = st_signals_end r + length (slice_msgs sl)"
    and bgn: "siq_begin (st_messages r') = st_signals_end (vs ! j)" using ev by (simp_all add: evolves_def)
  have "I @ slice_msgs sl = take (st_signals_end r') L"
    using assms(1) by (subst m) (simp add: link_ok_def sig take_add)
  moreover have "st_signals_end r' \<le> siq_end (st_messages (vs ! j))"
    using slice_of_version(5) [OF sl] by (simp add: sig)
  ultimately show ?thesis using assms(1,3) link_window(1) [OF assms(1)] by (simp add: link_ok_def sig bgn)
qed

lemma link_receive_idle:
  assumes "link_ok z L I vs k s r" and ev: "evolves (siq_begin (st_messages r)) 0 r r'"
  shows "link_ok z L I vs k s r'"
  using assms by (simp add: link_ok_def evolves_def)

lemma net_linkD: "net_ok z fr hs N \<Longrightarrow> x \<noteq> y \<Longrightarrow> net_link z N x y"
  by (simp add: net_ok_def)

text \<open>Slices that may be given to a subnet pass the checks of the stream handler.\<close>

lemma admissible_fits:
  assumes ok: "net_ok z fr hs N" and adm: "admissible z N x u slices"
  shows "fits_all z slices (net_state N x)"
proof -
  have "slice_fits sl (net_stream z N x y)" if sl: "bt_get slices y = Some sl" for y sl
  proof -
    let ?v = "net_versions N y x ! u y"
    have "x \<noteq> y" using adm sl by (auto simp: admissible_def slices_ok_def)
    then have xy: "net_link z N x y" and yx: "net_link z N y x" using net_linkD [OF ok] by auto
    obtain n where u: "net_used N x y \<le> u y" "u y < length (net_versions N y x)"
      and n: "st_slice ?v (st_signals_end (net_stream z N x y)) n = Some sl"
      using adm sl unfolding admissible_def by (force split: option.splits)
    note slice = slice_of_version [OF n]
    have "later (net_versions N y x ! net_used N x y) ?v"
      using yx u by (intro sorted_later_nth) (simp_all add: net_link_def link_ok_def)
    then have bgn: "siq_begin (st_messages (net_stream z N x y)) \<le> st_signals_end ?v"
      using yx by (simp add: net_link_def link_ok_def later_def)
    have "later ?v (net_stream z N y x)" using link_later yx u(2) unfolding net_link_def by blast
    then have fin: "st_signals_end ?v \<le> siq_end (st_messages (net_stream z N x y))"
      using link_window(2) [OF xy [unfolded net_link_def]] by (simp add: later_def)
    have "st_ok z ?v" using yx u(2) by (simp add: net_link_def link_ok_def list_all_length)
    then show ?thesis
      using bgn fin slice by (auto simp: slice_fits_def st_header_def st_ok_def split: option.splits)
  qed
  then show ?thesis by (simp add: fits_all_def)
qed

lemma net_process_ok:
  assumes ok: "net_ok z fr hs N" and "sized z" and adm: "admissible z N x u slices"
  shows "\<exists>s. process_stream_slices z fr dsp (hs x) (net_state N x) slices = Some s
    \<and> state_ok z fr (hs x) s \<and> loopback_ok z x s
    \<and> (\<forall>y. y \<noteq> x \<longrightarrow> processed slices y (net_stream z N x y) (strm z (streams_of s) y))"
  using process_ok [of z fr "hs x" "net_state N x" slices dsp] assms admissible_fits [OF ok adm]
  by (auto simp: net_ok_def admissible_def)

text \<open>A step of one subnet keeps the links when its streams evolve towards what the others have signalled.\<close>

lemma net_advance_ok:
  assumes ok: "net_ok z fr hs N" and st: "state_ok z fr (hs x) s" and loop: "loopback_ok z x s"
    and send: "\<And>y. y \<noteq> x \<Longrightarrow> \<exists>b n. evolves b n (net_stream z N x y) (strm z (streams_of s) y)
      \<and> b \<le> st_signals_end (net_stream z N y x)"
    and receive: "\<And>y. y \<noteq> x \<Longrightarrow>
      link_ok z (net_routed N y x) (net_inducted N x y @ ms y) (net_versions N y x) (u y)
        (net_stream z N y x) (strm z (streams_of s) y)"
  shows "net_ok z fr hs (net_advance z x s u ms N)"
proof -
  have out: "net_link z (net_advance z x s u ms N) x y" if y: "y \<noteq> x" for y
  proof -
    obtain b n where "evolves b n (net_stream z N x y) (strm z (streams_of s) y)" "b \<le> st_signals_end (net_stream z N y x)"
      using send [OF y] by blast
    moreover have "st_ok z (strm z (streams_of s) y)" using st by (simp add: state_ok_def ss_ok_strm)
    ultimately show ?thesis
      using link_send net_linkD [OF ok, of x y] y by (simp add: net_link_def net_advance_def)
  qed
  have "net_link z (net_advance z x s u ms N) y x" if "y \<noteq> x" for y
    using receive [OF that] that by (simp add: net_link_def net_advance_def)
  moreover have "net_link z (net_advance z x s u ms N) y w" if "y \<noteq> x" "w \<noteq> x" "y \<noteq> w" for y w
    using net_linkD [OF ok, of y w] that by (simp add: net_link_def net_advance_def)
  ultimately have "net_link z (net_advance z x s u ms N) y w" if "y \<noteq> w" for y w
    using out that by (cases "y = x"; cases "w = x") auto
  then show ?thesis using ok st loop by (auto simp: net_ok_def net_advance_def)
qed

lemma process_link:
  assumes ok: "net_ok z fr hs N" and adm: "admissible z N x u slices" and y: "y \<noteq> x"
    and pr: "processed slices y (net_stream z N x y) s'"
  shows "(\<exists>b n. evolves b n (net_stream z N x y) s' \<and> b \<le> st_signals_end (net_stream z N y x))
    \<and> link_ok z (net_routed N y x) (net_inducted N x y @ msgs_from slices y) (net_versions N y x) (u y)
        (net_stream z N y x) s'"
proof -
  have xy: "net_link z N x y" and yx: "net_link z N y x" using net_linkD [OF ok] y by auto
  note yx' = yx [unfolded net_link_def]
  show ?thesis
  proof (cases "bt_get slices y")
    case None
    then have ev: "evolves (siq_begin (st_messages (net_stream z N x y))) 0 (net_stream z N x y) s'"
      using pr by (simp add: processed_def grows_evolves)
    moreover have "u y = net_used N x y" using adm None unfolding admissible_def by (force split: option.splits)
    ultimately show ?thesis
      using link_receive_idle [OF yx' ev] link_window(1) [OF xy [unfolded net_link_def]] None
      by (auto simp: msgs_from_def)
  next
    case (Some sl)
    let ?v = "net_versions N y x ! u y"
    obtain n where u: "net_used N x y \<le> u y" "u y < length (net_versions N y x)"
      and n: "st_slice ?v (st_signals_end (net_stream z N x y)) n = Some sl"
      using adm Some unfolding admissible_def by (force split: option.splits)
    have "slice_fits sl (net_stream z N x y)" using admissible_fits [OF ok adm] Some by (simp add: fits_all_def)
    then have ev: "evolves (st_signals_end ?v) (length (slice_msgs sl)) (net_stream z N x y) s'"
      using processed_evolves [of sl _ s'] pr Some slice_of_version(1) [OF n] by (simp add: processed_def st_header_def)
    moreover have "st_signals_end ?v \<le> st_signals_end (net_stream z N y x)"
      using link_later [OF yx' u(2)] by (simp add: later_def)
    ultimately show ?thesis using link_receive [OF yx' u n ev] Some by (auto simp: msgs_from_def)
  qed
qed

lemma net_process_step:
  assumes ok: "net_ok z fr hs N" and "sized z" and adm: "admissible z N x u slices"
    and s: "process_stream_slices z fr dsp (hs x) (net_state N x) slices = Some s"
  shows "net_ok z fr hs (net_advance z x s u (msgs_from slices) N)"
proof -
  have st: "state_ok z fr (hs x) s" "loopback_ok z x s"
    and "\<And>y. y \<noteq> x \<Longrightarrow> processed slices y (net_stream z N x y) (strm z (streams_of s) y)"
    using net_process_ok [OF assms(1-3), of dsp] s by auto
  note link = process_link [OF ok adm _ this(3)]
  show ?thesis by (rule net_advance_ok [OF ok st]) (use link in auto)
qed

lemma push_all_stream:
  assumes "bt_wf (ss_streams ss)"
  shows "bt_wf (ss_streams (push_all z ps ss))
    \<and> siq_begin (st_messages (strm z (push_all z ps ss) y)) = siq_begin (st_messages (strm z ss y))
    \<and> st_signals_end (strm z (push_all z ps ss) y) = st_signals_end (strm z ss y)
    \<and> st_reject_signals (strm z (push_all z ps ss) y) = st_reject_signals (strm z ss y)
    \<and> siq_queue (st_messages (strm z (push_all z ps ss) y)) = siq_queue (st_messages (strm z ss y)) @ map snd (filter (\<lambda>p. fst p = y) ps)"
  using assms
proof (induction ps arbitrary: ss)
  case Nil
  then show ?case by (simp add: push_all_def)
next
  case (Cons p ps)
  obtain d m where p: "p = (d, m)" by (cases p)
  have wf: "bt_wf (ss_streams (ss_push z d m ss))" using Cons.prems by (simp add: ss_push_def bt.wf_ins)
  have eq: "push_all z (p # ps) ss = push_all z ps (ss_push z d m ss)" by (simp add: push_all_def p)
  have "strm z (ss_push z d m ss) y = (if y = d then st_push z m (strm z ss d) else strm z ss y)"
    using Cons.prems by (simp add: ss_push_handle strm_put_handle sh_push_def ss_get_mut_or_insert_def)
  then show ?case unfolding eq using Cons.IH [OF wf] by (simp add: p st_push_def)
qed

lemma net_execute_step:
  assumes ok: "net_ok z fr hs N" and st: "state_ok z fr (hs x) s"
    and s: "streams_of s = push_all z ps (streams_of (net_state N x))"
  shows "net_ok z fr hs (net_advance z x s (net_used N x) (\<lambda>y. []) N)"
proof -
  have "state_ok z fr (hs x) (net_state N x)" using ok by (simp add: net_ok_def)
  then have "bt_wf (ss_streams (streams_of (net_state N x)))" by (auto simp: state_ok_def dest: ss_ok_wf)
  note p = push_all_stream [OF this, of z ps, folded s]
  have ev: "evolves (siq_begin (st_messages (net_stream z N x y))) 0 (net_stream z N x y) (strm z (streams_of s) y)" for y
    using p [of y] by (simp add: evolves_def siq_end_def)
  have "loopback_ok z x s" using ok p [of x] by (simp add: net_ok_def loopback_ok_def)
  then show ?thesis
  proof (rule net_advance_ok [OF ok st])
    fix y assume "y \<noteq> x"
    then have xy: "net_link z N x y" and yx: "net_link z N y x" using net_linkD [OF ok] by auto
    show "\<exists>b n. evolves b n (net_stream z N x y) (strm z (streams_of s) y) \<and> b \<le> st_signals_end (net_stream z N y x)"
      using ev link_window(1) [OF xy [unfolded net_link_def]] by blast
    show "link_ok z (net_routed N y x) (net_inducted N x y @ []) (net_versions N y x) (net_used N x y)
        (net_stream z N y x) (strm z (streams_of s) y)"
      using link_receive_idle [OF yx [unfolded net_link_def] ev] by simp
  qed
qed

lemma net_start_ok:
  assumes "start_ok z fr hs states"
  shows "net_ok z fr hs (net_start z states)"
proof -
  have s: "strm z (streams_of (states x)) y = st_default z" for x y
    using assms by (simp add: start_ok_def ss_new_def stream_or_default_def)
  have "link_ok z [] [] [st_default z] 0 (st_default z) (st_default z)"
    by (simp add: link_ok_def current_def view_of_def) (simp add: st_default_def siq_default_def siq_end_def)
  then have "net_link z (net_start z states) x y" for x y by (simp add: net_link_def net_start_def s)
  moreover have "loopback_ok z x (states x)" for x
    by (simp add: loopback_ok_def s) (simp add: st_default_def siq_default_def)
  ultimately show ?thesis using assms by (simp add: net_ok_def start_ok_def net_start_def)
qed

lemma net_step_ok: "net_step z fr dsp hs N N' \<Longrightarrow> sized z \<Longrightarrow> net_ok z fr hs N \<Longrightarrow> net_ok z fr hs N'"
  by (erule net_stepE) (simp_all add: net_process_step net_execute_step)

lemma net_reachable_ok:
  assumes "net_reachable z fr dsp hs N" and "sized z"
  shows "net_ok z fr hs N"
proof -
  obtain states where "start_ok z fr hs states" "(net_step z fr dsp hs)\<^sup>*\<^sup>* (net_start z states) N"
    using assms(1) by (auto simp: net_reachable_def)
  from this(2) show ?thesis
    by (induction rule: rtranclp_induct) (simp_all add: net_start_ok [OF \<open>start_ok z fr hs states\<close>] net_step_ok [OF _ assms(2)])
qed

lemma net_reachable_step:
  "net_reachable z fr dsp hs N \<Longrightarrow> net_step z fr dsp hs N N' \<Longrightarrow> net_reachable z fr dsp hs N'"
  unfolding net_reachable_def by (meson rtranclp.rtrancl_into_rtrancl)

text \<open>The whole rest of the current stream may be given.\<close>

lemma slice_rest:
  "st_slice s i None = Some sl \<Longrightarrow> slice_msgs sl = drop (i - siq_begin (st_messages s)) (siq_queue (st_messages s))"
  by (auto simp: st_slice_def siq_slice_def slice_new_def slice_msgs_def siq_is_empty_def siq_len_def Let_def split: if_splits)

lemma admissible_current:
  assumes ok: "net_ok z fr hs N" and "x \<noteq> y"
  shows "\<exists>sl. st_slice (net_stream z N y x) (st_signals_end (net_stream z N x y)) None = Some sl
    \<and> admissible z N x ((net_used N x)(y := length (net_versions N y x) - 1)) [(y, sl)]
    \<and> net_inducted N x y @ slice_msgs sl = net_routed N y x"
proof -
  let ?s = "net_stream z N y x" and ?r = "net_stream z N x y" and ?vs = "net_versions N y x"
  have "net_link z N y x" using net_linkD [OF ok] assms(2) by auto
  then have link: "link_ok z (net_routed N y x) (net_inducted N x y) ?vs (net_used N x y) ?s ?r" by (simp add: net_link_def)
  then have vs: "net_used N x y < length ?vs" "last ?vs = ?s" by (simp_all add: link_ok_def)
  then have "?vs ! (length ?vs - 1) = ?s" by (metis last_conv_nth length_0_conv less_nat_zero_code)
  moreover obtain sl where sl: "st_slice ?s (st_signals_end ?r) None = Some sl"
    using slice_exists [OF link_window [OF link], of None] by blast
  ultimately have "admissible z N x ((net_used N x)(y := length ?vs - 1)) [(y, sl)]"
    using vs(1) assms(2) by (auto simp: admissible_def slices_ok_def bt_wf_def bt_get_def)
  moreover have "net_inducted N x y @ slice_msgs sl = net_routed N y x"
    using link link_window(1) [OF link] unfolding slice_rest [OF sl] by (simp add: link_ok_def current_def)
  ultimately show ?thesis using sl by blast
qed

lemma net_deliver:
  assumes ok: "net_ok z fr hs N" and "net_reachable z fr dsp hs N" and "sized z" and "x \<noteq> y"
  shows "\<exists>sl u s. st_slice (net_stream z N y x) (st_signals_end (net_stream z N x y)) None = Some sl
    \<and> process_stream_slices z fr dsp (hs x) (net_state N x) [(y, sl)] = Some s
    \<and> net_reachable z fr dsp hs (net_advance z x s u (msgs_from [(y, sl)]) N)
    \<and> net_inducted (net_advance z x s u (msgs_from [(y, sl)]) N) x y = net_routed N y x"
proof -
  let ?u = "(net_used N x)(y := length (net_versions N y x) - 1)"
  obtain sl where sl: "st_slice (net_stream z N y x) (st_signals_end (net_stream z N x y)) None = Some sl"
    "admissible z N x ?u [(y, sl)]" "net_inducted N x y @ slice_msgs sl = net_routed N y x"
    using admissible_current [OF ok assms(4)] by blast
  obtain s where s: "process_stream_slices z fr dsp (hs x) (net_state N x) [(y, sl)] = Some s"
    using net_process_ok [OF ok assms(3) sl(2), of dsp] by blast
  have "net_step z fr dsp hs N (net_advance z x s ?u (msgs_from [(y, sl)]) N)"
    by (rule net_step.process) (fact sl(2), fact s)
  then have "net_reachable z fr dsp hs (net_advance z x s ?u (msgs_from [(y, sl)]) N)"
    by (rule net_reachable_step [OF assms(2)])
  moreover have "net_inducted (net_advance z x s ?u (msgs_from [(y, sl)]) N) x y = net_routed N y x"
    using sl(3) by (simp add: net_advance_def msgs_from_def bt_get_def)
  ultimately show ?thesis using sl(1) s by blast
qed

end
