(* ===== verification/StreamBuilder_Correct.thy ===== *)
theory StreamBuilder_Correct
  imports StreamBuilder XNet CanisterQueues_System
begin

text \<open>
  The stream builder moves every message of an output queue to the stream of the subnet that hosts
  the receiver, in the order of the queue, until that stream is full. It never panics and its loop
  never runs into the safeguard against endless iteration.
\<close>

section \<open>Queues and their owners\<close>

definition owner_out :: "'p replicated_state \<Rightarrow> 'p queues_owner \<Rightarrow> 'p \<Rightarrow> 'p request_or_response list" where
  "owner_out s own c = (case owner_queues s own of None \<Rightarrow> [] | Some q \<Rightarrow> out_messages q c)"

text \<open>The invariants of the queues of all canisters and of the subnet.\<close>

definition queues_ok :: "layout \<Rightarrow> 'p::linorder replicated_state \<Rightarrow> bool" where
  "queues_ok z s \<longleftrightarrow> (\<forall>own q. owner_queues s own = Some q \<longrightarrow> cq_inv z q)"

lemma queues_okD: "queues_ok z s \<Longrightarrow> owner_queues s own = Some q \<Longrightarrow> cq_inv z q"
  by (simp add: queues_ok_def)

text \<open>A state in which only output queues, of one owner or of several, have changed.\<close>

definition inputs_kept :: "'p canister_queues \<Rightarrow> 'p canister_queues \<Rightarrow> bool" where
  "inputs_kept q q' \<longleftrightarrow> (\<forall>c. fst (cq_pair q' c) = fst (cq_pair q c))"

text \<open>A canister without its queues.\<close>

definition shell :: "'p replicated_state \<Rightarrow> 'p \<Rightarrow> 'p canister_state option" where
  "shell s c =
     map_option (\<lambda>cs. cs\<lparr>can_system_state := (can_system_state cs)\<lparr>sys_queues := undefined\<rparr>\<rparr>) (bt_get (rs_canister_states s) c)"

definition same_frame :: "'p::linorder replicated_state \<Rightarrow> 'p replicated_state \<Rightarrow> bool" where
  "same_frame s s' \<longleftrightarrow>
     rs_metadata s' = rs_metadata s \<and> shell s' = shell s
     \<and> (\<forall>own. rel_option inputs_kept (owner_queues s own) (owner_queues s' own))"

lemma same_frame_refl [simp]: "same_frame s s"
  by (simp add: same_frame_def inputs_kept_def option.rel_refl)

lemma inputs_kept_trans: "rel_option inputs_kept x y \<Longrightarrow> rel_option inputs_kept y w \<Longrightarrow> rel_option inputs_kept x w"
  by (cases x; cases y; cases w) (simp_all add: inputs_kept_def)

lemma same_frame_trans: "same_frame s s' \<Longrightarrow> same_frame s' s'' \<Longrightarrow> same_frame s s''"
  unfolding same_frame_def using inputs_kept_trans by metis

lemma put_owner_queues_ok:
  assumes "owner_queues s own = Some q" and "canisters_ok s"
  shows "\<exists>s'. put_owner_queues own q' s = Some s' \<and> canisters_ok s' \<and> rs_metadata s' = rs_metadata s
    \<and> owner_queues s' = (owner_queues s)(own := Some q') \<and> shell s' = shell s"
proof (cases own)
  case OfSubnet
  then show ?thesis
    using assms
    by (auto simp: put_owner_queues_def owner_queues_def canisters_ok_def fun_eq_iff shell_def split: queues_owner.splits)
next
  case (OfCanister c)
  have wf: "bt_wf (rs_canister_states s)" using assms(2) by (simp add: canisters_ok_def)
  show ?thesis
    using assms OfCanister
    by (auto simp: put_owner_queues_def owner_queues_def canisters_ok_def fun_eq_iff rs_put_canister_def bt.get_ins [OF wf]
        bt.wf_ins [OF wf] can_raw_memory_usage_def shell_def split: queues_owner.splits)
qed

section \<open>The output iterator of the state\<close>

definition iter_ok :: "'p replicated_state \<Rightarrow> 'p queues_owner \<times> 'p output_iterator \<Rightarrow> bool" where
  "iter_ok s x \<longleftrightarrow>
     (\<exists>q. owner_queues s (fst x) = Some q \<and> it_inv (snd x) q) \<and> it_queues (snd x) \<noteq> []"

definition oi_inv :: "'p replicated_state \<Rightarrow> 'p state_output_iterator \<Rightarrow> bool" where
  "oi_inv s oi \<longleftrightarrow>
     distinct (map fst (oi_iterators oi)) \<and> list_all (iter_ok s) (oi_iterators oi)
     \<and> oi_size oi = oi_compute_size (oi_iterators oi)"

text \<open>The queues whose messages the iterator still has to return.\<close>

definition pending :: "'p state_output_iterator \<Rightarrow> ('p queues_owner \<times> 'p) set" where
  "pending oi = (\<Union>x \<in> set (oi_iterators oi). Pair (fst x) ` set (it_queues (snd x)))"

lemma iter_ok_other: "iter_ok s x \<Longrightarrow> owner_queues s' (fst x) = owner_queues s (fst x) \<Longrightarrow> iter_ok s' x"
  by (simp add: iter_ok_def)

lemma it_size_pos: "it_inv it q \<Longrightarrow> it_queues it \<noteq> [] \<Longrightarrow> 0 < it_size it"
  by (cases "it_queues it") (auto simp: it_inv_def)

lemma oi_peek_ok:
  assumes "oi_inv s oi" and "queues_ok z s"
  shows "oi_peek oi s = Some (case oi_iterators oi of [] \<Rightarrow> None
    | x # _ \<Rightarrow> Some (\<lparr>src_canister = it_owner (snd x), dst_canister = hd (it_queues (snd x)), session_id = 0\<rparr>,
        hd (owner_out s (fst x) (hd (it_queues (snd x))))))"
proof (cases "oi_iterators oi")
  case (Cons x xs)
  obtain q where q: "owner_queues s (fst x) = Some q" "it_inv (snd x) q" "it_queues (snd x) \<noteq> []"
    using assms(1) Cons by (auto simp: oi_inv_def iter_ok_def)
  then show ?thesis
    using it_peek_ok [OF queues_okD [OF assms(2) q(1)] q(2)] Cons
    by (cases x; cases "it_queues (snd x)") (simp_all add: oi_peek_def owner_out_def)
qed (simp add: oi_peek_def)

text \<open>Rotating or removing the first iterator.\<close>

lemma oi_inv_step:
  assumes oi: "oi_inv s oi" "oi_iterators oi = (own, it) # rest"
    and s': "owner_queues s' = (owner_queues s)(own := Some q')" "it_inv it' q'"
    and oi': "oi_iterators oi' = (if it_queues it' \<noteq> [] then rest @ [(own, it')] else rest)
        \<or> oi_iterators oi' = (if it_queues it' \<noteq> [] then (own, it') # rest else rest)"
      "oi_size oi' = oi_size oi + it_size it' - it_size it"
  shows "oi_inv s' oi'" and "pending oi' = pending oi - Pair own ` set (it_queues it) \<union> Pair own ` set (it_queues it')"
proof -
  have own: "own \<notin> fst ` set rest" and d: "distinct (map fst rest)" using oi by (simp_all add: oi_inv_def)
  have "iter_ok s' x" if x: "x \<in> set rest" for x
  proof (rule iter_ok_other)
    show "iter_ok s x" using oi x by (simp add: oi_inv_def list_all_iff)
    have "fst x \<noteq> own" using own x by blast
    then show "owner_queues s' (fst x) = owner_queues s (fst x)" by (simp add: s'(1))
  qed
  then have rest: "list_all (iter_ok s') rest" by (simp add: list_all_iff)
  have it': "it_queues it' \<noteq> [] \<Longrightarrow> iter_ok s' (own, it')" using s' by (simp add: iter_ok_def)
  have size: "it_queues it' = [] \<Longrightarrow> it_size it' = 0" using s'(2) by (simp add: it_inv_def)
  have sz: "oi_size oi = it_size it + oi_compute_size rest" using oi by (simp add: oi_inv_def oi_compute_size_def)
  consider "it_queues it' = []" "oi_iterators oi' = rest" | "it_queues it' \<noteq> []" "oi_iterators oi' = rest @ [(own, it')]"
    | "it_queues it' \<noteq> []" "oi_iterators oi' = (own, it') # rest"
    using oi'(1) by (cases "it_queues it' = []") auto
  note cases = this
  from cases show "oi_inv s' oi'"
    by cases (use own d rest it' size sz oi'(2) in \<open>simp_all add: oi_inv_def oi_compute_size_def\<close>)
  let ?P = "\<Union>x \<in> set rest. Pair (fst x) ` set (it_queues (snd x))"
  from cases have "pending oi' = ?P \<union> Pair own ` set (it_queues it')"
    by cases (simp_all add: pending_def Un_commute)
  moreover have "?P \<inter> Pair own ` set (it_queues it) = {}" using own by auto
  then have "?P = pending oi - Pair own ` set (it_queues it)" by (simp add: pending_def oi(2) Un_Diff Diff_triv)
  ultimately show "pending oi' = pending oi - Pair own ` set (it_queues it) \<union> Pair own ` set (it_queues it')" by simp
qed

lemma owner_out_upd:
  "owner_queues s' = (owner_queues s)(own := Some q') \<Longrightarrow> owner_queues s own = Some q \<Longrightarrow>
   out_messages q' = (out_messages q)(c := ms) \<Longrightarrow> owner_out s' = (owner_out s)(own := (owner_out s own)(c := ms))"
  by (simp add: owner_out_def fun_eq_iff)

lemma queues_ok_upd:
  "queues_ok z s \<Longrightarrow> owner_queues s' = (owner_queues s)(own := Some q') \<Longrightarrow> cq_inv z q' \<Longrightarrow> queues_ok z s'"
  by (simp add: queues_ok_def)

lemma same_frame_upd:
  assumes "owner_queues s' = (owner_queues s)(own := Some q')" and "owner_queues s own = Some q" and "inputs_kept q q'"
    and "rs_metadata s' = rs_metadata s" and "shell s' = shell s"
  shows "same_frame s s'"
  using assms by (simp add: same_frame_def option.rel_refl inputs_kept_def)

lemma oi_next_ok:
  assumes oi: "oi_inv s oi" "oi_iterators oi = (own, it) # rest" and "queues_ok z s" and "canisters_ok s"
    and c: "c = hd (it_queues it)"
  shows "\<exists>m ms oi' s'. oi_next z oi s =
      Some (Some (\<lparr>src_canister = it_owner it, dst_canister = c, session_id = 0\<rparr>, m), oi', s')
    \<and> owner_out s own c = m # ms \<and> owner_out s' = (owner_out s)(own := (owner_out s own)(c := ms))
    \<and> oi_inv s' oi' \<and> queues_ok z s' \<and> canisters_ok s' \<and> same_frame s s' \<and> oi_size oi' < oi_size oi
    \<and> pending oi' \<subseteq> pending oi \<and> pending oi - pending oi' \<subseteq> (if ms = [] then {(own, c)} else {})"
proof -
  obtain q where q: "owner_queues s own = Some q" "it_inv it q" "it_queues it \<noteq> []"
    using oi by (auto simp: oi_inv_def iter_ok_def)
  obtain cs where cs: "it_queues it = c # cs" using q(3) c by (cases "it_queues it") auto
  obtain m ms where m: "out_messages q c = m # ms" using q(2) cs by (cases "out_messages q c") (auto simp: it_inv_def)
  obtain it' q' where pop: "it_pop z it q = Some (Some (\<lparr>src_canister = it_owner it, dst_canister = c, session_id = 0\<rparr>, m), it', q')"
    and it': "cq_inv z q'" "it_inv it' q'" "Suc (it_size it') = it_size it" "it_queues it' = cs @ (if ms = [] then [] else [c])"
      "out_messages q' = (out_messages q)(c := ms)" "inputs_kept q q'"
    using it_pop_ok [OF queues_okD [OF assms(3) q(1)] q(2) cs m] unfolding inputs_kept_def by blast
  obtain s' where s': "put_owner_queues own q' s = Some s'" "canisters_ok s'" "rs_metadata s' = rs_metadata s"
      "owner_queues s' = (owner_queues s)(own := Some q')" "shell s' = shell s"
    using put_owner_queues_ok [OF q(1) assms(4)] by blast
  have size: "it_size it \<le> oi_size oi" using oi by (simp add: oi_inv_def oi_compute_size_def)
  define oi' where "oi' = oi\<lparr>oi_iterators := (if \<not> it_is_empty it' then rest @ [(own, it')] else rest), oi_size := oi_size oi - 1\<rparr>"
  have next': "oi_next z oi s = Some (Some (\<lparr>src_canister = it_owner it, dst_canister = c, session_id = 0\<rparr>, m), oi', s')"
    using oi(2) q(1) pop s'(1) size it'(3) by (simp add: oi_next_def sub_usize_def oi'_def)
  have iters: "oi_iterators oi' = (if it_queues it' \<noteq> [] then rest @ [(own, it')] else rest)"
    by (simp add: oi'_def it_is_empty_def)
  have size': "oi_size oi' = oi_size oi + it_size it' - it_size it" using it'(3) by (simp add: oi'_def)
  note step = oi_inv_step [OF oi s'(4) it'(2) disjI1 [OF iters] size']
  have "pending oi' \<subseteq> pending oi" "pending oi - pending oi' \<subseteq> (if ms = [] then {(own, c)} else {})"
    unfolding step(2) using oi(2) cs it'(4) by (auto simp: pending_def)
  moreover have "oi_size oi' < oi_size oi" using size it'(3) by (simp add: oi'_def)
  moreover have "owner_out s own c = m # ms" using q(1) m by (simp add: owner_out_def)
  ultimately show ?thesis
    using next' step(1) s'(2) queues_ok_upd [OF assms(3) s'(4) it'(1)] owner_out_upd [OF s'(4) q(1) it'(5)]
      same_frame_upd [OF s'(4) q(1) it'(6) s'(3,5)] by blast
qed

lemma oi_exclude_ok:
  assumes oi: "oi_inv s oi" "oi_iterators oi = (own, it) # rest" and "queues_ok z s" and c: "c = hd (it_queues it)"
  shows "\<exists>oi'. oi_exclude_queue oi s = Some oi' \<and> oi_inv s oi' \<and> oi_size oi' < oi_size oi
    \<and> pending oi' = pending oi - {(own, c)}"
proof -
  obtain q where q: "owner_queues s own = Some q" "it_inv it q" "it_queues it \<noteq> []"
    using oi by (auto simp: oi_inv_def iter_ok_def)
  obtain cs where cs: "it_queues it = c # cs" using q(3) c by (cases "it_queues it") auto
  obtain it' where it': "it_exclude_queue it q = Some (length (out_messages q c), it')" "it_inv it' q" "it_queues it' = cs"
    using it_exclude_ok [OF queues_okD [OF assms(3) q(1)] q(2)] cs by auto
  have size: "it_size it = length (out_messages q c) + it_size it'" "out_messages q c \<noteq> []"
    using q(2) it'(2,3) cs by (auto simp: it_inv_def)
  have le: "it_size it \<le> oi_size oi" using oi by (simp add: oi_inv_def oi_compute_size_def)
  define oi' where "oi' = oi\<lparr>oi_iterators := (if \<not> it_is_empty it' then (own, it') # rest else rest),
      oi_size := oi_size oi - length (out_messages q c)\<rparr>"
  have ex: "oi_exclude_queue oi s = Some oi'"
    using oi(2) q(1) it'(1) size(1) le by (simp add: oi_exclude_queue_def sub_usize_def oi'_def)
  have iters: "oi_iterators oi' = (if it_queues it' \<noteq> [] then (own, it') # rest else rest)"
    by (simp add: oi'_def it_is_empty_def)
  have size': "oi_size oi' = oi_size oi + it_size it' - it_size it" using size(1) by (simp add: oi'_def)
  have "owner_queues s = (owner_queues s)(own := Some q)" using q(1) by auto
  note step = oi_inv_step [OF oi this it'(2) disjI2 [OF iters] size']
  have "c \<notin> set cs" using q(2) cs by (simp add: it_inv_def)
  then have "pending oi' = pending oi - {(own, c)}"
    unfolding step(2) using oi(2) cs it'(3) by (auto simp: pending_def)
  moreover have "oi_size oi' < oi_size oi" using size le by (cases "out_messages q c") (simp_all add: oi'_def)
  ultimately show ?thesis using ex step(1) by blast
qed

definition canister_iters :: "'p replicated_state \<Rightarrow> ('p queues_owner \<times> 'p output_iterator) list" where
  "canister_iters s =
     filter (\<lambda>(_, it). \<not> it_is_empty it)
       (map (\<lambda>(k, c). (OfCanister k, it_new k (sys_queues (can_system_state c)))) (rs_canister_states s))"

lemma canister_iters:
  assumes "bt_wf (rs_canister_states s)"
  shows "x \<in> set (canister_iters s) \<longleftrightarrow>
      (\<exists>k q. owner_queues s (OfCanister k) = Some q \<and> x = (OfCanister k, it_new k q) \<and> it_queues (it_new k q) \<noteq> [])"
    and "distinct (map fst (canister_iters s))"
proof -
  show "x \<in> set (canister_iters s) \<longleftrightarrow>
      (\<exists>k q. owner_queues s (OfCanister k) = Some q \<and> x = (OfCanister k, it_new k q) \<and> it_queues (it_new k q) \<noteq> [])"
    by (force simp: canister_iters_def it_is_empty_def owner_queues_def bt.get_iff_entry [OF assms])
  have "distinct (map OfCanister (map fst (rs_canister_states s)))"
    using bt.distinct_entries [OF assms] by (subst distinct_map) (simp add: inj_on_def)
  then have "distinct (map fst (map (\<lambda>(k, c). (OfCanister k, it_new k (sys_queues (can_system_state c)))) (rs_canister_states s)))"
    by (simp add: comp_def case_prod_unfold)
  then show "distinct (map fst (canister_iters s))" unfolding canister_iters_def by (rule distinct_map_filter)
qed

lemma oi_new_ok:
  assumes gen: "\<And>n. 0 < n \<Longrightarrow> gen_range seed n < n" and "queues_ok z s" and "canisters_ok s"
  shows "\<exists>oi. oi_new gen_range s seed = Some oi \<and> oi_inv s oi \<and> pending oi = {(own, c). owner_out s own c \<noteq> []}"
proof -
  have wf: "bt_wf (rs_canister_states s)" using assms(3) by (simp add: canisters_ok_def)
  let ?sub = "it_new (md_own_subnet_id (rs_metadata s)) (rs_subnet_queues s)"
  define rot where "rot = gen_range seed (max (length (canister_iters s)) 1)"
  define rotated where "rotated = drop rot (canister_iters s) @ take rot (canister_iters s)"
  define its where "its = (if \<not> it_is_empty ?sub then (OfSubnet, ?sub) # rotated else rotated)"
  define oi where "oi = \<lparr>oi_iterators = its, oi_size = oi_compute_size its\<rparr>"
  have "rot < max (length (canister_iters s)) 1" unfolding rot_def by (rule gen) simp
  then have rot: "rot \<le> length (canister_iters s)" by linarith
  have new: "oi_new gen_range s seed = Some oi"
    using rot by (simp add: oi_new_def Let_def canister_iters_def [symmetric] oi_def its_def rotated_def rot_def)
  have set: "set rotated = set (canister_iters s)" unfolding rotated_def by (metis append_take_drop_id set_append Un_commute)
  have inv: "it_inv (it_new k q) q \<and> set (it_queues (it_new k q)) = {c. owner_out s own c \<noteq> []}"
    if "owner_queues s own = Some q" for own q k
    using it_new_inv [OF queues_okD [OF assms(2) that], of k] that by (simp add: owner_out_def)
  have iters: "(own, it) \<in> set its \<longleftrightarrow> (\<exists>q. owner_queues s own = Some q \<and> it_queues it \<noteq> []
      \<and> it = it_new (case own of OfSubnet \<Rightarrow> md_own_subnet_id (rs_metadata s) | OfCanister k \<Rightarrow> k) q)" for own it
    using canister_iters(1) [OF wf] by (cases own) (auto simp: its_def set it_is_empty_def owner_queues_def)
  have "distinct (map fst rotated)"
    using canister_iters(2) [OF wf] unfolding rotated_def
    by (metis append_take_drop_id distinct_append inf_commute map_append)
  then have "distinct (map fst its)" using canister_iters(1) [OF wf] by (auto simp: its_def set)
  then have "oi_inv s oi" using inv by (auto simp: oi_inv_def oi_def list_all_iff iter_ok_def iters)
  moreover have "(own, c) \<in> pending oi \<longleftrightarrow> owner_out s own c \<noteq> []" for own c
  proof -
    have "(own, c) \<in> pending oi \<longleftrightarrow> (\<exists>it. (own, it) \<in> set its \<and> c \<in> set (it_queues it))"
      by (force simp: pending_def oi_def)
    also have "\<dots> \<longleftrightarrow> owner_out s own c \<noteq> []"
    proof (cases "owner_queues s own")
      case (Some q)
      note set' = inv [OF Some, THEN conjunct2]
      have "it_queues (it_new k q) \<noteq> []" if "owner_out s own c \<noteq> []" for k using set' [of k] that by fastforce
      then show ?thesis using Some set' by (auto simp: iters)
    qed (simp add: iters owner_out_def)
    finally show ?thesis .
  qed
  ultimately show ?thesis using new by (intro exI [of _ oi]) auto
qed

section \<open>The loop\<close>

text \<open>
  What the loop does with the messages it takes: \<open>(own, c, m)\<close> is message \<open>m\<close>, taken from the queue
  of \<open>own\<close> for receiver \<open>c\<close>.
\<close>

type_synonym 'p taken = "'p queues_owner \<times> 'p \<times> 'p request_or_response"

definition dest :: "(u64 \<Rightarrow> 'p::linorder) \<Rightarrow> 'p network_topology \<Rightarrow> 'p \<Rightarrow> 'p option" where
  "dest fr nt c = (case rt_route fr (nt_routing_table nt) c of Some r \<Rightarrow> r | None \<Rightarrow> None)"

definition oversized_request :: "'p request \<Rightarrow> bool" where
  "oversized_request req \<longleftrightarrow> request_payload_size_bytes req > MAX_INTER_CANISTER_PAYLOAD_IN_BYTES"

definition oversized_response :: "layout \<Rightarrow> 'p response \<Rightarrow> bool" where
  "oversized_response z rep \<longleftrightarrow> payload_size_bytes z (response_payload rep) > MAX_INTER_CANISTER_PAYLOAD_IN_BYTES"

fun stream_msgs :: "layout \<Rightarrow> 'p display \<Rightarrow> 'p \<Rightarrow> 'p \<Rightarrow> 'p request_or_response \<Rightarrow> 'p request_or_response list" where
  "stream_msgs z d own dn (Request req) = (if dn \<noteq> own \<and> oversized_request req then [] else [Request req])"
| "stream_msgs z d own dn (Response rep) =
     [Response (if oversized_response z rep then shrink_response z d rep else rep)]"

fun pushes ::
  "layout \<Rightarrow> (u64 \<Rightarrow> 'p::linorder) \<Rightarrow> 'p display \<Rightarrow> 'p \<Rightarrow> 'p network_topology \<Rightarrow> 'p taken \<Rightarrow> ('p \<times> 'p request_or_response) list"
where
  "pushes z fr d own nt (_, c, m) =
     (case dest fr nt c of Some dn \<Rightarrow> map (Pair dn) (stream_msgs z d own dn m) | None \<Rightarrow> [])"

fun unrouted :: "(u64 \<Rightarrow> 'p::linorder) \<Rightarrow> 'p network_topology \<Rightarrow> 'p taken \<Rightarrow> 'p request list" where
  "unrouted fr nt (_, c, Request req) = (if dest fr nt c = None then [req] else [])"
| "unrouted fr nt (_, c, Response rep) = []"

fun oversized :: "(u64 \<Rightarrow> 'p::linorder) \<Rightarrow> 'p \<Rightarrow> 'p network_topology \<Rightarrow> 'p taken \<Rightarrow> 'p request list" where
  "oversized fr own nt (_, c, Request req) =
     (case dest fr nt c of Some dn \<Rightarrow> if dn \<noteq> own \<and> oversized_request req then [req] else [] | None \<Rightarrow> [])"
| "oversized fr own nt (_, c, Response rep) = []"

definition taken_from :: "'p queues_owner \<Rightarrow> 'p \<Rightarrow> 'p taken list \<Rightarrow> 'p request_or_response list" where
  "taken_from own c xs = [m. (own', c', m) \<leftarrow> xs, own' = own \<and> c' = c]"

definition full ::
  "nat \<Rightarrow> (u64 \<Rightarrow> 'p::linorder) \<Rightarrow> 'p \<Rightarrow> nat \<Rightarrow> nat \<Rightarrow> 'p network_topology \<Rightarrow> 'p streams \<Rightarrow> 'p \<Rightarrow> bool" where
  "full szs fr own max_msgs target nt ss c \<longleftrightarrow>
     (\<exists>dn. dest fr nt c = Some dn \<and>
        is_at_limit szs (ss_get ss dn) max_msgs target (own = dn)
          (case bt_get (nt_subnet_types nt) dn of Some t \<Rightarrow> t | None \<Rightarrow> Application))"

definition built ::
  "layout \<Rightarrow> (u64 \<Rightarrow> 'p::linorder) \<Rightarrow> 'p display \<Rightarrow> 'p \<Rightarrow> 'p network_topology \<Rightarrow> 'p build_state \<Rightarrow> 'p taken list
   \<Rightarrow> 'p build_state \<Rightarrow> bool" where
  "built z fr d own nt b xs b' \<longleftrightarrow>
     same_frame (bs_state b) (bs_state b')
     \<and> (\<forall>o1 c. owner_out (bs_state b) o1 c = taken_from o1 c xs @ owner_out (bs_state b') o1 c)
     \<and> bs_streams b' = push_all z (concat (map (pushes z fr d own nt) xs)) (bs_streams b)
     \<and> bs_requests_to_reject b' = bs_requests_to_reject b @ concat (map (unrouted fr nt) xs)
     \<and> bs_oversized_requests b' = bs_oversized_requests b @ concat (map (oversized fr own nt) xs)
     \<and> (\<forall>(o1, c, m) \<in> set xs. (o1, c) \<in> pending (bs_iter b)) \<and> pending (bs_iter b') \<subseteq> pending (bs_iter b)"

lemma taken_from_append [simp]: "taken_from o1 c (xs @ ys) = taken_from o1 c xs @ taken_from o1 c ys"
  by (simp add: taken_from_def)

lemma taken_from_Nil [simp]: "taken_from o1 c [] = []"
  by (simp add: taken_from_def)

lemma taken_from_Cons [simp]:
  "taken_from o1 c ((o2, c2, m) # xs) = (if o2 = o1 \<and> c2 = c then m # taken_from o1 c xs else taken_from o1 c xs)"
  by (simp add: taken_from_def)

lemma push_all_append: "push_all z (ps @ qs) ss = push_all z qs (push_all z ps ss)"
  by (simp add: push_all_def)

lemma push_all_Nil [simp]: "push_all z [] ss = ss"
  by (simp add: push_all_def)

lemma built_refl: "built z fr d own nt b [] b"
  by (simp add: built_def)

lemma built_trans:
  assumes "built z fr d own nt b xs b1" and "built z fr d own nt b1 ys b2"
  shows "built z fr d own nt b (xs @ ys) b2"
  using assms same_frame_trans unfolding built_def by (fastforce simp: push_all_append)

lemma not_pending_kept:
  assumes "built z fr d own nt b xs b'" and "(o1, c) \<notin> pending (bs_iter b)"
  shows "owner_out (bs_state b') o1 c = owner_out (bs_state b) o1 c"
proof -
  have "taken_from o1 c xs = []" using assms by (fastforce simp: built_def taken_from_def)
  then show ?thesis using assms(1) by (simp add: built_def)
qed

text \<open>A stream that is at its limit stays so when messages are pushed.\<close>

lemma is_at_limit_push:
  assumes "bt_wf (ss_streams ss)" and "is_at_limit szs (ss_get ss dn) max_msgs target loc t"
  shows "is_at_limit szs (ss_get (ss_push z e m ss) dn) max_msgs target loc t"
  using assms
  by (auto simp: is_at_limit_def ss_get_def ss_push_def bt.get_ins [OF assms(1)] stream_or_default_def st_push_def
      siq_len_def st_count_bytes_def Let_def split: option.splits if_splits)

lemma full_push_all:
  assumes "bt_wf (ss_streams ss)" and "full szs fr own max_msgs target nt ss c"
  shows "full szs fr own max_msgs target nt (push_all z ps ss) c"
  using assms
proof (induction ps arbitrary: ss)
  case (Cons p ps)
  obtain e m where p: "p = (e, m)" by (cases p)
  have "bt_wf (ss_streams (ss_push z e m ss))" using Cons.prems(1) by (simp add: ss_push_def bt.wf_ins)
  moreover have "full szs fr own max_msgs target nt (ss_push z e m ss) c"
    using Cons.prems is_at_limit_push unfolding full_def by blast
  ultimately show ?case using Cons.IH by (simp add: push_all_def p)
qed simp

definition build_ok :: "layout \<Rightarrow> 'p::linorder build_state \<Rightarrow> bool" where
  "build_ok z b \<longleftrightarrow>
     oi_inv (bs_state b) (bs_iter b) \<and> queues_ok z (bs_state b) \<and> canisters_ok (bs_state b)
     \<and> bt_wf (ss_streams (bs_streams b))"

lemma push_all_wf: "bt_wf (ss_streams ss) \<Longrightarrow> bt_wf (ss_streams (push_all z ps ss))"
  using push_all_stream by blast

text \<open>Popping a message and doing with it what its destination requires.\<close>

definition handle_popped ::
  "layout \<Rightarrow> 'p::linorder display \<Rightarrow> 'p \<Rightarrow> 'p option \<Rightarrow> 'p request_or_response \<Rightarrow> 'p build_state \<Rightarrow> 'p build_state" where
  "handle_popped z d own r msg b =
     (case r of
        Some dn \<Rightarrow> route_popped z d own dn msg b
      | None \<Rightarrow> (case msg of
          Request req \<Rightarrow> b\<lparr>bs_requests_to_reject := bs_requests_to_reject b @ [req]\<rparr> | Response rep \<Rightarrow> b))"

lemma handle_popped_fields:
  fixes o1 :: "'p::linorder queues_owner"
  shows "bs_state (handle_popped z d own (dest fr nt c) m b) = bs_state b"
    and "bs_iter (handle_popped z d own (dest fr nt c) m b) = bs_iter b"
    and "bs_streams (handle_popped z d own (dest fr nt c) m b) = push_all z (pushes z fr d own nt (o1, c, m)) (bs_streams b)"
    and "bs_requests_to_reject (handle_popped z d own (dest fr nt c) m b) = bs_requests_to_reject b @ unrouted fr nt (o1, c, m)"
    and "bs_oversized_requests (handle_popped z d own (dest fr nt c) m b) = bs_oversized_requests b @ oversized fr own nt (o1, c, m)"
  by (cases m; cases "dest fr nt c";
      simp add: handle_popped_def route_popped_def push_all_def oversized_request_def oversized_response_def)+

lemma pop_step:
  assumes "build_ok z b" and it: "oi_iterators (bs_iter b) = (o1, it) # rest" and c: "c = hd (it_queues it)"
  shows "\<exists>m b'. map_option (\<lambda>(m, b1). handle_popped z d own (dest fr nt c) m b1) (validated_next z b) = Some b'
    \<and> built z fr d own nt b [(o1, c, m)] b' \<and> build_ok z b' \<and> oi_size (bs_iter b') < oi_size (bs_iter b)
    \<and> (\<forall>p \<in> pending (bs_iter b) - pending (bs_iter b'). owner_out (bs_state b') (fst p) (snd p) = [])"
proof -
  obtain m ms oi' s' where nx: "oi_next z (bs_iter b) (bs_state b) =
      Some (Some (\<lparr>src_canister = it_owner it, dst_canister = c, session_id = 0\<rparr>, m), oi', s')"
    and out: "owner_out (bs_state b) o1 c = m # ms"
      "owner_out s' = (owner_out (bs_state b))(o1 := (owner_out (bs_state b) o1)(c := ms))"
    and ok: "oi_inv s' oi'" "queues_ok z s'" "canisters_ok s'" "same_frame (bs_state b) s'"
      "oi_size oi' < oi_size (bs_iter b)" "pending oi' \<subseteq> pending (bs_iter b)"
      "pending (bs_iter b) - pending oi' \<subseteq> (if ms = [] then {(o1, c)} else {})"
    using oi_next_ok [OF _ it _ _ c] assms(1) unfolding build_ok_def by metis
  let ?b = "b\<lparr>bs_iter := oi', bs_state := s'\<rparr>"
  let ?b' = "handle_popped z d own (dest fr nt c) m ?b"
  note f = handle_popped_fields(1,2) [of z d own fr nt c m ?b] and g = handle_popped_fields(3-5) [of z d own fr nt c m ?b o1]
  have "(o1, c) \<in> pending (bs_iter b)"
    using assms(1) it c by (cases "it_queues it") (auto simp: build_ok_def oi_inv_def iter_ok_def pending_def)
  then have "built z fr d own nt b [(o1, c, m)] ?b'"
    using ok out by (simp add: built_def f g)
  moreover have "build_ok z ?b'" using assms(1) ok by (simp add: build_ok_def f g(1) push_all_wf)
  moreover have "\<forall>p \<in> pending (bs_iter b) - pending oi'. owner_out s' (fst p) (snd p) = []"
    using ok(7) out(2) by (auto split: if_splits)
  ultimately show ?thesis
    using nx ok(5) by (intro exI [of _ m] exI [of _ ?b']) (simp add: validated_next_def f)
qed

text \<open>Every message that was taken from a queue leaves it empty, or its destination is full.\<close>

definition done_with ::
  "nat \<Rightarrow> (u64 \<Rightarrow> 'p::linorder) \<Rightarrow> 'p \<Rightarrow> nat \<Rightarrow> nat \<Rightarrow> 'p network_topology \<Rightarrow> 'p build_state \<Rightarrow> 'p queues_owner \<times> 'p \<Rightarrow> bool" where
  "done_with szs fr own max_msgs target nt b p \<longleftrightarrow>
     owner_out (bs_state b) (fst p) (snd p) = [] \<or> full szs fr own max_msgs target nt (bs_streams b) (snd p)"

lemma done_with_built:
  assumes "done_with szs fr own max_msgs target nt b p" and "built z fr d own nt b xs b'" and "build_ok z b"
  shows "done_with szs fr own max_msgs target nt b' p"
proof -
  have "owner_out (bs_state b) (fst p) (snd p) = taken_from (fst p) (snd p) xs @ owner_out (bs_state b') (fst p) (snd p)"
    using assms(2) by (simp add: built_def)
  moreover have "bs_streams b' = push_all z (concat (map (pushes z fr d own nt) xs)) (bs_streams b)"
    using assms(2) by (simp add: built_def)
  ultimately show ?thesis
    using assms(1,3) full_push_all unfolding done_with_def build_ok_def by fastforce
qed

lemma route_step:
  assumes ok: "build_ok z b" and it: "oi_iterators (bs_iter b) = (o1, it) # rest" and c: "c = hd (it_queues it)"
    and route: "rt_route fr (nt_routing_table nt) c \<noteq> None"
  shows "\<exists>xs b'. route_message z szs fr d own max_msgs target nt
        \<lparr>src_canister = it_owner it, dst_canister = c, session_id = 0\<rparr> b = Some b'
    \<and> built z fr d own nt b xs b' \<and> build_ok z b' \<and> oi_size (bs_iter b') < oi_size (bs_iter b)
    \<and> (\<forall>p \<in> pending (bs_iter b) - pending (bs_iter b'). done_with szs fr own max_msgs target nt b' p)"
proof (cases "full szs fr own max_msgs target nt (bs_streams b) c")
  case True
  then obtain dn where dn: "rt_route fr (nt_routing_table nt) c = Some (Some dn)"
    and lim: "is_at_limit szs (ss_get (bs_streams b) dn) max_msgs target (own = dn)
      (case bt_get (nt_subnet_types nt) dn of Some t \<Rightarrow> t | None \<Rightarrow> Application)"
    by (auto simp: full_def dest_def split: option.splits)
  obtain oi' where oi': "oi_exclude_queue (bs_iter b) (bs_state b) = Some oi'" "oi_inv (bs_state b) oi'"
      "oi_size oi' < oi_size (bs_iter b)" "pending oi' = pending (bs_iter b) - {(o1, c)}"
    using oi_exclude_ok [OF _ it _ c] ok unfolding build_ok_def by blast
  let ?b' = "b\<lparr>bs_iter := oi'\<rparr>"
  have "built z fr d own nt b [] ?b'" "build_ok z ?b'"
    using ok oi' by (auto simp: built_def build_ok_def)
  moreover have "done_with szs fr own max_msgs target nt ?b' p" if "p \<in> pending (bs_iter b) - pending oi'" for p
  proof -
    have "snd p = c" using that unfolding oi'(4) by force
    then show ?thesis using True by (simp add: done_with_def)
  qed
  moreover have "route_message z szs fr d own max_msgs target nt
      \<lparr>src_canister = it_owner it, dst_canister = c, session_id = 0\<rparr> b = Some ?b'"
    using oi'(1) dn lim by (simp add: route_message_def)
  ultimately show ?thesis using oi'(3) by (intro exI [of _ "[]"] exI [of _ ?b']) simp
next
  case False
  have eq: "route_message z szs fr d own max_msgs target nt
        \<lparr>src_canister = it_owner it, dst_canister = c, session_id = 0\<rparr> b
      = map_option (\<lambda>(m, b1). handle_popped z d own (dest fr nt c) m b1) (validated_next z b)"
    using False route
    by (auto simp: route_message_def handle_popped_def full_def dest_def split: option.splits)
  show ?thesis using pop_step [OF ok it c] unfolding eq done_with_def by blast
qed

lemma build_loop_ok:
  assumes "build_ok z b" and "\<And>c. rt_route fr (nt_routing_table nt) c \<noteq> None" and "oi_size (bs_iter b) < last_output_size"
  shows "\<exists>xs b'. build_loop z szs fr d own max_msgs target nt last_output_size b = Some b'
    \<and> built z fr d own nt b xs b' \<and> build_ok z b'
    \<and> (\<forall>p \<in> pending (bs_iter b). done_with szs fr own max_msgs target nt b' p)"
  using assms(1,3)
proof (induction last_output_size arbitrary: b rule: less_induct)
  case (less n)
  have peek: "oi_inv (bs_state b) (bs_iter b)" "queues_ok z (bs_state b)" using less.prems(1) by (simp_all add: build_ok_def)
  show ?case
  proof (cases "oi_iterators (bs_iter b)")
    case Nil
    then show ?thesis
      using oi_peek_ok [OF peek] less.prems(1) built_refl
      by (intro exI [of _ "[]"] exI [of _ b]) (simp add: build_loop.simps [of _ _ _ _ _ _ _ _ _ b] pending_def)
  next
    case (Cons x rest)
    obtain o1 it where x: "x = (o1, it)" by (cases x)
    obtain xs b1 where b1: "route_message z szs fr d own max_msgs target nt
          \<lparr>src_canister = it_owner it, dst_canister = hd (it_queues it), session_id = 0\<rparr> b = Some b1"
        "built z fr d own nt b xs b1" "build_ok z b1" "oi_size (bs_iter b1) < oi_size (bs_iter b)"
      and d1: "\<And>p. p \<in> pending (bs_iter b) - pending (bs_iter b1) \<Longrightarrow> done_with szs fr own max_msgs target nt b1 p"
      using route_step [OF less.prems(1) Cons [unfolded x] refl assms(2)] by blast
    obtain ys b2 where b2: "build_loop z szs fr d own max_msgs target nt (oi_size (bs_iter b)) b1 = Some b2"
        "built z fr d own nt b1 ys b2" "build_ok z b2"
      and d2: "\<And>p. p \<in> pending (bs_iter b1) \<Longrightarrow> done_with szs fr own max_msgs target nt b2 p"
      using less.IH [OF less.prems(2) b1(3,4)] by blast
    have "build_loop z szs fr d own max_msgs target nt n b = Some b2"
      using oi_peek_ok [OF peek] Cons x less.prems(2) b1(1) b2(1) by (subst build_loop.simps) simp
    moreover have "done_with szs fr own max_msgs target nt b2 p" if "p \<in> pending (bs_iter b)" for p
      using that d1 d2 done_with_built [OF _ b2(2) b1(3)] by blast
    ultimately show ?thesis using built_trans [OF b1(2) b2(2)] b2(3) by blast
  qed
qed

section \<open>Rejecting requests\<close>

definition wf_queues :: "'p::linorder replicated_state \<Rightarrow> bool" where
  "wf_queues s \<longleftrightarrow> (\<forall>own q. owner_queues s own = Some q \<longrightarrow> bt_wf (cq_queues q))"

text \<open>The canister waits for a response to its request.\<close>

definition awaits :: "'p call_context_manager \<Rightarrow> 'p request \<Rightarrow> bool" where
  "awaits ccm req \<longleftrightarrow>
     (\<exists>cb. ccm_callback ccm (sender_reply_callback req) = Some cb
       \<and> (cb_respondent cb = None \<or> cb_originator cb = None
          \<or> cb_respondent cb = Some (receiver req) \<and> cb_originator cb = Some (sender req)))"

definition accepts :: "'p replicated_state \<Rightarrow> 'p request \<Rightarrow> bool" where
  "accepts s req \<longleftrightarrow>
     (\<exists>cs ccm. shell s (sender req) = Some cs \<and> awaits ccm req
       \<and> (sys_status (can_system_state cs) = Running ccm \<or> (\<exists>ctx. sys_status (can_system_state cs) = Stopping ccm ctx)))"

definition local_reject :: "reject_code \<Rightarrow> string \<Rightarrow> 'p request \<Rightarrow> 'p response" where
  "local_reject code message req =
     \<lparr>originator = sender req, respondent = receiver req, originator_reply_callback = sender_reply_callback req,
      refund = payment req,
      response_payload = Reject (new_with_message_length_limit code message MR_SYNTHETIC_REJECT_MESSAGE_MAX_LEN)\<rparr>"

lemma cq_push_reject:
  assumes wf: "bt_wf (cq_queues q)" and "0 < iq_reserved_slots (fst (cq_pair q (respondent rep)))"
  shows "\<exists>q' iq'. cq_push_input z q (Response rep) t = (q', Inr ()) \<and> bt_wf (cq_queues q')
    \<and> cq_pair q' = (cq_pair q)(respondent rep := (iq', snd (cq_pair q (respondent rep))))
    \<and> iq_messages iq' = iq_messages (fst (cq_pair q (respondent rep))) @ [Response rep]
    \<and> Suc (iq_reserved_slots iq') = iq_reserved_slots (fst (cq_pair q (respondent rep)))"
proof -
  obtain v where v: "bt_get (cq_queues q) (respondent rep) = Some v"
    using assms(2) by (cases "bt_get (cq_queues q) (respondent rep)")
      (auto simp: cq_pair_def iq_reserved_slots_def qwr_reserved_slots_def iq_new_def qwr_new_def)
  have pair: "cq_pair q (respondent rep) = v" using v by (rule cq_pair_get)
  obtain iq' where iq': "iq_push (fst v) (Response rep) = Inr iq'"
    using iq_push_iff [of "fst v" "Response rep"] assms(2) by (auto simp: pair)
  obtain q' where q': "cq_push_input z q (Response rep) t = (q', Inr ())"
      "cq_queues q' = bt_insert (respondent rep) (iq', snd v) (cq_queues q)"
    using v iq' by (auto simp: cq_push_input_def cq_push_selected_def cq_put_def cq_schedule_push_def Let_def split: input_queue_type.splits)
  have "cq_pair q' = (cq_pair q)(respondent rep := (iq', snd v))"
    by (auto simp: cq_pair_def q'(2) bt.get_ins [OF wf] fun_eq_iff)
  then show ?thesis
    using q' iq_push_ok [OF iq'] bt.wf_ins [OF wf] by (intro exI [of _ q'] exI [of _ iq']) (simp add: pair)
qed

definition in_queue :: "'p replicated_state \<Rightarrow> 'p \<Rightarrow> 'p \<Rightarrow> 'p input_queue" where
  "in_queue s c r =
     (case owner_queues s (OfCanister c) of Some q \<Rightarrow> fst (cq_pair q r) | None \<Rightarrow> iq_new DEFAULT_QUEUE_CAPACITY)"

definition to_reject :: "'p \<Rightarrow> 'p \<Rightarrow> 'p request list \<Rightarrow> 'p request list" where
  "to_reject c r reqs = filter (\<lambda>req. sender req = c \<and> receiver req = r) reqs"

text \<open>Requests were rejected: the senders got the reject responses, in the slots reserved for them.\<close>

definition rejected ::
  "reject_code \<Rightarrow> ('p request \<Rightarrow> string) \<Rightarrow> 'p request list \<Rightarrow> 'p::linorder replicated_state \<Rightarrow> 'p replicated_state \<Rightarrow> bool" where
  "rejected code message reqs s s' \<longleftrightarrow>
     canisters_ok s' \<and> wf_queues s' \<and> rs_metadata s' = rs_metadata s \<and> shell s' = shell s \<and> owner_out s' = owner_out s
     \<and> (\<forall>c r. iq_messages (in_queue s' c r) =
          iq_messages (in_queue s c r) @ map (\<lambda>req. Response (local_reject code (message req) req)) (to_reject c r reqs))
     \<and> (\<forall>c r. iq_reserved_slots (in_queue s' c r) + length (to_reject c r reqs) = iq_reserved_slots (in_queue s c r))"

lemma can_push_reject:
  assumes "sender req = sys_canister_id (can_system_state cs)" and "can_raw_memory_usage cs \<noteq> None"
    and "awaits ccm req"
    and "sys_status (can_system_state cs) = Running ccm \<or> (\<exists>ctx. sys_status (can_system_state cs) = Stopping ccm ctx)"
    and push: "cq_push_input z (sys_queues (can_system_state cs)) (Response (local_reject code m req)) t = (q', Inr ())"
  shows "\<exists>avail. ReplicatedState.can_push_input z cs (Response (local_reject code m req)) mx b ty t
    = Some (cs\<lparr>can_system_state := (can_system_state cs)\<lparr>sys_queues := q'\<rparr>\<rparr>, avail, Inr ())"
proof -
  obtain a where a: "can_available_message_memory z cs mx ty = Some a"
    using assms(2) by (cases "ty = System") (auto simp: can_available_message_memory_def can_memory_usage_def)
  have v: "validate_response ccm (local_reject code m req) = Inr ()"
    using assms(3) by (auto simp: awaits_def validate_response_def local_reject_def split: option.splits)
  have q: "\<exists>avail. queues_push_input z (sys_queues (can_system_state cs)) (Response (local_reject code m req)) a b ty t
      = (q', avail, Inr ())"
    using push by (auto simp: queues_push_input_def can_push_def Let_def)
  have "rr_receiver (Response (local_reject code m req)) = sys_canister_id (can_system_state cs)"
    using assms(1) by (simp add: local_reject_def)
  then have "\<exists>avail. sys_push_input z (can_system_state cs) (Response (local_reject code m req)) a b ty t
      = Some ((can_system_state cs)\<lparr>sys_queues := q'\<rparr>, avail, Inr ())"
    using assms(4) v q by (auto simp: sys_push_input_def Let_def)
  then show ?thesis by (auto simp: ReplicatedState.can_push_input_def a)
qed

lemma reject_step:
  assumes "canisters_ok s" and "wf_queues s" and "accepts s req" and "0 < iq_reserved_slots (in_queue s (sender req) (receiver req))"
  shows "\<exists>s'. reject_local_request z s req code (message req) = Some s' \<and> rejected code message [req] s s'"
proof -
  let ?c = "sender req" and ?rep = "local_reject code (message req) req"
  obtain cs ccm where cs: "bt_get (rs_canister_states s) ?c = Some cs" and st: "awaits ccm req"
      "sys_status (can_system_state cs) = Running ccm \<or> (\<exists>ctx. sys_status (can_system_state cs) = Stopping ccm ctx)"
    using assms(3) by (auto simp: accepts_def shell_def)
  let ?q = "sys_queues (can_system_state cs)"
  have q: "owner_queues s (OfCanister ?c) = Some ?q" by (simp add: owner_queues_def cs)
  have wf: "bt_wf (cq_queues ?q)" using assms(2) q by (simp add: wf_queues_def)
  have c: "?c = sys_canister_id (can_system_state cs)" "can_raw_memory_usage cs \<noteq> None"
    using assms(1) cs by (auto simp: canisters_ok_def)
  have slot: "0 < iq_reserved_slots (fst (cq_pair ?q (respondent ?rep)))"
    using assms(4) q by (simp add: in_queue_def local_reject_def)
  define t where "t = (if rr_sender (Response ?rep) = md_own_subnet_id (rs_metadata s)
      \<or> bt_contains_key (rs_canister_states s) (rr_sender (Response ?rep)) then LocalSubnet else RemoteSubnet)"
  obtain q' iq' where push: "cq_push_input z ?q (Response ?rep) t = (q', Inr ())" "bt_wf (cq_queues q')"
      "cq_pair q' = (cq_pair ?q)(receiver req := (iq', snd (cq_pair ?q (receiver req))))"
      "iq_messages iq' = iq_messages (fst (cq_pair ?q (receiver req))) @ [Response ?rep]"
      "Suc (iq_reserved_slots iq') = iq_reserved_slots (fst (cq_pair ?q (receiver req)))"
    using cq_push_reject [OF wf slot, of z t] by (auto simp: local_reject_def)
  obtain avail where can: "ReplicatedState.can_push_input z cs (Response ?rep) ((2 ^ 63 - 1) div 2) ((2 ^ 63 - 1) div 2)
      (md_own_subnet_type (rs_metadata s)) t = Some (cs\<lparr>can_system_state := (can_system_state cs)\<lparr>sys_queues := q'\<rparr>\<rparr>, avail, Inr ())"
    using can_push_reject [OF c st push(1)] by blast
  obtain s' where s': "put_owner_queues (OfCanister ?c) q' s = Some s'" "canisters_ok s'" "rs_metadata s' = rs_metadata s"
      "owner_queues s' = (owner_queues s)(OfCanister ?c := Some q')" "shell s' = shell s"
    using put_owner_queues_ok [OF q assms(1)] by blast
  have recv: "rr_receiver (Response ?rep) = ?c" by (simp add: local_reject_def)
  have "s' = rs_put_canister ?c (cs\<lparr>can_system_state := (can_system_state cs)\<lparr>sys_queues := q'\<rparr>\<rparr>) s"
    using s'(1) cs by (simp add: put_owner_queues_def)
  then have "rs_push_input z s (Response ?rep) ((2 ^ 63 - 1) div 2) ((2 ^ 63 - 1) div 2) = Some (s', avail, Inr ())"
    using can unfolding rs_push_input_def Let_def t_def [symmetric] recv cs by simp
  then have "reject_local_request z s req code (message req) = Some s'"
    by (simp add: reject_local_request_def local_reject_def)
  moreover have "in_queue s' a r = (if a = ?c \<and> r = receiver req then iq' else in_queue s a r)" for a r
    using q push(3) by (simp add: in_queue_def s'(4))
  moreover have "owner_out s' = owner_out s"
    using q push(3) by (simp add: owner_out_def s'(4) fun_eq_iff out_messages_def)
  ultimately show ?thesis
    using s'(2,3,5) q push(2,4,5) assms(2) by (simp add: rejected_def to_reject_def in_queue_def wf_queues_def s'(4))
qed

lemma to_reject_append [simp]: "to_reject c r (xs @ ys) = to_reject c r xs @ to_reject c r ys"
  by (simp add: to_reject_def)

lemma rejected_trans:
  assumes "rejected code message reqs s s1" and "rejected code message reqs' s1 s2"
  shows "rejected code message (reqs @ reqs') s s2"
proof -
  have "iq_reserved_slots (in_queue s2 c r) + (length (to_reject c r reqs) + length (to_reject c r reqs'))
      = iq_reserved_slots (in_queue s c r)" for c r
  proof -
    have "iq_reserved_slots (in_queue s2 c r) + length (to_reject c r reqs') = iq_reserved_slots (in_queue s1 c r)"
      and "iq_reserved_slots (in_queue s1 c r) + length (to_reject c r reqs) = iq_reserved_slots (in_queue s c r)"
      using assms by (simp_all add: rejected_def)
    then show ?thesis by simp
  qed
  then show ?thesis using assms by (simp add: rejected_def)
qed

lemma reject_all_ok:
  assumes "canisters_ok s" and "wf_queues s" and "\<And>req. req \<in> set reqs \<Longrightarrow> accepts s req"
    and "\<And>c r. length (to_reject c r reqs) \<le> iq_reserved_slots (in_queue s c r)"
  shows "\<exists>s'. reject_all z s code message reqs = Some s' \<and> rejected code message reqs s s'"
  using assms
proof (induction reqs arbitrary: s)
  case Nil
  then show ?case by (simp add: rejected_def to_reject_def)
next
  case (Cons req reqs)
  have "0 < iq_reserved_slots (in_queue s (sender req) (receiver req))"
    using Cons.prems(4) [of "sender req" "receiver req"] by (simp add: to_reject_def)
  then obtain s1 where s1: "reject_local_request z s req code (message req) = Some s1" "rejected code message [req] s s1"
    using reject_step [OF Cons.prems(1,2)] Cons.prems(3) by fastforce
  have ok: "canisters_ok s1" "wf_queues s1" "\<And>req'. req' \<in> set reqs \<Longrightarrow> accepts s1 req'"
    using s1(2) Cons.prems(3) by (simp_all add: rejected_def accepts_def)
  have "length (to_reject c r reqs) \<le> iq_reserved_slots (in_queue s1 c r)" for c r
  proof -
    have "iq_reserved_slots (in_queue s1 c r) + length (to_reject c r [req]) = iq_reserved_slots (in_queue s c r)"
      using s1(2) by (simp add: rejected_def)
    moreover have "length (to_reject c r (req # reqs)) = length (to_reject c r [req]) + length (to_reject c r reqs)"
      by (simp add: to_reject_def)
    ultimately show ?thesis using Cons.prems(4) [of c r] by simp
  qed
  then obtain s2 where "reject_all z s1 code message reqs = Some s2" "rejected code message reqs s1 s2"
    using Cons.IH [OF ok] by blast
  then show ?case using s1(1) rejected_trans [OF s1(2)] by fastforce
qed

section \<open>Building the streams\<close>

text \<open>
  Messages in an output queue are for the receiver of that queue. Requests are from the canister
  that owns the queue; it waits for a response and has a slot for it.
\<close>

definition calls_ok :: "'p replicated_state \<Rightarrow> bool" where
  "calls_ok s \<longleftrightarrow>
     (\<forall>own c m. m \<in> set (owner_out s own c) \<longrightarrow> rr_receiver m = c)
     \<and> (\<forall>own c req. Request req \<in> set (owner_out s own c) \<longrightarrow> own = OfCanister (sender req) \<and> accepts s req)
     \<and> (\<forall>c r. sum_list (map request_count (owner_out s (OfCanister c) r)) \<le> iq_reserved_slots (in_queue s c r))"

lemma rejects_counted:
  assumes "\<And>own' c req. (own', c, Request req) \<in> set xs \<Longrightarrow> own' = OfCanister (sender req) \<and> c = receiver req"
  shows "length (to_reject c r (concat (map (unrouted fr nt) xs))) + length (to_reject c r (concat (map (oversized fr own nt) xs)))
    \<le> sum_list (map request_count (taken_from (OfCanister c) r xs))"
  using assms
proof (induction xs)
  case (Cons x xs)
  obtain o1 c1 m where x: "x = (o1, c1, m)" by (metis prod_cases3)
  have IH: "length (to_reject c r (concat (map (unrouted fr nt) xs))) + length (to_reject c r (concat (map (oversized fr own nt) xs)))
    \<le> sum_list (map request_count (taken_from (OfCanister c) r xs))"
    by (rule Cons.IH) (rule Cons.prems, simp)
  show ?case
  proof (cases m)
    case (Request req)
    have "o1 = OfCanister (sender req)" "c1 = receiver req" using Cons.prems [of o1 c1 req] by (simp_all add: x Request)
    then show ?thesis using IH by (cases "dest fr nt c1") (simp_all add: x Request to_reject_def)
  next
    case (Response rep)
    then show ?thesis using IH by (simp add: x)
  qed
qed (simp add: to_reject_def)

lemma rejected_taken:
  "req \<in> set (unrouted fr nt x) \<Longrightarrow> \<exists>o1 c. x = (o1, c, Request req)"
  "req \<in> set (oversized fr own nt x) \<Longrightarrow> \<exists>o1 c. x = (o1, c, Request req)"
  by (cases x; cases "snd (snd x)"; auto split: if_splits option.splits)+

lemma taken_in_queue: "m \<in> set (taken_from own c xs) \<longleftrightarrow> (own, c, m) \<in> set xs"
  by (auto simp: taken_from_def)

lemma same_frame_in_queue:
  assumes "same_frame s s'"
  shows "in_queue s' = in_queue s" and "accepts s' = accepts s"
proof -
  have "in_queue s' c r = in_queue s c r" for c r
    using assms by (cases "owner_queues s (OfCanister c)"; cases "owner_queues s' (OfCanister c)")
      (auto simp: same_frame_def in_queue_def inputs_kept_def dest: spec [of _ "OfCanister c"])
  then show "in_queue s' = in_queue s" by (simp add: fun_eq_iff)
  show "accepts s' = accepts s" using assms by (simp add: fun_eq_iff accepts_def same_frame_def)
qed

lemma queues_ok_wf: "queues_ok z s \<Longrightarrow> wf_queues s"
  using cq_inv_wf by (auto simp: queues_ok_def wf_queues_def)

lemma built_rejects:
  assumes "built z fr d own nt b xs b'" and "calls_ok (bs_state b)" and "build_ok z b'"
    and "bs_requests_to_reject b = []" and "bs_oversized_requests b = []"
  shows "\<exists>s1 s2. reject_all z (bs_state b') code message (bs_requests_to_reject b') = Some s1
    \<and> rejected code message (concat (map (unrouted fr nt) xs)) (bs_state b') s1
    \<and> reject_all z s1 code' message' (bs_oversized_requests b') = Some s2
    \<and> rejected code' message' (concat (map (oversized fr own nt) xs)) s1 s2"
proof -
  let ?u = "concat (map (unrouted fr nt) xs)" and ?o = "concat (map (oversized fr own nt) xs)" and ?s = "bs_state b'"
  have out: "owner_out (bs_state b) o1 c = taken_from o1 c xs @ owner_out ?s o1 c" for o1 c using assms(1) by (simp add: built_def)
  have frame: "same_frame (bs_state b) ?s" using assms(1) by (simp add: built_def)
  note iq = same_frame_in_queue [OF frame]
  have sent: "o1 = OfCanister (sender req) \<and> c = receiver req \<and> accepts ?s req" if "(o1, c, Request req) \<in> set xs" for o1 c req
  proof -
    have req: "Request req \<in> set (owner_out (bs_state b) o1 c)" using that by (simp add: out taken_in_queue)
    then have "rr_receiver (Request req) = c" using assms(2) unfolding calls_ok_def by blast
    then show ?thesis using assms(2) req unfolding calls_ok_def iq(2) by auto
  qed
  have count: "length (to_reject c r ?u) + length (to_reject c r ?o) \<le> iq_reserved_slots (in_queue ?s c r)" for c r
  proof -
    have "sum_list (map request_count (owner_out (bs_state b) (OfCanister c) r)) \<le> iq_reserved_slots (in_queue ?s c r)"
      using assms(2) by (simp add: calls_ok_def iq(1))
    moreover have "length (to_reject c r ?u) + length (to_reject c r ?o) \<le> sum_list (map request_count (taken_from (OfCanister c) r xs))"
      by (rule rejects_counted) (use sent in blast)
    ultimately show ?thesis by (simp add: out)
  qed
  have acc: "accepts ?s req" if "req \<in> set ?u \<union> set ?o" for req
  proof -
    have "\<exists>o1 c. (o1, c, Request req) \<in> set xs"
      using that rejected_taken by (fastforce simp del: unrouted.simps oversized.simps)
    then show ?thesis using sent by blast
  qed
  have reqs: "bs_requests_to_reject b' = ?u" "bs_oversized_requests b' = ?o" using assms(1,4,5) by (simp_all add: built_def)
  have ok: "canisters_ok ?s" "wf_queues ?s" using assms(3) by (auto simp: build_ok_def dest: queues_ok_wf)
  obtain s1 where s1: "reject_all z ?s code message ?u = Some s1" "rejected code message ?u ?s s1"
    using reject_all_ok [OF ok, of ?u z code message] acc count by (meson UnI1 add_leD1)
  then have ok1: "canisters_ok s1" "wf_queues s1" "accepts s1 = accepts ?s" by (simp_all add: rejected_def accepts_def fun_eq_iff)
  have "length (to_reject c r ?o) \<le> iq_reserved_slots (in_queue s1 c r)" for c r
  proof -
    have "iq_reserved_slots (in_queue s1 c r) + length (to_reject c r ?u) = iq_reserved_slots (in_queue ?s c r)"
      using s1(2) by (simp add: rejected_def)
    then show ?thesis using count [of c r] by simp
  qed
  then obtain s2 where "reject_all z s1 code' message' ?o = Some s2" "rejected code' message' ?o s1 s2"
    using reject_all_ok [OF ok1(1,2), of ?o z code' message'] acc ok1(3) by auto
  then show ?thesis using s1 unfolding reqs by blast
qed

text \<open>Taking out and putting back the streams changes no queue.\<close>

lemma take_streams_queues: "owner_queues (rs_set_streams ss s) = owner_queues s" "shell (rs_set_streams ss s) = shell s"
  by (auto simp: owner_queues_def shell_def rs_set_streams_def fun_eq_iff split: queues_owner.splits)

lemma queue_views:
  assumes "owner_queues s' = owner_queues s"
  shows "owner_out s' = owner_out s" and "in_queue s' = in_queue s" and "queues_ok z s' = queues_ok z s"
  using assms by (simp_all add: fun_eq_iff owner_out_def in_queue_def queues_ok_def)

lemma put_streams_queues:
  assumes "rs_put_streams ss s = Some s'"
  shows "owner_out s' = owner_out s" and "in_queue s' = in_queue s"
proof -
  have "map_option cq_pair (owner_queues s' own) = map_option cq_pair (owner_queues s own)" for own
    using assms
    by (cases own; auto simp: rs_put_streams_def rs_update_stream_responses_size_bytes_def rs_set_streams_def Let_def owner_queues_def
        bt_get_map_snd option.map_comp comp_def sys_set_stream_responses_size_bytes_def cq_set_stream_responses_size_bytes_def
        cq_pair_def split: if_splits)
  note pair = this
  have "owner_out s' own c = owner_out s own c" for own c
    using pair [of own] by (cases "owner_queues s' own"; cases "owner_queues s own") (simp_all add: owner_out_def out_messages_def)
  moreover have "in_queue s' c r = in_queue s c r" for c r
    using pair [of "OfCanister c"]
    by (cases "owner_queues s' (OfCanister c)"; cases "owner_queues s (OfCanister c)") (simp_all add: in_queue_def)
  ultimately show "owner_out s' = owner_out s" and "in_queue s' = in_queue s" by (simp_all add: fun_eq_iff)
qed

lemma ss_ok_push_all:
  assumes "ss_ok z ss" and "sized z"
  shows "ss_ok z (push_all z ps ss)"
  using assms(1)
proof (induction ps arbitrary: ss)
  case (Cons p ps)
  have "ss_ok z (ss_push z (fst p) (snd p) ss)"
    unfolding ss_push_handle by (intro ss_put_handle_ok Cons.prems assms(2) sh_ok_push ss_handle_ok)
  then show ?case using Cons.IH by (simp add: push_all_def case_prod_unfold)
qed simp

lemma routable_push_all:
  assumes "routable fr t ss" and "bt_wf (ss_streams ss)" and "\<And>d m. (d, m) \<in> set ps \<Longrightarrow> routable_msg fr t m"
  shows "routable fr t (push_all z ps ss)"
  using assms
proof (induction ps arbitrary: ss)
  case (Cons p ps)
  have "routable_msg fr t (snd p)" using Cons.prems(3) [of "fst p" "snd p"] by simp
  then have "routable fr t (ss_push z (fst p) (snd p) ss)"
    unfolding ss_push_handle using Cons.prems(1,2)
    by (intro routable_put) (auto simp: sh_push_def get_mut_strm intro!: routable_push routable_strm)
  moreover have "bt_wf (ss_streams (ss_push z (fst p) (snd p) ss))" using Cons.prems(2) by (simp add: ss_push_def bt.wf_ins)
  moreover have "routable_msg fr t m" if "(d, m) \<in> set ps" for d m using Cons.prems(3) [of d m] that by simp
  ultimately have "routable fr t (push_all z ps (ss_push z (fst p) (snd p) ss))" by (rule Cons.IH)
  then show ?case by (simp add: push_all_def case_prod_unfold)
qed simp

lemma pushes_routable:
  assumes "rr_receiver m = c" and "(dn, m') \<in> set (pushes z fr d own nt (o1, c, m))"
  shows "routable_msg fr (nt_routing_table nt) m'"
proof (cases m)
  case (Request req)
  then show ?thesis using assms(2) by (auto split: option.splits if_splits)
next
  case (Response rep)
  then have "dest fr nt (originator rep) = Some dn"
    "m' = Response (if oversized_response z rep then shrink_response z d rep else rep)"
    using assms by (cases "dest fr nt c"; auto)+
  then show ?thesis by (auto simp: dest_def shrink_response_def split: option.splits)
qed

lemma built_routable:
  assumes "built z fr d own nt b xs b'" and "calls_ok (bs_state b)"
    and "(dn, m) \<in> set (concat (map (pushes z fr d own nt) xs))"
  shows "routable_msg fr (nt_routing_table nt) m"
proof -
  obtain o1 c m' where x: "(o1, c, m') \<in> set xs" "(dn, m) \<in> set (pushes z fr d own nt (o1, c, m'))"
    using assms(3) by (auto simp del: pushes.simps)
  then have "m' \<in> set (owner_out (bs_state b) o1 c)"
    using assms(1) by (simp add: built_def taken_in_queue)
  then show ?thesis using assms(2) pushes_routable [OF _ x(2)] by (auto simp: calls_ok_def)
qed

text \<open>What holds before the streams are built, beside \<open>state_ok\<close>.\<close>

definition outputs_ok :: "layout \<Rightarrow> (u64 \<Rightarrow> nat \<Rightarrow> nat) \<Rightarrow> 'p::linorder replicated_state \<Rightarrow> bool" where
  "outputs_ok z gen_range s \<longleftrightarrow>
     queues_ok z s \<and> calls_ok s
     \<and> (case rs_output_into_iter gen_range s of Some oi \<Rightarrow> oi_size oi < 2 ^ 64 - 1 | None \<Rightarrow> True)"

definition reject_messages ::
  "(u64 \<Rightarrow> 'p::linorder) \<Rightarrow> 'p display \<Rightarrow> 'p \<Rightarrow> 'p network_topology \<Rightarrow> 'p taken list \<Rightarrow> 'p \<Rightarrow> 'p \<Rightarrow> 'p request_or_response list"
where
  "reject_messages fr d own nt xs c r =
     map (\<lambda>req. Response (local_reject DestinationInvalid (''No route to canister '' @ disp_id d (receiver req)) req))
       (to_reject c r (concat (map (unrouted fr nt) xs)))
     @ map (\<lambda>req. Response (local_reject CanisterError (violated_contract d (sender req) (request_payload_size_bytes req)) req))
         (to_reject c r (concat (map (oversized fr own nt) xs)))"

text \<open>The state in which the loop starts.\<close>

lemma build_start:
  assumes st: "state_ok z fr sh s" and out: "outputs_ok z gen_range s"
    and gen: "\<And>seed n. 0 < n \<Longrightarrow> gen_range seed n < n" and s1: "s1 = rs_set_streams ss_new s"
  shows "\<exists>oi. rs_output_into_iter gen_range s1 = Some oi \<and> oi_size oi < 2 ^ 64 - 1
    \<and> pending oi = {(own, c). owner_out s own c \<noteq> []} \<and> calls_ok s1
    \<and> build_ok z \<lparr>bs_state = s1, bs_streams = streams_of s, bs_iter = oi, bs_requests_to_reject = [], bs_oversized_requests = []\<rparr>"
proof -
  note q1 = take_streams_queues [of ss_new s, folded s1]
  note v1 = queue_views [OF q1(1)]
  have ok1: "queues_ok z s1" "canisters_ok s1"
    using st out v1(3) by (auto simp: state_ok_def outputs_ok_def s1 rs_set_streams_def canisters_ok_def)
  have calls1: "calls_ok s1" using out v1(1,2) q1(2) by (simp add: outputs_ok_def calls_ok_def accepts_def)
  have same: "rs_output_into_iter gen_range s1 = rs_output_into_iter gen_range s"
    by (simp add: s1 rs_output_into_iter_def oi_new_def rs_set_streams_def)
  obtain oi where oi: "rs_output_into_iter gen_range s1 = Some oi" "oi_inv s1 oi"
      "pending oi = {(own, c). owner_out s own c \<noteq> []}"
    using oi_new_ok [of gen_range "md_batch_time (rs_metadata s1)", OF gen ok1] by (auto simp: rs_output_into_iter_def v1(1))
  have "oi_size oi < 2 ^ 64 - 1" using out oi(1) by (simp add: outputs_ok_def same)
  moreover have "bt_wf (ss_streams (streams_of s))" using st by (auto simp: state_ok_def dest: ss_ok_wf)
  ultimately show ?thesis using oi ok1 calls1 by (simp add: build_ok_def)
qed

lemma state_ok_pushed:
  assumes "state_ok z fr sh s" and "sized z" and "same_metadata s s'" and "canisters_ok s'"
    and "streams_of s' = push_all z ps (streams_of s)"
    and "\<And>d m. (d, m) \<in> set ps \<Longrightarrow> routable_msg fr (nt_routing_table (topology_of s)) m"
  shows "state_ok z fr sh s'"
proof -
  have ok: "ss_ok z (streams_of s)" "routable fr (nt_routing_table (topology_of s)) (streams_of s)"
    using assms(1) by (simp_all add: state_ok_def)
  have "routable fr (nt_routing_table (topology_of s)) (push_all z ps (streams_of s))"
    by (rule routable_push_all [OF ok(2) ss_ok_wf [OF ok(1)]]) (rule assms(6))
  then show ?thesis
    using assms(1,4,5) same_metadata_simps [OF assms(3)] ss_ok_push_all [OF ok(1) assms(2)] by (simp add: state_ok_def)
qed

lemma build_streams_impl_ok:
  assumes st: "state_ok z fr sh s" and "sized z" and out: "outputs_ok z gen_range s"
    and gen: "\<And>seed n. 0 < n \<Longrightarrow> gen_range seed n < n"
  shows "\<exists>xs s'. build_streams_impl z szs fr d gen_range own s max_msgs target = Some s' \<and> state_ok z fr sh s'
    \<and> same_metadata s s'
    \<and> streams_of s' = push_all z (concat (map (pushes z fr d own (topology_of s)) xs)) (streams_of s)
    \<and> (\<forall>o1 c. owner_out s o1 c = taken_from o1 c xs @ owner_out s' o1 c)
    \<and> (\<forall>o1 c. owner_out s' o1 c \<noteq> [] \<longrightarrow> full szs fr own max_msgs target (topology_of s) (streams_of s') c)
    \<and> (\<forall>c r. iq_messages (in_queue s' c r) = iq_messages (in_queue s c r) @ reject_messages fr d own (topology_of s) xs c r)"
proof -
  define s1 where "s1 = rs_set_streams ss_new s"
  let ?nt = "topology_of s"
  have meta: "streams_of s1 = ss_new" "topology_of s1 = ?nt" "same_metadata s s1"
    by (simp_all add: s1_def rs_set_streams_def same_metadata_def)
  note v1 = queue_views [OF take_streams_queues(1) [of ss_new s, folded s1_def]]
  obtain oi where oi: "rs_output_into_iter gen_range s1 = Some oi" "oi_size oi < 2 ^ 64 - 1"
      "pending oi = {(own, c). owner_out s own c \<noteq> []}" "calls_ok s1"
    and b_ok: "build_ok z \<lparr>bs_state = s1, bs_streams = streams_of s, bs_iter = oi, bs_requests_to_reject = [], bs_oversized_requests = []\<rparr>"
    using build_start [OF st out gen s1_def] by blast
  define b where "b = \<lparr>bs_state = s1, bs_streams = streams_of s, bs_iter = oi, bs_requests_to_reject = [], bs_oversized_requests = []\<rparr>"
  have route: "rt_route fr (nt_routing_table ?nt) c \<noteq> None" for c using st by (simp add: state_ok_def topology_total_def)
  have iter: "bs_iter b = oi" and sz: "oi_size (bs_iter b) < 2 ^ 64 - 1" using oi(2) by (simp_all add: b_def)
  obtain xs b' where loop: "build_loop z szs fr d own max_msgs target ?nt (2 ^ 64 - 1) b = Some b'"
    and b': "built z fr d own ?nt b xs b'" "build_ok z b'"
    and fin: "\<And>p. p \<in> pending oi \<Longrightarrow> done_with szs fr own max_msgs target ?nt b' p"
    using build_loop_ok [OF b_ok [folded b_def] route sz, of szs d own max_msgs target] unfolding iter by blast
  obtain s2 s3 where s2: "reject_all z (bs_state b') DestinationInvalid
        (\<lambda>req. ''No route to canister '' @ disp_id d (receiver req)) (bs_requests_to_reject b') = Some s2"
      and r2: "rejected DestinationInvalid (\<lambda>req. ''No route to canister '' @ disp_id d (receiver req))
        (concat (map (unrouted fr ?nt) xs)) (bs_state b') s2"
      and s3: "reject_all z s2 CanisterError
        (\<lambda>req. violated_contract d (sender req) (request_payload_size_bytes req)) (bs_oversized_requests b') = Some s3"
      and r3: "rejected CanisterError (\<lambda>req. violated_contract d (sender req) (request_payload_size_bytes req))
        (concat (map (oversized fr own ?nt) xs)) s2 s3"
    using built_rejects [OF b'(1) _ b'(2)] oi(4) by (fastforce simp: b_def)
  have frame: "same_frame s1 (bs_state b')" using b'(1) by (simp add: built_def b_def)
  have m3: "rs_metadata s3 = rs_metadata s1" "canisters_ok s3" "owner_out s3 = owner_out (bs_state b')"
    using r2 r3 frame by (simp_all add: rejected_def same_frame_def)
  obtain s' where s': "rs_put_streams (bs_streams b') s3 = Some s'" "streams_of s' = bs_streams b'" "same_metadata s3 s'" "canisters_ok s'"
    using put_streams_ok [OF _ m3(2)] m3(1) meta(1) by auto
  note v' = put_streams_queues [OF s'(1)]
  have "build_streams_impl z szs fr d gen_range own s max_msgs target = Some s'"
    using loop s2 s3 s'(1) oi(1) meta(2)
    by (simp add: build_streams_impl_def rs_take_streams_def s1_def [symmetric] b_def)
  moreover have sm: "same_metadata s s'" using meta(3) s'(3) m3(1) by (simp add: same_metadata_def)
  moreover have str: "streams_of s' = push_all z (concat (map (pushes z fr d own ?nt) xs)) (streams_of s)"
    using b'(1) s'(2) by (simp add: built_def b_def)
  moreover have "owner_out s o1 c = taken_from o1 c xs @ owner_out s' o1 c" for o1 c
    using b'(1) v'(1) m3(3) v1(1) by (simp add: built_def b_def)
  moreover have "full szs fr own max_msgs target ?nt (streams_of s') c" if "owner_out s' o1 c \<noteq> []" for o1 c
    using that fin [of "(o1, c)"] oi(3) calculation(4) [of o1 c] v'(1) m3(3) s'(2) by (auto simp: done_with_def)
  moreover have "iq_messages (in_queue s' c r) = iq_messages (in_queue s c r) @ reject_messages fr d own ?nt xs c r" for c r
    using r2 r3 v'(2) same_frame_in_queue(1) [OF frame] v1(2) by (simp add: rejected_def reject_messages_def)
  moreover have "state_ok z fr sh s'"
    using state_ok_pushed [OF st assms(2) sm s'(4) str] built_routable [OF b'(1)] oi(4) by (simp add: b_def)
  ultimately show ?thesis by blast
qed

end
