(* ===== verification/XNet_Spec.thy ===== *)
theory XNet_Spec
  imports StreamBuilder_Correct RoutingTable_Spec
begin

text \<open>
  What streams, stream handling and the exchange of messages between subnets promise: the
  theorems, each applied to a small network of subnets.
\<close>

section \<open>A small network\<close>

text \<open>Routing never panics with the tables that the operations of the routing table produce.\<close>

lemma topology_ok_total:
  assumes "canister_numbering fr into" and "rt_ok fr (nt_routing_table nt)" and "rt_ok fr (nt_canister_migrations nt)"
  shows "topology_total fr nt"
  using canister_numbering.lookup_ok [OF assms(1,2)] canister_numbering.lookup_ok [OF assms(1,3)]
  by (auto simp: topology_total_def rt_route_def cm_lookup_def split: option.splits)

definition example_handler :: "u8 list \<Rightarrow> u8 list stream_handler" where
  "example_handler own =
     \<lparr>hd_subnet_id = own, hd_max_canister_memory_size = 1000, hd_subnet_memory_capacity = 1000,
      hd_subnet_message_memory_capacity = 1000, hd_testing_flag_generate_reject_signals = False\<rparr>"

definition example_subnet :: "u8 list \<Rightarrow> u8 list replicated_state" where
  "example_subnet own =
     \<lparr>rs_canister_states = [],
      rs_metadata =
        \<lparr>md_streams = ss_new, md_own_subnet_id = own, md_own_subnet_type = Application,
         md_network_topology = \<lparr>nt_subnet_types = [], nt_routing_table = example_rt, nt_canister_migrations = []\<rparr>,
         md_certification_version = V9, md_batch_time = 0, md_ingress_history = ih_default,
         md_canister_allocation_ranges = [], md_last_generated_canister_id = None\<rparr>,
      rs_subnet_queues = cq_default example_layout, rs_consensus_queue = []\<rparr>"

definition example_display :: "u8 list display" where
  "example_display = \<lparr>disp_id = (\<lambda>_. ''id''), disp_cycles = (\<lambda>_. ''cycles'')\<rparr>"

definition example_call_request :: "u8 list request" where
  "example_call_request =
     \<lparr>receiver = example_fr 12, sender = example_fr 3, sender_reply_callback = 7, payment = 5,
      method_name = ''m'', method_payload = [1, 2]\<rparr>"

lemma example_call_ends [simp]: "receiver example_call_request = example_fr 12" "sender example_call_request = example_fr 3"
  by (simp_all add: example_call_request_def)

abbreviation example_call :: "u8 list request_or_response" where
  "example_call \<equiv> Request example_call_request"

text \<open>Subnet 100 has put a message on its stream to subnet 200.\<close>

definition example_sending :: "u8 list replicated_state" where
  "example_sending = rs_set_streams (push_all example_layout [([200], example_call)] ss_new) (example_subnet [100])"

lemma example_sized: "sized example_layout"
  by (simp add: sized_def example_layout_def)

lemma example_topology: "topology_total example_fr (topology_of (example_subnet own))"
proof (rule topology_ok_total [OF cid.canister_numbering_axioms])
  show "rt_ok example_fr (nt_routing_table (topology_of (example_subnet own)))"
    by (simp add: example_subnet_def rt_ok_def example_rt_def ascending_Cons)
  show "rt_ok example_fr (nt_canister_migrations (topology_of (example_subnet own)))"
    by (simp add: example_subnet_def rt_ok_def ascending_def)
qed

lemma example_subnet_ok: "state_ok example_layout example_fr (example_handler own) (example_subnet own)"
  using example_topology [of own] ss_ok_new [of example_layout]
  by (simp add: state_ok_def canisters_ok_def routable_def can_reject_def example_subnet_def bt_wf_def ss_new_def)

lemma example_start: "start_ok example_layout example_fr example_handler example_subnet"
  using example_subnet_ok by (simp add: start_ok_def example_handler_def example_subnet_def)

lemma example_sending_ok: "state_ok example_layout example_fr (example_handler [100]) example_sending"
proof -
  have "ss_ok example_layout (push_all example_layout [([200], example_call)] ss_new)"
    using ss_put_handle_ok [OF ss_ok_new example_sized sh_ok_push [OF ss_handle_ok [OF ss_ok_new example_sized] example_sized]]
    by (simp add: push_all_def ss_push_handle)
  moreover have "routable example_fr t (push_all example_layout [([200], example_call)] ss_new)" for t
    unfolding push_all_def ss_push_handle foldl.simps prod.case
    by (rule routable_put)
      (simp_all add: routable_def ss_new_def bt_wf_def sh_push_def get_mut_strm stream_or_default_def routable_push)
  ultimately show ?thesis
    using example_subnet_ok [of "[100]"]
    by (simp add: state_ok_def example_sending_def rs_set_streams_def canisters_ok_def can_reject_def)
qed

definition example_net :: "u8 list network" where
  "example_net =
     net_advance example_layout [100] example_sending (\<lambda>_. 0) (\<lambda>_. []) (net_start example_layout example_subnet)"

lemma example_net_reachable: "net_reachable example_layout example_fr example_display example_handler example_net"
proof -
  have "streams_of example_sending
      = push_all example_layout [([200], example_call)] (streams_of (net_state (net_start example_layout example_subnet) [100]))"
    by (simp add: example_sending_def rs_set_streams_def net_start_def example_subnet_def)
  then have "net_step example_layout example_fr example_display example_handler (net_start example_layout example_subnet) example_net"
    using net_step.execute [of example_layout example_fr example_handler "[100]" example_sending] example_sending_ok
    by (fastforce simp: example_net_def net_start_def)
  then show ?thesis using example_start unfolding net_reachable_def by blast
qed

lemma example_net_routed: "net_routed example_net [100] [200] = [example_call]"
  by (simp add: example_net_def net_advance_def net_start_def new_messages_def example_sending_def rs_set_streams_def
      push_all_def ss_push_def ss_new_def stream_or_default_def bt_get_def st_push_def st_default_def siq_default_def
      siq_push_def siq_end_def example_subnet_def)

section \<open>Exchange of messages\<close>



text \<open>
  C2. No round of message routing panics: in every reachable state of the network a subnet processes
  any slices that it may be given, and the network is in a reachable state again. In
  particular no check of signals and messages that the stream handler makes ever fails.
\<close>

theorem xnet_never_panics:
  assumes "net_reachable z fr dsp hs N" and "sized z" and "admissible z N x u slices"
  shows "\<exists>s. process_stream_slices z fr dsp (hs x) (net_state N x) slices = Some s
    \<and> net_reachable z fr dsp hs (net_advance z x s u (msgs_from slices) N)"
proof -
  obtain s where s: "process_stream_slices z fr dsp (hs x) (net_state N x) slices = Some s"
    using net_process_ok [OF net_reachable_ok [OF assms(1,2)] assms(2,3), of dsp] by blast
  have "net_step z fr dsp hs N (net_advance z x s u (msgs_from slices) N)" by (rule net_step.process) (fact assms(3), fact s)
  then have "net_reachable z fr dsp hs (net_advance z x s u (msgs_from slices) N)"
    by (rule net_reachable_step [OF assms(1)])
  then show ?thesis using s by blast
qed

theorem xnet_never_panics_witness:
  "\<exists>sl s. slice_msgs sl = [example_call]
    \<and> process_stream_slices example_layout example_fr example_display (example_handler [200])
        (net_state example_net [200]) [([100], sl)] = Some s"
proof -
  obtain sl u where "admissible example_layout example_net [200] u [([100], sl)]"
    and "net_inducted example_net [200] [100] @ slice_msgs sl = [example_call]"
    using admissible_current [OF net_reachable_ok [OF example_net_reachable example_sized], of "[200]" "[100]"]
      example_net_routed by auto
  then show ?thesis
    using xnet_never_panics [OF example_net_reachable example_sized]
    by (fastforce simp: example_net_def net_advance_def net_start_def)
qed




section \<open>Building streams\<close>

text \<open>A canister of subnet 100 that has called a canister of subnet 200.\<close>

definition example_callback :: "u8 list callback" where
  "example_callback =
     \<lparr>cb_call_context_id = 0, cb_originator = Some (example_fr 3), cb_respondent = Some (example_fr 12), cb_cycles_sent = 5,
      cb_prepayment_for_response_execution = None, cb_prepayment_for_response_transmission = None,
      cb_on_reply = \<lparr>func_idx = 0, env = 0\<rparr>, cb_on_reject = \<lparr>func_idx = 0, env = 0\<rparr>, cb_on_cleanup = None\<rparr>"

definition example_queues_with :: "u8 list request \<Rightarrow> u8 list canister_queues" where
  "example_queues_with req = fst (the (cq_push_output_request example_layout (cq_default example_layout) req 0))"

abbreviation example_out_queues :: "u8 list canister_queues" where
  "example_out_queues \<equiv> example_queues_with example_call_request"

definition example_caller :: "u8 list canister_state" where
  "example_caller =
     \<lparr>can_system_state =
        (sys_new_running example_layout (example_fr 3) [1] 1000)
          \<lparr>sys_queues := example_out_queues, sys_status := Running (ccm_default\<lparr>callbacks := [(7, example_callback)]\<rparr>)\<rparr>,
      can_execution_state = None\<rparr>"

definition example_calling :: "u8 list replicated_state" where
  "example_calling = (example_subnet [100])\<lparr>rs_canister_states := [(example_fr 3, example_caller)]\<rparr>"

lemma example_queues_with:
  shows "cq_inv example_layout (example_queues_with req)"
    and "out_messages (example_queues_with req) c = (if c = receiver req then [Request req] else [])"
    and "iq_reserved_slots (fst (cq_pair (example_queues_with req) c)) = (if c = receiver req then 1 else 0)"
    and "cq_reachable example_layout [] (example_queues_with req)"
    and "iq_messages (fst (cq_pair (example_queues_with req) c)) = []"
proof -
  let ?q = "cq_default example_layout :: u8 list canister_queues"
  have pair: "cq_pair ?q c = (iq_new DEFAULT_QUEUE_CAPACITY, oq_new DEFAULT_QUEUE_CAPACITY)" for c
    by (simp add: cq_pair_def cq_default_def bt_get_def)
  have fit: "output_cycles_fit ?q (Request req)"
    using unat_cycles_le_max [of "payment req"] by (simp add: output_cycles_fit_def cq_default_def oqs_default_def cycles_zero_def)
  moreover have "can_push_output_request ?q req"
    by (simp add: can_push_output_request_def pair oq_new_def oq_reserved_slots_def qwr_reserved_slots_def qwr_new_def
        DEFAULT_QUEUE_CAPACITY_def)
  ultimately obtain q' where q': "cq_push_output_request example_layout ?q req 0 = Some (q', Inr ())"
    and "output_request_pushed example_layout ?q req q'"
    using cq_push_output_request_spec [OF cq_inv_default [of example_layout], of req 0] by auto
  then have p: "output_request_pushed example_layout ?q req (example_queues_with req)" by (simp add: example_queues_with_def)
  show "cq_inv example_layout (example_queues_with req)" using p by (simp add: output_request_pushed_def)
  show "out_messages (example_queues_with req) c = (if c = receiver req then [Request req] else [])"
    using p by (auto simp: output_request_pushed_def out_messages_def pair)
  show "iq_reserved_slots (fst (cq_pair (example_queues_with req) c)) = (if c = receiver req then 1 else 0)"
    using p by (auto simp: output_request_pushed_def pair)
  show "iq_messages (fst (cq_pair (example_queues_with req) c)) = []"
    using p by (auto simp: output_request_pushed_def pair iq_messages_def iq_new_def qwr_new_def)
  show "cq_reachable example_layout [] (example_queues_with req)"
    using r_into_rtranclp [of "cq_step example_layout []", OF cq_step.push_output_request [OF q' fit]] q'
    by (simp add: example_queues_with_def)
qed

lemmas example_out_queues = example_queues_with [of example_call_request]

lemma example_owner_queues:
  "owner_queues example_calling own =
     (case own of OfSubnet \<Rightarrow> Some (cq_default example_layout)
      | OfCanister c \<Rightarrow> if c = example_fr 3 then Some example_out_queues else None)"
  by (cases own) (simp_all add: owner_queues_def example_calling_def example_subnet_def example_caller_def bt_get_def)

lemma example_owner_out:
  "owner_out example_calling own c = (if own = OfCanister (example_fr 3) \<and> c = example_fr 12 then [example_call] else [])"
proof -
  have "out_messages (cq_default example_layout) c = []" by (simp add: out_messages_def cq_pair_def cq_default_def bt_get_def)
  then show ?thesis
    by (cases own) (simp_all add: owner_out_def example_owner_queues example_out_queues(2))
qed

lemma example_calling_ok: "state_ok example_layout example_fr (example_handler [100]) example_calling"
  using example_subnet_ok [of "[100]"]
  by (simp add: state_ok_def canisters_ok_def example_calling_def bt_wf_def bt_get_def example_caller_def sys_new_running_def
      sys_new_def can_raw_memory_usage_def can_reject_def)

lemma example_accepts: "accepts example_calling example_call_request"
  by (simp add: accepts_def shell_def example_calling_def bt_get_def example_caller_def example_call_request_def awaits_def
      ccm_callback_def example_callback_def)

lemma example_iter_size: "it_size (it_new (example_fr 3) example_out_queues) = 1"
proof -
  let ?it = "it_new (example_fr 3) example_out_queues"
  have inv: "it_inv ?it example_out_queues" "set (it_queues ?it) = {example_fr 12}"
    using it_new_inv [OF example_out_queues(1), of "example_fr 3"] by (simp_all add: example_out_queues(2))
  then have "it_queues ?it = [example_fr 12]"
    by (cases "it_queues ?it" rule: remdups_adj.cases) (auto simp: it_inv_def)
  then show ?thesis using inv(1) by (simp add: it_inv_def example_out_queues(2))
qed

lemma example_outputs_ok: "outputs_ok example_layout (\<lambda>seed n. 0) example_calling"
proof -
  have q: "queues_ok example_layout example_calling"
    by (auto simp: queues_ok_def example_owner_queues example_out_queues(1) cq_inv_default split: queues_owner.splits if_splits)
  have "calls_ok example_calling"
    using example_accepts
    by (auto simp: calls_ok_def example_owner_out in_queue_def example_owner_queues example_out_queues(3) split: if_splits)
  moreover have "oi_size oi < 2 ^ 64 - 1" if oi: "rs_output_into_iter (\<lambda>seed n. 0) example_calling = Some oi" for oi
  proof -
    have "it_is_empty (it_new k (rs_subnet_queues example_calling))" for k
      by (simp add: example_calling_def example_subnet_def it_new_def it_is_empty_def cq_default_def)
    then have "oi_iterators oi = canister_iters example_calling" "oi_size oi = oi_compute_size (oi_iterators oi)"
      using oi by (auto simp: rs_output_into_iter_def oi_new_def Let_def canister_iters_def [symmetric])
    then show ?thesis
      using example_iter_size
      by (simp add: canister_iters_def example_calling_def example_caller_def oi_compute_size_def)
  qed
  ultimately show ?thesis using q by (simp add: outputs_ok_def split: option.splits)
qed


lemma taken_single:
  assumes "\<And>o2 c2. (o2, c2) \<noteq> (o1, c) \<Longrightarrow> taken_from o2 c2 xs = []"
  shows "xs = map (\<lambda>m. (o1, c, m)) (taken_from o1 c xs)"
proof -
  have "\<forall>x \<in> set xs. fst x = o1 \<and> fst (snd x) = c"
  proof
    fix x assume x: "x \<in> set xs"
    then have "snd (snd x) \<in> set (taken_from (fst x) (fst (snd x)) xs)" by (simp add: taken_in_queue)
    then have "taken_from (fst x) (fst (snd x)) xs \<noteq> []" by auto
    then have "(fst x, fst (snd x)) = (o1, c)" using assms by blast
    then show "fst x = o1 \<and> fst (snd x) = c" by simp
  qed
  then have "map (\<lambda>m. (o1, c, m)) (taken_from o1 c xs) = xs"
  proof (induction xs)
    case (Cons x xs)
    then show ?case by (cases x) simp
  qed simp
  then show ?thesis by simp
qed

lemma example_route: "rt_route example_fr example_rt (example_fr 12) = Some (Some [200])"
proof -
  have ok: "rt_ok example_fr example_rt" by (simp add: rt_ok_def example_rt_def ascending_Cons)
  have "length (example_fr 12) = 10"
    by (simp add: canister_id_from_u64_def new_opaque_from_array_def length_to_be_bytes)
  then have "example_fr 12 \<noteq> [a]" for a by (cases "example_fr 12") auto
  then have "[100] \<noteq> example_fr 12" "[200] \<noteq> example_fr 12" by metis+
  then show ?thesis
    using cid.lookup_ok [OF ok, of "example_fr 12"]
    by (simp add: rt_route_def example_rt_def)
qed

lemma example_dest: "dest example_fr (topology_of example_calling) (example_fr 12) = Some [200]"
  using example_route by (simp add: dest_def example_calling_def example_subnet_def)





end
