(* ===== verification/ReplicatedState_Correct.thy ===== *)
theory ReplicatedState_Correct
  imports ReplicatedState CanisterQueues_System
begin

text \<open>
  Messages of a canister to itself: the loop that moves them from the output to the input queue
  ends, moves them in order, and accounts for the memory they take.
\<close>

section \<open>Cycles in the queues\<close>

definition cycles_fit :: "'p canister_queues \<Rightarrow> bool" where
  "cycles_fit q \<longleftrightarrow>
     unat (iqs_cycles (cq_input_queues_stats q)) + unat (oqs_cycles (cq_output_queues_stats q)) \<le> cycles_max"

lemma push_input_cycles:
  assumes "cq_push_input z q m t = (q', r)"
  shows "unat (iqs_cycles (cq_input_queues_stats q')) \<le> unat (iqs_cycles (cq_input_queues_stats q)) + unat (rr_cycles m)"
    and "oqs_cycles (cq_output_queues_stats q') = oqs_cycles (cq_output_queues_stats q)"
  using assms
  by (auto simp: cq_push_input_def cq_push_selected_def cq_put_def cq_schedule_push_def cq_get_or_insert_queues_def Let_def
      iqs_add_assign_def iqs_stats_delta_def unat_cycles_add
      split: request_or_response.splits prod.splits sum.splits option.splits if_splits input_queue_type.splits)

lemma output_cycles_le:
  assumes "cq_inv z q" and "m \<in> set (out_messages q c)"
  shows "unat (rr_cycles m) \<le> unat (oqs_cycles (cq_output_queues_stats q))"
proof -
  let ?v = "cq_pair q c"
  have "oq_messages (snd ?v) \<noteq> []" using assms(2) by (auto simp: out_messages_def)
  then have get: "bt_get (cq_queues q) c = Some ?v" using cq_pair_nonempty [of q c] by simp
  have "unat (rr_cycles m) \<le> pair_stat z OqCycles ?v"
    using assms(2) by (auto simp: pair_stat_simps out_messages_def intro!: member_le_sum_list)
  also have "\<dots> \<le> bt.total (pair_stat z OqCycles) (cq_queues q)" by (rule bt.total_ge [OF cq_inv_wf [OF assms(1)] get])
  also have "\<dots> = unat (oqs_cycles (cq_output_queues_stats q))"
    using assms(1) unfolding cq_inv_def stats_exact_def by (metis nat_int running_stat.simps(7))
  finally show ?thesis .
qed

lemma output_popped_cycles:
  assumes "cq_output_popped z m q = Some q'"
  shows "iqs_cycles (cq_input_queues_stats q') = iqs_cycles (cq_input_queues_stats q)"
    and "unat (oqs_cycles (cq_output_queues_stats q')) = unat (oqs_cycles (cq_output_queues_stats q)) - unat (rr_cycles m)"
  using assms
  by (cases m; auto simp: cq_output_popped_def oqs_sub_assign_def oqs_stats_delta_def unat_cycles_sub split: Option.bind_splits)+

lemma head_cycles_fit: "cq_inv z q \<Longrightarrow> cycles_fit q \<Longrightarrow> out_messages q own = m # ms \<Longrightarrow> input_cycles_fit q m"
  using output_cycles_le [of z q m own] by (simp add: cycles_fit_def input_cycles_fit_def)

lemma induct_to_self_cycles:
  assumes inv: "cq_inv z q" and fit: "cycles_fit q" and m: "out_messages q own = m # ms"
    and run: "cq_induct_message_to_self z q own = Some (q', Inr ())"
  shows "cycles_fit q'"
proof -
  have peek: "cq_peek_output q own = Some (Some m)"
    using cq_peek_output_eq [OF inv, of own] m by (simp add: head_opt_def out_messages_def)
  obtain q1 r where push: "cq_push_input z q m LocalSubnet = (q1, r)" by fastforce
  have r: "r = Inr ()" using run peek push by (cases r) (auto simp: cq_induct_message_to_self_def)
  from inv head_cycles_fit [OF inv fit m] push have "cq_inv z q1 \<and> oq_messages (snd (cq_pair q1 own)) = m # ms"
  proof (cases rule: cq_push_input_cases)
    case pushed
    then show ?thesis using m by (auto simp: input_pushed_def out_messages_def)
  qed (use r in \<open>simp add: input_rejected_def\<close>)
  then have q1: "cq_inv z q1" "oq_messages (snd (cq_pair q1 own)) = m # ms" by simp_all
  let ?iq = "fst (cq_pair q1 own)" and ?oq = "snd (cq_pair q1 own)"
  have get: "bt_get (cq_queues q1) own = Some (?iq, ?oq)" using cq_pair_nonempty [of q1 own] q1(2) by simp
  obtain oq1 q2 where pop: "oq_pop ?oq = Some (Some m, oq1)" "cq_output_popped z m (cq_put own (?iq, oq1) q1) = Some q2"
    using cq_output_pop_pair [OF q1(1) get q1(2)] by blast
  then have "q' = q2" using run peek push r get by (simp add: cq_induct_message_to_self_def case_prod_unfold)
  then show ?thesis
    using fit push_input_cycles [OF push] output_popped_cycles [OF pop(2)] output_cycles_le [OF inv, of m own] m
    by (simp add: cycles_fit_def cq_put_def)
qed

section \<open>Messages to oneself\<close>

text \<open>Why the loop stopped: there is no message left, no room in the queue, or not enough memory.\<close>

definition self_stopped :: "layout \<Rightarrow> 'p \<Rightarrow> subnet_type \<Rightarrow> 'p canister_queues \<Rightarrow> int \<Rightarrow> bool" where
  "self_stopped z own ty q available \<longleftrightarrow>
     (case out_messages q own of
        [] \<Rightarrow> True
      | m # _ \<Rightarrow> \<not> CanisterQueues_Correct.can_push_input q m \<or> ty \<noteq> System \<and> \<not> is_ok (can_push z m available))"

lemma self_step:
  assumes "cq_inv z q" and "cycles_fit q" and m: "out_messages q own = m # ms"
  shows "\<exists>q1 r. cq_induct_message_to_self z q own = Some (q1, r) \<and> cq_inv z q1
    \<and> (if CanisterQueues_Correct.can_push_input q m
         then r = Inr () \<and> out_messages q1 own = ms \<and>
           iq_messages (fst (cq_pair q1 (rr_sender m))) = iq_messages (fst (cq_pair q (rr_sender m))) @ [m]
         else r = Inl () \<and> same_view q q1)"
proof -
  have "oq_messages (snd (cq_pair q own)) = m # ms" using m by (simp add: out_messages_def)
  then show ?thesis
    using cq_induct_message_to_self_spec [OF assms(1), of own] head_cycles_fit [OF assms]
    by (fastforce simp: out_messages_def split: if_splits)
qed

lemma induct_to_self_ok:
  assumes "cq_inv z q" and "cycles_fit q"
  shows "\<exists>q' b' xs. induct_to_self_loop z own ty q a b (int (cq_memory_usage z q)) = Some (q', b') \<and> cq_inv z q'
    \<and> out_messages q own = xs @ out_messages q' own
    \<and> b' + int (cq_memory_usage z q') = b + int (cq_memory_usage z q)
    \<and> self_stopped z own ty q' (a + int (cq_memory_usage z q) - int (cq_memory_usage z q'))
    \<and> (list_all (\<lambda>m. rr_sender m = own) xs \<longrightarrow>
        iq_messages (fst (cq_pair q' own)) = iq_messages (fst (cq_pair q own)) @ xs)"
  using assms
proof (induction "length (out_messages q own)" arbitrary: q a b)
  case 0
  then have "cq_peek_output q own = Some None"
    using cq_peek_output_eq [of z q own] by (simp add: head_opt_def out_messages_def)
  then have "induct_to_self_loop z own ty q a b (int (cq_memory_usage z q)) = Some (q, b)"
    by (subst induct_to_self_loop.simps) simp
  then show ?case using 0 by (intro exI [of _ q] exI [of _ b] exI [of _ "[]"]) (simp add: self_stopped_def)
next
  case (Suc n)
  obtain m ms where m: "out_messages q own = m # ms" using Suc.hyps(2) by (cases "out_messages q own") auto
  have peek: "cq_peek_output q own = Some (Some m)"
    using cq_peek_output_eq [OF Suc.prems(1), of own] m by (simp add: head_opt_def out_messages_def)
  obtain q1 r where q1: "cq_induct_message_to_self z q own = Some (q1, r)" "cq_inv z q1"
    and spec: "if CanisterQueues_Correct.can_push_input q m
         then r = Inr () \<and> out_messages q1 own = ms \<and>
           iq_messages (fst (cq_pair q1 (rr_sender m))) = iq_messages (fst (cq_pair q (rr_sender m))) @ [m]
         else r = Inl () \<and> same_view q q1"
    using self_step [OF Suc.prems m] by blast
  consider "ty \<noteq> System \<and> \<not> is_ok (can_push z m a)"
    | "\<not> (ty \<noteq> System \<and> \<not> is_ok (can_push z m a))" "\<not> CanisterQueues_Correct.can_push_input q m"
    | "\<not> (ty \<noteq> System \<and> \<not> is_ok (can_push z m a))" "CanisterQueues_Correct.can_push_input q m" by blast
  then show ?case
  proof cases
    case 1
    then have "induct_to_self_loop z own ty q a b (int (cq_memory_usage z q)) = Some (q, b)"
      using peek by (subst induct_to_self_loop.simps) simp
    then show ?thesis using m Suc.prems(1) 1 by (intro exI [of _ q] exI [of _ b] exI [of _ "[]"]) (simp add: self_stopped_def)
  next
    case 2
    then have r: "r = Inl ()" and view: "same_view q q1" using spec by simp_all
    have "induct_to_self_loop z own ty q a b (int (cq_memory_usage z q)) = Some (q1, b)"
      using peek 2(1) q1(1) r by (subst induct_to_self_loop.simps) auto
    moreover have "out_messages q1 = out_messages q" "cq_pair q1 = cq_pair q" "cq_memory_usage z q1 = cq_memory_usage z q"
      using view by (simp_all add: same_view_def out_messages_def cq_memory_usage_def fun_eq_iff)
    moreover have "CanisterQueues_Correct.can_push_input q1 m = CanisterQueues_Correct.can_push_input q m"
      using calculation(3) by (simp add: CanisterQueues_Correct.can_push_input_def)
    ultimately show ?thesis
      using m q1(2) 2(2) by (intro exI [of _ q1] exI [of _ b] exI [of _ "[]"]) (simp add: self_stopped_def)
  next
    case 3
    then have r: "r = Inr ()" "out_messages q1 own = ms"
      "iq_messages (fst (cq_pair q1 (rr_sender m))) = iq_messages (fst (cq_pair q (rr_sender m))) @ [m]"
      using spec by simp_all
    have fit: "cycles_fit q1" using induct_to_self_cycles [OF Suc.prems m] q1(1) r(1) by simp
    let ?d = "int (cq_memory_usage z q) - int (cq_memory_usage z q1)"
    have "n = length (out_messages q1 own)" using Suc.hyps(2) m r(2) by simp
    from Suc.hyps(1) [OF this q1(2) fit, of "a + ?d" "b + ?d"]
    obtain q' b' xs where rest: "induct_to_self_loop z own ty q1 (a + ?d) (b + ?d) (int (cq_memory_usage z q1)) = Some (q', b')"
        "cq_inv z q'" "ms = xs @ out_messages q' own"
        "b' + int (cq_memory_usage z q') = b + ?d + int (cq_memory_usage z q1)"
        "self_stopped z own ty q' (a + ?d + int (cq_memory_usage z q1) - int (cq_memory_usage z q'))"
        "list_all (\<lambda>m. rr_sender m = own) xs \<longrightarrow> iq_messages (fst (cq_pair q' own)) = iq_messages (fst (cq_pair q1 own)) @ xs"
      unfolding r(2) by blast
    have "induct_to_self_loop z own ty q a b (int (cq_memory_usage z q)) = Some (q', b')"
      using peek 3(1) q1(1) r(1) rest(1) by (subst induct_to_self_loop.simps) (auto simp: Let_def algebra_simps)
    then show ?thesis
      using rest(2-6) m r(3) by (intro exI [of _ q'] exI [of _ b'] exI [of _ "m # xs"]) (auto simp: algebra_simps)
  qed
qed

end
