(* ===== verification/Streams_Spec.thy ===== *)
theory Streams_Spec
  imports XNet_Spec ReplicatedState_Correct
begin

text \<open>
  What the streams and the stream handler promise to a single subnet: the statistics of the streams are
  exact, rejected responses are routed again, every inducted message gets its signal, and the
  message memory of the subnet is accounted for.
\<close>

section \<open>Streams\<close>

text \<open>The states of the streams that their operations produce, through the streams or a handle on one.\<close>

inductive streams_reachable :: "layout \<Rightarrow> 'p::linorder streams \<Rightarrow> bool" for z where
  new: "streams_reachable z ss_new"
| push: "streams_reachable z s \<Longrightarrow> streams_reachable z (ss_push z d m s)"
| handle_push: "streams_reachable z s \<Longrightarrow>
    streams_reachable z (ss_put_handle d (sh_push z m (ss_get_mut_or_insert z s d)) s)"
| increment_signals_end: "streams_reachable z s \<Longrightarrow>
    streams_reachable z (ss_put_handle d (sh_increment_signals_end (ss_get_mut_or_insert z s d)) s)"
| reject_signal: "streams_reachable z s \<Longrightarrow> sh_push_reject_signal i (ss_get_mut_or_insert z s d) = Some h \<Longrightarrow>
    streams_reachable z (ss_put_handle d (sh_increment_signals_end h) s)"
| discard_signals: "streams_reachable z s \<Longrightarrow>
    streams_reachable z (ss_put_handle d (sh_discard_signals_before i (ss_get_mut_or_insert z s d)) s)"
| discard_messages: "streams_reachable z s \<Longrightarrow> sorted_wrt (<) signals \<Longrightarrow>
    sh_discard_messages_before z i signals (ss_get_mut_or_insert z s d) = Some (rej, h) \<Longrightarrow>
    streams_reachable z (ss_put_handle d h s)"

lemma sh_ok_reject_signal:
  assumes "sh_ok z rest h" and "sh_push_reject_signal i h = Some h'"
  shows "sh_ok z rest (sh_increment_signals_end h')"
proof -
  have ok: "st_ok z (fst h)" using assms(1) by (simp add: sh_ok_def)
  then have "h' = ((fst h)\<lparr>st_reject_signals := st_reject_signals (fst h) @ [st_signals_end (fst h)]\<rparr>, snd h)"
    using assms(2) by (auto simp: sh_push_reject_signal_def st_push_reject_signal_eq [OF ok] split: if_splits option.splits)
  then show ?thesis
    using assms(1) st_ok_reject [OF ok]
    by (simp add: sh_ok_def sh_increment_signals_end_def st_increment_signals_end_def st_resp_bytes_def)
qed

lemma streams_reachable_ok:
  assumes "streams_reachable z s" and "sized z"
  shows "ss_ok z s"
  using assms(1)
proof induction
  case new
  then show ?case by (rule ss_ok_new)
next
  case (push s d m)
  then show ?case unfolding ss_push_handle by (intro ss_put_handle_ok assms(2) sh_ok_push ss_handle_ok)
next
  case (handle_push s d m)
  then show ?case by (intro ss_put_handle_ok assms(2) sh_ok_push ss_handle_ok)
next
  case (increment_signals_end s d)
  then show ?case by (intro ss_put_handle_ok assms(2) sh_ok_increment ss_handle_ok)
next
  case (reject_signal s i d h)
  show ?case
    by (rule ss_put_handle_ok [OF reject_signal.IH assms(2) sh_ok_reject_signal [OF ss_handle_ok [OF reject_signal.IH assms(2)] reject_signal.hyps(2)]])
next
  case (discard_signals s d i)
  then show ?case by (intro ss_put_handle_ok assms(2) sh_ok_discard_signals ss_handle_ok)
next
  case (discard_messages s signals i d rej h)
  let ?h = "ss_get_mut_or_insert z s d"
  have ok: "sh_ok z (other_bytes z d (ss_streams s)) ?h" by (rule ss_handle_ok [OF discard_messages.IH assms(2)])
  have "siq_begin (st_messages (fst ?h)) \<le> i \<and> i \<le> siq_end (st_messages (fst ?h))"
  proof (rule ccontr)
    assume "\<not> ?thesis"
    then have "st_discard_messages_before z i signals (fst ?h) = None"
      using ok by (auto simp: sh_ok_def st_ok_def st_discard_messages_before_eq [OF _ discard_messages.hyps(2)])
    then show False using discard_messages.hyps(3) by (auto simp: sh_discard_messages_before_def split: Option.bind_splits)
  qed
  then have "sh_ok z (other_bytes z d (ss_streams s)) h"
    using sh_discard_messages_ok [OF ok assms(2) discard_messages.hyps(2), of i] discard_messages.hyps(3) by auto
  then show ?case by (rule ss_put_handle_ok [OF discard_messages.IH assms(2)])
qed

text \<open>
  C10. The statistics of the streams are exact: in every reachable state the recorded sizes of responses per
  respondent are those that counting all messages gives, every stream records the size of its messages,
  and its reject signals are strictly increasing and below the end of the signals.
\<close>

theorem streams_statistics_exact:
  assumes "streams_reachable z s" and "sized z"
  shows "ss_responses_size_bytes s = calculate_stats z (ss_streams s)
    \<and> (\<forall>d st. ss_get s d = Some st \<longrightarrow> st_messages_size_bytes st = st_size_bytes z (st_messages st)
         \<and> sorted_wrt (<) (st_reject_signals st @ [st_signals_end st]))"
  using streams_reachable_ok [OF assms] by (auto simp: ss_ok_def st_ok_def ss_get_def)

theorem streams_statistics_exact_witness:
  "\<exists>st. ss_get (ss_push example_layout [200] example_call ss_new) [200] = Some st
     \<and> st_messages_size_bytes st = rr_count_bytes example_layout example_call"
proof -
  let ?s = "ss_push example_layout [200] example_call ss_new"
  have "streams_reachable example_layout ?s" by (intro streams_reachable.push streams_reachable.new)
  moreover obtain st where "ss_get ?s [200] = Some st" "siq_queue (st_messages st) = [example_call]"
    by (simp add: ss_get_def ss_push_def ss_new_def bt_get_def stream_or_default_def st_push_def st_default_def siq_default_def siq_push_def)
  ultimately show ?thesis
    using streams_statistics_exact [of example_layout ?s] example_sized by (simp add: st_size_bytes_def sum_siq_iter)
qed

section \<open>Garbage collection\<close>

definition reroutes :: "(u64 \<Rightarrow> 'p::linorder) \<Rightarrow> 'p routing_table \<Rightarrow> 'p request_or_response list \<Rightarrow> ('p \<times> 'p request_or_response) list" where
  "reroutes fr t msgs =
     concat (map (\<lambda>m. case m of
        Request _ \<Rightarrow> []
      | Response rep \<Rightarrow> (case rt_route fr t (originator rep) of Some (Some e) \<Rightarrow> [(e, m)] | _ \<Rightarrow> [])) msgs)"

lemma reroute_exact:
  "list_all (routable_msg fr t) msgs \<Longrightarrow>
   reroute_rejected_messages z fr t msgs s = Some (push_all z (reroutes fr t msgs) s)"
proof (induction msgs arbitrary: s)
  case (Cons m msgs)
  then show ?case
    by (cases m) (auto simp: reroutes_def push_all_def ss_push_handle split: option.splits)
qed (simp add: reroutes_def)

text \<open>
  C9. Garbage collection of a stream loses no response. With the header of a slice that fits a stream, exactly the messages
  before the end of the received signals leave the stream. Those of them with a reject signal that are responses are
  appended, in order, to the stream of the subnet that now hosts the originator, and no other message is
  added to any stream.
\<close>

theorem rejected_responses_rerouted:
  assumes "ss_ok z s" and "sized z" and "routable fr t s" and "ss_get s y = Some st" and "slice_fits sl st"
  shows "\<exists>s'. garbage_collect_slices z fr t [(y, sl)] s = Some s' \<and> ss_ok z s'
    \<and> (\<forall>e. siq_queue (st_messages (strm z s' e)) =
         (if e = y then drop (h_signals_end (sl_header sl) - siq_begin (st_messages st)) (siq_queue (st_messages st))
          else siq_queue (st_messages (strm z s e)))
         @ filter (\<lambda>m. \<exists>rep. m = Response rep \<and> rt_route fr t (originator rep) = Some (Some e))
             (rejected_before (h_signals_end (sl_header sl)) (h_reject_signals (sl_header sl)) (st_messages st)))"
proof -
  have st: "strm z s y = st" "bt_get (ss_streams s) y \<noteq> None" using assms(4) by (simp_all add: ss_get_def stream_or_default_def)
  let ?rej = "rejected_before (h_signals_end (sl_header sl)) (h_reject_signals (sl_header sl)) (st_messages st)"
  obtain h h' h'' where h: "ss_get_mut s y = Some h"
      "garbage_collect_messages z h (h_signals_end (sl_header sl)) (h_reject_signals (sl_header sl)) = Some (?rej, h')"
      "garbage_collect_signals h' sl = Some h''" and rej: "list_all (routable_msg fr t) ?rej"
    and q: "siq_queue (st_messages (fst h'')) = drop (h_signals_end (sl_header sl) - siq_begin (st_messages st)) (siq_queue (st_messages st))"
    and ok: "ss_ok z (ss_put_handle y h'' s)"
    using gc_one_ok [OF assms(1-3), of sl y] assms(5) st by auto
  let ?s = "ss_put_handle y h'' s" and ?s' = "push_all z (reroutes fr t ?rej) (ss_put_handle y h'' s)"
  have "garbage_collect_slices z fr t [(y, sl)] s = Some ?s'"
    using h assms(5) reroute_exact [OF rej]
    by (auto simp: slice_fits_def sub_usize_def Let_def split: option.splits)
  moreover have "ss_ok z ?s'" by (rule ss_ok_push_all [OF ok assms(2)])
  moreover have "map snd (filter (\<lambda>p. fst p = e) (reroutes fr t ms))
      = filter (\<lambda>m. \<exists>rep. m = Response rep \<and> rt_route fr t (originator rep) = Some (Some e)) ms" for e ms
    by (induction ms) (auto simp: reroutes_def split: request_or_response.splits option.splits)
  then have "siq_queue (st_messages (strm z ?s' e)) =
      (if e = y then siq_queue (st_messages (fst h'')) else siq_queue (st_messages (strm z s e)))
      @ filter (\<lambda>m. \<exists>rep. m = Response rep \<and> rt_route fr t (originator rep) = Some (Some e)) ?rej" for e
    using push_all_stream [OF ss_ok_wf [OF ok], of z "reroutes fr t ?rej" e] strm_put_handle [OF ss_ok_wf [OF assms(1)], of z y h'' e]
    by simp
  ultimately show ?thesis unfolding q by blast
qed

text \<open>A response that subnet 200 rejects goes to the stream to subnet 200 again, which hosts the originator.\<close>

definition example_answer :: "u8 list request_or_response" where
  "example_answer =
     Response \<lparr>originator = example_fr 12, respondent = example_fr 3, originator_reply_callback = 7, refund = 3,
       response_payload = Data [9]\<rparr>"

definition example_header :: stream_header where
  "example_header = \<lparr>h_begin = 0, h_end = 0, h_signals_end = 1, h_reject_signals = [0]\<rparr>"

definition example_answered :: "u8 list streams" where
  "example_answered = ss_push example_layout [200] example_answer ss_new"

lemma example_answered_stream:
  "\<exists>st. ss_get example_answered [200] = Some st \<and> st_messages st = \<lparr>siq_begin = 0, siq_queue = [example_answer]\<rparr>
     \<and> st_signals_end st = 0 \<and> st_reject_signals st = []"
  by (simp add: ss_get_def example_answered_def ss_push_def ss_new_def bt_get_def stream_or_default_def st_push_def st_default_def
      siq_default_def siq_push_def)

lemma example_answered_ok: "ss_ok example_layout example_answered" "routable example_fr example_rt example_answered"
proof -
  have "streams_reachable example_layout example_answered"
    unfolding example_answered_def by (intro streams_reachable.push streams_reachable.new)
  then show "ss_ok example_layout example_answered" using example_sized by (rule streams_reachable_ok)
  have "routable_msg example_fr example_rt example_answer" by (simp add: example_answer_def example_route)
  then show "routable example_fr example_rt example_answered"
    using routable_push_all [of example_fr example_rt ss_new "[([200], example_answer)]" example_layout]
    by (simp add: example_answered_def push_all_def routable_def ss_new_def bt_wf_def bt_get_def)
qed

theorem rejected_responses_rerouted_witness:
  "\<exists>s'. garbage_collect_slices example_layout example_fr example_rt [([200], \<lparr>sl_header = example_header, sl_messages = None\<rparr>)]
        example_answered = Some s'
     \<and> siq_queue (st_messages (strm example_layout s' [200])) = [example_answer]"
proof -
  obtain st where st: "ss_get example_answered [200] = Some st" "st_messages st = \<lparr>siq_begin = 0, siq_queue = [example_answer]\<rparr>"
      "st_signals_end st = 0" "st_reject_signals st = []"
    using example_answered_stream by blast
  have fits: "slice_fits \<lparr>sl_header = example_header, sl_messages = None\<rparr> st"
    by (simp add: slice_fits_def example_header_def st siq_end_def)
  have "rejected_before 1 [0] (st_messages st) = [example_answer]"
    by (simp add: rejected_before_def st(2) siq_iter_def siq_end_def)
  then show ?thesis
    using rejected_responses_rerouted [OF example_answered_ok(1) example_sized example_answered_ok(2) st(1) fits]
      example_route
    by (auto simp: example_header_def st(2)) (auto simp: example_answer_def)
qed

section \<open>Induction\<close>



text \<open>
  C22. Inducting messages of a canister to itself ends and loses nothing. With the cycles in the queues below the maximum, the loop
  returns: the first messages of the output queue to oneself have moved, in order, to the input queue from
  oneself, and it stopped because none is left, the input queue has no room or the memory does not suffice for the next
  one. The available memory of the subnet has changed by exactly the memory the queues gained.
\<close>

theorem induct_messages_to_self_returns:
  assumes "cq_reachable z ic00 (sys_queues s)" and "cycles_fit (sys_queues s)" and "sys_status s = Running ccm"
    and "list_all (\<lambda>m. rr_sender m = sys_canister_id s) (out_messages (sys_queues s) (sys_canister_id s))"
  shows "\<exists>q' b' xs. sys_induct_messages_to_self z s a b ty = Some (s\<lparr>sys_queues := q'\<rparr>, b')
    \<and> out_messages (sys_queues s) (sys_canister_id s) = xs @ out_messages q' (sys_canister_id s)
    \<and> iq_messages (fst (cq_pair q' (sys_canister_id s))) = iq_messages (fst (cq_pair (sys_queues s) (sys_canister_id s))) @ xs
    \<and> b' + int (cq_memory_usage z q') = b + int (cq_memory_usage z (sys_queues s))
    \<and> self_stopped z (sys_canister_id s) ty q' (min a b + int (cq_memory_usage z (sys_queues s)) - int (cq_memory_usage z q'))"
proof -
  have "cq_inv z (sys_queues s)" using cq_reachable_inv [OF assms(1)] by simp
  from induct_to_self_ok [OF this assms(2), of "sys_canister_id s" ty "min a b" b]
  obtain q' b' xs where "induct_to_self_loop z (sys_canister_id s) ty (sys_queues s) (min a b) b
        (int (cq_memory_usage z (sys_queues s))) = Some (q', b')"
      "out_messages (sys_queues s) (sys_canister_id s) = xs @ out_messages q' (sys_canister_id s)"
      "b' + int (cq_memory_usage z q') = b + int (cq_memory_usage z (sys_queues s))"
      "self_stopped z (sys_canister_id s) ty q' (min a b + int (cq_memory_usage z (sys_queues s)) - int (cq_memory_usage z q'))"
      "list_all (\<lambda>m. rr_sender m = sys_canister_id s) xs \<longrightarrow>
        iq_messages (fst (cq_pair q' (sys_canister_id s))) = iq_messages (fst (cq_pair (sys_queues s) (sys_canister_id s))) @ xs"
    by blast
  then show ?thesis
    using assms(3,4) by (intro exI [of _ q'] exI [of _ b'] exI [of _ xs]) (simp add: sys_induct_messages_to_self_def)
qed

text \<open>A canister that has called itself, on a system subnet.\<close>

definition example_self_caller :: "u8 list system_state" where
  "example_self_caller =
     (sys_new_running example_layout (example_fr 3) [1] 1000)
       \<lparr>sys_queues := example_queues_with (example_call_request\<lparr>receiver := example_fr 3\<rparr>)\<rparr>"

lemma example_queues_cycles: "cycles_fit (example_queues_with req)"
proof -
  let ?q = "example_queues_with req"
  have inv: "cq_inv example_layout ?q" by (rule example_queues_with(1))
  have "iq_messages (fst v) = []" if "bt_get (cq_queues ?q) c = Some v" for c v
    using example_queues_with(5) [of req c] cq_pair_get [OF that] by simp
  then have "\<not> 0 < bt.total (pair_stat example_layout IqCycles) (cq_queues ?q)"
    unfolding bt.total_pos_iff [OF cq_inv_wf [OF inv]] by (auto simp: pair_stat_simps)
  moreover have "cq_stat IqCycles ?q = int (bt.total (pair_stat example_layout IqCycles) (cq_queues ?q))"
    using inv unfolding cq_inv_def stats_exact_def by blast
  ultimately have "unat (iqs_cycles (cq_input_queues_stats ?q)) = 0" by (metis neq0_conv of_nat_eq_iff running_stat.simps(5))
  then show ?thesis using unat_cycles_le_max [of "oqs_cycles (cq_output_queues_stats ?q)"] unfolding cycles_fit_def by linarith
qed

theorem induct_messages_to_self_returns_witness:
  "\<exists>q' b' xs. sys_induct_messages_to_self example_layout example_self_caller 0 0 System = Some (example_self_caller\<lparr>sys_queues := q'\<rparr>, b')
     \<and> [Request (example_call_request\<lparr>receiver := example_fr 3\<rparr>)] = xs @ out_messages q' (example_fr 3)
     \<and> iq_messages (fst (cq_pair q' (example_fr 3))) = xs"
proof -
  let ?req = "example_call_request\<lparr>receiver := example_fr 3\<rparr>"
  note q = example_queues_with [of ?req]
  have s: "sys_queues example_self_caller = example_queues_with ?req" "sys_canister_id example_self_caller = example_fr 3"
    "sys_status example_self_caller = Running ccm_default"
    by (simp_all add: example_self_caller_def sys_new_running_def sys_new_def status_new_running_def)
  show ?thesis
    using induct_messages_to_self_returns [of example_layout "[]" example_self_caller ccm_default 0 0 System, unfolded s]
      q(2) [of "example_fr 3"] q(4) q(5) [of "example_fr 3"] example_queues_cycles [of ?req]
    by fastforce
qed

end
