(* ===== verification/IngressHistory_Correct.thy ===== *)
theory IngressHistory_Correct
  imports IngressHistory
begin

text \<open>
  Correctness of the ingress history: the memory used by replies is accounted for exactly and kept
  below the capacity, nothing but replies is forgotten, and messages are pruned when their time has passed.
\<close>

section \<open>The invariant\<close>

definition listed :: "'p ingress_history_state \<Rightarrow> message_id \<Rightarrow> time \<Rightarrow> bool" where
  "listed h m t \<longleftrightarrow> (\<exists>ids. bt_get (ih_pruning_times h) t = Some ids \<and> m \<in> set ids)"

definition status_has_reply :: "'p ingress_status \<Rightarrow> bool" where
  "status_has_reply s \<longleftrightarrow> (case s of Known _ _ _ state \<Rightarrow> has_reply state | Unknown \<Rightarrow> False)"

definition status_terminal :: "'p ingress_status \<Rightarrow> bool" where
  "status_terminal s \<longleftrightarrow> (case s of Known _ _ _ state \<Rightarrow> is_terminal state | Unknown \<Rightarrow> False)"

fun forget :: "'p ingress_status \<Rightarrow> 'p ingress_status" where
  "forget (Known r u t state) = Known r u t (if has_reply state then Done else state)"
| "forget Unknown = Unknown"

definition ih_base :: "'p ingress_history_state \<Rightarrow> bool" where
  "ih_base h \<longleftrightarrow> bt_wf (ih_statuses h) \<and> bt_wf (ih_pruning_times h)
     \<and> ih_memory_usage h = compute_memory_usage (ih_statuses h)"

text \<open>No reply is missed by the search from \<open>next_terminal_time\<close> on.\<close>

definition ih_ok :: "'p ingress_history_state \<Rightarrow> bool" where
  "ih_ok h \<longleftrightarrow> ih_base h
     \<and> (\<forall>m s. bt_get (ih_statuses h) m = Some s \<longrightarrow> status_has_reply s \<longrightarrow>
          (\<exists>t. listed h m t \<and> ih_next_terminal_time h \<le> t))"

lemma compute_memory_usage_total: "compute_memory_usage = bt.total ingress_status_payload_bytes"
  by (simp add: fun_eq_iff compute_memory_usage_def bt.total_def)

lemma payload_reply: "0 < ingress_status_payload_bytes s \<Longrightarrow> status_has_reply s"
  by (cases s) (auto simp: status_has_reply_def has_reply_def split: ingress_state.splits)

lemma forget_simps [simp]:
  "ingress_status_payload_bytes (forget s) = 0" "\<not> status_has_reply (forget s)" "forget (forget s) = forget s"
  "status_terminal (forget s) = status_terminal s"
  by (cases s; auto simp: status_has_reply_def has_reply_def status_terminal_def is_terminal_def split: ingress_state.splits)+

lemma forget_no_reply: "\<not> status_has_reply s \<Longrightarrow> forget s = s"
  by (cases s) (auto simp: status_has_reply_def)

lemma ih_ok_default: "ih_ok ih_default"
  by (simp add: ih_ok_def ih_base_def ih_default_def compute_memory_usage_def)

section \<open>Forgetting replies\<close>

text \<open>Some replies were forgotten, those of the messages in \<open>S\<close>.\<close>

definition forgot :: "message_id set \<Rightarrow> 'p ingress_history_state \<Rightarrow> 'p ingress_history_state \<Rightarrow> bool" where
  "forgot S h h' \<longleftrightarrow> ih_base h' \<and> ih_pruning_times h' = ih_pruning_times h
     \<and> (\<forall>m. bt_get (ih_statuses h') m = map_option (\<lambda>s. if m \<in> S then forget s else s) (bt_get (ih_statuses h) m))"

lemma forgot_trans: "forgot S h h1 \<Longrightarrow> forgot T h1 h2 \<Longrightarrow> forgot (S \<union> T) h h2"
  by (auto simp: forgot_def option.map_comp comp_def intro: option.map_cong0)

lemma forgot_refl: "ih_base h \<Longrightarrow> forgot {} h h"
  by (simp add: forgot_def option.map_ident)

lemma forget_status_ok:
  assumes "ih_base h"
  shows "\<exists>h'. forget_status m h = Some h' \<and> forgot {m} h h' \<and> ih_next_terminal_time h' = ih_next_terminal_time h"
proof (cases "\<exists>s. bt_get (ih_statuses h) m = Some s \<and> status_has_reply s")
  case True
  then obtain s where "bt_get (ih_statuses h) m = Some s" "status_has_reply s" by blast
  then obtain r u t st where s: "bt_get (ih_statuses h) m = Some (Known r u t st)" "has_reply st"
    by (cases s) (auto simp: status_has_reply_def)
  have wf: "bt_wf (ih_statuses h)" using assms by (simp add: ih_base_def)
  let ?s = "Known r u t st" and ?n = "Known r u t Done"
  define h' where "h' = h\<lparr>ih_statuses := bt_insert m ?n (ih_statuses h),
    ih_memory_usage := ih_memory_usage h - ingress_status_payload_bytes ?s\<rparr>"
  have le: "ingress_status_payload_bytes ?s \<le> ih_memory_usage h"
    using bt.total_ge [OF wf s(1), of ingress_status_payload_bytes] assms
    by (simp add: ih_base_def compute_memory_usage_total)
  have "bt.total ingress_status_payload_bytes (bt_insert m ?n (ih_statuses h)) + ingress_status_payload_bytes ?s
      = bt.total ingress_status_payload_bytes (ih_statuses h)"
    using bt.total_ins_old [OF wf s(1), of ingress_status_payload_bytes ?n] by simp
  then have "ih_base h'" using assms le
    by (simp add: ih_base_def h'_def compute_memory_usage_total bt.wf_ins)
  then have "forgot {m} h h'" using s by (auto simp: forgot_def h'_def bt.get_ins [OF wf] option.map_ident)
  moreover have "forget_status m h = Some h'" using le s
    by (simp add: forget_status_def h'_def sub_usize_def del: ingress_status_payload_bytes.simps(1))
       (simp add: ingress_status_payload_bytes.simps(1) [of _ _ _ Done])
  ultimately show ?thesis by (auto simp: h'_def)
next
  case False
  then have "forget_status m h = Some h"
    by (auto simp: forget_status_def status_has_reply_def split: option.splits ingress_status.splits)
  moreover have "bt_get (ih_statuses h) n = map_option (\<lambda>s. if n = m then forget s else s) (bt_get (ih_statuses h) n)" for n
    using False by (cases "bt_get (ih_statuses h) n") (auto simp: forget_no_reply)
  then have "forgot {m} h h" using assms by (simp add: forgot_def)
  ultimately show ?thesis by blast
qed

lemma forget_statuses_ok:
  "ih_base h \<Longrightarrow>
   \<exists>h'. forget_statuses ms h = Some h' \<and> forgot (set ms) h h' \<and> ih_next_terminal_time h' = ih_next_terminal_time h"
proof (induction ms arbitrary: h)
  case (Cons m ms)
  obtain h1 where h1: "forget_status m h = Some h1" "forgot {m} h h1" "ih_next_terminal_time h1 = ih_next_terminal_time h"
    using forget_status_ok [OF Cons.prems] by blast
  moreover have "ih_base h1" using h1(2) by (simp add: forgot_def)
  then obtain h2 where "forget_statuses ms h1 = Some h2" "forgot (set ms) h1 h2"
      "ih_next_terminal_time h2 = ih_next_terminal_time h1"
    using Cons.IH [of h1] by blast
  ultimately show ?case using forgot_trans [of "{m}" h h1 "set ms" h2] by simp
qed (simp add: forgot_refl)

text \<open>
  The times are visited in order until the memory suffices: all messages before the time where the search stops
  have been visited.
\<close>

definition visited :: "(time \<times> message_id list) list \<Rightarrow> message_id set \<Rightarrow> bool" where
  "visited ts S \<longleftrightarrow> (\<forall>(t, ids)\<in>set ts. set ids \<subseteq> S)"

lemma visited_simps [simp]:
  "visited [] S" "visited ((t, ids) # ts) S \<longleftrightarrow> set ids \<subseteq> S \<and> visited ts S"
  by (auto simp: visited_def)

lemma visited_mono: "visited ts S \<Longrightarrow> S \<subseteq> T \<Longrightarrow> visited ts T"
  by (fastforce simp: visited_def)

lemma forget_times_ok:
  assumes "ih_base h" and "sorted_wrt (<) (map fst ts)"
  shows "\<exists>h' S. forget_times cap ts h = Some h' \<and> forgot S h h'
    \<and> visited (filter (\<lambda>(t, _). t < ih_next_terminal_time h') ts) S
    \<and> (if ts = [] then ih_next_terminal_time h' = ih_next_terminal_time h else ih_next_terminal_time h' \<in> fst ` set ts)
    \<and> (ih_memory_usage h' \<le> cap \<or> visited ts S)"
  using assms
proof (induction ts arbitrary: h)
  case Nil
  then show ?case using forgot_refl [of h] by auto
next
  case (Cons e ts)
  obtain t ids where e: "e = (t, ids)" by (cases e)
  let ?h1 = "h\<lparr>ih_next_terminal_time := t\<rparr>"
  have base: "ih_base ?h1" using Cons.prems(1) by (simp add: ih_base_def)
  have same: "forgot S ?h1 h' = forgot S h h'" for S h' by (simp add: forgot_def)
  show ?case
  proof (cases "ih_memory_usage h \<le> cap")
    case True
    have "filter (\<lambda>(t', _). t' < t) (e # ts) = []" using Cons.prems(2) by (auto simp: e filter_empty_conv)
    then show ?thesis using True forgot_refl [OF base] by (intro exI [of _ ?h1] exI [of _ "{}"]) (simp add: e same)
  next
    case False
    obtain h2 where h2: "forget_statuses ids ?h1 = Some h2" "forgot (set ids) h h2" "ih_next_terminal_time h2 = t"
      using forget_statuses_ok [OF base, of ids] by (auto simp: same)
    then have "ih_base h2" by (simp add: forgot_def)
    then obtain h' S where h': "forget_times cap ts h2 = Some h'" "forgot S h2 h'"
        "visited (filter (\<lambda>(t, _). t < ih_next_terminal_time h') ts) S"
        "if ts = [] then ih_next_terminal_time h' = t else ih_next_terminal_time h' \<in> fst ` set ts"
        "ih_memory_usage h' \<le> cap \<or> visited ts S"
      using Cons.IH [of h2] Cons.prems(2) h2(3) by auto
    show ?thesis
      by (intro exI [of _ h'] exI [of _ "set ids \<union> S"] conjI)
        (use False h2(1) h'(1,3-5) forgot_trans [OF h2(2) h'(2)] visited_mono [of _ S "set ids \<union> S"]
          in \<open>auto simp: e Let_def split: if_splits\<close>)
  qed
qed

lemma no_reply_no_memory:
  assumes "ih_base h" and "\<And>m s. bt_get (ih_statuses h) m = Some s \<Longrightarrow> \<not> status_has_reply s"
  shows "ih_memory_usage h = 0"
  using assms bt.total_pos_iff [of "ih_statuses h" ingress_status_payload_bytes] payload_reply
  by (auto simp: ih_base_def compute_memory_usage_total)

lemma forget_terminal_ok:
  assumes "ih_ok h"
  shows "\<exists>h' S. forget_terminal_statuses cap h = Some h' \<and> forgot S h h' \<and> ih_ok h' \<and> ih_memory_usage h' \<le> cap"
proof -
  let ?ts = "filter (\<lambda>(t, _). ih_next_terminal_time h \<le> t) (ih_pruning_times h)"
  have base: "ih_base h" using assms by (simp add: ih_ok_def)
  then have "bt_wf ?ts" by (simp add: ih_base_def bt_wf_filter)
  then obtain h' S where h': "forget_times cap ?ts h = Some h'" "forgot S h h'"
      "visited (filter (\<lambda>(t, _). t < ih_next_terminal_time h') ?ts) S" "ih_memory_usage h' \<le> cap \<or> visited ?ts S"
    using forget_times_ok [OF base, of ?ts cap] unfolding bt_wf_def by blast
  have reply: "\<exists>t ids. (t, ids) \<in> set ?ts \<and> m \<in> set ids \<and> m \<notin> S \<and> listed h' m t"
    if s: "bt_get (ih_statuses h') m = Some s" "status_has_reply s" for m s
  proof -
    obtain s' where s': "bt_get (ih_statuses h) m = Some s'" "s = (if m \<in> S then forget s' else s')"
      using s(1) h'(2) by (auto simp: forgot_def)
    then have "m \<notin> S" and "status_has_reply s'" using s(2) by (auto split: if_splits)
    moreover obtain t where "listed h m t" "ih_next_terminal_time h \<le> t"
      using assms s'(1) \<open>status_has_reply s'\<close> by (auto simp: ih_ok_def)
    moreover have "bt_wf (ih_pruning_times h)" using base by (simp add: ih_base_def)
    ultimately show ?thesis using h'(2) by (auto simp: listed_def forgot_def bt.get_iff_entry)
  qed
  have "ih_ok h'" unfolding ih_ok_def
  proof (intro conjI allI impI)
    show "ih_base h'" using h'(2) by (simp add: forgot_def)
  next
    fix m s assume "bt_get (ih_statuses h') m = Some s" "status_has_reply s"
    from reply [OF this] obtain t ids where t: "(t, ids) \<in> set ?ts" "m \<in> set ids" "m \<notin> S" "listed h' m t" by blast
    then have "\<not> t < ih_next_terminal_time h'" using h'(3) by (auto simp: visited_def)
    then show "\<exists>t. listed h' m t \<and> ih_next_terminal_time h' \<le> t" using t(4) by (auto simp: not_less)
  qed
  moreover have "ih_memory_usage h' \<le> cap" using h'(4)
  proof
    assume "visited ?ts S"
    then have "\<not> status_has_reply s" if "bt_get (ih_statuses h') m = Some s" for m s
      using reply [OF that] unfolding visited_def by fast
    then show ?thesis using no_reply_no_memory [of h'] h'(2) by (simp add: forgot_def)
  qed
  ultimately show ?thesis using h'(1,2) by (auto simp: forget_terminal_statuses_def CURRENT_CERTIFICATION_VERSION_def)
qed

section \<open>Inserting\<close>

definition enroll :: "message_id \<Rightarrow> 'p ingress_status \<Rightarrow> time \<Rightarrow> 'p ingress_history_state \<Rightarrow> 'p ingress_history_state" where
  "enroll m s t h = (case s of Known _ _ _ state \<Rightarrow> enroll_for_pruning m state t h | Unknown \<Rightarrow> h)"

lemma enroll_simps [simp]:
  "ih_statuses (enroll m s t h) = ih_statuses h" "ih_memory_usage (enroll m s t h) = ih_memory_usage h"
  by (simp_all add: enroll_def enroll_for_pruning_def Let_def split: ingress_status.splits)

lemma enroll_ok:
  assumes "bt_wf (ih_pruning_times h)"
  shows "bt_wf (ih_pruning_times (enroll m s t h))"
    and "listed (enroll m s t h) n u \<longleftrightarrow> listed h n u \<or> status_terminal s \<and> n = m \<and> u = time_add t MAX_INGRESS_TTL"
    and "ih_next_terminal_time (enroll m s t h) \<le> ih_next_terminal_time h"
    and "status_has_reply s \<Longrightarrow> ih_next_terminal_time (enroll m s t h) \<le> time_add t MAX_INGRESS_TTL"
  using assms
  by (auto simp: enroll_def enroll_for_pruning_def Let_def status_terminal_def status_has_reply_def is_terminal_def
      listed_def bt.get_ins bt.wf_ins set_insort_insert split: ingress_status.splits option.splits dest!: sym [of "Some _"])

lemma insert_status_base:
  assumes "ih_base h"
  shows "\<exists>mem. (case bt_get (ih_statuses h) m of
             None \<Rightarrow> Some (ih_memory_usage h + ingress_status_payload_bytes s)
           | Some old \<Rightarrow> sub_usize (ih_memory_usage h + ingress_status_payload_bytes s) (ingress_status_payload_bytes old))
           = Some mem
    \<and> ih_base (h\<lparr>ih_statuses := bt_insert m s (ih_statuses h), ih_memory_usage := mem\<rparr>)"
proof -
  have wf: "bt_wf (ih_statuses h)" using assms by (simp add: ih_base_def)
  show ?thesis
  proof (cases "bt_get (ih_statuses h) m")
    case None
    then show ?thesis using assms bt.total_ins_new [OF wf None, of ingress_status_payload_bytes s]
      by (simp add: ih_base_def compute_memory_usage_total bt.wf_ins)
  next
    case (Some old)
    then show ?thesis using assms bt.total_ins_old [OF wf Some, of ingress_status_payload_bytes s]
      by (auto simp: ih_base_def compute_memory_usage_total bt.wf_ins sub_usize_Some_iff)
  qed
qed

lemma ih_insert_ok:
  assumes "ih_ok h"
  shows "\<exists>h' S. ih_insert m s t cap h = Some h' \<and> ih_ok h' \<and> ih_memory_usage h' \<le> cap
    \<and> ih_pruning_times h' = ih_pruning_times (enroll m s t h)
    \<and> (\<forall>n. bt_get (ih_statuses h') n =
          map_option (\<lambda>u. if n \<in> S then forget u else u) (if n = m then Some s else bt_get (ih_statuses h) n))"
proof -
  let ?h1 = "enroll m s t h"
  have wf: "bt_wf (ih_statuses h)" "bt_wf (ih_pruning_times h)" using assms by (simp_all add: ih_ok_def ih_base_def)
  have "ih_base ?h1" using assms enroll_ok(1) [OF wf(2)] by (simp add: ih_ok_def ih_base_def)
  from insert_status_base [OF this, where m = m and s = s] obtain mem where
    mem: "(case bt_get (ih_statuses h) m of None \<Rightarrow> Some (ih_memory_usage h + ingress_status_payload_bytes s)
      | Some old \<Rightarrow> sub_usize (ih_memory_usage h + ingress_status_payload_bytes s) (ingress_status_payload_bytes old)) = Some mem"
    and base: "ih_base (?h1\<lparr>ih_statuses := bt_insert m s (ih_statuses h), ih_memory_usage := mem\<rparr>)"
    unfolding enroll_simps by blast
  define h2 where "h2 = ?h1\<lparr>ih_statuses := bt_insert m s (ih_statuses h), ih_memory_usage := mem\<rparr>"
  have get2: "bt_get (ih_statuses h2) n = (if n = m then Some s else bt_get (ih_statuses h) n)" for n
    by (simp add: h2_def bt.get_ins [OF wf(1)])
  have listed2: "listed h2 n u \<longleftrightarrow> listed ?h1 n u" for n u by (simp add: h2_def listed_def)
  have next2: "ih_next_terminal_time h2 = ih_next_terminal_time ?h1" by (simp add: h2_def)
  have "\<exists>u. listed h2 n u \<and> ih_next_terminal_time h2 \<le> u"
    if r: "bt_get (ih_statuses h2) n = Some r" "status_has_reply r" for n r
  proof (cases "n = m")
    case True
    then have "status_has_reply s" "status_terminal s" using r
      by (auto simp: get2 status_has_reply_def status_terminal_def is_terminal_def split: ingress_status.splits)
    then show ?thesis using True enroll_ok(2,4) [OF wf(2)] by (auto simp: listed2 next2)
  next
    case False
    then obtain u where "listed h n u" "ih_next_terminal_time h \<le> u" using r assms by (auto simp: get2 ih_ok_def)
    then have "listed h2 n u" "ih_next_terminal_time h2 \<le> u"
      using order_trans [OF enroll_ok(3) [OF wf(2)]] by (simp_all add: listed2 next2 enroll_ok(2) [OF wf(2)])
    then show ?thesis by blast
  qed
  then have ok2: "ih_ok h2" using base by (simp add: ih_ok_def h2_def [symmetric])
  have step: "ih_insert m s t cap h = (if mem > cap then forget_terminal_statuses cap h2 else Some h2)"
    unfolding ih_insert_def Let_def enroll_def [symmetric] enroll_simps mem h2_def by simp
  have p2: "ih_pruning_times h2 = ih_pruning_times ?h1" by (simp add: h2_def)
  show ?thesis
  proof (cases "mem > cap")
    case True
    then obtain h' S where h': "ih_insert m s t cap h = Some h'" "forgot S h2 h'" "ih_ok h'" "ih_memory_usage h' \<le> cap"
      using forget_terminal_ok [OF ok2, of cap] step by auto
    from h'(2) have "ih_pruning_times h' = ih_pruning_times ?h1" "\<forall>n. bt_get (ih_statuses h') n =
        map_option (\<lambda>u. if n \<in> S then forget u else u) (if n = m then Some s else bt_get (ih_statuses h) n)"
      unfolding forgot_def get2 p2 by blast+
    then show ?thesis using h'(1,3,4) by blast
  next
    case False
    then have "ih_memory_usage h2 \<le> cap" by (simp add: h2_def)
    then show ?thesis using False step ok2 p2 get2
      by (intro exI [of _ h2] exI [of _ "{}"]) (simp add: option.map_ident)
  qed
qed

section \<open>Pruning\<close>

lemma total_bt_remove:
  assumes "bt_wf m" and "bt_get m k = Some v"
  shows "bt.total f (bt_remove k m) + f v = bt.total f m"
proof -
  have "bt.total f (bt_remove k m) = (\<Sum>k'\<in>bt.keys m - {k}. f (the (bt_get m k')))"
    using assms(1) by (subst bt.total_keys) (auto simp: bt.wf_del bt.keys_del bt.get_del intro!: sum.cong)
  then show ?thesis using bt.total_remove [OF assms, of f] by simp
qed

lemma prune_statuses_ok:
  "ih_base h \<Longrightarrow> \<exists>h'. prune_statuses ms h = Some h' \<and> ih_base h' \<and> ih_pruning_times h' = ih_pruning_times h
    \<and> ih_next_terminal_time h' = ih_next_terminal_time h
    \<and> (\<forall>n. bt_get (ih_statuses h') n = (if n \<in> set ms then None else bt_get (ih_statuses h) n))"
proof (induction ms arbitrary: h)
  case (Cons m ms)
  have wf: "bt_wf (ih_statuses h)" using Cons.prems by (simp add: ih_base_def)
  show ?case
  proof (cases "bt_get (ih_statuses h) m")
    case None
    obtain h' where "prune_statuses ms h = Some h'" "ih_base h'" "ih_pruning_times h' = ih_pruning_times h"
        "ih_next_terminal_time h' = ih_next_terminal_time h"
        "\<forall>n. bt_get (ih_statuses h') n = (if n \<in> set ms then None else bt_get (ih_statuses h) n)"
      using Cons.IH [OF Cons.prems] by blast
    then show ?thesis using None by (intro exI [of _ h']) auto
  next
    case (Some s)
    have total: "bt.total ingress_status_payload_bytes (bt_remove m (ih_statuses h)) + ingress_status_payload_bytes s
        = ih_memory_usage h"
      using total_bt_remove [OF wf Some] Cons.prems by (simp add: ih_base_def compute_memory_usage_total)
    define h1 where "h1 = h\<lparr>ih_statuses := bt_remove m (ih_statuses h),
      ih_memory_usage := ih_memory_usage h - ingress_status_payload_bytes s\<rparr>"
    have "ih_base h1" using Cons.prems total
      by (simp add: ih_base_def h1_def compute_memory_usage_total bt.wf_del)
    then obtain h' where "prune_statuses ms h1 = Some h'" "ih_base h'" "ih_pruning_times h' = ih_pruning_times h1"
        "ih_next_terminal_time h' = ih_next_terminal_time h1"
        "\<forall>n. bt_get (ih_statuses h') n = (if n \<in> set ms then None else bt_get (ih_statuses h1) n)"
      using Cons.IH by blast
    moreover have "sub_usize (ih_memory_usage h) (ingress_status_payload_bytes s) =
        Some (ih_memory_usage h - ingress_status_payload_bytes s)" using total by (simp add: sub_usize_def)
    ultimately show ?thesis using Some
      by (intro exI [of _ h']) (auto simp: h1_def bt.get_del [OF wf])
  qed
qed simp

lemma listed_filter:
  assumes "bt_wf (ih_pruning_times h)"
  shows "bt_get (filter (\<lambda>(t, _). P t) (ih_pruning_times h)) t = (if P t then bt_get (ih_pruning_times h) t else None)"
  using bt_get_retain [OF assms, of "\<lambda>t _. P t" t] by (simp add: bt_retain_def split: option.splits)

lemma ih_prune_ok:
  assumes "ih_ok h"
  shows "\<exists>h'. ih_prune now h = Some h' \<and> ih_ok h'
    \<and> (\<forall>n t. listed h' n t \<longleftrightarrow> listed h n t \<and> now \<le> t)
    \<and> (\<forall>n. bt_get (ih_statuses h') n = (if \<exists>t<now. listed h n t then None else bt_get (ih_statuses h) n))"
proof -
  let ?passed = "concat (map snd (filter (\<lambda>(t, _). t < now) (ih_pruning_times h)))"
  have wf: "bt_wf (ih_pruning_times h)" using assms by (simp add: ih_ok_def ih_base_def)
  obtain h1 where h1: "prune_statuses ?passed h = Some h1" "ih_base h1" "ih_pruning_times h1 = ih_pruning_times h"
      "ih_next_terminal_time h1 = ih_next_terminal_time h"
      "\<forall>n. bt_get (ih_statuses h1) n = (if n \<in> set ?passed then None else bt_get (ih_statuses h) n)"
    using prune_statuses_ok [of h ?passed] assms by (auto simp: ih_ok_def)
  have passed: "n \<in> set ?passed \<longleftrightarrow> (\<exists>t<now. listed h n t)" for n
    by (force simp: listed_def bt.get_iff_entry [OF wf])
  have get1: "bt_get (ih_statuses h1) n = (if \<exists>t<now. listed h n t then None else bt_get (ih_statuses h) n)" for n
    using h1(5) by (simp only: passed)
  define h' where "h' = h1\<lparr>ih_pruning_times := filter (\<lambda>(t, _). now \<le> t) (ih_pruning_times h)\<rparr>"
  have listed': "listed h' n t \<longleftrightarrow> listed h n t \<and> now \<le> t" for n t
    by (auto simp: listed_def h'_def listed_filter [OF wf])
  have "ih_base h'" using h1(2) wf by (simp add: ih_base_def h'_def bt_wf_filter)
  moreover have "\<exists>t. listed h' n t \<and> ih_next_terminal_time h' \<le> t"
    if s: "bt_get (ih_statuses h') n = Some s" "status_has_reply s" for n s
  proof -
    have "\<not> (\<exists>t<now. listed h n t)" "bt_get (ih_statuses h) n = Some s"
      using s(1) by (auto simp: h'_def get1 split: if_splits)
    then obtain t where "listed h n t" "ih_next_terminal_time h \<le> t" "now \<le> t"
      using assms s(2) by (fastforce simp: ih_ok_def not_less)
    then show ?thesis using h1(4) by (auto simp: listed') (auto simp: h'_def)
  qed
  ultimately have "ih_ok h'" by (simp add: ih_ok_def)
  moreover have "ih_prune now h = Some h'" using h1(1) by (simp add: ih_prune_def h'_def)
  ultimately show ?thesis using listed' get1 by (auto simp: h'_def)
qed

end
