(* ===== verification/IngressHistory_Spec.thy ===== *)
theory IngressHistory_Spec
  imports IngressHistory_Correct
begin

text \<open>
  The contract of the ingress history: it implements a map that records every status until it is terminal
  and its time has passed, and gives up replies only to stay within its memory.
\<close>

section \<open>Histories as maps\<close>

text \<open>
  The map records for every message its status and the time at which it is pruned if the status is terminal.
\<close>

definition spec_prune ::
  "time \<Rightarrow> (message_id \<Rightarrow> ('p ingress_status \<times> time) option) \<Rightarrow> message_id \<Rightarrow> ('p ingress_status \<times> time) option" where
  "spec_prune now g m =
     (case g m of None \<Rightarrow> None | Some (s, t) \<Rightarrow> if status_terminal s \<and> t < now then None else Some (s, t))"

inductive ih_run :: "(message_id \<Rightarrow> ('p ingress_status \<times> time) option) \<Rightarrow> 'p ingress_history_state \<Rightarrow> bool" where
  start: "ih_run Map.empty ih_default"
| set_status: "ih_run g h \<Longrightarrow> ih_set_status now cap m s h = Some h' \<Longrightarrow>
    ih_run (g(m \<mapsto> (s, time_add now MAX_INGRESS_TTL))) h'"
| prune: "ih_run g h \<Longrightarrow> ih_prune now h = Some h' \<Longrightarrow> ih_run (spec_prune now g) h'"

definition refines :: "(message_id \<Rightarrow> ('p ingress_status \<times> time) option) \<Rightarrow> 'p ingress_history_state \<Rightarrow> bool" where
  "refines g h \<longleftrightarrow>
     (\<forall>m. case g m of
        None \<Rightarrow> bt_get (ih_statuses h) m = None
      | Some (s, t) \<Rightarrow> bt_get (ih_statuses h) m = Some s \<or> bt_get (ih_statuses h) m = Some (forget s))
     \<and> (\<forall>m t. listed h m t \<longleftrightarrow> (\<exists>s. g m = Some (s, t) \<and> status_terminal s))"

lemma refines_get:
  "refines g h \<Longrightarrow> (case g m of
      None \<Rightarrow> bt_get (ih_statuses h) m = None
    | Some (s, t) \<Rightarrow> bt_get (ih_statuses h) m = Some s \<or> bt_get (ih_statuses h) m = Some (forget s))"
  by (simp add: refines_def)

lemma transition_not_terminal: "valid_transition s s' \<Longrightarrow> \<not> status_terminal s"
  by (cases s; cases s')
    (auto simp: status_terminal_def is_terminal_def has_reply_def split: ingress_state.splits)

lemma refines_set_status:
  assumes "ih_ok h" and "refines g h" and "ih_set_status now cap m s h = Some h'"
  shows "ih_ok h' \<and> refines (g(m \<mapsto> (s, time_add now MAX_INGRESS_TTL))) h'"
proof -
  have valid: "valid_transition (ih_get_status h m) s" and ins: "ih_insert m s now cap h = Some h'"
    using assms(3) by (simp_all add: ih_set_status_def split: if_splits)
  obtain S where ok: "ih_ok h'" and p: "ih_pruning_times h' = ih_pruning_times (enroll m s now h)"
    and get: "\<And>n. bt_get (ih_statuses h') n =
          map_option (\<lambda>u. if n \<in> S then forget u else u) (if n = m then Some s else bt_get (ih_statuses h) n)"
    using ih_insert_ok [OF assms(1), of m s now cap] ins by auto
  have fresh: "\<not> status_terminal s0" if "g m = Some (s0, t)" for s0 t
    using transition_not_terminal [OF valid] refines_get [OF assms(2), of m] that by (auto simp: ih_get_status_def)
  have "listed h' n t \<longleftrightarrow> listed h n t \<or> status_terminal s \<and> n = m \<and> t = time_add now MAX_INGRESS_TTL" for n t
    using enroll_ok(2) [of h m s now n t] p assms(1) by (simp add: listed_def ih_ok_def ih_base_def)
  then have "listed h' n t \<longleftrightarrow>
      (\<exists>u. (g(m \<mapsto> (s, time_add now MAX_INGRESS_TTL))) n = Some (u, t) \<and> status_terminal u)" for n t
    using assms(2) fresh by (auto simp: refines_def)
  moreover have "case (g(m \<mapsto> (s, time_add now MAX_INGRESS_TTL))) n of
        None \<Rightarrow> bt_get (ih_statuses h') n = None
      | Some (s, t) \<Rightarrow> bt_get (ih_statuses h') n = Some s \<or> bt_get (ih_statuses h') n = Some (forget s)" for n
    using refines_get [OF assms(2), of n] by (auto simp: get split: option.splits)
  ultimately show ?thesis using ok unfolding refines_def by blast
qed

lemma refines_prune:
  assumes "ih_ok h" and "refines g h" and "ih_prune now h = Some h'"
  shows "ih_ok h' \<and> refines (spec_prune now g) h'"
proof -
  have h': "ih_ok h'" "\<And>n t. listed h' n t \<longleftrightarrow> listed h n t \<and> now \<le> t"
      "\<And>n. bt_get (ih_statuses h') n = (if \<exists>t<now. listed h n t then None else bt_get (ih_statuses h) n)"
    using ih_prune_ok [OF assms(1), of now] assms(3) by auto
  have listed: "listed h n t \<longleftrightarrow> (\<exists>s. g n = Some (s, t) \<and> status_terminal s)" for n t
    using assms(2) by (simp add: refines_def)
  have "listed h' n t \<longleftrightarrow> (\<exists>s. spec_prune now g n = Some (s, t) \<and> status_terminal s)" for n t
    unfolding h'(2) listed spec_prune_def by (auto split: option.splits)
  moreover have "case spec_prune now g n of
        None \<Rightarrow> bt_get (ih_statuses h') n = None
      | Some (s, t) \<Rightarrow> bt_get (ih_statuses h') n = Some s \<or> bt_get (ih_statuses h') n = Some (forget s)" for n
    unfolding h'(3) listed spec_prune_def using refines_get [OF assms(2), of n] by (auto split: option.splits)
  ultimately show ?thesis using h'(1) unfolding refines_def by blast
qed

lemma ih_run_ok: "ih_run g h \<Longrightarrow> ih_ok h \<and> refines g h"
proof (induction rule: ih_run.induct)
  case start
  show ?case using ih_ok_default by (simp add: refines_def listed_def ih_default_def)
next
  case (set_status g h now cap m s h')
  then show ?case using refines_set_status by blast
next
  case (prune g h now h')
  then show ?case using refines_prune by blast
qed

section \<open>Properties\<close>

text \<open>
  C13. The ingress history implements a map from messages to statuses in which only terminal statuses whose time
  has passed are pruned: a status is the one that was set last, or has lost its reply. A status can
  be set exactly if the transition to it is valid, and pruning never panics.
\<close>

theorem ingress_history_refines_map:
  assumes "ih_run g h"
  shows "(case g m of
            None \<Rightarrow> ih_get_status h m = Unknown
          | Some (s, t) \<Rightarrow> ih_get_status h m = s \<or> ih_get_status h m = forget s)
    \<and> (ih_set_status now cap m s h \<noteq> None \<longleftrightarrow> valid_transition (ih_get_status h m) s)
    \<and> ih_prune now h \<noteq> None"
proof -
  have ok: "ih_ok h" "refines g h" using ih_run_ok [OF assms] by auto
  then have "ih_insert m s now cap h \<noteq> None" "ih_prune now h \<noteq> None"
    using ih_insert_ok [OF ok(1), of m s now cap] ih_prune_ok [OF ok(1), of now] by auto
  then show ?thesis using refines_get [OF ok(2), of m]
    by (auto simp: ih_set_status_def ih_get_status_def split: option.splits)
qed

definition example_known :: "ingress_state \<Rightarrow> nat ingress_status" where
  "example_known = Known 1 2 0"

lemma example_times:
  "time_add 0 MAX_INGRESS_TTL = 300000000000" "time_add 5 MAX_INGRESS_TTL = 300000000005"
  "time_add 200000000000 MAX_INGRESS_TTL = 500000000000"
  by (simp_all add: time_add_def MAX_INGRESS_TTL_def)

lemmas example_eval =
  ih_set_status_def ih_get_status_def ih_insert_def ih_prune_def enroll_for_pruning_def forget_terminal_statuses_def
  forget_status_def CURRENT_CERTIFICATION_VERSION_def bt_get_def bt_remove_def sub_usize_def Let_def is_terminal_def
  has_reply_def insort_insert_key_def example_known_def ih_default_def example_times

lemma example_run:
  "\<exists>h. ih_run (spec_prune 400000000000
      [[7] \<mapsto> (example_known Received, time_add 0 MAX_INGRESS_TTL),
       [8] \<mapsto> (example_known (Completed (WasmReply [1, 2, 3])), time_add 5 MAX_INGRESS_TTL),
       [9] \<mapsto> (example_known (Completed (WasmReply [4])), time_add 200000000000 MAX_INGRESS_TTL)]) h
    \<and> ih_memory_usage h = 1"
proof -
  let ?h1 = "\<lparr>ih_statuses = [([7], example_known Received)], ih_pruning_times = [], ih_next_terminal_time = 0,
      ih_memory_usage = 0\<rparr>"
  let ?t = "300000000005" and ?u = "500000000000"
  let ?h2 = "\<lparr>ih_statuses = [([7], example_known Received), ([8], example_known (Completed (WasmReply [1, 2, 3])))],
      ih_pruning_times = [(?t, [[8]])], ih_next_terminal_time = 0, ih_memory_usage = 3\<rparr>"
  let ?h3 = "\<lparr>ih_statuses = [([7], example_known Received), ([8], example_known Done), ([9], example_known (Completed (WasmReply [4])))],
      ih_pruning_times = [(?t, [[8]]), (?u, [[9]])], ih_next_terminal_time = ?u, ih_memory_usage = 1\<rparr>"
  let ?h4 = "\<lparr>ih_statuses = [([7], example_known Received), ([9], example_known (Completed (WasmReply [4])))],
      ih_pruning_times = [(?u, [[9]])], ih_next_terminal_time = ?u, ih_memory_usage = 1\<rparr>"
  have 1: "ih_set_status 0 3 [7] (example_known Received) ih_default = Some ?h1" by (simp add: example_eval)
  have 2: "ih_set_status 5 3 [8] (example_known (Completed (WasmReply [1, 2, 3]))) ?h1 = Some ?h2" by (simp add: example_eval)
  have 3: "ih_set_status 200000000000 3 [9] (example_known (Completed (WasmReply [4]))) ?h2 = Some ?h3" by (simp add: example_eval)
  have 4: "ih_prune 400000000000 ?h3 = Some ?h4" by (simp add: example_eval)
  show ?thesis
    using ih_run.prune [OF ih_run.set_status [OF ih_run.set_status [OF ih_run.set_status [OF ih_run.start 1] 2] 3] 4]
    by (intro exI [of _ ?h4]) simp
qed

theorem ingress_history_refines_map_witness:
  "\<exists>h. ih_memory_usage h = 1 \<and> ih_get_status h [8] = Unknown
    \<and> ih_get_status h [7] = example_known Received \<and> ih_set_status 0 9 [7] (example_known Done) h = None"
proof -
  obtain h where h: "ih_run (spec_prune 400000000000
      [[7] \<mapsto> (example_known Received, time_add 0 MAX_INGRESS_TTL),
       [8] \<mapsto> (example_known (Completed (WasmReply [1, 2, 3])), time_add 5 MAX_INGRESS_TTL),
       [9] \<mapsto> (example_known (Completed (WasmReply [4])), time_add 200000000000 MAX_INGRESS_TTL)]) h"
      "ih_memory_usage h = 1"
    using example_run by blast
  have eval: "time_add 5 MAX_INGRESS_TTL < (400000000000 :: time)" by (simp add: example_times)
  have "ih_get_status h [8] = Unknown"
    using ingress_history_refines_map [OF h(1), of "[8]"] eval
    by (simp add: spec_prune_def example_known_def status_terminal_def is_terminal_def has_reply_def)
  moreover have seven: "ih_get_status h [7] = example_known Received"
    using ingress_history_refines_map [OF h(1), of "[7]"]
    by (simp add: spec_prune_def example_known_def status_terminal_def is_terminal_def has_reply_def)
  moreover have "ih_set_status 0 9 [7] (example_known Done) h = None"
    using ingress_history_refines_map [OF h(1), of "[7]" 0 9 "example_known Done"] seven
    by (simp add: example_known_def has_reply_def)
  ultimately show ?thesis using h(2) by blast
qed

text \<open>The histories that the operations produce when statuses are overwritten in any order.\<close>

inductive ih_reachable :: "'p ingress_history_state \<Rightarrow> bool" where
  start: "ih_reachable ih_default"
| insert: "ih_reachable h \<Longrightarrow> ih_insert m s now cap h = Some h' \<Longrightarrow> ih_reachable h'"
| prune: "ih_reachable h \<Longrightarrow> ih_prune now h = Some h' \<Longrightarrow> ih_reachable h'"

lemma ih_reachable_ok: "ih_reachable h \<Longrightarrow> ih_ok h"
proof (induction rule: ih_reachable.induct)
  case (insert h m s now cap h')
  then show ?case using ih_insert_ok [of h m s now cap] by auto
next
  case (prune h now h')
  then show ?case using ih_prune_ok [of h now] by auto
qed (rule ih_ok_default)

text \<open>
  C14. In every ingress history the recorded memory is that of the replies it holds. Inserting a status never
  panics, keeps all messages, and leaves at most as many bytes of replies as the capacity allows,
  because every reply can be found from the time where the search for replies starts.
\<close>

theorem ingress_history_bounded:
  assumes "ih_reachable h"
  shows "ih_memory_usage h = compute_memory_usage (ih_statuses h)
    \<and> (\<exists>h'. ih_insert m s now cap h = Some h' \<and> compute_memory_usage (ih_statuses h') \<le> cap
         \<and> (\<forall>n. bt_contains_key (ih_statuses h') n \<longleftrightarrow> n = m \<or> bt_contains_key (ih_statuses h) n))"
proof -
  have ok: "ih_ok h" using ih_reachable_ok [OF assms] .
  obtain h' S where h': "ih_insert m s now cap h = Some h'" "ih_ok h'" "ih_memory_usage h' \<le> cap"
      "\<forall>n. bt_get (ih_statuses h') n =
          map_option (\<lambda>u. if n \<in> S then forget u else u) (if n = m then Some s else bt_get (ih_statuses h) n)"
    using ih_insert_ok [OF ok, of m s now cap] by blast
  then show ?thesis using ok by (auto simp: ih_ok_def ih_base_def bt_contains_key_def)
qed

theorem ingress_history_bounded_witness:
  "\<exists>h'. ih_insert [8] (example_known (Completed (WasmReply [1, 2, 3]))) 5 2 ih_default = Some h'
    \<and> compute_memory_usage (ih_statuses h') \<le> 2"
  using ingress_history_bounded [OF ih_reachable.start, of "[8]" "example_known (Completed (WasmReply [1, 2, 3]))" 5 2]
  by blast

end
