(* ===== verification/SubnetCanisters.thy ===== *)
theory SubnetCanisters
  imports ReplicatedState
begin

text \<open>
  The canisters that a subnet hosts: the IDs it gives to new canisters (\<open>SystemMetadata\<close> in
  \<open>rs/replicated_state/src/metadata_state.rs\<close>), the canisters that no longer belong to it
  (\<open>rs/replicated_state/src/routing.rs\<close>) and their removal (\<open>rs/messaging/src/state_machine.rs\<close>). As for the
  routing table, \<open>fr\<close> and \<open>into\<close> convert between numbers and canister IDs.
\<close>

section \<open>New canister IDs\<close>

text \<open>\<open>rev().find\<close>: the last range of the subnet that has the size of an allocation range and is aligned to it.\<close>

fun find_allocation_range ::
  "('p \<Rightarrow> u64 option) \<Rightarrow> 'p canister_id_range list \<Rightarrow> 'p canister_id_range option option" where
  "find_allocation_range into [] = Some None"
| "find_allocation_range into (r # rs) =
     do {
       s \<leftarrow> into (r_start r);
       e \<leftarrow> into (r_end r);
       found \<leftarrow>
         (if s mod CANISTER_IDS_PER_SUBNET = 0 then
            do {
              n \<leftarrow> add_checked s CANISTER_IDS_PER_SUBNET;
              n1 \<leftarrow> sub_checked n 1;
              Some (e = n1)
            }
          else Some False);
       (if found then Some (Some r) else find_allocation_range into rs)
     }"

definition init_allocation_ranges_if_empty ::
  "('p::linorder \<Rightarrow> u64 option) \<Rightarrow> 'p system_metadata \<Rightarrow> ((string + unit) \<times> 'p system_metadata) option" where
  "init_allocation_ranges_if_empty into md =
     (if md_canister_allocation_ranges md \<noteq> [] then Some (Inr (), md)
      else
        do {
          found \<leftarrow> find_allocation_range into
            (rev (rt_ranges (nt_routing_table (md_network_topology md)) (md_own_subnet_id md)));
          (case found of
             None \<Rightarrow> Some (Inl ''No range of length CANISTER_IDS_PER_SUBNET in routing table'', md)
           | Some r \<Rightarrow>
               (case ranges_try_from [r] of
                  Inl _ \<Rightarrow> None
                | Inr rs \<Rightarrow> Some (Inr (), md\<lparr>md_canister_allocation_ranges := rs\<rparr>)))
        })"

text \<open>Dropping the first ranges that are consumed, but never the last one.\<close>

fun drop_consumed :: "'p::linorder \<Rightarrow> 'p canister_id_range list \<Rightarrow> 'p canister_id_range list" where
  "drop_consumed c (r # s # rs) = (if range_contains r c then r # s # rs else drop_consumed c (s # rs))"
| "drop_consumed c rs = rs"

datatype new_canister_id_error =
    IntersectionNotWellFormed well_formed_error
  | DifferenceNotWellFormed well_formed_error
  | AllocationConsumed

definition generate_new_canister_id ::
  "(u64 \<Rightarrow> 'p::linorder) \<Rightarrow> ('p \<Rightarrow> u64 option) \<Rightarrow> 'p system_metadata
   \<Rightarrow> ((new_canister_id_error + 'p) \<times> 'p system_metadata) option" where
  "generate_new_canister_id fr into md =
     (let nt = md_network_topology md;
          own_subnet_ranges = rt_ranges (nt_routing_table nt) (md_own_subnet_id md) in
      case intersection (md_canister_allocation_ranges md) own_subnet_ranges of
        Inl err \<Rightarrow> Some (Inl (IntersectionNotWellFormed err), md)
      | Inr own_allocation \<Rightarrow>
          do {
            d \<leftarrow> difference fr into own_allocation (map fst (nt_canister_migrations nt));
            (case d of
               Inl err \<Rightarrow> Some (Inl (DifferenceNotWellFormed err), md)
             | Inr canister_allocation_ranges \<Rightarrow>
                 do {
                   res \<leftarrow> ranges_generate_canister_id fr into canister_allocation_ranges (md_last_generated_canister_id md);
                   Some (case res of
                      None \<Rightarrow> (Inl AllocationConsumed, md)
                    | Some c \<Rightarrow>
                        (Inr c,
                         md\<lparr>md_last_generated_canister_id := Some c,
                            md_canister_allocation_ranges := drop_consumed c (md_canister_allocation_ranges md)\<rparr>))
                 })
          })"

section \<open>Canisters that are not in the routing table\<close>

text \<open>\<open>BTreeMap::range\<close> with bounds that are exclusive or missing; an empty pair of bounds panics.\<close>

datatype 'k bound = Unbounded | Excluded 'k

fun after :: "'k::linorder bound \<Rightarrow> 'k \<Rightarrow> bool" where
  "after Unbounded k \<longleftrightarrow> True"
| "after (Excluded a) k \<longleftrightarrow> a < k"

fun before :: "'k::linorder bound \<Rightarrow> 'k \<Rightarrow> bool" where
  "before Unbounded k \<longleftrightarrow> True"
| "before (Excluded b) k \<longleftrightarrow> k < b"

definition bt_range_bounds :: "('k::linorder, 'v) btree \<Rightarrow> 'k bound \<times> 'k bound \<Rightarrow> ('k, 'v) btree option" where
  "bt_range_bounds m b =
     (case b of
        (Excluded a, Excluded c) \<Rightarrow> if c \<le> a then None else Some (filter (\<lambda>e. a < fst e \<and> fst e < c) m)
      | (l, r) \<Rightarrow> Some (filter (\<lambda>e. after l (fst e) \<and> before r (fst e)) m))"

definition find_canisters_not_in_routing_table :: "'p::linorder replicated_state \<Rightarrow> 'p \<Rightarrow> 'p list option" where
  "find_canisters_not_in_routing_table s own_subnet_id =
     (let id_ranges = rt_ranges (nt_routing_table (md_network_topology (rs_metadata s))) own_subnet_id;
          lbounds = Unbounded # map (\<lambda>l. Excluded (r_end l)) id_ranges;
          rbounds = map (\<lambda>r. Excluded (r_start r)) id_ranges @ [Unbounded] in
      if id_ranges = [] then Some (map fst (rs_canister_states s))
      else map_option (\<lambda>ms. map fst (concat ms))
             (those (map (bt_range_bounds (rs_canister_states s)) (zip lbounds rbounds))))"

fun ids_without_trace :: "(u64 \<Rightarrow> 'p::linorder) \<Rightarrow> 'p canister_migrations \<Rightarrow> 'p list \<Rightarrow> 'p list option" where
  "ids_without_trace fr canister_migrations [] = Some []"
| "ids_without_trace fr canister_migrations (c # cs) =
     do {
       trace \<leftarrow> cm_lookup fr canister_migrations c;
       rest \<leftarrow> ids_without_trace fr canister_migrations cs;
       Some (case trace of Some _ \<Rightarrow> rest | None \<Rightarrow> c # rest)
     }"

definition find_canisters_to_remove ::
  "(u64 \<Rightarrow> 'p::linorder) \<Rightarrow> 'p replicated_state \<Rightarrow> 'p \<Rightarrow> 'p list option" where
  "find_canisters_to_remove fr s own_subnet_id =
     do {
       ids_not_in_routing_table \<leftarrow> find_canisters_not_in_routing_table s own_subnet_id;
       ids_without_trace fr (nt_canister_migrations (md_network_topology (rs_metadata s))) ids_not_in_routing_table
     }"

text \<open>One iteration of the loop of \<open>remove_canisters_not_in_routing_table\<close>.\<close>

definition remove_if_stopped :: "'p \<Rightarrow> ('p, 'p canister_state) btree \<Rightarrow> ('p, 'p canister_state) btree" where
  "remove_if_stopped c cs =
     (case bt_get cs c of
        Some canister_state \<Rightarrow>
          if sys_status (can_system_state canister_state) \<noteq> Stopped then cs else bt_remove c cs
      | None \<Rightarrow> bt_remove c cs)"

definition remove_canisters_not_in_routing_table ::
  "(u64 \<Rightarrow> 'p::linorder) \<Rightarrow> 'p replicated_state \<Rightarrow> 'p replicated_state option" where
  "remove_canisters_not_in_routing_table fr s =
     map_option (\<lambda>ids. s\<lparr>rs_canister_states := fold remove_if_stopped ids (rs_canister_states s)\<rparr>)
       (find_canisters_to_remove fr s (md_own_subnet_id (rs_metadata s)))"

end
