(* ===== verification/SubnetCanisters_Spec.thy ===== *)
theory SubnetCanisters_Spec
  imports SubnetCanisters RoutingTable_Spec
begin

text \<open>
  Which canisters a subnet hosts: new canister IDs are the next free ones of the subnet, and exactly the stopped
  canisters that the routing table assigns elsewhere are removed.
\<close>

section \<open>Ranges of a subnet\<close>

lemma rt_ranges_filter: "rt_ranges t own = map fst (filter (\<lambda>e. snd e = own) t)"
  by (induction t) (auto simp: rt_ranges_def List.map_filter_simps)

lemma ascending_map_filter: "ascending (map fst t) \<Longrightarrow> ascending (map fst (filter P t))"
  by (induction t) (auto simp: ascending_Cons)

lemma ascending_rt_ranges:
  "rt_ok fr t \<Longrightarrow> ascending (rt_ranges t own)" "rt_ok fr t \<Longrightarrow> list_all (numbered fr) (rt_ranges t own)"
  by (auto simp: rt_ok_def rt_ranges_filter ascending_map_filter list_all_iff)

lemma lookup_unique:
  assumes "ascending (map fst t)" and "e \<in> set t" and "range_contains (fst e) c"
  shows "find (\<lambda>e. range_contains (fst e) c) t = Some e"
  using assms
proof (induction t)
  case (Cons x t)
  have "\<not> range_contains (fst x) c" if "e \<in> set t"
    using Cons.prems(1,3) that by (force simp: ascending_Cons range_contains_def)
  then show ?case using Cons by (auto simp: ascending_Cons)
qed simp

lemma lookup_total:
  assumes "canister_numbering fr into" and "rt_ok fr t"
  shows "lookup_in_ranges fr t c = Some (find (\<lambda>e. range_contains (fst e) c) t)"
  using canister_numbering.lookup_ok [OF assms] .

lemma in_rt_ranges_iff:
  assumes "canister_numbering fr into" and "rt_ok fr t"
  shows "in_ranges (rt_ranges t own) c \<longleftrightarrow> map_option (map_option snd) (lookup_in_ranges fr t c) = Some (Some own)"
proof -
  have asc: "ascending (map fst t)" using assms(2) by (simp add: rt_ok_def)
  have "in_ranges (rt_ranges t own) c \<longleftrightarrow> (\<exists>e\<in>set t. snd e = own \<and> range_contains (fst e) c)"
    unfolding in_ranges_def rt_ranges_filter set_map set_filter by blast
  also have "\<dots> \<longleftrightarrow> (\<exists>e. find (\<lambda>e. range_contains (fst e) c) t = Some e \<and> snd e = own)"
  proof
    assume "\<exists>e\<in>set t. snd e = own \<and> range_contains (fst e) c"
    then show "\<exists>e. find (\<lambda>e. range_contains (fst e) c) t = Some e \<and> snd e = own" using lookup_unique [OF asc] by blast
  next
    assume "\<exists>e. find (\<lambda>e. range_contains (fst e) c) t = Some e \<and> snd e = own"
    then obtain e where e: "find (\<lambda>e. range_contains (fst e) c) t = Some e" "snd e = own" by blast
    then have "e \<in> set t" "range_contains (fst e) c" unfolding find_Some_iff by auto
    then show "\<exists>e\<in>set t. snd e = own \<and> range_contains (fst e) c" using e(2) by blast
  qed
  finally show ?thesis by (auto simp: lookup_total [OF assms])
qed

section \<open>Canisters not in the routing table\<close>

lemma filter_append_sorted:
  assumes "sorted_wrt (<) (map fst m)" and "\<And>k k'. P k \<Longrightarrow> Q k' \<Longrightarrow> k < (k' :: 'k::linorder)"
  shows "filter (\<lambda>e. P (fst e)) m @ filter (\<lambda>e. Q (fst e)) m = filter (\<lambda>e. P (fst e) \<or> Q (fst e)) m"
  using assms(1)
proof (induction m)
  case (Cons e m)
  consider "P (fst e)" "\<not> Q (fst e)" | "\<not> P (fst e)" "Q (fst e)" | "\<not> P (fst e)" "\<not> Q (fst e)"
    using assms(2) by blast
  then show ?case
  proof cases
    case 2
    have "\<not> P (fst f)" if "f \<in> set m" for f
      using Cons.prems that assms(2) [of "fst f" "fst e"] 2(2) by auto
    then have "filter (\<lambda>e. P (fst e)) m = []" by (simp add: filter_empty_conv)
    then show ?thesis using Cons 2 by simp
  qed (use Cons in simp_all)
qed simp

text \<open>The gaps between ranges, from a bound \<open>lb\<close> before all of them on.\<close>

lemma gaps_ok:
  assumes "ascending rs" and "sorted_wrt (<) (map fst m)" and "\<forall>r\<in>set rs. after lb (r_start r)"
  shows "\<exists>ms. those (map (bt_range_bounds m)
        (zip (lb # map (\<lambda>l. Excluded (r_end l)) rs) (map (\<lambda>r. Excluded (r_start r)) rs @ [Unbounded]))) = Some ms
    \<and> concat ms = filter (\<lambda>e. after lb (fst e) \<and> \<not> in_ranges rs (fst e)) m"
  using assms
proof (induction rs arbitrary: lb)
  case Nil
  then show ?case by (cases lb) (auto simp: bt_range_bounds_def)
next
  case (Cons r rs)
  have later: "\<forall>s\<in>set rs. r_end r < r_start s" and "r_start r \<le> r_end r" "ascending rs"
    using Cons.prems(1) by (auto simp: ascending_Cons nonempty_def)
  then obtain ms where ms: "those (map (bt_range_bounds m)
        (zip (Excluded (r_end r) # map (\<lambda>l. Excluded (r_end l)) rs) (map (\<lambda>r. Excluded (r_start r)) rs @ [Unbounded]))) = Some ms"
      "concat ms = filter (\<lambda>e. r_end r < fst e \<and> \<not> in_ranges rs (fst e)) m"
    using Cons.IH [of "Excluded (r_end r)"] Cons.prems(2) by auto
  have first: "bt_range_bounds m (lb, Excluded (r_start r)) = Some (filter (\<lambda>e. after lb (fst e) \<and> fst e < r_start r) m)"
    using Cons.prems(3) by (cases lb) (auto simp: bt_range_bounds_def)
  have "filter (\<lambda>e. after lb (fst e) \<and> fst e < r_start r) m @ concat ms
      = filter (\<lambda>e. (after lb (fst e) \<and> fst e < r_start r) \<or> (r_end r < fst e \<and> \<not> in_ranges rs (fst e))) m"
    unfolding ms(2) using \<open>r_start r \<le> r_end r\<close> by (intro filter_append_sorted Cons.prems(2)) auto
  also have "\<dots> = filter (\<lambda>e. after lb (fst e) \<and> \<not> in_ranges (r # rs) (fst e)) m"
  proof (intro filter_cong refl)
    fix e
    have "\<not> in_ranges rs k" if "k < r_start r" for k
      using later that \<open>r_start r \<le> r_end r\<close> by (force simp: in_ranges_def range_contains_def)
    moreover have "after lb k" if "r_end r < k" for k
      using Cons.prems(3) that \<open>r_start r \<le> r_end r\<close> by (cases lb) auto
    ultimately show "(after lb (fst e) \<and> fst e < r_start r \<or> r_end r < fst e \<and> \<not> in_ranges rs (fst e))
        = (after lb (fst e) \<and> \<not> in_ranges (r # rs) (fst e))"
      by (auto simp: range_contains_def)
  qed
  finally show ?case using ms(1) first by auto
qed

lemma find_not_in_table_ok:
  assumes "rt_ok fr (nt_routing_table (md_network_topology (rs_metadata s)))" and "bt_wf (rs_canister_states s)"
  shows "find_canisters_not_in_routing_table s own
    = Some (filter (\<lambda>c. \<not> in_ranges (rt_ranges (nt_routing_table (md_network_topology (rs_metadata s))) own) c)
        (map fst (rs_canister_states s)))"
proof -
  let ?rs = "rt_ranges (nt_routing_table (md_network_topology (rs_metadata s))) own"
  obtain ms where "those (map (bt_range_bounds (rs_canister_states s))
        (zip (Unbounded # map (\<lambda>l. Excluded (r_end l)) ?rs) (map (\<lambda>r. Excluded (r_start r)) ?rs @ [Unbounded]))) = Some ms"
      "concat ms = filter (\<lambda>e. \<not> in_ranges ?rs (fst e)) (rs_canister_states s)"
    using gaps_ok [OF ascending_rt_ranges(1) [OF assms(1)], of "rs_canister_states s" own, where lb = Unbounded] assms(2)
    by (auto simp: bt_wf_def)
  then show ?thesis
    by (cases "?rs = []") (simp_all add: find_canisters_not_in_routing_table_def Let_def filter_map comp_def)
qed

section \<open>Removing canisters\<close>

lemma ids_without_trace_ok:
  assumes "\<And>c. cm_lookup fr m c \<noteq> None"
  shows "ids_without_trace fr m cs = Some (filter (\<lambda>c. cm_lookup fr m c = Some None) cs)"
proof (induction cs)
  case (Cons c cs)
  obtain t where "cm_lookup fr m c = Some t" using assms by blast
  then show ?case using Cons by (cases t) auto
qed simp

definition keep_if :: "('a \<Rightarrow> bool) \<Rightarrow> 'a option \<Rightarrow> 'a option" where
  "keep_if P x = (case x of None \<Rightarrow> None | Some y \<Rightarrow> if P y then Some y else None)"

lemma keep_if_simps [simp]: "keep_if P None = None" "keep_if P (Some y) = (if P y then Some y else None)"
  by (simp_all add: keep_if_def)

lemma keep_if_True [simp]: "keep_if (\<lambda>x. True) y = y"
  by (cases y) simp_all

definition stopped :: "'p canister_state \<Rightarrow> bool" where
  "stopped c \<longleftrightarrow> sys_status (can_system_state c) = Stopped"

lemma remove_if_stopped_ok:
  assumes "bt_wf cs"
  shows "bt_wf (remove_if_stopped c cs)"
    and "bt_get (remove_if_stopped c cs) k = keep_if (\<lambda>x. \<not> (k = c \<and> stopped x)) (bt_get cs k)"
  using assms
  by (auto simp: remove_if_stopped_def bt.wf_del bt.get_del stopped_def split: option.splits)

lemma fold_remove_ok:
  "bt_wf cs \<Longrightarrow> bt_wf (fold remove_if_stopped ids cs)
    \<and> bt_get (fold remove_if_stopped ids cs) k = keep_if (\<lambda>x. \<not> (k \<in> set ids \<and> stopped x)) (bt_get cs k)"
proof (induction ids arbitrary: cs)
  case Nil
  then show ?case by (cases "bt_get cs k") auto
next
  case (Cons c ids)
  then show ?case using remove_if_stopped_ok [OF Cons.prems] Cons.IH [of "remove_if_stopped c cs"]
    by (cases "bt_get cs k") auto
qed

text \<open>
  C15. The search through the gaps between the ranges of a subnet finds exactly the canisters that the routing
  table does not assign to the subnet, as the search through all canisters does. Those of them that are
  stopped and are not being migrated are removed, and nothing else changes.
\<close>

theorem canister_removal_exact:
  assumes "canister_numbering fr into" and "bt_wf (rs_canister_states s)"
    and "rt_ok fr (nt_routing_table (md_network_topology (rs_metadata s)))"
    and "rt_ok fr (nt_canister_migrations (md_network_topology (rs_metadata s)))"
    and "\<forall>c\<in>set (map fst (rs_canister_states s)). c \<notin> set (map snd (nt_routing_table (md_network_topology (rs_metadata s))))"
  shows "find_canisters_not_in_routing_table s own
      = Some (filter (\<lambda>c. rt_route fr (nt_routing_table (md_network_topology (rs_metadata s))) c \<noteq> Some (Some own))
          (map fst (rs_canister_states s)))
    \<and> (\<exists>cs. remove_canisters_not_in_routing_table fr s = Some (s\<lparr>rs_canister_states := cs\<rparr>)
        \<and> (\<forall>c. bt_get cs c = keep_if
              (\<lambda>x. \<not> (stopped x
                  \<and> rt_route fr (nt_routing_table (md_network_topology (rs_metadata s))) c \<noteq> Some (Some (md_own_subnet_id (rs_metadata s)))
                  \<and> cm_lookup fr (nt_canister_migrations (md_network_topology (rs_metadata s))) c = Some None))
              (bt_get (rs_canister_states s) c)))"
proof -
  let ?rt = "nt_routing_table (md_network_topology (rs_metadata s))"
  let ?cm = "nt_canister_migrations (md_network_topology (rs_metadata s))"
  let ?cs = "rs_canister_states s" and ?own = "md_own_subnet_id (rs_metadata s)"
  have route: "\<not> in_ranges (rt_ranges ?rt o1) c \<longleftrightarrow> rt_route fr ?rt c \<noteq> Some (Some o1)" if "c \<in> set (map fst ?cs)" for c o1
  proof -
    have "c \<notin> set (map snd ?rt)" using assms(5) that by (rule bspec)
    then have "find (\<lambda>x. x = c) (map snd ?rt) = None" unfolding find_None_iff by blast
    then show ?thesis by (simp add: in_rt_ranges_iff [OF assms(1,3)] rt_route_def)
  qed
  have found: "find_canisters_not_in_routing_table s o1
      = Some (filter (\<lambda>c. rt_route fr ?rt c \<noteq> Some (Some o1)) (map fst ?cs))" for o1
    unfolding find_not_in_table_ok [OF assms(3,2)] by (intro arg_cong [of _ _ Some] filter_cong refl route)
  have "cm_lookup fr ?cm c \<noteq> None" for c by (simp add: cm_lookup_def lookup_total [OF assms(1,4)])
  from ids_without_trace_ok [of fr ?cm, OF this] have ids: "find_canisters_to_remove fr s ?own
      = Some (filter (\<lambda>c. cm_lookup fr ?cm c = Some None)
          (filter (\<lambda>c. rt_route fr ?rt c \<noteq> Some (Some ?own)) (map fst ?cs)))" (is "_ = Some ?ids")
    by (simp add: find_canisters_to_remove_def found)
  have key: "c \<in> set (map fst ?cs)" if "bt_get ?cs c = Some x" for c x
    using that by (force simp: bt.get_iff_entry [OF assms(2)])
  have "bt_get (fold remove_if_stopped ?ids ?cs) c = keep_if
        (\<lambda>x. \<not> (stopped x \<and> rt_route fr ?rt c \<noteq> Some (Some ?own) \<and> cm_lookup fr ?cm c = Some None)) (bt_get ?cs c)" for c
    using fold_remove_ok [OF assms(2), of ?ids c] key [of c] by (cases "bt_get ?cs c") simp_all
  then have "remove_canisters_not_in_routing_table fr s = Some (s\<lparr>rs_canister_states := fold remove_if_stopped ?ids ?cs\<rparr>)
      \<and> (\<forall>c. bt_get (fold remove_if_stopped ?ids ?cs) c = keep_if
        (\<lambda>x. \<not> (stopped x \<and> rt_route fr ?rt c \<noteq> Some (Some ?own) \<and> cm_lookup fr ?cm c = Some None)) (bt_get ?cs c))"
    by (simp add: remove_canisters_not_in_routing_table_def ids)
  then show ?thesis using found [of own] by blast
qed

text \<open>Canister 3 belongs to subnet 100, canister 12 has been moved to subnet 200 and is stopped.\<close>

definition example_canister :: "u64 \<Rightarrow> u8 list canister_status \<Rightarrow> u8 list canister_state" where
  "example_canister n status =
     \<lparr>can_system_state = sys_new example_layout (example_fr n) [1] 0 status, can_execution_state = None\<rparr>"

definition example_metadata :: "u8 list system_metadata" where
  "example_metadata =
     \<lparr>md_streams = ss_new, md_own_subnet_id = [100], md_own_subnet_type = Application,
      md_network_topology = \<lparr>nt_subnet_types = [], nt_routing_table = example_rt, nt_canister_migrations = []\<rparr>,
      md_certification_version = V10, md_batch_time = 0, md_ingress_history = ih_default,
      md_canister_allocation_ranges = [make_range example_fr 2 6], md_last_generated_canister_id = Some (example_fr 3)\<rparr>"

definition example_hosting :: "u8 list replicated_state" where
  "example_hosting =
     \<lparr>rs_canister_states = [(example_fr 3, example_canister 3 Stopped), (example_fr 12, example_canister 12 Stopped)],
      rs_metadata = example_metadata, rs_subnet_queues = cq_default example_layout, rs_consensus_queue = []\<rparr>"

lemma example_metadata_tables:
  "rt_ok example_fr (nt_routing_table (md_network_topology example_metadata))"
  "rt_ok example_fr (nt_canister_migrations (md_network_topology example_metadata))"
  by (simp_all add: example_metadata_def rt_ok_def example_rt_def ascending_Cons)

lemma example_fr_not_subnet: "example_fr n \<noteq> [k]"
  by (simp add: canister_id_from_u64_def new_opaque_from_array_def u64_to_be_bytes_def upt_rec)

theorem canister_removal_exact_witness:
  "find_canisters_not_in_routing_table example_hosting [100] = Some [example_fr 12]
    \<and> map_option (\<lambda>s. bt_get (rs_canister_states s) (example_fr 12))
        (remove_canisters_not_in_routing_table example_fr example_hosting) = Some None"
proof -
  have wf: "bt_wf (rs_canister_states example_hosting)" by (simp add: example_hosting_def bt_wf_def)
  have md: "rs_metadata example_hosting = example_metadata" by (simp add: example_hosting_def)
  have ids: "\<forall>c\<in>set (map fst (rs_canister_states example_hosting)).
      c \<notin> set (map snd (nt_routing_table (md_network_topology (rs_metadata example_hosting))))"
    using example_fr_not_subnet by (auto simp: example_hosting_def example_metadata_def example_rt_def)
  note exact = canister_removal_exact [OF cid.canister_numbering_axioms wf example_metadata_tables [folded md] ids, of "[100]"]
  have route: "rt_route example_fr example_rt (example_fr 3) = Some (Some [100])"
      "rt_route example_fr example_rt (example_fr 12) \<noteq> Some (Some [100])"
    using example_fr_not_subnet example_fr_not_subnet [symmetric] lookup_total [OF cid.canister_numbering_axioms example_metadata_tables(1)]
    by (simp_all add: rt_route_def example_metadata_def example_rt_def range_contains_def)
  have nt: "nt_routing_table (md_network_topology (rs_metadata example_hosting)) = example_rt"
      "nt_canister_migrations (md_network_topology (rs_metadata example_hosting)) = []"
      "md_own_subnet_id (rs_metadata example_hosting) = [100]"
    by (simp_all add: example_hosting_def example_metadata_def)
  have "cm_lookup example_fr [] c = Some None" for c by (simp add: cm_lookup_def lookup_in_ranges_def bt_last_le_def)
  then show ?thesis using exact route unfolding nt
    by (auto simp: example_hosting_def bt_get_def stopped_def example_canister_def sys_new_def)
qed

section \<open>New canister IDs\<close>

context canister_numbering
begin

lemma intersection_loop_numbered:
  "list_all (numbered fr) ls \<Longrightarrow> list_all (numbered fr) rs \<Longrightarrow> list_all (numbered fr) (intersection_loop ls rs)"
proof (induction ls rs rule: intersection_loop.induct)
  case (1 l ls r rs)
  obtain a b c d where lr: "l = make_range fr a b" "r = make_range fr c d" using 1(3,4) by (auto simp: numbered_def)
  have "max (fr a) (fr c) = fr (max a c)" "min (fr b) (fr d) = fr (min b d)" by (simp_all add: max_def min_def)
  then have "numbered fr (CanisterIdRange (max (r_start l) (r_start r)) (min (r_end l) (r_end r)))"
    by (auto simp: lr numbered_def make_range_def)
  then show ?case using 1 by (simp add: Let_def)
qed simp_all

lemma generate_first:
  assumes "ascending rs" and "list_all (numbered fr) rs"
  shows "\<exists>res. ranges_generate_canister_id fr into rs None = Some (map_option fr res)
    \<and> (case res of None \<Rightarrow> \<forall>n. \<not> in_ranges rs (fr n) | Some n \<Rightarrow> in_ranges rs (fr n) \<and> (\<forall>m. in_ranges rs (fr m) \<longrightarrow> n \<le> m))"
proof (cases rs)
  case (Cons r rs')
  obtain a b where r: "r = make_range fr a b" using assms(2) by (auto simp: Cons numbered_def)
  have "a \<le> b" and later: "\<forall>s\<in>set rs'. fr b < r_start s" using assms(1) by (simp_all add: Cons r ascending_Cons)
  have "a \<le> m" if "in_ranges rs (fr m)" for m
  proof (cases "in_ranges rs' (fr m)")
    case True
    then obtain s where "s \<in> set rs'" "r_start s \<le> fr m" by (auto simp: in_ranges_def range_contains_def)
    then have "fr b < fr m" using order.strict_trans2 [OF bspec [OF later]] by blast
    then show ?thesis using \<open>a \<le> b\<close> by simp
  next
    case False
    then show ?thesis using that by (simp add: Cons r)
  qed
  moreover have "in_ranges rs (fr a)" "ranges_generate_canister_id fr into rs None = Some (Some (fr a))"
    using \<open>a \<le> b\<close> by (simp_all add: Cons r range_generate_canister_id_def)
  ultimately show ?thesis by (intro exI [of _ "Some a"]) simp
qed simp

end

text \<open>The numbers of the IDs that a subnet can still give to new canisters.\<close>

definition new_ids :: "(u64 \<Rightarrow> 'p::linorder) \<Rightarrow> 'p system_metadata \<Rightarrow> u64 \<Rightarrow> bool" where
  "new_ids fr md n \<longleftrightarrow>
     in_ranges (md_canister_allocation_ranges md) (fr n)
     \<and> in_ranges (rt_ranges (nt_routing_table (md_network_topology md)) (md_own_subnet_id md)) (fr n)
     \<and> \<not> in_ranges (map fst (nt_canister_migrations (md_network_topology md))) (fr n)
     \<and> (\<forall>p. md_last_generated_canister_id md = Some p \<longrightarrow> p < fr n)"

definition metadata_ok :: "(u64 \<Rightarrow> 'p::linorder) \<Rightarrow> 'p system_metadata \<Rightarrow> bool" where
  "metadata_ok fr md \<longleftrightarrow>
     rt_ok fr (nt_routing_table (md_network_topology md)) \<and> rt_ok fr (nt_canister_migrations (md_network_topology md))
     \<and> ascending (md_canister_allocation_ranges md) \<and> list_all (numbered fr) (md_canister_allocation_ranges md)
     \<and> (\<forall>p. md_last_generated_canister_id md = Some p \<longrightarrow> p \<in> range fr)"

lemma next_new_id:
  assumes "canister_numbering fr into" and "metadata_ok fr md" and "ascending d" and "list_all (numbered fr) d"
    and d: "\<forall>n. in_ranges d (fr n) \<longleftrightarrow>
      (in_ranges (md_canister_allocation_ranges md) (fr n)
        \<and> in_ranges (rt_ranges (nt_routing_table (md_network_topology md)) (md_own_subnet_id md)) (fr n))
      \<and> \<not> in_ranges (map fst (nt_canister_migrations (md_network_topology md))) (fr n)"
  shows "\<exists>res. ranges_generate_canister_id fr into d (md_last_generated_canister_id md) = Some (map_option fr res)
    \<and> (case res of None \<Rightarrow> \<forall>n. \<not> new_ids fr md n | Some n \<Rightarrow> new_ids fr md n \<and> (\<forall>m. new_ids fr md m \<longrightarrow> n \<le> m))"
proof (cases "md_last_generated_canister_id md")
  case None
  then have new: "new_ids fr md n \<longleftrightarrow> in_ranges d (fr n)" for n using d by (simp add: new_ids_def)
  show ?thesis unfolding new None by (rule canister_numbering.generate_first [OF assms(1,3,4)])
next
  case (Some c)
  then obtain p where p: "c = fr p" using assms(2) by (auto simp: metadata_ok_def)
  have new: "new_ids fr md n \<longleftrightarrow> in_ranges d (fr n) \<and> p < n" for n
    using d canister_numbering.fr_less [OF assms(1), of p n] by (auto simp: new_ids_def Some p)
  obtain res where "ranges_generate_canister_id fr into d (Some (fr p)) = Some (map_option fr res)"
      "canister_numbering.is_next {n. in_ranges d (fr n)} p res"
    using canister_numbering.generate_ok [OF assms(1,3,4), of p] by (auto simp: canister_numbering.ids_def [OF assms(1)])
  then show ?thesis
    by (intro exI [of _ res]) (cases res; auto simp: Some p new canister_numbering.is_next_def [OF assms(1)])
qed

lemma drop_consumed_ok:
  "ascending rs \<Longrightarrow> in_ranges rs c \<Longrightarrow>
    (\<exists>xs. rs = xs @ drop_consumed c rs) \<and> (\<forall>k. c \<le> k \<longrightarrow> in_ranges (drop_consumed c rs) k = in_ranges rs k)"
proof (induction c rs rule: drop_consumed.induct)
  case (1 c r s rs)
  show ?case
  proof (cases "range_contains r c")
    case False
    have asc: "ascending (s # rs)" and later: "\<forall>q\<in>set (s # rs). r_end r < r_start q"
      using 1(2) by (simp_all add: ascending_Cons)
    have c: "in_ranges (s # rs) c" using 1(3) False by (simp add: in_ranges_def)
    then obtain q where "q \<in> set (s # rs)" "r_start q \<le> c" unfolding in_ranges_def range_contains_def by blast
    then have "r_end r < c" using later by (auto intro: order.strict_trans2)
    then have "\<not> range_contains r k" if "c \<le> k" for k using that by (auto simp: range_contains_def)
    moreover obtain xs where "s # rs = xs @ drop_consumed c (s # rs)"
      "\<forall>k. c \<le> k \<longrightarrow> in_ranges (drop_consumed c (s # rs)) k = in_ranges (s # rs) k"
      using 1(1) [OF False asc c] by blast
    ultimately show ?thesis using False by (intro conjI exI [of _ "r # xs"]) (simp_all add: in_ranges_def)
  qed simp
qed simp_all

lemma new_id_used:
  assumes "canister_numbering fr into" and "metadata_ok fr md"
    and n: "new_ids fr md n" "\<And>m. new_ids fr md m \<Longrightarrow> n \<le> m"
  defines "md' \<equiv> md\<lparr>md_last_generated_canister_id := Some (fr n),
    md_canister_allocation_ranges := drop_consumed (fr n) (md_canister_allocation_ranges md)\<rparr>"
  shows "metadata_ok fr md' \<and> (\<forall>m. new_ids fr md' m \<longleftrightarrow> new_ids fr md m \<and> m \<noteq> n)"
proof (intro conjI allI)
  let ?alloc = "md_canister_allocation_ranges md"
  have ok: "ascending ?alloc" "list_all (numbered fr) ?alloc" using assms(2) by (simp_all add: metadata_ok_def)
  obtain xs where xs: "?alloc = xs @ drop_consumed (fr n) ?alloc"
      "\<And>k. fr n \<le> k \<Longrightarrow> in_ranges (drop_consumed (fr n) ?alloc) k = in_ranges ?alloc k"
    using drop_consumed_ok [OF ok(1), of "fr n"] n(1) by (auto simp: new_ids_def)
  have "ascending (drop_consumed (fr n) ?alloc)" "list_all (numbered fr) (drop_consumed (fr n) ?alloc)"
    using ok xs(1) by (metis ascending_append, metis list_all_append)
  then show "metadata_ok fr md'" using assms(2) by (simp add: metadata_ok_def md'_def)
  have less: "fr a < fr b \<longleftrightarrow> a < b" "fr a \<le> fr b \<longleftrightarrow> a \<le> b" for a b
    using canister_numbering.fr_less [OF assms(1)] canister_numbering.fr_le [OF assms(1)] by blast+
  fix m show "new_ids fr md' m \<longleftrightarrow> new_ids fr md m \<and> m \<noteq> n"
  proof (cases "n < m")
    case True
    then have "fr n < fr m" by (simp add: less)
    then have "p < fr m" if "md_last_generated_canister_id md = Some p" for p
      using n(1) that order.strict_trans [of p "fr n" "fr m"] by (simp add: new_ids_def)
    then show ?thesis using xs(2) [of "fr m"] True by (auto simp: new_ids_def less md'_def)
  next
    case False
    then have "\<not> new_ids fr md' m" by (auto simp: new_ids_def less md'_def)
    then show ?thesis using n(2) [of m] False by auto
  qed
qed

text \<open>
  C16. A new canister ID is the least one that is allocated and assigned to the subnet, not being migrated and larger
  than the last one that was generated. Exactly this ID is then no longer available. Generating fails
  only if no such ID is left, and never panics.
\<close>

theorem new_canister_id_next:
  assumes "canister_numbering fr into" and "metadata_ok fr md"
  shows "\<exists>r md'. generate_new_canister_id fr into md = Some (r, md') \<and> metadata_ok fr md' \<and>
    (case r of
       Inl e \<Rightarrow> e = AllocationConsumed \<and> md' = md \<and> (\<forall>n. \<not> new_ids fr md n)
     | Inr c \<Rightarrow> \<exists>n. c = fr n \<and> new_ids fr md n \<and> (\<forall>m. new_ids fr md m \<longrightarrow> n \<le> m)
         \<and> md_last_generated_canister_id md' = Some c \<and> (\<forall>m. new_ids fr md' m \<longleftrightarrow> new_ids fr md m \<and> m \<noteq> n))"
proof -
  let ?own = "rt_ranges (nt_routing_table (md_network_topology md)) (md_own_subnet_id md)"
  let ?alloc = "md_canister_allocation_ranges md" and ?cm = "map fst (nt_canister_migrations (md_network_topology md))"
  have ok: "rt_ok fr (nt_routing_table (md_network_topology md))" "ascending ?cm" "list_all (numbered fr) ?cm"
      "ascending ?alloc" "list_all (numbered fr) ?alloc"
    using assms(2) by (simp_all add: metadata_ok_def rt_ok_def)
  note own = ascending_rt_ranges [OF ok(1), of "md_own_subnet_id md"]
  note i = intersection_loop_ok [OF ok(4) own(1)] canister_numbering.intersection_loop_numbered [OF assms(1) ok(5) own(2)]
  obtain d where d: "difference_loop fr into (intersection_loop ?alloc ?own) ?cm = Some d" "ascending d"
      "list_all (numbered fr) d"
      "\<forall>n. in_ranges d (fr n) \<longleftrightarrow> (in_ranges ?alloc (fr n) \<and> in_ranges ?own (fr n)) \<and> \<not> in_ranges ?cm (fr n)"
    using canister_numbering.difference_loop_ok [OF assms(1) conjunct1 [OF i(1)] i(2) ok(2,3)] i(1) by auto
  obtain res where res: "ranges_generate_canister_id fr into d (md_last_generated_canister_id md) = Some (map_option fr res)"
      "case res of None \<Rightarrow> \<forall>n. \<not> new_ids fr md n | Some n \<Rightarrow> new_ids fr md n \<and> (\<forall>m. new_ids fr md m \<longrightarrow> n \<le> m)"
    using next_new_id [OF assms(1,2) d(2-4)] by blast
  have step: "generate_new_canister_id fr into md = Some (case res of
        None \<Rightarrow> (Inl AllocationConsumed, md)
      | Some n \<Rightarrow> (Inr (fr n), md\<lparr>md_last_generated_canister_id := Some (fr n),
          md_canister_allocation_ranges := drop_consumed (fr n) ?alloc\<rparr>))"
    using i(1) d(1,2) res(1)
    by (cases res) (simp_all add: generate_new_canister_id_def Let_def intersection_def difference_def ranges_try_from_ascending)
  show ?thesis
  proof (cases res)
    case None
    then show ?thesis using step res(2) assms(2) by simp
  next
    case (Some n)
    have n: "new_ids fr md n" "\<And>m. new_ids fr md m \<Longrightarrow> n \<le> m" using res(2) by (simp_all add: Some)
    let ?md = "md\<lparr>md_last_generated_canister_id := Some (fr n), md_canister_allocation_ranges := drop_consumed (fr n) ?alloc\<rparr>"
    have "metadata_ok fr ?md" "\<And>m. new_ids fr ?md m \<longleftrightarrow> new_ids fr md m \<and> m \<noteq> n"
      using new_id_used [OF assms n] by blast+
    then show ?thesis using step n by (intro exI [of _ "Inr (fr n)"] exI [of _ ?md]) (auto simp: Some)
  qed
qed

theorem new_canister_id_next_witness:
  "\<exists>md'. generate_new_canister_id example_fr example_into example_metadata = Some (Inr (example_fr 4), md')"
proof -
  have ok: "metadata_ok example_fr example_metadata"
    using example_metadata_tables by (simp add: metadata_ok_def) (simp add: example_metadata_def ascending_Cons)
  have ids: "new_ids example_fr example_metadata n \<longleftrightarrow> 4 \<le> n \<and> n \<le> 6" for n
    by (auto simp: new_ids_def example_metadata_def rt_ranges_def List.map_filter_simps example_rt_def word_less_nat_alt word_le_nat_alt)
  obtain r md' where r: "generate_new_canister_id example_fr example_into example_metadata = Some (r, md')"
      "case r of
         Inl e \<Rightarrow> e = AllocationConsumed \<and> md' = example_metadata \<and> (\<forall>n. \<not> new_ids example_fr example_metadata n)
       | Inr c \<Rightarrow> \<exists>n. c = example_fr n \<and> new_ids example_fr example_metadata n
           \<and> (\<forall>m. new_ids example_fr example_metadata m \<longrightarrow> n \<le> m)
           \<and> md_last_generated_canister_id md' = Some c
           \<and> (\<forall>m. new_ids example_fr md' m \<longleftrightarrow> new_ids example_fr example_metadata m \<and> m \<noteq> n)"
    using new_canister_id_next [OF cid.canister_numbering_axioms ok] by blast
  have "new_ids example_fr example_metadata 4" by (simp add: ids)
  then obtain n where n: "r = Inr (example_fr n)" "new_ids example_fr example_metadata n" "n \<le> 4"
    using r(2) by (cases r) auto
  then have "n = 4" by (simp add: ids)
  then show ?thesis using r(1) n(1) by blast
qed

end
